(* ===== verification/Prelude.thy ===== *)
theory Prelude
  imports Main "HOL-Library.Multiset" "HOL-Library.Word"
begin

text \<open>
  Shared vocabulary of the development: the machine types of the Rust code, the operations of
  its standard library that the components use (\<open>Vec\<close> as a stack, \<open>swap_remove\<close>, loops that can
  panic), and the generic facts about them.

  Conventions. A \<open>usize\<close>, \<open>u32\<close> or \<open>u64\<close> that is only counted, compared or used as an
  index is a \<open>nat\<close>; hashes and tokens, whose bits are mixed, are words. A Rust \<open>Vec\<close> is a
  list in the same order, so \<open>push\<close> appends at the end and \<open>pop\<close> takes the last
  element. A panic is \<open>None\<close> of a function whose result is an \<open>option\<close>.
\<close>

named_theorems inv_preserved "preservation of the component invariants"
named_theorems vec_simps "facts about vectors used as stacks"

type_synonym token = "32 word"
type_synonym u64w = "64 word"
type_synonym byte = "8 word"

text \<open>\<open>u32::MAX\<close>, the sentinel \<open>no block\<close> / \<open>no disk id\<close>.\<close>

abbreviation U32_MAX :: nat where
  "U32_MAX \<equiv> 4294967295"

text \<open>\<open>x += 1\<close> on a \<open>u32\<close> in a release build: the workspace sets no \<open>overflow-checks\<close>.\<close>

definition u32_succ :: "nat \<Rightarrow> nat" where
  "u32_succ x = (x + 1) mod 4294967296"

lemma u32_succ_small [simp]: "x < U32_MAX \<Longrightarrow> u32_succ x = Suc x"
  by (simp add: u32_succ_def)

text \<open>The value of an \<open>i32\<close> computation that wraps.\<close>

definition wrap_i32 :: "int \<Rightarrow> int" where
  "wrap_i32 x = (x + 2147483648) mod 4294967296 - 2147483648"

lemma wrap_i32_small [simp]: "- 2147483648 \<le> x \<Longrightarrow> x < 2147483648 \<Longrightarrow> wrap_i32 x = x"
  by (simp add: wrap_i32_def)

text \<open>Indexing with \<open>i as usize\<close> of an \<open>i32\<close>; a negative or too large index is a panic.\<close>

definition vec_at :: "'a list \<Rightarrow> int \<Rightarrow> 'a option" where
  "vec_at xs i = (if 0 \<le> i \<and> i < int (length xs) then Some (xs ! nat i) else None)"

subsection \<open>Vec as a stack\<close>

definition vec_pop :: "'a list \<Rightarrow> ('a \<times> 'a list) option" where
  "vec_pop xs = (if xs = [] then None else Some (last xs, butlast xs))"

definition vec_push :: "'a list \<Rightarrow> 'a \<Rightarrow> 'a list" where
  "vec_push xs x = xs @ [x]"

text \<open>\<open>Vec::swap_remove(i)\<close>: the last element takes the place of the removed one.\<close>

definition vec_swap_remove :: "'a list \<Rightarrow> nat \<Rightarrow> 'a list" where
  "vec_swap_remove xs i = butlast (xs[i := last xs])"

text \<open>\<open>iter().position(p)\<close>.\<close>

fun position :: "('a \<Rightarrow> bool) \<Rightarrow> 'a list \<Rightarrow> nat option" where
  "position p [] = None"
| "position p (x # xs) = (if p x then Some 0 else map_option Suc (position p xs))"

lemma vec_pop_None [simp]: "vec_pop xs = None \<longleftrightarrow> xs = []"
  by (simp add: vec_pop_def)

lemma vec_pop_Some: "vec_pop xs = Some (x, ys) \<longleftrightarrow> xs = ys @ [x]"
  by (auto simp: vec_pop_def)

lemma vec_pop_simps [simp]:
  "vec_pop [] = None" "vec_pop (xs @ [x]) = Some (x, xs)"
  by (simp_all add: vec_pop_def)

lemma vec_push_set [simp]: "set (vec_push xs x) = insert x (set xs)"
  by (simp add: vec_push_def)

lemma vec_push_distinct [simp]: "distinct (vec_push xs x) \<longleftrightarrow> x \<notin> set xs \<and> distinct xs"
  by (auto simp: vec_push_def)

lemma vec_push_length [simp]: "length (vec_push xs x) = Suc (length xs)"
  by (simp add: vec_push_def)

lemma vec_push_mset [simp]: "mset (vec_push xs x) = add_mset x (mset xs)"
  by (simp add: vec_push_def)

lemma mset_swap_remove:
  assumes "i < length xs"
  shows "mset (vec_swap_remove xs i) = mset xs - {#xs ! i#}"
proof -
  from assms have ne: "xs \<noteq> []" by auto
  have l: "last xs = xs ! (length xs - 1)" using ne by (simp add: last_conv_nth)
  show ?thesis
  proof (cases "i = length xs - 1")
    case True
    then have "xs[i := last xs] = xs" using l assms by (metis list_update_id)
    then have "vec_swap_remove xs i = butlast xs" by (simp add: vec_swap_remove_def)
    moreover have "mset xs = add_mset (last xs) (mset (butlast xs))"
      using ne by (metis append_butlast_last_id mset_append add_mset_add_single mset.simps(1) mset.simps(2))
    ultimately show ?thesis using True l by simp
  next
    case False
    with assms have i: "i < length (butlast xs)" by simp
    have "xs = butlast xs @ [last xs]" using ne by simp
    then have "xs[i := last xs] = (butlast xs)[i := last xs] @ [last xs]"
      using i by (metis list_update_append1)
    then have "vec_swap_remove xs i = (butlast xs)[i := last xs]"
      by (simp add: vec_swap_remove_def)
    then have "mset (vec_swap_remove xs i)
        = add_mset (last xs) (mset (butlast xs) - {#butlast xs ! i#})"
      using i by (simp add: mset_update)
    moreover have "mset xs = add_mset (last xs) (mset (butlast xs))"
      using ne by (metis append_butlast_last_id mset_append add_mset_add_single mset.simps(1) mset.simps(2))
    moreover have "butlast xs ! i = xs ! i" using i by (simp add: nth_butlast)
    moreover have "xs ! i \<in># mset (butlast xs)" using i by (metis nth_butlast nth_mem set_mset_mset)
    ultimately show ?thesis by (metis add_mset_remove_trivial diff_union_swap2 insert_DiffM add_mset_diff_bothsides)
  qed
qed

lemma set_swap_remove_subset: "i < length xs \<Longrightarrow> set (vec_swap_remove xs i) \<subseteq> set xs"
  by (metis mset_swap_remove set_mset_mset in_diffD subsetI)

lemma length_swap_remove [simp]: "length (vec_swap_remove xs i) = length xs - 1"
  by (simp add: vec_swap_remove_def)

lemma position_Some:
  "position p xs = Some i \<Longrightarrow> i < length xs \<and> p (xs ! i) \<and> (\<forall>j<i. \<not> p (xs ! j))"
proof (induction xs arbitrary: i)
  case (Cons x xs)
  then show ?case
    by (cases "p x") (auto simp: nth_Cons' less_Suc_eq_0_disj)
qed simp

lemma position_None: "position p xs = None \<longleftrightarrow> (\<forall>x \<in> set xs. \<not> p x)"
  by (induction xs) auto

subsection \<open>Loops whose body can panic\<close>

text \<open>\<open>for x in xs { body }\<close> where the body may panic.\<close>

fun for_each :: "('a \<Rightarrow> 's \<Rightarrow> 's option) \<Rightarrow> 'a list \<Rightarrow> 's \<Rightarrow> 's option" where
  "for_each f [] s = Some s"
| "for_each f (x # xs) s = (case f x s of None \<Rightarrow> None | Some s' \<Rightarrow> for_each f xs s')"

lemma for_each_append:
  "for_each f (xs @ ys) s = (case for_each f xs s of None \<Rightarrow> None | Some s' \<Rightarrow> for_each f ys s')"
  by (induction xs arbitrary: s) (auto split: option.splits)

text \<open>A state transformer run over a list of operations, and the invariants it keeps.\<close>

locale stepping =
  fixes step :: "'op \<Rightarrow> 's \<Rightarrow> 's option"
    and inv :: "'s \<Rightarrow> bool"
  assumes step_inv: "inv s \<Longrightarrow> step oper s = Some s' \<Longrightarrow> inv s'"
begin

lemma run_inv: "inv s \<Longrightarrow> for_each step ops s = Some s' \<Longrightarrow> inv s'"
  by (induction ops arbitrary: s) (auto split: option.splits dest: step_inv)

end

text \<open>Fixed-width little-endian integers, \<open>u64::to_le_bytes\<close> and \<open>u64::from_le_bytes\<close>.\<close>

definition to_le_bytes :: "u64w \<Rightarrow> byte list" where
  "to_le_bytes w = map (\<lambda>i. ucast (drop_bit (8 * i) w)) [0..<8]"

definition from_le_bytes :: "byte list \<Rightarrow> u64w" where
  "from_le_bytes bs = foldr (\<lambda>b acc. push_bit 8 acc + ucast b) bs 0"

lemma le_bytes_prefix:
  fixes w :: u64w
  shows "foldr (\<lambda>b acc. push_bit 8 acc + ucast b) (map (\<lambda>i. ucast (drop_bit (8 * i) w) :: byte) [0..<k]) 0
    = take_bit (8 * k) w"
proof (induction k arbitrary: w)
  case 0
  then show ?case by simp
next
  case (Suc k)
  let ?step = "\<lambda>b acc. push_bit 8 acc + (ucast (b :: byte) :: u64w)"
  have "map (\<lambda>i. ucast (drop_bit (8 * i) w) :: byte) [0..<Suc k]
      = ucast w # map (\<lambda>i. ucast (drop_bit (8 * i) (drop_bit 8 w))) [0..<k]"
    by (subst upt_conv_Cons, simp)
      (simp add: map_Suc_upt [symmetric] drop_bit_drop_bit add.commute del: map_Suc_upt upt_Suc)
  then have "foldr ?step (map (\<lambda>i. ucast (drop_bit (8 * i) w) :: byte) [0..<Suc k]) 0
      = push_bit 8 (take_bit (8 * k) (drop_bit 8 w)) + take_bit 8 w"
    using Suc.IH [of "drop_bit 8 w"] by (simp add: unsigned_ucast_eq)
  also have "\<dots> = push_bit 8 (drop_bit 8 (take_bit (8 + 8 * k) w)) + take_bit 8 (take_bit (8 + 8 * k) w)"
    by (simp add: drop_bit_take_bit)
  also have "\<dots> = take_bit (8 * Suc k) w" by (simp only: bits_ident mult_Suc_right)
  finally show ?case .
qed

lemma from_to_le_bytes [simp]: "from_le_bytes (to_le_bytes w) = w"
proof -
  have "from_le_bytes (to_le_bytes w) = take_bit (8 * 8) w"
    unfolding from_le_bytes_def to_le_bytes_def by (rule le_bytes_prefix)
  also have "\<dots> = w" by (simp add: take_bit_word_eq_self)
  finally show ?thesis .
qed

lemma length_to_le_bytes [simp]: "length (to_le_bytes w) = 8"
  by (simp add: to_le_bytes_def)

lemma to_from_le_bytes: 
  assumes "length bs = 8"
  shows "to_le_bytes (from_le_bytes bs) = bs"
proof -
  have inj: "inj to_le_bytes" by (metis injI from_to_le_bytes)
  let ?L = "{xs :: byte list. set xs \<subseteq> UNIV \<and> length xs = 8}"
  have fin: "finite ?L" by (rule finite_lists_length_eq) simp
  have "card (range to_le_bytes) = card (UNIV :: u64w set)" by (rule card_image [OF inj])
  also have "\<dots> = card ?L"
    using card_lists_length_eq [of "UNIV :: byte set" 8] by (simp add: card_word)
  finally have "range to_le_bytes = ?L" by (intro card_subset_eq [OF fin]) auto
  then obtain w where "bs = to_le_bytes w" using assms by auto
  then show ?thesis by simp
qed

lemma ex_less_add: "(\<exists>t < a + b. P t) \<longleftrightarrow> (\<exists>t < a. P t) \<or> (\<exists>t < b. P (t + a))" for a b :: nat
proof
  assume "\<exists>t < a + b. P t"
  then obtain t where t: "t < a + b" "P t" by blast
  show "(\<exists>t < a. P t) \<or> (\<exists>t < b. P (t + a))"
  proof (cases "t < a")
    case False
    with t show ?thesis by (intro disjI2 exI [of _ "t - a"]) auto
  qed (use t in blast)
qed (auto intro: trans_less_add1, metis add.commute nat_add_left_cancel_less)

end
