(* ===== verification/Radix_Tree.thy ===== *)
theory Radix_Tree
  imports Prelude
begin

text \<open>
  The prefix cache's radix tree (crates/cache/src/radix_tree/inner.rs, inner/evict.rs and the tree
  half of radix_tree.rs): an arena of nodes, one root per adapter, each other node holding one KV
  block keyed in its parent by a chunk of \<open>block_size\<close> tokens.

  A node's \<open>children\<close> map is an association list: the hash map's iteration order, which the
  sub-block arm of \<open>walk\<close> sees, is the order of the list, and the theorems hold for every order.
  Node ids index the arena by the arena's own links, which the invariant keeps in range. Counts
  and access stamps are naturals. A panic (a zero block size, a slice or an index out of range) is
  \<open>None\<close>.
\<close>

unbundle bit_operations_syntax

subsection \<open>Hashes\<close>

definition FNV_PRIME :: u64w where
  "FNV_PRIME = 0x100000001b3"

definition fnv_tokens :: "u64w \<Rightarrow> token list \<Rightarrow> u64w" where
  "fnv_tokens h tokens = fold (\<lambda>t h. (h XOR ucast t) * FNV_PRIME) tokens h"

definition context_hash_combine :: "u64w \<Rightarrow> token list \<Rightarrow> u64w" where
  "context_hash_combine parent_hash tokens = fnv_tokens parent_hash tokens"

text \<open>\<open>hash_token_prefix\<close>; slicing past the end panics.\<close>

definition hash_token_prefix :: "token list \<Rightarrow> nat \<Rightarrow> u64w \<Rightarrow> u64w option" where
  "hash_token_prefix tokens n adapter_id =
    (let h0 = 0xcbf29ce484222325;
         h = (if adapter_id \<noteq> 0 then (h0 XOR adapter_id) * FNV_PRIME else h0)
     in if length tokens < n then None else Some (fnv_tokens h (take n tokens)))"

subsection \<open>State\<close>

record rnode =
  rn_children :: "(token list \<times> nat) list"
  rn_block :: nat
  rn_disk :: nat
  rn_ctx :: u64w
  rn_ref :: nat
  rn_access :: nat
  rn_parent :: "nat option"
  rn_parent_key :: "token list option"
  rn_partial :: "(token list \<times> nat \<times> nat) option"

record rtree =
  rt_nodes :: "rnode list"
  rt_free :: "nat list"
  rt_roots :: "u64w \<rightharpoonup> nat"
  rt_access :: nat
  rt_partial_sharing :: bool

record insert_acquired =
  ia_disk :: "nat list"
  ia_blocks :: "nat list"
  ia_released :: "nat list"

abbreviation rt_node :: "rtree \<Rightarrow> nat \<Rightarrow> rnode" where
  "rt_node t i \<equiv> rt_nodes t ! i"

abbreviation rt_size :: "rtree \<Rightarrow> nat" where
  "rt_size t \<equiv> length (rt_nodes t)"

definition root_node :: rnode where
  "root_node = \<lparr> rn_children = [], rn_block = U32_MAX, rn_disk = U32_MAX, rn_ctx = 0, rn_ref = 0,
     rn_access = 0, rn_parent = None, rn_parent_key = None, rn_partial = None \<rparr>"

text \<open>\<open>partial_tail::enabled_from\<close>: only \<open>"1"\<close> turns sub-block sharing on.\<close>

definition partial_enabled_from :: "string option \<Rightarrow> bool" where
  "partial_enabled_from raw = (case raw of None \<Rightarrow> False | Some s \<Rightarrow> s = ''1'')"

definition rt_new :: "bool \<Rightarrow> rtree" where
  "rt_new sharing = \<lparr> rt_nodes = [root_node], rt_free = [], rt_roots = [0 \<mapsto> 0], rt_access = 0,
     rt_partial_sharing = sharing \<rparr>"

definition rt_next_access :: "rtree \<Rightarrow> nat \<times> rtree" where
  "rt_next_access t = (rt_access t + 1, t\<lparr> rt_access := rt_access t + 1 \<rparr>)"

definition rt_update :: "nat \<Rightarrow> (rnode \<Rightarrow> rnode) \<Rightarrow> rtree \<Rightarrow> rtree" where
  "rt_update i f t = t\<lparr> rt_nodes := (rt_nodes t)[i := f (rt_node t i)] \<rparr>"

definition rt_alloc_node :: "rnode \<Rightarrow> rtree \<Rightarrow> nat \<times> rtree" where
  "rt_alloc_node n t =
    (case vec_pop (rt_free t) of
       Some (nid, rest) \<Rightarrow> (nid, t\<lparr> rt_free := rest, rt_nodes := (rt_nodes t)[nid := n] \<rparr>)
     | None \<Rightarrow> (rt_size t, t\<lparr> rt_nodes := rt_nodes t @ [n] \<rparr>))"

definition rt_root_for_read :: "rtree \<Rightarrow> u64w \<Rightarrow> nat option" where
  "rt_root_for_read t adapter_id = rt_roots t adapter_id"

definition rt_root_for_insert :: "u64w \<Rightarrow> rtree \<Rightarrow> nat \<times> rtree" where
  "rt_root_for_insert adapter_id t =
    (case rt_roots t adapter_id of
       Some nid \<Rightarrow> (nid, t)
     | None \<Rightarrow>
         (let (nid, t1) = rt_alloc_node root_node t
          in (nid, t1\<lparr> rt_roots := (rt_roots t1)(adapter_id \<mapsto> nid) \<rparr>)))"

subsection \<open>Walking\<close>

text \<open>The chunks \<open>tokens[i * bs .. (i + 1) * bs]\<close> for \<open>i < n\<close>.\<close>

fun chunks :: "nat \<Rightarrow> nat \<Rightarrow> token list \<Rightarrow> token list list" where
  "chunks bs 0 tokens = []"
| "chunks bs (Suc n) tokens = take bs tokens # chunks bs n (drop bs tokens)"

text \<open>The loop of \<open>walk\<close>: blocks, disk ids, tokens matched, and where it stopped.\<close>

fun rt_walk_chunks ::
  "rtree \<Rightarrow> nat \<Rightarrow> token list list \<Rightarrow> nat \<Rightarrow> u64w \<Rightarrow> nat list \<times> nat list \<times> nat \<times> nat \<times> u64w" where
  "rt_walk_chunks t bs [] cur h = ([], [], 0, cur, h)"
| "rt_walk_chunks t bs (chunk # cs) cur h =
    (let expected = context_hash_combine h chunk in
     case map_of (rn_children (rt_node t cur)) chunk of
       Some child \<Rightarrow>
         if rn_ctx (rt_node t child) = expected \<and> 0 < rn_ref (rt_node t child) then
           (let (bl, dk, m, cur', h') = rt_walk_chunks t bs cs child expected
            in (rn_block (rt_node t child) # bl, rn_disk (rt_node t child) # dk, bs + m, cur', h'))
         else ([], [], 0, cur, h)
     | None \<Rightarrow> ([], [], 0, cur, h))"

text \<open>The sub-block arm: a child whose key starts with the tail, else the partial suffix.\<close>

definition rt_tail_match :: "rtree \<Rightarrow> nat \<Rightarrow> u64w \<Rightarrow> token list \<Rightarrow> (nat \<times> nat) option" where
  "rt_tail_match t cur h suffix =
    (case List.find (\<lambda>(key, c). length suffix \<le> length key \<and> take (length suffix) key = suffix
            \<and> rn_ctx (rt_node t c) = context_hash_combine h key \<and> 0 < rn_ref (rt_node t c))
         (rn_children (rt_node t cur)) of
       Some (key, c) \<Rightarrow> Some (rn_block (rt_node t c), rn_disk (rt_node t c))
     | None \<Rightarrow>
         (case rn_partial (rt_node t cur) of
            Some (toks, pb, pd) \<Rightarrow>
              if length suffix \<le> length toks \<and> take (length suffix) toks = suffix
              then Some (pb, pd) else None
          | None \<Rightarrow> None))"

definition rt_walk :: "rtree \<Rightarrow> token list \<Rightarrow> nat \<Rightarrow> u64w \<Rightarrow> (nat list \<times> nat list \<times> nat) option" where
  "rt_walk t tokens bs adapter_id =
    (case rt_root_for_read t adapter_id of
       None \<Rightarrow> Some ([], [], 0)
     | Some root \<Rightarrow>
         if bs = 0 then None
         else
           (let full = length tokens div bs;
                (bl, dk, m, cur, h) = rt_walk_chunks t bs (chunks bs full tokens) root 0;
                remainder = length tokens - m
            in if rt_partial_sharing t \<and> 0 < remainder \<and> remainder < bs \<and> m = full * bs
               then (case rt_tail_match t cur h (drop m tokens) of
                       Some (b, d) \<Rightarrow> Some (bl @ [b], dk @ [d], m + remainder)
                     | None \<Rightarrow> Some (bl, dk, m))
               else Some (bl, dk, m)))"

subsection \<open>Reference counts\<close>

fun rt_inc_chunks :: "nat \<Rightarrow> token list list \<Rightarrow> nat \<Rightarrow> rtree \<Rightarrow> rtree" where
  "rt_inc_chunks access [] cur t = t"
| "rt_inc_chunks access (chunk # cs) cur t =
    (case map_of (rn_children (rt_node t cur)) chunk of
       Some child \<Rightarrow>
         rt_inc_chunks access cs child
           (rt_update child (\<lambda>n. n\<lparr> rn_ref := rn_ref n + 1, rn_access := access \<rparr>) t)
     | None \<Rightarrow> t)"

text \<open>The first chunk whose slice runs past \<open>tokens\<close> panics, unless the walk stopped before it.\<close>

fun rt_path_len :: "rtree \<Rightarrow> token list list \<Rightarrow> nat \<Rightarrow> nat" where
  "rt_path_len t [] cur = 0"
| "rt_path_len t (chunk # cs) cur =
    (case map_of (rn_children (rt_node t cur)) chunk of
       Some child \<Rightarrow> Suc (rt_path_len t cs child)
     | None \<Rightarrow> 0)"

definition rt_inc_refs :: "token list \<Rightarrow> nat \<Rightarrow> nat \<Rightarrow> u64w \<Rightarrow> rtree \<Rightarrow> rtree option" where
  "rt_inc_refs tokens bs num_matched adapter_id t0 =
    (let (access, t) = rt_next_access t0 in
     case rt_root_for_read t adapter_id of
       None \<Rightarrow> Some t
     | Some root \<Rightarrow>
         if bs = 0 then None
         else
           (let n = num_matched div bs; avail = length tokens div bs;
                cs = chunks bs (min n avail) tokens
            in if avail < n \<and> rt_path_len t cs root = avail then None
               else Some (rt_inc_chunks access cs root t)))"

fun rt_dec_chunks :: "token list list \<Rightarrow> nat \<Rightarrow> rtree \<Rightarrow> rtree" where
  "rt_dec_chunks [] cur t = t"
| "rt_dec_chunks (chunk # cs) cur t =
    (case map_of (rn_children (rt_node t cur)) chunk of
       Some child \<Rightarrow>
         rt_dec_chunks cs child
           (if 0 < rn_ref (rt_node t child)
            then rt_update child (\<lambda>n. n\<lparr> rn_ref := rn_ref n - 1 \<rparr>) t else t)
     | None \<Rightarrow> t)"

definition rt_dec_refs :: "token list \<Rightarrow> nat \<Rightarrow> nat \<Rightarrow> u64w \<Rightarrow> rtree \<Rightarrow> rtree option" where
  "rt_dec_refs tokens bs matched_tokens adapter_id t =
    (case rt_root_for_read t adapter_id of
       None \<Rightarrow> Some t
     | Some root \<Rightarrow>
         if bs = 0 then None
         else Some (rt_dec_chunks
                (chunks bs (min (matched_tokens div bs) (length tokens div bs)) tokens) root t))"

subsection \<open>Insertion\<close>

text \<open>\<open>partial_suffix.take().map(|p| p.1)\<close> of a node.\<close>

definition partial_block :: "rnode \<Rightarrow> nat list" where
  "partial_block n = (case rn_partial n of Some (_, b, _) \<Rightarrow> [b] | None \<Rightarrow> [])"

definition partial_disk :: "rnode \<Rightarrow> nat option" where
  "partial_disk n = map_option (\<lambda>p. snd (snd p)) (rn_partial n)"

text \<open>The two arms of the loop of \<open>insert\<close>: a chunk whose node exists, and a new node.\<close>

definition rt_touch_child :: "nat \<Rightarrow> bool \<Rightarrow> bool \<Rightarrow> nat \<Rightarrow> u64w \<Rightarrow> nat \<Rightarrow> rtree \<times> insert_acquired
    \<Rightarrow> rtree \<times> insert_acquired" where
  "rt_touch_child access seq_owned hss disk_id ctx child = (\<lambda>(t, acq).
    (let set_disk = (hss \<and> rn_disk (rt_node t child) = U32_MAX \<and> disk_id \<noteq> U32_MAX);
         t' = rt_update child (\<lambda>n. n\<lparr>
            rn_access := access, rn_ctx := ctx,
            rn_ref := (if rn_ref n = 0 then 1 else rn_ref n) + (if seq_owned then 1 else 0),
            rn_disk := (if set_disk then disk_id else rn_disk n) \<rparr>) t
     in (t', if set_disk then acq\<lparr> ia_disk := ia_disk acq @ [disk_id] \<rparr> else acq)))"

definition rt_new_child :: "nat \<Rightarrow> bool \<Rightarrow> bool \<Rightarrow> nat \<Rightarrow> nat \<Rightarrow> u64w \<Rightarrow> token list \<Rightarrow> nat
    \<Rightarrow> rtree \<times> insert_acquired \<Rightarrow> nat \<times> rtree \<times> insert_acquired" where
  "rt_new_child access seq_owned hss block disk_id ctx chunk cur = (\<lambda>(t, acq).
    (let released = partial_block (rt_node t cur);
         t1 = rt_update cur (\<lambda>n. n\<lparr> rn_partial := None \<rparr>) t;
         (child, t2) = rt_alloc_node \<lparr> rn_children = [], rn_block = block, rn_disk = disk_id,
            rn_ctx = ctx, rn_ref = (if seq_owned then 2 else 1), rn_access = access,
            rn_parent = Some cur, rn_parent_key = Some chunk, rn_partial = None \<rparr> t1;
         t3 = rt_update cur (\<lambda>n. n\<lparr> rn_children := (chunk, child) # rn_children n \<rparr>) t2
     in (child, t3, acq\<lparr> ia_released := ia_released acq @ released,
            ia_blocks := ia_blocks acq @ [block],
            ia_disk := ia_disk acq @ (if hss \<and> disk_id \<noteq> U32_MAX then [disk_id] else []) \<rparr>)))"

fun rt_insert_chunks :: "nat list \<Rightarrow> nat list \<Rightarrow> nat \<Rightarrow> nat \<Rightarrow> nat \<Rightarrow> nat \<Rightarrow> token list list
    \<Rightarrow> nat \<Rightarrow> u64w \<Rightarrow> rtree \<times> insert_acquired \<Rightarrow> nat \<times> rtree \<times> insert_acquired" where
  "rt_insert_chunks bt disks bs matched access i [] cur h st = (cur, st)"
| "rt_insert_chunks bt disks bs matched access i (chunk # cs) cur h st =
    (let ctx = context_hash_combine h chunk;
         seq_owned = (matched \<le> i * bs);
         hss = (disks \<noteq> []);
         disk_id = (if hss then disks ! i else U32_MAX)
     in case map_of (rn_children (rt_node (fst st) cur)) chunk of
          Some child \<Rightarrow>
            rt_insert_chunks bt disks bs matched access (Suc i) cs child ctx
              (rt_touch_child access seq_owned hss disk_id ctx child st)
        | None \<Rightarrow>
            (let (child, st') = rt_new_child access seq_owned hss (bt ! i) disk_id ctx chunk cur st
             in rt_insert_chunks bt disks bs matched access (Suc i) cs child ctx st'))"

text \<open>The final incomplete chunk becomes the last node's partial suffix.\<close>

definition rt_insert_partial :: "token list \<Rightarrow> nat \<Rightarrow> nat \<Rightarrow> bool \<Rightarrow> nat
    \<Rightarrow> rtree \<times> insert_acquired \<Rightarrow> rtree \<times> insert_acquired" where
  "rt_insert_partial toks block disk hss cur = (\<lambda>(t, acq).
    (let prior = partial_disk (rt_node t cur);
         prior_block = partial_block (rt_node t cur);
         t' = rt_update cur (\<lambda>n. n\<lparr> rn_partial := Some (toks, block, disk) \<rparr>) t;
         acq1 = (if prior_block \<noteq> [block]
                 then acq\<lparr> ia_blocks := ia_blocks acq @ [block],
                           ia_released := ia_released acq @ prior_block \<rparr>
                 else acq);
         acq2 = (if hss \<and> disk \<noteq> U32_MAX \<and> prior \<noteq> Some disk
                 then acq1\<lparr> ia_disk := ia_disk acq1 @ [disk] \<rparr> else acq1)
     in (t', acq2)))"

definition rt_insert :: "token list \<Rightarrow> nat list \<Rightarrow> nat list \<Rightarrow> nat \<Rightarrow> nat \<Rightarrow> u64w \<Rightarrow> rtree
    \<Rightarrow> (rtree \<times> insert_acquired) option" where
  "rt_insert tokens bt disks bs matched adapter_id t0 =
    (let (access, t1) = rt_next_access t0;
         (root, t2) = rt_root_for_insert adapter_id t1;
         full = length tokens div bs;
         num_blocks = min full (length bt);
         hss = (disks \<noteq> []);
         acq0 = \<lparr> ia_disk = [], ia_blocks = [], ia_released = [] \<rparr>
     in if bs = 0 \<or> hss \<and> length disks < num_blocks then None
        else
          (let (cur, st) = rt_insert_chunks bt disks bs matched access 0
                             (chunks bs num_blocks tokens) root 0 (t2, acq0);
               remainder = length tokens mod bs
           in Some (if 0 < remainder \<and> full < length bt \<and> cur \<noteq> root
                    then rt_insert_partial (drop (full * bs) tokens) (bt ! full)
                           (if hss \<and> full < length disks then disks ! full else U32_MAX) hss cur st
                    else st)))"

subsection \<open>Eviction\<close>

definition rt_evictable :: "rnode \<Rightarrow> bool" where
  "rt_evictable n \<longleftrightarrow> rn_parent n \<noteq> None \<and> rn_ref n \<le> 1 \<and> rn_children n = [] \<and> rn_block n \<noteq> U32_MAX"

text \<open>The scan for the evictable leaf with the oldest access, the lowest id among equals.\<close>

fun rt_best :: "nat \<Rightarrow> rnode list \<Rightarrow> (nat \<times> nat) option \<Rightarrow> (nat \<times> nat) option" where
  "rt_best i [] best = best"
| "rt_best i (n # ns) best =
    rt_best (Suc i) ns
      (if rt_evictable n
       then (case best of
               None \<Rightarrow> Some (i, rn_access n)
             | Some (_, a) \<Rightarrow> if rn_access n < a then Some (i, rn_access n) else best)
       else best)"

text \<open>Unlinking one leaf; its blocks, then its disk ids.\<close>

definition rt_drop_leaf :: "nat \<Rightarrow> rtree \<Rightarrow> rtree \<times> nat list \<times> nat list" where
  "rt_drop_leaf i t =
    (let n = rt_node t i;
         phys = rn_block n # partial_block n;
         disk = rn_disk n # (case partial_disk n of Some d \<Rightarrow> [d] | None \<Rightarrow> []);
         t1 = rt_update i (\<lambda>n. n\<lparr> rn_partial := None \<rparr>) t;
         t2 = (case (rn_parent n, rn_parent_key n) of
                 (Some p, Some key) \<Rightarrow>
                   rt_update p (\<lambda>m. m\<lparr> rn_children :=
                     filter (\<lambda>(k, _). k \<noteq> key) (rn_children m) \<rparr>) t1
               | _ \<Rightarrow> t1);
         t3 = rt_update i (\<lambda>n. n\<lparr> rn_block := U32_MAX, rn_disk := U32_MAX, rn_children := [],
                rn_parent := None, rn_parent_key := None, rn_partial := None \<rparr>) t2
     in (t3\<lparr> rt_free := vec_push (rt_free t3) i \<rparr>, phys, disk))"

definition rt_num_entries :: "rtree \<Rightarrow> nat" where
  "rt_num_entries t = length (filter (\<lambda>n. rn_block n \<noteq> U32_MAX) (rt_nodes t))"

lemma rt_best_sound:
  "rt_best k ns best = Some (i, a) \<Longrightarrow>
     best = Some (i, a) \<or> k \<le> i \<and> i < k + length ns \<and> rt_evictable (ns ! (i - k))"
proof (induction k ns best rule: rt_best.induct)
  case (2 k n ns best)
  let ?b = "if rt_evictable n
       then (case best of None \<Rightarrow> Some (k, rn_access n)
             | Some (_, a) \<Rightarrow> if rn_access n < a then Some (k, rn_access n) else best)
       else best"
  have "rt_best (Suc k) ns ?b = Some (i, a)" using "2.prems" by simp
  then consider "?b = Some (i, a)" | "Suc k \<le> i \<and> i < Suc k + length ns \<and> rt_evictable (ns ! (i - Suc k))"
    using "2.IH" by blast
  then show ?case
  proof cases
    case 1
    then show ?thesis by (auto split: if_splits option.splits)
  next
    case 2
    then have "i - k = Suc (i - Suc k)" by linarith
    with 2 show ?thesis by auto
  qed
qed simp

lemma rt_best_None: "rt_best k ns best = None \<Longrightarrow> best = None \<and> (\<forall>n \<in> set ns. \<not> rt_evictable n)"
proof (induction k ns best rule: rt_best.induct)
  case (2 k n ns best)
  let ?b = "if rt_evictable n
       then (case best of None \<Rightarrow> Some (k, rn_access n)
             | Some (_, a) \<Rightarrow> if rn_access n < a then Some (k, rn_access n) else best)
       else best"
  have "rt_best (Suc k) ns ?b = None" using "2.prems" by simp
  with "2.IH" have "?b = None" "\<forall>n \<in> set ns. \<not> rt_evictable n" by blast+
  then show ?case by (cases "rt_evictable n"; cases best) (auto split: if_splits)
qed simp

lemma filter_length_update:
  assumes "i < length xs"
  shows "length (filter P (xs[i := x])) + (if P (xs ! i) then 1 else 0)
       = length (filter P xs) + (if P x then 1 else 0)"
proof -
  have "length (filter P xs) = length (filter P (take i xs @ xs ! i # drop (Suc i) xs))"
    using assms by (simp add: id_take_nth_drop [symmetric])
  moreover have "length (filter P (xs[i := x])) = length (filter P (take i xs @ x # drop (Suc i) xs))"
    using assms by (simp add: upd_conv_take_nth_drop)
  ultimately show ?thesis by simp
qed

lemma rt_num_entries_update:
  "i < rt_size t \<Longrightarrow>
   rt_num_entries (rt_update i f t) + (if rn_block (rt_node t i) \<noteq> U32_MAX then 1 else 0)
     = rt_num_entries t + (if rn_block (f (rt_node t i)) \<noteq> U32_MAX then 1 else 0)"
  unfolding rt_num_entries_def rt_update_def
  using filter_length_update [of i "rt_nodes t" "\<lambda>n. rn_block n \<noteq> U32_MAX" "f (rt_node t i)"] by simp

lemma rt_size_update [simp]: "rt_size (rt_update i f t) = rt_size t"
  by (simp add: rt_update_def)

lemma rt_num_entries_update_same:
  "(\<And>n. rn_block (f n) = rn_block n) \<Longrightarrow> rt_num_entries (rt_update i f t) = rt_num_entries t"
  using rt_num_entries_update [of i t f]
  by (cases "i < rt_size t") (auto simp: rt_update_def list_update_beyond split: if_splits)

text \<open>The eviction loop. Every turn frees at least one block, so it ends.\<close>

function rt_evict_loop :: "nat \<Rightarrow> rtree \<Rightarrow> nat list \<Rightarrow> nat list \<Rightarrow> rtree \<times> nat list \<times> nat list" where
  "rt_evict_loop num_blocks t phys disk =
    (if num_blocks \<le> length phys then (t, phys, disk)
     else
       (case rt_best 0 (rt_nodes t) None of
          Some (i, _) \<Rightarrow>
            (case rt_drop_leaf i t of
               (t', p, d) \<Rightarrow> rt_evict_loop num_blocks t' (phys @ p) (disk @ d))
        | None \<Rightarrow> (t, phys, disk)))"
  by pat_completeness auto
termination
  by (relation "measure (\<lambda>(n, t, phys, disk). n - length phys)")
    (auto simp: rt_drop_leaf_def Let_def)

declare rt_evict_loop.simps [simp del]

definition rt_evict :: "nat \<Rightarrow> rtree \<Rightarrow> rtree \<times> nat list \<times> nat list" where
  "rt_evict num_blocks t = (if num_blocks = 0 then (t, [], []) else rt_evict_loop num_blocks t [] [])"

end
