(* ===== verification/Radix_Inv.thy ===== *)
theory Radix_Inv
  imports Radix_Tree
begin

text \<open>
  The arena invariant of the radix tree and its preservation: parent and child links agree, a
  child's context hash is the chain hash of its path, roots and free nodes hold no block, every
  node is a root, free, or has a parent, and the parent links have no cycle. The lemmas are about
  the few ways the operations change the arena: rewriting a node without touching its links,
  creating a root, adding a child, unlinking a leaf.
\<close>

definition rt_wf :: "rtree \<Rightarrow> bool" where
  "rt_wf t \<longleftrightarrow>
     (\<forall>a r. rt_roots t a = Some r \<longrightarrow> r < rt_size t \<and> rn_parent (rt_node t r) = None \<and> rn_ctx (rt_node t r) = 0)
     \<and> (\<forall>a b r. rt_roots t a = Some r \<longrightarrow> rt_roots t b = Some r \<longrightarrow> a = b)
     \<and> (\<forall>i k c. i < rt_size t \<longrightarrow> (k, c) \<in> set (rn_children (rt_node t i)) \<longrightarrow>
          c < rt_size t \<and> rn_parent (rt_node t c) = Some i \<and> rn_parent_key (rt_node t c) = Some k
          \<and> rn_ctx (rt_node t c) = context_hash_combine (rn_ctx (rt_node t i)) k)
     \<and> (\<forall>i. i < rt_size t \<longrightarrow> distinct (map fst (rn_children (rt_node t i))))
     \<and> (\<forall>c. c < rt_size t \<longrightarrow> rn_parent (rt_node t c) = None \<longrightarrow>
          rn_block (rt_node t c) = U32_MAX \<and> rn_partial (rt_node t c) = None)
     \<and> (\<forall>c p. c < rt_size t \<longrightarrow> rn_parent (rt_node t c) = Some p \<longrightarrow>
          p < rt_size t \<and> rn_block (rt_node t c) \<noteq> U32_MAX
          \<and> (\<exists>k. (k, c) \<in> set (rn_children (rt_node t p))))
     \<and> distinct (rt_free t)
     \<and> (\<forall>f. f \<in> set (rt_free t) \<longrightarrow> f < rt_size t \<and> rn_parent (rt_node t f) = None
          \<and> rn_children (rt_node t f) = [] \<and> f \<notin> ran (rt_roots t))
     \<and> (\<forall>i. i < rt_size t \<longrightarrow> rn_parent (rt_node t i) = None \<longrightarrow> i \<in> ran (rt_roots t) \<or> i \<in> set (rt_free t))
     \<and> (\<exists>rank :: nat \<Rightarrow> nat. \<forall>c p. c < rt_size t \<longrightarrow> rn_parent (rt_node t c) = Some p \<longrightarrow> rank p < rank c)"

lemma rt_wfI:
  assumes "\<And>a r. rt_roots t a = Some r \<Longrightarrow> r < rt_size t \<and> rn_parent (rt_node t r) = None \<and> rn_ctx (rt_node t r) = 0"
    and "\<And>a b r. rt_roots t a = Some r \<Longrightarrow> rt_roots t b = Some r \<Longrightarrow> a = b"
    and "\<And>i k c. i < rt_size t \<Longrightarrow> (k, c) \<in> set (rn_children (rt_node t i)) \<Longrightarrow>
          c < rt_size t \<and> rn_parent (rt_node t c) = Some i \<and> rn_parent_key (rt_node t c) = Some k
          \<and> rn_ctx (rt_node t c) = context_hash_combine (rn_ctx (rt_node t i)) k"
    and "\<And>i. i < rt_size t \<Longrightarrow> distinct (map fst (rn_children (rt_node t i)))"
    and "\<And>c. c < rt_size t \<Longrightarrow> rn_parent (rt_node t c) = None \<Longrightarrow>
          rn_block (rt_node t c) = U32_MAX \<and> rn_partial (rt_node t c) = None"
    and "\<And>c p. c < rt_size t \<Longrightarrow> rn_parent (rt_node t c) = Some p \<Longrightarrow>
          p < rt_size t \<and> rn_block (rt_node t c) \<noteq> U32_MAX
          \<and> (\<exists>k. (k, c) \<in> set (rn_children (rt_node t p)))"
    and "distinct (rt_free t)"
    and "\<And>f. f \<in> set (rt_free t) \<Longrightarrow> f < rt_size t \<and> rn_parent (rt_node t f) = None
          \<and> rn_children (rt_node t f) = [] \<and> f \<notin> ran (rt_roots t)"
    and "\<And>i. i < rt_size t \<Longrightarrow> rn_parent (rt_node t i) = None \<Longrightarrow> i \<in> ran (rt_roots t) \<or> i \<in> set (rt_free t)"
    and "\<And>c p. c < rt_size t \<Longrightarrow> rn_parent (rt_node t c) = Some p \<Longrightarrow> rank p < (rank c :: nat)"
  shows "rt_wf t"
  unfolding rt_wf_def
proof (intro conjI, goal_cases)
  case 1
  then show ?case using assms(1) by blast
next
  case 2
  then show ?case using assms(2) by blast
next
  case 3
  then show ?case using assms(3) by blast
next
  case 4
  then show ?case using assms(4) by blast
next
  case 5
  then show ?case using assms(5) by blast
next
  case 6
  then show ?case using assms(6) by blast
next
  case 7
  then show ?case by (rule assms(7))
next
  case 8
  then show ?case using assms(8) by blast
next
  case 9
  then show ?case using assms(9) by blast
next
  case 10
  then show ?case using assms(10) by blast
qed

lemma rt_wfD:
  assumes "rt_wf t"
  shows rt_wf_root: "\<And>a r. rt_roots t a = Some r \<Longrightarrow>
        r < rt_size t \<and> rn_parent (rt_node t r) = None \<and> rn_ctx (rt_node t r) = 0"
    and rt_wf_root_inj: "\<And>a b r. rt_roots t a = Some r \<Longrightarrow> rt_roots t b = Some r \<Longrightarrow> a = b"
    and rt_wf_child: "\<And>i k c. i < rt_size t \<Longrightarrow> (k, c) \<in> set (rn_children (rt_node t i)) \<Longrightarrow>
          c < rt_size t \<and> rn_parent (rt_node t c) = Some i \<and> rn_parent_key (rt_node t c) = Some k
          \<and> rn_ctx (rt_node t c) = context_hash_combine (rn_ctx (rt_node t i)) k"
    and rt_wf_keys: "\<And>i. i < rt_size t \<Longrightarrow> distinct (map fst (rn_children (rt_node t i)))"
    and rt_wf_parentless: "\<And>c. c < rt_size t \<Longrightarrow> rn_parent (rt_node t c) = None \<Longrightarrow>
          rn_block (rt_node t c) = U32_MAX \<and> rn_partial (rt_node t c) = None"
    and rt_wf_parented: "\<And>c p. c < rt_size t \<Longrightarrow> rn_parent (rt_node t c) = Some p \<Longrightarrow>
          p < rt_size t \<and> rn_block (rt_node t c) \<noteq> U32_MAX
          \<and> (\<exists>k. (k, c) \<in> set (rn_children (rt_node t p)))"
    and rt_wf_free_distinct: "distinct (rt_free t)"
    and rt_wf_free: "\<And>f. f \<in> set (rt_free t) \<Longrightarrow> f < rt_size t \<and> rn_parent (rt_node t f) = None
          \<and> rn_children (rt_node t f) = [] \<and> f \<notin> ran (rt_roots t)"
    and rt_wf_used: "\<And>i. i < rt_size t \<Longrightarrow> rn_parent (rt_node t i) = None \<Longrightarrow>
          i \<in> ran (rt_roots t) \<or> i \<in> set (rt_free t)"
    and rt_wf_rank: "\<exists>rank :: nat \<Rightarrow> nat. \<forall>c p. c < rt_size t \<longrightarrow> rn_parent (rt_node t c) = Some p
          \<longrightarrow> rank p < rank c"
  using assms unfolding rt_wf_def by blast+

lemma rt_wf_map_of:
  assumes "rt_wf t" and "i < rt_size t" and "map_of (rn_children (rt_node t i)) k = Some c"
  shows "c < rt_size t" and "rn_parent (rt_node t c) = Some i" and "rn_parent_key (rt_node t c) = Some k"
    and "rn_ctx (rt_node t c) = context_hash_combine (rn_ctx (rt_node t i)) k"
  using rt_wf_child [OF assms(1,2) map_of_SomeD [OF assms(3)]] by auto

text \<open>Two children of one node with one id have one key, and a node has one parent.\<close>

lemma rt_wf_child_key:
  assumes "rt_wf t" and "i < rt_size t" and "map_of (rn_children (rt_node t i)) k = Some c"
    and "j < rt_size t" and "map_of (rn_children (rt_node t j)) k' = Some c"
  shows "i = j \<and> k = k'"
  using rt_wf_map_of [OF assms(1-3)] rt_wf_map_of [OF assms(1,4,5)] by auto

subsection \<open>Rewriting nodes without touching their links\<close>

definition rt_links_eq :: "rtree \<Rightarrow> rtree \<Rightarrow> bool" where
  "rt_links_eq t t' \<longleftrightarrow> rt_size t' = rt_size t \<and> rt_roots t' = rt_roots t \<and> rt_free t' = rt_free t
     \<and> (\<forall>i < rt_size t. rn_children (rt_node t' i) = rn_children (rt_node t i)
          \<and> rn_parent (rt_node t' i) = rn_parent (rt_node t i)
          \<and> rn_parent_key (rt_node t' i) = rn_parent_key (rt_node t i)
          \<and> rn_ctx (rt_node t' i) = rn_ctx (rt_node t i)
          \<and> rn_block (rt_node t' i) = rn_block (rt_node t i)
          \<and> (rn_parent (rt_node t i) = None \<longrightarrow> rn_partial (rt_node t' i) = rn_partial (rt_node t i)))"

lemma rt_links_eq_wf:
  assumes "rt_wf t" and "rt_links_eq t t'"
  shows "rt_wf t'"
proof -
  note wf = rt_wfD [OF assms(1)]
  obtain rank :: "nat \<Rightarrow> nat" where
    rank: "\<And>c p. c < rt_size t \<Longrightarrow> rn_parent (rt_node t c) = Some p \<Longrightarrow> rank p < rank c"
    using wf(10) by blast
  have sz: "rt_size t' = rt_size t" and rts: "rt_roots t' = rt_roots t" and fr: "rt_free t' = rt_free t"
    and nd: "\<And>i. i < rt_size t \<Longrightarrow> rn_children (rt_node t' i) = rn_children (rt_node t i)
          \<and> rn_parent (rt_node t' i) = rn_parent (rt_node t i)
          \<and> rn_parent_key (rt_node t' i) = rn_parent_key (rt_node t i)
          \<and> rn_ctx (rt_node t' i) = rn_ctx (rt_node t i)
          \<and> rn_block (rt_node t' i) = rn_block (rt_node t i)
          \<and> (rn_parent (rt_node t i) = None \<longrightarrow> rn_partial (rt_node t' i) = rn_partial (rt_node t i))"
    using assms(2) unfolding rt_links_eq_def by auto
  show ?thesis
  proof (rule rt_wfI [where rank = rank], goal_cases)
    case (1 a r)
    then show ?case using wf(1) [of a r] nd [of r] by (simp add: sz rts)
  next
    case (2 a b r)
    then show ?case using wf(2) by (simp add: rts)
  next
    case (3 i k c)
    then have i: "i < rt_size t" by (simp add: sz)
    have "(k, c) \<in> set (rn_children (rt_node t i))" using 3 nd [OF i] by simp
    then show ?case using wf(3) [OF i] nd [OF i] nd [of c] by (simp add: sz)
  next
    case (4 i)
    then show ?case using wf(4) nd by (simp add: sz)
  next
    case (5 c)
    then show ?case using wf(5) [of c] nd [of c] by (simp add: sz)
  next
    case (6 c p)
    then show ?case using wf(6) [of c p] nd [of c] nd [of p] by (simp add: sz)
  next
    case 7
    then show ?case using wf(7) by (simp add: fr)
  next
    case (8 f)
    then show ?case using wf(8) [of f] nd [of f] by (simp add: sz fr rts)
  next
    case (9 i)
    then show ?case using wf(9) [of i] nd [of i] by (simp add: sz fr rts)
  next
    case (10 c p)
    then show ?case using rank [of c p] nd [of c] by (simp add: sz)
  qed
qed

lemma rt_links_eq_refl [simp]: "rt_links_eq t t"
  by (simp add: rt_links_eq_def)

lemma rt_links_eq_trans: "rt_links_eq t u \<Longrightarrow> rt_links_eq u v \<Longrightarrow> rt_links_eq t v"
  by (auto simp: rt_links_eq_def)

lemma rt_node_update:
  "i < rt_size t \<Longrightarrow> rt_node (rt_update i f t) j = (if j = i then f (rt_node t i) else rt_node t j)"
  by (simp add: rt_update_def nth_list_update)

lemma rt_update_frame [simp]:
  "rt_roots (rt_update i f t) = rt_roots t" "rt_free (rt_update i f t) = rt_free t"
  "rt_access (rt_update i f t) = rt_access t" "rt_partial_sharing (rt_update i f t) = rt_partial_sharing t"
  by (simp_all add: rt_update_def)

lemma rt_links_eq_update:
  assumes "i < rt_size t \<Longrightarrow> rn_children (f (rt_node t i)) = rn_children (rt_node t i)
      \<and> rn_parent (f (rt_node t i)) = rn_parent (rt_node t i)
      \<and> rn_parent_key (f (rt_node t i)) = rn_parent_key (rt_node t i)
      \<and> rn_ctx (f (rt_node t i)) = rn_ctx (rt_node t i)
      \<and> rn_block (f (rt_node t i)) = rn_block (rt_node t i)
      \<and> (rn_parent (rt_node t i) = None \<longrightarrow> rn_partial (f (rt_node t i)) = rn_partial (rt_node t i))"
  shows "rt_links_eq t (rt_update i f t)"
proof (cases "i < rt_size t")
  case True
  then show ?thesis using assms by (simp add: rt_links_eq_def rt_node_update)
next
  case False
  then show ?thesis by (simp add: rt_links_eq_def rt_update_def list_update_beyond)
qed

lemma rt_next_access_links: "rt_links_eq t (snd (rt_next_access t))"
  by (simp add: rt_next_access_def rt_links_eq_def)

lemma rt_inc_chunks_links: "rt_links_eq t (rt_inc_chunks access cs cur t)"
proof (induction access cs cur t rule: rt_inc_chunks.induct)
  case (2 access chunk cs cur t)
  show ?case
  proof (cases "map_of (rn_children (rt_node t cur)) chunk")
    case (Some child)
    have "rt_links_eq t (rt_update child (\<lambda>n. n\<lparr> rn_ref := rn_ref n + 1, rn_access := access \<rparr>) t)"
      by (rule rt_links_eq_update) simp
    from rt_links_eq_trans [OF this "2.IH" [OF Some]] show ?thesis using Some by simp
  qed simp
qed simp

lemma rt_dec_chunks_links: "rt_links_eq t (rt_dec_chunks cs cur t)"
proof (induction cs cur t rule: rt_dec_chunks.induct)
  case (2 chunk cs cur t)
  show ?case
  proof (cases "map_of (rn_children (rt_node t cur)) chunk")
    case (Some child)
    let ?t = "if 0 < rn_ref (rt_node t child)
            then rt_update child (\<lambda>n. n\<lparr> rn_ref := rn_ref n - 1 \<rparr>) t else t"
    have "rt_links_eq t ?t" by (auto intro: rt_links_eq_update)
    from rt_links_eq_trans [OF this "2.IH" [OF Some]] show ?thesis using Some by simp
  qed simp
qed simp

subsection \<open>Allocating a node\<close>

lemma rt_alloc_node_spec:
  assumes wf: "rt_wf t" and al: "rt_alloc_node n t = (c, t')"
  shows "c < rt_size t'"
    and "\<And>j. j < rt_size t' \<longleftrightarrow> j < rt_size t \<or> j = c"
    and "\<And>j. j < rt_size t' \<Longrightarrow> rt_node t' j = (if j = c then n else rt_node t j)"
    and "rt_roots t' = rt_roots t" and "rt_partial_sharing t' = rt_partial_sharing t"
    and "distinct (rt_free t')" and "set (rt_free t') = set (rt_free t) - {c}"
    and "c \<in> set (rt_free t) \<or> c = rt_size t"
proof -
  note frd = rt_wf_free_distinct [OF wf] and fr = rt_wf_free [OF wf]
  have "c < rt_size t' \<and> (\<forall>j. j < rt_size t' \<longleftrightarrow> j < rt_size t \<or> j = c)
    \<and> (\<forall>j. j < rt_size t' \<longrightarrow> rt_node t' j = (if j = c then n else rt_node t j))
    \<and> rt_roots t' = rt_roots t \<and> rt_partial_sharing t' = rt_partial_sharing t
    \<and> distinct (rt_free t') \<and> set (rt_free t') = set (rt_free t) - {c}
    \<and> (c \<in> set (rt_free t) \<or> c = rt_size t)"
  proof (cases "vec_pop (rt_free t)")
    case None
    then have c: "c = rt_size t" and t': "t' = t\<lparr> rt_nodes := rt_nodes t @ [n] \<rparr>"
      using al by (auto simp: rt_alloc_node_def)
    have "rt_size t \<notin> set (rt_free t)" using fr by blast
    then show ?thesis using frd by (auto simp: c t' nth_append)
  next
    case (Some q)
    then obtain rest where pop: "rt_free t = rest @ [c]"
      and t': "t' = t\<lparr> rt_free := rest, rt_nodes := (rt_nodes t)[c := n] \<rparr>"
      using al by (auto simp: rt_alloc_node_def vec_pop_Some split: prod.splits)
    have "c < rt_size t" using fr [of c] pop by simp
    then show ?thesis using frd pop by (auto simp: t' nth_list_update)
  qed
  then show "c < rt_size t'" "\<And>j. j < rt_size t' \<longleftrightarrow> j < rt_size t \<or> j = c"
    "\<And>j. j < rt_size t' \<Longrightarrow> rt_node t' j = (if j = c then n else rt_node t j)"
    "rt_roots t' = rt_roots t" "rt_partial_sharing t' = rt_partial_sharing t"
    "distinct (rt_free t')" "set (rt_free t') = set (rt_free t) - {c}"
    "c \<in> set (rt_free t) \<or> c = rt_size t"
    by blast+
qed

text \<open>An allocated id is nobody's child, parent or root.\<close>

lemma rt_alloc_fresh:
  assumes wf: "rt_wf t" and al: "rt_alloc_node n t = (c, t')"
  shows "i < rt_size t \<Longrightarrow> (k, c) \<notin> set (rn_children (rt_node t i))"
    and "i < rt_size t \<Longrightarrow> rn_parent (rt_node t i) \<noteq> Some c"
    and "rt_roots t a \<noteq> Some c"
proof -
  note spec = rt_alloc_node_spec [OF wf al]
  have dead: "c < rt_size t \<Longrightarrow> rn_parent (rt_node t c) = None \<and> rn_children (rt_node t c) = []"
    using spec(8) rt_wf_free [OF wf, of c] by auto
  show "(k, c) \<notin> set (rn_children (rt_node t i))" if "i < rt_size t"
    using rt_wf_child [OF wf that, of k c] dead by auto
  show "rn_parent (rt_node t i) \<noteq> Some c" if "i < rt_size t"
    using rt_wf_parented [OF wf that, of c] dead by fastforce
  show "rt_roots t a \<noteq> Some c"
    using spec(8) rt_wf_free [OF wf, of c] rt_wf_root [OF wf, of a c] by (auto simp: ran_def)
qed

lemma rt_root_for_insert_wf:
  assumes wf: "rt_wf t" and al: "rt_root_for_insert a t = (r, t')"
  shows "rt_wf t'" and "rt_roots t' = (rt_roots t)(a \<mapsto> r)"
    and "\<And>j. j < rt_size t \<Longrightarrow> j \<notin> set (rt_free t) \<Longrightarrow> j < rt_size t' \<and> rt_node t' j = rt_node t j"
    and "rt_roots t a = None \<Longrightarrow> rt_node t' r = root_node"
proof -
  have "rt_wf t' \<and> rt_roots t' = (rt_roots t)(a \<mapsto> r)
    \<and> (\<forall>j. j < rt_size t \<longrightarrow> j \<notin> set (rt_free t) \<longrightarrow> j < rt_size t' \<and> rt_node t' j = rt_node t j)
    \<and> (rt_roots t a = None \<longrightarrow> rt_node t' r = root_node)"
  proof (cases "rt_roots t a")
    case (Some r0)
    then show ?thesis using wf al by (auto simp: rt_root_for_insert_def fun_upd_idem)
  next
    case None
    obtain t1 where a1: "rt_alloc_node root_node t = (r, t1)"
      and t': "t' = t1\<lparr> rt_roots := (rt_roots t1)(a \<mapsto> r) \<rparr>"
      using al None by (auto simp: rt_root_for_insert_def split: prod.splits)
    note spec = rt_alloc_node_spec [OF wf a1] and fresh = rt_alloc_fresh [OF wf a1]
    note old = rt_wfD [OF wf]
    obtain rank :: "nat \<Rightarrow> nat" where
      rank: "\<And>c p. c < rt_size t \<Longrightarrow> rn_parent (rt_node t c) = Some p \<Longrightarrow> rank p < rank c"
      using old(10) by blast
    have sz: "rt_size t' = rt_size t1" and rts: "rt_roots t' = (rt_roots t)(a \<mapsto> r)"
      and fr: "rt_free t' = rt_free t1"
      using spec(4) by (simp_all add: t')
    have nd: "rt_node t' j = (if j = r then root_node else rt_node t j)" if "j < rt_size t1" for j
      using spec(3) [OF that] by (simp add: t')
    have root: "rn_children root_node = []" "rn_parent root_node = None" "rn_block root_node = U32_MAX"
      "rn_partial root_node = None" "rn_ctx root_node = 0"
      by (simp_all add: root_node_def)
    have "rt_wf t'"
    proof (rule rt_wfI [where rank = rank], goal_cases)
      case (1 b q)
      then show ?case using old(1) [of b q] spec(1) spec(2) [of q] nd [of q] root
        by (auto simp: sz rts split: if_splits)
    next
      case (2 b b' q)
      then show ?case using old(2) [of b q b'] fresh(3) by (auto simp: rts split: if_splits)
    next
      case (3 i k c)
      then have i: "i < rt_size t1" and ne: "i \<noteq> r" and kc: "(k, c) \<in> set (rn_children (rt_node t i))"
        using nd [of i] root by (auto simp: sz split: if_splits)
      then have it: "i < rt_size t" using spec(2) by blast
      then show ?case using old(3) [OF it kc] fresh(1) [OF it, of k] nd [OF i] nd [of c] spec(2) ne kc
        by (auto simp: sz)
    next
      case (4 i)
      then show ?case using nd [of i] root old(4) [of i] spec(2) by (auto simp: sz)
    next
      case (5 c)
      then show ?case using nd [of c] root old(5) [of c] spec(2) by (auto simp: sz split: if_splits)
    next
      case (6 c p)
      then have c: "c < rt_size t1" and ne: "c \<noteq> r" and pc: "rn_parent (rt_node t c) = Some p"
        using nd [of c] root by (auto simp: sz split: if_splits)
      then have ct: "c < rt_size t" using spec(2) by blast
      then show ?case using old(6) [OF ct pc] fresh(2) [OF ct] pc nd [OF c] nd [of p] spec(2) ne
        by (auto simp: sz)
    next
      case 7
      then show ?case using spec(6) by (simp add: fr)
    next
      case (8 f)
      then have f: "f \<in> set (rt_free t)" "f \<noteq> r" using spec(7) by (auto simp: fr)
      then show ?case using old(8) [of f] spec(2) [of f] nd [of f] by (auto simp: sz rts ran_def split: if_splits)
    next
      case (9 i)
      show ?case
      proof (cases "i = r")
        case True
        then show ?thesis by (auto simp: rts ran_def)
      next
        case False
        then have "i < rt_size t" "rn_parent (rt_node t i) = None"
          using 9 nd [of i] spec(2) by (auto simp: sz)
        then have "i \<in> ran (rt_roots t) \<or> i \<in> set (rt_free t)" by (rule old(9))
        then show ?thesis using False None spec(7) by (auto simp: rts fr)
      qed
    next
      case (10 c p)
      then show ?case using nd [of c] root rank [of c p] spec(2) by (auto simp: sz split: if_splits)
    qed
    moreover have "j < rt_size t' \<and> rt_node t' j = rt_node t j" if "j < rt_size t" "j \<notin> set (rt_free t)" for j
      using that spec(2) [of j] spec(8) nd [of j] by (auto simp: sz)
    ultimately show ?thesis using rts nd [of r] spec(1) by auto
  qed
  then show "rt_wf t'" "rt_roots t' = (rt_roots t)(a \<mapsto> r)"
    "\<And>j. j < rt_size t \<Longrightarrow> j \<notin> set (rt_free t) \<Longrightarrow> j < rt_size t' \<and> rt_node t' j = rt_node t j"
    "rt_roots t a = None \<Longrightarrow> rt_node t' r = root_node"
    by blast+
qed

subsection \<open>Adding a child\<close>

text \<open>The arena after a new child \<open>c\<close> of \<open>cur\<close> under \<open>chunk\<close>.\<close>

lemma rt_new_child_nodes:
  assumes wf: "rt_wf t" and cur: "cur < rt_size t" "cur \<notin> set (rt_free t)"
    and nc: "rt_new_child access own hss block disk ctx chunk cur (t, acq) = (c, t', acq')"
  shows "rt_roots t' = rt_roots t" and "c < rt_size t'" and "c \<noteq> cur"
    and "\<And>j. j < rt_size t' \<longleftrightarrow> j < rt_size t \<or> j = c"
    and "distinct (rt_free t')" and "set (rt_free t') = set (rt_free t) - {c}"
    and "c \<in> set (rt_free t) \<or> c = rt_size t"
    and "\<And>j. j < rt_size t' \<Longrightarrow> rt_node t' j =
      (if j = c then \<lparr> rn_children = [], rn_block = block, rn_disk = disk, rn_ctx = ctx,
          rn_ref = (if own then 2 else 1), rn_access = access, rn_parent = Some cur,
          rn_parent_key = Some chunk, rn_partial = None \<rparr>
       else if j = cur then (rt_node t cur)\<lparr> rn_partial := None,
          rn_children := (chunk, c) # rn_children (rt_node t cur) \<rparr>
       else rt_node t j)"
    and "rt_partial_sharing t' = rt_partial_sharing t"
    and "acq' = acq\<lparr> ia_released := ia_released acq @ partial_block (rt_node t cur),
            ia_blocks := ia_blocks acq @ [block],
            ia_disk := ia_disk acq @ (if hss \<and> disk \<noteq> U32_MAX then [disk] else []) \<rparr>"
    and "i < rt_size t \<Longrightarrow> (k, c) \<notin> set (rn_children (rt_node t i))"
    and "i < rt_size t \<Longrightarrow> rn_parent (rt_node t i) \<noteq> Some c"
    and "rt_roots t a \<noteq> Some c"
proof -
  let ?n = "\<lparr> rn_children = [], rn_block = block, rn_disk = disk, rn_ctx = ctx,
          rn_ref = (if own then 2 else 1), rn_access = access, rn_parent = Some cur,
          rn_parent_key = Some chunk, rn_partial = None \<rparr> :: rnode"
  let ?t1 = "rt_update cur (\<lambda>n. n\<lparr> rn_partial := None \<rparr>) t"
  have wf1: "rt_wf ?t1"
  proof (rule rt_links_eq_wf [OF wf rt_links_eq_update])
    show "rn_children ((rt_node t cur)\<lparr>rn_partial := None\<rparr>) = rn_children (rt_node t cur) \<and>
      rn_parent ((rt_node t cur)\<lparr>rn_partial := None\<rparr>) = rn_parent (rt_node t cur) \<and>
      rn_parent_key ((rt_node t cur)\<lparr>rn_partial := None\<rparr>) = rn_parent_key (rt_node t cur) \<and>
      rn_ctx ((rt_node t cur)\<lparr>rn_partial := None\<rparr>) = rn_ctx (rt_node t cur) \<and>
      rn_block ((rt_node t cur)\<lparr>rn_partial := None\<rparr>) = rn_block (rt_node t cur) \<and>
      (rn_parent (rt_node t cur) = None \<longrightarrow>
       rn_partial ((rt_node t cur)\<lparr>rn_partial := None\<rparr>) = rn_partial (rt_node t cur))"
      using rt_wf_parentless [OF wf cur(1)] by simp
  qed
  obtain t2 where al: "rt_alloc_node ?n ?t1 = (c, t2)"
    and t': "t' = rt_update cur (\<lambda>n. n\<lparr> rn_children := (chunk, c) # rn_children n \<rparr>) t2"
    and acq': "acq' = acq\<lparr> ia_released := ia_released acq @ partial_block (rt_node t cur),
            ia_blocks := ia_blocks acq @ [block],
            ia_disk := ia_disk acq @ (if hss \<and> disk \<noteq> U32_MAX then [disk] else []) \<rparr>"
    using nc by (auto simp: rt_new_child_def Let_def split: prod.splits)
  note spec = rt_alloc_node_spec [OF wf1 al] and fresh = rt_alloc_fresh [OF wf1 al]
  have nd1: "rt_node ?t1 j = (if j = cur then (rt_node t cur)\<lparr> rn_partial := None \<rparr> else rt_node t j)" for j
    using cur(1) by (simp add: rt_node_update)
  show ne: "c \<noteq> cur" using spec(8) cur by auto
  have cur2: "cur < rt_size t2" using spec(2) cur(1) by simp
  show "rt_roots t' = rt_roots t" using spec(4) by (simp add: t')
  show "c < rt_size t'" using spec(1) by (simp add: t')
  show "j < rt_size t' \<longleftrightarrow> j < rt_size t \<or> j = c" for j using spec(2) by (simp add: t')
  show "distinct (rt_free t')" using spec(6) by (simp add: t')
  show "set (rt_free t') = set (rt_free t) - {c}" using spec(7) by (simp add: t')
  show "c \<in> set (rt_free t) \<or> c = rt_size t" using spec(8) by simp
  show "rt_partial_sharing t' = rt_partial_sharing t" using spec(5) by (simp add: t')
  show "acq' = acq\<lparr> ia_released := ia_released acq @ partial_block (rt_node t cur),
            ia_blocks := ia_blocks acq @ [block],
            ia_disk := ia_disk acq @ (if hss \<and> disk \<noteq> U32_MAX then [disk] else []) \<rparr>"
    by (rule acq')
  show "rt_node t' j = (if j = c then ?n
       else if j = cur then (rt_node t cur)\<lparr> rn_partial := None,
          rn_children := (chunk, c) # rn_children (rt_node t cur) \<rparr>
       else rt_node t j)" if "j < rt_size t'" for j
  proof -
    have j: "j < rt_size t2" using that by (simp add: t')
    have n: "rt_node t' j = (if j = cur then (rt_node t2 cur)\<lparr> rn_children := (chunk, c) #
          rn_children (rt_node t2 cur) \<rparr> else rt_node t2 j)"
      by (simp add: t' rt_node_update [OF cur2])
    consider "j = c" | "j = cur" | "j \<noteq> c" "j \<noteq> cur" by blast
    then show ?thesis
    proof cases
      case 1
      then show ?thesis using n spec(3) [OF j] ne by (simp only: if_True if_False refl simp_thms)
    next
      case 2
      have "rt_node t2 cur = (rt_node t cur)\<lparr> rn_partial := None \<rparr>"
        using spec(3) [OF cur2] ne nd1 [of cur] by metis
      then show ?thesis using n 2 ne by simp
    next
      case 3
      then show ?thesis using n spec(3) [OF j] nd1 [of j] by simp
    qed
  qed
  show "(k, c) \<notin> set (rn_children (rt_node t i))" if "i < rt_size t"
    using fresh(1) [of i k] nd1 [of i] that by (auto split: if_splits)
  show "rn_parent (rt_node t i) \<noteq> Some c" if "i < rt_size t"
    using fresh(2) [of i] nd1 [of i] that by (auto split: if_splits)
  show "rt_roots t a \<noteq> Some c" using fresh(3) [of a] by simp
qed

lemma rt_new_child_wf:
  assumes wf: "rt_wf t" and cur: "cur < rt_size t" "cur \<notin> set (rt_free t)"
    and nc: "rt_new_child access own hss block disk (context_hash_combine (rn_ctx (rt_node t cur)) chunk)
        chunk cur (t, acq) = (c, t', acq')"
    and none: "map_of (rn_children (rt_node t cur)) chunk = None" and block: "block \<noteq> U32_MAX"
  shows "rt_wf t'"
proof -
  note sp = rt_new_child_nodes [OF wf cur nc]
  note old = rt_wfD [OF wf]
  obtain rank :: "nat \<Rightarrow> nat" where
    rank: "\<And>c p. c < rt_size t \<Longrightarrow> rn_parent (rt_node t c) = Some p \<Longrightarrow> rank p < rank c"
    using old(10) by blast
  have ncur: "cur < rt_size t'" using sp(4) cur by blast
  have new: "rn_children (rt_node t' c) = []" "rn_block (rt_node t' c) = block"
    "rn_ctx (rt_node t' c) = context_hash_combine (rn_ctx (rt_node t cur)) chunk"
    "rn_parent (rt_node t' c) = Some cur" "rn_parent_key (rt_node t' c) = Some chunk"
    using sp(8) [OF sp(2)] by simp_all
  have kids: "rn_children (rt_node t' cur) = (chunk, c) # rn_children (rt_node t cur)"
    using sp(8) [OF ncur] sp(3) by simp
  have same: "rn_parent (rt_node t' j) = rn_parent (rt_node t j)
      \<and> rn_parent_key (rt_node t' j) = rn_parent_key (rt_node t j)
      \<and> rn_block (rt_node t' j) = rn_block (rt_node t j)
      \<and> rn_ctx (rt_node t' j) = rn_ctx (rt_node t j)
      \<and> (j \<noteq> cur \<longrightarrow> rn_children (rt_node t' j) = rn_children (rt_node t j)
           \<and> rn_partial (rt_node t' j) = rn_partial (rt_node t j))
      \<and> (j = cur \<longrightarrow> rn_partial (rt_node t' j) = None)" if "j < rt_size t'" "j \<noteq> c" for j
    using sp(8) [OF that(1)] that(2) by (cases "j = cur") simp_all
  have less: "j < rt_size t' \<longleftrightarrow> j < rt_size t \<or> j = c" for j by (rule sp(4))
  show ?thesis
  proof (rule rt_wfI [where rank = "rank(c := Suc (rank cur))"], goal_cases)
    case (1 a r)
    then have r: "rt_roots t a = Some r" by (simp add: sp(1))
    then have "r \<noteq> c" using sp(13) by metis
    then show ?case using old(1) [OF r] less [of r] same [of r] by simp
  next
    case (2 a b r)
    then show ?case using old(2) by (simp add: sp(1))
  next
    case (3 i k d)
    have ic: "i \<noteq> c" using 3(2) new(1) by auto
    then have i: "i < rt_size t" using 3(1) less by blast
    show ?case
    proof (cases "d = c")
      case True
      then have "(k, c) \<notin> set (rn_children (rt_node t i))" using sp(11) [OF i] by blast
      then have "i = cur \<and> k = chunk" using 3 same [OF 3(1) ic] kids True by (cases "i = cur") auto
      then show ?thesis using True sp(2) new same [OF ncur] sp(3) by simp
    next
      case False
      then have kd: "(k, d) \<in> set (rn_children (rt_node t i))"
        using 3 same [OF 3(1) ic] kids by (cases "i = cur") auto
      have d: "d < rt_size t" using old(3) [OF i kd] by blast
      then have "d < rt_size t'" using less by blast
      then show ?thesis using old(3) [OF i kd] same [OF _ False] same [OF 3(1) ic] by simp
    qed
  next
    case (4 i)
    have nk: "chunk \<notin> fst ` set (rn_children (rt_node t cur))" using none by (simp add: map_of_eq_None_iff)
    consider "i = c" | "i = cur" | "i \<noteq> c" "i \<noteq> cur" by blast
    then show ?case
    proof cases
      case 1
      then show ?thesis using new(1) by simp
    next
      case 2
      then show ?thesis using kids nk old(4) [OF cur(1)] by simp
    next
      case 3
      then show ?thesis using same [OF 4] old(4) [of i] less [of i] 4 by simp
    qed
  next
    case (5 d)
    then have "d \<noteq> c" using new(4) by auto
    then show ?case using 5 old(5) [of d] less [of d] same [of d] by (cases "d = cur") auto
  next
    case (6 d p)
    show ?case
    proof (cases "d = c")
      case True
      then have "p = cur" using 6 new(4) by simp
      then show ?thesis using True ncur kids new(2) block by auto
    next
      case False
      then have d: "d < rt_size t" "rn_parent (rt_node t d) = Some p"
        using 6 less [of d] same [of d] by auto
      obtain k where k: "p < rt_size t" "rn_block (rt_node t d) \<noteq> U32_MAX"
          "(k, d) \<in> set (rn_children (rt_node t p))"
        using old(6) [OF d] by blast
      have pc: "p \<noteq> c" using sp(12) [OF d(1)] d(2) by auto
      have p': "p < rt_size t'" using k(1) less by blast
      have "(k, d) \<in> set (rn_children (rt_node t' p))"
        using k(3) same [OF p' pc] kids by (cases "p = cur") auto
      then show ?thesis using p' k(2) same [OF 6(1) False] by auto
    qed
  next
    case 7
    then show ?case by (rule sp(5))
  next
    case (8 f)
    then have f: "f \<in> set (rt_free t)" "f \<noteq> c" "f \<noteq> cur" using sp(6) cur by auto
    then show ?case using old(8) [OF f(1)] sp(1) less [of f] same [of f] by simp
  next
    case (9 i)
    then have "i \<noteq> c" using new(4) by auto
    then show ?case using 9 old(9) [of i] sp(1,6) less [of i] same [of i] by simp
  next
    case (10 d p)
    show ?case
    proof (cases "d = c")
      case True
      then have "p = cur" using 10 new(4) by simp
      then show ?thesis using True sp(3) by simp
    next
      case False
      then have d: "d < rt_size t" "rn_parent (rt_node t d) = Some p"
        using 10 less [of d] same [of d] by auto
      then have "p \<noteq> c" using sp(12) [OF d(1)] by auto
      then show ?thesis using rank [OF d] False by simp
    qed
  qed
qed

subsection \<open>The insertion loop\<close>

definition rt_live :: "rtree \<Rightarrow> nat \<Rightarrow> bool" where
  "rt_live t i \<longleftrightarrow> i < rt_size t \<and> i \<notin> set (rt_free t)"

lemma rt_live_root: "rt_wf t \<Longrightarrow> rt_roots t a = Some r \<Longrightarrow> rt_live t r"
  using rt_wf_root rt_wf_free unfolding rt_live_def ran_def by fastforce

lemma rt_live_child:
  assumes "rt_wf t" and "i < rt_size t" and "map_of (rn_children (rt_node t i)) k = Some c"
  shows "rt_live t c"
  using rt_wf_map_of [OF assms] rt_wf_free [OF assms(1)] unfolding rt_live_def by fastforce

lemma rt_links_eq_live: "rt_links_eq t t' \<Longrightarrow> rt_live t' i = rt_live t i"
  by (simp add: rt_links_eq_def rt_live_def)

lemma rt_links_eqD:
  assumes "rt_links_eq t t'"
  shows "rt_size t' = rt_size t" and "rt_roots t' = rt_roots t" and "rt_free t' = rt_free t"
    and "i < rt_size t \<Longrightarrow> rn_children (rt_node t' i) = rn_children (rt_node t i)"
    and "i < rt_size t \<Longrightarrow> rn_parent (rt_node t' i) = rn_parent (rt_node t i)"
    and "i < rt_size t \<Longrightarrow> rn_ctx (rt_node t' i) = rn_ctx (rt_node t i)"
    and "i < rt_size t \<Longrightarrow> rn_block (rt_node t' i) = rn_block (rt_node t i)"
  using assms unfolding rt_links_eq_def by auto

lemma rt_touch_child_links:
  assumes "rt_touch_child access own hss disk ctx child (t, acq) = (t', acq')"
    and "rn_ctx (rt_node t child) = ctx"
  shows "rt_links_eq t t'"
proof -
  have "t' = rt_update child (\<lambda>n. n\<lparr> rn_access := access, rn_ctx := ctx,
            rn_ref := (if rn_ref n = 0 then 1 else rn_ref n) + (if own then 1 else 0),
            rn_disk := (if hss \<and> rn_disk (rt_node t child) = U32_MAX \<and> disk \<noteq> U32_MAX
                        then disk else rn_disk n) \<rparr>) t"
    using assms(1) by (simp add: rt_touch_child_def Let_def split: if_splits)
  moreover have "rt_links_eq t \<dots>" by (rule rt_links_eq_update) (simp add: assms(2))
  ultimately show ?thesis by simp
qed

text \<open>One turn of the loop, whichever arm it takes, keeps the arena well formed and moves to a live
  node whose hash is the chain hash so far.\<close>

lemma rt_new_child_live:
  assumes wf: "rt_wf t" and cur: "rt_live t cur"
    and nc: "rt_new_child access own hss block disk (context_hash_combine (rn_ctx (rt_node t cur)) chunk)
        chunk cur (t, acq) = (c, t', acq')"
    and none: "map_of (rn_children (rt_node t cur)) chunk = None" and block: "block \<noteq> U32_MAX"
  shows "rt_wf t' \<and> rt_live t' c \<and> rn_parent (rt_node t' c) = Some cur
       \<and> rn_ctx (rt_node t' c) = context_hash_combine (rn_ctx (rt_node t cur)) chunk
       \<and> rt_roots t' = rt_roots t \<and> (\<forall>i. rt_live t i \<longrightarrow> rt_live t' i)"
proof -
  have c: "cur < rt_size t" "cur \<notin> set (rt_free t)" using cur by (simp_all add: rt_live_def)
  note sp = rt_new_child_nodes [OF wf c nc]
  have "rt_live t' i" if "rt_live t i" for i
    using that sp(4,6) by (auto simp: rt_live_def)
  moreover have "rt_live t' c" using sp(2,6) by (simp add: rt_live_def)
  ultimately show ?thesis using rt_new_child_wf [OF wf c nc none block] sp(1) sp(8) [OF sp(2)] by simp
qed

lemma rt_insert_chunks_wf:
  assumes "rt_wf t" and "rt_live t cur" and "h = rn_ctx (rt_node t cur)"
    and "i + length cs \<le> length bt" and "U32_MAX \<notin> set bt"
    and "rt_insert_chunks bt disks bs matched access i cs cur h (t, acq) = (cur', t', acq')"
  shows "rt_wf t' \<and> rt_live t' cur' \<and> (cur' = cur \<or> rn_parent (rt_node t' cur') \<noteq> None)
       \<and> rt_roots t' = rt_roots t"
  using assms
proof (induction cs arbitrary: i cur h t acq)
  case Nil
  then show ?case by simp
next
  case (Cons chunk cs)
  let ?ctx = "context_hash_combine h chunk"
  let ?own = "matched \<le> i * bs" and ?hss = "disks \<noteq> []"
  let ?d = "if disks \<noteq> [] then disks ! i else U32_MAX"
  have cur: "cur < rt_size t" using Cons.prems(2) by (simp add: rt_live_def)
  have len: "Suc i + length cs \<le> length bt" using Cons.prems(4) by simp
  have fin: "rn_parent (rt_node t' cur') \<noteq> None"
    if "cur' = child \<or> rn_parent (rt_node t' cur') \<noteq> None" "rn_parent (rt_node t1 child) \<noteq> None"
      "rt_wf t1" "rt_roots t' = rt_roots t1" "rt_wf t'" "rt_live t' cur'" "rt_live t1 child" for child t1
  proof (rule ccontr)
    assume none: "\<not> rn_parent (rt_node t' cur') \<noteq> None"
    then have "cur' = child" using that(1) by blast
    have "cur' \<in> ran (rt_roots t')"
      using rt_wf_used [OF that(5), of cur'] none that(6) by (auto simp: rt_live_def)
    then have "child \<in> ran (rt_roots t1)" using that(4) \<open>cur' = child\<close> by simp
    then obtain a where "rt_roots t1 a = Some child" unfolding ran_def by blast
    then show False using rt_wf_root [OF that(3)] that(2) by simp
  qed
  show ?case
  proof (cases "map_of (rn_children (rt_node t cur)) chunk")
    case (Some child)
    obtain t1 acq1 where tc: "rt_touch_child access ?own ?hss ?d ?ctx child (t, acq) = (t1, acq1)" by force
    note mo = rt_wf_map_of [OF Cons.prems(1) cur Some]
    have le: "rt_links_eq t t1" by (rule rt_touch_child_links [OF tc]) (simp add: mo Cons.prems(3))
    have wf1: "rt_wf t1" by (rule rt_links_eq_wf [OF Cons.prems(1) le])
    have l1: "rt_live t1 child"
      using rt_live_child [OF Cons.prems(1) cur Some] rt_links_eq_live [OF le] by simp
    have h1: "?ctx = rn_ctx (rt_node t1 child)" using rt_links_eqD(6) [OF le mo(1)] mo(4) Cons.prems(3) by simp
    have p1: "rn_parent (rt_node t1 child) \<noteq> None" using rt_links_eqD(5) [OF le mo(1)] mo(2) by simp
    have r1: "rt_roots t1 = rt_roots t" by (rule rt_links_eqD(2) [OF le])
    have run: "rt_insert_chunks bt disks bs matched access (Suc i) cs child ?ctx (t1, acq1) = (cur', t', acq')"
      using Cons.prems(6) Some tc by (simp add: Let_def)
    note IH = Cons.IH [OF wf1 l1 h1 len Cons.prems(5) run]
    have "rn_parent (rt_node t' cur') \<noteq> None" by (rule fin [of child t1]) (use IH p1 wf1 l1 in auto)
    then show ?thesis using IH r1 by simp
  next
    case None
    obtain child t1 acq1 where
      nc: "rt_new_child access ?own ?hss (bt ! i) ?d ?ctx chunk cur (t, acq) = (child, t1, acq1)"
      using prod_cases3 by blast
    have "i < length bt" using Cons.prems(4) by simp
    then have b: "bt ! i \<noteq> U32_MAX" using Cons.prems(5) nth_mem by metis
    note nl = rt_new_child_live [OF Cons.prems(1,2) nc [unfolded Cons.prems(3)] None b]
    have run: "rt_insert_chunks bt disks bs matched access (Suc i) cs child ?ctx (t1, acq1) = (cur', t', acq')"
      using Cons.prems(6) None nc by (simp add: Let_def)
    have h1: "?ctx = rn_ctx (rt_node t1 child)" using nl Cons.prems(3) by simp
    have l1: "rt_live t1 child" and wf1: "rt_wf t1" using nl by simp_all
    note IH = Cons.IH [OF wf1 l1 h1 len Cons.prems(5) run]
    have "rn_parent (rt_node t' cur') \<noteq> None" by (rule fin [of child t1]) (use IH nl in auto)
    then show ?thesis using IH nl by simp
  qed
qed

lemma rt_insert_partial_links:
  assumes wf: "rt_wf t" and cur: "cur < rt_size t" "rn_parent (rt_node t cur) \<noteq> None"
    and ip: "rt_insert_partial toks block disk hss cur (t, acq) = (t', acq')"
  shows "rt_links_eq t t'"
proof -
  have "t' = rt_update cur (\<lambda>n. n\<lparr> rn_partial := Some (toks, block, disk) \<rparr>) t"
    using ip by (simp add: rt_insert_partial_def Let_def)
  then show ?thesis using cur(2) by (auto intro: rt_links_eq_update)
qed

lemma rt_chunks_length [simp]: "length (chunks bs n tokens) = n"
  by (induction bs n tokens rule: chunks.induct) auto

lemma rt_insert_wf [inv_preserved]:
  assumes wf: "rt_wf t" and bt: "U32_MAX \<notin> set bt"
    and ins: "rt_insert tokens bt disks bs matched a t = Some (t', acq)"
  shows "rt_wf t'"
proof -
  obtain access t1 where na: "rt_next_access t = (access, t1)" by force
  obtain root t2 where ri: "rt_root_for_insert a t1 = (root, t2)" by force
  have wf1: "rt_wf t1" using rt_links_eq_wf [OF wf rt_next_access_links] na by simp
  note r = rt_root_for_insert_wf [OF wf1 ri]
  let ?full = "length tokens div bs"
  let ?n = "min ?full (length bt)"
  let ?acq0 = "\<lparr> ia_disk = [], ia_blocks = [], ia_released = [] \<rparr>"
  obtain cur t3 acq3 where
    run: "rt_insert_chunks bt disks bs matched access 0 (chunks bs ?n tokens) root 0 (t2, ?acq0) = (cur, t3, acq3)"
    using prod_cases3 by blast
  have root: "rt_roots t2 a = Some root" using r(2) by simp
  have h: "0 = rn_ctx (rt_node t2 root)" using rt_wf_root [OF r(1) root] by simp
  have "0 + length (chunks bs ?n tokens) \<le> length bt" by simp
  note ch = rt_insert_chunks_wf [OF r(1) rt_live_root [OF r(1) root] h this bt run]
  show ?thesis
  proof (cases "0 < length tokens mod bs \<and> ?full < length bt \<and> cur \<noteq> root")
    case False
    then have "t' = t3" using ins na ri run by (auto simp: rt_insert_def Let_def split: if_splits)
    then show ?thesis using ch by simp
  next
    case True
    then have "rt_insert_partial (drop (?full * bs) tokens) (bt ! ?full)
        (if disks \<noteq> [] \<and> ?full < length disks then disks ! ?full else U32_MAX) (disks \<noteq> []) cur (t3, acq3)
        = (t', acq)"
      using ins na ri run by (auto simp: rt_insert_def Let_def split: if_splits)
    from rt_links_eq_wf [OF _ rt_insert_partial_links [OF _ _ _ this]] show ?thesis
      using ch True by (simp add: rt_live_def)
  qed
qed

subsection \<open>Unlinking a leaf\<close>

definition cleared_node :: "rnode \<Rightarrow> rnode" where
  "cleared_node n = n\<lparr> rn_block := U32_MAX, rn_disk := U32_MAX, rn_children := [],
     rn_parent := None, rn_parent_key := None, rn_partial := None \<rparr>"

lemma rt_drop_leaf_nodes:
  assumes wf: "rt_wf t" and i: "i < rt_size t" and ev: "rt_evictable (rt_node t i)"
    and dl: "rt_drop_leaf i t = (t', phys, disk)"
  obtains p k where "rn_parent (rt_node t i) = Some p" and "p < rt_size t" and "p \<noteq> i"
    and "map_of (rn_children (rt_node t p)) k = Some i"
    and "rt_size t' = rt_size t" and "rt_roots t' = rt_roots t" and "rt_free t' = rt_free t @ [i]"
    and "rt_partial_sharing t' = rt_partial_sharing t"
    and "\<And>j. j < rt_size t \<Longrightarrow> rt_node t' j =
      (if j = i then cleared_node (rt_node t i)
       else if j = p then (rt_node t p)\<lparr> rn_children := filter (\<lambda>(k', _). k' \<noteq> k) (rn_children (rt_node t p)) \<rparr>
       else rt_node t j)"
proof -
  obtain p where p: "rn_parent (rt_node t i) = Some p" using ev by (auto simp: rt_evictable_def)
  obtain k where pk: "p < rt_size t" "(k, i) \<in> set (rn_children (rt_node t p))"
    using rt_wf_parented [OF wf i p] by blast
  have key: "rn_parent_key (rt_node t i) = Some k" using rt_wf_child [OF wf pk] by simp
  have mo: "map_of (rn_children (rt_node t p)) k = Some i"
    using pk(2) rt_wf_keys [OF wf pk(1)] by (simp add: map_of_is_SomeI)
  obtain rank :: "nat \<Rightarrow> nat" where "\<forall>c p. c < rt_size t \<longrightarrow> rn_parent (rt_node t c) = Some p \<longrightarrow> rank p < rank c"
    using rt_wf_rank [OF wf] by blast
  then have ne: "p \<noteq> i" using i p by blast
  let ?t1 = "rt_update i (\<lambda>n. n\<lparr> rn_partial := None \<rparr>) t"
  let ?t2 = "rt_update p (\<lambda>m. m\<lparr> rn_children := filter (\<lambda>(k', _). k' \<noteq> k) (rn_children m) \<rparr>) ?t1"
  have t': "t' = (rt_update i cleared_node ?t2)\<lparr> rt_free := rt_free t @ [i] \<rparr>"
    using dl p key by (simp add: rt_drop_leaf_def Let_def vec_push_def cleared_node_def [abs_def])
  have cl: "cleared_node ((rt_node t i)\<lparr> rn_partial := None \<rparr>) = cleared_node (rt_node t i)"
    by (simp add: cleared_node_def)
  have nd: "rt_node t' j =
      (if j = i then cleared_node (rt_node t i)
       else if j = p then (rt_node t p)\<lparr> rn_children := filter (\<lambda>(k', _). k' \<noteq> k) (rn_children (rt_node t p)) \<rparr>
       else rt_node t j)" if "j < rt_size t" for j
    using i pk(1) ne cl by (simp add: t' rt_node_update)
  show thesis by (rule that [OF p pk(1) ne mo _ _ _ _ nd]) (simp_all add: t')
qed

lemma rt_drop_leaf_wf:
  assumes wf: "rt_wf t" and i: "i < rt_size t" and ev: "rt_evictable (rt_node t i)"
    and dl: "rt_drop_leaf i t = (t', phys, disk)"
  shows "rt_wf t'"
proof -
  obtain p k where pi: "rn_parent (rt_node t i) = Some p" and p: "p < rt_size t" and ne: "p \<noteq> i"
    and mo: "map_of (rn_children (rt_node t p)) k = Some i"
    and sz: "rt_size t' = rt_size t" and rts: "rt_roots t' = rt_roots t" and fr: "rt_free t' = rt_free t @ [i]"
    and nd: "\<And>j. j < rt_size t \<Longrightarrow> rt_node t' j =
      (if j = i then cleared_node (rt_node t i)
       else if j = p then (rt_node t p)\<lparr> rn_children := filter (\<lambda>(k', _). k' \<noteq> k) (rn_children (rt_node t p)) \<rparr>
       else rt_node t j)"
    using rt_drop_leaf_nodes [OF wf i ev dl] by metis
  note old = rt_wfD [OF wf]
  obtain rank :: "nat \<Rightarrow> nat" where
    rank: "\<And>c p. c < rt_size t \<Longrightarrow> rn_parent (rt_node t c) = Some p \<Longrightarrow> rank p < rank c"
    using old(10) by blast
  have leaf: "rn_children (rt_node t i) = []" using ev by (simp add: rt_evictable_def)
  have nochild: "rn_parent (rt_node t j) \<noteq> Some i" if "j < rt_size t" for j
    using old(6) [OF that, of i] leaf by auto
  have cl: "rn_children (rt_node t' i) = []" "rn_parent (rt_node t' i) = None"
    "rn_block (rt_node t' i) = U32_MAX" "rn_partial (rt_node t' i) = None"
    using nd [OF i] by (simp_all add: cleared_node_def)
  have same: "rn_parent (rt_node t' j) = rn_parent (rt_node t j)
      \<and> rn_parent_key (rt_node t' j) = rn_parent_key (rt_node t j)
      \<and> rn_block (rt_node t' j) = rn_block (rt_node t j)
      \<and> rn_ctx (rt_node t' j) = rn_ctx (rt_node t j)
      \<and> rn_partial (rt_node t' j) = rn_partial (rt_node t j)
      \<and> (j \<noteq> p \<longrightarrow> rn_children (rt_node t' j) = rn_children (rt_node t j))" if "j < rt_size t" "j \<noteq> i" for j
    using nd [OF that(1)] that(2) by simp
  have kids: "rn_children (rt_node t' p) = filter (\<lambda>(k', _). k' \<noteq> k) (rn_children (rt_node t p))"
    using nd [OF p] ne by simp
  have ctxi: "rn_ctx (rt_node t' j) = rn_ctx (rt_node t j)" if "j < rt_size t" for j
    using nd [OF that] by (simp add: cleared_node_def)
  have parc: "rn_parent (rt_node t i) \<noteq> None" using pi by simp
  show ?thesis
  proof (rule rt_wfI [where rank = rank], goal_cases)
    case (1 a r)
    then have r: "rt_roots t a = Some r" by (simp add: rts)
    then have "r \<noteq> i" using old(1) [OF r] parc by auto
    then show ?case using old(1) [OF r] same [of r] by (simp add: sz)
  next
    case (2 a b r)
    then show ?case using old(2) by (simp add: rts)
  next
    case (3 j q d)
    then have j: "j < rt_size t" "j \<noteq> i" using cl by (auto simp: sz)
    have jd: "(q, d) \<in> set (rn_children (rt_node t j)) \<and> (j = p \<longrightarrow> q \<noteq> k)"
      using 3(2) same [OF j] kids by (cases "j = p") auto
    then have jd': "(q, d) \<in> set (rn_children (rt_node t j))" by blast
    note dd = old(3) [OF j(1) jd']
    have di: "d \<noteq> i"
    proof
      assume d: "d = i"
      then have "j = p" using dd pi by simp
      moreover have "q = k" using dd d rt_wf_map_of(3) [OF wf p mo] by simp
      ultimately show False using jd by blast
    qed
    then show ?case using dd same [of d] ctxi [OF j(1)] by (simp add: sz)
  next
    case (4 j)
    then have j: "j < rt_size t" by (simp add: sz)
    consider "j = i" | "j = p" | "j \<noteq> i" "j \<noteq> p" by blast
    then show ?case
    proof cases
      case 1
      then show ?thesis using cl by simp
    next
      case 2
      then show ?thesis using old(4) [OF p] kids by (simp add: distinct_map_filter)
    next
      case 3
      then show ?thesis using old(4) [OF j] same [OF j] by simp
    qed
  next
    case (5 c)
    then show ?case using old(5) [of c] same [of c] cl by (cases "c = i") (simp_all add: sz)
  next
    case (6 c q)
    then have c: "c < rt_size t" "c \<noteq> i" using cl by (auto simp: sz)
    then have pc: "rn_parent (rt_node t c) = Some q" using 6 same [of c] by simp
    obtain k' where k': "q < rt_size t" "rn_block (rt_node t c) \<noteq> U32_MAX" "(k', c) \<in> set (rn_children (rt_node t q))"
      using old(6) [OF c(1) pc] by blast
    have qi: "q \<noteq> i" using nochild [OF c(1)] pc by auto
    have "(k', c) \<in> set (rn_children (rt_node t' q))"
    proof (cases "q = p")
      case True
      have "k' \<noteq> k"
      proof
        assume "k' = k"
        then have "map_of (rn_children (rt_node t p)) k = Some c"
          using k'(3) True old(4) [OF p] by (simp add: map_of_is_SomeI)
        then show False using mo c by simp
      qed
      then show ?thesis using k'(3) True kids by simp
    next
      case False
      then show ?thesis using k'(3) same [OF k'(1) qi] by simp
    qed
    then show ?case using k' same [OF c] by (auto simp: sz)
  next
    case 7
    have "i \<notin> set (rt_free t)" using old(8) [of i] parc by auto
    then show ?case using old(7) by (simp add: fr)
  next
    case (8 f)
    show ?case
    proof (cases "f = i")
      case True
      have "i \<notin> ran (rt_roots t)"
      proof
        assume "i \<in> ran (rt_roots t)"
        then obtain a where "rt_roots t a = Some i" unfolding ran_def by blast
        then show False using old(1) [of a i] parc by simp
      qed
      then show ?thesis using True i cl by (simp add: sz rts)
    next
      case False
      then have f: "f \<in> set (rt_free t)" using 8 by (simp add: fr)
      note of = old(8) [OF f]
      have "f \<noteq> p" using of mo by auto
      then show ?thesis using of same [of f] False by (simp add: sz rts)
    qed
  next
    case (9 j)
    then show ?case using old(9) [of j] same [of j] by (cases "j = i") (simp_all add: sz rts fr)
  next
    case (10 c q)
    then show ?case using rank [of c q] same [of c] cl by (cases "c = i") (simp_all add: sz)
  qed
qed

lemma rt_best_evictable:
  assumes "rt_best 0 (rt_nodes t) None = Some (i, a)"
  shows "i < rt_size t \<and> rt_evictable (rt_node t i)"
  using rt_best_sound [OF assms] by simp

text \<open>The loop rule of \<open>evict\<close>: what every unlinked leaf keeps holds at the end, and the loop ends
  with enough blocks or with no evictable leaf.\<close>

lemma rt_evict_loop_rule:
  assumes step: "\<And>t phys disk i t1 p d. I t phys disk \<Longrightarrow> rt_wf t \<Longrightarrow> length phys < n \<Longrightarrow> i < rt_size t
      \<Longrightarrow> rt_evictable (rt_node t i) \<Longrightarrow> rt_drop_leaf i t = (t1, p, d) \<Longrightarrow> I t1 (phys @ p) (disk @ d)"
    and "I t phys disk" and "rt_wf t" and "rt_evict_loop n t phys disk = (t', phys', disk')"
  shows "rt_wf t' \<and> I t' phys' disk' \<and> (n \<le> length phys' \<or> (\<forall>m \<in> set (rt_nodes t'). \<not> rt_evictable m))"
  using assms(2-4)
proof (induction "n - length phys" arbitrary: t phys disk rule: less_induct)
  case less
  note unf = rt_evict_loop.simps [of n t phys disk]
  show ?case
  proof (cases "n \<le> length phys")
    case True
    then show ?thesis using less.prems unf by simp
  next
    case False
    show ?thesis
    proof (cases "rt_best 0 (rt_nodes t) None")
      case None
      then show ?thesis using less.prems False unf rt_best_None [OF None] by simp
    next
      case (Some b)
      obtain i a where b: "b = (i, a)" by force
      obtain t1 p d where dl: "rt_drop_leaf i t = (t1, p, d)" using prod_cases3 by blast
      have ev: "i < rt_size t" "rt_evictable (rt_node t i)" using rt_best_evictable Some b by blast+
      have "p \<noteq> []" using dl by (auto simp: rt_drop_leaf_def Let_def)
      then have less': "n - length (phys @ p) < n - length phys" using False by (cases p) auto
      have "I t1 (phys @ p) (disk @ d)" using step [OF less.prems(1,2) _ ev dl] False by simp
      moreover have "rt_wf t1" by (rule rt_drop_leaf_wf [OF less.prems(2) ev dl])
      moreover have "rt_evict_loop n t1 (phys @ p) (disk @ d) = (t', phys', disk')"
        using less.prems(3) False Some b dl unf by simp
      ultimately show ?thesis by (rule less.hyps [OF less'])
    qed
  qed
qed

lemma rt_evict_rule:
  assumes "\<And>t phys disk i t1 p d. I t phys disk \<Longrightarrow> rt_wf t \<Longrightarrow> length phys < n \<Longrightarrow> i < rt_size t
      \<Longrightarrow> rt_evictable (rt_node t i) \<Longrightarrow> rt_drop_leaf i t = (t1, p, d) \<Longrightarrow> I t1 (phys @ p) (disk @ d)"
    and "I t [] []" and "rt_wf t" and "rt_evict n t = (t', phys', disk')"
  shows "rt_wf t' \<and> I t' phys' disk' \<and> (n \<le> length phys' \<or> (\<forall>m \<in> set (rt_nodes t'). \<not> rt_evictable m))"
proof (cases "n = 0")
  case True
  then show ?thesis using assms by (simp add: rt_evict_def)
next
  case False
  then have "rt_evict_loop n t [] [] = (t', phys', disk')" using assms(4) by (simp add: rt_evict_def)
  show ?thesis
    by (rule rt_evict_loop_rule [where I = I, OF _ assms(2,3) \<open>rt_evict_loop n t [] [] = _\<close>])
      (rule assms(1))
qed

lemma rt_evict_wf [inv_preserved]: "rt_wf t \<Longrightarrow> rt_evict n t = (t', phys, disk) \<Longrightarrow> rt_wf t'"
  using rt_evict_rule [of "\<lambda>_ _ _. True" n t t' phys disk] by blast

lemma rt_inc_refs_wf [inv_preserved]:
  assumes "rt_wf t" and "rt_inc_refs tokens bs m a t = Some t'"
  shows "rt_wf t'"
proof -
  have wf1: "rt_wf (snd (rt_next_access t))" by (rule rt_links_eq_wf [OF assms(1) rt_next_access_links])
  then show ?thesis
    using assms(2) rt_links_eq_wf [OF wf1 rt_inc_chunks_links]
    by (auto simp: rt_inc_refs_def Let_def split: prod.splits option.splits if_splits)
qed

lemma rt_dec_refs_wf [inv_preserved]:
  "rt_wf t \<Longrightarrow> rt_dec_refs tokens bs m a t = Some t' \<Longrightarrow> rt_wf t'"
  using rt_links_eq_wf rt_dec_chunks_links
  by (fastforce simp: rt_dec_refs_def split: option.splits if_splits)

lemma rt_new_wf: "rt_wf (rt_new sharing)"
  by (rule rt_wfI [where rank = "\<lambda>_. 0"])
    (auto simp: rt_new_def root_node_def ran_def split: if_splits)

end
