(* ===== verification/Radix_Owned.thy ===== *)
theory Radix_Owned
  imports Radix_Inv
begin

text \<open>
  Which KV blocks the radix tree stores, as a multiset: one per node and one per partial suffix.
  Insertion and eviction tell the caller exactly what the tree started and stopped storing, so the
  caller's reference counts stay in step.
\<close>

definition node_blocks :: "rnode \<Rightarrow> nat multiset" where
  "node_blocks n = (if rn_block n = U32_MAX then {#} else {#rn_block n#}) + mset (partial_block n)"

definition rt_owned :: "rtree \<Rightarrow> nat multiset" where
  "rt_owned t = sum_list (map node_blocks (rt_nodes t))"

lemma sum_list_update_mset:
  fixes f :: "'a \<Rightarrow> 'b multiset"
  assumes "i < length xs"
  shows "sum_list (map f (xs[i := x])) + f (xs ! i) = sum_list (map f xs) + f x"
proof -
  have "sum_list (map f xs) = sum_list (map f (take i xs @ xs ! i # drop (Suc i) xs))"
    using assms by (simp add: id_take_nth_drop [symmetric])
  moreover have "sum_list (map f (xs[i := x])) = sum_list (map f (take i xs @ x # drop (Suc i) xs))"
    using assms by (simp add: upd_conv_take_nth_drop)
  ultimately show ?thesis by (simp add: ac_simps)
qed

lemma rt_owned_update:
  "i < rt_size t \<Longrightarrow> rt_owned (rt_update i f t) + node_blocks (rt_node t i)
     = rt_owned t + node_blocks (f (rt_node t i))"
  by (simp add: rt_owned_def rt_update_def sum_list_update_mset)

lemma rt_owned_update_same:
  assumes "node_blocks (f (rt_node t i)) = node_blocks (rt_node t i)"
  shows "rt_owned (rt_update i f t) = rt_owned t"
proof (cases "i < rt_size t")
  case True
  then show ?thesis using rt_owned_update [OF True, of f] assms by simp
next
  case False
  then show ?thesis by (simp add: rt_update_def rt_owned_def list_update_beyond)
qed

lemma rt_owned_frame [simp]:
  "rt_owned (t\<lparr> rt_free := fr \<rparr>) = rt_owned t" "rt_owned (t\<lparr> rt_roots := rts \<rparr>) = rt_owned t"
  "rt_owned (t\<lparr> rt_access := a \<rparr>) = rt_owned t"
  by (simp_all add: rt_owned_def)

lemma node_blocks_root [simp]: "node_blocks root_node = {#}"
  by (simp add: node_blocks_def root_node_def partial_block_def)

lemma rt_owned_alloc:
  assumes wf: "rt_wf t" and al: "rt_alloc_node n t = (c, t')"
  shows "rt_owned t' = rt_owned t + node_blocks n"
proof (cases "vec_pop (rt_free t)")
  case None
  then show ?thesis using al by (auto simp: rt_alloc_node_def rt_owned_def)
next
  case (Some q)
  then obtain rest where pop: "rt_free t = rest @ [c]"
    and t': "t' = t\<lparr> rt_free := rest, rt_nodes := (rt_nodes t)[c := n] \<rparr>"
    using al by (auto simp: rt_alloc_node_def vec_pop_Some split: prod.splits)
  have c: "c < rt_size t" "rn_parent (rt_node t c) = None" using rt_wf_free [OF wf, of c] pop by simp_all
  then have "node_blocks (rt_node t c) = {#}"
    using rt_wf_parentless [OF wf] by (simp add: node_blocks_def partial_block_def)
  then show ?thesis using sum_list_update_mset [OF c(1), of node_blocks n]
    by (simp add: t' rt_owned_def)
qed

lemma rt_owned_root_for_insert:
  "rt_wf t \<Longrightarrow> rt_root_for_insert a t = (r, t') \<Longrightarrow> rt_owned t' = rt_owned t"
  by (auto simp: rt_root_for_insert_def rt_owned_alloc split: option.splits prod.splits)

lemma rt_owned_inc_chunks [simp]: "rt_owned (rt_inc_chunks access cs cur t) = rt_owned t"
  by (induction access cs cur t rule: rt_inc_chunks.induct)
    (auto split: option.split simp: rt_owned_update_same node_blocks_def partial_block_def)

lemma rt_owned_dec_chunks [simp]: "rt_owned (rt_dec_chunks cs cur t) = rt_owned t"
  by (induction cs cur t rule: rt_dec_chunks.induct)
    (auto split: option.split simp: rt_owned_update_same node_blocks_def partial_block_def)

lemma rt_owned_touch_child:
  assumes "rt_touch_child access own hss disk ctx child (t, acq) = (t', acq')"
  shows "rt_owned t' = rt_owned t \<and> ia_released acq' = ia_released acq \<and> ia_blocks acq' = ia_blocks acq"
proof -
  have "t' = rt_update child (\<lambda>n. n\<lparr> rn_access := access, rn_ctx := ctx,
            rn_ref := (if rn_ref n = 0 then 1 else rn_ref n) + (if own then 1 else 0),
            rn_disk := (if hss \<and> rn_disk (rt_node t child) = U32_MAX \<and> disk \<noteq> U32_MAX
                        then disk else rn_disk n) \<rparr>) t"
    using assms(1) by (simp add: rt_touch_child_def Let_def split: if_splits)
  moreover have "rt_owned \<dots> = rt_owned t"
    by (rule rt_owned_update_same) (simp add: node_blocks_def partial_block_def)
  ultimately show ?thesis using assms by (auto simp: rt_touch_child_def Let_def)
qed

lemma rt_owned_new_child:
  assumes wf: "rt_wf t" and cur: "cur < rt_size t"
    and nc: "rt_new_child access own hss block disk ctx chunk cur (t, acq) = (c, t', acq')"
    and block: "block \<noteq> U32_MAX"
  shows "rt_owned t' + mset (ia_released acq') + mset (ia_blocks acq)
       = rt_owned t + mset (ia_released acq) + mset (ia_blocks acq')"
proof -
  let ?t1 = "rt_update cur (\<lambda>n. n\<lparr> rn_partial := None \<rparr>) t"
  let ?n = "\<lparr> rn_children = [], rn_block = block, rn_disk = disk, rn_ctx = ctx,
          rn_ref = (if own then 2 else 1), rn_access = access, rn_parent = Some cur,
          rn_parent_key = Some chunk, rn_partial = None \<rparr> :: rnode"
  have wf1: "rt_wf ?t1"
    by (rule rt_links_eq_wf [OF wf rt_links_eq_update])
      (simp, use rt_wf_parentless [OF wf cur] in simp)
  obtain t2 where al: "rt_alloc_node ?n ?t1 = (c, t2)"
    and t': "t' = rt_update cur (\<lambda>n. n\<lparr> rn_children := (chunk, c) # rn_children n \<rparr>) t2"
    and acq': "acq' = acq\<lparr> ia_released := ia_released acq @ partial_block (rt_node t cur),
            ia_blocks := ia_blocks acq @ [block],
            ia_disk := ia_disk acq @ (if hss \<and> disk \<noteq> U32_MAX then [disk] else []) \<rparr>"
    using nc by (auto simp: rt_new_child_def Let_def split: prod.splits)
  have o1: "rt_owned ?t1 + mset (partial_block (rt_node t cur)) = rt_owned t"
    using rt_owned_update [OF cur, of "\<lambda>n. n\<lparr> rn_partial := None \<rparr>"]
    by (simp add: node_blocks_def partial_block_def split: if_splits)
  have "rt_owned t' = rt_owned t2"
    unfolding t' by (rule rt_owned_update_same) (simp add: node_blocks_def partial_block_def)
  also have "\<dots> = rt_owned ?t1 + {#block#}"
    using rt_owned_alloc [OF wf1 al] block by (simp add: node_blocks_def partial_block_def)
  finally show ?thesis using o1 by (simp add: acq' ac_simps)
qed

text \<open>Two steps that each account for the blocks they own and release, one after the other.\<close>

lemma conserves_trans:
  fixes A A' A'' :: "nat multiset"
  assumes "A' + R' + B = A + R + B'" and "A'' + R'' + B' = A' + R' + B''"
  shows "A'' + R'' + B = A + R + B''"
proof -
  have "(A'' + R'' + B) + B' = (A'' + R'' + B') + B" by (simp add: ac_simps)
  also have "\<dots> = (A' + R' + B) + B''" unfolding assms(2) by (simp add: ac_simps)
  also have "\<dots> = (A + R + B'') + B'" unfolding assms(1) by (simp add: ac_simps)
  finally show ?thesis by (rule add_right_imp_eq)
qed

lemma rt_owned_insert_chunks:
  assumes "rt_wf t" and "rt_live t cur" and "h = rn_ctx (rt_node t cur)"
    and "i + length cs \<le> length bt" and "U32_MAX \<notin> set bt"
    and "rt_insert_chunks bt disks bs matched access i cs cur h (t, acq) = (cur', t', acq')"
  shows "rt_owned t' + mset (ia_released acq') + mset (ia_blocks acq)
       = rt_owned t + mset (ia_released acq) + mset (ia_blocks acq')"
  using assms
proof (induction cs arbitrary: i cur h t acq)
  case Nil
  then show ?case by simp
next
  case (Cons chunk cs)
  let ?ctx = "context_hash_combine h chunk"
  let ?own = "matched \<le> i * bs" and ?hss = "disks \<noteq> []"
  let ?d = "if disks \<noteq> [] then disks ! i else U32_MAX"
  have cur: "cur < rt_size t" using Cons.prems(2) by (simp add: rt_live_def)
  have len: "Suc i + length cs \<le> length bt" using Cons.prems(4) by simp
  show ?case
  proof (cases "map_of (rn_children (rt_node t cur)) chunk")
    case (Some child)
    obtain t1 acq1 where tc: "rt_touch_child access ?own ?hss ?d ?ctx child (t, acq) = (t1, acq1)" by force
    note mo = rt_wf_map_of [OF Cons.prems(1) cur Some]
    have le: "rt_links_eq t t1" by (rule rt_touch_child_links [OF tc]) (simp add: mo Cons.prems(3))
    have "rt_owned t' + mset (ia_released acq') + mset (ia_blocks acq1)
       = rt_owned t1 + mset (ia_released acq1) + mset (ia_blocks acq')"
      using Cons.prems(5,6) Some tc mo len rt_links_eq_wf [OF Cons.prems(1) le] rt_links_eqD(6) [OF le mo(1)]
        rt_live_child [OF Cons.prems(1) cur Some] rt_links_eq_live [OF le] Cons.prems(3)
      by (intro Cons.IH [of t1 child ?ctx "Suc i" acq1]) (simp_all add: Let_def)
    then show ?thesis using rt_owned_touch_child [OF tc] by simp
  next
    case None
    obtain child t1 acq1 where
      nc: "rt_new_child access ?own ?hss (bt ! i) ?d ?ctx chunk cur (t, acq) = (child, t1, acq1)"
      using prod_cases3 by blast
    have "i < length bt" using Cons.prems(4) by simp
    then have b: "bt ! i \<noteq> U32_MAX" using Cons.prems(5) nth_mem by metis
    note nl = rt_new_child_live [OF Cons.prems(1,2) nc [unfolded Cons.prems(3)] None b]
    have "rt_owned t' + mset (ia_released acq') + mset (ia_blocks acq1)
       = rt_owned t1 + mset (ia_released acq1) + mset (ia_blocks acq')"
      using Cons.prems(3,5,6) None nc nl len
      by (intro Cons.IH [of t1 child ?ctx "Suc i" acq1]) (simp_all add: Let_def)
    from conserves_trans [OF rt_owned_new_child [OF Cons.prems(1) cur nc b] this] show ?thesis .
  qed
qed

lemma rt_owned_insert_partial:
  assumes cur: "cur < rt_size t" and nz: "rn_block (rt_node t cur) \<noteq> U32_MAX"
    and ip: "rt_insert_partial toks block disk hss cur (t, acq) = (t', acq')"
  shows "rt_owned t' + mset (ia_released acq') + mset (ia_blocks acq)
       = rt_owned t + mset (ia_released acq) + mset (ia_blocks acq')"
proof -
  have t': "t' = rt_update cur (\<lambda>n. n\<lparr> rn_partial := Some (toks, block, disk) \<rparr>) t"
    using ip by (simp add: rt_insert_partial_def Let_def)
  have "rt_owned t' + mset (partial_block (rt_node t cur)) = rt_owned t + {#block#}"
    using rt_owned_update [OF cur, of "\<lambda>n. n\<lparr> rn_partial := Some (toks, block, disk) \<rparr>"]
    by (simp add: t' node_blocks_def partial_block_def split: if_splits)
  moreover have "ia_released acq' = ia_released acq @ (if partial_block (rt_node t cur) \<noteq> [block]
        then partial_block (rt_node t cur) else [])
      \<and> ia_blocks acq' = ia_blocks acq @ (if partial_block (rt_node t cur) \<noteq> [block] then [block] else [])"
    using ip by (auto simp: rt_insert_partial_def Let_def)
  ultimately show ?thesis by (auto simp: ac_simps split: if_splits)
qed

text \<open>C10: insertion reports exactly the KV blocks the tree starts and stops storing: blocks stored
  after it plus blocks it released are the blocks stored before plus the blocks it newly owns, each
  counted as often as it is stored.\<close>

theorem radix_insert_conserves:
  assumes wf: "rt_wf t" and bt: "U32_MAX \<notin> set bt"
    and ins: "rt_insert tokens bt disks bs matched a t = Some (t', acq)"
  shows "rt_owned t' + mset (ia_released acq) = rt_owned t + mset (ia_blocks acq)"
proof -
  obtain access t1 where na: "rt_next_access t = (access, t1)" by force
  obtain root t2 where ri: "rt_root_for_insert a t1 = (root, t2)" by force
  have wf1: "rt_wf t1" using rt_links_eq_wf [OF wf rt_next_access_links] na by simp
  have o1: "rt_owned t1 = rt_owned t" using na by (auto simp: rt_next_access_def)
  note r = rt_root_for_insert_wf [OF wf1 ri] and o2 = rt_owned_root_for_insert [OF wf1 ri]
  let ?full = "length tokens div bs"
  let ?n = "min ?full (length bt)"
  let ?acq0 = "\<lparr> ia_disk = [], ia_blocks = [], ia_released = [] \<rparr>"
  obtain cur t3 acq3 where
    run: "rt_insert_chunks bt disks bs matched access 0 (chunks bs ?n tokens) root 0 (t2, ?acq0) = (cur, t3, acq3)"
    using prod_cases3 by blast
  have root: "rt_roots t2 a = Some root" using r(2) by simp
  have h: "0 = rn_ctx (rt_node t2 root)" using rt_wf_root [OF r(1) root] by simp
  have len: "0 + length (chunks bs ?n tokens) \<le> length bt" by simp
  note ch = rt_insert_chunks_wf [OF r(1) rt_live_root [OF r(1) root] h len bt run]
  note o3 = rt_owned_insert_chunks [OF r(1) rt_live_root [OF r(1) root] h len bt run]
  show ?thesis
  proof (cases "0 < length tokens mod bs \<and> ?full < length bt \<and> cur \<noteq> root")
    case False
    then have "t' = t3" "acq = acq3" using ins na ri run by (auto simp: rt_insert_def Let_def split: if_splits)
    then show ?thesis using o1 o2 o3 by simp
  next
    case True
    then have ip: "rt_insert_partial (drop (?full * bs) tokens) (bt ! ?full)
        (if disks \<noteq> [] \<and> ?full < length disks then disks ! ?full else U32_MAX) (disks \<noteq> []) cur (t3, acq3)
        = (t', acq)"
      using ins na ri run by (auto simp: rt_insert_def Let_def split: if_splits)
    have c: "cur < rt_size t3" using ch by (simp add: rt_live_def)
    have "rn_block (rt_node t3 cur) \<noteq> U32_MAX"
      using ch True rt_wf_parented [of t3 cur] c by blast
    from conserves_trans [OF o3 rt_owned_insert_partial [OF c this ip]] o1 o2 show ?thesis by simp
  qed
qed

lemma rt_owned_drop_leaf:
  assumes wf: "rt_wf t" and i: "i < rt_size t" and ev: "rt_evictable (rt_node t i)"
    and dl: "rt_drop_leaf i t = (t', phys, disk)"
  shows "rt_owned t' + mset phys = rt_owned t"
proof -
  obtain p k where p: "p < rt_size t" and ne: "p \<noteq> i" and pp: "rn_parent (rt_node t i) = Some p"
    and kk: "map_of (rn_children (rt_node t p)) k = Some i"
    using rt_drop_leaf_nodes [OF wf i ev dl] by metis
  have key: "rn_parent_key (rt_node t i) = Some k" using rt_wf_map_of [OF wf p kk] by simp
  let ?t1 = "rt_update i (\<lambda>n. n\<lparr> rn_partial := None \<rparr>) t"
  let ?t2 = "rt_update p (\<lambda>m. m\<lparr> rn_children := filter (\<lambda>(k', _). k' \<noteq> k) (rn_children m) \<rparr>) ?t1"
  have t': "t' = (rt_update i cleared_node ?t2)\<lparr> rt_free := rt_free t @ [i] \<rparr>"
    and phys: "phys = rn_block (rt_node t i) # partial_block (rt_node t i)"
    using dl pp key by (simp_all add: rt_drop_leaf_def Let_def vec_push_def cleared_node_def [abs_def])
  have b: "rn_block (rt_node t i) \<noteq> U32_MAX" using ev by (simp add: rt_evictable_def)
  have o1: "rt_owned ?t1 + mset (partial_block (rt_node t i)) = rt_owned t"
    using rt_owned_update [OF i, of "\<lambda>n. n\<lparr> rn_partial := None \<rparr>"] b
    by (simp add: node_blocks_def partial_block_def)
  have o2: "rt_owned ?t2 = rt_owned ?t1"
    by (rule rt_owned_update_same) (simp add: node_blocks_def partial_block_def)
  have n2: "rt_node ?t2 i = (rt_node t i)\<lparr> rn_partial := None \<rparr>"
    using i p ne by (simp add: rt_node_update)
  have "rt_owned (rt_update i cleared_node ?t2) + {#rn_block (rt_node t i)#} = rt_owned ?t2"
    using rt_owned_update [of i ?t2 cleared_node] i b n2
    by (simp add: node_blocks_def partial_block_def cleared_node_def)
  then have "rt_owned t = rt_owned (rt_update i cleared_node ?t2) + {#rn_block (rt_node t i)#}
      + mset (partial_block (rt_node t i))"
    using o1 o2 by simp
  then show ?thesis by (simp add: t' phys)
qed

text \<open>While any block is stored there is a leaf, and it is evictable unless it is referenced.\<close>

lemma rt_owned_leaf:
  assumes wf: "rt_wf t" and ne: "rt_owned t \<noteq> {#}" and no: "\<forall>m \<in> set (rt_nodes t). \<not> rt_evictable m"
  shows "\<exists>i < rt_size t. rn_block (rt_node t i) \<noteq> U32_MAX \<and> 1 < rn_ref (rt_node t i)"
proof -
  have "\<exists>i < rt_size t. rn_parent (rt_node t i) \<noteq> None"
  proof (rule ccontr)
    assume "\<not> ?thesis"
    then have "\<forall>i < rt_size t. node_blocks (rt_node t i) = {#}"
      using rt_wf_parentless [OF wf] by (simp add: node_blocks_def partial_block_def)
    then have "\<forall>n \<in> set (rt_nodes t). node_blocks n = {#}" by (metis in_set_conv_nth)
    moreover have "(\<forall>n \<in> set ns. node_blocks n = {#}) \<Longrightarrow> sum_list (map node_blocks ns) = {#}" for ns
      by (induction ns) auto
    ultimately have "rt_owned t = {#}" by (simp add: rt_owned_def)
    then show False using ne by simp
  qed
  then have ex: "{i. i < rt_size t \<and> rn_parent (rt_node t i) \<noteq> None} \<noteq> {}" (is "?L \<noteq> {}") by blast
  obtain rank :: "nat \<Rightarrow> nat" where
    rank: "\<And>c p. c < rt_size t \<Longrightarrow> rn_parent (rt_node t c) = Some p \<Longrightarrow> rank p < rank c"
    using rt_wf_rank [OF wf] by blast
  have fin: "finite ?L" by (rule finite_subset [of _ "{..<rt_size t}"]) auto
  obtain i where i: "i \<in> ?L" and top: "\<forall>j \<in> ?L. rank j \<le> rank i"
    using ex fin Max_in [of "rank ` ?L"] Max_ge [of "rank ` ?L"]
    by (metis (no_types, lifting) empty_is_image finite_imageI imageE image_eqI)
  have isz: "i < rt_size t" and ip: "rn_parent (rt_node t i) \<noteq> None" using i by simp_all
  have leaf: "rn_children (rt_node t i) = []"
  proof (rule ccontr)
    assume "rn_children (rt_node t i) \<noteq> []"
    then obtain k c where "(k, c) \<in> set (rn_children (rt_node t i))" by (metis list.set_intros(1) neq_Nil_conv surj_pair)
    from rt_wf_child [OF wf isz this] have "c \<in> ?L" "rank i < rank c" using rank by auto
    then show False using top by fastforce
  qed
  have b: "rn_block (rt_node t i) \<noteq> U32_MAX" using rt_wf_parented [OF wf isz] ip by blast
  have "\<not> rt_evictable (rt_node t i)" using no isz by simp
  then show ?thesis using isz b leaf ip by (auto simp: rt_evictable_def)
qed

text \<open>Eviction returns exactly the blocks the tree stops storing, and it stops short of the number
  asked for only when no node without a user's reference is a leaf; then, if anything is still
  stored, some node of the tree is referenced by a sequence.\<close>

theorem radix_evict_conserves:
  assumes wf: "rt_wf t" and ev: "rt_evict n t = (t', phys, disk)"
  shows "rt_owned t' + mset phys = rt_owned t
       \<and> (n \<le> length phys \<or> rt_owned t' = {#}
          \<or> (\<exists>i < rt_size t'. rn_block (rt_node t' i) \<noteq> U32_MAX \<and> 1 < rn_ref (rt_node t' i)))"
proof -
  have "rt_wf t' \<and> rt_owned t' + mset phys = rt_owned t
       \<and> (n \<le> length phys \<or> (\<forall>m \<in> set (rt_nodes t'). \<not> rt_evictable m))"
  proof (rule rt_evict_rule [where I = "\<lambda>u ph dk. rt_owned u + mset ph = rt_owned t", OF _ _ wf ev])
    fix u ph dk i u1 p d
    assume t: "rt_owned u + mset ph = rt_owned t" and "rt_wf u" "i < rt_size u" "rt_evictable (rt_node u i)"
      "rt_drop_leaf i u = (u1, p, d)"
    then have "rt_owned u = rt_owned u1 + mset p" using rt_owned_drop_leaf [of u i u1 p d] by simp
    then show "rt_owned u1 + mset (ph @ p) = rt_owned t" unfolding t [symmetric] by (simp add: ac_simps)
  qed simp
  then show ?thesis using rt_owned_leaf [of t'] by blast
qed

end
