(* ===== verification/Radix_Walk.thy ===== *)
theory Radix_Walk
  imports Radix_Owned
begin

text \<open>
  What a lookup finds. In a well-formed tree \<open>walk\<close> follows the path of nodes named by the chunks
  and stops at the first missing or unreferenced node (the hash test never fails there). From this
  the lemmas derive what a walk returns after an insertion, after an eviction and after the
  operations of another adapter.
\<close>

subsection \<open>Paths\<close>

fun rt_path :: "rtree \<Rightarrow> token list list \<Rightarrow> nat \<Rightarrow> nat list" where
  "rt_path t [] cur = []"
| "rt_path t (chunk # cs) cur =
    (case map_of (rn_children (rt_node t cur)) chunk of
       Some child \<Rightarrow> child # rt_path t cs child
     | None \<Rightarrow> [])"

abbreviation rt_held :: "rtree \<Rightarrow> nat \<Rightarrow> bool" where
  "rt_held t i \<equiv> 0 < rn_ref (rt_node t i)"

definition rt_match :: "rtree \<Rightarrow> token list list \<Rightarrow> nat \<Rightarrow> nat list" where
  "rt_match t cs cur = takeWhile (rt_held t) (rt_path t cs cur)"

lemma rt_path_length: "length (rt_path t cs cur) \<le> length cs"
  by (induction t cs cur rule: rt_path.induct) (auto split: option.split)

lemma rt_path_len_path: "rt_path_len t cs cur = length (rt_path t cs cur)"
  by (induction t cs cur rule: rt_path_len.induct) (auto split: option.split)

lemma rt_path_live:
  "rt_wf t \<Longrightarrow> cur < rt_size t \<Longrightarrow> i \<in> set (rt_path t cs cur) \<Longrightarrow> rt_live t i \<and> rn_parent (rt_node t i) \<noteq> None"
proof (induction t cs cur rule: rt_path.induct)
  case (2 t chunk cs cur)
  show ?case
  proof (cases "map_of (rn_children (rt_node t cur)) chunk")
    case (Some child)
    note mo = rt_wf_map_of [OF "2.prems"(1,2) Some]
    show ?thesis
    proof (cases "i = child")
      case True
      then show ?thesis using rt_live_child [OF "2.prems"(1,2) Some] mo by simp
    next
      case False
      then show ?thesis using "2.IH" [OF Some "2.prems"(1) mo(1)] "2.prems"(3) Some by simp
    qed
  qed (use "2.prems" in simp)
qed simp

lemma rt_path_live_all: "rt_wf t \<Longrightarrow> cur < rt_size t \<Longrightarrow> \<forall>i \<in> set (rt_path t cs cur). i < rt_size t"
  using rt_path_live by (fastforce simp: rt_live_def)

text \<open>The rank grows along a path, so its nodes are distinct and differ from where it starts.\<close>

lemma rt_path_rank:
  assumes wf: "rt_wf t" and rank: "\<And>c p. c < rt_size t \<Longrightarrow> rn_parent (rt_node t c) = Some p \<Longrightarrow> rank p < (rank c :: nat)"
  shows "cur < rt_size t \<Longrightarrow> i \<in> set (rt_path t cs cur) \<Longrightarrow> rank cur < rank i"
proof (induction cs arbitrary: cur)
  case (Cons chunk cs)
  then show ?case
  proof (cases "map_of (rn_children (rt_node t cur)) chunk")
    case (Some child)
    note mo = rt_wf_map_of [OF wf Cons.prems(1) Some]
    have "rank cur < rank child" using rank mo by blast
    then show ?thesis using Cons.IH [OF mo(1)] Cons.prems(2) Some by fastforce
  qed simp
qed simp

lemma rt_path_distinct:
  assumes wf: "rt_wf t" and cur: "cur < rt_size t"
  shows "distinct (cur # rt_path t cs cur)"
proof -
  obtain rank :: "nat \<Rightarrow> nat" where
    rank: "\<And>c p. c < rt_size t \<Longrightarrow> rn_parent (rt_node t c) = Some p \<Longrightarrow> rank p < rank c"
    using rt_wf_rank [OF wf] by blast
  have "cur < rt_size t \<Longrightarrow> distinct (cur # rt_path t cs cur)"
  proof (induction cs arbitrary: cur)
    case (Cons chunk cs)
    show ?case
    proof (cases "map_of (rn_children (rt_node t cur)) chunk")
      case (Some child)
      note mo = rt_wf_map_of [OF wf Cons.prems Some]
      have "cur \<notin> set (rt_path t (chunk # cs) cur)"
        using rt_path_rank [of t rank, OF wf rank Cons.prems, of cur "chunk # cs"] by blast
      then show ?thesis using Cons.IH [OF mo(1)] Some by simp
    qed simp
  qed simp
  then show ?thesis using cur .
qed

subsection \<open>The walk\<close>

lemma rt_walk_chunks_spec:
  assumes wf: "rt_wf t"
  shows "cur < rt_size t \<Longrightarrow> h = rn_ctx (rt_node t cur) \<Longrightarrow>
    rt_walk_chunks t bs cs cur h =
      (let p = rt_match t cs cur
       in (map (\<lambda>i. rn_block (rt_node t i)) p, map (\<lambda>i. rn_disk (rt_node t i)) p, bs * length p,
           last (cur # p), rn_ctx (rt_node t (last (cur # p)))))"
proof (induction cs arbitrary: cur h)
  case (Cons chunk cs)
  show ?case
  proof (cases "map_of (rn_children (rt_node t cur)) chunk")
    case None
    then show ?thesis using Cons.prems by (simp add: rt_match_def)
  next
    case (Some child)
    note mo = rt_wf_map_of [OF wf Cons.prems(1) Some]
    show ?thesis
    proof (cases "rt_held t child")
      case True
      have "rt_walk_chunks t bs cs child (context_hash_combine h chunk) =
          (let p = rt_match t cs child
           in (map (\<lambda>i. rn_block (rt_node t i)) p, map (\<lambda>i. rn_disk (rt_node t i)) p, bs * length p,
               last (child # p), rn_ctx (rt_node t (last (child # p)))))"
        by (rule Cons.IH [OF mo(1)]) (simp add: mo Cons.prems(2))
      then show ?thesis using Some True mo(4) Cons.prems(2)
        by (auto simp: rt_match_def Let_def)
    next
      case False
      then show ?thesis using Some Cons.prems by (simp add: rt_match_def Let_def)
    qed
  qed
qed (simp add: rt_match_def)

text \<open>A lookup with sub-block sharing off, the default.\<close>

lemma rt_walk_spec:
  assumes wf: "rt_wf t" and "\<not> rt_partial_sharing t" and "0 < bs" and root: "rt_roots t a = Some root"
  shows "rt_walk t tokens bs a =
    (let p = rt_match t (chunks bs (length tokens div bs) tokens) root
     in Some (map (\<lambda>i. rn_block (rt_node t i)) p, map (\<lambda>i. rn_disk (rt_node t i)) p, bs * length p))"
proof -
  have "root < rt_size t" "0 = rn_ctx (rt_node t root)" using rt_wf_root [OF wf root] by simp_all
  from rt_walk_chunks_spec [OF wf this] show ?thesis
    using assms by (simp add: rt_walk_def rt_root_for_read_def Let_def)
qed

lemma rt_walk_no_root: "rt_roots t a = None \<Longrightarrow> rt_walk t tokens bs a = Some ([], [], 0)"
  by (simp add: rt_walk_def rt_root_for_read_def)

text \<open>The tokens a walk reports never exceed the tokens asked for, and without sharing they are
  whole blocks.\<close>

lemma rt_walk_bound:
  assumes wf: "rt_wf t" and "\<not> rt_partial_sharing t" and w: "rt_walk t tokens bs a = Some (bl, dk, m)"
  shows "m = bs * length bl \<and> length dk = length bl \<and> m \<le> length tokens"
proof (cases "rt_roots t a")
  case None
  then show ?thesis using w by (simp add: rt_walk_no_root)
next
  case (Some root)
  then have bs: "0 < bs" using w by (auto simp: rt_walk_def rt_root_for_read_def split: if_splits)
  let ?cs = "chunks bs (length tokens div bs) tokens"
  have "length (rt_match t ?cs root) \<le> length (rt_path t ?cs root)"
    unfolding rt_match_def by (rule length_takeWhile_le)
  also have "\<dots> \<le> length tokens div bs" using rt_path_length [of t ?cs root] by simp
  finally have "bs * length (rt_match t ?cs root) \<le> bs * (length tokens div bs)" by simp
  also have "\<dots> \<le> length tokens" by simp
  finally show ?thesis using rt_walk_spec [OF wf assms(2) bs Some, of tokens] w by (auto simp: Let_def)
qed

subsection \<open>Growing\<close>

text \<open>An operation that only adds: links, blocks and references of live nodes stay.\<close>

definition rt_grows :: "rtree \<Rightarrow> rtree \<Rightarrow> bool" where
  "rt_grows t t' \<longleftrightarrow> rt_partial_sharing t' = rt_partial_sharing t \<and>
     (\<forall>i. rt_live t i \<longrightarrow> rt_live t' i
        \<and> (\<forall>k c. map_of (rn_children (rt_node t i)) k = Some c \<longrightarrow> map_of (rn_children (rt_node t' i)) k = Some c)
        \<and> rn_block (rt_node t' i) = rn_block (rt_node t i)
        \<and> rn_ref (rt_node t i) \<le> rn_ref (rt_node t' i))"

lemma rt_grows_refl [simp]: "rt_grows t t"
  by (simp add: rt_grows_def)

lemma rt_growsD:
  assumes "rt_grows t t'" and "rt_live t i"
  shows "rt_live t' i" and "map_of (rn_children (rt_node t i)) k = Some c \<Longrightarrow>
      map_of (rn_children (rt_node t' i)) k = Some c"
    and "rn_block (rt_node t' i) = rn_block (rt_node t i)"
    and "rn_ref (rt_node t i) \<le> rn_ref (rt_node t' i)"
  using assms unfolding rt_grows_def by blast+

lemma rt_grows_trans:
  assumes "rt_grows t u" and "rt_grows u v"
  shows "rt_grows t v"
proof -
  have "rt_partial_sharing v = rt_partial_sharing t" using assms by (simp add: rt_grows_def)
  moreover have "rt_live v i
        \<and> (\<forall>k c. map_of (rn_children (rt_node t i)) k = Some c \<longrightarrow> map_of (rn_children (rt_node v i)) k = Some c)
        \<and> rn_block (rt_node v i) = rn_block (rt_node t i)
        \<and> rn_ref (rt_node t i) \<le> rn_ref (rt_node v i)" if "rt_live t i" for i
    using rt_growsD [OF assms(1) that] rt_growsD [OF assms(2) rt_growsD(1) [OF assms(1) that]]
      order_trans by metis
  ultimately show ?thesis by (simp add: rt_grows_def)
qed

lemma rt_grows_update:
  assumes "i < rt_size t" and "rn_children (f (rt_node t i)) = rn_children (rt_node t i)"
    and "rn_block (f (rt_node t i)) = rn_block (rt_node t i)"
    and "rn_ref (rt_node t i) \<le> rn_ref (f (rt_node t i))"
  shows "rt_grows t (rt_update i f t)"
  using assms by (auto simp: rt_grows_def rt_live_def rt_node_update)

lemma rt_grows_touch_child:
  assumes "rt_touch_child access own hss disk ctx child (t, acq) = (t', acq')" and "child < rt_size t"
  shows "rt_grows t t' \<and> 0 < rn_ref (rt_node t' child)
       \<and> (own \<longrightarrow> 1 < rn_ref (rt_node t' child))"
proof -
  define f where "f = (\<lambda>n. n\<lparr> rn_access := access, rn_ctx := ctx,
            rn_ref := (if rn_ref n = 0 then 1 else rn_ref n) + (if own then 1 else 0),
            rn_disk := (if hss \<and> rn_disk (rt_node t child) = U32_MAX \<and> disk \<noteq> U32_MAX
                        then disk else rn_disk n) \<rparr> :: rnode)"
  have "t' = rt_update child f t"
    using assms(1) by (auto simp: rt_touch_child_def Let_def f_def split: if_splits)
  moreover have "rt_grows t (rt_update child f t)"
    by (rule rt_grows_update) (use assms(2) in \<open>auto simp: f_def\<close>)
  ultimately show ?thesis using assms(2) by (auto simp: rt_node_update f_def)
qed

lemma rt_grows_new_child:
  assumes wf: "rt_wf t" and cur: "rt_live t cur"
    and nc: "rt_new_child access own hss block disk ctx chunk cur (t, acq) = (c, t', acq')"
    and none: "map_of (rn_children (rt_node t cur)) chunk = None"
  shows "rt_grows t t' \<and> map_of (rn_children (rt_node t' cur)) chunk = Some c
       \<and> rn_children (rt_node t' c) = [] \<and> rn_block (rt_node t' c) = block
       \<and> rn_ref (rt_node t' c) = (if own then 2 else 1)"
proof -
  have c: "cur < rt_size t" "cur \<notin> set (rt_free t)" using cur by (simp_all add: rt_live_def)
  note sp = rt_new_child_nodes [OF wf c nc]
  have dead: "\<not> rt_live t c" using sp(7) by (auto simp: rt_live_def)
  have cur': "cur < rt_size t'" using sp(4) c by blast
  have "rt_live t' i
        \<and> (\<forall>k d. map_of (rn_children (rt_node t i)) k = Some d \<longrightarrow> map_of (rn_children (rt_node t' i)) k = Some d)
        \<and> rn_block (rt_node t' i) = rn_block (rt_node t i)
        \<and> rn_ref (rt_node t i) \<le> rn_ref (rt_node t' i)" if i: "rt_live t i" for i
  proof -
    have ic: "i \<noteq> c" using i dead by auto
    have i': "i < rt_size t'" using i sp(4) by (auto simp: rt_live_def)
    have "rt_live t' i" using i i' sp(6) by (auto simp: rt_live_def)
    then show ?thesis using sp(8) [OF i'] ic none by (cases "i = cur") auto
  qed
  then have "rt_grows t t'" using sp(9) by (simp add: rt_grows_def)
  moreover have "rn_children (rt_node t' cur) = (chunk, c) # rn_children (rt_node t cur)"
    using sp(8) [OF cur'] sp(3) by simp
  ultimately show ?thesis using sp(8) [OF sp(2)] by simp
qed

lemma rt_grows_links: "rt_links_eq t t' \<Longrightarrow> rt_partial_sharing t' = rt_partial_sharing t \<Longrightarrow>
    (\<And>i. i < rt_size t \<Longrightarrow> rn_ref (rt_node t i) \<le> rn_ref (rt_node t' i)) \<Longrightarrow> rt_grows t t'"
  by (auto simp: rt_grows_def rt_links_eq_def rt_live_def)

lemma rt_path_links:
  "rt_links_eq t t' \<Longrightarrow> rt_wf t \<Longrightarrow> cur < rt_size t \<Longrightarrow> rt_path t' cs cur = rt_path t cs cur"
proof (induction cs arbitrary: cur)
  case (Cons chunk cs)
  show ?case
  proof (cases "map_of (rn_children (rt_node t cur)) chunk")
    case (Some child)
    then show ?thesis
      using Cons rt_links_eqD(4) [OF Cons.prems(1,3)] rt_wf_map_of [OF Cons.prems(2,3) Some] by simp
  qed (use rt_links_eqD(4) [OF Cons.prems(1,3)] in simp)
qed simp

text \<open>The insertion loop creates the whole path: nodes that were there keep their block, the others
  get theirs from the block table, and every node on it is referenced.\<close>

lemma rt_insert_chunks_path:
  assumes "rt_wf t" and "rt_live t cur" and "h = rn_ctx (rt_node t cur)"
    and "i + length cs \<le> length bt" and "U32_MAX \<notin> set bt"
    and "rt_insert_chunks bt disks bs matched access i cs cur h (t, acq) = (cur', t', acq')"
  shows "rt_grows t t' \<and> length (rt_path t' cs cur) = length cs
     \<and> (\<forall>j < length cs. rt_held t' (rt_path t' cs cur ! j)
          \<and> (matched \<le> (i + j) * bs \<longrightarrow> 1 < rn_ref (rt_node t' (rt_path t' cs cur ! j)))
          \<and> rn_block (rt_node t' (rt_path t' cs cur ! j)) =
              (if j < length (rt_path t cs cur) then rn_block (rt_node t (rt_path t cs cur ! j)) else bt ! (i + j)))"
  using assms
proof (induction cs arbitrary: i cur h t acq)
  case Nil
  then show ?case by simp
next
  case (Cons chunk cs)
  let ?ctx = "context_hash_combine h chunk"
  let ?own = "matched \<le> i * bs" and ?hss = "disks \<noteq> []"
  let ?d = "if disks \<noteq> [] then disks ! i else U32_MAX"
  have cur: "cur < rt_size t" using Cons.prems(2) by (simp add: rt_live_def)
  have len: "Suc i + length cs \<le> length bt" using Cons.prems(4) by simp
  show ?case
  proof (cases "map_of (rn_children (rt_node t cur)) chunk")
    case (Some child)
    obtain t1 acq1 where tc: "rt_touch_child access ?own ?hss ?d ?ctx child (t, acq) = (t1, acq1)" by force
    note mo = rt_wf_map_of [OF Cons.prems(1) cur Some]
    have le: "rt_links_eq t t1" by (rule rt_touch_child_links [OF tc]) (simp add: mo Cons.prems(3))
    note g1 = rt_grows_touch_child [OF tc mo(1)]
    have l1: "rt_live t1 child"
      using rt_live_child [OF Cons.prems(1) cur Some] rt_links_eq_live [OF le] by simp
    have h1: "?ctx = rn_ctx (rt_node t1 child)" using rt_links_eqD(6) [OF le mo(1)] mo(4) Cons.prems(3) by simp
    have run: "rt_insert_chunks bt disks bs matched access (Suc i) cs child ?ctx (t1, acq1) = (cur', t', acq')"
      using Cons.prems(6) Some tc by (simp add: Let_def)
    note IH = Cons.IH [OF rt_links_eq_wf [OF Cons.prems(1) le] l1 h1 len Cons.prems(5) run]
    have g: "rt_grows t t'" using g1 IH rt_grows_trans by blast
    have k: "map_of (rn_children (rt_node t' cur)) chunk = Some child"
      using g Some Cons.prems(2) unfolding rt_grows_def by blast
    have p1: "rt_path t1 cs child = rt_path t cs child" by (rule rt_path_links [OF le Cons.prems(1) mo(1)])
    have b1: "rn_block (rt_node t1 (rt_path t cs child ! j)) = rn_block (rt_node t (rt_path t cs child ! j))"
      if "j < length (rt_path t cs child)" for j
      using nth_mem [OF that] rt_path_live_all [OF Cons.prems(1) mo(1), of cs] rt_links_eqD(7) [OF le] by blast
    have c': "rn_block (rt_node t' child) = rn_block (rt_node t child)
        \<and> rn_ref (rt_node t1 child) \<le> rn_ref (rt_node t' child)"
      using g IH l1 rt_live_child [OF Cons.prems(1) cur Some] unfolding rt_grows_def by blast
    have "rt_held t' (rt_path t' (chunk # cs) cur ! j)
          \<and> (matched \<le> (i + j) * bs \<longrightarrow> 1 < rn_ref (rt_node t' (rt_path t' (chunk # cs) cur ! j)))
          \<and> rn_block (rt_node t' (rt_path t' (chunk # cs) cur ! j)) =
              (if j < length (rt_path t (chunk # cs) cur)
               then rn_block (rt_node t (rt_path t (chunk # cs) cur ! j)) else bt ! (i + j))"
      if "j < length (chunk # cs)" for j
    proof (cases j)
      case 0
      then show ?thesis using k Some c' g1 by auto
    next
      case (Suc j')
      then show ?thesis using that IH k Some b1 p1 by simp
    qed
    then show ?thesis using g IH k by simp
  next
    case None
    obtain child t1 acq1 where
      nc: "rt_new_child access ?own ?hss (bt ! i) ?d ?ctx chunk cur (t, acq) = (child, t1, acq1)"
      using prod_cases3 by blast
    have "i < length bt" using Cons.prems(4) by simp
    then have b: "bt ! i \<noteq> U32_MAX" using Cons.prems(5) nth_mem by metis
    note nl = rt_new_child_live [OF Cons.prems(1,2) nc [unfolded Cons.prems(3)] None b]
    note g1 = rt_grows_new_child [OF Cons.prems(1,2) nc None]
    have run: "rt_insert_chunks bt disks bs matched access (Suc i) cs child ?ctx (t1, acq1) = (cur', t', acq')"
      using Cons.prems(6) None nc by (simp add: Let_def)
    have h1: "?ctx = rn_ctx (rt_node t1 child)" using nl Cons.prems(3) by simp
    have l1: "rt_live t1 child" and wf1: "rt_wf t1" using nl by simp_all
    note IH = Cons.IH [OF wf1 l1 h1 len Cons.prems(5) run]
    have g: "rt_grows t t'" using g1 IH rt_grows_trans by blast
    have "rt_live t1 cur" using nl Cons.prems(2) by blast
    then have k: "map_of (rn_children (rt_node t' cur)) chunk = Some child"
      using g1 IH unfolding rt_grows_def by blast
    have p1: "rt_path t1 cs child = []" using g1 by (cases cs) simp_all
    have c': "rn_block (rt_node t' child) = bt ! i \<and> rn_ref (rt_node t1 child) \<le> rn_ref (rt_node t' child)"
      using g1 IH l1 unfolding rt_grows_def by auto
    have "rt_held t' (rt_path t' (chunk # cs) cur ! j)
          \<and> (matched \<le> (i + j) * bs \<longrightarrow> 1 < rn_ref (rt_node t' (rt_path t' (chunk # cs) cur ! j)))
          \<and> rn_block (rt_node t' (rt_path t' (chunk # cs) cur ! j)) =
              (if j < length (rt_path t (chunk # cs) cur)
               then rn_block (rt_node t (rt_path t (chunk # cs) cur ! j)) else bt ! (i + j))"
      if "j < length (chunk # cs)" for j
    proof (cases j)
      case 0
      then show ?thesis using k None c' g1 by (auto split: if_splits)
    next
      case (Suc j')
      then show ?thesis using that IH k None p1 by simp
    qed
    then show ?thesis using g IH k by simp
  qed
qed

subsection \<open>Insert, then walk\<close>

text \<open>The blocks stored along a prompt, whether or not they are referenced.\<close>

definition rt_stored :: "rtree \<Rightarrow> token list \<Rightarrow> nat \<Rightarrow> u64w \<Rightarrow> nat list" where
  "rt_stored t tokens bs a =
    (case rt_roots t a of
       None \<Rightarrow> []
     | Some r \<Rightarrow> map (\<lambda>i. rn_block (rt_node t i)) (rt_path t (chunks bs (length tokens div bs) tokens) r))"

text \<open>What the insertion starts from, in one lemma: the tree with the adapter's root.\<close>

lemma rt_insert_start:
  assumes wf: "rt_wf t" and na: "rt_next_access t = (access, t1)"
    and ri: "rt_root_for_insert a t1 = (root, t2)"
  shows "rt_wf t2" and "rt_roots t2 a = Some root" and "rt_live t2 root"
    and "rn_ctx (rt_node t2 root) = 0" and "rt_partial_sharing t2 = rt_partial_sharing t"
    and "map (\<lambda>i. rn_block (rt_node t2 i)) (rt_path t2 (chunks bs (length tokens div bs) tokens) root)
         = rt_stored t tokens bs a"
proof -
  have le: "rt_links_eq t t1" using rt_next_access_links [of t] na by simp
  have wf1: "rt_wf t1" by (rule rt_links_eq_wf [OF wf le])
  note r = rt_root_for_insert_wf [OF wf1 ri]
  show wf2: "rt_wf t2" and root: "rt_roots t2 a = Some root" using r(1,2) by simp_all
  show "rt_live t2 root" by (rule rt_live_root [OF wf2 root])
  show "rn_ctx (rt_node t2 root) = 0" using rt_wf_root [OF wf2 root] by simp
  have "rt_partial_sharing t1 = rt_partial_sharing t" using na by (auto simp: rt_next_access_def)
  moreover have "rt_partial_sharing t2 = rt_partial_sharing t1"
    using ri by (auto simp: rt_root_for_insert_def rt_alloc_node_def split: option.splits prod.splits)
  ultimately show "rt_partial_sharing t2 = rt_partial_sharing t" by simp
  show "map (\<lambda>i. rn_block (rt_node t2 i)) (rt_path t2 (chunks bs (length tokens div bs) tokens) root)
         = rt_stored t tokens bs a"
  proof (cases "rt_roots t1 a")
    case None
    then have "rt_node t2 root = root_node" by (rule r(4))
    then have "rt_path t2 cs root = []" for cs by (cases cs) (simp_all add: root_node_def)
    then show ?thesis using None rt_links_eqD(2) [OF le] by (simp add: rt_stored_def)
  next
    case (Some q)
    then have t2: "t2 = t1" "root = q" using ri by (simp_all add: rt_root_for_insert_def)
    have q: "q < rt_size t" using rt_wf_root [OF wf, of a q] Some rt_links_eqD(2) [OF le] by simp
    let ?cs = "chunks bs (length tokens div bs) tokens"
    have "rt_path t1 ?cs q = rt_path t ?cs q" by (rule rt_path_links [OF le wf q])
    moreover have "rn_block (rt_node t1 i) = rn_block (rt_node t i)" if "i \<in> set (rt_path t ?cs q)" for i
      using rt_path_live_all [OF wf q] that rt_links_eqD(7) [OF le] by blast
    ultimately show ?thesis using Some t2 rt_links_eqD(2) [OF le] by (simp add: rt_stored_def)
  qed
qed

lemma rt_insert_path:
  assumes wf: "rt_wf t" and bt: "U32_MAX \<notin> set bt" "length tokens div bs \<le> length bt"
    and ins: "rt_insert tokens bt disks bs matched a t = Some (t', acq)"
  obtains root where "rt_roots t' a = Some root" and "0 < bs"
    and "length (rt_path t' (chunks bs (length tokens div bs) tokens) root) = length tokens div bs"
    and "\<And>j. j < length tokens div bs \<Longrightarrow>
          (let i = rt_path t' (chunks bs (length tokens div bs) tokens) root ! j
           in rt_held t' i \<and> (matched \<le> j * bs \<longrightarrow> 1 < rn_ref (rt_node t' i))
            \<and> rn_block (rt_node t' i) =
                (if j < length (rt_stored t tokens bs a) then rt_stored t tokens bs a ! j else bt ! j))"
    and "rt_partial_sharing t' = rt_partial_sharing t"
proof -
  obtain access t1 where na: "rt_next_access t = (access, t1)" by force
  obtain root t2 where ri: "rt_root_for_insert a t1 = (root, t2)" by force
  note st = rt_insert_start [OF wf na ri]
  let ?full = "length tokens div bs"
  let ?cs = "chunks bs ?full tokens"
  let ?acq0 = "\<lparr> ia_disk = [], ia_blocks = [], ia_released = [] \<rparr>"
  have n: "min ?full (length bt) = ?full" using bt(2) by simp
  obtain cur t3 acq3 where
    run: "rt_insert_chunks bt disks bs matched access 0 ?cs root 0 (t2, ?acq0) = (cur, t3, acq3)"
    using prod_cases3 by blast
  have bs: "0 < bs" using ins by (cases bs) (auto simp: rt_insert_def Let_def split: prod.splits)
  have len: "0 + length ?cs \<le> length bt" using bt(2) by simp
  note ch = rt_insert_chunks_wf [OF st(1,3) st(4) [symmetric] len bt(1) run]
  note pt = rt_insert_chunks_path [OF st(1,3) st(4) [symmetric] len bt(1) run]
  have r3: "rt_roots t3 a = Some root" using ch st(2) by simp
  have root3: "root < rt_size t3" using rt_wf_root [of t3, OF _ r3] ch by blast
  have le: "rt_links_eq t3 t' \<and> rt_partial_sharing t' = rt_partial_sharing t3
      \<and> (\<forall>i < rt_size t3. rn_ref (rt_node t' i) = rn_ref (rt_node t3 i))"
  proof (cases "0 < length tokens mod bs \<and> ?full < length bt \<and> cur \<noteq> root")
    case False
    then have "t' = t3" using ins na ri run n by (auto simp: rt_insert_def Let_def split: if_splits)
    then show ?thesis by simp
  next
    case True
    then have ip: "rt_insert_partial (drop (?full * bs) tokens) (bt ! ?full)
        (if disks \<noteq> [] \<and> ?full < length disks then disks ! ?full else U32_MAX) (disks \<noteq> []) cur (t3, acq3)
        = (t', acq)"
      using ins na ri run n by (auto simp: rt_insert_def Let_def split: if_splits)
    have c: "cur < rt_size t3" "rn_parent (rt_node t3 cur) \<noteq> None" using ch True by (auto simp: rt_live_def)
    have "t' = rt_update cur (\<lambda>n. n\<lparr> rn_partial := Some (drop (?full * bs) tokens, bt ! ?full,
        if disks \<noteq> [] \<and> ?full < length disks then disks ! ?full else U32_MAX) \<rparr>) t3"
      using ip by (simp add: rt_insert_partial_def Let_def)
    then show ?thesis using rt_insert_partial_links [OF _ c ip] ch c(1)
      by (simp add: rt_node_update)
  qed
  have same: "rt_path t' ?cs root = rt_path t3 ?cs root"
    by (rule rt_path_links [OF conjunct1 [OF le] conjunct1 [OF ch] root3])
  have in3: "\<forall>i \<in> set (rt_path t3 ?cs root). i < rt_size t3"
    by (rule rt_path_live_all [OF conjunct1 [OF ch] root3])
  show thesis
  proof (rule that)
    show "rt_roots t' a = Some root" using r3 rt_links_eqD(2) [OF conjunct1 [OF le]] by simp
    show "0 < bs" by (rule bs)
    show "length (rt_path t' ?cs root) = ?full" using same pt by simp
    show "rt_partial_sharing t' = rt_partial_sharing t"
      using le pt st(5) by (simp add: rt_grows_def)
    fix j assume j: "j < ?full"
    let ?i = "rt_path t3 ?cs root ! j"
    have i: "?i < rt_size t3" using in3 j pt by simp
    have len': "length (rt_path t2 ?cs root) = length (rt_stored t tokens bs a)"
      using arg_cong [OF st(6) [of bs tokens], of length] by simp
    have old: "rn_block (rt_node t2 (rt_path t2 ?cs root ! j)) = rt_stored t tokens bs a ! j"
      if "j < length (rt_stored t tokens bs a)"
      using nth_map [of j "rt_path t2 ?cs root" "\<lambda>i. rn_block (rt_node t2 i)"] st(6) [of bs tokens] len' that
      by metis
    have "rt_held t3 ?i \<and> (matched \<le> j * bs \<longrightarrow> 1 < rn_ref (rt_node t3 ?i))
            \<and> rn_block (rt_node t3 ?i) =
                (if j < length (rt_stored t tokens bs a) then rt_stored t tokens bs a ! j else bt ! j)"
      using pt j len' old by simp
    then show "let i = rt_path t' ?cs root ! j
           in rt_held t' i \<and> (matched \<le> j * bs \<longrightarrow> 1 < rn_ref (rt_node t' i))
            \<and> rn_block (rt_node t' i) =
                (if j < length (rt_stored t tokens bs a) then rt_stored t tokens bs a ! j else bt ! j)"
      using same le i rt_links_eqD(7) [OF conjunct1 [OF le] i] by (simp add: Let_def)
  qed
qed

text \<open>C11: after a prompt is inserted with a block for each of its full chunks, a lookup of it matches
  every full chunk; a chunk that was stored before keeps its block, every other chunk has the block
  the caller gave it.\<close>

theorem radix_insert_walk:
  assumes wf: "rt_wf t" and off: "\<not> rt_partial_sharing t"
    and bt: "U32_MAX \<notin> set bt" "length tokens div bs \<le> length bt"
    and ins: "rt_insert tokens bt disks bs matched a t = Some (t', acq)"
  shows "\<exists>bl dk. rt_walk t' tokens bs a = Some (bl, dk, bs * (length tokens div bs))
       \<and> length bl = length tokens div bs
       \<and> (\<forall>j < length bl. bl ! j =
            (if j < length (rt_stored t tokens bs a) then rt_stored t tokens bs a ! j else bt ! j))"
proof -
  obtain root where root: "rt_roots t' a = Some root" and bs: "0 < bs"
    and len: "length (rt_path t' (chunks bs (length tokens div bs) tokens) root) = length tokens div bs"
    and nd: "\<And>j. j < length tokens div bs \<Longrightarrow>
          (let i = rt_path t' (chunks bs (length tokens div bs) tokens) root ! j
           in rt_held t' i \<and> (matched \<le> j * bs \<longrightarrow> 1 < rn_ref (rt_node t' i))
            \<and> rn_block (rt_node t' i) =
                (if j < length (rt_stored t tokens bs a) then rt_stored t tokens bs a ! j else bt ! j))"
    and sh: "rt_partial_sharing t' = rt_partial_sharing t"
    using rt_insert_path [OF wf bt ins] by blast
  let ?p = "rt_path t' (chunks bs (length tokens div bs) tokens) root"
  have "\<forall>i \<in> set ?p. rt_held t' i" using nd len by (auto simp: in_set_conv_nth Let_def)
  then have m: "rt_match t' (chunks bs (length tokens div bs) tokens) root = ?p"
    by (simp add: rt_match_def takeWhile_eq_all_conv)
  have "rt_walk t' tokens bs a = Some (map (\<lambda>i. rn_block (rt_node t' i)) ?p,
      map (\<lambda>i. rn_disk (rt_node t' i)) ?p, bs * length ?p)"
    using rt_walk_spec [OF rt_insert_wf [OF wf bt(1) ins] _ bs root, of tokens] off sh m
    by (simp add: Let_def)
  then show ?thesis using len nd by (auto simp: Let_def)
qed

end
