(* ===== verification/Radix_Props.thy ===== *)
theory Radix_Props
  imports Radix_Walk
begin

text \<open>
  References, eviction and adapters: taking and dropping a reference on a matched prefix cancel
  out, a referenced prefix survives every eviction, and no operation of one adapter changes what
  another adapter's lookup finds.
\<close>

subsection \<open>Reference counts along a path\<close>

lemma rt_inc_chunks_ref:
  "rt_wf t \<Longrightarrow> cur < rt_size t \<Longrightarrow> i < rt_size t \<Longrightarrow>
   rn_ref (rt_node (rt_inc_chunks access cs cur t) i) =
     rn_ref (rt_node t i) + (if i \<in> set (rt_path t cs cur) then 1 else 0)
   \<and> rn_disk (rt_node (rt_inc_chunks access cs cur t) i) = rn_disk (rt_node t i)
   \<and> rt_partial_sharing (rt_inc_chunks access cs cur t) = rt_partial_sharing t"
proof (induction cs arbitrary: cur t)
  case (Cons chunk cs)
  show ?case
  proof (cases "map_of (rn_children (rt_node t cur)) chunk")
    case (Some child)
    let ?t = "rt_update child (\<lambda>n. n\<lparr> rn_ref := rn_ref n + 1, rn_access := access \<rparr>) t"
    note mo = rt_wf_map_of [OF Cons.prems(1,2) Some]
    have le: "rt_links_eq t ?t" by (rule rt_links_eq_update) simp
    have wf1: "rt_wf ?t" by (rule rt_links_eq_wf [OF Cons.prems(1) le])
    have p: "rt_path ?t cs child = rt_path t cs child" by (rule rt_path_links [OF le Cons.prems(1) mo(1)])
    have nin: "child \<notin> set (rt_path t cs child)" using rt_path_distinct [OF Cons.prems(1) mo(1), of cs] by simp
    have "rn_ref (rt_node (rt_inc_chunks access cs child ?t) i) =
       rn_ref (rt_node ?t i) + (if i \<in> set (rt_path ?t cs child) then 1 else 0)
     \<and> rn_disk (rt_node (rt_inc_chunks access cs child ?t) i) = rn_disk (rt_node ?t i)
     \<and> rt_partial_sharing (rt_inc_chunks access cs child ?t) = rt_partial_sharing ?t"
      by (rule Cons.IH [OF wf1]) (use mo(1) Cons.prems(3) in simp_all)
    then show ?thesis using Some p nin mo(1) by (auto simp: rt_node_update)
  qed simp
qed simp

lemma rt_dec_chunks_ref:
  "rt_wf t \<Longrightarrow> cur < rt_size t \<Longrightarrow> i < rt_size t \<Longrightarrow>
   rn_ref (rt_node (rt_dec_chunks cs cur t) i) =
     rn_ref (rt_node t i) - (if i \<in> set (rt_path t cs cur) then 1 else 0)"
proof (induction cs arbitrary: cur t)
  case (Cons chunk cs)
  show ?case
  proof (cases "map_of (rn_children (rt_node t cur)) chunk")
    case (Some child)
    let ?t = "if 0 < rn_ref (rt_node t child)
            then rt_update child (\<lambda>n. n\<lparr> rn_ref := rn_ref n - 1 \<rparr>) t else t"
    note mo = rt_wf_map_of [OF Cons.prems(1,2) Some]
    have le: "rt_links_eq t ?t" by (auto intro: rt_links_eq_update)
    have wf1: "rt_wf ?t" by (rule rt_links_eq_wf [OF Cons.prems(1) le])
    have p: "rt_path ?t cs child = rt_path t cs child" by (rule rt_path_links [OF le Cons.prems(1) mo(1)])
    have nin: "child \<notin> set (rt_path t cs child)" using rt_path_distinct [OF Cons.prems(1) mo(1), of cs] by simp
    have "rn_ref (rt_node (rt_dec_chunks cs child ?t) i) =
       rn_ref (rt_node ?t i) - (if i \<in> set (rt_path ?t cs child) then 1 else 0)"
      by (rule Cons.IH [OF wf1]) (use mo(1) Cons.prems(3) in simp_all)
    then show ?thesis using Some p nin mo(1) by (auto simp: rt_node_update)
  qed simp
qed simp

lemma chunks_take: "k \<le> n \<Longrightarrow> chunks bs k tokens = take k (chunks bs n tokens)"
proof (induction n arbitrary: k tokens)
  case (Suc n)
  show ?case
  proof (cases k)
    case (Suc j)
    then show ?thesis using Suc.IH [of j "drop bs tokens"] Suc.prems by simp
  qed simp
qed simp

lemma rt_path_take: "rt_path t (take k cs) cur = take k (rt_path t cs cur)"
proof (induction t cs cur arbitrary: k rule: rt_path.induct)
  case (2 t chunk cs cur)
  then show ?case by (cases k) (auto split: option.split)
qed simp

lemma take_length_takeWhile: "take (length (takeWhile P xs)) xs = takeWhile P xs"
  by (metis takeWhile_eq_take)

text \<open>What \<open>inc_refs\<close> and \<open>dec_refs\<close> do to the counts, for a number of tokens within the prompt.\<close>

lemma rt_inc_refs_spec:
  assumes wf: "rt_wf t" and root: "rt_roots t a = Some r" and bs: "0 < bs" and m: "m \<le> length tokens"
    and inc: "rt_inc_refs tokens bs m a t = Some t'"
  shows "rt_links_eq t t' \<and> rt_partial_sharing t' = rt_partial_sharing t
    \<and> (\<forall>i < rt_size t. rn_disk (rt_node t' i) = rn_disk (rt_node t i)
         \<and> rn_ref (rt_node t' i) = rn_ref (rt_node t i)
            + (if i \<in> set (take (m div bs) (rt_path t (chunks bs (length tokens div bs) tokens) r)) then 1 else 0))"
proof -
  obtain access t1 where na: "rt_next_access t = (access, t1)" by force
  have le: "rt_links_eq t t1" using rt_next_access_links [of t] na by simp
  have nodes: "rt_nodes t1 = rt_nodes t" and sh: "rt_partial_sharing t1 = rt_partial_sharing t"
    and rts: "rt_roots t1 = rt_roots t"
    using na by (auto simp: rt_next_access_def)
  have wf1: "rt_wf t1" by (rule rt_links_eq_wf [OF wf le])
  have r: "r < rt_size t" "r < rt_size t1" using rt_wf_root [OF wf root] nodes by simp_all
  have mb: "m div bs \<le> length tokens div bs" using m by (rule div_le_mono)
  let ?cs = "chunks bs (m div bs) tokens"
  have cs: "?cs = take (m div bs) (chunks bs (length tokens div bs) tokens)" by (rule chunks_take [OF mb])
  have t': "t' = rt_inc_chunks access ?cs r t1"
    using inc na root rts bs mb
    by (auto simp: rt_inc_refs_def rt_root_for_read_def Let_def min_def split: if_splits)
  have p1: "rt_path t1 ?cs r = take (m div bs) (rt_path t (chunks bs (length tokens div bs) tokens) r)"
    using rt_path_links [OF le wf r(1)] by (simp add: cs rt_path_take)
  have "rt_links_eq t t'" using rt_links_eq_trans [OF le rt_inc_chunks_links] t' by simp
  moreover have "rt_partial_sharing t' = rt_partial_sharing t"
    using rt_inc_chunks_ref [OF wf1 r(2) r(2)] t' sh by simp
  ultimately show ?thesis
    using rt_inc_chunks_ref [OF wf1 r(2)] t' nodes p1 by simp
qed

text \<open>A lookup's references and their release cancel: \<open>inc_refs\<close> on a number of prompt tokens
  followed by \<open>dec_refs\<close> on the same number leaves every reference count of the tree, and every
  link of it, as they were.\<close>

theorem radix_refs_balance:
  assumes wf: "rt_wf t" and m: "m \<le> length tokens"
    and inc: "rt_inc_refs tokens bs m a t = Some t1" and dec: "rt_dec_refs tokens bs m a t1 = Some t2"
  shows "rt_links_eq t t2 \<and> (\<forall>i < rt_size t. rn_ref (rt_node t2 i) = rn_ref (rt_node t i))"
proof (cases "rt_roots t a")
  case None
  then have "t1 = snd (rt_next_access t)"
    using inc by (auto simp: rt_inc_refs_def rt_root_for_read_def Let_def rt_next_access_def split: prod.splits)
  moreover from this have "t2 = t1" using dec None
    by (auto simp: rt_dec_refs_def rt_root_for_read_def rt_next_access_def)
  ultimately show ?thesis using rt_next_access_links [of t] by (simp add: rt_next_access_def)
next
  case (Some r)
  have bs: "0 < bs"
    using inc Some by (auto simp: rt_inc_refs_def rt_root_for_read_def rt_next_access_def Let_def split: if_splits)
  note sp = rt_inc_refs_spec [OF wf Some bs m inc]
  have le: "rt_links_eq t t1" using sp by blast
  have wf1: "rt_wf t1" by (rule rt_links_eq_wf [OF wf le])
  have r: "r < rt_size t" using rt_wf_root [OF wf Some] by simp
  have sz: "rt_size t1 = rt_size t" using rt_links_eqD(1) [OF le] .
  have mb: "m div bs \<le> length tokens div bs" using m by (rule div_le_mono)
  let ?cs = "chunks bs (m div bs) tokens"
  have t2: "t2 = rt_dec_chunks ?cs r t1"
    using dec rt_links_eqD(2) [OF le] Some bs mb
    by (auto simp: rt_dec_refs_def rt_root_for_read_def min_def split: if_splits)
  have p: "rt_path t1 ?cs r = take (m div bs) (rt_path t (chunks bs (length tokens div bs) tokens) r)"
    using rt_path_links [OF le wf r] chunks_take [OF mb, of bs tokens] by (simp add: rt_path_take)
  have "rn_ref (rt_node t2 i) = rn_ref (rt_node t i)" if i: "i < rt_size t" for i
  proof -
    have "rn_ref (rt_node t2 i) = rn_ref (rt_node t1 i) - (if i \<in> set (rt_path t1 ?cs r) then 1 else 0)"
      unfolding t2 by (rule rt_dec_chunks_ref [OF wf1]) (use r i sz in simp_all)
    then show ?thesis using sp i p by simp
  qed
  then show ?thesis using rt_links_eq_trans [OF le rt_dec_chunks_links] t2 by simp
qed

subsection \<open>A referenced prefix survives eviction\<close>

lemma map_of_filter_key:
  "map_of (filter (\<lambda>(k', _). k' \<noteq> k) xs) q = (if q = k then None else map_of xs q)"
  by (induction xs) auto

lemma rt_drop_leaf_path:
  assumes wf: "rt_wf t" and i: "i < rt_size t" and ev: "rt_evictable (rt_node t i)"
    and dl: "rt_drop_leaf i t = (t', phys, disk)"
  shows "cur < rt_size t \<Longrightarrow> cur \<noteq> i \<Longrightarrow> rt_path t' cs cur = takeWhile (\<lambda>x. x \<noteq> i) (rt_path t cs cur)"
proof (induction cs arbitrary: cur)
  case (Cons chunk cs)
  obtain p k where p: "p < rt_size t" and ne: "p \<noteq> i"
    and mo: "map_of (rn_children (rt_node t p)) k = Some i"
    and nd: "\<And>j. j < rt_size t \<Longrightarrow> rt_node t' j =
      (if j = i then cleared_node (rt_node t i)
       else if j = p then (rt_node t p)\<lparr> rn_children := filter (\<lambda>(k', _). k' \<noteq> k) (rn_children (rt_node t p)) \<rparr>
       else rt_node t j)"
    using rt_drop_leaf_nodes [OF wf i ev dl] by metis
  have kids: "map_of (rn_children (rt_node t' cur)) chunk =
      (if cur = p \<and> chunk = k then None else map_of (rn_children (rt_node t cur)) chunk)"
    using nd [OF Cons.prems(1)] Cons.prems(2) by (simp add: map_of_filter_key)
  show ?case
  proof (cases "map_of (rn_children (rt_node t cur)) chunk")
    case None
    then show ?thesis using kids by simp
  next
    case (Some child)
    show ?thesis
    proof (cases "cur = p \<and> chunk = k")
      case True
      then show ?thesis using Some kids mo by simp
    next
      case False
      have "child \<noteq> i"
      proof
        assume "child = i"
        then have "cur = p \<and> chunk = k" using rt_wf_child_key [OF wf Cons.prems(1) _ p mo] Some by simp
        then show False using False by blast
      qed
      moreover have "child < rt_size t" using rt_wf_map_of [OF wf Cons.prems(1) Some] by blast
      ultimately show ?thesis using Cons.IH Some kids False by simp
    qed
  qed
qed simp

lemma takeWhile_cut:
  "(\<And>x. x \<in> set (takeWhile P xs) \<Longrightarrow> Q x) \<Longrightarrow> takeWhile P (takeWhile Q xs) = takeWhile P xs"
proof (induction xs)
  case (Cons x xs)
  then show ?case by (cases "P x") auto
qed simp

lemma takeWhile_same: "(\<And>x. x \<in> set xs \<Longrightarrow> P x = Q x) \<Longrightarrow> takeWhile P xs = takeWhile Q xs"
  by (rule takeWhile_cong) auto

text \<open>C12: a prefix that a lookup matched and referenced survives eviction: however many blocks the
  pool asks the cache for, a lookup of the same prompt afterwards matches the same tokens and
  returns the same blocks and disk ids.\<close>

theorem radix_pinned_prefix_survives:
  assumes wf: "rt_wf t" and off: "\<not> rt_partial_sharing t"
    and w: "rt_walk t tokens bs a = Some (bl, dk, m)"
    and inc: "rt_inc_refs tokens bs m a t = Some t1"
    and ev: "rt_evict n t1 = (t2, phys, disk)"
  shows "rt_walk t2 tokens bs a = Some (bl, dk, m)"
proof (cases "rt_roots t a")
  case None
  have wf1: "rt_wf t1" by (rule rt_inc_refs_wf [OF wf inc])
  have "rt_roots t1 a = None" using inc None
    by (auto simp: rt_inc_refs_def rt_root_for_read_def rt_next_access_def Let_def)
  then have "rt_roots t2 a = None"
    using rt_evict_rule [where I = "\<lambda>u _ _. rt_roots u a = None", OF _ _ wf1 ev] rt_drop_leaf_nodes by metis
  then show ?thesis using w None by (simp add: rt_walk_no_root)
next
  case (Some r)
  have bs: "0 < bs" using w Some by (auto simp: rt_walk_def rt_root_for_read_def split: if_splits)
  let ?cs = "chunks bs (length tokens div bs) tokens"
  define p where "p = rt_match t ?cs r"
  have bl: "bl = map (\<lambda>i. rn_block (rt_node t i)) p" and dk: "dk = map (\<lambda>i. rn_disk (rt_node t i)) p"
    and m: "m = bs * length p"
    using rt_walk_spec [OF wf off bs Some, of tokens] w by (auto simp: Let_def p_def)
  have mb: "m \<le> length tokens" using rt_walk_bound [OF wf off w] by blast
  note sp = rt_inc_refs_spec [OF wf Some bs mb inc]
  have le: "rt_links_eq t t1" and off1: "\<not> rt_partial_sharing t1" using sp off by auto
  have wf1: "rt_wf t1" by (rule rt_links_eq_wf [OF wf le])
  have r: "r < rt_size t" using rt_wf_root [OF wf Some] by simp
  have take: "take (m div bs) (rt_path t ?cs r) = p"
    using bs by (simp add: m p_def rt_match_def take_length_takeWhile)
  have psz: "i < rt_size t \<and> rt_held t i" if "i \<in> set p" for i
    using that rt_path_live_all [OF wf r, of ?cs] set_takeWhileD unfolding p_def rt_match_def by metis
  have ref1: "rn_ref (rt_node t1 i) = rn_ref (rt_node t i) + (if i \<in> set p then 1 else 0)"
    "rn_disk (rt_node t1 i) = rn_disk (rt_node t i)" if "i < rt_size t" for i
    using sp that take by simp_all
  have p1: "rt_match t1 ?cs r = p"
  proof -
    have "rt_path t1 ?cs r = rt_path t ?cs r" by (rule rt_path_links [OF le wf r])
    moreover have "takeWhile (rt_held t1) (rt_path t ?cs r) = takeWhile (rt_held t) (rt_path t ?cs r)"
    proof (rule takeWhile_same)
      fix i assume "i \<in> set (rt_path t ?cs r)"
      then have "i < rt_size t" using rt_path_live_all [OF wf r] by blast
      then show "rt_held t1 i = rt_held t i" using ref1(1) psz by auto
    qed
    ultimately show ?thesis by (simp add: rt_match_def p_def)
  qed
  define I where "I = (\<lambda>u. rt_roots u a = Some r \<and> \<not> rt_partial_sharing u \<and> rt_match u ?cs r = p
      \<and> (\<forall>i \<in> set p. i < rt_size u \<and> 1 < rn_ref (rt_node u i)
           \<and> rn_block (rt_node u i) = rn_block (rt_node t i) \<and> rn_disk (rt_node u i) = rn_disk (rt_node t i)))"
  have "I t1"
    using Some rt_links_eqD(1,2) [OF le] off1 p1 psz ref1 rt_links_eqD(7) [OF le] by (auto simp: I_def)
  moreover have "I u1"
    if "I u" "rt_wf u" "i < rt_size u" "rt_evictable (rt_node u i)" "rt_drop_leaf i u = (u1, ph, d)" for u i u1 ph d
  proof -
    note Iu = that(1) and wfu = that(2) and drop = that(3-5) and evi = that(4)
    obtain q k where q: "q < rt_size u" "q \<noteq> i" and sz: "rt_size u1 = rt_size u" "rt_roots u1 = rt_roots u"
        "rt_partial_sharing u1 = rt_partial_sharing u"
      and nd: "\<And>j. j < rt_size u \<Longrightarrow> rt_node u1 j =
      (if j = i then cleared_node (rt_node u i)
       else if j = q then (rt_node u q)\<lparr> rn_children := filter (\<lambda>(k', _). k' \<noteq> k) (rn_children (rt_node u q)) \<rparr>
       else rt_node u j)"
      using rt_drop_leaf_nodes [OF wfu drop] by metis
    have ri: "r < rt_size u" "r \<noteq> i"
      using Iu evi rt_wf_root [OF wfu, of a r] by (auto simp: I_def rt_evictable_def)
    have ip: "i \<notin> set p" using Iu evi by (auto simp: I_def rt_evictable_def)
    have ref: "rn_ref (rt_node u1 j) = rn_ref (rt_node u j)" if "j < rt_size u" for j
      using nd [OF that] by (simp add: cleared_node_def)
    have "rt_match u1 ?cs r = takeWhile (rt_held u1) (takeWhile (\<lambda>x. x \<noteq> i) (rt_path u ?cs r))"
      unfolding rt_match_def rt_drop_leaf_path [OF wfu drop ri] ..
    also have "\<dots> = takeWhile (rt_held u) (takeWhile (\<lambda>x. x \<noteq> i) (rt_path u ?cs r))"
    proof (rule takeWhile_same)
      fix x assume "x \<in> set (takeWhile (\<lambda>x. x \<noteq> i) (rt_path u ?cs r))"
      then have "x < rt_size u" using set_takeWhileD rt_path_live_all [OF wfu ri(1)] by metis
      then show "rt_held u1 x = rt_held u x" using ref by simp
    qed
    also have "\<dots> = rt_match u ?cs r"
      unfolding rt_match_def
    proof (rule takeWhile_cut)
      fix x assume "x \<in> set (takeWhile (rt_held u) (rt_path u ?cs r))"
      then show "x \<noteq> i" using ip Iu by (auto simp: I_def rt_match_def)
    qed
    finally have "rt_match u1 ?cs r = p" using Iu by (simp add: I_def)
    moreover have "j < rt_size u1 \<and> 1 < rn_ref (rt_node u1 j)
           \<and> rn_block (rt_node u1 j) = rn_block (rt_node t j) \<and> rn_disk (rt_node u1 j) = rn_disk (rt_node t j)"
      if "j \<in> set p" for j
      using Iu that ip sz nd [of j] by (auto simp: I_def)
    ultimately show ?thesis using Iu sz by (auto simp: I_def)
  qed
  ultimately have fin: "rt_wf t2" "I t2"
    using rt_evict_rule [where I = "\<lambda>u _ _. I u", OF _ _ wf1 ev] by blast+
  have "rt_walk t2 tokens bs a = Some (map (\<lambda>i. rn_block (rt_node t2 i)) p,
      map (\<lambda>i. rn_disk (rt_node t2 i)) p, bs * length p)"
    using rt_walk_spec [OF fin(1) _ bs, of a r tokens] fin(2) by (simp add: I_def Let_def)
  then show ?thesis using fin(2) by (auto simp: I_def bl dk m)
qed

subsection \<open>Adapters do not see each other\<close>

inductive rt_under :: "rtree \<Rightarrow> nat \<Rightarrow> nat \<Rightarrow> bool" for t r where
  under_root: "rt_under t r r"
| under_child: "rt_under t r i \<Longrightarrow> i < rt_size t \<Longrightarrow> (k, c) \<in> set (rn_children (rt_node t i)) \<Longrightarrow> rt_under t r c"

lemma rt_under_last: "rt_under t r c \<Longrightarrow> c = r \<or> (\<exists>i k. rt_under t r i \<and> i < rt_size t
    \<and> (k, c) \<in> set (rn_children (rt_node t i)))"
  by (erule rt_under.cases) blast+

text \<open>No node is under two roots.\<close>

lemma rt_under_unique:
  assumes wf: "rt_wf t" and r: "rn_parent (rt_node t r) = None" and r': "rn_parent (rt_node t r') = None"
  shows "rt_under t r i \<Longrightarrow> rt_under t r' i \<Longrightarrow> r = r'"
proof (induction rule: rt_under.induct)
  case under_root
  then show ?case using rt_under_last [of t r' r] rt_wf_child [OF wf] r by fastforce
next
  case (under_child i k c)
  note pc = rt_wf_child [OF wf under_child.hyps(2,3)]
  have "c \<noteq> r'" using pc r' by auto
  then obtain j q where j: "rt_under t r' j" "j < rt_size t" "(q, c) \<in> set (rn_children (rt_node t j))"
    using rt_under_last [OF under_child.prems] by blast
  have "j = i" using rt_wf_child [OF wf j(2,3)] pc by simp
  then show ?case using under_child.IH j(1) by simp
qed

lemma rt_under_path: "rt_under t r cur \<Longrightarrow> rt_wf t \<Longrightarrow> cur < rt_size t \<Longrightarrow>
    \<forall>i \<in> set (rt_path t cs cur). rt_under t r i"
proof (induction cs arbitrary: cur)
  case (Cons chunk cs)
  show ?case
  proof (cases "map_of (rn_children (rt_node t cur)) chunk")
    case (Some child)
    have "rt_under t r child" by (rule under_child [OF Cons.prems(1,3) map_of_SomeD [OF Some]])
    then show ?thesis using Cons.IH Cons.prems rt_wf_map_of(1) [OF Cons.prems(2,3) Some] Some by simp
  qed simp
qed simp

lemma rt_under_size: "rt_under t r i \<Longrightarrow> rt_wf t \<Longrightarrow> r < rt_size t \<Longrightarrow> i < rt_size t"
  by (induction rule: rt_under.induct) (auto dest: rt_wf_child)

lemma rt_under_live:
  assumes "rt_under t r i" and "rt_wf t" and "rt_live t r"
  shows "rt_live t i"
proof (cases "i = r")
  case False
  then obtain j k where "j < rt_size t" "(k, i) \<in> set (rn_children (rt_node t j))"
    using rt_under_last [OF assms(1)] by blast
  then have "rn_parent (rt_node t i) = Some j \<and> i < rt_size t" using rt_wf_child [OF assms(2)] by blast
  then show ?thesis using rt_wf_free [OF assms(2), of i] by (auto simp: rt_live_def)
qed (use assms(3) in simp)

text \<open>A walk reads only the nodes under its root.\<close>

lemma rt_walk_chunks_cong:
  assumes wf: "rt_wf t" and same: "\<And>i. rt_under t r i \<Longrightarrow> rt_node t' i = rt_node t i"
  shows "rt_under t r cur \<Longrightarrow> cur < rt_size t \<Longrightarrow>
     rt_walk_chunks t' bs cs cur h = rt_walk_chunks t bs cs cur h
     \<and> (\<exists>bl dk m cur' h'. rt_walk_chunks t bs cs cur h = (bl, dk, m, cur', h')
          \<and> rt_under t r cur' \<and> cur' < rt_size t)"
proof (induction cs arbitrary: cur h)
  case Nil
  then show ?case by simp
next
  case (Cons chunk cs)
  have kids: "rn_children (rt_node t' cur) = rn_children (rt_node t cur)" using same Cons.prems by simp
  show ?case
  proof (cases "map_of (rn_children (rt_node t cur)) chunk")
    case None
    then show ?thesis using kids Cons.prems by simp
  next
    case (Some child)
    note mo = rt_wf_map_of [OF wf Cons.prems(2) Some]
    have u: "rt_under t r child" by (rule under_child [OF Cons.prems map_of_SomeD [OF Some]])
    show ?thesis
    proof (cases "rn_ctx (rt_node t child) = context_hash_combine h chunk \<and> rt_held t child")
      case True
      then show ?thesis
        using Cons.IH [OF u mo(1), of "context_hash_combine h chunk"] same [OF u] kids Some
        by (auto simp: Let_def)
    next
      case False
      then show ?thesis using same [OF u] kids Some Cons.prems by (auto simp: Let_def)
    qed
  qed
qed

lemma find_cong: "(\<And>x. x \<in> set xs \<Longrightarrow> P x = Q x) \<Longrightarrow> List.find P xs = List.find Q xs"
  by (induction xs) auto

lemma rt_tail_match_cong:
  assumes wf: "rt_wf t" and same: "\<And>i. rt_under t r i \<Longrightarrow> rt_node t' i = rt_node t i"
    and cur: "rt_under t r cur" "cur < rt_size t"
  shows "rt_tail_match t' cur h suffix = rt_tail_match t cur h suffix"
proof -
  have u: "rt_node t' c = rt_node t c" if "(k, c) \<in> set (rn_children (rt_node t cur))" for k c
    using same under_child [OF cur that] by blast
  let ?P = "\<lambda>t (key, c). length suffix \<le> length key \<and> take (length suffix) key = suffix
            \<and> rn_ctx (rt_node t c) = context_hash_combine h key \<and> 0 < rn_ref (rt_node t c)"
  have f: "List.find (?P t') (rn_children (rt_node t cur)) = List.find (?P t) (rn_children (rt_node t cur))"
    by (rule find_cong) (use u in auto)
  show ?thesis
  proof (cases "List.find (?P t) (rn_children (rt_node t cur))")
    case None
    then show ?thesis using f same [OF cur(1)] by (simp add: rt_tail_match_def)
  next
    case (Some kc)
    obtain k c where kc: "kc = (k, c)" by force
    have "kc \<in> set (rn_children (rt_node t cur))" using Some by (auto simp: find_Some_iff in_set_conv_nth)
    then have "rt_node t' c = rt_node t c" using u kc by blast
    then show ?thesis unfolding rt_tail_match_def same [OF cur(1)] f Some kc by simp
  qed
qed

lemma rt_walk_cong:
  assumes wf: "rt_wf t" and roots: "rt_roots t' b = rt_roots t b"
    and sh: "rt_partial_sharing t' = rt_partial_sharing t"
    and same: "\<And>r i. rt_roots t b = Some r \<Longrightarrow> rt_under t r i \<Longrightarrow> rt_node t' i = rt_node t i"
  shows "rt_walk t' tokens bs b = rt_walk t tokens bs b"
proof (cases "rt_roots t b")
  case None
  then show ?thesis using roots by (simp add: rt_walk_no_root)
next
  case (Some r)
  have r: "r < rt_size t" using rt_wf_root [OF wf Some] by simp
  note same' = same [OF Some]
  let ?cs = "chunks bs (length tokens div bs) tokens"
  obtain bl dk m cur h where w: "rt_walk_chunks t bs ?cs r 0 = (bl, dk, m, cur, h)"
    and cur: "rt_under t r cur" "cur < rt_size t"
    and w': "rt_walk_chunks t' bs ?cs r 0 = (bl, dk, m, cur, h)"
    using rt_walk_chunks_cong [OF wf same' under_root r, of bs ?cs 0] by metis
  have tm: "rt_tail_match t' cur h s = rt_tail_match t cur h s" for s
    by (rule rt_tail_match_cong [OF wf same' cur])
  show ?thesis
    unfolding rt_walk_def rt_root_for_read_def roots Some option.case Let_def w w' prod.case sh tm ..
qed

lemma rt_under_links: "rt_under t' r i \<Longrightarrow> rt_links_eq t t' \<Longrightarrow> rt_under t r i"
proof (induction rule: rt_under.induct)
  case (under_child i k c)
  then have "i < rt_size t" using rt_links_eqD(1) by metis
  then show ?case using under_child rt_links_eqD(4) [of t t' i] by (auto intro: rt_under.under_child)
qed (rule rt_under.under_root)

lemma rt_insert_chunks_frame:
  assumes "rt_wf t" and "rt_live t cur" and "h = rn_ctx (rt_node t cur)"
    and "i + length cs \<le> length bt" and "U32_MAX \<notin> set bt"
    and "rt_insert_chunks bt disks bs matched access i cs cur h (t, acq) = (cur', t', acq')"
    and "rt_live t r" and "rt_under t r cur"
  shows "rt_under t' r cur' \<and> rt_live t' r \<and> rt_partial_sharing t' = rt_partial_sharing t
     \<and> (\<forall>j. rt_live t j \<longrightarrow> \<not> rt_under t r j \<longrightarrow> rt_live t' j \<and> \<not> rt_under t' r j \<and> rt_node t' j = rt_node t j)"
  using assms
proof (induction cs arbitrary: i cur h t acq)
  case Nil
  then show ?case by simp
next
  case (Cons chunk cs)
  let ?ctx = "context_hash_combine h chunk"
  let ?own = "matched \<le> i * bs" and ?hss = "disks \<noteq> []"
  let ?d = "if disks \<noteq> [] then disks ! i else U32_MAX"
  have cur: "cur < rt_size t" using Cons.prems(2) by (simp add: rt_live_def)
  have r: "r < rt_size t" using Cons.prems(7) by (simp add: rt_live_def)
  have len: "Suc i + length cs \<le> length bt" using Cons.prems(4) by simp
  show ?case
  proof (cases "map_of (rn_children (rt_node t cur)) chunk")
    case (Some child)
    obtain t1 acq1 where tc: "rt_touch_child access ?own ?hss ?d ?ctx child (t, acq) = (t1, acq1)" by force
    note mo = rt_wf_map_of [OF Cons.prems(1) cur Some]
    have le: "rt_links_eq t t1" by (rule rt_touch_child_links [OF tc]) (simp add: mo Cons.prems(3))
    have l1: "rt_live t1 child"
      using rt_live_child [OF Cons.prems(1) cur Some] rt_links_eq_live [OF le] by simp
    have h1: "?ctx = rn_ctx (rt_node t1 child)" using rt_links_eqD(6) [OF le mo(1)] mo(4) Cons.prems(3) by simp
    have run: "rt_insert_chunks bt disks bs matched access (Suc i) cs child ?ctx (t1, acq1) = (cur', t', acq')"
      using Cons.prems(6) Some tc by (simp add: Let_def)
    have le': "rt_links_eq t1 t" using le by (auto simp: rt_links_eq_def)
    have wf1: "rt_wf t1" by (rule rt_links_eq_wf [OF Cons.prems(1) le])
    have u: "rt_under t r child" by (rule under_child [OF Cons.prems(8) cur map_of_SomeD [OF Some]])
    have u1: "rt_under t1 r j \<longleftrightarrow> rt_under t r j" for j
      using rt_under_links [OF _ le] rt_under_links [OF _ le'] by blast
    have sh: "rt_partial_sharing t1 = rt_partial_sharing t"
      using rt_grows_touch_child [OF tc mo(1)] by (simp add: rt_grows_def)
    have nd: "rt_node t1 j = rt_node t j" if "\<not> rt_under t r j" for j
    proof -
      have "j \<noteq> child" using that u by auto
      then show ?thesis using tc mo(1)
        by (auto simp: rt_touch_child_def Let_def rt_node_update split: if_splits)
    qed
    show ?thesis
      using Cons.IH [OF wf1 l1 h1 len Cons.prems(5) run] u u1 nd sh rt_links_eq_live [OF le] Cons.prems(7)
      by auto
  next
    case None
    obtain child t1 acq1 where
      nc: "rt_new_child access ?own ?hss (bt ! i) ?d ?ctx chunk cur (t, acq) = (child, t1, acq1)"
      using prod_cases3 by blast
    have "i < length bt" using Cons.prems(4) by simp
    then have b: "bt ! i \<noteq> U32_MAX" using Cons.prems(5) nth_mem by metis
    note nl = rt_new_child_live [OF Cons.prems(1,2) nc [unfolded Cons.prems(3)] None b]
    have cl: "cur < rt_size t" "cur \<notin> set (rt_free t)" using Cons.prems(2) by (simp_all add: rt_live_def)
    note sp = rt_new_child_nodes [OF Cons.prems(1) cl nc]
    have run: "rt_insert_chunks bt disks bs matched access (Suc i) cs child ?ctx (t1, acq1) = (cur', t', acq')"
      using Cons.prems(6) None nc by (simp add: Let_def)
    have h1: "?ctx = rn_ctx (rt_node t1 child)" using nl Cons.prems(3) by simp
    have l1: "rt_live t1 child" and wf1: "rt_wf t1" using nl by simp_all
    have dead: "\<not> rt_live t child" using sp(7) by (auto simp: rt_live_def)
    have bck: "rt_under t1 r j \<Longrightarrow> rt_under t r j \<or> j = child" for j
    proof (induction rule: rt_under.induct)
      case under_root
      show ?case by (simp add: rt_under.under_root)
    next
      case (under_child j k c)
      show ?case
      proof (cases "j = child")
        case True
        then show ?thesis using under_child.hyps(3) sp(8) [OF sp(2)] by simp
      next
        case False
        then have j: "j < rt_size t" "rt_under t r j" using under_child sp(4) by blast+
        have "(k, c) \<in> set (rn_children (rt_node t j)) \<or> c = child"
          using under_child.hyps(3) sp(8) [OF under_child.hyps(2)] False by (auto split: if_splits)
        then show ?thesis using rt_under.under_child [OF j(2,1)] by blast
      qed
    qed
    have fwd: "rt_under t r j \<Longrightarrow> rt_under t1 r j" for j
    proof (induction rule: rt_under.induct)
      case (under_child j k c)
      have jl: "rt_live t j" by (rule rt_under_live [OF under_child.hyps(1) Cons.prems(1,7)])
      then have j1: "j < rt_size t1" "j \<noteq> child" using sp(4) dead under_child.hyps(2) by auto
      have "(k, c) \<in> set (rn_children (rt_node t1 j))"
        using under_child.hyps(3) sp(8) [OF j1(1)] j1(2) by (cases "j = cur") simp_all
      then show ?case by (rule rt_under.under_child [OF under_child.IH j1(1)])
    qed (rule rt_under.under_root)
    have curk: "(chunk, child) \<in> set (rn_children (rt_node t1 cur))" "cur < rt_size t1"
      using sp(8) [of cur] sp(3,4) cur by simp_all
    have u1: "rt_under t1 r child" by (rule under_child [OF fwd [OF Cons.prems(8)] curk(2,1)])
    have nd: "rt_live t1 j \<and> \<not> rt_under t1 r j \<and> rt_node t1 j = rt_node t j"
      if "rt_live t j" "\<not> rt_under t r j" for j
    proof -
      have "j \<noteq> child" "j \<noteq> cur" using that dead Cons.prems(8) by auto
      moreover have "rt_live t1 j" using that nl by blast
      ultimately show ?thesis using sp(8) [of j] bck that by (auto simp: rt_live_def)
    qed
    have lr: "rt_live t1 r" using nl Cons.prems(7) by blast
    show ?thesis using Cons.IH [OF wf1 l1 h1 len Cons.prems(5) run lr u1] nd sp(9) by auto
  qed
qed

lemma rt_inc_chunks_frame:
  "rt_wf t \<Longrightarrow> cur < rt_size t \<Longrightarrow> i \<notin> set (rt_path t cs cur) \<Longrightarrow>
   rt_node (rt_inc_chunks access cs cur t) i = rt_node t i"
proof (induction cs arbitrary: cur t)
  case (Cons chunk cs)
  show ?case
  proof (cases "map_of (rn_children (rt_node t cur)) chunk")
    case (Some child)
    let ?t = "rt_update child (\<lambda>n. n\<lparr> rn_ref := rn_ref n + 1, rn_access := access \<rparr>) t"
    note mo = rt_wf_map_of [OF Cons.prems(1,2) Some]
    have le: "rt_links_eq t ?t" by (rule rt_links_eq_update) simp
    have p: "rt_path ?t cs child = rt_path t cs child" by (rule rt_path_links [OF le Cons.prems(1) mo(1)])
    have "rt_node (rt_inc_chunks access cs child ?t) i = rt_node ?t i"
      by (rule Cons.IH [OF rt_links_eq_wf [OF Cons.prems(1) le]]) (use mo(1) Cons.prems(3) Some p in simp_all)
    then show ?thesis using Some mo(1) Cons.prems(3) by (auto simp: rt_node_update)
  qed simp
qed simp

lemma rt_dec_chunks_frame:
  "rt_wf t \<Longrightarrow> cur < rt_size t \<Longrightarrow> i \<notin> set (rt_path t cs cur) \<Longrightarrow>
   rt_node (rt_dec_chunks cs cur t) i = rt_node t i
   \<and> rt_partial_sharing (rt_dec_chunks cs cur t) = rt_partial_sharing t"
proof (induction cs arbitrary: cur t)
  case (Cons chunk cs)
  show ?case
  proof (cases "map_of (rn_children (rt_node t cur)) chunk")
    case (Some child)
    let ?t = "if 0 < rn_ref (rt_node t child)
            then rt_update child (\<lambda>n. n\<lparr> rn_ref := rn_ref n - 1 \<rparr>) t else t"
    note mo = rt_wf_map_of [OF Cons.prems(1,2) Some]
    have le: "rt_links_eq t ?t" by (auto intro: rt_links_eq_update)
    have p: "rt_path ?t cs child = rt_path t cs child" by (rule rt_path_links [OF le Cons.prems(1) mo(1)])
    have "rt_node (rt_dec_chunks cs child ?t) i = rt_node ?t i
        \<and> rt_partial_sharing (rt_dec_chunks cs child ?t) = rt_partial_sharing ?t"
      by (rule Cons.IH [OF rt_links_eq_wf [OF Cons.prems(1) le]]) (use mo(1) Cons.prems(3) Some p in simp_all)
    then show ?thesis using Some mo(1) Cons.prems(3) by (auto simp: rt_node_update)
  qed simp
qed simp

text \<open>A change confined to what is under one adapter's root is invisible to every other adapter.\<close>

lemma rt_walk_other_adapter:
  assumes wf: "rt_wf t" and ab: "a \<noteq> b" and root: "rt_roots t a = Some ra"
    and roots: "rt_roots t' b = rt_roots t b" and sh: "rt_partial_sharing t' = rt_partial_sharing t"
    and frame: "\<And>j. rt_live t j \<Longrightarrow> \<not> rt_under t ra j \<Longrightarrow> rt_node t' j = rt_node t j"
  shows "rt_walk t' q bs b = rt_walk t q bs b"
proof (rule rt_walk_cong [OF wf roots sh])
  fix r i assume rb: "rt_roots t b = Some r" and u: "rt_under t r i"
  have "ra \<noteq> r" using rt_wf_root_inj [OF wf root, of b] rb ab by auto
  then have "\<not> rt_under t ra i"
    using rt_under_unique [OF wf _ _ _ u, of ra] rt_wf_root [OF wf rb] rt_wf_root [OF wf root] by auto
  then show "rt_node t' i = rt_node t i"
    using frame rt_under_live [OF u wf rt_live_root [OF wf rb]] by blast
qed

lemma rt_insert_other_adapter:
  assumes wf: "rt_wf t" and ab: "a \<noteq> b" and bt: "U32_MAX \<notin> set bt"
    and ins: "rt_insert tokens bt disks bs matched a t = Some (t', acq)"
  shows "rt_walk t' q qs b = rt_walk t q qs b"
proof -
  obtain access t1 where na: "rt_next_access t = (access, t1)" by force
  obtain root t2 where ri: "rt_root_for_insert a t1 = (root, t2)" by force
  note st = rt_insert_start [OF wf na ri]
  have le1: "rt_links_eq t t1" and nodes1: "rt_nodes t1 = rt_nodes t"
    using rt_next_access_links [of t] na by (auto simp: rt_next_access_def)
  note r2 = rt_root_for_insert_wf [OF rt_links_eq_wf [OF wf le1] ri]
  let ?full = "length tokens div bs"
  let ?n = "min ?full (length bt)"
  let ?acq0 = "\<lparr> ia_disk = [], ia_blocks = [], ia_released = [] \<rparr>"
  obtain cur t3 acq3 where
    run: "rt_insert_chunks bt disks bs matched access 0 (chunks bs ?n tokens) root 0 (t2, ?acq0) = (cur, t3, acq3)"
    using prod_cases3 by blast
  have len: "0 + length (chunks bs ?n tokens) \<le> length bt" by simp
  note ch = rt_insert_chunks_wf [OF st(1,3) st(4) [symmetric] len bt run]
  note fr = rt_insert_chunks_frame [OF st(1,3) st(4) [symmetric] len bt run st(3) under_root]
  have t': "rt_roots t' = rt_roots t3 \<and> rt_partial_sharing t' = rt_partial_sharing t3
      \<and> (\<forall>j. j \<noteq> cur \<longrightarrow> rt_node t' j = rt_node t3 j)"
    using ins na ri run
    by (auto simp: rt_insert_def Let_def rt_insert_partial_def rt_update_def split: if_splits)
  have "rt_walk t' q qs b = rt_walk t2 q qs b"
  proof (rule rt_walk_other_adapter [OF st(1) ab st(2)])
    show "rt_roots t' b = rt_roots t2 b" using t' ch by simp
    show "rt_partial_sharing t' = rt_partial_sharing t2" using t' fr by simp
    fix j assume j: "rt_live t2 j" "\<not> rt_under t2 root j"
    then have "j \<noteq> cur" "rt_node t3 j = rt_node t2 j" using fr by blast+
    then show "rt_node t' j = rt_node t2 j" using t' by simp
  qed
  also have "\<dots> = rt_walk t q qs b"
  proof (rule rt_walk_cong [OF wf])
    show "rt_roots t2 b = rt_roots t b" using r2(2) rt_links_eqD(2) [OF le1] ab by simp
    show "rt_partial_sharing t2 = rt_partial_sharing t" by (rule st(5))
    fix r i assume "rt_roots t b = Some r" "rt_under t r i"
    then have "rt_live t i" using rt_under_live [OF _ wf rt_live_root [OF wf]] by blast
    then show "rt_node t2 i = rt_node t i"
      using r2(3) [of i] rt_links_eq_live [OF le1, of i] nodes1 by (simp add: rt_live_def)
  qed
  finally show ?thesis .
qed

text \<open>C13: adapters are isolated: whatever an adapter inserts, references or releases, every lookup of
  every other adapter returns what it returned before, sub-block sharing included.\<close>

theorem radix_adapters_isolated:
  assumes wf: "rt_wf t" and ab: "a \<noteq> b" and bt: "U32_MAX \<notin> set bt"
  shows "(rt_insert tokens bt disks bs m a t = Some (t1, acq) \<longrightarrow> rt_walk t1 q qs b = rt_walk t q qs b)
       \<and> (rt_inc_refs tokens bs m a t = Some t2 \<longrightarrow> rt_walk t2 q qs b = rt_walk t q qs b)
       \<and> (rt_dec_refs tokens bs m a t = Some t3 \<longrightarrow> rt_walk t3 q qs b = rt_walk t q qs b)"
proof (intro conjI impI)
  assume "rt_insert tokens bt disks bs m a t = Some (t1, acq)"
  then show "rt_walk t1 q qs b = rt_walk t q qs b" by (rule rt_insert_other_adapter [OF wf ab bt])
next
  assume inc: "rt_inc_refs tokens bs m a t = Some t2"
  have le1: "rt_links_eq t (snd (rt_next_access t))" by (rule rt_next_access_links)
  have wf1: "rt_wf (snd (rt_next_access t))" by (rule rt_links_eq_wf [OF wf le1])
  show "rt_walk t2 q qs b = rt_walk t q qs b"
  proof (cases "rt_roots t a")
    case None
    then have "t2 = snd (rt_next_access t)" using inc
      by (auto simp: rt_inc_refs_def rt_root_for_read_def rt_next_access_def Let_def)
    then show ?thesis by (auto intro!: rt_walk_cong [OF wf] simp: rt_next_access_def)
  next
    case (Some r)
    then obtain access cs where t2: "t2 = rt_inc_chunks access cs r (snd (rt_next_access t))"
      using inc by (auto simp: rt_inc_refs_def rt_root_for_read_def rt_next_access_def Let_def split: if_splits)
    have r: "r < rt_size (snd (rt_next_access t))"
      using rt_wf_root [OF wf Some] by (simp add: rt_next_access_def)
    have "rt_path (snd (rt_next_access t)) cs r = rt_path t cs r"
      by (rule rt_path_links [OF le1 wf]) (use rt_wf_root [OF wf Some] in simp)
    moreover have "\<forall>i \<in> set (rt_path t cs r). rt_under t r i"
      by (rule rt_under_path [OF under_root wf]) (use rt_wf_root [OF wf Some] in simp)
    ultimately have nd: "rt_node t2 j = rt_node t j" if "\<not> rt_under t r j" for j
      using rt_inc_chunks_frame [OF wf1 r, of j cs access] that t2 by (auto simp: rt_next_access_def)
    have "rt_roots t2 = rt_roots t"
      using rt_links_eqD(2) [OF rt_links_eq_trans [OF le1 rt_inc_chunks_links]] t2 by simp
    moreover have "rt_partial_sharing t2 = rt_partial_sharing t"
      using rt_inc_chunks_ref [OF wf1 r r] t2 by (simp add: rt_next_access_def)
    ultimately show ?thesis
      using nd by (intro rt_walk_other_adapter [OF wf ab Some]) auto
  qed
next
  assume dec: "rt_dec_refs tokens bs m a t = Some t3"
  show "rt_walk t3 q qs b = rt_walk t q qs b"
  proof (cases "rt_roots t a")
    case None
    then show ?thesis using dec by (simp add: rt_dec_refs_def rt_root_for_read_def)
  next
    case (Some r)
    then obtain cs where t3: "t3 = rt_dec_chunks cs r t"
      using dec by (auto simp: rt_dec_refs_def rt_root_for_read_def split: if_splits)
    have r: "r < rt_size t" using rt_wf_root [OF wf Some] by simp
    have "\<forall>i \<in> set (rt_path t cs r). rt_under t r i" by (rule rt_under_path [OF under_root wf r])
    then have nd: "rt_node t3 j = rt_node t j" if "\<not> rt_under t r j" for j
      using rt_dec_chunks_frame [OF wf r, of j cs] that t3 by blast
    have "r \<notin> set (rt_path t cs r)" using rt_path_distinct [OF wf r, of cs] by simp
    then have "rt_partial_sharing t3 = rt_partial_sharing t"
      using rt_dec_chunks_frame [OF wf r] t3 by blast
    then show ?thesis using nd rt_links_eqD(2) [OF rt_dec_chunks_links] t3
      by (intro rt_walk_other_adapter [OF wf ab Some]) auto
  qed
qed

subsection \<open>Witnesses\<close>

text \<open>A tree holding one prompt of five tokens in blocks of two: two nodes and a partial suffix.\<close>

definition demo_insert :: "(rtree \<times> insert_acquired) option" where
  "demo_insert = rt_insert [1, 2, 3, 4, 5] [10, 11, 12] [] 2 0 0 (rt_new False)"

definition demo_tree :: rtree where
  "demo_tree = (case demo_insert of Some (t, _) \<Rightarrow> t | None \<Rightarrow> rt_new False)"

definition demo_acq :: insert_acquired where
  "demo_acq = (case demo_insert of Some (_, acq) \<Rightarrow> acq
     | None \<Rightarrow> \<lparr> ia_disk = [], ia_blocks = [], ia_released = [] \<rparr>)"

lemma demo_insert_some: "rt_insert [1, 2, 3, 4, 5] [10, 11, 12] [] 2 0 0 (rt_new False) = Some (demo_tree, demo_acq)"
proof -
  have "demo_insert \<noteq> None" by (simp add: demo_insert_def rt_insert_def rt_next_access_def Let_def rt_root_for_insert_def rt_new_def split: prod.split)
  then show ?thesis by (auto simp: demo_tree_def demo_acq_def demo_insert_def split: option.splits prod.splits)
qed

lemma demo_tree_wf: "rt_wf demo_tree"
  by (rule rt_insert_wf [OF rt_new_wf _ demo_insert_some]) simp

lemma chunks_2 [simp]: "chunks bs 2 tokens = [take bs tokens, take bs (drop bs tokens)]"
  by (simp add: numeral_2_eq_2)

lemmas demo_defs = demo_tree_def demo_acq_def demo_insert_def rt_insert_def rt_next_access_def
  rt_root_for_insert_def rt_new_def root_node_def rt_new_child_def rt_alloc_node_def rt_update_def
  partial_block_def partial_disk_def rt_insert_partial_def

lemma demo_off: "\<not> rt_partial_sharing demo_tree"
  by (simp add: demo_defs Let_def)

lemma demo_acq: "ia_blocks demo_acq = [10, 11, 12] \<and> ia_released demo_acq = []"
  by (simp add: demo_defs Let_def)

lemma demo_walk: "rt_walk demo_tree [1, 2, 3, 4, 9] 2 0 = Some ([10, 11], [U32_MAX, U32_MAX], 4)"
  by (simp add: demo_defs Let_def rt_walk_def rt_root_for_read_def)

theorem radix_insert_conserves_witness:
  "rt_wf (rt_new False) \<and> U32_MAX \<notin> set [10, 11, 12] \<and> rt_owned demo_tree = {#10, 11, 12#}"
proof -
  have b: "U32_MAX \<notin> set [10, 11, 12]" by simp
  have "rt_owned (rt_new False) = {#}" by (simp add: rt_owned_def rt_new_def)
  then show ?thesis
    using radix_insert_conserves [OF rt_new_wf b demo_insert_some] rt_new_wf b demo_acq by simp
qed

theorem radix_insert_walk_witness:
  "\<not> rt_partial_sharing (rt_new False)
   \<and> (\<exists>bl dk. rt_walk demo_tree [1, 2, 3, 4, 5] 2 0 = Some (bl, dk, 4) \<and> length bl = 2)"
proof -
  have off: "\<not> rt_partial_sharing (rt_new False)" by (simp add: rt_new_def)
  have b: "U32_MAX \<notin> set [10, 11, 12]" "length [1, 2, 3, 4, 5 :: token] div 2 \<le> length [10, 11, 12 :: nat]"
    by simp_all
  from radix_insert_walk [OF rt_new_wf off b demo_insert_some] show ?thesis using off by auto
qed

text \<open>The demo tree after its sequence released it, and after another lookup referenced it.\<close>

definition demo_released :: rtree where
  "demo_released = (case rt_dec_refs [1, 2, 3, 4, 5] 2 5 0 demo_tree of Some t \<Rightarrow> t | None \<Rightarrow> demo_tree)"

lemma demo_released_wf: "rt_wf demo_released"
  using demo_tree_wf rt_dec_refs_wf [OF demo_tree_wf] by (auto simp: demo_released_def split: option.splits)

lemma demo_evict: "snd (rt_evict 1 demo_released) = ([11, 12], [U32_MAX, U32_MAX])"
  by (simp add: demo_released_def demo_defs Let_def rt_dec_refs_def rt_root_for_read_def rt_evict_def
      rt_evict_loop.simps rt_evictable_def rt_drop_leaf_def vec_push_def)

theorem radix_evict_conserves_witness:
  "rt_wf demo_released
   \<and> (\<exists>t'. rt_evict 1 demo_released = (t', [11, 12], [U32_MAX, U32_MAX])
        \<and> rt_owned t' + {#11, 12#} = rt_owned demo_released)"
proof -
  obtain t' where ev: "rt_evict 1 demo_released = (t', [11, 12], [U32_MAX, U32_MAX])"
    using demo_evict by (metis prod.collapse)
  then show ?thesis using radix_evict_conserves [OF demo_released_wf ev] demo_released_wf by auto
qed

lemma demo_inc: "\<exists>t. rt_inc_refs [1, 2, 3, 4, 9] 2 4 0 demo_tree = Some t"
  by (simp add: demo_defs Let_def rt_inc_refs_def rt_root_for_read_def)

lemma demo_dec: "\<exists>u. rt_dec_refs [1, 2, 3, 4, 9] 2 4 0 t = Some u"
  by (simp add: rt_dec_refs_def split: option.split)

theorem radix_refs_balance_witness:
  "rt_wf demo_tree \<and> (\<exists>t1 t2. rt_inc_refs [1, 2, 3, 4, 9] 2 4 0 demo_tree = Some t1
     \<and> rt_dec_refs [1, 2, 3, 4, 9] 2 4 0 t1 = Some t2 \<and> rt_links_eq demo_tree t2)"
proof -
  obtain t1 where t1: "rt_inc_refs [1, 2, 3, 4, 9] 2 4 0 demo_tree = Some t1" using demo_inc by blast
  obtain t2 where t2: "rt_dec_refs [1, 2, 3, 4, 9] 2 4 0 t1 = Some t2" using demo_dec by blast
  have "4 \<le> length [1, 2, 3, 4, 9 :: token]" by simp
  from radix_refs_balance [OF demo_tree_wf this t1 t2] show ?thesis using demo_tree_wf t1 t2 by blast
qed

theorem radix_pinned_prefix_survives_witness:
  "\<exists>t1 t2 phys disk. rt_walk demo_tree [1, 2, 3, 4, 9] 2 0 = Some ([10, 11], [U32_MAX, U32_MAX], 4)
     \<and> rt_inc_refs [1, 2, 3, 4, 9] 2 4 0 demo_tree = Some t1 \<and> rt_evict 100 t1 = (t2, phys, disk)
     \<and> rt_walk t2 [1, 2, 3, 4, 9] 2 0 = Some ([10, 11], [U32_MAX, U32_MAX], 4)"
proof -
  obtain t1 where t1: "rt_inc_refs [1, 2, 3, 4, 9] 2 4 0 demo_tree = Some t1" using demo_inc by blast
  obtain t2 phys disk where ev: "rt_evict 100 t1 = (t2, phys, disk)" using prod_cases3 by blast
  from radix_pinned_prefix_survives [OF demo_tree_wf demo_off demo_walk t1 ev] show ?thesis
    using demo_walk t1 ev by blast
qed

theorem radix_adapters_isolated_witness:
  "rt_wf demo_tree \<and> (0 :: u64w) \<noteq> 1 \<and> (\<exists>t2. rt_inc_refs [1, 2, 3, 4, 9] 2 4 0 demo_tree = Some t2
     \<and> rt_walk t2 [1, 2] 2 1 = rt_walk demo_tree [1, 2] 2 1)"
proof -
  obtain t2 where t2: "rt_inc_refs [1, 2, 3, 4, 9] 2 4 0 demo_tree = Some t2" using demo_inc by blast
  have ne: "(0 :: u64w) \<noteq> 1" by simp
  have "U32_MAX \<notin> set ([] :: nat list)" by simp
  from radix_adapters_isolated [OF demo_tree_wf ne this] show ?thesis using demo_tree_wf t2 ne by blast
qed

end
