(* ===== verification/Snapshot_Index.thy ===== *)
theory Snapshot_Index
  imports Radix_Tree
begin

text \<open>
  The SSM snapshot index (crates/cache/src/radix_tree/snapshot.rs, snapshot_insert.rs,
  snapshot_tier.rs, snapshot_session.rs, snapshot_stats.rs): which snapshot slot, or spilled tier
  key, holds the state for a token prefix, and which entry to evict.

  Environment variables are read once per process by the code; they are the record \<open>snap_cfg\<close>.
  Floating point arithmetic is a parameter \<open>'f f64_ops\<close> (conversion, addition, multiplication,
  division and \<open>total_cmp\<close>), so the choice of a victim is the code's for every arithmetic.
  Counters are naturals. The logging of \<open>log_stats_if_due\<close> changes nothing and is left out.
\<close>

subsection \<open>State\<close>

record snap_entry =
  se_id :: nat
  se_session :: u64w
  se_tokens :: nat
  se_hash :: u64w
  se_access :: nat
  se_tiered :: bool
  se_tail :: bool
  se_sibling :: bool

record snapshot_stats =
  ss_saves :: nat
  ss_lookups :: nat
  ss_hits :: nat
  ss_anchor_depth_sum :: nat
  ss_recompute_on_hit :: nat
  ss_recompute_on_miss :: nat
  ss_evictions :: nat
  ss_tier_spills :: nat
  ss_tier_hits :: nat
  ss_tier_fault_ins :: nat
  ss_tier_reaps :: nat

datatype snap_loc = Hbm nat | Tier u64w

record snap_match =
  sm_tokens :: nat
  sm_loc :: snap_loc
  sm_is_tail :: bool

datatype tier_evict = Spill nat u64w nat | Drop nat nat

record snap_index =
  si_entries :: "snap_entry list"
  si_access :: nat
  si_last_session :: u64w
  si_evictions :: nat
  si_stats :: snapshot_stats

record 'f f64_ops =
  f_of_nat :: "nat \<Rightarrow> 'f"
  f_add :: "'f \<Rightarrow> 'f \<Rightarrow> 'f"
  f_mul :: "'f \<Rightarrow> 'f \<Rightarrow> 'f"
  f_div :: "'f \<Rightarrow> 'f \<Rightarrow> 'f"
  f_lt :: "'f \<Rightarrow> 'f \<Rightarrow> bool"

record 'f snap_cfg =
  sc_lease_enabled :: bool
  sc_lease_ttl :: nat
  sc_alpha :: 'f
  sc_legacy :: bool
  sc_hermetic :: bool

definition zero_snapshot_stats :: snapshot_stats where
  "zero_snapshot_stats = \<lparr> ss_saves = 0, ss_lookups = 0, ss_hits = 0, ss_anchor_depth_sum = 0,
     ss_recompute_on_hit = 0, ss_recompute_on_miss = 0, ss_evictions = 0, ss_tier_spills = 0,
     ss_tier_hits = 0, ss_tier_fault_ins = 0, ss_tier_reaps = 0 \<rparr>"

definition si_new :: snap_index where
  "si_new = \<lparr> si_entries = [], si_access = 0, si_last_session = 0, si_evictions = 0,
     si_stats = zero_snapshot_stats \<rparr>"

text \<open>\<open>tail_lease_enabled\<close> and \<open>tail_lease_ttl\<close> as functions of the raw values.\<close>

definition tail_lease_enabled :: "string option \<Rightarrow> bool" where
  "tail_lease_enabled raw \<longleftrightarrow> raw \<notin> {Some ''1'', Some ''on'', Some ''true''}"

definition tail_lease_active :: "'f snap_cfg \<Rightarrow> snap_index \<Rightarrow> bool" where
  "tail_lease_active cfg s \<longleftrightarrow> si_last_session s \<noteq> 0 \<and> sc_lease_enabled cfg
     \<and> si_evictions s < sc_lease_ttl cfg"

subsection \<open>Lookup\<close>

definition session_gate_blocks :: "snap_entry \<Rightarrow> u64w \<Rightarrow> bool \<Rightarrow> bool" where
  "session_gate_blocks e session_hash hermetic =
    (if \<not> se_tail e \<and> \<not> hermetic then False
     else session_hash = 0 \<or> se_session e \<noteq> session_hash)"

text \<open>The three tests of the scan; \<open>None\<close> is the panic of slicing past the prompt.\<close>

definition snap_candidate ::
  "bool \<Rightarrow> token list \<Rightarrow> nat \<Rightarrow> u64w \<Rightarrow> u64w \<Rightarrow> snap_entry \<Rightarrow> bool option" where
  "snap_candidate hermetic tokens matched session adapter e =
    (if matched < se_tokens e then Some False
     else if session_gate_blocks e session hermetic then Some False
     else map_option (\<lambda>h. h = se_hash e) (hash_token_prefix tokens (se_tokens e) adapter))"

fun snap_scan :: "(snap_entry \<Rightarrow> bool option) \<Rightarrow> nat \<Rightarrow> snap_entry list \<Rightarrow> (nat \<times> nat) option
    \<Rightarrow> (nat \<times> nat) option option" where
  "snap_scan P i [] best = Some best"
| "snap_scan P i (e # es) best =
    (case P e of
       None \<Rightarrow> None
     | Some m \<Rightarrow> snap_scan P (Suc i) es
         (if m \<and> (best = None \<or> snd (the best) < se_tokens e) then Some (i, se_tokens e) else best))"

definition si_renew_lease :: "u64w \<Rightarrow> snap_index \<Rightarrow> snap_index" where
  "si_renew_lease session s =
    (if session \<noteq> 0 then s\<lparr> si_last_session := session, si_evictions := 0 \<rparr> else s)"

definition si_update :: "nat \<Rightarrow> (snap_entry \<Rightarrow> snap_entry) \<Rightarrow> snap_index \<Rightarrow> snap_index" where
  "si_update i f s = s\<lparr> si_entries := (si_entries s)[i := f (si_entries s ! i)] \<rparr>"

definition si_count_hit :: "nat \<Rightarrow> nat \<Rightarrow> snap_index \<Rightarrow> snap_index" where
  "si_count_hit matched depth s = s\<lparr> si_stats := (si_stats s)\<lparr>
     ss_hits := ss_hits (si_stats s) + 1,
     ss_anchor_depth_sum := ss_anchor_depth_sum (si_stats s) + depth,
     ss_recompute_on_hit := ss_recompute_on_hit (si_stats s) + (matched - depth) \<rparr> \<rparr>"

definition si_count_miss :: "nat \<Rightarrow> snap_index \<Rightarrow> snap_index" where
  "si_count_miss matched s = s\<lparr> si_stats := (si_stats s)\<lparr>
     ss_recompute_on_miss := ss_recompute_on_miss (si_stats s) + matched \<rparr> \<rparr>"

definition si_count_lookup :: "snap_index \<Rightarrow> snap_index" where
  "si_count_lookup s = s\<lparr> si_stats := (si_stats s)\<lparr> ss_lookups := ss_lookups (si_stats s) + 1 \<rparr> \<rparr>"

definition si_touch :: "nat \<Rightarrow> snap_index \<Rightarrow> snap_index" where
  "si_touch i s =
    (let ac = si_access s + 1
     in (si_update i (\<lambda>e. e\<lparr> se_access := ac \<rparr>) s)\<lparr> si_access := ac \<rparr>)"

text \<open>\<open>lookup\<close>: resident entries only.\<close>

definition si_lookup :: "bool \<Rightarrow> token list \<Rightarrow> nat \<Rightarrow> u64w \<Rightarrow> u64w \<Rightarrow> snap_index
    \<Rightarrow> ((nat \<times> nat) option \<times> snap_index) option" where
  "si_lookup hermetic tokens matched session adapter s0 =
    (let s = si_renew_lease session s0 in
     case snap_scan (\<lambda>e. if se_tiered e then Some False else snap_candidate hermetic tokens matched session adapter e)
            0 (si_entries s) None of
       None \<Rightarrow> None
     | Some None \<Rightarrow> Some (None, si_count_miss matched (si_count_lookup s))
     | Some (Some (i, depth)) \<Rightarrow>
         Some (Some (se_id (si_entries s ! i), depth),
               si_count_hit matched depth (si_count_lookup (si_touch i s))))"

text \<open>\<open>lookup_tiered\<close>: resident and spilled entries.\<close>

definition si_lookup_tiered :: "bool \<Rightarrow> token list \<Rightarrow> nat \<Rightarrow> u64w \<Rightarrow> u64w \<Rightarrow> snap_index
    \<Rightarrow> (snap_match option \<times> snap_index) option" where
  "si_lookup_tiered hermetic tokens matched session adapter s0 =
    (let s = si_renew_lease session s0 in
     case snap_scan (snap_candidate hermetic tokens matched session adapter) 0 (si_entries s) None of
       None \<Rightarrow> None
     | Some None \<Rightarrow> Some (None, si_count_miss matched (si_count_lookup s))
     | Some (Some (i, _)) \<Rightarrow>
         (let s1 = si_touch i (si_count_lookup s);
              e = si_entries s1 ! i;
              s2 = si_count_hit matched (se_tokens e) s1;
              s3 = (if se_tiered e
                    then s2\<lparr> si_stats := (si_stats s2)\<lparr> ss_tier_hits := ss_tier_hits (si_stats s2) + 1 \<rparr> \<rparr>
                    else s2)
          in Some (Some \<lparr> sm_tokens = se_tokens e,
                         sm_loc = (if se_tiered e then Tier (se_hash e) else Hbm (se_id e)),
                         sm_is_tail = se_tail e \<rparr>, s3)))"

subsection \<open>Choosing a victim\<close>

definition snap_eligible :: "bool \<Rightarrow> snap_entry \<Rightarrow> bool" where
  "snap_eligible skip_tiered e \<longleftrightarrow> \<not> (skip_tiered \<and> se_tiered e)"

definition snap_leased :: "bool \<Rightarrow> u64w \<Rightarrow> snap_entry \<Rightarrow> bool" where
  "snap_leased tail_protect last_session e \<longleftrightarrow> tail_protect \<and> (se_tail e \<or> se_sibling e)
     \<and> se_session e \<noteq> 0 \<and> se_session e = last_session"

text \<open>The newest access of a session's eligible entries, 0 for none (the map's default).\<close>

definition session_fresh :: "snap_entry list \<Rightarrow> u64w \<Rightarrow> nat" where
  "session_fresh pool s = fold (\<lambda>e f. if se_session e = s \<and> f < se_access e then se_access e else f) pool 0"

definition snap_norm :: "'f f64_ops \<Rightarrow> nat \<Rightarrow> nat \<Rightarrow> nat \<Rightarrow> 'f" where
  "snap_norm fo x mn mx =
    (if mn < mx then f_div fo (f_of_nat fo (x - mn)) (f_of_nat fo (mx - mn)) else f_of_nat fo 0)"

definition U64_MAX :: nat where
  "U64_MAX = 18446744073709551615"

definition snap_score :: "'f f64_ops \<Rightarrow> 'f \<Rightarrow> snap_entry list \<Rightarrow> snap_entry \<Rightarrow> 'f" where
  "snap_score fo alpha pool e =
    (let min_a = fold (\<lambda>x m. min m (se_access x)) pool U64_MAX;
         max_a = fold (\<lambda>x m. max m (se_access x)) pool 0;
         min_t = fold (\<lambda>x m. min m (se_tokens x)) pool U64_MAX;
         max_t = fold (\<lambda>x m. max m (se_tokens x)) pool 0
     in f_add fo (snap_norm fo (se_access e) min_a max_a)
          (f_mul fo alpha (snap_norm fo (se_tokens e) min_t max_t)))"

fun victim_scan :: "'f f64_ops \<Rightarrow> (snap_entry \<Rightarrow> bool) \<Rightarrow> (snap_entry \<Rightarrow> nat) \<Rightarrow> (snap_entry \<Rightarrow> 'f)
    \<Rightarrow> nat \<Rightarrow> snap_entry list \<Rightarrow> (nat \<times> nat \<times> 'f) option \<Rightarrow> (nat \<times> nat \<times> 'f) option" where
  "victim_scan fo ok fresh score i [] v = v"
| "victim_scan fo ok fresh score i (e # es) v =
    victim_scan fo ok fresh score (Suc i) es
      (if ok e then
         (let sf = fresh e; s = score e;
              better = (case v of None \<Rightarrow> True
                        | Some (_, vsf, vs) \<Rightarrow> sf < vsf \<or> sf = vsf \<and> f_lt fo s vs)
          in if better then Some (i, sf, s) else v)
       else v)"

definition session_aware_victim ::
  "'f f64_ops \<Rightarrow> 'f \<Rightarrow> bool \<Rightarrow> bool \<Rightarrow> snap_index \<Rightarrow> nat option" where
  "session_aware_victim fo alpha tail_protect skip_tiered s =
    (let pool = filter (snap_eligible skip_tiered) (si_entries s);
         leased = snap_leased tail_protect (si_last_session s);
         n_unleased = length (filter (\<lambda>e. snap_eligible skip_tiered e \<and> \<not> leased e) (si_entries s));
         ok = (\<lambda>e. snap_eligible skip_tiered e \<and> \<not> (leased e \<and> 1 \<le> n_unleased))
     in map_option fst (victim_scan fo ok (\<lambda>e. session_fresh pool (se_session e))
          (snap_score fo alpha pool) 0 (si_entries s) None))"

text \<open>The legacy per-entry choice: the oldest access, the first of equals.\<close>

fun legacy_scan :: "nat \<Rightarrow> snap_entry list \<Rightarrow> nat \<Rightarrow> nat option \<Rightarrow> nat option" where
  "legacy_scan i [] score v = v"
| "legacy_scan i (e # es) score v =
    (if se_tiered e then legacy_scan (Suc i) es score v
     else if se_access e < score then legacy_scan (Suc i) es (se_access e) (Some i)
     else legacy_scan (Suc i) es score v)"

definition si_drop :: "nat \<Rightarrow> snap_index \<Rightarrow> snap_index" where
  "si_drop i s = s\<lparr> si_entries := vec_swap_remove (si_entries s) i \<rparr>"

definition si_count_eviction :: "snap_index \<Rightarrow> snap_index" where
  "si_count_eviction s = s\<lparr> si_stats := (si_stats s)\<lparr> ss_evictions := ss_evictions (si_stats s) + 1 \<rparr> \<rparr>"

definition si_age_lease :: "snap_index \<Rightarrow> snap_index" where
  "si_age_lease s = s\<lparr> si_evictions := min (si_evictions s + 1) U32_MAX \<rparr>"

definition si_evict_lru :: "'f f64_ops \<Rightarrow> 'f snap_cfg \<Rightarrow> snap_index \<Rightarrow> nat option \<times> snap_index" where
  "si_evict_lru fo cfg s =
    (if si_entries s = [] then (None, s)
     else if \<not> sc_legacy cfg then
       (case session_aware_victim fo (sc_alpha cfg) (tail_lease_active cfg s) True s of
          None \<Rightarrow> (None, s)
        | Some i \<Rightarrow> (Some (se_id (si_entries s ! i)), si_age_lease (si_count_eviction (si_drop i s))))
     else
       (case legacy_scan 0 (si_entries s) U64_MAX None of
          None \<Rightarrow> (None, s)
        | Some i \<Rightarrow> (Some (se_id (si_entries s ! i)), si_count_eviction (si_drop i s))))"

definition si_evict_to_tier :: "'f f64_ops \<Rightarrow> 'f snap_cfg \<Rightarrow> nat \<Rightarrow> snap_index
    \<Rightarrow> tier_evict option \<times> snap_index" where
  "si_evict_to_tier fo cfg min_tokens s =
    (if si_entries s = [] then (None, s)
     else
       (case session_aware_victim fo (sc_alpha cfg) (tail_lease_active cfg s) True s of
          None \<Rightarrow> (None, s)
        | Some i \<Rightarrow>
            (let s1 = si_age_lease s; e = si_entries s ! i; depth = se_tokens e in
             if 0 < min_tokens \<and> depth < min_tokens
             then (Some (Drop (se_id e) depth), si_count_eviction (si_drop i s1))
             else
               (Some (Spill (se_id e) (se_hash e) depth),
                (let s2 = si_update i (\<lambda>e. e\<lparr> se_tiered := True \<rparr>) s1
                 in s2\<lparr> si_stats := (si_stats s2)\<lparr> ss_tier_spills := ss_tier_spills (si_stats s2) + 1 \<rparr> \<rparr>)))))"

subsection \<open>Insertion\<close>

definition freeable_slot :: "snap_entry \<Rightarrow> nat option" where
  "freeable_slot e = (if se_tiered e then None else Some (se_id e))"

definition si_entry_for :: "u64w \<Rightarrow> snap_index \<Rightarrow> nat option" where
  "si_entry_for h s = position (\<lambda>e. se_hash e = h) (si_entries s)"

text \<open>The overwrite of a matching entry and the push of a new one, for the three kinds of entry.\<close>

definition snap_overwrite :: "nat \<Rightarrow> u64w \<Rightarrow> nat \<Rightarrow> bool \<Rightarrow> bool \<Rightarrow> nat \<Rightarrow> snap_entry \<Rightarrow> snap_entry" where
  "snap_overwrite slot session tokens tail sibling access e = e\<lparr> se_id := slot, se_session := session,
     se_tokens := tokens, se_tiered := False, se_tail := tail, se_sibling := sibling, se_access := access \<rparr>"

definition si_put :: "u64w \<Rightarrow> nat \<Rightarrow> u64w \<Rightarrow> nat \<Rightarrow> bool \<Rightarrow> bool \<Rightarrow> bool \<Rightarrow> snap_index
    \<Rightarrow> nat option \<times> snap_index" where
  "si_put h slot session tokens tail sibling count_save s =
    (let ac = si_access s + 1 in
     case si_entry_for h s of
       Some i \<Rightarrow>
         (freeable_slot (si_entries s ! i),
          (si_update i (snap_overwrite slot session tokens tail sibling ac) s)\<lparr> si_access := ac \<rparr>)
     | None \<Rightarrow>
         (None,
          s\<lparr> si_access := ac,
             si_stats := (if count_save then (si_stats s)\<lparr> ss_saves := ss_saves (si_stats s) + 1 \<rparr> else si_stats s),
             si_entries := vec_push (si_entries s)
               \<lparr> se_id = slot, se_session = session, se_tokens = tokens, se_hash = h, se_access = ac,
                 se_tiered = False, se_tail = tail, se_sibling = sibling \<rparr> \<rparr>))"

definition si_insert :: "u64w \<Rightarrow> nat \<Rightarrow> u64w \<Rightarrow> nat \<Rightarrow> snap_index \<Rightarrow> nat option \<times> snap_index" where
  "si_insert h slot session tokens s = si_put h slot session tokens False False True s"

text \<open>The sweep of \<open>insert_tail\<close>: \<open>swap_remove\<close> without advancing, so the entry that took the place
  is examined too.\<close>

function snap_sweep :: "u64w \<Rightarrow> nat \<Rightarrow> snap_entry list \<Rightarrow> nat list \<Rightarrow> snap_entry list \<times> nat list" where
  "snap_sweep session i es displaced =
    (if i < length es then
       (if (se_tail (es ! i) \<or> se_sibling (es ! i)) \<and> se_session (es ! i) = session
        then snap_sweep session i (vec_swap_remove es i)
               (displaced @ (case freeable_slot (es ! i) of Some s \<Rightarrow> [s] | None \<Rightarrow> []))
        else snap_sweep session (Suc i) es displaced)
     else (es, displaced))"
  by pat_completeness auto
termination
  by (relation "measure (\<lambda>(s, i, es, d). 2 * length es - i)") auto

declare snap_sweep.simps [simp del]

definition si_insert_tail :: "u64w \<Rightarrow> nat \<Rightarrow> u64w \<Rightarrow> nat \<Rightarrow> snap_index \<Rightarrow> nat list \<times> snap_index" where
  "si_insert_tail h slot session tokens s =
    (let (es, displaced) = (if session \<noteq> 0 then snap_sweep session 0 (si_entries s) [] else (si_entries s, []));
         (old, s') = si_put h slot session tokens True False False (s\<lparr> si_entries := es \<rparr>)
     in (displaced @ (case old of Some x \<Rightarrow> [x] | None \<Rightarrow> []), s'))"

definition si_insert_tail_sibling :: "u64w \<Rightarrow> nat \<Rightarrow> u64w \<Rightarrow> nat \<Rightarrow> snap_index
    \<Rightarrow> nat option \<times> snap_index" where
  "si_insert_tail_sibling h slot session tokens s = si_put h slot session tokens False True True s"

subsection \<open>The spill tier\<close>

definition si_promote :: "u64w \<Rightarrow> nat \<Rightarrow> snap_index \<Rightarrow> bool \<times> snap_index" where
  "si_promote h new_slot s =
    (case si_entry_for h s of
       Some i \<Rightarrow>
         (True,
          (let s1 = si_update i (\<lambda>e. e\<lparr> se_tiered := False, se_id := new_slot \<rparr>) s
           in s1\<lparr> si_stats := (si_stats s1)\<lparr> ss_tier_fault_ins := ss_tier_fault_ins (si_stats s1) + 1 \<rparr> \<rparr>))
     | None \<Rightarrow> (False, s))"

definition si_forget_tiered :: "u64w \<Rightarrow> snap_index \<Rightarrow> bool \<times> snap_index" where
  "si_forget_tiered h s =
    (case position (\<lambda>e. se_hash e = h \<and> se_tiered e) (si_entries s) of
       None \<Rightarrow> (False, s)
     | Some i \<Rightarrow>
         (True,
          (let s1 = si_drop i s
           in s1\<lparr> si_stats := (si_stats s1)\<lparr> ss_tier_reaps := ss_tier_reaps (si_stats s1) + 1 \<rparr> \<rparr>)))"

definition si_len :: "snap_index \<Rightarrow> nat" where
  "si_len s = length (si_entries s)"

end
