(* ===== verification/Snapshot_Props.thy ===== *)
theory Snapshot_Props
  imports Snapshot_Index
begin

text \<open>
  What the snapshot index promises: one entry per prefix hash, at most one tail per session, a
  ledger of the snapshot slots, a lookup that returns the deepest usable anchor, and an eviction
  that always finds a resident victim and spares the leased ones. The proofs see a state only
  through the multiset of its entries, so the place \<open>swap_remove\<close> leaves an entry in does not matter.
\<close>

subsection \<open>Entries as a multiset\<close>

definition resident :: "snap_entry multiset \<Rightarrow> nat multiset" where
  "resident M = image_mset se_id (filter_mset (\<lambda>e. \<not> se_tiered e) M)"

abbreviation si_bag :: "snap_index \<Rightarrow> snap_entry multiset" where
  "si_bag s \<equiv> mset (si_entries s)"

definition at_most_one :: "(snap_entry \<Rightarrow> bool) \<Rightarrow> snap_entry multiset \<Rightarrow> bool" where
  "at_most_one P M \<longleftrightarrow> size (filter_mset P M) \<le> 1"

definition bag_ok :: "nat \<Rightarrow> snap_entry multiset \<Rightarrow> bool" where
  "bag_ok n M \<longleftrightarrow> (\<forall>h. at_most_one (\<lambda>e. se_hash e = h) M)
     \<and> (\<forall>ses. ses \<noteq> 0 \<longrightarrow> at_most_one (\<lambda>e. se_tail e \<and> se_session e = ses) M)
     \<and> (\<forall>e \<in># M. se_access e \<le> n)"

definition si_ok :: "snap_index \<Rightarrow> bool" where
  "si_ok s \<longleftrightarrow> bag_ok (si_access s) (si_bag s)"

lemma resident_simps [simp]:
  "resident {#} = {#}"
  "resident (add_mset e M) = (if se_tiered e then resident M else add_mset (se_id e) (resident M))"
  "resident (M + N) = resident M + resident N"
  by (auto simp: resident_def)

lemma filter_mset_none: "filter_mset P M = {#} \<longleftrightarrow> (\<forall>x \<in># M. \<not> P x)"
  by (induction M) auto

lemma at_most_one_add:
  "at_most_one P (add_mset e M) \<longleftrightarrow> (if P e then (\<forall>x \<in># M. \<not> P x) else at_most_one P M)"
  by (auto simp: at_most_one_def filter_mset_none)

lemma at_most_one_addF: "\<not> P e \<Longrightarrow> at_most_one P M \<Longrightarrow> at_most_one P (add_mset e M)"
  by (simp add: at_most_one_add)

lemma at_most_one_addT: "(\<And>x. x \<in># M \<Longrightarrow> \<not> P x) \<Longrightarrow> at_most_one P (add_mset e M)"
  by (cases "P e") (auto simp: at_most_one_add at_most_one_def filter_mset_none [THEN iffD2])

lemma at_most_one_sub: "at_most_one P (M + N) \<Longrightarrow> at_most_one P M"
  by (simp add: at_most_one_def)

lemma bag_update:
  assumes "i < length xs"
  obtains N where "mset xs = add_mset (xs ! i) N" "\<And>x. mset (xs[i := x]) = add_mset x N"
proof
  show "mset xs = add_mset (xs ! i) (mset xs - {#xs ! i#})" using assms by simp
  show "mset (xs[i := x]) = add_mset x (mset xs - {#xs ! i#})" for x using assms by (simp add: mset_update)
qed

lemma bag_drop: "i < length xs \<Longrightarrow> mset xs = add_mset (xs ! i) (mset (vec_swap_remove xs i))"
  by (simp add: mset_swap_remove)

lemma bag_ok_mono: "bag_ok n M \<Longrightarrow> n \<le> m \<Longrightarrow> bag_ok m M"
  unfolding bag_ok_def by (meson le_trans)

lemma bag_ok_sub: "bag_ok n (M + N) \<Longrightarrow> bag_ok n M"
  by (auto simp: bag_ok_def dest: at_most_one_sub)

lemma bag_ok_drop: "bag_ok n (add_mset e M) \<Longrightarrow> bag_ok n M"
  using bag_ok_sub [of n M "{#e#}"] by simp

text \<open>Replacing an entry by one with the same key.\<close>

lemma bag_ok_replace:
  assumes "bag_ok n (add_mset e M)" and "se_hash e' = se_hash e" and "n \<le> m" and "se_access e' \<le> m"
    and "se_tail e' \<and> se_session e' \<noteq> 0 \<Longrightarrow>
           se_tail e \<and> se_session e = se_session e' \<or> (\<forall>x \<in># M. \<not> (se_tail x \<and> se_session x = se_session e'))"
  shows "bag_ok m (add_mset e' M)"
proof -
  have 1: "at_most_one (\<lambda>x. se_hash x = h) (add_mset e' M)" for h
    using assms(1,2) by (auto simp: bag_ok_def at_most_one_add split: if_splits)
  have 2: "at_most_one (\<lambda>x. se_tail x \<and> se_session x = ses) (add_mset e' M)" if "ses \<noteq> 0" for ses
  proof (cases "se_tail e' \<and> se_session e' = ses")
    case True
    have a: "at_most_one (\<lambda>x. se_tail x \<and> se_session x = ses) (add_mset e M)"
      using assms(1) that by (simp add: bag_ok_def)
    have "\<forall>x \<in># M. \<not> (se_tail x \<and> se_session x = ses)"
      using assms(5) True that a by (cases "se_tail e \<and> se_session e = ses") (auto simp: at_most_one_add)
    then show ?thesis by (intro at_most_one_addT) auto
  next
    case False
    have "at_most_one (\<lambda>x. se_tail x \<and> se_session x = ses) M"
      using bag_ok_drop [OF assms(1)] that by (simp add: bag_ok_def)
    with False show ?thesis by (rule at_most_one_addF)
  qed
  have 3: "se_access x \<le> m" if "x \<in># add_mset e' M" for x
    using assms(1,3,4) that by (auto simp: bag_ok_def intro: le_trans)
  show ?thesis using 1 2 3 by (simp add: bag_ok_def)
qed

lemma bag_ok_add:
  assumes "bag_ok n M" and "\<forall>x \<in># M. se_hash x \<noteq> se_hash e" and "n \<le> m" and "se_access e \<le> m"
    and "se_tail e \<and> se_session e \<noteq> 0 \<Longrightarrow> \<forall>x \<in># M. \<not> (se_tail x \<and> se_session x = se_session e)"
  shows "bag_ok m (add_mset e M)"
proof -
  have 1: "at_most_one (\<lambda>x. se_hash x = h) (add_mset e M)" for h
    using assms(1,2) by (auto simp: bag_ok_def at_most_one_add)
  have 2: "at_most_one (\<lambda>x. se_tail x \<and> se_session x = ses) (add_mset e M)" if "ses \<noteq> 0" for ses
  proof (cases "se_tail e \<and> se_session e = ses")
    case True
    then have "\<forall>x \<in># M. \<not> (se_tail x \<and> se_session x = ses)" using assms(5) that by simp
    then show ?thesis by (intro at_most_one_addT) auto
  next
    case False
    moreover have "at_most_one (\<lambda>x. se_tail x \<and> se_session x = ses) M" using assms(1) that by (simp add: bag_ok_def)
    ultimately show ?thesis by (rule at_most_one_addF)
  qed
  have 3: "se_access x \<le> m" if "x \<in># add_mset e M" for x
    using assms(1,3,4) that by (auto simp: bag_ok_def intro: le_trans)
  show ?thesis using 1 2 3 by (simp add: bag_ok_def)
qed

subsection \<open>Insertion\<close>

lemma si_update_sel [simp]:
  "si_entries (si_update i f s) = (si_entries s)[i := f (si_entries s ! i)]"
  "si_access (si_update i f s) = si_access s"
  "si_stats (si_update i f s) = si_stats s"
  "si_last_session (si_update i f s) = si_last_session s"
  "si_evictions (si_update i f s) = si_evictions s"
  by (simp_all add: si_update_def)

lemma si_put_cases:
  assumes "si_put h slot ses tok tail sib cs s = (old, s')"
  obtains
    (over) e N where "e \<in># si_bag s" "se_hash e = h" "si_bag s = add_mset e N" "old = freeable_slot e"
      "si_bag s' = add_mset (snap_overwrite slot ses tok tail sib (si_access s + 1) e) N"
      "si_access s' = si_access s + 1"
  | (fresh) "\<forall>e \<in># si_bag s. se_hash e \<noteq> h" "old = None" "si_access s' = si_access s + 1"
      "si_bag s' = add_mset \<lparr> se_id = slot, se_session = ses, se_tokens = tok, se_hash = h,
          se_access = si_access s + 1, se_tiered = False, se_tail = tail, se_sibling = sib \<rparr> (si_bag s)"
proof (cases "si_entry_for h s")
  case None
  then have "\<forall>e \<in># si_bag s. se_hash e \<noteq> h" by (simp add: si_entry_for_def position_None)
  moreover have "old = None" "si_access s' = si_access s + 1"
    "si_entries s' = vec_push (si_entries s) \<lparr> se_id = slot, se_session = ses, se_tokens = tok, se_hash = h,
          se_access = si_access s + 1, se_tiered = False, se_tail = tail, se_sibling = sib \<rparr>"
    using assms None by (auto simp: si_put_def Let_def)
  ultimately show ?thesis using fresh by simp
next
  case (Some i)
  then have i: "i < length (si_entries s)" "se_hash (si_entries s ! i) = h"
    by (auto simp: si_entry_for_def dest: position_Some)
  obtain N where N: "si_bag s = add_mset (si_entries s ! i) N"
    "\<And>x. mset ((si_entries s)[i := x]) = add_mset x N" using bag_update [OF i(1)] by blast
  have "si_entries s ! i \<in># si_bag s" using i by simp
  moreover have "old = freeable_slot (si_entries s ! i)" "si_access s' = si_access s + 1"
    "si_entries s' = (si_entries s)[i := snap_overwrite slot ses tok tail sib (si_access s + 1) (si_entries s ! i)]"
    using assms Some by (auto simp: si_put_def Let_def)
  ultimately show ?thesis using over [of "si_entries s ! i" N] i N by simp
qed

definition opt_bag :: "nat option \<Rightarrow> nat multiset" where
  "opt_bag r = (case r of Some x \<Rightarrow> {#x#} | None \<Rightarrow> {#})"

lemma opt_bag_simps [simp]: "opt_bag None = {#}" "opt_bag (Some x) = {#x#}"
  by (simp_all add: opt_bag_def)

lemma si_put_ledger:
  assumes "si_put h slot ses tok tail sib cs s = (old, s')"
  shows "resident (si_bag s') + opt_bag old = add_mset slot (resident (si_bag s))"
  using assms
proof (cases rule: si_put_cases)
  case (over e N)
  then show ?thesis by (simp add: snap_overwrite_def freeable_slot_def)
next
  case fresh
  then show ?thesis by simp
qed

lemma si_put_ok:
  assumes "si_put h slot ses tok tail sib cs s = (old, s')" and "si_ok s"
    and "tail \<and> ses \<noteq> 0 \<Longrightarrow> \<forall>x \<in># si_bag s. \<not> (se_tail x \<and> se_session x = ses)"
  shows "si_ok s'"
  using assms(1)
proof (cases rule: si_put_cases)
  case (over e N)
  have ok: "bag_ok (si_access s) (add_mset e N)" using assms(2) over(3) by (simp add: si_ok_def)
  have "bag_ok (si_access s + 1) (add_mset (snap_overwrite slot ses tok tail sib (si_access s + 1) e) N)"
    using assms(3) over(3) by (intro bag_ok_replace [OF ok]) (auto simp: snap_overwrite_def)
  then show ?thesis using over by (simp add: si_ok_def)
next
  case fresh
  have "bag_ok (si_access s + 1) (add_mset \<lparr> se_id = slot, se_session = ses, se_tokens = tok, se_hash = h,
          se_access = si_access s + 1, se_tiered = False, se_tail = tail, se_sibling = sib \<rparr> (si_bag s))"
    using assms(2,3) fresh(1) by (intro bag_ok_add [of "si_access s"]) (auto simp: si_ok_def)
  then show ?thesis using fresh by (simp add: si_ok_def)
qed

definition snap_swept :: "u64w \<Rightarrow> snap_entry \<Rightarrow> bool" where
  "snap_swept ses e \<longleftrightarrow> (se_tail e \<or> se_sibling e) \<and> se_session e = ses"

lemma snap_sweep_spec:
  "(\<forall>k < i. k < length es \<longrightarrow> \<not> snap_swept ses (es ! k)) \<Longrightarrow>
   \<exists>R. mset es = mset (fst (snap_sweep ses i es d)) + R
     \<and> (\<forall>e \<in># R. snap_swept ses e)
     \<and> mset (snd (snap_sweep ses i es d)) = mset d + resident R
     \<and> (\<forall>e \<in> set (fst (snap_sweep ses i es d)). \<not> snap_swept ses e)"
proof (induction ses i es d rule: snap_sweep.induct)
  case (1 ses i es d)
  let ?es = "vec_swap_remove es i"
  let ?d = "d @ (case freeable_slot (es ! i) of Some s \<Rightarrow> [s] | None \<Rightarrow> [])"
  consider (stop) "\<not> i < length es" | (sweep) "i < length es" "snap_swept ses (es ! i)"
    | (keep) "i < length es" "\<not> snap_swept ses (es ! i)" by blast
  then show ?case
  proof cases
    case stop
    then have "\<forall>e \<in> set es. \<not> snap_swept ses e" using 1(3) by (metis in_set_conv_nth not_less order_less_le_trans)
    with stop show ?thesis by (intro exI [of _ "{#}"]) (simp add: snap_sweep.simps)
  next
    case sweep
    have pre: "\<forall>k < i. k < length ?es \<longrightarrow> \<not> snap_swept ses (?es ! k)"
      using 1(3) sweep(1) by (auto simp: vec_swap_remove_def nth_butlast)
    have eq: "snap_sweep ses i es d = snap_sweep ses i ?es ?d"
      using sweep by (subst snap_sweep.simps) (simp add: snap_swept_def)
    from 1(1) [OF sweep(1) _ pre] sweep(2) obtain R where R:
      "mset ?es = mset (fst (snap_sweep ses i ?es ?d)) + R" "\<forall>e \<in># R. snap_swept ses e"
      "mset (snd (snap_sweep ses i ?es ?d)) = mset ?d + resident R"
      "\<forall>e \<in> set (fst (snap_sweep ses i ?es ?d)). \<not> snap_swept ses e" by (auto simp: snap_swept_def)
    have "mset ?d = mset d + resident {#es ! i#}" by (simp add: freeable_slot_def)
    moreover have "mset es = add_mset (es ! i) (mset ?es)" by (rule bag_drop [OF sweep(1)])
    ultimately show ?thesis unfolding eq using R sweep(2)
      by (intro exI [of _ "add_mset (es ! i) R"]) (auto simp: ac_simps)
  next
    case keep
    have pre: "\<forall>k < Suc i. k < length es \<longrightarrow> \<not> snap_swept ses (es ! k)"
      using 1(3) keep(2) by (auto simp: less_Suc_eq)
    have eq: "snap_sweep ses i es d = snap_sweep ses (Suc i) es d"
      using keep by (subst snap_sweep.simps) (auto simp: snap_swept_def)
    show ?thesis unfolding eq using 1(2) [OF keep(1) _ pre] keep(2) by (simp add: snap_swept_def)
  qed
qed

lemma si_insert_tail_cases:
  assumes "si_insert_tail h slot ses tok s = (out, s')"
  obtains s1 old R where "si_put h slot ses tok True False False s1 = (old, s')"
    "si_access s1 = si_access s" "si_bag s = si_bag s1 + R"
    "mset out = resident R + opt_bag old"
    "ses \<noteq> 0 \<longrightarrow> (\<forall>x \<in># si_bag s1. \<not> (se_tail x \<and> se_session x = ses))"
    "\<forall>x \<in># R. snap_swept ses x"
proof -
  define p where "p = (if ses \<noteq> 0 then snap_sweep ses 0 (si_entries s) [] else (si_entries s, []))"
  define s1 where "s1 = s\<lparr> si_entries := fst p \<rparr>"
  obtain old s2 where put: "si_put h slot ses tok True False False s1 = (old, s2)" by fastforce
  have out: "out = snd p @ (case old of Some x \<Rightarrow> [x] | None \<Rightarrow> [])" "s2 = s'"
    using assms put unfolding si_insert_tail_def p_def [symmetric] s1_def by (auto simp: split_beta Let_def)
  have "\<exists>R. mset (si_entries s) = mset (fst p) + R \<and> (\<forall>e \<in># R. snap_swept ses e)
     \<and> mset (snd p) = resident R \<and> (ses \<noteq> 0 \<longrightarrow> (\<forall>e \<in> set (fst p). \<not> snap_swept ses e))"
  proof (cases "ses = 0")
    case True
    then show ?thesis by (intro exI [of _ "{#}"]) (simp add: p_def)
  next
    case False
    then show ?thesis using snap_sweep_spec [of 0 "si_entries s" ses "[]"] by (simp add: p_def)
  qed
  then obtain R where R: "si_bag s = si_bag s1 + R" "\<forall>e \<in># R. snap_swept ses e" "mset (snd p) = resident R"
    "ses \<noteq> 0 \<longrightarrow> (\<forall>e \<in># si_bag s1. \<not> snap_swept ses e)" by (auto simp: s1_def)
  show ?thesis
  proof (rule that [of s1 old R])
    show "mset out = resident R + opt_bag old" using out R(3) by (cases old) auto
    show "ses \<noteq> 0 \<longrightarrow> (\<forall>x \<in># si_bag s1. \<not> (se_tail x \<and> se_session x = ses))"
      using R(4) by (auto simp: snap_swept_def)
  qed (use put out R in \<open>auto simp: s1_def\<close>)
qed

lemma si_insert_tail_ok:
  assumes "si_insert_tail h slot ses tok s = (out, s')" and "si_ok s"
  shows "si_ok s'" and "resident (si_bag s') + mset out = add_mset slot (resident (si_bag s))"
proof -
  obtain s1 old R where put: "si_put h slot ses tok True False False s1 = (old, s')"
    and s1: "si_access s1 = si_access s" "si_bag s = si_bag s1 + R" "mset out = resident R + opt_bag old"
    and no: "ses \<noteq> 0 \<longrightarrow> (\<forall>x \<in># si_bag s1. \<not> (se_tail x \<and> se_session x = ses))"
    and "\<forall>x \<in># R. snap_swept ses x"
    by (rule si_insert_tail_cases [OF assms(1)])
  have "si_ok s1" using assms(2) s1(1,2) unfolding si_ok_def by (metis bag_ok_sub)
  then show "si_ok s'" using si_put_ok [OF put] no by blast
  show "resident (si_bag s') + mset out = add_mset slot (resident (si_bag s))"
    using si_put_ledger [OF put] s1(2,3) by (simp add: ac_simps)
qed

subsection \<open>Eviction and the spill tier\<close>

lemma si_drop_bag: "i < length (si_entries s) \<Longrightarrow> si_bag s = add_mset (si_entries s ! i) (si_bag (si_drop i s))"
  by (simp add: si_drop_def bag_drop)

lemma si_drop_ok: "i < length (si_entries s) \<Longrightarrow> si_ok s \<Longrightarrow> si_ok (si_drop i s)"
  using si_drop_bag [of i s] bag_ok_drop [of "si_access s" "si_entries s ! i" "si_bag (si_drop i s)"]
  by (simp add: si_ok_def si_drop_def)

lemma si_flag_ok:
  assumes "i < length (si_entries s)" and "si_ok s"
    and "\<And>e. se_hash (f e) = se_hash e" "\<And>e. se_access (f e) = se_access e"
      "\<And>e. se_tail (f e) = se_tail e" "\<And>e. se_session (f e) = se_session e"
  shows "si_ok (si_update i f s)"
proof -
  obtain N where N: "si_bag s = add_mset (si_entries s ! i) N"
    "\<And>x. mset ((si_entries s)[i := x]) = add_mset x N" using bag_update [OF assms(1)] by blast
  have ok: "bag_ok (si_access s) (add_mset (si_entries s ! i) N)" using assms(2) N by (simp add: si_ok_def)
  then have "se_access (si_entries s ! i) \<le> si_access s" by (simp add: bag_ok_def)
  then have "bag_ok (si_access s) (add_mset (f (si_entries s ! i)) N)"
    by (intro bag_ok_replace [OF ok]) (auto simp: assms(3-))
  then show ?thesis using N by (simp add: si_ok_def)
qed

lemma si_touch_ok:
  assumes "i < length (si_entries s)" and "si_ok s"
  shows "si_ok (si_touch i s)" and "resident (si_bag (si_touch i s)) = resident (si_bag s)"
proof -
  obtain N where N: "si_bag s = add_mset (si_entries s ! i) N"
    "\<And>x. mset ((si_entries s)[i := x]) = add_mset x N" using bag_update [OF assms(1)] by blast
  have ok: "bag_ok (si_access s) (add_mset (si_entries s ! i) N)" using assms(2) N by (simp add: si_ok_def)
  have "bag_ok (si_access s + 1) (add_mset ((si_entries s ! i)\<lparr> se_access := si_access s + 1 \<rparr>) N)"
    by (intro bag_ok_replace [OF ok]) auto
  then show "si_ok (si_touch i s)" using N by (simp add: si_ok_def si_touch_def Let_def)
  show "resident (si_bag (si_touch i s)) = resident (si_bag s)" using N by (simp add: si_touch_def Let_def)
qed

text \<open>The scan for a victim: an allowed entry, none allowed being strictly before it.\<close>

definition cmp_order :: "'f f64_ops \<Rightarrow> bool" where
  "cmp_order fo \<longleftrightarrow> (\<forall>a. \<not> f_lt fo a a) \<and> (\<forall>a b c. f_lt fo a b \<longrightarrow> f_lt fo b c \<longrightarrow> f_lt fo a c)"

definition victim_before :: "'f f64_ops \<Rightarrow> (snap_entry \<Rightarrow> nat) \<Rightarrow> (snap_entry \<Rightarrow> 'f) \<Rightarrow> snap_entry \<Rightarrow> nat \<Rightarrow> 'f \<Rightarrow> bool" where
  "victim_before fo fresh score e sf s \<longleftrightarrow> fresh e < sf \<or> fresh e = sf \<and> f_lt fo (score e) s"

definition victim_best :: "'f f64_ops \<Rightarrow> (snap_entry \<Rightarrow> bool) \<Rightarrow> (snap_entry \<Rightarrow> nat) \<Rightarrow> (snap_entry \<Rightarrow> 'f)
    \<Rightarrow> snap_entry list \<Rightarrow> (nat \<times> nat \<times> 'f) option \<Rightarrow> bool" where
  "victim_best fo ok fresh score es v =
    (case v of None \<Rightarrow> \<forall>e \<in> set es. \<not> ok e
     | Some (i, sf, s) \<Rightarrow> i < length es \<and> ok (es ! i) \<and> sf = fresh (es ! i) \<and> s = score (es ! i)
         \<and> (cmp_order fo \<longrightarrow> (\<forall>e \<in> set es. ok e \<longrightarrow> \<not> victim_before fo fresh score e sf s)))"

lemma victim_scan_best:
  "victim_best fo ok fresh score xs v \<Longrightarrow> length xs = i \<Longrightarrow>
     victim_best fo ok fresh score (xs @ es) (victim_scan fo ok fresh score i es v)"
proof (induction fo ok fresh score i es v arbitrary: xs rule: victim_scan.induct)
  case (2 fo ok fresh score i e es v)
  let ?better = "case v of None \<Rightarrow> True | Some (_, vsf, vs) \<Rightarrow> fresh e < vsf \<or> fresh e = vsf \<and> f_lt fo (score e) vs"
  let ?v = "if ok e then if ?better then Some (i, fresh e, score e) else v else v"
  have "victim_best fo ok fresh score (xs @ [e]) ?v"
  proof (cases "ok e \<and> ?better")
    case True
    have "\<not> victim_before fo fresh score x (fresh e) (score e)"
      if "x \<in> set (xs @ [e])" "ok x" "cmp_order fo" for x
    proof -
      note x = that
      show ?thesis
      proof (cases v)
      case None
      then have "x = e" using x(1,2) 2(2) by (auto simp: victim_best_def)
      then show ?thesis using x(3) by (simp add: victim_before_def cmp_order_def)
    next
      case (Some w)
      obtain j vsf vs where w: "w = (j, vsf, vs)" by (cases w)
      consider "x = e" | "x \<in> set xs" using x(1) by auto
      then show ?thesis
      proof cases
        case 1
        then show ?thesis using x(3) by (simp add: victim_before_def cmp_order_def)
      next
        case 2
        then have "\<not> victim_before fo fresh score x vsf vs"
          using \<open>victim_best fo ok fresh score xs v\<close> Some w x(2,3) by (auto simp: victim_best_def)
        then show ?thesis using True x(3) Some w unfolding victim_before_def cmp_order_def
          by (auto simp del: split_paired_All)
      qed
    qed
    qed
    with True 2(3) show ?thesis by (auto simp: victim_best_def nth_append)
  next
    case False
    then have v: "?v = v" by auto
    show ?thesis
    proof (cases v)
      case None
      with False 2(2) show ?thesis by (auto simp: victim_best_def)
    next
      case (Some w)
      obtain j vsf vs where w: "w = (j, vsf, vs)" by (cases w)
      then show ?thesis unfolding v using 2(2) False Some by (auto simp: victim_best_def nth_append victim_before_def)
    qed
  qed
  then have "victim_best fo ok fresh score ((xs @ [e]) @ es) (victim_scan fo ok fresh score (Suc i) es ?v)"
    using 2(3) by (intro 2(1) [unfolded Let_def]) auto
  then show ?case by (simp only: victim_scan.simps Let_def append_assoc append_Cons append_Nil)
qed simp

text \<open>\<open>session_aware_victim\<close>: the leases hold while an unleased entry is eligible.\<close>

definition snap_allowed :: "bool \<Rightarrow> bool \<Rightarrow> snap_index \<Rightarrow> snap_entry \<Rightarrow> bool" where
  "snap_allowed tail_protect skip_tiered s e \<longleftrightarrow> snap_eligible skip_tiered e
     \<and> (snap_leased tail_protect (si_last_session s) e \<longrightarrow>
          (\<forall>x \<in> set (si_entries s). snap_eligible skip_tiered x \<longrightarrow> snap_leased tail_protect (si_last_session s) x))"

definition snap_pool :: "bool \<Rightarrow> snap_index \<Rightarrow> snap_entry list" where
  "snap_pool skip_tiered s = filter (snap_eligible skip_tiered) (si_entries s)"

lemma snap_allowed_ex:
  "x \<in> set (si_entries s) \<Longrightarrow> snap_eligible sk x \<Longrightarrow> \<exists>y \<in> set (si_entries s). snap_allowed tp sk s y"
  unfolding snap_allowed_def by blast

lemma session_aware_victim_eq:
  "session_aware_victim fo alpha tp sk s =
     map_option fst (victim_scan fo (snap_allowed tp sk s) (\<lambda>e. session_fresh (snap_pool sk s) (se_session e))
       (snap_score fo alpha (snap_pool sk s)) 0 (si_entries s) None)"
proof -
  let ?P = "\<lambda>e. snap_eligible sk e \<and> \<not> snap_leased tp (si_last_session s) e"
  have n: "1 \<le> length (filter ?P (si_entries s)) \<longleftrightarrow> (\<exists>x \<in> set (si_entries s). ?P x)"
    unfolding One_nat_def Suc_le_eq length_greater_0_conv filter_empty_conv by blast
  have "(\<lambda>e. snap_eligible sk e \<and> \<not> (snap_leased tp (si_last_session s) e \<and> 1 \<le> length (filter ?P (si_entries s))))
      = snap_allowed tp sk s"
    unfolding n snap_allowed_def by blast
  then show ?thesis unfolding session_aware_victim_def Let_def snap_pool_def by simp
qed

lemma session_aware_victim_best:
  "victim_best fo (snap_allowed tp sk s) (\<lambda>e. session_fresh (snap_pool sk s) (se_session e))
     (snap_score fo alpha (snap_pool sk s)) (si_entries s)
     (victim_scan fo (snap_allowed tp sk s) (\<lambda>e. session_fresh (snap_pool sk s) (se_session e))
       (snap_score fo alpha (snap_pool sk s)) 0 (si_entries s) None)"
  using victim_scan_best [of fo _ _ _ "[]" None 0 "si_entries s"] by (simp add: victim_best_def)

lemma session_aware_victim_None:
  assumes "session_aware_victim fo alpha tp sk s = None"
  shows "\<forall>e \<in> set (si_entries s). \<not> snap_eligible sk e"
  using assms session_aware_victim_best [of fo tp sk s alpha] snap_allowed_ex
  by (fastforce simp: session_aware_victim_eq victim_best_def)

lemma session_aware_victim_Some:
  assumes "session_aware_victim fo alpha tp sk s = Some i"
  shows "i < length (si_entries s)" and "snap_allowed tp sk s (si_entries s ! i)"
    and "cmp_order fo \<Longrightarrow> e \<in> set (si_entries s) \<Longrightarrow> snap_allowed tp sk s e \<Longrightarrow>
      \<not> victim_before fo (\<lambda>e. session_fresh (snap_pool sk s) (se_session e)) (snap_score fo alpha (snap_pool sk s)) e
          (session_fresh (snap_pool sk s) (se_session (si_entries s ! i)))
          (snap_score fo alpha (snap_pool sk s) (si_entries s ! i))"
proof -
  obtain sf sc where v: "victim_scan fo (snap_allowed tp sk s) (\<lambda>e. session_fresh (snap_pool sk s) (se_session e))
       (snap_score fo alpha (snap_pool sk s)) 0 (si_entries s) None = Some (i, sf, sc)"
    using assms by (auto simp: session_aware_victim_eq)
  note b = session_aware_victim_best [of fo tp sk s alpha, unfolded v victim_best_def, simplified]
  show "i < length (si_entries s)" "snap_allowed tp sk s (si_entries s ! i)" using b by simp_all
  show "cmp_order fo \<Longrightarrow> e \<in> set (si_entries s) \<Longrightarrow> snap_allowed tp sk s e \<Longrightarrow>
      \<not> victim_before fo (\<lambda>e. session_fresh (snap_pool sk s) (se_session e)) (snap_score fo alpha (snap_pool sk s)) e
          (session_fresh (snap_pool sk s) (se_session (si_entries s ! i)))
          (snap_score fo alpha (snap_pool sk s) (si_entries s ! i))"
    using b by (elim conjE) (hypsubst, blast)
qed

lemma legacy_scan_Some:
  "legacy_scan k es sc v = Some i \<Longrightarrow>
     v = Some i \<or> k \<le> i \<and> i < k + length es \<and> \<not> se_tiered (es ! (i - k))"
proof (induction k es sc v rule: legacy_scan.induct)
  case (2 k e es sc v)
  have step: "j - k = Suc (j - Suc k)" if "Suc k \<le> j" for j using that by linarith
  show ?case
    using 2 step [of i] by (auto split: if_splits)
qed simp

lemma legacy_scan_None:
  "legacy_scan k es sc v = None \<Longrightarrow> v = None \<and> (\<forall>e \<in> set es. se_tiered e \<or> sc \<le> se_access e)"
  by (induction k es sc v rule: legacy_scan.induct) (auto split: if_splits)

lemma si_count_sel [simp]:
  "si_entries (si_count_eviction s) = si_entries s" "si_access (si_count_eviction s) = si_access s"
  "si_entries (si_age_lease s) = si_entries s" "si_access (si_age_lease s) = si_access s"
  "si_last_session (si_age_lease s) = si_last_session s"
  "si_entries (si_count_lookup s) = si_entries s" "si_access (si_count_lookup s) = si_access s"
  "si_entries (si_count_hit m d s) = si_entries s" "si_access (si_count_hit m d s) = si_access s"
  "si_entries (si_count_miss m s) = si_entries s" "si_access (si_count_miss m s) = si_access s"
  "si_entries (si_renew_lease ses s) = si_entries s" "si_access (si_renew_lease ses s) = si_access s"
  "si_entries (si_drop i s) = vec_swap_remove (si_entries s) i" "si_access (si_drop i s) = si_access s"
  by (simp_all add: si_count_eviction_def si_age_lease_def si_count_lookup_def si_count_hit_def
      si_count_miss_def si_renew_lease_def si_drop_def)

lemma si_ok_cong: "si_entries s' = si_entries s \<Longrightarrow> si_access s' = si_access s \<Longrightarrow> si_ok s' = si_ok s"
  by (simp add: si_ok_def)

lemma si_evict_lru_cases:
  assumes "si_evict_lru fo cfg s = (r, s')"
  obtains (none) "r = None" "s' = s"
      "(\<forall>e \<in> set (si_entries s). se_tiered e) \<or> sc_legacy cfg \<and> (\<forall>e \<in> set (si_entries s). se_tiered e \<or> U64_MAX \<le> se_access e)"
  | (some) i where "i < length (si_entries s)" "\<not> se_tiered (si_entries s ! i)" "r = Some (se_id (si_entries s ! i))"
      "si_entries s' = vec_swap_remove (si_entries s) i" "si_access s' = si_access s"
      "\<not> sc_legacy cfg \<Longrightarrow> session_aware_victim fo (sc_alpha cfg) (tail_lease_active cfg s) True s = Some i"
proof -
  consider (empty) "si_entries s = []" | (aware) "si_entries s \<noteq> []" "\<not> sc_legacy cfg"
    | (leg) "si_entries s \<noteq> []" "sc_legacy cfg" by blast
  then show ?thesis
  proof cases
    case empty
    with assms none show ?thesis by (simp add: si_evict_lru_def)
  next
    case aware
    show ?thesis
    proof (cases "session_aware_victim fo (sc_alpha cfg) (tail_lease_active cfg s) True s")
      case None
      with session_aware_victim_None [OF None] assms aware none show ?thesis
        by (simp add: si_evict_lru_def snap_eligible_def)
    next
      case (Some i)
      have "\<not> se_tiered (si_entries s ! i)"
        using session_aware_victim_Some(2) [OF Some] by (simp add: snap_allowed_def snap_eligible_def)
      moreover have "r = Some (se_id (si_entries s ! i))" "s' = si_age_lease (si_count_eviction (si_drop i s))"
        using assms aware Some by (simp_all add: si_evict_lru_def)
      ultimately show ?thesis using some [OF session_aware_victim_Some(1) [OF Some]] Some by simp
    qed
  next
    case leg
    show ?thesis
    proof (cases "legacy_scan 0 (si_entries s) U64_MAX None")
      case None
      with legacy_scan_None [OF None] assms leg none show ?thesis by (auto simp: si_evict_lru_def)
    next
      case (Some i)
      have "r = Some (se_id (si_entries s ! i))" "s' = si_count_eviction (si_drop i s)"
        using assms leg Some by (simp_all add: si_evict_lru_def)
      with legacy_scan_Some [OF Some] show ?thesis using some [of i] leg by simp
    qed
  qed
qed

lemma si_evict_to_tier_cases:
  assumes "si_evict_to_tier fo cfg mt s = (r, s')"
  obtains (none) "r = None" "s' = s" "\<forall>e \<in> set (si_entries s). se_tiered e"
  | (some) i where "session_aware_victim fo (sc_alpha cfg) (tail_lease_active cfg s) True s = Some i"
      "i < length (si_entries s)" "\<not> se_tiered (si_entries s ! i)" "si_access s' = si_access s"
      "if 0 < mt \<and> se_tokens (si_entries s ! i) < mt
       then r = Some (Drop (se_id (si_entries s ! i)) (se_tokens (si_entries s ! i)))
            \<and> si_entries s' = vec_swap_remove (si_entries s) i
       else r = Some (Spill (se_id (si_entries s ! i)) (se_hash (si_entries s ! i)) (se_tokens (si_entries s ! i)))
            \<and> si_entries s' = si_entries (si_update i (\<lambda>e. e\<lparr> se_tiered := True \<rparr>) s)"
proof (cases "session_aware_victim fo (sc_alpha cfg) (tail_lease_active cfg s) True s")
  case None
  with session_aware_victim_None [OF None] assms none show ?thesis
    by (cases "si_entries s = []") (simp_all add: si_evict_to_tier_def snap_eligible_def)
next
  case (Some i)
  note i = session_aware_victim_Some(1) [OF Some]
  then have ne: "si_entries s \<noteq> []" by auto
  have "\<not> se_tiered (si_entries s ! i)"
    using session_aware_victim_Some(2) [OF Some] by (simp add: snap_allowed_def snap_eligible_def)
  then show ?thesis using some [OF Some i] assms Some ne
    by (cases "0 < mt \<and> se_tokens (si_entries s ! i) < mt") (auto simp: si_evict_to_tier_def Let_def)
qed

definition evict_slot :: "tier_evict \<Rightarrow> nat" where
  "evict_slot t = (case t of Spill slot _ _ \<Rightarrow> slot | Drop slot _ \<Rightarrow> slot)"

lemma si_evict_lru_ok:
  assumes "si_evict_lru fo cfg s = (r, s')" and "si_ok s"
  shows "si_ok s'" and "resident (si_bag s') + opt_bag r = resident (si_bag s)"
proof -
  have "si_ok s' \<and> resident (si_bag s') + opt_bag r = resident (si_bag s)"
    using assms(1)
  proof (cases rule: si_evict_lru_cases)
    case none
    then show ?thesis using assms(2) by simp
  next
    case (some i)
    have "si_ok s'" using si_drop_ok [OF some(1) assms(2)] some(4,5) by (simp add: si_ok_def)
    moreover have "si_bag s = add_mset (si_entries s ! i) (si_bag s')" using bag_drop [OF some(1)] some(4) by simp
    ultimately show ?thesis using some(2,3) by simp
  qed
  then show "si_ok s'" "resident (si_bag s') + opt_bag r = resident (si_bag s)" by simp_all
qed

lemma si_evict_to_tier_ok:
  assumes "si_evict_to_tier fo cfg mt s = (r, s')" and "si_ok s"
  shows "si_ok s'" and "resident (si_bag s') + opt_bag (map_option evict_slot r) = resident (si_bag s)"
proof -
  have "si_ok s' \<and> resident (si_bag s') + opt_bag (map_option evict_slot r) = resident (si_bag s)"
    using assms(1)
  proof (cases rule: si_evict_to_tier_cases)
    case none
    then show ?thesis using assms(2) by simp
  next
    case (some i)
    show ?thesis
    proof (cases "0 < mt \<and> se_tokens (si_entries s ! i) < mt")
      case True
      with some(5) have r: "r = Some (Drop (se_id (si_entries s ! i)) (se_tokens (si_entries s ! i)))"
        and e: "si_entries s' = vec_swap_remove (si_entries s) i" by simp_all
      have "si_ok s'" using si_drop_ok [OF some(2) assms(2)] some(4) e by (simp add: si_ok_def)
      moreover have "si_bag s = add_mset (si_entries s ! i) (si_bag s')" using bag_drop [OF some(2)] e by simp
      ultimately show ?thesis using some(3) r by (simp add: evict_slot_def)
    next
      case False
      with some(5) have r: "r = Some (Spill (se_id (si_entries s ! i)) (se_hash (si_entries s ! i)) (se_tokens (si_entries s ! i)))"
        and e: "si_entries s' = si_entries (si_update i (\<lambda>e. e\<lparr> se_tiered := True \<rparr>) s)" by (simp_all split: if_splits)
      have "si_ok (si_update i (\<lambda>e. e\<lparr> se_tiered := True \<rparr>) s)" using some(2) assms(2) by (rule si_flag_ok) simp_all
      then have ok: "si_ok s'" using e some(4) by (simp add: si_ok_def)
      obtain N where "si_bag s = add_mset (si_entries s ! i) N"
        "\<And>x. mset ((si_entries s)[i := x]) = add_mset x N" using bag_update [OF some(2)] by blast
      then show ?thesis using ok r e some(3) by (simp add: evict_slot_def)
    qed
  qed
  then show "si_ok s'" "resident (si_bag s') + opt_bag (map_option evict_slot r) = resident (si_bag s)" by simp_all
qed

lemma si_forget_ok:
  assumes "si_forget_tiered h s = (b, s')" and "si_ok s"
  shows "si_ok s'" and "resident (si_bag s') = resident (si_bag s)"
proof -
  have "si_ok s' \<and> resident (si_bag s') = resident (si_bag s)"
  proof (cases "position (\<lambda>e. se_hash e = h \<and> se_tiered e) (si_entries s)")
    case None
    then show ?thesis using assms by (simp add: si_forget_tiered_def)
  next
    case (Some i)
    from position_Some [OF Some] have i: "i < length (si_entries s)" "se_tiered (si_entries s ! i)" by simp_all
    have e: "si_entries s' = vec_swap_remove (si_entries s) i" "si_access s' = si_access s"
      using assms(1) Some by (auto simp: si_forget_tiered_def Let_def)
    have "si_ok s'" using si_drop_ok [OF i(1) assms(2)] e by (simp add: si_ok_def)
    moreover have "si_bag s = add_mset (si_entries s ! i) (si_bag s')" using bag_drop [OF i(1)] e by simp
    ultimately show ?thesis using i(2) by simp
  qed
  then show "si_ok s'" "resident (si_bag s') = resident (si_bag s)" by simp_all
qed

text \<open>\<open>promote\<close>: the slot an already resident entry had is replaced, not returned.\<close>

definition promote_lost :: "u64w \<Rightarrow> snap_index \<Rightarrow> nat multiset" where
  "promote_lost h s = (case si_entry_for h s of Some i \<Rightarrow> opt_bag (freeable_slot (si_entries s ! i)) | None \<Rightarrow> {#})"

lemma si_promote_ok:
  assumes "si_promote h slot s = (b, s')" and "si_ok s"
  shows "si_ok s'"
    and "resident (si_bag s') + promote_lost h s = resident (si_bag s) + (if b then {#slot#} else {#})"
proof -
  have "si_ok s' \<and> resident (si_bag s') + promote_lost h s = resident (si_bag s) + (if b then {#slot#} else {#})"
  proof (cases "si_entry_for h s")
    case None
    then show ?thesis using assms by (simp add: si_promote_def promote_lost_def)
  next
    case (Some i)
    then have i: "i < length (si_entries s)" by (auto simp: si_entry_for_def dest: position_Some)
    have b: "b" and e: "si_entries s' = si_entries (si_update i (\<lambda>e. e\<lparr> se_tiered := False, se_id := slot \<rparr>) s)"
      and a: "si_access s' = si_access s" using assms(1) Some by (auto simp: si_promote_def Let_def)
    have "si_ok (si_update i (\<lambda>e. e\<lparr> se_tiered := False, se_id := slot \<rparr>) s)" using i assms(2) by (rule si_flag_ok) simp_all
    then have ok: "si_ok s'" using e a by (simp add: si_ok_def)
    obtain N where "si_bag s = add_mset (si_entries s ! i) N"
      "\<And>x. mset ((si_entries s)[i := x]) = add_mset x N" using bag_update [OF i] by blast
    then show ?thesis using ok b e Some by (simp add: promote_lost_def freeable_slot_def)
  qed
  then show "si_ok s'"
    "resident (si_bag s') + promote_lost h s = resident (si_bag s) + (if b then {#slot#} else {#})" by simp_all
qed

subsection \<open>Lookup\<close>

definition snap_usable :: "bool \<Rightarrow> token list \<Rightarrow> nat \<Rightarrow> u64w \<Rightarrow> u64w \<Rightarrow> snap_entry \<Rightarrow> bool" where
  "snap_usable hermetic tokens matched session adapter e \<longleftrightarrow> se_tokens e \<le> matched
     \<and> \<not> session_gate_blocks e session hermetic
     \<and> hash_token_prefix tokens (se_tokens e) adapter = Some (se_hash e)"

lemma snap_candidate_cases:
  assumes "matched \<le> length tokens"
  shows "snap_candidate hermetic tokens matched session adapter e
       = Some (snap_usable hermetic tokens matched session adapter e)"
  using assms by (auto simp: snap_candidate_def snap_usable_def hash_token_prefix_def Let_def)

definition snap_best :: "(snap_entry \<Rightarrow> bool) \<Rightarrow> snap_entry list \<Rightarrow> (nat \<times> nat) option \<Rightarrow> bool" where
  "snap_best U es r = (case r of None \<Rightarrow> \<forall>e \<in> set es. \<not> U e
     | Some (i, d) \<Rightarrow> i < length es \<and> U (es ! i) \<and> d = se_tokens (es ! i)
         \<and> (\<forall>e \<in> set es. U e \<longrightarrow> se_tokens e \<le> d))"

lemma snap_scan_best:
  "snap_best U xs v \<Longrightarrow> length xs = i \<Longrightarrow>
     \<exists>r. snap_scan (\<lambda>e. Some (U e)) i es v = Some r \<and> snap_best U (xs @ es) r"
proof (induction es arbitrary: xs i v)
  case (Cons e es)
  let ?v = "if U e \<and> (v = None \<or> snd (the v) < se_tokens e) then Some (i, se_tokens e) else v"
  have "snap_best U (xs @ [e]) ?v"
  proof (cases v)
    case None
    then show ?thesis using Cons.prems by (auto simp: snap_best_def nth_append)
  next
    case (Some w)
    obtain j d where w: "w = (j, d)" by (cases w)
    show ?thesis
    proof (cases "U e \<and> d < se_tokens e")
      case True
      then show ?thesis using Cons.prems Some w by (auto simp: snap_best_def nth_append)
    next
      case False
      then show ?thesis using Cons.prems Some w by (auto simp: snap_best_def nth_append)
    qed
  qed
  from Cons.IH [OF this, of "Suc i"] Cons.prems(2)
  show ?case by simp
qed simp

lemma snap_scan_total:
  assumes "\<And>e. P e = Some (U e)"
  obtains r where "snap_scan P 0 es None = Some r" "snap_best U es r"
proof -
  have "P = (\<lambda>e. Some (U e))" using assms by (rule ext)
  moreover have "snap_best U [] None" by (simp add: snap_best_def)
  ultimately show ?thesis using snap_scan_best [of U "[]" None 0 es] that by auto
qed

lemma si_lookup_tiered_cases:
  assumes "matched \<le> length tokens"
  obtains (miss) s' where "si_lookup_tiered hermetic tokens matched session adapter s = Some (None, s')"
      "si_entries s' = si_entries s" "si_access s' = si_access s"
      "\<forall>e \<in> set (si_entries s). \<not> snap_usable hermetic tokens matched session adapter e"
  | (hit) i m s' where "si_lookup_tiered hermetic tokens matched session adapter s = Some (Some m, s')"
      "i < length (si_entries s)" "snap_usable hermetic tokens matched session adapter (si_entries s ! i)"
      "\<forall>e \<in> set (si_entries s). snap_usable hermetic tokens matched session adapter e \<longrightarrow> se_tokens e \<le> se_tokens (si_entries s ! i)"
      "sm_tokens m = se_tokens (si_entries s ! i)" "sm_is_tail m = se_tail (si_entries s ! i)"
      "sm_loc m = (if se_tiered (si_entries s ! i) then Tier (se_hash (si_entries s ! i)) else Hbm (se_id (si_entries s ! i)))"
      "si_entries s' = si_entries (si_touch i s)" "si_access s' = si_access (si_touch i s)"
proof -
  obtain r where r: "snap_scan (snap_candidate hermetic tokens matched session adapter) 0 (si_entries s) None = Some r"
    "snap_best (snap_usable hermetic tokens matched session adapter) (si_entries s) r"
    by (rule snap_scan_total [OF snap_candidate_cases [OF assms]])
  show ?thesis
  proof (cases r)
    case None
    then show ?thesis using miss r by (auto simp: si_lookup_tiered_def Let_def snap_best_def)
  next
    case (Some w)
    obtain i d where w: "w = (i, d)" by (cases w)
    have i: "i < length (si_entries s)" "snap_usable hermetic tokens matched session adapter (si_entries s ! i)"
      "d = se_tokens (si_entries s ! i)"
      "\<forall>e \<in> set (si_entries s). snap_usable hermetic tokens matched session adapter e \<longrightarrow> se_tokens e \<le> d"
      using r(2) Some w by (auto simp: snap_best_def)
    have ut: "(si_entries (si_touch i (si_count_lookup (si_renew_lease session s)))) ! i
        = (si_entries s ! i)\<lparr> se_access := si_access s + 1 \<rparr>"
      using i(1) by (simp add: si_touch_def Let_def)
    have st: "si_entries (si_touch i (si_count_lookup (si_renew_lease session s))) = si_entries (si_touch i s)"
      "si_access (si_touch i (si_count_lookup (si_renew_lease session s))) = si_access (si_touch i s)"
      by (simp_all add: si_touch_def Let_def)
    define e where "e = (si_entries s ! i)\<lparr> se_access := si_access s + 1 \<rparr>"
    have r1: "snap_scan (snap_candidate hermetic tokens matched session adapter) 0
        (si_entries (si_renew_lease session s)) None = Some (Some (i, d))" using r(1) Some w by simp
    obtain s' where L: "si_lookup_tiered hermetic tokens matched session adapter s
        = Some (Some \<lparr> sm_tokens = se_tokens e, sm_loc = (if se_tiered e then Tier (se_hash e) else Hbm (se_id e)),
                      sm_is_tail = se_tail e \<rparr>, s')"
      and s': "si_entries s' = si_entries (si_touch i s)" "si_access s' = si_access (si_touch i s)"
      unfolding si_lookup_tiered_def Let_def r1 option.case prod.case ut e_def [symmetric]
      by (cases "se_tiered e") (simp_all add: st)
    show ?thesis by (rule hit [OF L i(1,2) i(4) [unfolded i(3)] _ _ _ s']) (simp_all add: e_def)
  qed
qed

lemma si_lookup_tiered_ok:
  assumes "matched \<le> length tokens" and "si_ok s"
    and "si_lookup_tiered hermetic tokens matched session adapter s = Some (r, s')"
  shows "si_ok s'" and "resident (si_bag s') = resident (si_bag s)"
proof -
  have "si_ok s' \<and> resident (si_bag s') = resident (si_bag s)"
    using assms(1)
  proof (cases rule: si_lookup_tiered_cases [of matched tokens hermetic session adapter s])
    case (miss t)
    then show ?thesis using assms(2,3) by (simp add: si_ok_def)
  next
    case (hit i m t)
    have "si_ok (si_touch i s)" "resident (si_bag (si_touch i s)) = resident (si_bag s)"
      using si_touch_ok [OF hit(2) assms(2)] by simp_all
    then show ?thesis using hit(1,8,9) assms(3) by (simp add: si_ok_def)
  qed
  then show "si_ok s'" "resident (si_bag s') = resident (si_bag s)" by simp_all
qed

subsection \<open>The ledger of snapshot slots over a run\<close>

text \<open>The calls of the index, with the slots callers hand in and get back. \<open>sl_lost\<close> collects
  the slots a \<open>promote\<close> of an already resident entry replaces. A lookup is made with a matched
  length the tree's walk found, so within the tokens.\<close>

datatype snap_op =
    SInsert u64w nat u64w nat
  | STail u64w nat u64w nat
  | SSibling u64w nat u64w nat
  | SEvictLru
  | SEvictTier nat
  | SPromote u64w nat
  | SForget u64w
  | SLookup "token list" nat u64w u64w

record snap_ledger =
  sl_index :: snap_index
  sl_taken :: "nat multiset"
  sl_returned :: "nat multiset"
  sl_lost :: "nat multiset"

definition snap_step :: "'f f64_ops \<Rightarrow> 'f snap_cfg \<Rightarrow> snap_op \<Rightarrow> snap_ledger \<Rightarrow> snap_ledger option" where
  "snap_step fo cfg c l = (let s = sl_index l in case c of
     SInsert h slot ses tok \<Rightarrow> (let (r, s') = si_insert h slot ses tok s in
       Some (l\<lparr> sl_index := s', sl_taken := add_mset slot (sl_taken l), sl_returned := sl_returned l + opt_bag r \<rparr>))
   | STail h slot ses tok \<Rightarrow> (let (r, s') = si_insert_tail h slot ses tok s in
       Some (l\<lparr> sl_index := s', sl_taken := add_mset slot (sl_taken l), sl_returned := sl_returned l + mset r \<rparr>))
   | SSibling h slot ses tok \<Rightarrow> (let (r, s') = si_insert_tail_sibling h slot ses tok s in
       Some (l\<lparr> sl_index := s', sl_taken := add_mset slot (sl_taken l), sl_returned := sl_returned l + opt_bag r \<rparr>))
   | SEvictLru \<Rightarrow> (let (r, s') = si_evict_lru fo cfg s in
       Some (l\<lparr> sl_index := s', sl_returned := sl_returned l + opt_bag r \<rparr>))
   | SEvictTier mt \<Rightarrow> (let (r, s') = si_evict_to_tier fo cfg mt s in
       Some (l\<lparr> sl_index := s', sl_returned := sl_returned l + opt_bag (map_option evict_slot r) \<rparr>))
   | SPromote h slot \<Rightarrow> (let (b, s') = si_promote h slot s in
       Some (l\<lparr> sl_index := s', sl_taken := sl_taken l + (if b then {#slot#} else {#}),
                sl_lost := sl_lost l + promote_lost h s \<rparr>))
   | SForget h \<Rightarrow> (let (b, s') = si_forget_tiered h s in Some (l\<lparr> sl_index := s' \<rparr>))
   | SLookup tokens matched ses ad \<Rightarrow>
       if matched \<le> length tokens
       then map_option (\<lambda>(r, s'). l\<lparr> sl_index := s' \<rparr>) (si_lookup_tiered (sc_hermetic cfg) tokens matched ses ad s)
       else None)"

definition ledger_new :: snap_ledger where
  "ledger_new = \<lparr> sl_index = si_new, sl_taken = {#}, sl_returned = {#}, sl_lost = {#} \<rparr>"

definition ledger_ok :: "snap_ledger \<Rightarrow> bool" where
  "ledger_ok l \<longleftrightarrow> si_ok (sl_index l)
     \<and> sl_taken l = resident (si_bag (sl_index l)) + sl_returned l + sl_lost l"

lemma ledger_move:
  assumes "ledger_ok l" and "si_ok s'"
    and "resident (si_bag s') + out + lost = resident (si_bag (sl_index l)) + inn"
    and "sl_index l' = s'" "sl_taken l' = sl_taken l + inn" "sl_returned l' = sl_returned l + out"
      "sl_lost l' = sl_lost l + lost"
  shows "ledger_ok l'"
proof -
  have "sl_taken l + inn = (resident (si_bag (sl_index l)) + inn) + sl_returned l + sl_lost l"
    using assms(1) by (simp add: ledger_ok_def ac_simps)
  also have "\<dots> = resident (si_bag s') + (sl_returned l + out) + (sl_lost l + lost)"
    unfolding assms(3) [symmetric] by (simp add: ac_simps)
  finally show ?thesis using assms(2,4-) by (simp add: ledger_ok_def)
qed

lemma snap_step_ok:
  assumes "ledger_ok l" and "snap_step fo cfg c l = Some l'"
  shows "ledger_ok l'"
proof -
  have ok: "si_ok (sl_index l)" using assms(1) by (simp add: ledger_ok_def)
  note move = ledger_move [OF assms(1)]
  show ?thesis
  proof (cases c)
    case (SInsert h slot ses tok)
    obtain r s' where e: "si_put h slot ses tok False False True (sl_index l) = (r, s')" by fastforce
    then show ?thesis using assms(2) SInsert move [of s' "opt_bag r" "{#}" "{#slot#}"]
        si_put_ok [OF e ok] si_put_ledger [OF e] by (auto simp: snap_step_def si_insert_def)
  next
    case (STail h slot ses tok)
    obtain r s' where e: "si_insert_tail h slot ses tok (sl_index l) = (r, s')" by fastforce
    then show ?thesis using assms(2) STail move [of s' "mset r" "{#}" "{#slot#}"]
        si_insert_tail_ok [OF e ok] by (auto simp: snap_step_def)
  next
    case (SSibling h slot ses tok)
    obtain r s' where e: "si_put h slot ses tok False True True (sl_index l) = (r, s')" by fastforce
    then show ?thesis using assms(2) SSibling move [of s' "opt_bag r" "{#}" "{#slot#}"]
        si_put_ok [OF e ok] si_put_ledger [OF e] by (auto simp: snap_step_def si_insert_tail_sibling_def)
  next
    case SEvictLru
    obtain r s' where e: "si_evict_lru fo cfg (sl_index l) = (r, s')" by fastforce
    then show ?thesis using assms(2) SEvictLru move [of s' "opt_bag r" "{#}" "{#}"]
        si_evict_lru_ok [OF e ok] by (auto simp: snap_step_def)
  next
    case (SEvictTier mt)
    obtain r s' where e: "si_evict_to_tier fo cfg mt (sl_index l) = (r, s')" by fastforce
    then show ?thesis using assms(2) SEvictTier move [of s' "opt_bag (map_option evict_slot r)" "{#}" "{#}"]
        si_evict_to_tier_ok [OF e ok] by (auto simp: snap_step_def)
  next
    case (SPromote h slot)
    obtain b s' where e: "si_promote h slot (sl_index l) = (b, s')" by fastforce
    then show ?thesis using assms(2) SPromote
        move [of s' "{#}" "promote_lost h (sl_index l)" "if b then {#slot#} else {#}"]
        si_promote_ok [OF e ok] by (auto simp: snap_step_def)
  next
    case (SForget h)
    obtain b s' where e: "si_forget_tiered h (sl_index l) = (b, s')" by fastforce
    then show ?thesis using assms(2) SForget move [of s' "{#}" "{#}" "{#}"]
        si_forget_ok [OF e ok] by (auto simp: snap_step_def)
  next
    case (SLookup tokens matched ses ad)
    then obtain r s' where e: "si_lookup_tiered (sc_hermetic cfg) tokens matched ses ad (sl_index l) = Some (r, s')"
      and m: "matched \<le> length tokens" and l': "l' = l\<lparr> sl_index := s' \<rparr>"
      using assms(2) by (auto simp: snap_step_def split: if_splits)
    then show ?thesis using move [of s' "{#}" "{#}" "{#}"] si_lookup_tiered_ok [OF m ok e] by simp
  qed
qed

interpretation snap: stepping "snap_step fo cfg" ledger_ok
  by unfold_locales (rule snap_step_ok)

lemma ledger_new_ok: "ledger_ok ledger_new"
  by (simp add: ledger_ok_def ledger_new_def si_ok_def si_new_def bag_ok_def at_most_one_def)

text \<open>C14: Over every sequence of calls from the empty index, each slot handed in is in exactly one
  place: in one resident entry, returned to a caller, or replaced by a promotion of an entry that
  was already resident. At every point a prefix hash has at most one entry and a session at most
  one tail.\<close>

theorem snapshot_slot_ledger:
  assumes "for_each (snap_step fo cfg) ops ledger_new = Some l"
  shows "sl_taken l = resident (mset (si_entries (sl_index l))) + sl_returned l + sl_lost l
    \<and> (\<forall>h. length (filter (\<lambda>e. se_hash e = h) (si_entries (sl_index l))) \<le> 1)
    \<and> (\<forall>ses. ses \<noteq> 0 \<longrightarrow> length (filter (\<lambda>e. se_tail e \<and> se_session e = ses) (si_entries (sl_index l))) \<le> 1)"
proof -
  have l: "ledger_ok l" by (rule snap.run_inv [OF ledger_new_ok assms])
  have len: "length (filter P xs) = size (filter_mset P (mset xs))" for P and xs :: "snap_entry list"
    by (simp flip: mset_filter)
  show ?thesis using l unfolding ledger_ok_def si_ok_def bag_ok_def at_most_one_def len by blast
qed

definition nat_ops :: "nat f64_ops" where
  "nat_ops = \<lparr> f_of_nat = \<lambda>x. x, f_add = (+), f_mul = (*), f_div = (div), f_lt = (<) \<rparr>"

definition test_cfg :: "nat snap_cfg" where
  "test_cfg = \<lparr> sc_lease_enabled = True, sc_lease_ttl = 64, sc_alpha = 0, sc_legacy = False, sc_hermetic = False \<rparr>"

lemma snapshot_slot_ledger_witness:
  "\<exists>l. for_each (snap_step nat_ops test_cfg)
      [STail 11 1 5 3, STail 12 2 5 4, SEvictTier 0, SPromote 12 7] ledger_new = Some l
    \<and> sl_taken l = {#1, 2, 7#} \<and> sl_returned l = {#1, 2#} \<and> sl_lost l = {#}
    \<and> resident (mset (si_entries (sl_index l))) = {#7#}"
proof -
  define r where "r = for_each (snap_step nat_ops test_cfg)
      [STail 11 1 5 3, STail 12 2 5 4, SEvictTier 0, SPromote 12 7] ledger_new"
  have ev: "\<exists>l. r = Some l \<and> sl_taken l = {#1, 2, 7#} \<and> sl_returned l = {#1, 2#} \<and> sl_lost l = {#}"
    unfolding r_def
    by (simp add: snap_step_def ledger_new_def si_new_def zero_snapshot_stats_def si_insert_tail_def si_put_def
        si_entry_for_def snap_sweep.simps vec_swap_remove_def vec_push_def freeable_slot_def evict_slot_def
        si_evict_to_tier_def session_aware_victim_def snap_eligible_def snap_leased_def tail_lease_active_def
        test_cfg_def si_age_lease_def si_update_def si_promote_def promote_lost_def Let_def)
  then obtain l where l: "r = Some l" "sl_taken l = {#1, 2, 7#}" "sl_returned l = {#1, 2#}" "sl_lost l = {#}" by auto
  have "sl_taken l = resident (mset (si_entries (sl_index l))) + sl_returned l + sl_lost l"
    using snapshot_slot_ledger [OF l(1) [unfolded r_def]] by blast
  then have "resident (mset (si_entries (sl_index l))) = {#7#}" using l by simp
  with l show ?thesis unfolding r_def by auto
qed

subsection \<open>Lookup and eviction as seen by a caller\<close>

text \<open>C15: A lookup within the tokens never panics. It returns the depth, place and kind of an entry
  that fits in the matched prefix, whose hash is the hash of that prefix under the adapter, and that
  the session may use, and no usable entry is deeper. It misses only when no entry is usable. A
  session's tail is never returned to another session, nor to a caller without one.\<close>

theorem snapshot_lookup_deepest:
  assumes "matched \<le> length tokens"
  shows "\<exists>r s'. si_lookup_tiered hermetic tokens matched session adapter s = Some (r, s')
    \<and> (case r of
         None \<Rightarrow> \<forall>e \<in> set (si_entries s). \<not> snap_usable hermetic tokens matched session adapter e
       | Some m \<Rightarrow> \<exists>e \<in> set (si_entries s). snap_usable hermetic tokens matched session adapter e
           \<and> sm_tokens m = se_tokens e \<and> sm_is_tail m = se_tail e
           \<and> sm_loc m = (if se_tiered e then Tier (se_hash e) else Hbm (se_id e))
           \<and> (se_tail e \<longrightarrow> session \<noteq> 0 \<and> se_session e = session)
           \<and> (\<forall>x \<in> set (si_entries s). snap_usable hermetic tokens matched session adapter x
                \<longrightarrow> se_tokens x \<le> sm_tokens m))"
  using assms
proof (cases rule: si_lookup_tiered_cases [of matched tokens hermetic session adapter s])
  case (miss s')
  then show ?thesis by auto
next
  case (hit i m s')
  have "se_tail (si_entries s ! i) \<longrightarrow> session \<noteq> 0 \<and> se_session (si_entries s ! i) = session"
    using hit(3) by (auto simp: snap_usable_def session_gate_blocks_def split: if_splits)
  with hit show ?thesis by (auto intro!: bexI [of _ "si_entries s ! i"])
qed

definition test_entry :: "nat \<Rightarrow> u64w \<Rightarrow> nat \<Rightarrow> u64w \<Rightarrow> nat \<Rightarrow> bool \<Rightarrow> snap_entry" where
  "test_entry i ses tok h ac tail = \<lparr> se_id = i, se_session = ses, se_tokens = tok, se_hash = h,
     se_access = ac, se_tiered = False, se_tail = tail, se_sibling = False \<rparr>"

lemma snapshot_lookup_deepest_witness:
  "\<exists>r s'. si_lookup_tiered False [1, 2, 3] 2 0 0
      (si_new\<lparr> si_entries := [test_entry 4 5 1 (fnv_tokens 0xcbf29ce484222325 [1]) 3 False] \<rparr>) = Some (r, s')
    \<and> (\<exists>m. r = Some m \<and> sm_tokens m = 1 \<and> sm_loc m = Hbm 4)"
proof -
  let ?e = "test_entry 4 5 1 (fnv_tokens 0xcbf29ce484222325 [1]) 3 False"
  let ?s = "si_new\<lparr> si_entries := [?e] \<rparr>"
  have u: "snap_usable False [1, 2, 3] 2 0 0 ?e"
    by (simp add: snap_usable_def test_entry_def session_gate_blocks_def hash_token_prefix_def Let_def)
  have m: "(2::nat) \<le> length [1::token, 2, 3]" by simp
  obtain r s' where r: "si_lookup_tiered False [1, 2, 3] 2 0 0 ?s = Some (r, s')"
    "case r of None \<Rightarrow> \<forall>e \<in> set (si_entries ?s). \<not> snap_usable False [1, 2, 3] 2 0 0 e
       | Some m \<Rightarrow> \<exists>e \<in> set (si_entries ?s). snap_usable False [1, 2, 3] 2 0 0 e
           \<and> sm_tokens m = se_tokens e \<and> sm_is_tail m = se_tail e
           \<and> sm_loc m = (if se_tiered e then Tier (se_hash e) else Hbm (se_id e))
           \<and> (se_tail e \<longrightarrow> (0::u64w) \<noteq> 0 \<and> se_session e = 0)
           \<and> (\<forall>x \<in> set (si_entries ?s). snap_usable False [1, 2, 3] 2 0 0 x \<longrightarrow> se_tokens x \<le> sm_tokens m)"
    using snapshot_lookup_deepest [OF m, of False 0 0 ?s] by blast
  obtain m where m: "r = Some m" using r(2) u by (cases r) auto
  with r(2) have "sm_tokens m = 1 \<and> sm_loc m = Hbm 4" by (simp add: test_entry_def)
  with r(1) m show ?thesis by blast
qed

text \<open>C16: Eviction to the tier frees a resident slot whenever there is one. The victim is a leased
  tail or sibling of the session that looked up last only if every resident entry is. Among the
  entries allowed, none has a staler session, or an equally stale one and a lower score, for every
  arithmetic whose comparison is irreflexive and transitive. A victim shallower than the depth
  gate is dropped; any other stays findable under its hash as a spilled entry.\<close>

theorem snapshot_victim_choice:
  assumes "cmp_order fo" and "x \<in> set (si_entries s)" and "\<not> se_tiered x"
    and "si_evict_to_tier fo cfg min_tokens s = (r, s')"
  shows "\<exists>e \<in> set (si_entries s). \<not> se_tiered e
    \<and> r = Some (if 0 < min_tokens \<and> se_tokens e < min_tokens then Drop (se_id e) (se_tokens e)
                else Spill (se_id e) (se_hash e) (se_tokens e))
    \<and> (if 0 < min_tokens \<and> se_tokens e < min_tokens
       then add_mset e (mset (si_entries s')) = mset (si_entries s)
       else add_mset e (mset (si_entries s')) = add_mset (e\<lparr> se_tiered := True \<rparr>) (mset (si_entries s)))
    \<and> (snap_leased (tail_lease_active cfg s) (si_last_session s) e \<longrightarrow>
         (\<forall>y \<in> set (si_entries s). \<not> se_tiered y \<longrightarrow> snap_leased (tail_lease_active cfg s) (si_last_session s) y))
    \<and> (\<forall>y \<in> set (si_entries s). snap_allowed (tail_lease_active cfg s) True s y \<longrightarrow>
         session_fresh (snap_pool True s) (se_session e) \<le> session_fresh (snap_pool True s) (se_session y)
         \<and> (session_fresh (snap_pool True s) (se_session e) = session_fresh (snap_pool True s) (se_session y) \<longrightarrow>
              \<not> f_lt fo (snap_score fo (sc_alpha cfg) (snap_pool True s) y) (snap_score fo (sc_alpha cfg) (snap_pool True s) e)))"
  using assms(4)
proof (cases rule: si_evict_to_tier_cases)
  case none
  with assms(2,3) show ?thesis by blast
next
  case (some i)
  let ?e = "si_entries s ! i"
  obtain N where N: "mset (si_entries s) = add_mset ?e N" "\<And>x. mset ((si_entries s)[i := x]) = add_mset x N"
    using bag_update [OF some(2)] by blast
  have r: "r = Some (if 0 < min_tokens \<and> se_tokens ?e < min_tokens then Drop (se_id ?e) (se_tokens ?e)
                else Spill (se_id ?e) (se_hash ?e) (se_tokens ?e))"
    and bag: "if 0 < min_tokens \<and> se_tokens ?e < min_tokens
       then add_mset ?e (mset (si_entries s')) = mset (si_entries s)
       else add_mset ?e (mset (si_entries s')) = add_mset (?e\<lparr> se_tiered := True \<rparr>) (mset (si_entries s))"
    using some(5) bag_drop [OF some(2)] N by (auto split: if_splits)
  have al: "snap_leased (tail_lease_active cfg s) (si_last_session s) ?e \<longrightarrow>
         (\<forall>y \<in> set (si_entries s). \<not> se_tiered y \<longrightarrow> snap_leased (tail_lease_active cfg s) (si_last_session s) y)"
    using session_aware_victim_Some(2) [OF some(1)] by (simp add: snap_allowed_def snap_eligible_def)
  have best: "session_fresh (snap_pool True s) (se_session ?e) \<le> session_fresh (snap_pool True s) (se_session y)
         \<and> (session_fresh (snap_pool True s) (se_session ?e) = session_fresh (snap_pool True s) (se_session y) \<longrightarrow>
              \<not> f_lt fo (snap_score fo (sc_alpha cfg) (snap_pool True s) y) (snap_score fo (sc_alpha cfg) (snap_pool True s) ?e))"
    if "y \<in> set (si_entries s)" "snap_allowed (tail_lease_active cfg s) True s y" for y
    using session_aware_victim_Some(3) [OF some(1) assms(1) that] by (auto simp: victim_before_def)
  show ?thesis using r bag al best some(2,3) by (intro bexI [of _ ?e]) auto
qed

lemma snapshot_victim_choice_witness:
  "\<exists>r s'. si_evict_to_tier nat_ops test_cfg 2
      (si_new\<lparr> si_entries := [test_entry 4 5 1 9 3 False, test_entry 6 7 2 8 2 False] \<rparr>) = (r, s')
    \<and> r \<noteq> None"
proof -
  let ?s = "si_new\<lparr> si_entries := [test_entry 4 5 1 9 3 False, test_entry 6 7 2 8 2 False] \<rparr>"
  obtain r s' where r: "si_evict_to_tier nat_ops test_cfg 2 ?s = (r, s')" by fastforce
  have o: "cmp_order nat_ops" by (auto simp: cmp_order_def nat_ops_def)
  have x: "test_entry 4 5 1 9 3 False \<in> set (si_entries ?s)" "\<not> se_tiered (test_entry 4 5 1 9 3 False)"
    by (simp_all add: test_entry_def)
  from snapshot_victim_choice [OF o x r] have "r \<noteq> None" by blast
  with r show ?thesis by blast
qed

end
