(* ===== verification/Residency.thy ===== *)
theory Residency
  imports Prelude
begin

text \<open>
  \<open>Residency\<close> (crates/storage/src/tier/residency.rs): the page table from a key to a hot arena
  slot or a cold store record, evicting the least recently used resident to the store. The two
  traits \<open>SlotArena\<close> and \<open>SwapStore\<close> (tier/traits.rs) are records of functions, so that a
  theorem about the page table covers every arena and every store, failing ones included: a write
  returns the error, if any, and the state it leaves behind.

  The scratch buffer is not modelled: every move overwrites it in full before reading it. The
  counters of \<open>SwapStats\<close> and the read-pin counts are naturals.
\<close>

subsection \<open>The traits\<close>

record 'a arena_ops =
  slot_bytes :: "'a \<Rightarrow> nat"
  num_slots :: "'a \<Rightarrow> nat"
  read_slot :: "'a \<Rightarrow> nat \<Rightarrow> string + byte list"
  write_slot :: "'a \<Rightarrow> nat \<Rightarrow> byte list \<Rightarrow> string option \<times> 'a"

record 's store_ops =
  record_bytes :: "'s \<Rightarrow> nat"
  read_record :: "'s \<Rightarrow> nat \<Rightarrow> string + byte list"
  write_record :: "'s \<Rightarrow> nat \<Rightarrow> byte list \<Rightarrow> string option \<times> 's"
  discard_record :: "'s \<Rightarrow> nat \<Rightarrow> 's"

record swap_stats =
  st_puts :: nat
  st_gets :: nat
  st_get_miss :: nat
  st_spills_to_disk :: nat
  st_faults_from_disk :: nat
  st_resident_hits :: nat
  st_disk_evictions :: nat

subsection \<open>State\<close>

datatype loc = Reserved nat | Resident nat | OnDisk nat

record ('a, 's) residency =
  rs_arena :: 'a
  rs_swap :: 's
  rs_blob_bytes :: nat
  rs_map :: "u64w \<rightharpoonup> loc"
  rs_free_slots :: "nat list"
  rs_lru :: "u64w list"
  rs_disk_lru :: "u64w list"
  rs_max_disk_slots :: nat
  rs_free_disk :: "nat list"
  rs_next_disk :: nat
  rs_read_pins :: "u64w \<rightharpoonup> nat"
  rs_stats :: swap_stats

definition zero_stats :: swap_stats where
  "zero_stats = \<lparr> st_puts = 0, st_gets = 0, st_get_miss = 0, st_spills_to_disk = 0,
     st_faults_from_disk = 0, st_resident_hits = 0, st_disk_evictions = 0 \<rparr>"

definition rs_new_capped ::
  "'a arena_ops \<Rightarrow> 's store_ops \<Rightarrow> 'a \<Rightarrow> 's \<Rightarrow> nat \<Rightarrow> string + ('a, 's) residency" where
  "rs_new_capped ao so arena swap max_disk_slots =
    (let blob_bytes = slot_bytes ao arena in
     if blob_bytes = 0 then Inl ''Residency: slot_bytes must be > 0''
     else if record_bytes so swap \<noteq> blob_bytes
     then Inl ''Residency: arena slot and swap record sizes differ''
     else
       (let n = num_slots ao arena in
        if n = 0 then Inl ''Residency: arena must have >= 1 slot''
        else Inr \<lparr> rs_arena = arena, rs_swap = swap, rs_blob_bytes = blob_bytes,
               rs_map = Map.empty, rs_free_slots = rev [0..<n], rs_lru = [], rs_disk_lru = [],
               rs_max_disk_slots = max_disk_slots, rs_free_disk = [], rs_next_disk = 0,
               rs_read_pins = Map.empty, rs_stats = zero_stats \<rparr>))"

definition rs_new :: "'a arena_ops \<Rightarrow> 's store_ops \<Rightarrow> 'a \<Rightarrow> 's \<Rightarrow> string + ('a, 's) residency" where
  "rs_new ao so arena swap = rs_new_capped ao so arena swap 0"

definition rs_slot_offset :: "('a, 's) residency \<Rightarrow> nat \<Rightarrow> nat" where
  "rs_slot_offset r slot = slot * rs_blob_bytes r"

subsection \<open>The two queues and the record allocator\<close>

definition rs_disk_lru_remove :: "u64w \<Rightarrow> ('a, 's) residency \<Rightarrow> ('a, 's) residency" where
  "rs_disk_lru_remove key r = r\<lparr> rs_disk_lru := remove1 key (rs_disk_lru r) \<rparr>"

definition rs_lru_remove :: "u64w \<Rightarrow> ('a, 's) residency \<Rightarrow> ('a, 's) residency" where
  "rs_lru_remove key r = r\<lparr> rs_lru := remove1 key (rs_lru r) \<rparr>"

definition rs_lru_touch :: "u64w \<Rightarrow> ('a, 's) residency \<Rightarrow> ('a, 's) residency" where
  "rs_lru_touch key r =
    (let r1 = rs_lru_remove key r in r1\<lparr> rs_lru := rs_lru r1 @ [key] \<rparr>)"

definition rs_alloc_disk_slot :: "('a, 's) residency \<Rightarrow> nat \<times> ('a, 's) residency" where
  "rs_alloc_disk_slot r =
    (case vec_pop (rs_free_disk r) of
       Some (d, rest) \<Rightarrow> (d, r\<lparr> rs_free_disk := rest \<rparr>)
     | None \<Rightarrow> (rs_next_disk r, r\<lparr> rs_next_disk := rs_next_disk r + 1 \<rparr>))"

text \<open>One turn of the loop of \<open>make_disk_room\<close>: drop the coldest on-disk key.\<close>

definition rs_drop_cold :: "'s store_ops \<Rightarrow> u64w \<Rightarrow> u64w list \<Rightarrow> ('a, 's) residency \<Rightarrow> ('a, 's) residency"
where
  "rs_drop_cold so cold rest r =
    (let r1 = r\<lparr> rs_disk_lru := rest, rs_map := (rs_map r)(cold := None) \<rparr> in
     case rs_map r cold of
       Some (OnDisk ds) \<Rightarrow>
         r1\<lparr> rs_free_disk := vec_push (rs_free_disk r) ds,
             rs_swap := discard_record so (rs_swap r) ds,
             rs_stats := (rs_stats r)\<lparr> st_disk_evictions := st_disk_evictions (rs_stats r) + 1 \<rparr> \<rparr>
     | _ \<Rightarrow> r1)"

lemma rs_drop_cold_frame [simp]:
  "rs_disk_lru (rs_drop_cold so cold rest r) = rest"
  "rs_max_disk_slots (rs_drop_cold so cold rest r) = rs_max_disk_slots r"
  "rs_arena (rs_drop_cold so cold rest r) = rs_arena r"
  "rs_blob_bytes (rs_drop_cold so cold rest r) = rs_blob_bytes r"
  "rs_free_slots (rs_drop_cold so cold rest r) = rs_free_slots r"
  "rs_lru (rs_drop_cold so cold rest r) = rs_lru r"
  "rs_next_disk (rs_drop_cold so cold rest r) = rs_next_disk r"
  "rs_read_pins (rs_drop_cold so cold rest r) = rs_read_pins r"
  "rs_map (rs_drop_cold so cold rest r) = (rs_map r)(cold := None)"
  by (simp_all add: rs_drop_cold_def Let_def split: option.split loc.split)

function rs_make_room_loop :: "'s store_ops \<Rightarrow> ('a, 's) residency \<Rightarrow> ('a, 's) residency" where
  "rs_make_room_loop so r =
    (if rs_max_disk_slots r \<le> length (rs_disk_lru r) then
       (case rs_disk_lru r of
          [] \<Rightarrow> r
        | cold # rest \<Rightarrow> rs_make_room_loop so (rs_drop_cold so cold rest r))
     else r)"
  by pat_completeness auto
termination
  by (relation "measure (\<lambda>(so, r). length (rs_disk_lru r))") auto

declare rs_make_room_loop.simps [simp del]

definition rs_make_disk_room :: "'s store_ops \<Rightarrow> ('a, 's) residency \<Rightarrow> ('a, 's) residency" where
  "rs_make_disk_room so r = (if rs_max_disk_slots r = 0 then r else rs_make_room_loop so r)"

subsection \<open>Spilling and acquiring a slot\<close>

definition rs_evict_coldest_to_disk ::
  "'a arena_ops \<Rightarrow> 's store_ops \<Rightarrow> ('a, 's) residency \<Rightarrow> (string + nat) \<times> ('a, 's) residency" where
  "rs_evict_coldest_to_disk ao so r =
    (case rs_lru r of
       [] \<Rightarrow> (Inl ''Residency: arena exhausted'', r)
     | victim # lru' \<Rightarrow>
         (let r0 = r\<lparr> rs_lru := lru' \<rparr> in
          case rs_map r victim of
            Some (Resident slot) \<Rightarrow>
              (let r1 = rs_make_disk_room so r0;
                   (disk_slot, r2) = rs_alloc_disk_slot r1;
                   (err, r3) =
                     (case read_slot ao (rs_arena r2) slot of
                        Inl e \<Rightarrow> (Some e, r2)
                      | Inr buf \<Rightarrow>
                          (let (w, swap') = write_record so (rs_swap r2) disk_slot buf
                           in (w, r2\<lparr> rs_swap := swap' \<rparr>)))
               in case err of
                    Some e \<Rightarrow>
                      (Inl e, r3\<lparr> rs_free_disk := vec_push (rs_free_disk r3) disk_slot,
                                  rs_lru := victim # rs_lru r3 \<rparr>)
                  | None \<Rightarrow>
                      (Inr slot,
                       r3\<lparr> rs_map := (rs_map r3)(victim \<mapsto> OnDisk disk_slot),
                           rs_disk_lru := rs_disk_lru r3 @ [victim],
                           rs_stats := (rs_stats r3)\<lparr> st_spills_to_disk :=
                             st_spills_to_disk (rs_stats r3) + 1 \<rparr> \<rparr>))
          | _ \<Rightarrow> (Inl ''LRU/map desync'', r0)))"

definition rs_acquire_slot ::
  "'a arena_ops \<Rightarrow> 's store_ops \<Rightarrow> ('a, 's) residency \<Rightarrow> (string + nat) \<times> ('a, 's) residency" where
  "rs_acquire_slot ao so r =
    (case vec_pop (rs_free_slots r) of
       Some (s, rest) \<Rightarrow> (Inr s, r\<lparr> rs_free_slots := rest \<rparr>)
     | None \<Rightarrow> rs_evict_coldest_to_disk ao so r)"

subsection \<open>The page table operations\<close>

definition rs_alloc ::
  "'a arena_ops \<Rightarrow> 's store_ops \<Rightarrow> u64w \<Rightarrow> ('a, 's) residency
     \<Rightarrow> (string + nat) \<times> ('a, 's) residency" where
  "rs_alloc ao so key r0 =
    (let r = r0\<lparr> rs_stats := (rs_stats r0)\<lparr> st_puts := st_puts (rs_stats r0) + 1 \<rparr> \<rparr> in
     case rs_map r key of
       Some (Resident slot) \<Rightarrow>
         (let r1 = rs_lru_remove key r
          in (Inr slot, r1\<lparr> rs_map := (rs_map r1)(key \<mapsto> Reserved slot) \<rparr>))
     | Some (Reserved slot) \<Rightarrow> (Inr slot, r)
     | Some (OnDisk disk_slot) \<Rightarrow>
         (case rs_acquire_slot ao so (rs_disk_lru_remove key r) of
            (Inl e, r1) \<Rightarrow> (Inl e, r1\<lparr> rs_disk_lru := key # rs_disk_lru r1 \<rparr>)
          | (Inr slot, r1) \<Rightarrow>
              (Inr slot, r1\<lparr> rs_free_disk := vec_push (rs_free_disk r1) disk_slot,
                             rs_swap := discard_record so (rs_swap r1) disk_slot,
                             rs_map := (rs_map r1)(key \<mapsto> Reserved slot) \<rparr>))
     | None \<Rightarrow>
         (case rs_acquire_slot ao so r of
            (Inl e, r1) \<Rightarrow> (Inl e, r1)
          | (Inr slot, r1) \<Rightarrow> (Inr slot, r1\<lparr> rs_map := (rs_map r1)(key \<mapsto> Reserved slot) \<rparr>)))"

definition rs_commit :: "u64w \<Rightarrow> ('a, 's) residency \<Rightarrow> string option \<times> ('a, 's) residency" where
  "rs_commit key r =
    (case rs_map r key of
       Some (Reserved slot) \<Rightarrow>
         (None, r\<lparr> rs_map := (rs_map r)(key \<mapsto> Resident slot),
                   rs_lru := (if rs_read_pins r key = None then rs_lru r @ [key] else rs_lru r) \<rparr>)
     | Some (Resident _) \<Rightarrow> (None, r)
     | _ \<Rightarrow> (Some ''commit: no reserved slot (alloc not called / evicted)'', r))"

definition rs_locate ::
  "'a arena_ops \<Rightarrow> 's store_ops \<Rightarrow> u64w \<Rightarrow> ('a, 's) residency
     \<Rightarrow> (string + nat option) \<times> ('a, 's) residency" where
  "rs_locate ao so key r0 =
    (let r = r0\<lparr> rs_stats := (rs_stats r0)\<lparr> st_gets := st_gets (rs_stats r0) + 1 \<rparr> \<rparr> in
     case rs_map r key of
       Some (Resident slot) \<Rightarrow>
         (let r1 = r\<lparr> rs_stats := (rs_stats r)\<lparr> st_resident_hits :=
                        st_resident_hits (rs_stats r) + 1 \<rparr> \<rparr>
          in (Inr (Some slot), if rs_read_pins r1 key = None then rs_lru_touch key r1 else r1))
     | Some (Reserved slot) \<Rightarrow> (Inr (Some slot), r)
     | Some (OnDisk disk_slot) \<Rightarrow>
         (case rs_acquire_slot ao so (rs_disk_lru_remove key r) of
            (Inl e, r1) \<Rightarrow> (Inl e, r1\<lparr> rs_disk_lru := key # rs_disk_lru r1 \<rparr>)
          | (Inr slot, r1) \<Rightarrow>
              (let (err, r2) =
                 (case read_record so (rs_swap r1) disk_slot of
                    Inl e \<Rightarrow> (Some e, r1)
                  | Inr buf \<Rightarrow>
                      (let (w, arena') = write_slot ao (rs_arena r1) slot buf
                       in (w, r1\<lparr> rs_arena := arena' \<rparr>)))
               in case err of
                    Some e \<Rightarrow>
                      (Inl e, r2\<lparr> rs_free_slots := vec_push (rs_free_slots r2) slot,
                                  rs_disk_lru := key # rs_disk_lru r2 \<rparr>)
                  | None \<Rightarrow>
                      (Inr (Some slot),
                       r2\<lparr> rs_free_disk := vec_push (rs_free_disk r2) disk_slot,
                           rs_swap := discard_record so (rs_swap r2) disk_slot,
                           rs_map := (rs_map r2)(key \<mapsto> Resident slot),
                           rs_lru := rs_lru r2 @ [key],
                           rs_stats := (rs_stats r2)\<lparr> st_faults_from_disk :=
                             st_faults_from_disk (rs_stats r2) + 1 \<rparr> \<rparr>)))
     | None \<Rightarrow>
         (Inr None, r\<lparr> rs_stats := (rs_stats r)\<lparr> st_get_miss :=
                         st_get_miss (rs_stats r) + 1 \<rparr> \<rparr>))"

definition rs_remove :: "'s store_ops \<Rightarrow> u64w \<Rightarrow> ('a, 's) residency \<Rightarrow> ('a, 's) residency" where
  "rs_remove so key r =
    (let r1 = r\<lparr> rs_map := (rs_map r)(key := None) \<rparr> in
     case rs_map r key of
       Some (Resident slot) \<Rightarrow>
         (rs_lru_remove key r1)\<lparr> rs_free_slots := vec_push (rs_free_slots r1) slot \<rparr>
     | Some (Reserved slot) \<Rightarrow>
         (rs_lru_remove key r1)\<lparr> rs_free_slots := vec_push (rs_free_slots r1) slot \<rparr>
     | Some (OnDisk disk_slot) \<Rightarrow>
         (rs_disk_lru_remove key r1)
           \<lparr> rs_free_disk := vec_push (rs_free_disk r1) disk_slot,
             rs_swap := discard_record so (rs_swap r1) disk_slot \<rparr>
     | None \<Rightarrow> r1)"

definition rs_read_pin_count :: "u64w \<Rightarrow> ('a, 's) residency \<Rightarrow> nat" where
  "rs_read_pin_count key r = (case rs_read_pins r key of Some n \<Rightarrow> n | None \<Rightarrow> 0)"

definition rs_pin_read :: "u64w \<Rightarrow> ('a, 's) residency \<Rightarrow> ('a, 's) residency" where
  "rs_pin_read key r =
    (case rs_map r key of
       Some (Resident _) \<Rightarrow>
         (let n = rs_read_pin_count key r;
              r1 = (if n = 0 then rs_lru_remove key r else r)
          in r1\<lparr> rs_read_pins := (rs_read_pins r1)(key \<mapsto> n + 1) \<rparr>)
     | _ \<Rightarrow> r)"

definition rs_unpin_read :: "u64w \<Rightarrow> ('a, 's) residency \<Rightarrow> ('a, 's) residency" where
  "rs_unpin_read key r =
    (case rs_read_pins r key of
       None \<Rightarrow> r
     | Some n0 \<Rightarrow>
         (let n = n0 - 1 in
          if n = 0 then
            (let r1 = r\<lparr> rs_read_pins := (rs_read_pins r)(key := None) \<rparr> in
             case rs_map r1 key of
               Some (Resident _) \<Rightarrow>
                 if key \<in> set (rs_lru r1) then r1 else r1\<lparr> rs_lru := rs_lru r1 @ [key] \<rparr>
             | _ \<Rightarrow> r1)
          else r\<lparr> rs_read_pins := (rs_read_pins r)(key \<mapsto> n) \<rparr>))"

definition rs_put_blob ::
  "'a arena_ops \<Rightarrow> 's store_ops \<Rightarrow> u64w \<Rightarrow> byte list \<Rightarrow> ('a, 's) residency
     \<Rightarrow> string option \<times> ('a, 's) residency" where
  "rs_put_blob ao so key bytes r =
    (if length bytes \<noteq> rs_blob_bytes r then (Some ''put_blob: wrong length'', r)
     else
       (case rs_alloc ao so key r of
          (Inl e, r1) \<Rightarrow> (Some e, r1)
        | (Inr slot, r1) \<Rightarrow>
            (let (w, arena') = write_slot ao (rs_arena r1) slot bytes;
                 r2 = r1\<lparr> rs_arena := arena' \<rparr>
             in case w of
                  Some e \<Rightarrow> (Some e, rs_remove so key r2)
                | None \<Rightarrow> rs_commit key r2)))"

text \<open>The result carries the bytes copied into \<open>out\<close>; \<open>Inr None\<close> is \<open>Ok(false)\<close>.\<close>

definition rs_get_blob ::
  "'a arena_ops \<Rightarrow> 's store_ops \<Rightarrow> u64w \<Rightarrow> nat \<Rightarrow> ('a, 's) residency
     \<Rightarrow> (string + byte list option) \<times> ('a, 's) residency" where
  "rs_get_blob ao so key out_len r =
    (if out_len \<noteq> rs_blob_bytes r then (Inl ''get_blob: wrong length'', r)
     else
       (case rs_locate ao so key r of
          (Inl e, r1) \<Rightarrow> (Inl e, r1)
        | (Inr None, r1) \<Rightarrow> (Inr None, r1)
        | (Inr (Some slot), r1) \<Rightarrow>
            (case read_slot ao (rs_arena r1) slot of
               Inl e \<Rightarrow> (Inl e, r1)
             | Inr bytes \<Rightarrow> (Inr (Some bytes), r1))))"

end
