(* ===== verification/Group_Layout.thy ===== *)
theory Group_Layout
  imports Prelude
begin

text \<open>
  Group addressing of the high-speed-swap tier (crates/storage/src/group.rs) and the persistent
  hashes that make a group id a wire key (crates/storage/src/tier/hash.rs,
  crates/storage/src/kv_paging/ns.rs).

  Sizes, ids and offsets are naturals: the code computes them in \<open>u64\<close> from \<open>u32\<close> and \<open>u16\<close>
  factors, and the theorems speak of layouts for which nothing exceeds 64 bits. Hashes are words.
  Division by a zero file-system block size panics (\<open>None\<close>).
\<close>

unbundle bit_operations_syntax

subsection \<open>Groups\<close>

datatype kv_kind = KindK | KindV

record group_key =
  gk_layer :: nat
  gk_block :: nat
  gk_kv_head :: nat
  gk_kv_kind :: nat

record group_layout =
  gl_num_layers :: nat
  gl_num_blocks :: nat
  gl_num_kv_heads :: nat
  gl_group_stride :: nat
  gl_fs_block_size :: nat

definition gk_new :: "nat \<Rightarrow> nat \<Rightarrow> nat \<Rightarrow> kv_kind \<Rightarrow> group_key" where
  "gk_new layer block kv_head kind = \<lparr> gk_layer = layer, gk_block = block, gk_kv_head = kv_head,
     gk_kv_kind = (case kind of KindK \<Rightarrow> 0 | KindV \<Rightarrow> 1) \<rparr>"

definition gk_kind :: "group_key \<Rightarrow> kv_kind" where
  "gk_kind k = (if gk_kv_kind k = 0 then KindK else KindV)"

definition gl_new :: "nat \<Rightarrow> nat \<Rightarrow> nat \<Rightarrow> nat \<Rightarrow> nat \<Rightarrow> nat \<Rightarrow> nat \<Rightarrow> group_layout option" where
  "gl_new num_layers num_blocks num_kv_heads block_size head_dim elem_bytes fs_block_size =
    (let raw = block_size * head_dim * elem_bytes in
     if fs_block_size = 0 then None
     else Some \<lparr> gl_num_layers = num_layers, gl_num_blocks = num_blocks, gl_num_kv_heads = num_kv_heads,
       gl_group_stride = (raw + fs_block_size - 1) div fs_block_size * fs_block_size,
       gl_fs_block_size = fs_block_size \<rparr>)"

definition gl_bytes_per_layer :: "group_layout \<Rightarrow> nat" where
  "gl_bytes_per_layer l = 2 * gl_num_blocks l * gl_num_kv_heads l * gl_group_stride l"

definition gl_file_offset :: "group_layout \<Rightarrow> group_key \<Rightarrow> nat" where
  "gl_file_offset l k =
    (let kv_stride = gl_num_kv_heads l * gl_group_stride l
     in gk_block k * (2 * kv_stride) + gk_kv_kind k * kv_stride + gk_kv_head k * gl_group_stride l)"

definition gl_group_id :: "group_layout \<Rightarrow> group_key \<Rightarrow> nat" where
  "gl_group_id l k =
    (let per_layer = 2 * gl_num_blocks l * gl_num_kv_heads l; per_block = 2 * gl_num_kv_heads l
     in gk_layer k * per_layer + gk_block k * per_block + gk_kv_kind k * gl_num_kv_heads l + gk_kv_head k)"

definition gl_group_bytes :: "group_layout \<Rightarrow> nat" where
  "gl_group_bytes l = gl_group_stride l"

definition gl_block_bytes :: "group_layout \<Rightarrow> nat" where
  "gl_block_bytes l = 2 * gl_num_kv_heads l * gl_group_stride l"

text \<open>The keys of a layout.\<close>

definition gl_in_layout :: "group_layout \<Rightarrow> group_key \<Rightarrow> bool" where
  "gl_in_layout l k \<longleftrightarrow> gk_layer k < gl_num_layers l \<and> gk_block k < gl_num_blocks l
     \<and> gk_kv_head k < gl_num_kv_heads l \<and> gk_kv_kind k < 2"

subsection \<open>Hashes\<close>

definition FNV_OFFSET :: u64w where
  "FNV_OFFSET = 0xcbf29ce484222325"

definition FNV_PRIME_64 :: u64w where
  "FNV_PRIME_64 = 0x100000001b3"

definition GOLDEN :: u64w where
  "GOLDEN = 0x9E3779B97F4A7C15"

definition fnv1a_64 :: "byte list \<Rightarrow> u64w" where
  "fnv1a_64 bytes = fold (\<lambda>b h. (h XOR ucast b) * FNV_PRIME_64) bytes FNV_OFFSET"

definition mix64 :: "u64w \<Rightarrow> u64w \<Rightarrow> u64w" where
  "mix64 a b =
    (let h = a XOR (b * GOLDEN);
         h = h XOR drop_bit 30 h;
         h = h * 0xBF58476D1CE4E5B9;
         h = h XOR drop_bit 27 h;
         h = h * 0x94D049BB133111EB
     in h XOR drop_bit 31 h)"

definition KV_NS_VERSION :: u64w where
  "KV_NS_VERSION = 1"

definition KV_DOMAIN :: u64w where
  "KV_DOMAIN = 0x4B56504147450001"

definition put_u64 :: "byte \<Rightarrow> u64w \<Rightarrow> byte list \<Rightarrow> byte list" where
  "put_u64 tag v buf = buf @ tag # to_le_bytes v"

definition derive_kv_ns :: "u64w \<Rightarrow> group_layout \<Rightarrow> nat \<Rightarrow> nat \<Rightarrow> nat \<Rightarrow> u64w \<Rightarrow> u64w" where
  "derive_kv_ns model_fp l elem_bytes block_size head_dim client_salt =
    (let buf = fold (\<lambda>(tag, v). put_u64 tag v)
           [(0x00, KV_NS_VERSION), (0x01, model_fp), (0x02, KV_DOMAIN), (0x03, of_nat elem_bytes),
            (0x04, of_nat block_size), (0x05, of_nat head_dim), (0x06, of_nat (gl_num_layers l)),
            (0x07, of_nat (gl_num_blocks l)), (0x08, of_nat (gl_num_kv_heads l)),
            (0x09, of_nat (gl_fs_block_size l)), (0x0a, of_nat (gl_group_stride l)), (0x0b, client_salt)] [];
         h = fnv1a_64 buf
     in if h = 0 then FNV_OFFSET else h)"

definition wire_key :: "u64w \<Rightarrow> u64w \<Rightarrow> u64w" where
  "wire_key ns base_group_id = mix64 base_group_id ns"

subsection \<open>The finalizer is a bijection\<close>

lemma xorshift_30: "y XOR drop_bit 30 y XOR drop_bit 60 y = x" if "y = x XOR drop_bit 30 x" for x y :: u64w
  unfolding that by (rule bit_word_eqI) (auto simp: bit_simps)

lemma xorshift_27: "y XOR drop_bit 27 y XOR drop_bit 54 y = x" if "y = x XOR drop_bit 27 x" for x y :: u64w
  unfolding that by (rule bit_word_eqI) (auto simp: bit_simps)

lemma xorshift_31: "y XOR drop_bit 31 y XOR drop_bit 62 y = x" if "y = x XOR drop_bit 31 x" for x y :: u64w
  unfolding that by (rule bit_word_eqI) (auto simp: bit_simps)

lemma odd_mult_1: "x * 0xBF58476D1CE4E5B9 * 0x96DE1B173F119089 = (x :: u64w)"
proof -
  have "(0xBF58476D1CE4E5B9 :: u64w) * 0x96DE1B173F119089 = 1" by (simp add: word_uint_eq_iff)
  then show ?thesis by (simp only: mult.assoc mult_1_right)
qed

lemma odd_mult_2: "x * 0x94D049BB133111EB * 0x319642B2D24D8EC3 = (x :: u64w)"
proof -
  have "(0x94D049BB133111EB :: u64w) * 0x319642B2D24D8EC3 = 1" by (simp add: word_uint_eq_iff)
  then show ?thesis by (simp only: mult.assoc mult_1_right)
qed

lemma odd_cancel_1: "x * 0xBF58476D1CE4E5B9 = y * 0xBF58476D1CE4E5B9 \<Longrightarrow> x = (y :: u64w)"
  by (metis odd_mult_1)

lemma odd_cancel_2: "x * 0x94D049BB133111EB = y * 0x94D049BB133111EB \<Longrightarrow> x = (y :: u64w)"
  by (metis odd_mult_2)

lemma inj_xorshift_30: "inj (\<lambda>x :: u64w. x XOR drop_bit 30 x)"
  by (rule injI) (metis xorshift_30)

lemma inj_xorshift_27: "inj (\<lambda>x :: u64w. x XOR drop_bit 27 x)"
  by (rule injI) (metis xorshift_27)

lemma inj_xorshift_31: "inj (\<lambda>x :: u64w. x XOR drop_bit 31 x)"
  by (rule injI) (metis xorshift_31)

lemma mix64_inj: "mix64 a b = mix64 a' b \<Longrightarrow> a = a'"
proof -
  assume "mix64 a b = mix64 a' b"
  from this [unfolded mix64_def Let_def, THEN injD [OF inj_xorshift_31], THEN odd_cancel_2,
      THEN injD [OF inj_xorshift_27], THEN odd_cancel_1, THEN injD [OF inj_xorshift_30]]
  have "(a XOR (b * GOLDEN)) XOR (b * GOLDEN) = (a' XOR (b * GOLDEN)) XOR (b * GOLDEN)" by (rule arg_cong)
  then show "a = a'" by (simp only: xor.assoc xor_self_eq xor.right_neutral)
qed

subsection \<open>Group ids and file offsets\<close>

lemma pair_inj:
  fixes a :: nat
  assumes "a * n + b = a' * n + b'" and "b < n" and "b' < n"
  shows "a = a' \<and> b = b'"
proof -
  have "(a * n + b) div n = a" "(a' * n + b') div n = a'" "(a * n + b) mod n = b" "(a' * n + b') mod n = b'"
    using assms(2,3) by simp_all
  with assms(1) show ?thesis by metis
qed

lemma pair_bound: "a < m \<Longrightarrow> b < n \<Longrightarrow> a * n + b < m * (n :: nat)"
proof -
  assume "a < m" "b < n"
  then have "a * n + b < Suc a * n" by simp
  also have "\<dots> \<le> m * n" using \<open>a < m\<close> by (intro mult_le_mono1) simp
  finally show ?thesis .
qed

lemma gl_group_id_nested:
  "gl_group_id l k = ((gk_layer k * gl_num_blocks l + gk_block k) * 2 + gk_kv_kind k) * gl_num_kv_heads l + gk_kv_head k"
  by (simp add: gl_group_id_def algebra_simps)

lemma gl_file_offset_nested:
  "gl_file_offset l k = ((gk_block k * 2 + gk_kv_kind k) * gl_num_kv_heads l + gk_kv_head k) * gl_group_stride l"
  by (simp add: gl_file_offset_def algebra_simps)

lemma gl_group_id_inj: "inj_on (gl_group_id l) {k. gl_in_layout l k}"
proof (rule inj_onI)
  fix k k' :: group_key
  assume "k \<in> {k. gl_in_layout l k}" "k' \<in> {k. gl_in_layout l k}" and e: "gl_group_id l k = gl_group_id l k'"
  then have b: "gl_in_layout l k" "gl_in_layout l k'" by simp_all
  have 1: "(gk_layer k * gl_num_blocks l + gk_block k) * 2 + gk_kv_kind k
        = (gk_layer k' * gl_num_blocks l + gk_block k') * 2 + gk_kv_kind k' \<and> gk_kv_head k = gk_kv_head k'"
    using e b unfolding gl_group_id_nested by (intro pair_inj) (auto simp: gl_in_layout_def)
  then have 2: "gk_layer k * gl_num_blocks l + gk_block k = gk_layer k' * gl_num_blocks l + gk_block k'
        \<and> gk_kv_kind k = gk_kv_kind k'"
    using b by (intro pair_inj) (auto simp: gl_in_layout_def)
  then have "gk_layer k = gk_layer k' \<and> gk_block k = gk_block k'"
    using b by (intro pair_inj) (auto simp: gl_in_layout_def)
  with 1 2 show "k = k'" by simp
qed

lemma gl_group_id_bound:
  "gl_in_layout l k \<Longrightarrow> gl_group_id l k < gl_num_layers l * gl_num_blocks l * 2 * gl_num_kv_heads l"
  unfolding gl_group_id_nested by (intro pair_bound) (auto simp: gl_in_layout_def)

lemma gl_group_id_onto:
  assumes "i < gl_num_layers l * gl_num_blocks l * 2 * gl_num_kv_heads l"
  shows "\<exists>k. gl_in_layout l k \<and> gl_group_id l k = i"
proof -
  let ?h = "gl_num_kv_heads l" and ?b = "gl_num_blocks l"
  have h: "0 < ?h" using assms by (cases "?h = 0") auto
  have b: "0 < ?b" using assms by (cases "?b = 0") auto
  define j where "j = i div ?h"
  define m where "m = j div 2"
  define k where "k = \<lparr> gk_layer = m div ?b, gk_block = m mod ?b, gk_kv_head = i mod ?h, gk_kv_kind = j mod 2 \<rparr>"
  have "j < gl_num_layers l * ?b * 2" using assms by (simp add: j_def less_mult_imp_div_less)
  then have "m < gl_num_layers l * ?b" by (simp add: m_def less_mult_imp_div_less)
  then have "m div ?b < gl_num_layers l" by (simp add: less_mult_imp_div_less)
  then have "gl_in_layout l k" using h b by (simp add: gl_in_layout_def k_def)
  moreover have "gl_group_id l k = i"
    unfolding gl_group_id_nested by (simp add: k_def m_def j_def)
  ultimately show ?thesis by blast
qed

lemma mult_disjoint:
  fixes a b s :: nat
  assumes "a \<noteq> b"
  shows "{a * s ..< a * s + s} \<inter> {b * s ..< b * s + s} = {}"
proof -
  have "a * s + s \<le> b * s" if "a < b" for a b :: nat
    using that by (metis Suc_leI mult_Suc mult_le_mono1 add.commute)
  then show ?thesis using assms by (cases "a < b") (force simp: not_less_iff_gr_or_eq)+
qed

text \<open>The group ids of a layout's keys are exactly \<open>0 ..< num_layers * 2 * num_blocks *
  num_kv_heads\<close>, each once. Within a layer's file the groups of different keys never overlap, lie
  inside the file, are in group-id order, and each starts at a multiple of the file-system block
  size and holds its stripe.\<close>

theorem group_layout_dense:
  assumes "gl_new layers blocks heads block_size head_dim elem_bytes fs = Some l"
  shows "bij_betw (gl_group_id l) {k. gl_in_layout l k} {..< layers * blocks * 2 * heads}
    \<and> block_size * head_dim * elem_bytes \<le> gl_group_bytes l
    \<and> (\<forall>k. gl_in_layout l k \<longrightarrow> fs dvd gl_file_offset l k
          \<and> gl_file_offset l k + gl_group_bytes l \<le> gl_bytes_per_layer l
          \<and> gl_file_offset l k = (gl_group_id l k - gk_layer k * (2 * blocks * heads)) * gl_group_bytes l)
    \<and> (\<forall>k k'. gl_in_layout l k \<and> gl_in_layout l k' \<and> gk_layer k = gk_layer k' \<and> k \<noteq> k' \<longrightarrow>
          {gl_file_offset l k ..< gl_file_offset l k + gl_group_bytes l}
            \<inter> {gl_file_offset l k' ..< gl_file_offset l k' + gl_group_bytes l} = {})"
proof -
  have l: "gl_num_layers l = layers" "gl_num_blocks l = blocks" "gl_num_kv_heads l = heads"
    "0 < fs" "gl_group_stride l = (block_size * head_dim * elem_bytes + fs - 1) div fs * fs"
    using assms by (auto simp: gl_new_def Let_def split: if_splits)
  have inj: "inj_on (gl_group_id l) {k. gl_in_layout l k}" by (rule gl_group_id_inj)
  have img: "gl_group_id l ` {k. gl_in_layout l k} = {..< layers * blocks * 2 * heads}"
    using gl_group_id_bound [of l] gl_group_id_onto [of _ l] l(1-3) by (auto simp: image_iff)
  have bij: "bij_betw (gl_group_id l) {k. gl_in_layout l k} {..< layers * blocks * 2 * heads}"
    using inj img by (rule bij_betw_imageI)
  have pad: "block_size * head_dim * elem_bytes \<le> gl_group_bytes l"
  proof -
    let ?r = "block_size * head_dim * elem_bytes"
    have "(?r + fs - 1) mod fs < fs" using l(4) by simp
    moreover have "(?r + fs - 1) div fs * fs + (?r + fs - 1) mod fs = ?r + fs - 1" by simp
    ultimately show ?thesis unfolding gl_group_bytes_def l(5) using l(4) by linarith
  qed
  have off: "fs dvd gl_file_offset l k \<and> gl_file_offset l k + gl_group_bytes l \<le> gl_bytes_per_layer l
      \<and> gl_file_offset l k = (gl_group_id l k - gk_layer k * (2 * blocks * heads)) * gl_group_bytes l"
    if k: "gl_in_layout l k" for k
  proof (intro conjI)
    show "fs dvd gl_file_offset l k" unfolding gl_file_offset_nested l(5) by simp
    have "(gk_block k * 2 + gk_kv_kind k) * heads + gk_kv_head k < blocks * 2 * heads"
      using k l by (intro pair_bound) (auto simp: gl_in_layout_def)
    then have "Suc ((gk_block k * 2 + gk_kv_kind k) * heads + gk_kv_head k) * gl_group_stride l
        \<le> (blocks * 2 * heads) * gl_group_stride l" by (intro mult_le_mono1) simp
    then show "gl_file_offset l k + gl_group_bytes l \<le> gl_bytes_per_layer l"
      unfolding gl_file_offset_nested gl_bytes_per_layer_def gl_group_bytes_def l(2,3)
      by (simp add: ac_simps)
    have "gl_group_id l k - gk_layer k * (2 * blocks * heads)
        = (gk_block k * 2 + gk_kv_kind k) * heads + gk_kv_head k"
      by (simp add: gl_group_id_def l(2,3) algebra_simps)
    then show "gl_file_offset l k = (gl_group_id l k - gk_layer k * (2 * blocks * heads)) * gl_group_bytes l"
      unfolding gl_file_offset_nested gl_group_bytes_def l(3) by simp
  qed
  have "{gl_file_offset l k ..< gl_file_offset l k + gl_group_bytes l}
        \<inter> {gl_file_offset l k' ..< gl_file_offset l k' + gl_group_bytes l} = {}"
    if "gl_in_layout l k" "gl_in_layout l k'" "gk_layer k = gk_layer k'" "k \<noteq> k'" for k k'
  proof -
    have "gl_group_id l k \<noteq> gl_group_id l k'" using inj that by (auto dest: inj_onD)
    then have "(gk_block k * 2 + gk_kv_kind k) * gl_num_kv_heads l + gk_kv_head k
        \<noteq> (gk_block k' * 2 + gk_kv_kind k') * gl_num_kv_heads l + gk_kv_head k'"
      using that(3) by (auto simp: gl_group_id_def algebra_simps)
    then show ?thesis unfolding gl_file_offset_nested gl_group_bytes_def by (rule mult_disjoint)
  qed
  with bij pad off show ?thesis by blast
qed

lemma group_layout_dense_witness:
  "\<exists>l. gl_new 2 3 4 16 96 2 4096 = Some l \<and> gl_group_stride l = 4096
     \<and> bij_betw (gl_group_id l) {k. gl_in_layout l k} {..< 48}"
proof -
  have n: "gl_new 2 3 4 16 96 2 4096 = Some \<lparr> gl_num_layers = 2, gl_num_blocks = 3, gl_num_kv_heads = 4,
      gl_group_stride = 4096, gl_fs_block_size = 4096 \<rparr>" (is "_ = Some ?l")
    by (simp add: gl_new_def)
  have "bij_betw (gl_group_id ?l) {k. gl_in_layout ?l k} {..< 2 * 3 * 2 * 4}"
    using group_layout_dense [OF n] by blast
  with n show ?thesis by simp
qed

subsection \<open>Wire keys\<close>

lemma derive_kv_ns_nonzero: "derive_kv_ns fp l e b h salt \<noteq> 0"
  by (simp add: derive_kv_ns_def Let_def FNV_OFFSET_def)

text \<open>Under one namespace two different groups of a layout whose ids fit in 64 bits never share
  a wire key, and a derived namespace is never zero.\<close>

theorem wire_keys_distinct:
  assumes "gl_in_layout l k" and "gl_in_layout l k'"
    and "gl_num_layers l * gl_num_blocks l * 2 * gl_num_kv_heads l \<le> 2 ^ 64"
  shows "(wire_key ns (of_nat (gl_group_id l k)) = wire_key ns (of_nat (gl_group_id l k')) \<longleftrightarrow> k = k')
    \<and> derive_kv_ns fp l elem_bytes block_size head_dim salt \<noteq> 0"
proof -
  have b: "gl_group_id l k < 2 ^ 64" "gl_group_id l k' < 2 ^ 64"
    using gl_group_id_bound [OF assms(1)] gl_group_id_bound [OF assms(2)] assms(3) by linarith+
  have "k = k'" if "wire_key ns (of_nat (gl_group_id l k)) = wire_key ns (of_nat (gl_group_id l k'))"
  proof -
    have "(of_nat (gl_group_id l k) :: u64w) = of_nat (gl_group_id l k')"
      using that unfolding wire_key_def by (rule mix64_inj)
    then have "unat (of_nat (gl_group_id l k) :: u64w) = unat (of_nat (gl_group_id l k') :: u64w)" by simp
    then have "gl_group_id l k = gl_group_id l k'" using b by (simp add: unsigned_of_nat take_bit_nat_eq_self)
    then show ?thesis using inj_onD [OF gl_group_id_inj [of l], of k k'] assms by simp
  qed
  then show ?thesis using derive_kv_ns_nonzero by blast
qed

lemma wire_keys_distinct_witness:
  "let l = \<lparr> gl_num_layers = 2, gl_num_blocks = 3, gl_num_kv_heads = 4, gl_group_stride = 4096, gl_fs_block_size = 4096 \<rparr>
   in wire_key 7 (of_nat (gl_group_id l (gk_new 0 1 2 KindK))) \<noteq> wire_key 7 (of_nat (gl_group_id l (gk_new 1 1 2 KindV)))"
proof -
  let ?l = "\<lparr> gl_num_layers = 2, gl_num_blocks = 3, gl_num_kv_heads = 4, gl_group_stride = 4096, gl_fs_block_size = 4096 \<rparr>"
  have "gl_in_layout ?l (gk_new 0 1 2 KindK)" "gl_in_layout ?l (gk_new 1 1 2 KindV)"
    "gl_num_layers ?l * gl_num_blocks ?l * 2 * gl_num_kv_heads ?l \<le> 2 ^ 64"
    by (simp_all add: gl_in_layout_def gk_new_def)
  from wire_keys_distinct [OF this, of 7] have
    "wire_key 7 (of_nat (gl_group_id ?l (gk_new 0 1 2 KindK))) = wire_key 7 (of_nat (gl_group_id ?l (gk_new 1 1 2 KindV)))
      \<longleftrightarrow> gk_new 0 1 2 KindK = gk_new 1 1 2 KindV" by blast
  then show ?thesis by (simp add: Let_def gk_new_def)
qed

end
