(* ===== verification/Kv_Ns.thy ===== *)
theory Kv_Ns
  imports Group_Layout
begin

text \<open>
  The strict parsers of the \<open>METRALE_KV_PAGING*\<close> variables (crates/storage/src/kv_paging/ns.rs).
  A value is a string of ASCII characters; \<open>u64::from_str_radix\<close> and \<open>str::parse\<close> are written out:
  an optional plus sign, then at least one digit, and no overflow. An error is \<open>Inl\<close> with the name
  of the variable or of the reason; its text is not modelled.
\<close>

subsection \<open>Parsing numbers\<close>

definition is_space :: "char \<Rightarrow> bool" where
  "is_space c \<longleftrightarrow> of_char c \<in> {9, 10, 11, 12, 13, 32 :: nat}"

definition str_trim :: "string \<Rightarrow> string" where
  "str_trim s = rev (dropWhile is_space (rev (dropWhile is_space s)))"

definition char_digit :: "nat \<Rightarrow> char \<Rightarrow> nat option" where
  "char_digit radix c =
    (let n = (of_char c :: nat);
         d = (if 48 \<le> n \<and> n \<le> 57 then Some (n - 48)
              else if 97 \<le> n \<and> n \<le> 122 then Some (n - 87)
              else if 65 \<le> n \<and> n \<le> 90 then Some (n - 55)
              else None)
     in case d of Some v \<Rightarrow> if v < radix then Some v else None | None \<Rightarrow> None)"

fun radix_value :: "nat \<Rightarrow> nat \<Rightarrow> string \<Rightarrow> nat option" where
  "radix_value radix acc [] = Some acc"
| "radix_value radix acc (c # cs) =
    (case char_digit radix c of None \<Rightarrow> None | Some d \<Rightarrow> radix_value radix (acc * radix + d) cs)"

text \<open>\<open>u64::from_str_radix\<close>.\<close>

definition from_str_radix :: "nat \<Rightarrow> string \<Rightarrow> nat option" where
  "from_str_radix radix s =
    (let body = (case s of c # cs \<Rightarrow> if c = CHR ''+'' then cs else s | [] \<Rightarrow> []) in
     if body = [] then None
     else case radix_value radix 0 body of
            Some v \<Rightarrow> if v < 2 ^ 64 then Some v else None
          | None \<Rightarrow> None)"

definition strip_hex :: "string \<Rightarrow> string option" where
  "strip_hex s = (case s of a # b # cs \<Rightarrow> if a = CHR ''0'' \<and> (b = CHR ''x'' \<or> b = CHR ''X'') then Some cs else None
                  | _ \<Rightarrow> None)"

datatype ns_error = NotU64 | ZeroNs | BadFlag

definition parse_u64_strict :: "string \<Rightarrow> ns_error + nat" where
  "parse_u64_strict raw =
    (let s = str_trim raw;
         parsed = (case strip_hex s of Some hex \<Rightarrow> from_str_radix 16 hex | None \<Rightarrow> from_str_radix 10 s)
     in case parsed of Some v \<Rightarrow> Inr v | None \<Rightarrow> Inl NotU64)"

definition resolve_kv_ns_from :: "string option \<Rightarrow> nat \<Rightarrow> ns_error + nat" where
  "resolve_kv_ns_from override_raw derived =
    (case override_raw of
       None \<Rightarrow> Inr derived
     | Some raw \<Rightarrow>
         (case parse_u64_strict raw of
            Inl e \<Rightarrow> Inl e
          | Inr v \<Rightarrow> if v = 0 then Inl ZeroNs else Inr v))"

definition resolve_salt_from :: "string option \<Rightarrow> ns_error + nat option" where
  "resolve_salt_from raw =
    (case raw of None \<Rightarrow> Inr None
     | Some r \<Rightarrow> (case parse_u64_strict r of Inl e \<Rightarrow> Inl e | Inr v \<Rightarrow> Inr (Some v)))"

definition kv_paging_selected :: "string option \<Rightarrow> ns_error + bool" where
  "kv_paging_selected raw =
    (case map_option str_trim raw of
       None \<Rightarrow> Inr False
     | Some s \<Rightarrow> if s = ''0'' then Inr False else if s = ''1'' then Inr True else Inl BadFlag)"

definition cascade_conflicts_with_paging :: "bool \<Rightarrow> string option \<Rightarrow> ns_error + bool" where
  "cascade_conflicts_with_paging kv_peer_set flag_raw =
    (if kv_peer_set then kv_paging_selected flag_raw else Inr False)"

subsection \<open>Printing\<close>

definition digit_char :: "nat \<Rightarrow> char" where
  "digit_char d = char_of (if d < 10 then 48 + d else 87 + d)"

fun show_radix :: "nat \<Rightarrow> nat \<Rightarrow> string" where
  "show_radix radix n = (if radix \<le> 1 \<or> n < radix then [digit_char n]
     else show_radix radix (n div radix) @ [digit_char (n mod radix)])"

declare show_radix.simps [simp del]

lemma char_digit_char: "d < radix \<Longrightarrow> radix \<le> 16 \<Longrightarrow> char_digit radix (digit_char d) = Some d"
  by (auto simp: char_digit_def digit_char_def Let_def)

lemma radix_value_append:
  "radix_value r a (xs @ ys) = (case radix_value r a xs of None \<Rightarrow> None | Some b \<Rightarrow> radix_value r b ys)"
  by (induction xs arbitrary: a) (auto split: option.splits)

lemma radix_value_show:
  "1 < r \<Longrightarrow> r \<le> 16 \<Longrightarrow> radix_value r 0 (show_radix r n) = Some n"
proof (induction r n rule: show_radix.induct)
  case (1 r n)
  show ?case
  proof (cases "n < r")
    case True
    then show ?thesis using 1 by (subst show_radix.simps) (simp add: char_digit_char)
  next
    case False
    then have "radix_value r 0 (show_radix r (n div r)) = Some (n div r)" using 1 by simp
    then show ?thesis using 1 False
      by (subst show_radix.simps) (simp add: radix_value_append char_digit_char)
  qed
qed

lemma show_radix_chars: "r \<le> 16 \<Longrightarrow> 1 < r \<Longrightarrow> c \<in> set (show_radix r n) \<Longrightarrow> \<exists>d < r. c = digit_char d"
proof (induction r n rule: show_radix.induct)
  case (1 r n)
  have "show_radix r n = (if n < r then [digit_char n] else show_radix r (n div r) @ [digit_char (n mod r)])"
    using 1(3) by (subst show_radix.simps) simp
  moreover have "n mod r < r" using 1(3) by simp
  ultimately consider "n < r" "c = digit_char n" | "c = digit_char (n mod r)" "n mod r < r"
    | "\<not> n < r" "c \<in> set (show_radix r (n div r))"
    using 1(4) by (auto split: if_splits)
  then show ?case using 1(1) [OF _ 1(2,3)] 1(3) by cases (blast, blast, auto)
qed

lemma show_radix_ne: "show_radix r n \<noteq> []"
  by (subst show_radix.simps) simp

lemma digit_char_cases: "d < 16 \<Longrightarrow> \<not> is_space (digit_char d) \<and> digit_char d \<noteq> CHR ''+''
    \<and> digit_char d \<noteq> CHR ''x'' \<and> digit_char d \<noteq> CHR ''X''"
proof -
  assume d: "d < 16"
  have n: "of_char (digit_char d) = (if d < 10 then 48 + d else 87 + d)"
    using d by (simp add: digit_char_def)
  have "of_char CHR ''+'' = (43 :: nat)" "of_char CHR ''x'' = (120 :: nat)" "of_char CHR ''X'' = (88 :: nat)" by simp_all
  with n d show ?thesis unfolding is_space_def by (auto split: if_splits)
qed

lemma dropWhile_none: "(\<And>c. c \<in> set s \<Longrightarrow> \<not> P c) \<Longrightarrow> dropWhile P s = s"
  by (cases s) auto

lemma str_trim_none: "(\<And>c. c \<in> set s \<Longrightarrow> \<not> is_space c) \<Longrightarrow> str_trim s = s"
  unfolding str_trim_def using dropWhile_none [of s is_space] dropWhile_none [of "rev s" is_space] by simp

lemma show_radix_plain:
  assumes "1 < r" and "r \<le> 16" and "c \<in> set (show_radix r n)"
  shows "\<not> is_space c \<and> c \<noteq> CHR ''+'' \<and> c \<noteq> CHR ''x'' \<and> c \<noteq> CHR ''X''"
  using show_radix_chars [OF assms(2,1,3)] digit_char_cases assms(2) by force

lemma from_str_radix_show:
  assumes "1 < r" and "r \<le> 16"
  shows "from_str_radix r (show_radix r n) = (if n < 2 ^ 64 then Some n else None)"
proof -
  obtain c cs where s: "show_radix r n = c # cs" using show_radix_ne by (cases "show_radix r n") blast+
  then have "c \<noteq> CHR ''+''" using show_radix_plain [OF assms, of c n] by simp
  then have "(case show_radix r n of c # cs \<Rightarrow> if c = CHR ''+'' then cs else show_radix r n | [] \<Rightarrow> []) = show_radix r n"
    using s by simp
  then show ?thesis using show_radix_ne radix_value_show [OF assms]
    by (simp only: from_str_radix_def Let_def if_False option.case)
qed

lemma strip_hex_show: "1 < r \<Longrightarrow> r \<le> 16 \<Longrightarrow> strip_hex (show_radix r n) = None"
proof -
  assume r: "1 < r" "r \<le> 16"
  have "b \<noteq> CHR ''x'' \<and> b \<noteq> CHR ''X''" if "show_radix r n = a # b # cs" for a b cs
    using show_radix_plain [OF r, of b n] that by simp
  then show ?thesis by (auto simp: strip_hex_def split: list.splits)
qed

text \<open>Printing a number in decimal, or in hexadecimal after \<open>0x\<close>, and parsing it gives the
  number back exactly when it fits in 64 bits, and an error otherwise. A namespace override printed
  so is accepted exactly when it also is not zero.\<close>

theorem kv_ns_override_roundtrip:
  "parse_u64_strict (show_radix 10 n) = (if n < 2 ^ 64 then Inr n else Inl NotU64)
   \<and> parse_u64_strict (''0x'' @ show_radix 16 n) = (if n < 2 ^ 64 then Inr n else Inl NotU64)
   \<and> resolve_kv_ns_from (Some (show_radix 10 n)) derived
      = (if n = 0 then Inl ZeroNs else if n < 2 ^ 64 then Inr n else Inl NotU64)"
proof -
  have d: "parse_u64_strict (show_radix 10 n) = (if n < 2 ^ 64 then Inr n else Inl NotU64)"
  proof -
    have "str_trim (show_radix 10 n) = show_radix 10 n" using show_radix_plain [of 10] by (intro str_trim_none) simp
    moreover have "strip_hex (show_radix 10 n) = None" by (simp add: strip_hex_show)
    moreover have "from_str_radix 10 (show_radix 10 n) = (if n < 2 ^ 64 then Some n else None)"
      by (intro from_str_radix_show) simp_all
    ultimately show ?thesis unfolding parse_u64_strict_def Let_def by (cases "n < 2 ^ 64") simp_all
  qed
  have h: "parse_u64_strict (''0x'' @ show_radix 16 n) = (if n < 2 ^ 64 then Inr n else Inl NotU64)"
  proof -
    have "\<not> is_space c" if "c \<in> set (''0x'' @ show_radix 16 n)" for c
    proof -
      have "\<not> is_space CHR ''0''" "\<not> is_space CHR ''x''" by (simp_all add: is_space_def)
      with that show ?thesis using show_radix_plain [of 16 c n] by auto
    qed
    then have "str_trim (''0x'' @ show_radix 16 n) = ''0x'' @ show_radix 16 n" by (rule str_trim_none)
    moreover have "strip_hex (''0x'' @ show_radix 16 n) = Some (show_radix 16 n)" by (simp add: strip_hex_def)
    moreover have "from_str_radix 16 (show_radix 16 n) = (if n < 2 ^ 64 then Some n else None)"
      by (intro from_str_radix_show) simp_all
    ultimately show ?thesis unfolding parse_u64_strict_def Let_def by (cases "n < 2 ^ 64") simp_all
  qed
  show ?thesis using d h by (auto simp: resolve_kv_ns_from_def)
qed

end
