(* ===== verification/Text_Parse.thy ===== *)
theory Text_Parse
  imports Kv_Ns
begin

text \<open>
  The parsing operations of Rust's \<open>str\<close> that the configuration readers share: \<open>split\<close>,
  \<open>split_once\<close> and \<open>parse\<close> at an unsigned width of at most 64 bits.
\<close>

definition parse_uint :: "nat \<Rightarrow> string \<Rightarrow> nat option" where
  "parse_uint bits s = (case from_str_radix 10 s of Some v \<Rightarrow> if v < 2 ^ bits then Some v else None | None \<Rightarrow> None)"

fun str_split :: "char \<Rightarrow> string \<Rightarrow> string list" where
  "str_split d [] = [[]]"
| "str_split d (c # cs) =
    (if c = d then [] # str_split d cs
     else case str_split d cs of s # ss \<Rightarrow> (c # s) # ss | [] \<Rightarrow> [[c]])"

fun split_once :: "char \<Rightarrow> string \<Rightarrow> (string \<times> string) option" where
  "split_once d [] = None"
| "split_once d (c # cs) =
    (if c = d then Some ([], cs) else map_option (\<lambda>(a, b). (c # a, b)) (split_once d cs))"

text \<open>\<open>iter().map(f).collect::<Option<_>>()\<close>.\<close>

fun collect :: "('a \<Rightarrow> 'b option) \<Rightarrow> 'a list \<Rightarrow> 'b list option" where
  "collect f [] = Some []"
| "collect f (x # xs) =
    (case f x of None \<Rightarrow> None | Some y \<Rightarrow> map_option (\<lambda>ys. y # ys) (collect f xs))"

text \<open>\<open>x - 1\<close> on a \<open>usize\<close> in a release build.\<close>

definition usize_pred :: "nat \<Rightarrow> nat" where
  "usize_pred x = (if x = 0 then 2 ^ 64 - 1 else x - 1)"

lemma usize_pred_pos [simp]: "0 < x \<Longrightarrow> usize_pred x = x - 1"
  by (simp add: usize_pred_def)

lemma str_split_nonempty: "str_split d s \<noteq> []"
  by (cases s) (auto split: list.splits)

lemma collect_length: "collect f xs = Some ys \<Longrightarrow> length ys = length xs"
  by (induction xs arbitrary: ys) (auto split: option.splits)

text \<open>Splitting undoes joining with the separator when no part holds it.\<close>

fun str_join :: "char \<Rightarrow> string list \<Rightarrow> string" where
  "str_join d [] = []"
| "str_join d [s] = s"
| "str_join d (s # t # ss) = s @ d # str_join d (t # ss)"

lemma str_split_part: "d \<notin> set s \<Longrightarrow> str_split d (s @ d # r) = s # str_split d r"
  by (induction s) auto

lemma str_split_single: "d \<notin> set s \<Longrightarrow> str_split d s = [s]"
  by (induction s) auto

lemma str_split_join:
  "ss \<noteq> [] \<Longrightarrow> \<forall>s\<in>set ss. d \<notin> set s \<Longrightarrow> str_split d (str_join d ss) = ss"
  by (induction d ss rule: str_join.induct) (auto simp: str_split_part str_split_single)

lemma collect_map: "\<forall>x\<in>set xs. f (g x) = Some (h x) \<Longrightarrow> collect f (map g xs) = Some (map h xs)"
  by (induction xs) auto

lemma parse_uint_show:
  assumes "n < 2 ^ bits" and "bits \<le> 64"
  shows "parse_uint bits (show_radix 10 n) = Some n"
proof -
  have "(2 :: nat) ^ bits \<le> 2 ^ 64" using assms(2) by (rule power_increasing) simp
  with assms(1) have "n < 2 ^ 64" by linarith
  moreover have "from_str_radix 10 (show_radix 10 n) = (if n < 2 ^ 64 then Some n else None)"
    by (intro from_str_radix_show) simp_all
  ultimately show ?thesis using assms(1) by (simp add: parse_uint_def)
qed

end
