(* ===== verification/Paging_Wire.thy ===== *)
theory Paging_Wire
  imports Residency Text_Parse
begin

text \<open>
  The control protocol between a paging client and the peer
  (crates/storage/src/snapshot_swap/wire.rs): the handshake header, the stripe plan of a
  transfer, one control request against the page table, the peer's loop and the client calls.

  A stream is the bytes still to be read, the bytes written, and how many more the other side
  takes before writes fail (\<open>None\<close>: any number). The texts of the errors are constructors with
  their arguments. \<open>flush\<close> does nothing on these streams, as on a TCP stream.
\<close>

subsection \<open>Streams\<close>

record io_stream =
  sk_in :: "byte list"
  sk_out :: "byte list"
  sk_room :: "nat option"

definition read_exact :: "nat \<Rightarrow> io_stream \<Rightarrow> byte list option \<times> io_stream" where
  "read_exact n s =
    (if length (sk_in s) < n then (None, s\<lparr> sk_in := [] \<rparr>)
     else (Some (take n (sk_in s)), s\<lparr> sk_in := drop n (sk_in s) \<rparr>))"

definition write_all :: "byte list \<Rightarrow> io_stream \<Rightarrow> bool \<times> io_stream" where
  "write_all bs s =
    (case sk_room s of
       None \<Rightarrow> (True, s\<lparr> sk_out := sk_out s @ bs \<rparr>)
     | Some m \<Rightarrow>
         if length bs \<le> m
         then (True, s\<lparr> sk_out := sk_out s @ bs, sk_room := Some (m - length bs) \<rparr>)
         else (False, s\<lparr> sk_out := sk_out s @ take m bs, sk_room := Some 0 \<rparr>))"

datatype wire_error =
    RetiredMagic u64w
  | BadMagic u64w
  | UnsupportedKind byte
  | ShortRead string
  | WriteFailed
  | Refused byte u64w byte

subsection \<open>The handshake header\<close>

definition PAGING_MAGIC_V1_RETIRED :: u64w where
  "PAGING_MAGIC_V1_RETIRED = 0x5041474500000001"

definition PAGING_MAGIC_V2 :: u64w where
  "PAGING_MAGIC_V2 = 0x5041474500000002"

datatype paging_kind = PagingKind (kind_byte: byte)

definition PK_SSM :: paging_kind where
  "PK_SSM = PagingKind 0"

definition PK_KV :: paging_kind where
  "PK_KV = PagingKind 1"

fun is_paging_rw :: "paging_kind \<Rightarrow> bool" where
  "is_paging_rw (PagingKind k) \<longleftrightarrow> k \<le> 1"

definition parse_paging_header ::
  "u64w \<Rightarrow> io_stream \<Rightarrow> (wire_error + paging_kind \<times> u64w \<times> u64w) \<times> io_stream" where
  "parse_paging_header first s =
    (if first = PAGING_MAGIC_V1_RETIRED then (Inl (RetiredMagic first), s)
     else if first \<noteq> PAGING_MAGIC_V2 then (Inl (BadMagic first), s)
     else
       (case read_exact 1 s of
          (None, s1) \<Rightarrow> (Inl (ShortRead ''read paging kind''), s1)
        | (Some kb, s1) \<Rightarrow>
            (let kind = PagingKind (kb ! 0) in
             if \<not> is_paging_rw kind then (Inl (UnsupportedKind (kb ! 0)), s1)
             else
               (case read_exact 8 s1 of
                  (None, s2) \<Rightarrow> (Inl (ShortRead ''read paging arena_bytes''), s2)
                | (Some b8, s2) \<Rightarrow>
                    (let arena_bytes = from_le_bytes b8 in
                     case read_exact 8 s2 of
                       (None, s3) \<Rightarrow> (Inl (ShortRead ''read paging blob_bytes''), s3)
                     | (Some c8, s3) \<Rightarrow> (Inr (kind, arena_bytes, from_le_bytes c8), s3))))))"

definition encode_paging_v2_header :: "paging_kind \<Rightarrow> u64w \<Rightarrow> u64w \<Rightarrow> byte list" where
  "encode_paging_v2_header kind arena_bytes blob_bytes =
    to_le_bytes PAGING_MAGIC_V2 @ [kind_byte kind] @ to_le_bytes arena_bytes @ to_le_bytes blob_bytes"

subsection \<open>Striping a transfer over rails\<close>

type_synonym rail = "(nat \<times> nat) list"

function stripe_loop :: "nat \<Rightarrow> nat \<Rightarrow> nat \<Rightarrow> nat \<Rightarrow> nat \<Rightarrow> rail list \<Rightarrow> rail list" where
  "stripe_loop blob_bytes cb n off j rails =
    (if off < blob_bytes then
       (let len = min (max cb 1) (blob_bytes - off) in
        stripe_loop blob_bytes cb n (off + len) (j + 1)
          (rails[j mod n := vec_push (rails ! (j mod n)) (off, len)]))
     else rails)"
  by pat_completeness auto
termination
  by (relation "measure (\<lambda>(blob_bytes, cb, n, off, j, rails). blob_bytes - off)") auto

declare stripe_loop.simps [simp del]

definition stripe_plan :: "nat \<Rightarrow> nat \<Rightarrow> nat \<Rightarrow> rail list" where
  "stripe_plan blob_bytes chunk_bytes n_rails =
    (let n = max n_rails 1; cb = max chunk_bytes 1 in
     stripe_loop blob_bytes cb n 0 0 (replicate n []))"

text \<open>The two settings, from the value of their environment variable.\<close>

definition staging_chunk_bytes :: "string option \<Rightarrow> nat" where
  "staging_chunk_bytes var =
    (case Option.bind var (parse_uint 64) of
       Some v \<Rightarrow> if 4096 \<le> v then v else 1024 * 1024
     | None \<Rightarrow> 1024 * 1024)"

definition staging_depth :: "string option \<Rightarrow> nat" where
  "staging_depth var =
    (let v = (case Option.bind var (parse_uint 64) of Some v \<Rightarrow> v | None \<Rightarrow> 16)
     in max 1 (min v 128))"

subsection \<open>Requests and replies\<close>

definition OP_BYE :: byte where "OP_BYE = 0"
definition OP_ALLOC :: byte where "OP_ALLOC = 1"
definition OP_COMMIT :: byte where "OP_COMMIT = 2"
definition OP_GET :: byte where "OP_GET = 3"
definition OP_REMOVE :: byte where "OP_REMOVE = 4"
definition ST_OK :: byte where "ST_OK = 0"
definition ST_MISS :: byte where "ST_MISS = 1"
definition ST_ERR :: byte where "ST_ERR = 2"

lemmas wire_codes = OP_BYE_def OP_ALLOC_def OP_COMMIT_def OP_GET_def OP_REMOVE_def
  ST_OK_def ST_MISS_def ST_ERR_def

datatype paging_reply = Located u64w | ReplyOk | ReplyMiss | ReplyErr | ReplyBye

definition dispatch ::
  "'a arena_ops \<Rightarrow> 's store_ops \<Rightarrow> byte \<Rightarrow> u64w \<Rightarrow> ('a, 's) residency
     \<Rightarrow> paging_reply \<times> ('a, 's) residency" where
  "dispatch ao so code key r =
    (if code = OP_BYE then (ReplyBye, r)
     else if code = OP_ALLOC then
       (case rs_alloc ao so key r of
          (Inr slot, r') \<Rightarrow> (Located (of_nat (rs_slot_offset r' slot)), r')
        | (Inl e, r') \<Rightarrow> (ReplyErr, r'))
     else if code = OP_COMMIT then
       (case rs_commit key r of
          (None, r') \<Rightarrow> (ReplyOk, r')
        | (Some e, r') \<Rightarrow> (ReplyErr, r'))
     else if code = OP_GET then
       (case rs_locate ao so key r of
          (Inr (Some slot), r') \<Rightarrow> (Located (of_nat (rs_slot_offset r' slot)), r')
        | (Inr None, r') \<Rightarrow> (ReplyMiss, r')
        | (Inl e, r') \<Rightarrow> (ReplyErr, r'))
     else if code = OP_REMOVE then (ReplyOk, rs_remove so key r)
     else (ReplyErr, r))"

fun write_reply :: "paging_reply \<Rightarrow> io_stream \<Rightarrow> bool \<times> io_stream" where
  "write_reply (Located off) s =
    (case write_all [ST_OK] s of
       (False, s1) \<Rightarrow> (False, s1)
     | (True, s1) \<Rightarrow> write_all (to_le_bytes off) s1)"
| "write_reply ReplyOk s = write_all [ST_OK] s"
| "write_reply ReplyMiss s = write_all [ST_MISS] s"
| "write_reply ReplyErr s = write_all [ST_ERR] s"
| "write_reply ReplyBye s = (True, s)"

fun is_located :: "paging_reply \<Rightarrow> bool" where
  "is_located (Located off) = True"
| "is_located _ = False"

definition unpin_held :: "u64w option \<Rightarrow> ('a, 's) residency \<Rightarrow> ('a, 's) residency" where
  "unpin_held pinned r = (case pinned of Some prev \<Rightarrow> rs_unpin_read prev r | None \<Rightarrow> r)"

definition handle_paging_op ::
  "'a arena_ops \<Rightarrow> 's store_ops \<Rightarrow> byte \<Rightarrow> u64w \<Rightarrow> u64w option \<Rightarrow> ('a, 's) residency
     \<Rightarrow> paging_reply \<times> u64w option \<times> ('a, 's) residency" where
  "handle_paging_op ao so code key pinned r =
    (case dispatch ao so code key (unpin_held pinned r) of
       (reply, r1) \<Rightarrow>
         if code = OP_GET \<and> is_located reply then (reply, Some key, rs_pin_read key r1)
         else (reply, None, r1))"

subsection \<open>The loop of the peer\<close>

text \<open>One turn of the loop of \<open>run_paging_loop\<close> and of \<open>run_paging_loop_shared\<close>: read a request,
  handle it, write the reply. \<open>Leave\<close> is the end of the loop, with the release of the pin that
  follows it; \<open>Fail\<close> is an early return by \<open>?\<close>, which skips that release.\<close>

datatype turn = Again | Leave | Fail wire_error

record conn =
  cn_stream :: io_stream
  cn_pinned :: "u64w option"

definition paging_turn ::
  "'a arena_ops \<Rightarrow> 's store_ops \<Rightarrow> conn \<Rightarrow> ('a, 's) residency \<Rightarrow> turn \<times> conn \<times> ('a, 's) residency"
where
  "paging_turn ao so c r =
    (case read_exact 1 (cn_stream c) of
       (None, s1) \<Rightarrow> (Leave, \<lparr> cn_stream = s1, cn_pinned = None \<rparr>, unpin_held (cn_pinned c) r)
     | (Some ob, s1) \<Rightarrow>
         if ob ! 0 = OP_BYE
         then (Leave, \<lparr> cn_stream = s1, cn_pinned = None \<rparr>, unpin_held (cn_pinned c) r)
         else
           (case read_exact 8 s1 of
              (None, s2) \<Rightarrow> (Fail (ShortRead ''read paging key''), c\<lparr> cn_stream := s2 \<rparr>, r)
            | (Some kb, s2) \<Rightarrow>
                (case handle_paging_op ao so (ob ! 0) (from_le_bytes kb) (cn_pinned c) r of
                   (reply, pinned, r1) \<Rightarrow>
                     (case write_reply reply s2 of
                        (True, s3) \<Rightarrow> (Again, \<lparr> cn_stream = s3, cn_pinned = pinned \<rparr>, r1)
                      | (False, s3) \<Rightarrow>
                          (Fail WriteFailed, \<lparr> cn_stream = s3, cn_pinned = pinned \<rparr>, r1)))))"

lemma read_exact_Some:
  "read_exact n s = (Some bs, s') \<longleftrightarrow> n \<le> length (sk_in s) \<and> bs = take n (sk_in s) \<and> s' = s\<lparr> sk_in := drop n (sk_in s) \<rparr>"
  by (auto simp: read_exact_def)

lemma write_all_in: "write_all bs s = (b, s') \<Longrightarrow> sk_in s' = sk_in s"
  by (auto simp: write_all_def split: option.splits if_splits)

lemma write_reply_in: "write_reply reply s = (b, s') \<Longrightarrow> sk_in s' = sk_in s"
  by (cases reply) (auto dest!: write_all_in split: prod.splits bool.splits)

lemma paging_turn_Again:
  assumes "paging_turn ao so c r = (Again, c', r')"
  obtains ob kb s2 reply pinned s3
  where "read_exact 8 (cn_stream c\<lparr> sk_in := drop 1 (sk_in (cn_stream c)) \<rparr>) = (Some kb, s2)"
    and "ob # drop 1 (sk_in (cn_stream c)) = sk_in (cn_stream c)" and "ob \<noteq> OP_BYE"
    and "handle_paging_op ao so ob (from_le_bytes kb) (cn_pinned c) r = (reply, pinned, r')"
    and "write_reply reply s2 = (True, s3)"
    and "c' = \<lparr> cn_stream = s3, cn_pinned = pinned \<rparr>"
proof (cases "sk_in (cn_stream c)")
  case Nil
  then show ?thesis using assms by (simp add: paging_turn_def read_exact_def)
next
  case (Cons ob rest)
  then have o: "read_exact 1 (cn_stream c) = (Some [ob], cn_stream c\<lparr> sk_in := rest \<rparr>)"
    by (simp add: read_exact_def)
  have d: "drop 1 (ob # rest) = rest" by simp
  show ?thesis using assms Cons that [of _ _ ob]
    by (auto simp del: One_nat_def simp: paging_turn_def o d
        split: if_splits option.splits prod.splits bool.splits)
qed

lemma paging_turn_consumes:
  assumes "paging_turn ao so c r = (Again, c', r')"
  shows "length (sk_in (cn_stream c')) < length (sk_in (cn_stream c))"
proof -
  from assms obtain ob kb s2 reply pinned s3 where
    "read_exact 8 (cn_stream c\<lparr> sk_in := drop 1 (sk_in (cn_stream c)) \<rparr>) = (Some kb, s2)"
    and c: "ob # drop 1 (sk_in (cn_stream c)) = sk_in (cn_stream c)"
    and w: "write_reply reply s2 = (True, s3)" and c': "c' = \<lparr> cn_stream = s3, cn_pinned = pinned \<rparr>"
    by (rule paging_turn_Again)
  then have "sk_in s3 = drop 8 (drop 1 (sk_in (cn_stream c)))"
    by (simp add: read_exact_Some write_reply_in [OF w])
  moreover have "sk_in (cn_stream c) \<noteq> []" using c by force
  ultimately show ?thesis by (simp add: c')
qed

function run_paging_loop ::
  "'a arena_ops \<Rightarrow> 's store_ops \<Rightarrow> conn \<Rightarrow> ('a, 's) residency
     \<Rightarrow> wire_error option \<times> conn \<times> ('a, 's) residency" where
  "run_paging_loop ao so c r =
    (case paging_turn ao so c r of
       (Again, c', r') \<Rightarrow> run_paging_loop ao so c' r'
     | (Leave, c', r') \<Rightarrow> (None, c', r')
     | (Fail e, c', r') \<Rightarrow> (Some e, c', r'))"
  by pat_completeness auto
termination
  by (relation "measure (\<lambda>(ao, so, c, r). length (sk_in (cn_stream c)))")
    (auto dest!: paging_turn_consumes [OF sym])

declare run_paging_loop.simps [simp del]

subsection \<open>The client\<close>

definition send_req :: "byte \<Rightarrow> u64w \<Rightarrow> io_stream \<Rightarrow> bool \<times> io_stream" where
  "send_req code key s = write_all (code # to_le_bytes key) s"

definition read_status :: "io_stream \<Rightarrow> (wire_error + byte) \<times> io_stream" where
  "read_status s =
    (case read_exact 1 s of
       (None, s1) \<Rightarrow> (Inl (ShortRead ''read paging status''), s1)
     | (Some b, s1) \<Rightarrow> (Inr (b ! 0), s1))"

definition read_offset :: "io_stream \<Rightarrow> (wire_error + u64w) \<times> io_stream" where
  "read_offset s =
    (case read_exact 8 s of
       (None, s1) \<Rightarrow> (Inl (ShortRead ''read paging offset''), s1)
     | (Some b, s1) \<Rightarrow> (Inr (from_le_bytes b), s1))"

definition client_alloc :: "u64w \<Rightarrow> io_stream \<Rightarrow> (wire_error + u64w) \<times> io_stream" where
  "client_alloc key s =
    (case send_req OP_ALLOC key s of
       (False, s1) \<Rightarrow> (Inl WriteFailed, s1)
     | (True, s1) \<Rightarrow>
         (case read_status s1 of
            (Inl e, s2) \<Rightarrow> (Inl e, s2)
          | (Inr st, s2) \<Rightarrow>
              if st = ST_OK then read_offset s2 else (Inl (Refused OP_ALLOC key st), s2)))"

definition client_commit :: "u64w \<Rightarrow> io_stream \<Rightarrow> wire_error option \<times> io_stream" where
  "client_commit key s =
    (case send_req OP_COMMIT key s of
       (False, s1) \<Rightarrow> (Some WriteFailed, s1)
     | (True, s1) \<Rightarrow>
         (case read_status s1 of
            (Inl e, s2) \<Rightarrow> (Some e, s2)
          | (Inr st, s2) \<Rightarrow>
              if st = ST_OK then (None, s2) else (Some (Refused OP_COMMIT key st), s2)))"

definition client_get :: "u64w \<Rightarrow> io_stream \<Rightarrow> (wire_error + u64w option) \<times> io_stream" where
  "client_get key s =
    (case send_req OP_GET key s of
       (False, s1) \<Rightarrow> (Inl WriteFailed, s1)
     | (True, s1) \<Rightarrow>
         (case read_status s1 of
            (Inl e, s2) \<Rightarrow> (Inl e, s2)
          | (Inr st, s2) \<Rightarrow>
              if st = ST_OK then
                (case read_offset s2 of (Inl e, s3) \<Rightarrow> (Inl e, s3) | (Inr off, s3) \<Rightarrow> (Inr (Some off), s3))
              else if st = ST_MISS then (Inr None, s2)
              else (Inl (Refused OP_GET key st), s2)))"

definition client_remove :: "u64w \<Rightarrow> io_stream \<Rightarrow> wire_error option \<times> io_stream" where
  "client_remove key s =
    (case send_req OP_REMOVE key s of
       (False, s1) \<Rightarrow> (Some WriteFailed, s1)
     | (True, s1) \<Rightarrow>
         (case read_status s1 of
            (Inl e, s2) \<Rightarrow> (Some e, s2)
          | (Inr st, s2) \<Rightarrow>
              if st = ST_OK then (None, s2) else (Some (Refused OP_REMOVE key st), s2)))"

definition client_bye :: "io_stream \<Rightarrow> wire_error option \<times> io_stream" where
  "client_bye s = (case send_req OP_BYE 0 s of (False, s1) \<Rightarrow> (Some WriteFailed, s1) | (True, s1) \<Rightarrow> (None, s1))"

end
