(* ===== verification/Slot_Ledger.thy ===== *)
theory Slot_Ledger
  imports Prelude
begin

text \<open>
  Who has each of \<open>N\<close> numbered slots: the free list, the code that is between taking a slot
  and recording it (\<open>H\<close>, the slots in hand), or the key a table assigns it to (\<open>f\<close>).
  \<open>parts N fr H f\<close> says that every slot below \<open>N\<close> has exactly one of these owners and no
  other number has any. The arena slots and the store records of the residency and the SSM state
  slots are such ledgers; the five lemmas are the moves their operations make.
\<close>

definition parts :: "nat \<Rightarrow> nat list \<Rightarrow> nat set \<Rightarrow> ('k \<rightharpoonup> nat) \<Rightarrow> bool" where
  "parts N fr H f \<longleftrightarrow> distinct fr
     \<and> (\<forall>s. (s \<in> set fr \<or> s \<in> H \<or> (\<exists>k. f k = Some s)) \<longleftrightarrow> s < N)
     \<and> (\<forall>s. s \<in> set fr \<longrightarrow> s \<notin> H)
     \<and> (\<forall>k s. f k = Some s \<longrightarrow> s \<notin> set fr \<and> s \<notin> H)
     \<and> (\<forall>k k' s. f k = Some s \<longrightarrow> f k' = Some s \<longrightarrow> k = k')"

lemma parts_init: "parts N (rev [0..<N]) {} Map.empty"
  by (auto simp: parts_def)

lemma parts_pop: "parts N (fr @ [s]) H f \<Longrightarrow> parts N fr (insert s H) f"
  unfolding parts_def by (intro conjI) (simp; blast)+

lemma parts_pop_notin: "parts N (fr @ [s]) H f \<Longrightarrow> s \<notin> H \<and> s < N \<and> s \<notin> ran f"
  unfolding parts_def ran_def by auto

lemma parts_push: "parts N fr H f \<Longrightarrow> s \<in> H \<Longrightarrow> parts N (vec_push fr s) (H - {s}) f"
  unfolding parts_def by (intro conjI) (simp; blast)+

lemma parts_assign:
  "parts N fr H f \<Longrightarrow> s \<in> H \<Longrightarrow> f k = None \<Longrightarrow> parts N fr (H - {s}) (f(k := Some s))"
  unfolding parts_def by (intro conjI) (simp; metis option.distinct(1) option.inject)+

lemma parts_unassign: "parts N fr H f \<Longrightarrow> f k = Some s \<Longrightarrow> parts N fr (insert s H) (f(k := None))"
  unfolding parts_def by (intro conjI) (simp; metis option.distinct(1) option.inject)+

lemma parts_grow: "parts N fr H f \<Longrightarrow> parts (Suc N) fr (insert N H) f"
  unfolding parts_def by (intro conjI) (simp; metis less_Suc_eq less_irrefl)+

lemma parts_inj: "parts N fr H f \<Longrightarrow> f k = Some s \<Longrightarrow> f k' = Some s \<Longrightarrow> k = k'"
  unfolding parts_def by blast

lemma parts_bound: "parts N fr H f \<Longrightarrow> f k = Some s \<Longrightarrow> s < N"
  unfolding parts_def by blast

lemma parts_owned: "parts N fr H f \<Longrightarrow> f k = Some s \<Longrightarrow> s \<notin> set fr \<and> s \<notin> H"
  unfolding parts_def by blast

lemma parts_hand: "parts N fr H f \<Longrightarrow> s \<in> H \<Longrightarrow> s < N \<and> f k \<noteq> Some s \<and> s \<notin> set fr"
  unfolding parts_def by blast

lemma parts_free: "parts N fr H f \<Longrightarrow> s \<in> set fr \<Longrightarrow> s < N \<and> f k \<noteq> Some s \<and> s \<notin> H"
  unfolding parts_def by blast

text \<open>With nothing free and nothing in hand, every slot is assigned, to as many keys.\<close>

lemma parts_full:
  assumes "parts N [] {} f"
  shows "card (dom f) = N"
proof -
  have "ran f = {..<N}" using assms unfolding parts_def ran_def by auto
  moreover have "inj_on f (dom f)"
    using assms unfolding parts_def inj_on_def by (metis domD)
  then have "card (f ` dom f) = card (dom f)" by (rule card_image)
  moreover have "f ` dom f = Some ` ran f" by (auto simp: ran_def dom_def image_iff) metis
  ultimately show ?thesis by (simp add: card_image)
qed

end
