(* ===== verification/Residency_Inv.thy ===== *)
theory Residency_Inv
  imports Residency Slot_Ledger
begin

text \<open>
  The page-table invariant of \<open>Residency\<close> and its preservation by every operation, for every
  arena and every store: each arena slot and each store record has exactly one owner, the two
  queues list exactly the evictable residents and the on-disk keys, and a read-pinned key is never
  on disk. The sets \<open>H\<close>, \<open>D\<close> (slots and records in hand) and \<open>X\<close>, \<open>Y\<close> (keys taken out
  of \<open>disk_lru\<close>, \<open>lru\<close>) describe the states inside an operation; they are empty between calls.
\<close>

fun slot_of :: "loc option \<Rightarrow> nat option" where
  "slot_of (Some (Reserved s)) = Some s"
| "slot_of (Some (Resident s)) = Some s"
| "slot_of _ = None"

fun disk_of :: "loc option \<Rightarrow> nat option" where
  "disk_of (Some (OnDisk d)) = Some d"
| "disk_of _ = None"

fun is_resident :: "loc option \<Rightarrow> bool" where
  "is_resident (Some (Resident s)) = True"
| "is_resident _ = False"

abbreviation rs_slots :: "('a, 's) residency \<Rightarrow> u64w \<rightharpoonup> nat" where
  "rs_slots r \<equiv> slot_of \<circ> rs_map r"

abbreviation rs_disks :: "('a, 's) residency \<Rightarrow> u64w \<rightharpoonup> nat" where
  "rs_disks r \<equiv> disk_of \<circ> rs_map r"

definition rs_ok ::
  "nat \<Rightarrow> nat set \<Rightarrow> nat set \<Rightarrow> u64w set \<Rightarrow> u64w set \<Rightarrow> ('a, 's) residency \<Rightarrow> bool" where
  "rs_ok n H D X Y r \<longleftrightarrow>
     parts n (rs_free_slots r) H (rs_slots r)
     \<and> parts (rs_next_disk r) (rs_free_disk r) D (rs_disks r)
     \<and> distinct (rs_lru r)
     \<and> (\<forall>k. k \<in> set (rs_lru r) \<longleftrightarrow> is_resident (rs_map r k) \<and> rs_read_pins r k = None \<and> k \<notin> Y)
     \<and> distinct (rs_disk_lru r)
     \<and> (\<forall>k. k \<in> set (rs_disk_lru r) \<longleftrightarrow> rs_disks r k \<noteq> None \<and> k \<notin> X)
     \<and> (\<forall>k m. rs_read_pins r k = Some m \<longrightarrow> 0 < m \<and> rs_disks r k = None)"

abbreviation rs_inv :: "nat \<Rightarrow> ('a, 's) residency \<Rightarrow> bool" where
  "rs_inv n r \<equiv> rs_ok n {} {} {} {} r"

lemma slot_of_upd [simp]: "slot_of \<circ> (m(k := v)) = (slot_of \<circ> m)(k := slot_of v)"
  by (simp add: fun_eq_iff)

lemma disk_of_upd [simp]: "disk_of \<circ> (m(k := v)) = (disk_of \<circ> m)(k := disk_of v)"
  by (simp add: fun_eq_iff)

lemma is_resident_iff: "is_resident v \<longleftrightarrow> (\<exists>s. v = Some (Resident s))"
  by (cases v rule: is_resident.cases) auto

lemma disk_of_iff: "disk_of v = Some d \<longleftrightarrow> v = Some (OnDisk d)"
  by (cases v rule: disk_of.cases) auto

lemma rs_okI:
  assumes "parts n (rs_free_slots r) H (rs_slots r)"
    and "parts (rs_next_disk r) (rs_free_disk r) D (rs_disks r)"
    and "distinct (rs_lru r)"
    and "\<And>k. k \<in> set (rs_lru r) \<longleftrightarrow> is_resident (rs_map r k) \<and> rs_read_pins r k = None \<and> k \<notin> Y"
    and "distinct (rs_disk_lru r)"
    and "\<And>k. k \<in> set (rs_disk_lru r) \<longleftrightarrow> rs_disks r k \<noteq> None \<and> k \<notin> X"
    and "\<And>k m. rs_read_pins r k = Some m \<Longrightarrow> 0 < m \<and> rs_disks r k = None"
  shows "rs_ok n H D X Y r"
  using assms by (simp add: rs_ok_def)

lemma rs_okD:
  assumes "rs_ok n H D X Y r"
  shows rs_ok_slots: "parts n (rs_free_slots r) H (rs_slots r)"
    and rs_ok_disks: "parts (rs_next_disk r) (rs_free_disk r) D (rs_disks r)"
    and rs_ok_lru: "distinct (rs_lru r)"
      "\<And>k. k \<in> set (rs_lru r) \<longleftrightarrow> is_resident (rs_map r k) \<and> rs_read_pins r k = None \<and> k \<notin> Y"
    and rs_ok_disk_lru: "distinct (rs_disk_lru r)"
      "\<And>k. k \<in> set (rs_disk_lru r) \<longleftrightarrow> rs_disks r k \<noteq> None \<and> k \<notin> X"
    and rs_ok_pins: "\<And>k m. rs_read_pins r k = Some m \<Longrightarrow> 0 < m \<and> rs_disks r k = None"
  using assms by (simp_all add: rs_ok_def)

text \<open>Fields the invariant does not read.\<close>

lemma rs_ok_frame [simp]:
  "rs_ok n H D X Y (r\<lparr> rs_stats := st \<rparr>) = rs_ok n H D X Y r"
  "rs_ok n H D X Y (r\<lparr> rs_arena := a \<rparr>) = rs_ok n H D X Y r"
  "rs_ok n H D X Y (r\<lparr> rs_swap := s \<rparr>) = rs_ok n H D X Y r"
  by (simp_all add: rs_ok_def)

lemma rs_ok_same:
  assumes "rs_ok n H D X Y r" and "rs_map r' = rs_map r" and "rs_free_slots r' = rs_free_slots r"
    and "rs_free_disk r' = rs_free_disk r" and "rs_next_disk r' = rs_next_disk r"
    and "rs_lru r' = rs_lru r" and "rs_disk_lru r' = rs_disk_lru r"
    and "rs_read_pins r' = rs_read_pins r"
  shows "rs_ok n H D X Y r'"
  using assms(1) by (simp add: rs_ok_def assms(2-))

subsection \<open>The moves between the states inside an operation\<close>

lemma rs_ok_take_slot:
  assumes "rs_ok n H D X Y r" and "vec_pop (rs_free_slots r) = Some (s, rest)"
  shows "rs_ok n (insert s H) D X Y (r\<lparr> rs_free_slots := rest \<rparr>)"
  using rs_okD [OF assms(1)] assms(2) by (intro rs_okI) (auto simp: vec_pop_Some intro: parts_pop)

lemma rs_ok_give_slot:
  assumes "rs_ok n H D X Y r" and "s \<in> H"
  shows "rs_ok n (H - {s}) D X Y (r\<lparr> rs_free_slots := vec_push (rs_free_slots r) s \<rparr>)"
  using rs_okD [OF assms(1)] assms(2) by (intro rs_okI) (simp_all add: parts_push)

lemma rs_ok_give_disk:
  assumes "rs_ok n H D X Y r" and "d \<in> D"
  shows "rs_ok n H (D - {d}) X Y (r\<lparr> rs_free_disk := vec_push (rs_free_disk r) d \<rparr>)"
  using rs_okD [OF assms(1)] assms(2) by (intro rs_okI) (simp_all add: parts_push)

lemma rs_ok_alloc_disk:
  assumes "rs_ok n H D X Y r" and "rs_alloc_disk_slot r = (d, r')"
  shows "rs_ok n H (insert d D) X Y r'"
proof (cases "vec_pop (rs_free_disk r)")
  case None
  with assms(2) have "d = rs_next_disk r" "r' = r\<lparr> rs_next_disk := rs_next_disk r + 1 \<rparr>"
    by (auto simp: rs_alloc_disk_slot_def)
  with rs_okD [OF assms(1)] show ?thesis by (intro rs_okI) (simp_all add: parts_grow)
next
  case (Some p)
  then obtain rest where "vec_pop (rs_free_disk r) = Some (d, rest)" "r' = r\<lparr> rs_free_disk := rest \<rparr>"
    using assms(2) by (auto simp: rs_alloc_disk_slot_def split: prod.splits)
  with rs_okD [OF assms(1)] show ?thesis
    by (intro rs_okI) (auto simp: vec_pop_Some intro: parts_pop)
qed

lemma rs_ok_disk_key:
  assumes "rs_ok n H D X Y r" and "k \<in> set (rs_disk_lru r)"
  obtains d where "rs_map r k = Some (OnDisk d)" and "k \<notin> X"
proof -
  from rs_ok_disk_lru(2) [OF assms(1), of k] assms(2)
  have "rs_disks r k \<noteq> None" and x: "k \<notin> X" by blast+
  then obtain d where "disk_of (rs_map r k) = Some d" by auto
  then have "rs_map r k = Some (OnDisk d)" by (simp add: disk_of_iff)
  then show thesis using x by (rule that)
qed

lemma rs_ok_lru_key:
  assumes "rs_ok n H D X Y r" and "k \<in> set (rs_lru r)"
  obtains s where "rs_map r k = Some (Resident s)" and "rs_read_pins r k = None" and "k \<notin> Y"
proof -
  from rs_ok_lru(2) [OF assms(1), of k] assms(2)
  have "is_resident (rs_map r k)" "rs_read_pins r k = None" "k \<notin> Y" by blast+
  then show thesis using that by (auto simp: is_resident_iff)
qed

lemma rs_ok_drop_cold:
  assumes "rs_ok n H D X Y r" and "rs_disk_lru r = cold # rest"
  shows "rs_ok n H D X Y (rs_drop_cold so cold rest r)"
proof -
  obtain ds where ds: "rs_map r cold = Some (OnDisk ds)" and x: "cold \<notin> X"
    using rs_ok_disk_key [OF assms(1), of cold] assms(2) by auto
  note ok = rs_okD [OF assms(1)]
  have notD: "ds \<notin> D" using parts_owned [OF ok(2), of cold ds] ds by simp
  have "parts (rs_next_disk r) (rs_free_disk r) (insert ds D) ((rs_disks r)(cold := None))"
    by (rule parts_unassign [OF ok(2)]) (simp add: ds)
  then have disks: "parts (rs_next_disk r) (vec_push (rs_free_disk r) ds) D
      ((rs_disks r)(cold := None))"
    using parts_push [of _ _ "insert ds D" _ ds] notD by fastforce
  have slots: "parts n (rs_free_slots r) H ((rs_slots r)(cold := None))"
    using ok(1) ds by (simp add: fun_upd_idem)
  have "rs_ok n H D X Y (r\<lparr> rs_disk_lru := rest, rs_map := (rs_map r)(cold := None),
      rs_free_disk := vec_push (rs_free_disk r) ds \<rparr>)"
  proof (rule rs_okI, goal_cases)
    case (4 k)
    then show ?case using ok(4) [of k] ds by auto
  next
    case (6 k)
    then show ?case using ok(5) ok(6) [of k] assms(2) by auto
  next
    case (7 k m)
    then show ?case using ok(7) [of k m] by auto
  qed (use ok(3,5) assms(2) slots disks in simp_all)
  then show ?thesis by (simp add: rs_drop_cold_def ds Let_def rs_ok_def)
qed

lemma rs_make_room_loop_ok:
  "rs_ok n H D X Y r \<Longrightarrow> rs_ok n H D X Y (rs_make_room_loop so r)
   \<and> (\<forall>k. rs_disks r k = None \<or> k \<in> X \<longrightarrow> rs_map (rs_make_room_loop so r) k = rs_map r k)
   \<and> rs_lru (rs_make_room_loop so r) = rs_lru r
   \<and> rs_read_pins (rs_make_room_loop so r) = rs_read_pins r
   \<and> rs_free_slots (rs_make_room_loop so r) = rs_free_slots r
   \<and> rs_arena (rs_make_room_loop so r) = rs_arena r
   \<and> rs_max_disk_slots (rs_make_room_loop so r) = rs_max_disk_slots r
   \<and> rs_blob_bytes (rs_make_room_loop so r) = rs_blob_bytes r"
proof (induction so r rule: rs_make_room_loop.induct)
  case (1 so r)
  show ?case
  proof (cases "rs_max_disk_slots r \<le> length (rs_disk_lru r) \<and> rs_disk_lru r \<noteq> []")
    case True
    then obtain cold rest where cr: "rs_disk_lru r = cold # rest" by (cases "rs_disk_lru r") auto
    obtain ds where ds: "rs_map r cold = Some (OnDisk ds)" and x: "cold \<notin> X"
      using rs_ok_disk_key [OF "1.prems", of cold] cr by auto
    have step: "rs_make_room_loop so r = rs_make_room_loop so (rs_drop_cold so cold rest r)"
      using True cr by (subst rs_make_room_loop.simps) simp
    have "rs_ok n H D X Y (rs_drop_cold so cold rest r)"
      by (rule rs_ok_drop_cold [OF "1.prems" cr])
    note IH = "1.IH" [OF conjunct1 [OF True] cr this]
    have "rs_map (rs_make_room_loop so r) k = rs_map r k"
      if "rs_disks r k = None \<or> k \<in> X" for k
    proof -
      have "k \<noteq> cold" using that ds x by auto
      then show ?thesis using IH that by (auto simp: step)
    qed
    then show ?thesis using IH by (simp add: step)
  next
    case False
    then have "rs_make_room_loop so r = r"
      by (subst rs_make_room_loop.simps) (auto split: list.split)
    then show ?thesis using "1.prems" by simp
  qed
qed

lemma rs_make_disk_room_ok:
  assumes "rs_ok n H D X Y r"
  shows "rs_ok n H D X Y (rs_make_disk_room so r)
   \<and> (\<forall>k. rs_disks r k = None \<or> k \<in> X \<longrightarrow> rs_map (rs_make_disk_room so r) k = rs_map r k)
   \<and> rs_lru (rs_make_disk_room so r) = rs_lru r
   \<and> rs_read_pins (rs_make_disk_room so r) = rs_read_pins r
   \<and> rs_free_slots (rs_make_disk_room so r) = rs_free_slots r
   \<and> rs_arena (rs_make_disk_room so r) = rs_arena r
   \<and> rs_max_disk_slots (rs_make_disk_room so r) = rs_max_disk_slots r
   \<and> rs_blob_bytes (rs_make_disk_room so r) = rs_blob_bytes r"
  using rs_make_room_loop_ok [OF assms] assms by (simp add: rs_make_disk_room_def)

lemma rs_alloc_disk_slot_frame:
  assumes "rs_alloc_disk_slot r = (d, r')"
  shows "rs_map r' = rs_map r \<and> rs_lru r' = rs_lru r \<and> rs_disk_lru r' = rs_disk_lru r
    \<and> rs_read_pins r' = rs_read_pins r \<and> rs_free_slots r' = rs_free_slots r
    \<and> rs_arena r' = rs_arena r \<and> rs_swap r' = rs_swap r
    \<and> rs_max_disk_slots r' = rs_max_disk_slots r \<and> rs_blob_bytes r' = rs_blob_bytes r"
  using assms by (auto simp: rs_alloc_disk_slot_def split: option.splits prod.splits)

subsection \<open>Spilling the coldest resident\<close>

lemma rs_ok_hide_lru:
  assumes "rs_ok n H D X {} r" and "rs_lru r = victim # lru'"
  shows "rs_ok n H D X {victim} (r\<lparr> rs_lru := lru' \<rparr>)"
proof (rule rs_okI, goal_cases)
  case (4 k)
  then show ?case using rs_ok_lru(2) [OF assms(1), of k] rs_ok_lru(1) [OF assms(1)] assms(2) by auto
qed (use rs_okD [OF assms(1)] assms(2) in simp_all)

lemma rs_ok_show_lru:
  assumes "rs_ok n H D X {victim} r" and "rs_map r victim = Some (Resident s)"
    and "rs_read_pins r victim = None"
  shows "rs_ok n H D X {} (r\<lparr> rs_lru := victim # rs_lru r \<rparr>)"
proof (rule rs_okI, goal_cases)
  case 3
  then show ?case using rs_ok_lru(2) [OF assms(1), of victim] rs_ok_lru(1) [OF assms(1)] by simp
next
  case (4 k)
  then show ?case using rs_ok_lru(2) [OF assms(1), of k] assms(2,3) by auto
qed (use rs_okD [OF assms(1)] in simp_all)

lemma rs_ok_spilled:
  assumes "rs_ok n H {d} X {victim} r" and "rs_map r victim = Some (Resident s)"
    and "rs_read_pins r victim = None" and "victim \<notin> X"
  shows "rs_ok n (insert s H) {} X {}
    (r\<lparr> rs_map := (rs_map r)(victim \<mapsto> OnDisk d), rs_disk_lru := rs_disk_lru r @ [victim] \<rparr>)"
proof (rule rs_okI, goal_cases)
  case 1
  show ?case using parts_unassign [OF rs_ok_slots [OF assms(1)], of victim s] assms(2) by simp
next
  case 2
  show ?case using parts_assign [OF rs_ok_disks [OF assms(1)], of d victim] assms(2) by simp
next
  case (4 k)
  show ?case using rs_ok_lru(2) [OF assms(1), of k] by (cases "k = victim") auto
next
  case 5
  show ?case using rs_ok_disk_lru(1) [OF assms(1)] rs_ok_disk_lru(2) [OF assms(1), of victim] assms(2)
    by simp
next
  case (6 k)
  show ?case using rs_ok_disk_lru(2) [OF assms(1), of k] assms(4) by (cases "k = victim") auto
next
  case (7 k m)
  then show ?case using rs_ok_pins [OF assms(1), of k m] assms(3) by (cases "k = victim") auto
qed (use rs_ok_lru(1) [OF assms(1)] in simp)

text \<open>What a spill reads and writes: the victim's slot, into one record.\<close>

definition rs_spill_write ::
  "'a arena_ops \<Rightarrow> 's store_ops \<Rightarrow> ('a, 's) residency \<Rightarrow> nat \<Rightarrow> nat \<Rightarrow> string option \<times> 's" where
  "rs_spill_write ao so r slot d =
    (case read_slot ao (rs_arena r) slot of
       Inl e \<Rightarrow> (Some e, rs_swap r)
     | Inr buf \<Rightarrow> write_record so (rs_swap r) d buf)"

lemma rs_evict_unfold:
  assumes "rs_lru r = victim # lru'" and "rs_map r victim = Some (Resident slot)"
    and "rs_alloc_disk_slot (rs_make_disk_room so (r\<lparr> rs_lru := lru' \<rparr>)) = (d, r2)"
    and "rs_spill_write ao so r2 slot d = (err, swap')"
  shows "rs_evict_coldest_to_disk ao so r =
    (case err of
       Some e \<Rightarrow> (Inl e, r2\<lparr> rs_swap := swap', rs_free_disk := vec_push (rs_free_disk r2) d,
                           rs_lru := victim # rs_lru r2 \<rparr>)
     | None \<Rightarrow> (Inr slot, r2\<lparr> rs_swap := swap', rs_map := (rs_map r2)(victim \<mapsto> OnDisk d),
                 rs_disk_lru := rs_disk_lru r2 @ [victim],
                 rs_stats := (rs_stats r2)\<lparr> st_spills_to_disk := st_spills_to_disk (rs_stats r2) + 1 \<rparr> \<rparr>))"
  using assms
  by (auto simp: rs_evict_coldest_to_disk_def rs_spill_write_def Let_def
      split: sum.splits option.splits prod.splits)

lemma rs_evict_ok:
  assumes ok: "rs_ok n H {} X {} r" and X: "\<forall>k \<in> X. rs_disks r k \<noteq> None"
    and ev: "rs_evict_coldest_to_disk ao so r = (res, r')"
  shows "(case res of Inl e \<Rightarrow> rs_ok n H {} X {} r' | Inr s \<Rightarrow> rs_ok n (insert s H) {} X {} r' \<and> s \<notin> H)
    \<and> (\<forall>k. k \<in> X \<or> \<not> is_resident (rs_map r k) \<and> rs_disks r k = None \<longrightarrow> rs_map r' k = rs_map r k)
    \<and> rs_read_pins r' = rs_read_pins r
    \<and> rs_arena r' = rs_arena r \<and> rs_blob_bytes r' = rs_blob_bytes r
    \<and> rs_max_disk_slots r' = rs_max_disk_slots r"
proof (cases "rs_lru r")
  case Nil
  then show ?thesis using ev ok by (auto simp: rs_evict_coldest_to_disk_def)
next
  case (Cons victim lru')
  obtain slot where slot: "rs_map r victim = Some (Resident slot)"
    and nopin: "rs_read_pins r victim = None"
    using rs_ok_lru_key [OF ok, of victim] Cons by auto
  have vX: "victim \<notin> X" using X slot by auto
  define r1 where "r1 = rs_make_disk_room so (r\<lparr> rs_lru := lru' \<rparr>)"
  obtain d r2 where ad: "rs_alloc_disk_slot r1 = (d, r2)" by force
  obtain err swap' where w: "rs_spill_write ao so r2 slot d = (err, swap')" by force
  note mr = rs_make_disk_room_ok [OF rs_ok_hide_lru [OF ok Cons], where so = so, folded r1_def]
  note fr = rs_alloc_disk_slot_frame [OF ad]
  have m1: "rs_map r1 k = rs_map r k" if "rs_disks r k = None \<or> k \<in> X" for k
    using mr that by auto
  have ok2: "rs_ok n H {d} X {victim} r2" using rs_ok_alloc_disk [OF conjunct1 [OF mr] ad] by simp
  have slot2: "rs_map r2 victim = Some (Resident slot)" using m1 [of victim] slot fr by simp
  have nopin2: "rs_read_pins r2 victim = None" using fr mr nopin by simp
  have sH: "slot \<notin> H" using parts_owned [OF rs_ok_slots [OF ok], of victim slot] slot by simp
  note unf = rs_evict_unfold [OF Cons slot ad [unfolded r1_def] w]
  have base: "(\<forall>k. k \<in> X \<or> \<not> is_resident (rs_map r k) \<and> rs_disks r k = None
        \<longrightarrow> rs_map r2 k = rs_map r k) \<and> rs_read_pins r2 = rs_read_pins r
    \<and> rs_arena r2 = rs_arena r \<and> rs_blob_bytes r2 = rs_blob_bytes r
    \<and> rs_max_disk_slots r2 = rs_max_disk_slots r"
    using fr mr m1 by simp
  show ?thesis
  proof (cases err)
    case None
    have "rs_ok n (insert slot H) {} X {}
      (r2\<lparr> rs_map := (rs_map r2)(victim \<mapsto> OnDisk d), rs_disk_lru := rs_disk_lru r2 @ [victim] \<rparr>)"
      by (rule rs_ok_spilled [OF ok2 slot2 nopin2 vX])
    moreover have "res = Inr slot" and
      r': "r' = r2\<lparr> rs_swap := swap', rs_map := (rs_map r2)(victim \<mapsto> OnDisk d),
                 rs_disk_lru := rs_disk_lru r2 @ [victim],
                 rs_stats := (rs_stats r2)\<lparr> st_spills_to_disk := st_spills_to_disk (rs_stats r2) + 1 \<rparr> \<rparr>"
      using ev unf None by simp_all
    ultimately show ?thesis using sH base vX slot by (auto simp: rs_ok_def)
  next
    case (Some e)
    have "rs_ok n H ({d} - {d}) X {victim}
        (r2\<lparr> rs_free_disk := vec_push (rs_free_disk r2) d \<rparr>)"
      by (rule rs_ok_give_disk [OF ok2]) simp
    then have "rs_ok n H {} X {victim} (r2\<lparr> rs_free_disk := vec_push (rs_free_disk r2) d \<rparr>)" by simp
    from rs_ok_show_lru [OF this, of slot]
    have "rs_ok n H {} X {} (r2\<lparr> rs_free_disk := vec_push (rs_free_disk r2) d,
        rs_lru := victim # rs_lru r2 \<rparr>)"
      using slot2 nopin2 by simp
    moreover have "res = Inl e" and
      "r' = r2\<lparr> rs_swap := swap', rs_free_disk := vec_push (rs_free_disk r2) d,
              rs_lru := victim # rs_lru r2 \<rparr>"
      using ev unf Some by simp_all
    ultimately show ?thesis using base by (auto simp: rs_ok_def)
  qed
qed

lemma rs_acquire_ok:
  assumes ok: "rs_ok n H {} X {} r" and X: "\<forall>k \<in> X. rs_disks r k \<noteq> None"
    and ac: "rs_acquire_slot ao so r = (res, r')"
  shows "(case res of Inl e \<Rightarrow> rs_ok n H {} X {} r' | Inr s \<Rightarrow> rs_ok n (insert s H) {} X {} r' \<and> s \<notin> H)
    \<and> (\<forall>k. k \<in> X \<or> \<not> is_resident (rs_map r k) \<and> rs_disks r k = None \<longrightarrow> rs_map r' k = rs_map r k)
    \<and> rs_read_pins r' = rs_read_pins r
    \<and> rs_arena r' = rs_arena r \<and> rs_blob_bytes r' = rs_blob_bytes r
    \<and> rs_max_disk_slots r' = rs_max_disk_slots r"
proof (cases "vec_pop (rs_free_slots r)")
  case None
  then show ?thesis using rs_evict_ok [OF ok X, of ao so res r'] ac by (simp add: rs_acquire_slot_def)
next
  case (Some p)
  then obtain s rest where pop: "vec_pop (rs_free_slots r) = Some (s, rest)"
    and r': "res = Inr s" "r' = r\<lparr> rs_free_slots := rest \<rparr>"
    using ac by (cases p) (auto simp: rs_acquire_slot_def)
  have "s \<notin> H"
    using parts_free [OF rs_ok_slots [OF ok], of s] pop by (simp add: vec_pop_Some)
  then show ?thesis using rs_ok_take_slot [OF ok pop] by (simp add: r')
qed

subsection \<open>Every operation keeps the invariant\<close>

lemma rs_ok_stats_lru:
  assumes "rs_inv n r" and "rs_map r key = Some (OnDisk d)"
  shows "rs_ok n {} {} {key} {} (rs_disk_lru_remove key r)"
proof (rule rs_okI, goal_cases)
  case (6 k)
  then show ?case
    using rs_ok_disk_lru [OF assms(1)] by (auto simp: rs_disk_lru_remove_def)
qed (use rs_okD [OF assms(1)] in \<open>simp_all add: rs_disk_lru_remove_def\<close>)

lemma rs_ok_back_on_disk_lru:
  assumes "rs_ok n {} {} {key} {} r" and "rs_map r key = Some (OnDisk d)"
  shows "rs_inv n (r\<lparr> rs_disk_lru := key # rs_disk_lru r \<rparr>)"
proof (rule rs_okI, goal_cases)
  case 5
  then show ?case using rs_ok_disk_lru [OF assms(1)] by simp
next
  case (6 k)
  then show ?case using rs_ok_disk_lru(2) [OF assms(1), of k] assms(2) by auto
qed (use rs_okD [OF assms(1)] in simp_all)

lemma rs_ok_off_disk:
  assumes "rs_ok n {s} {} {key} {} r" and "rs_map r key = Some (OnDisk d)"
  shows rs_ok_reserve_from_disk:
      "rs_inv n (r\<lparr> rs_free_disk := vec_push (rs_free_disk r) d,
                    rs_map := (rs_map r)(key \<mapsto> Reserved s) \<rparr>)"
    and rs_ok_resident_from_disk:
      "rs_inv n (r\<lparr> rs_free_disk := vec_push (rs_free_disk r) d,
                    rs_map := (rs_map r)(key \<mapsto> Resident s), rs_lru := rs_lru r @ [key] \<rparr>)"
proof -
  note ok = rs_okD [OF assms(1)]
  have nopin: "rs_read_pins r key = None" using ok(7) [of key] assms(2) by fastforce
  have notlru: "key \<notin> set (rs_lru r)" using ok(4) [of key] assms(2) by simp
  have slots: "parts n (rs_free_slots r) {} ((rs_slots r)(key := Some s))"
    using parts_assign [OF ok(1), of s key] assms(2) by simp
  have "parts (rs_next_disk r) (rs_free_disk r) {d} ((rs_disks r)(key := None))"
    using parts_unassign [OF ok(2), of key d] assms(2) by simp
  then have disks: "parts (rs_next_disk r) (vec_push (rs_free_disk r) d) {}
      ((rs_disks r)(key := None))"
    using parts_push [of _ _ "{d}" _ d] by fastforce
  have dl: "k \<in> set (rs_disk_lru r) \<longleftrightarrow> ((rs_disks r)(key := None)) k \<noteq> None" for k
    using ok(6) [of k] by auto
  show "rs_inv n (r\<lparr> rs_free_disk := vec_push (rs_free_disk r) d,
                    rs_map := (rs_map r)(key \<mapsto> Reserved s) \<rparr>)"
  proof (rule rs_okI, goal_cases)
    case (4 k)
    then show ?case using ok(4) [of k] assms(2) by auto
  next
    case (6 k)
    then show ?case using dl [of k] by simp
  next
    case (7 k m)
    then show ?case using ok(7) [of k m] by auto
  qed (use ok(3,5) slots disks in simp_all)
  show "rs_inv n (r\<lparr> rs_free_disk := vec_push (rs_free_disk r) d,
                    rs_map := (rs_map r)(key \<mapsto> Resident s), rs_lru := rs_lru r @ [key] \<rparr>)"
  proof (rule rs_okI, goal_cases)
    case (4 k)
    then show ?case using ok(4) [of k] nopin by auto
  next
    case (6 k)
    then show ?case using dl [of k] by simp
  next
    case (7 k m)
    then show ?case using ok(7) [of k m] by auto
  qed (use ok(3,5) notlru slots disks in simp_all)
qed

lemma rs_ok_reserve_new:
  assumes "rs_ok n {s} {} {} {} r" and "rs_map r key = None"
  shows "rs_inv n (r\<lparr> rs_map := (rs_map r)(key \<mapsto> Reserved s) \<rparr>)"
proof -
  note ok = rs_okD [OF assms(1)]
  show ?thesis
  proof (rule rs_okI, goal_cases)
    case 1
    then show ?case using parts_assign [OF ok(1), of s key] assms(2) by simp
  next
    case 2
    then show ?case using ok(2) assms(2) by (simp add: fun_upd_idem)
  next
    case (4 k)
    then show ?case using ok(4) [of k] assms(2) by auto
  next
    case (6 k)
    then show ?case using ok(6) [of k] assms(2) by auto
  next
    case (7 k m)
    then show ?case using ok(7) [of k m] by auto
  qed (use ok(3,5) in simp_all)
qed

lemma rs_ok_same_slot:
  assumes "rs_inv n r" and "slot_of (rs_map r key) = Some s" and "slot_of (Some v) = Some s"
    and "\<And>k. k \<in> set l \<longleftrightarrow> is_resident (((rs_map r)(key \<mapsto> v)) k) \<and> rs_read_pins r k = None"
    and "distinct l"
  shows "rs_inv n (r\<lparr> rs_map := (rs_map r)(key \<mapsto> v), rs_lru := l \<rparr>)"
proof -
  note ok = rs_okD [OF assms(1)]
  have nod: "disk_of (rs_map r key) = None" "disk_of (Some v) = None"
    using assms(2,3) by (cases "rs_map r key" rule: disk_of.cases; cases v; auto)+
  show ?thesis
  proof (rule rs_okI, goal_cases)
    case 1
    then show ?case using ok(1) assms(2,3) by (simp add: fun_upd_idem)
  next
    case 2
    then show ?case using ok(2) nod by (simp add: fun_upd_idem)
  next
    case (6 k)
    then show ?case using ok(6) [of k] nod by auto
  next
    case (7 k m)
    then show ?case using ok(7) [of k m] nod by auto
  qed (use assms(4,5) ok(5) in simp_all)
qed

lemma rs_acquire_from_disk:
  assumes "rs_inv n r" and "rs_map r key = Some (OnDisk d)"
    and "rs_acquire_slot ao so (rs_disk_lru_remove key r) = (res, r1)"
  shows "rs_map r1 key = Some (OnDisk d)
    \<and> (case res of Inl e \<Rightarrow> rs_ok n {} {} {key} {} r1 | Inr s \<Rightarrow> rs_ok n {s} {} {key} {} r1)"
proof -
  have m: "rs_map (rs_disk_lru_remove key r) = rs_map r" by (simp add: rs_disk_lru_remove_def)
  have X: "\<forall>k \<in> {key}. rs_disks (rs_disk_lru_remove key r) k \<noteq> None" using assms(2) m by simp
  from rs_acquire_ok [OF rs_ok_stats_lru [OF assms(1,2)] X assms(3)] show ?thesis
    using assms(2) m by (auto split: sum.splits)
qed

lemma rs_alloc_inv [inv_preserved]:
  assumes "rs_inv n r" and "rs_alloc ao so key r = (res, r')"
  shows "rs_inv n r' \<and> (\<forall>s. res = Inr s \<longrightarrow> rs_map r' key = Some (Reserved s))
       \<and> rs_read_pins r' = rs_read_pins r \<and> rs_arena r' = rs_arena r
       \<and> rs_blob_bytes r' = rs_blob_bytes r"
proof -
  let ?r = "r\<lparr> rs_stats := (rs_stats r)\<lparr> st_puts := st_puts (rs_stats r) + 1 \<rparr> \<rparr>"
  have inv: "rs_inv n ?r" using assms(1) by simp
  show ?thesis
  proof (cases "rs_map r key")
    case None
    obtain res1 r1 where ac: "rs_acquire_slot ao so ?r = (res1, r1)" by force
    have m: "rs_map r1 key = None"
      and rest: "rs_read_pins r1 = rs_read_pins r" "rs_arena r1 = rs_arena r"
        "rs_blob_bytes r1 = rs_blob_bytes r"
      and ok: "case res1 of Inl e \<Rightarrow> rs_inv n r1 | Inr s \<Rightarrow> rs_ok n {s} {} {} {} r1"
      using rs_acquire_ok [OF inv _ ac] None by (auto split: sum.splits)
    show ?thesis
      using assms(2) ac None ok rest rs_ok_reserve_new [OF _ m]
      by (auto simp: rs_alloc_def split: sum.splits)
  next
    case (Some l)
    show ?thesis
    proof (cases l)
      case (Reserved s)
      then show ?thesis using assms(2) Some inv by (auto simp: rs_alloc_def)
    next
      case (Resident s)
      have "rs_inv n (?r\<lparr> rs_map := (rs_map ?r)(key \<mapsto> Reserved s),
                         rs_lru := remove1 key (rs_lru ?r) \<rparr>)" (is "rs_inv n ?q")
        using rs_ok_lru [OF inv] Some Resident by (intro rs_ok_same_slot [OF inv]) auto
      moreover have "res = Inr s"
        and r': "r' = ?r\<lparr> rs_lru := remove1 key (rs_lru r),
                        rs_map := (rs_map r)(key \<mapsto> Reserved s) \<rparr>"
        using assms(2) Some Resident by (simp_all add: rs_alloc_def rs_lru_remove_def Let_def)
      moreover have "rs_inv n r'" by (rule rs_ok_same [OF \<open>rs_inv n ?q\<close>]) (simp_all add: r')
      ultimately show ?thesis by simp
    next
      case (OnDisk d)
      have key: "rs_map ?r key = Some (OnDisk d)" using Some OnDisk by simp
      obtain res1 r1 where ac: "rs_acquire_slot ao so (rs_disk_lru_remove key ?r) = (res1, r1)"
        by force
      note acq = rs_acquire_from_disk [OF inv key ac]
      have X: "\<forall>k \<in> {key}. rs_disks (rs_disk_lru_remove key ?r) k \<noteq> None"
        using key by (simp add: rs_disk_lru_remove_def)
      have rest: "rs_read_pins r1 = rs_read_pins r" "rs_arena r1 = rs_arena r"
          "rs_blob_bytes r1 = rs_blob_bytes r"
        using rs_acquire_ok [OF rs_ok_stats_lru [OF inv key] X ac] by (simp_all add: rs_disk_lru_remove_def)
      show ?thesis
      proof (cases res1)
        case (Inl e)
        then have "rs_inv n (r1\<lparr> rs_disk_lru := key # rs_disk_lru r1 \<rparr>)"
          using acq by (auto intro: rs_ok_back_on_disk_lru)
        then show ?thesis using assms(2) key ac Inl rest by (auto simp: rs_alloc_def)
      next
        case (Inr s)
        then have "rs_inv n (r1\<lparr> rs_free_disk := vec_push (rs_free_disk r1) d,
            rs_map := (rs_map r1)(key \<mapsto> Reserved s) \<rparr>)" (is "rs_inv n ?q")
          using acq by (auto intro: rs_ok_reserve_from_disk)
        moreover have "res = Inr s"
          and r': "r' = r1\<lparr> rs_free_disk := vec_push (rs_free_disk r1) d,
                          rs_swap := discard_record so (rs_swap r1) d,
                          rs_map := (rs_map r1)(key \<mapsto> Reserved s) \<rparr>"
          using assms(2) key ac Inr by (simp_all add: rs_alloc_def Let_def)
        moreover have "rs_inv n r'" by (rule rs_ok_same [OF \<open>rs_inv n ?q\<close>]) (simp_all add: r')
        ultimately show ?thesis using rest by simp
      qed
    qed
  qed
qed

lemma rs_commit_inv [inv_preserved]:
  assumes "rs_inv n r" and "rs_commit key r = (err, r')"
  shows "rs_inv n r'"
proof (cases "\<exists>s. rs_map r key = Some (Reserved s)")
  case True
  then obtain s where s: "rs_map r key = Some (Reserved s)" by blast
  have "rs_inv n (r\<lparr> rs_map := (rs_map r)(key \<mapsto> Resident s),
      rs_lru := (if rs_read_pins r key = None then rs_lru r @ [key] else rs_lru r) \<rparr>)"
    using rs_ok_lru [OF assms(1)] s by (intro rs_ok_same_slot [OF assms(1)]) auto
  then show ?thesis using assms(2) s by (auto simp: rs_commit_def)
next
  case False
  then show ?thesis using assms by (auto simp: rs_commit_def split: option.splits loc.splits)
qed

lemma rs_remove_inv [inv_preserved]:
  assumes "rs_inv n r"
  shows "rs_inv n (rs_remove so key r) \<and> rs_map (rs_remove so key r) = (rs_map r)(key := None)"
proof -
  note ok = rs_okD [OF assms]
  have slot_case: "rs_inv n (r\<lparr> rs_map := (rs_map r)(key := None), rs_lru := remove1 key (rs_lru r),
      rs_free_slots := vec_push (rs_free_slots r) s \<rparr>)"
    if s: "slot_of (rs_map r key) = Some s" for s
  proof (rule rs_okI, goal_cases)
    case 1
    have "parts n (rs_free_slots r) {s} ((rs_slots r)(key := None))"
      using parts_unassign [OF ok(1), of key s] s by simp
    from parts_push [OF this, of s] show ?case by simp
  next
    case 2
    have "disk_of (rs_map r key) = None" using s by (cases "rs_map r key" rule: disk_of.cases) auto
    then show ?case using ok(2) by (simp add: fun_upd_idem)
  next
    case (4 k)
    then show ?case using ok(3) ok(4) [of k] by auto
  next
    case (6 k)
    then show ?case using ok(6) [of k] s by (cases "rs_map r key" rule: disk_of.cases) auto
  next
    case (7 k m)
    then show ?case using ok(7) [of k m] by auto
  qed (use ok(3,5) in simp_all)
  have disk_case: "rs_inv n (r\<lparr> rs_map := (rs_map r)(key := None),
      rs_disk_lru := remove1 key (rs_disk_lru r), rs_free_disk := vec_push (rs_free_disk r) d \<rparr>)"
    if d: "rs_map r key = Some (OnDisk d)" for d
  proof (rule rs_okI, goal_cases)
    case 1
    then show ?case using ok(1) d by (simp add: fun_upd_idem)
  next
    case 2
    have "parts (rs_next_disk r) (rs_free_disk r) {d} ((rs_disks r)(key := None))"
      using parts_unassign [OF ok(2), of key d] d by simp
    from parts_push [OF this, of d] show ?case by simp
  next
    case (4 k)
    then show ?case using ok(4) [of k] d by auto
  next
    case (6 k)
    then show ?case using ok(5) ok(6) [of k] by auto
  next
    case (7 k m)
    then show ?case using ok(7) [of k m] by auto
  qed (use ok(3,5) in simp_all)
  show ?thesis
  proof (cases "rs_map r key")
    case None
    then have "(rs_map r)(key := None) = rs_map r" by (simp add: fun_upd_idem)
    then show ?thesis using assms None by (simp add: rs_remove_def)
  next
    case (Some l)
    show ?thesis
    proof (cases l)
      case (OnDisk d)
      have "rs_inv n (rs_remove so key r)"
        by (rule rs_ok_same [OF disk_case [of d]])
          (simp_all add: Some OnDisk rs_remove_def rs_disk_lru_remove_def)
      then show ?thesis using Some OnDisk by (simp add: rs_remove_def rs_disk_lru_remove_def)
    next
      case (Reserved t)
      have "rs_inv n (rs_remove so key r)"
        by (rule rs_ok_same [OF slot_case [of t]])
          (simp_all add: Some Reserved rs_remove_def rs_lru_remove_def)
      then show ?thesis using Some Reserved by (simp add: rs_remove_def rs_lru_remove_def)
    next
      case (Resident t)
      have "rs_inv n (rs_remove so key r)"
        by (rule rs_ok_same [OF slot_case [of t]])
          (simp_all add: Some Resident rs_remove_def rs_lru_remove_def)
      then show ?thesis using Some Resident by (simp add: rs_remove_def rs_lru_remove_def)
    qed
  qed
qed

lemma rs_pin_inv [inv_preserved]:
  assumes "rs_inv n r"
  shows "rs_inv n (rs_pin_read key r)"
proof (cases "is_resident (rs_map r key)")
  case False
  then show ?thesis using assms
    by (auto simp: rs_pin_read_def is_resident_iff split: option.split loc.split)
next
  case True
  then obtain s where s: "rs_map r key = Some (Resident s)" by (auto simp: is_resident_iff)
  note ok = rs_okD [OF assms]
  let ?c = "rs_read_pin_count key r"
  let ?l = "if ?c = 0 then remove1 key (rs_lru r) else rs_lru r"
  have c0: "?c = 0 \<longleftrightarrow> rs_read_pins r key = None"
    using ok(7) [of key] by (fastforce simp: rs_read_pin_count_def split: option.splits)
  have q: "rs_inv n (r\<lparr> rs_lru := ?l, rs_read_pins := (rs_read_pins r)(key \<mapsto> ?c + 1) \<rparr>)"
  proof (rule rs_okI, goal_cases)
    case (4 k)
    then show ?case using ok(3) ok(4) [of k] c0 by auto
  next
    case (7 k m)
    then show ?case using ok(7) [of k m] s by (auto split: if_splits)
  qed (use ok(1-3,5,6) in simp_all)
  show ?thesis
    by (rule rs_ok_same [OF q]) (simp_all add: s rs_pin_read_def rs_lru_remove_def Let_def)
qed

lemma rs_unpin_inv [inv_preserved]:
  assumes "rs_inv n r"
  shows "rs_inv n (rs_unpin_read key r)"
proof (cases "rs_read_pins r key")
  case None
  then show ?thesis using assms by (simp add: rs_unpin_read_def)
next
  case (Some m)
  note ok = rs_okD [OF assms]
  have notin: "key \<notin> set (rs_lru r)" using ok(4) [of key] Some by simp
  have keep: "rs_inv n (r\<lparr> rs_read_pins := (rs_read_pins r)(key \<mapsto> m - 1) \<rparr>)" if "m - 1 \<noteq> 0"
  proof (rule rs_okI, goal_cases)
    case (4 k)
    then show ?case using ok(4) [of k] Some by auto
  next
    case (7 k j)
    then show ?case using ok(7) [of k] ok(7) [of key m] Some that by (auto split: if_splits)
  qed (use ok(1-3,5,6) in simp_all)
  have last: "rs_inv n (r\<lparr> rs_read_pins := (rs_read_pins r)(key := None),
      rs_lru := (if is_resident (rs_map r key) then rs_lru r @ [key] else rs_lru r) \<rparr>)"
  proof (rule rs_okI, goal_cases)
    case (4 k)
    then show ?case using ok(4) [of k] by auto
  next
    case (7 k j)
    then show ?case using ok(7) [of k j] by (auto split: if_splits)
  qed (use ok(1-3,5,6) notin in simp_all)
  show ?thesis
  proof (cases "m - 1 = 0")
    case True
    show ?thesis
      by (rule rs_ok_same [OF last]; cases "rs_map r key" rule: is_resident.cases)
        (use Some True notin in \<open>simp_all add: rs_unpin_read_def Let_def\<close>)
  next
    case False
    then show ?thesis using keep Some by (simp add: rs_unpin_read_def Let_def)
  qed
qed

lemma rs_touch_inv:
  assumes "rs_inv n r" and "rs_map r key = Some (Resident s)" and "rs_read_pins r key = None"
  shows "rs_inv n (rs_lru_touch key r)"
proof -
  note ok = rs_okD [OF assms(1)]
  have "rs_inv n (r\<lparr> rs_lru := remove1 key (rs_lru r) @ [key] \<rparr>)" (is "rs_inv n ?q")
  proof (rule rs_okI, goal_cases)
    case (4 k)
    then show ?case using ok(3) ok(4) [of k] assms(2,3) by auto
  qed (use ok in simp_all)
  then show ?thesis by (simp add: rs_lru_touch_def rs_lru_remove_def Let_def)
qed

lemma rs_locate_inv [inv_preserved]:
  assumes "rs_inv n r" and "rs_locate ao so key r = (res, r')"
  shows "rs_inv n r' \<and> rs_read_pins r' = rs_read_pins r
       \<and> (\<forall>s. res = Inr (Some s) \<longrightarrow> slot_of (rs_map r' key) = Some s)
       \<and> (res = Inr None \<longrightarrow> rs_map r key = None \<and> rs_map r' = rs_map r)"
proof -
  let ?r = "r\<lparr> rs_stats := (rs_stats r)\<lparr> st_gets := st_gets (rs_stats r) + 1 \<rparr> \<rparr>"
  have inv: "rs_inv n ?r" using assms(1) by simp
  show ?thesis
  proof (cases "rs_map r key")
    case None
    then show ?thesis using assms(2) inv by (auto simp: rs_locate_def)
  next
    case (Some l)
    show ?thesis
    proof (cases l)
      case (Reserved s)
      then show ?thesis using assms(2) Some inv by (auto simp: rs_locate_def)
    next
      case (Resident s)
      let ?h = "?r\<lparr> rs_stats := (rs_stats ?r)\<lparr> st_resident_hits :=
                       st_resident_hits (rs_stats ?r) + 1 \<rparr> \<rparr>"
      have h: "rs_inv n ?h" using assms(1) by simp
      have eq: "rs_locate ao so key r =
          (Inr (Some s), if rs_read_pins ?h key = None then rs_lru_touch key ?h else ?h)"
        using Some Resident by (simp add: rs_locate_def Let_def)
      let ?g = "if rs_read_pins ?h key = None then rs_lru_touch key ?h else ?h"
      have res: "res = Inr (Some s)" and r': "?g = r'"
        using trans [OF eq [symmetric] assms(2)] unfolding prod.inject by blast+
      have g: "rs_inv n ?g"
        using rs_touch_inv [OF h, of key s] h Some Resident by simp
      have "rs_read_pins ?g = rs_read_pins r \<and> rs_map ?g key = Some (Resident s)"
        using Some Resident by (simp add: rs_lru_touch_def rs_lru_remove_def Let_def)
      with g have "rs_inv n r' \<and> rs_read_pins r' = rs_read_pins r \<and> rs_map r' key = Some (Resident s)"
        unfolding r' by blast
      with res show ?thesis using Some Resident by simp
    next
      case (OnDisk d)
      have key: "rs_map ?r key = Some (OnDisk d)" using Some OnDisk by simp
      obtain res1 r1 where ac: "rs_acquire_slot ao so (rs_disk_lru_remove key ?r) = (res1, r1)"
        by force
      note acq = rs_acquire_from_disk [OF inv key ac]
      have X: "\<forall>k \<in> {key}. rs_disks (rs_disk_lru_remove key ?r) k \<noteq> None"
        using key by (simp add: rs_disk_lru_remove_def)
      have pins: "rs_read_pins r1 = rs_read_pins r"
        using rs_acquire_ok [OF rs_ok_stats_lru [OF inv key] X ac] by (simp add: rs_disk_lru_remove_def)
      show ?thesis
      proof (cases res1)
        case (Inl e)
        then have "rs_inv n (r1\<lparr> rs_disk_lru := key # rs_disk_lru r1 \<rparr>)"
          using acq by (auto intro: rs_ok_back_on_disk_lru)
        then show ?thesis using assms(2) key ac Inl pins by (auto simp: rs_locate_def)
      next
        case (Inr s)
        define io where "io = (case read_record so (rs_swap r1) d of
            Inl e \<Rightarrow> (Some e, rs_arena r1) | Inr buf \<Rightarrow> write_slot ao (rs_arena r1) s buf)"
        have ok1: "rs_ok n {s} {} {key} {} r1" and m1: "rs_map r1 key = Some (OnDisk d)"
          using acq Inr by auto
        have loc: "rs_locate ao so key r = (case fst io of
            Some e \<Rightarrow> (Inl e, r1\<lparr> rs_arena := snd io, rs_free_slots := vec_push (rs_free_slots r1) s,
                               rs_disk_lru := key # rs_disk_lru r1 \<rparr>)
          | None \<Rightarrow> (Inr (Some s), r1\<lparr> rs_arena := snd io,
                 rs_free_disk := vec_push (rs_free_disk r1) d,
                 rs_swap := discard_record so (rs_swap r1) d,
                 rs_map := (rs_map r1)(key \<mapsto> Resident s), rs_lru := rs_lru r1 @ [key],
                 rs_stats := (rs_stats r1)\<lparr> st_faults_from_disk :=
                   st_faults_from_disk (rs_stats r1) + 1 \<rparr> \<rparr>))"
          using key ac Inr
          by (auto simp: rs_locate_def io_def Let_def split: sum.splits prod.splits option.splits)
        show ?thesis
        proof (cases "fst io")
          case None
          have q: "rs_inv n (r1\<lparr> rs_free_disk := vec_push (rs_free_disk r1) d,
              rs_map := (rs_map r1)(key \<mapsto> Resident s), rs_lru := rs_lru r1 @ [key] \<rparr>)"
            by (rule rs_ok_resident_from_disk [OF ok1 m1])
          have "rs_inv n r'"
            by (rule rs_ok_same [OF q]) (use assms(2) loc None in auto)
          then show ?thesis using assms(2) loc None pins by auto
        next
          case (Some e)
          have "rs_ok n ({s} - {s}) {} {key} {}
              (r1\<lparr> rs_free_slots := vec_push (rs_free_slots r1) s \<rparr>)"
            by (rule rs_ok_give_slot [OF ok1]) simp
          then have "rs_ok n {} {} {key} {} (r1\<lparr> rs_free_slots := vec_push (rs_free_slots r1) s \<rparr>)"
            by simp
          from rs_ok_back_on_disk_lru [OF this, of d] m1
          have q: "rs_inv n (r1\<lparr> rs_free_slots := vec_push (rs_free_slots r1) s,
              rs_disk_lru := key # rs_disk_lru r1 \<rparr>)" by simp
          have "rs_inv n r'"
            by (rule rs_ok_same [OF q]) (use assms(2) loc Some in auto)
          then show ?thesis using assms(2) loc Some pins by auto
        qed
      qed
    qed
  qed
qed

lemma rs_put_blob_inv [inv_preserved]:
  assumes "rs_inv n r" and "rs_put_blob ao so key bytes r = (err, r')"
  shows "rs_inv n r'"
proof (cases "length bytes \<noteq> rs_blob_bytes r")
  case True
  then show ?thesis using assms by (simp add: rs_put_blob_def)
next
  case False
  obtain res r1 where al: "rs_alloc ao so key r = (res, r1)" by force
  note inv1 = rs_alloc_inv [OF assms(1) al]
  show ?thesis
  proof (cases res)
    case (Inl e)
    then show ?thesis using assms(2) False al inv1 by (simp add: rs_put_blob_def)
  next
    case (Inr s)
    obtain w a' where w: "write_slot ao (rs_arena r1) s bytes = (w, a')" by force
    have inv2: "rs_inv n (r1\<lparr> rs_arena := a' \<rparr>)" using inv1 by simp
    show ?thesis
      using assms(2) False al Inr w rs_remove_inv [OF inv2, of so key] rs_commit_inv [OF inv2, of key]
      by (cases w) (auto simp: rs_put_blob_def)
  qed
qed

lemma rs_get_blob_inv [inv_preserved]:
  assumes "rs_inv n r" and "rs_get_blob ao so key len r = (res, r')"
  shows "rs_inv n r'"
proof -
  obtain res1 r1 where lo: "rs_locate ao so key r = (res1, r1)" by force
  from rs_locate_inv [OF assms(1) lo] assms lo show ?thesis
    by (auto simp: rs_get_blob_def split: if_splits sum.splits option.splits)
qed

subsection \<open>Runs of the page table\<close>

datatype rs_op =
    OpAlloc u64w | OpCommit u64w | OpLocate u64w | OpRemove u64w
  | OpPin u64w | OpUnpin u64w | OpPut u64w "byte list" | OpGet u64w nat

text \<open>Any caller may call any operation at any time; errors leave a state to go on from.\<close>

fun rs_step :: "'a arena_ops \<Rightarrow> 's store_ops \<Rightarrow> rs_op \<Rightarrow> ('a, 's) residency \<Rightarrow> ('a, 's) residency option"
where
  "rs_step ao so (OpAlloc k) r = Some (snd (rs_alloc ao so k r))"
| "rs_step ao so (OpCommit k) r = Some (snd (rs_commit k r))"
| "rs_step ao so (OpLocate k) r = Some (snd (rs_locate ao so k r))"
| "rs_step ao so (OpRemove k) r = Some (rs_remove so k r)"
| "rs_step ao so (OpPin k) r = Some (rs_pin_read k r)"
| "rs_step ao so (OpUnpin k) r = Some (rs_unpin_read k r)"
| "rs_step ao so (OpPut k bs) r = Some (snd (rs_put_blob ao so k bs r))"
| "rs_step ao so (OpGet k len) r = Some (snd (rs_get_blob ao so k len r))"

lemma rs_step_inv: "rs_inv n r \<Longrightarrow> rs_step ao so oper r = Some r' \<Longrightarrow> rs_inv n r'"
  by (cases oper)
    (auto simp: rs_pin_inv rs_unpin_inv rs_remove_inv
      dest: rs_alloc_inv [OF _ prod.collapse [symmetric]]
        rs_commit_inv [OF _ prod.collapse [symmetric]]
        rs_locate_inv [OF _ prod.collapse [symmetric]]
        rs_put_blob_inv [OF _ prod.collapse [symmetric]]
        rs_get_blob_inv [OF _ prod.collapse [symmetric]])

interpretation rs_page: stepping "rs_step ao so" "rs_inv n"
  by unfold_locales (rule rs_step_inv)

lemma rs_new_capped_inv:
  assumes "rs_new_capped ao so a s m = Inr r"
  shows "rs_inv (num_slots ao a) r \<and> rs_max_disk_slots r = m \<and> rs_map r = Map.empty
       \<and> rs_arena r = a \<and> rs_blob_bytes r = slot_bytes ao a"
proof -
  from assms have r: "rs_map r = Map.empty" "rs_free_slots r = rev [0..<num_slots ao a]"
      "rs_lru r = []" "rs_disk_lru r = []" "rs_free_disk r = []" "rs_next_disk r = 0"
      "rs_read_pins r = Map.empty" "rs_max_disk_slots r = m" "rs_arena r = a"
      "rs_blob_bytes r = slot_bytes ao a"
    by (auto simp: rs_new_capped_def Let_def split: if_splits)
  have "slot_of \<circ> (Map.empty :: u64w \<rightharpoonup> loc) = Map.empty"
    and "disk_of \<circ> (Map.empty :: u64w \<rightharpoonup> loc) = Map.empty" by auto
  with r show ?thesis
    using parts_init [of "num_slots ao a"] parts_init [of 0] by (intro conjI rs_okI) simp_all
qed

end
