(* ===== verification/Residency_Content.thy ===== *)
theory Residency_Content
  imports Residency_Inv
begin

text \<open>
  What \<open>Residency\<close> stores. Under the contract of the two traits, stated by the locale \<open>tier\<close>
  over a reading \<open>acont\<close> of the arena's slots and \<open>scont\<close> of the store's records, a key keeps its
  bytes through every move between the tiers; the only bytes that are lost are those of a key the
  disk cap drops. Reads and writes may fail: a failing write says nothing about the bytes it was
  writing and leaves every other slot or record alone.
\<close>

definition rs_blob ::
  "('a \<Rightarrow> nat \<Rightarrow> byte list) \<Rightarrow> ('s \<Rightarrow> nat \<Rightarrow> byte list option) \<Rightarrow> ('a, 's) residency
     \<Rightarrow> u64w \<Rightarrow> byte list option" where
  "rs_blob acont scont r k =
    (case rs_map r k of
       None \<Rightarrow> None
     | Some (Reserved s) \<Rightarrow> Some (acont (rs_arena r) s)
     | Some (Resident s) \<Rightarrow> Some (acont (rs_arena r) s)
     | Some (OnDisk d) \<Rightarrow> scont (rs_swap r) d)"

text \<open>The calls of a client of the blob interface, run beside the map from each key to the bytes
  last put for it; a put that returns an error changes nothing in that map.\<close>

datatype blob_op =
    BPut u64w "byte list" | BGet u64w nat | BLocate u64w | BRemove u64w | BPin u64w | BUnpin u64w

fun blob_run ::
  "'a arena_ops \<Rightarrow> 's store_ops \<Rightarrow> blob_op list \<Rightarrow> ('a, 's) residency \<times> (u64w \<rightharpoonup> byte list)
     \<Rightarrow> ('a, 's) residency \<times> (u64w \<rightharpoonup> byte list)" where
  "blob_run ao so [] (r, m) = (r, m)"
| "blob_run ao so (BPut k bs # os) (r, m) =
    (case rs_put_blob ao so k bs r of
       (None, r') \<Rightarrow> blob_run ao so os (r', m(k \<mapsto> bs))
     | (Some _, r') \<Rightarrow> blob_run ao so os (r', m))"
| "blob_run ao so (BGet k len # os) (r, m) = blob_run ao so os (snd (rs_get_blob ao so k len r), m)"
| "blob_run ao so (BLocate k # os) (r, m) = blob_run ao so os (snd (rs_locate ao so k r), m)"
| "blob_run ao so (BRemove k # os) (r, m) = blob_run ao so os (rs_remove so k r, m(k := None))"
| "blob_run ao so (BPin k # os) (r, m) = blob_run ao so os (rs_pin_read k r, m)"
| "blob_run ao so (BUnpin k # os) (r, m) = blob_run ao so os (rs_unpin_read k r, m)"

locale tier =
  fixes ao :: "'a arena_ops" and so :: "'s store_ops"
    and aok :: "'a \<Rightarrow> bool" and sok :: "'s \<Rightarrow> bool"
    and acont :: "'a \<Rightarrow> nat \<Rightarrow> byte list" and scont :: "'s \<Rightarrow> nat \<Rightarrow> byte list option"
  assumes arena_read: "aok a \<Longrightarrow> read_slot ao a s = Inr b \<Longrightarrow> b = acont a s"
    and arena_write: "aok a \<Longrightarrow> write_slot ao a s b = (w, a') \<Longrightarrow>
          aok a' \<and> (\<forall>t. t \<noteq> s \<longrightarrow> acont a' t = acont a t) \<and> (w = None \<longrightarrow> acont a' s = b)"
    and store_read: "sok st \<Longrightarrow> read_record so st d = Inr b \<Longrightarrow> scont st d = Some b"
    and store_write: "sok st \<Longrightarrow> write_record so st d b = (w, st') \<Longrightarrow>
          sok st' \<and> (\<forall>e. e \<noteq> d \<longrightarrow> scont st' e = scont st e) \<and> (w = None \<longrightarrow> scont st' d = Some b)"
    and store_discard: "sok st \<Longrightarrow>
          sok (discard_record so st d) \<and> (\<forall>e. e \<noteq> d \<longrightarrow> scont (discard_record so st d) e = scont st e)"
begin

abbreviation blob :: "('a, 's) residency \<Rightarrow> u64w \<Rightarrow> byte list option" where
  "blob \<equiv> rs_blob acont scont"

definition tier_ok :: "('a, 's) residency \<Rightarrow> bool" where
  "tier_ok r \<longleftrightarrow> aok (rs_arena r) \<and> sok (rs_swap r)"

text \<open>\<open>keeps K r r'\<close>: every key outside \<open>K\<close> keeps its bytes, unless the disk cap dropped it.\<close>

definition keeps :: "u64w set \<Rightarrow> ('a, 's) residency \<Rightarrow> ('a, 's) residency \<Rightarrow> bool" where
  "keeps K r r' \<longleftrightarrow> tier_ok r' \<and> rs_max_disk_slots r' = rs_max_disk_slots r
     \<and> (\<forall>k. k \<notin> K \<longrightarrow>
          (if rs_map r' k = None then rs_map r k = None \<or> 0 < rs_max_disk_slots r
           else rs_map r k \<noteq> None \<and> blob r' k = blob r k))"

lemma keepsI:
  assumes "tier_ok r'" and "rs_max_disk_slots r' = rs_max_disk_slots r"
    and "\<And>k. k \<notin> K \<Longrightarrow> rs_map r' k = rs_map r k"
    and "\<And>k. k \<notin> K \<Longrightarrow> blob r' k = blob r k"
  shows "keeps K r r'"
  using assms by (simp add: keeps_def)

lemma keeps_refl: "tier_ok r \<Longrightarrow> keeps K r r"
  by (simp add: keeps_def)

lemma keeps_trans: "keeps K r r1 \<Longrightarrow> keeps K r1 r2 \<Longrightarrow> keeps K r r2"
  unfolding keeps_def by (smt (verit))

lemma keeps_mono: "keeps K r r' \<Longrightarrow> K \<subseteq> L \<Longrightarrow> keeps L r r'"
  unfolding keeps_def by blast

lemma keeps_tier_ok: "keeps K r r' \<Longrightarrow> tier_ok r'"
  by (simp add: keeps_def)

lemma keeps_blob:
  "keeps K r r' \<Longrightarrow> k \<notin> K \<Longrightarrow> rs_map r' k \<noteq> None \<Longrightarrow> blob r' k = blob r k"
  by (simp add: keeps_def)

lemma blob_frame [simp]:
  "blob (r\<lparr> rs_stats := st \<rparr>) = blob r" "blob (r\<lparr> rs_lru := l \<rparr>) = blob r"
  "blob (r\<lparr> rs_disk_lru := l \<rparr>) = blob r" "blob (r\<lparr> rs_free_disk := f \<rparr>) = blob r"
  "blob (r\<lparr> rs_free_slots := f \<rparr>) = blob r" "blob (r\<lparr> rs_read_pins := p \<rparr>) = blob r"
  "blob (r\<lparr> rs_next_disk := n \<rparr>) = blob r"
  by (simp_all add: fun_eq_iff rs_blob_def split: option.split loc.split)

lemma tier_ok_frame [simp]:
  "tier_ok (r\<lparr> rs_stats := st \<rparr>) = tier_ok r" "tier_ok (r\<lparr> rs_lru := l \<rparr>) = tier_ok r"
  "tier_ok (r\<lparr> rs_disk_lru := l \<rparr>) = tier_ok r" "tier_ok (r\<lparr> rs_free_disk := f \<rparr>) = tier_ok r"
  "tier_ok (r\<lparr> rs_free_slots := f \<rparr>) = tier_ok r" "tier_ok (r\<lparr> rs_read_pins := p \<rparr>) = tier_ok r"
  "tier_ok (r\<lparr> rs_next_disk := n \<rparr>) = tier_ok r" "tier_ok (r\<lparr> rs_map := m \<rparr>) = tier_ok r"
  by (simp_all add: tier_ok_def)

lemma keeps_frame [simp]:
  "keeps K r (r'\<lparr> rs_stats := st \<rparr>) = keeps K r r'" "keeps K r (r'\<lparr> rs_lru := l \<rparr>) = keeps K r r'"
  "keeps K r (r'\<lparr> rs_disk_lru := l \<rparr>) = keeps K r r'"
  "keeps K r (r'\<lparr> rs_free_disk := f \<rparr>) = keeps K r r'"
  "keeps K r (r'\<lparr> rs_free_slots := f \<rparr>) = keeps K r r'"
  "keeps K r (r'\<lparr> rs_read_pins := p \<rparr>) = keeps K r r'"
  "keeps K (r\<lparr> rs_stats := st \<rparr>) r' = keeps K r r'" "keeps K (r\<lparr> rs_lru := l \<rparr>) r' = keeps K r r'"
  "keeps K (r\<lparr> rs_disk_lru := l \<rparr>) r' = keeps K r r'"
  by (simp_all add: keeps_def)

lemma blob_cong:
  assumes "rs_map r' k = rs_map r k"
    and "\<And>s. rs_slots r k = Some s \<Longrightarrow> acont (rs_arena r') s = acont (rs_arena r) s"
    and "\<And>d. rs_disks r k = Some d \<Longrightarrow> scont (rs_swap r') d = scont (rs_swap r) d"
  shows "blob r' k = blob r k"
  using assms by (auto simp: rs_blob_def split: option.split loc.split)

lemma keeps_same:
  assumes "keeps K r q" and "rs_map q' = rs_map q" and "rs_arena q' = rs_arena q"
    and "rs_swap q' = rs_swap q" and "rs_max_disk_slots q' = rs_max_disk_slots q"
  shows "keeps K r q'"
proof -
  have "blob q' k = blob q k" for k by (rule blob_cong) (simp_all add: assms)
  then show ?thesis using assms(1) by (simp add: keeps_def tier_ok_def assms(2-))
qed

lemma keeps_drop_cold:
  assumes ok: "rs_ok n H D X Y r" and "tier_ok r" and cr: "rs_disk_lru r = cold # rest"
    and "0 < rs_max_disk_slots r"
  shows "keeps {} r (rs_drop_cold so cold rest r)"
proof -
  obtain ds where ds: "rs_map r cold = Some (OnDisk ds)"
    using rs_ok_disk_key [OF ok, of cold] cr by auto
  have swap: "rs_swap (rs_drop_cold so cold rest r) = discard_record so (rs_swap r) ds"
    by (simp add: rs_drop_cold_def ds)
  have "blob (rs_drop_cold so cold rest r) k = blob r k" if "k \<noteq> cold" for k
  proof (rule blob_cong, goal_cases)
    case (3 d)
    then have "d \<noteq> ds"
      using parts_inj [OF rs_ok_disks [OF ok], of k d cold] ds that by auto
    then show ?case using store_discard [of "rs_swap r" ds] assms(2) by (simp add: swap tier_ok_def)
  qed (use that in simp_all)
  then show ?thesis using assms(2,4) store_discard [of "rs_swap r" ds]
    by (auto simp: keeps_def tier_ok_def swap)
qed

lemma keeps_make_room_loop:
  "rs_ok n H D X Y r \<Longrightarrow> tier_ok r \<Longrightarrow> 0 < rs_max_disk_slots r
   \<Longrightarrow> keeps {} r (rs_make_room_loop so r)"
proof (induction "length (rs_disk_lru r)" arbitrary: r rule: less_induct)
  case less
  show ?case
  proof (cases "rs_max_disk_slots r \<le> length (rs_disk_lru r) \<and> rs_disk_lru r \<noteq> []")
    case True
    then obtain cold rest where cr: "rs_disk_lru r = cold # rest" by (cases "rs_disk_lru r") auto
    let ?q = "rs_drop_cold so cold rest r"
    have "rs_make_room_loop so r = rs_make_room_loop so ?q"
      using True cr by (subst rs_make_room_loop.simps) simp
    moreover have k: "keeps {} r ?q" using keeps_drop_cold less.prems cr by blast
    moreover have "keeps {} ?q (rs_make_room_loop so ?q)"
      using less.prems cr keeps_tier_ok [OF k] rs_ok_drop_cold [OF less.prems(1) cr]
      by (intro less.hyps) auto
    ultimately show ?thesis using keeps_trans by metis
  next
    case False
    then have "rs_make_room_loop so r = r"
      by (subst rs_make_room_loop.simps) (auto split: list.split)
    then show ?thesis using less.prems by (simp add: keeps_refl)
  qed
qed

lemma keeps_make_disk_room:
  "rs_ok n H D X Y r \<Longrightarrow> tier_ok r \<Longrightarrow> keeps {} r (rs_make_disk_room so r)"
  by (simp add: rs_make_disk_room_def keeps_refl keeps_make_room_loop)

lemma spill_write:
  assumes "tier_ok r" and "rs_spill_write ao so r slot d = (err, st')"
  shows "sok st' \<and> (\<forall>e. e \<noteq> d \<longrightarrow> scont st' e = scont (rs_swap r) e)
       \<and> (err = None \<longrightarrow> scont st' d = Some (acont (rs_arena r) slot))"
proof (cases "read_slot ao (rs_arena r) slot")
  case (Inl e)
  then show ?thesis using assms by (auto simp: rs_spill_write_def tier_ok_def)
next
  case (Inr b)
  then have "write_record so (rs_swap r) d b = (err, st')" using assms(2) by (simp add: rs_spill_write_def)
  from store_write [OF _ this] arena_read [OF _ Inr] assms(1) show ?thesis by (simp add: tier_ok_def)
qed

lemma keeps_evict:
  assumes ok: "rs_ok n H {} X {} r" and X: "\<forall>k \<in> X. rs_disks r k \<noteq> None" and t: "tier_ok r"
    and ev: "rs_evict_coldest_to_disk ao so r = (res, r')"
  shows "keeps {} r r'"
proof (cases "rs_lru r")
  case Nil
  then show ?thesis using ev t by (auto simp: rs_evict_coldest_to_disk_def keeps_refl)
next
  case (Cons victim lru')
  obtain slot where slot: "rs_map r victim = Some (Resident slot)"
    using rs_ok_lru_key [OF ok, of victim] Cons by auto
  define r1 where "r1 = rs_make_disk_room so (r\<lparr> rs_lru := lru' \<rparr>)"
  obtain d r2 where ad: "rs_alloc_disk_slot r1 = (d, r2)" by force
  obtain err st' where w: "rs_spill_write ao so r2 slot d = (err, st')" by force
  note hide = rs_ok_hide_lru [OF ok Cons]
  note mr = rs_make_disk_room_ok [OF hide, where so = so, folded r1_def]
  note fr = rs_alloc_disk_slot_frame [OF ad]
  have k1: "keeps {} r r1" using keeps_make_disk_room [OF hide] t by (simp add: r1_def)
  have t2: "tier_ok r2" using keeps_tier_ok [OF k1] fr by (simp add: tier_ok_def)
  have k2: "keeps {} r r2"
    by (rule keeps_trans [OF k1], rule keepsI) (use t2 fr blob_cong [of r2 _ r1] in auto)
  have ok2: "rs_ok n H {d} X {victim} r2" using rs_ok_alloc_disk [OF conjunct1 [OF mr] ad] by simp
  have slot2: "rs_map r2 victim = Some (Resident slot)" using mr slot fr by simp
  note sw = spill_write [OF t2 w]
  have blob2: "blob (r2\<lparr> rs_swap := st' \<rparr>) k = blob r2 k" for k
  proof (rule blob_cong, goal_cases)
    case (3 e)
    have "d \<noteq> e" using parts_owned [OF rs_ok_disks [OF ok2] 3] by auto
    then show ?case using sw by auto
  qed simp_all
  have k3: "keeps {} r (r2\<lparr> rs_swap := st' \<rparr>)"
    by (rule keeps_trans [OF k2], rule keepsI) (use blob2 sw t2 in \<open>auto simp: tier_ok_def\<close>)
  note unf = rs_evict_unfold [OF Cons slot ad [unfolded r1_def] w]
  show ?thesis
  proof (cases err)
    case (Some e)
    then have "r' = r2\<lparr> rs_swap := st', rs_free_disk := vec_push (rs_free_disk r2) d,
                     rs_lru := victim # rs_lru r2 \<rparr>"
      using ev unf by simp
    then show ?thesis using k3 by simp
  next
    case None
    let ?q = "r2\<lparr> rs_swap := st', rs_map := (rs_map r2)(victim \<mapsto> OnDisk d) \<rparr>"
    have v: "blob ?q victim = blob (r2\<lparr> rs_swap := st' \<rparr>) victim"
      using sw None slot2 by (simp add: rs_blob_def)
    have o: "blob ?q k = blob (r2\<lparr> rs_swap := st' \<rparr>) k" if "k \<noteq> victim" for k
      by (rule blob_cong) (use that in simp_all)
    have "keeps {} (r2\<lparr> rs_swap := st' \<rparr>) ?q"
      using v o k3 slot2 by (auto simp: keeps_def)
    from keeps_trans [OF k3 this] have "keeps {} r ?q" .
    moreover have "r' = ?q\<lparr> rs_disk_lru := rs_disk_lru r2 @ [victim],
         rs_stats := (rs_stats r2)\<lparr> st_spills_to_disk := st_spills_to_disk (rs_stats r2) + 1 \<rparr> \<rparr>"
      using ev unf None by simp
    ultimately show ?thesis by simp
  qed
qed

lemma keeps_acquire:
  assumes "rs_ok n H {} X {} r" and "\<forall>k \<in> X. rs_disks r k \<noteq> None" and "tier_ok r"
    and "rs_acquire_slot ao so r = (res, r')"
  shows "keeps {} r r'"
proof (cases "vec_pop (rs_free_slots r)")
  case None
  then show ?thesis using keeps_evict [OF assms(1-3)] assms(4) by (simp add: rs_acquire_slot_def)
next
  case (Some p)
  then show ?thesis using assms(3,4) by (cases p) (auto simp: rs_acquire_slot_def keeps_refl)
qed

text \<open>A write into a slot in hand changes no key.\<close>

lemma keeps_arena_hand:
  assumes ok: "rs_ok n H D X Y r" and "s \<in> H" and "tier_ok r"
    and "write_slot ao (rs_arena r) s b = (w, a')"
  shows "keeps {} r (r\<lparr> rs_arena := a' \<rparr>)"
proof (rule keepsI)
  note w = arena_write [OF _ assms(4)]
  show "tier_ok (r\<lparr> rs_arena := a' \<rparr>)" using w assms(3) by (simp add: tier_ok_def)
  show "blob (r\<lparr> rs_arena := a' \<rparr>) k = blob r k" for k
  proof (rule blob_cong, goal_cases)
    case (2 t)
    then have "t \<noteq> s" using parts_hand [OF rs_ok_slots [OF ok] assms(2), of k] by auto
    then show ?case using w assms(3) by (simp add: tier_ok_def)
  qed simp_all
qed simp_all

text \<open>Freeing the record of one key changes no other key.\<close>

lemma keeps_discard:
  assumes ok: "rs_ok n H D X Y r" and "rs_map r key = Some (OnDisk d)" and "tier_ok r"
  shows "keeps {key} r (r\<lparr> rs_swap := discard_record so (rs_swap r) d, rs_map := (rs_map r)(key := v) \<rparr>)"
    (is "keeps _ _ ?q")
proof (rule keepsI)
  note dis = store_discard [of "rs_swap r" d]
  show "tier_ok ?q" using dis assms(3) by (simp add: tier_ok_def)
  show "blob ?q k = blob r k" if "k \<notin> {key}" for k
  proof (rule blob_cong, goal_cases)
    case (3 e)
    then have "e \<noteq> d"
      using parts_inj [OF rs_ok_disks [OF ok], of k e key] assms(2) that by auto
    then show ?case using dis assms(3) by (simp add: tier_ok_def)
  qed (use that in simp_all)
qed (use assms(2) in simp_all)

lemma keeps_acquire_disk:
  assumes "rs_inv n r" and "rs_map r key = Some (OnDisk d)" and "tier_ok r"
    and "rs_acquire_slot ao so (rs_disk_lru_remove key r) = (res, r1)"
  shows "keeps {} r r1 \<and> blob r1 key = blob r key"
proof -
  have X: "\<forall>k \<in> {key}. rs_disks (rs_disk_lru_remove key r) k \<noteq> None"
    using assms(2) by (simp add: rs_disk_lru_remove_def)
  have "keeps {} r r1"
    using keeps_acquire [OF rs_ok_stats_lru [OF assms(1,2)] X _ assms(4)] assms(3)
    by (simp add: rs_disk_lru_remove_def)
  then show ?thesis using keeps_blob [of "{}" r r1 key] rs_acquire_from_disk [OF assms(1,2,4)] by simp
qed

lemma keeps_alloc:
  assumes inv: "rs_inv n r" and t: "tier_ok r" and al: "rs_alloc ao so key r = (res, r')"
  shows "keeps {key} r r' \<and> (\<forall>e. res = Inl e \<longrightarrow> keeps {} r r')"
proof -
  let ?r = "r\<lparr> rs_stats := (rs_stats r)\<lparr> st_puts := st_puts (rs_stats r) + 1 \<rparr> \<rparr>"
  have inv': "rs_inv n ?r" and t': "tier_ok ?r" using inv t by simp_all
  consider (fresh) "rs_map r key = None" | (disk) d where "rs_map r key = Some (OnDisk d)"
    | (slot) s where "slot_of (rs_map r key) = Some s"
    by (cases "rs_map r key" rule: slot_of.cases) auto
  then show ?thesis
  proof cases
    case fresh
    obtain res1 r1 where ac: "rs_acquire_slot ao so ?r = (res1, r1)" by force
    have k1: "keeps {} r r1" using keeps_acquire [OF inv' _ t' ac] by simp
    have "keeps {key} r (r1\<lparr> rs_map := (rs_map r1)(key \<mapsto> Reserved s) \<rparr>)" for s
      by (rule keeps_trans [OF keeps_mono [OF k1]], simp, rule keepsI)
        (use keeps_tier_ok [OF k1] in \<open>auto intro: blob_cong\<close>)
    then show ?thesis using al fresh ac k1 keeps_mono [OF k1, of "{key}"]
      by (auto simp: rs_alloc_def split: sum.splits)
  next
    case disk
    then have key: "rs_map ?r key = Some (OnDisk d)" by simp
    obtain res1 r1 where ac: "rs_acquire_slot ao so (rs_disk_lru_remove key ?r) = (res1, r1)" by force
    have k1: "keeps {} r r1" using keeps_acquire_disk [OF inv' key t' ac] by simp
    note acq = rs_acquire_from_disk [OF inv' key ac]
    show ?thesis
    proof (cases res1)
      case (Inl e)
      then show ?thesis using al key ac k1 keeps_mono [OF k1, of "{key}"] by (auto simp: rs_alloc_def)
    next
      case (Inr s)
      have "keeps {key} r1 (r1\<lparr> rs_swap := discard_record so (rs_swap r1) d,
          rs_map := (rs_map r1)(key := Some (Reserved s)) \<rparr>)"
        using acq Inr keeps_tier_ok [OF k1] by (intro keeps_discard) auto
      note k2 = keeps_trans [OF keeps_mono [OF k1, of "{key}", OF empty_subsetI] this]
      have "res = Inr s" and "r' = r1\<lparr> rs_free_disk := vec_push (rs_free_disk r1) d,
          rs_swap := discard_record so (rs_swap r1) d, rs_map := (rs_map r1)(key \<mapsto> Reserved s) \<rparr>"
        using al key ac Inr by (simp_all add: rs_alloc_def Let_def)
      then show ?thesis by (auto intro: keeps_same [OF k2])
    qed
  next
    case slot
    then consider (res) "rs_map r key = Some (Reserved s)" | (rdt) "rs_map r key = Some (Resident s)"
      by (cases "rs_map r key" rule: slot_of.cases) auto
    then show ?thesis
    proof cases
      case res
      then show ?thesis using al t by (auto simp: rs_alloc_def keeps_refl)
    next
      case rdt
      have k: "keeps {key} r (r\<lparr> rs_map := (rs_map r)(key \<mapsto> Reserved s) \<rparr>)"
        by (rule keepsI) (use t in \<open>auto intro: blob_cong\<close>)
      have "res = Inr s"
        and "r' = ?r\<lparr> rs_lru := remove1 key (rs_lru r), rs_map := (rs_map r)(key \<mapsto> Reserved s) \<rparr>"
        using al rdt by (simp_all add: rs_alloc_def rs_lru_remove_def Let_def)
      then show ?thesis by (auto intro: keeps_same [OF k])
    qed
  qed
qed

lemma keeps_locate:
  assumes inv: "rs_inv n r" and t: "tier_ok r" and lo: "rs_locate ao so key r = (res, r')"
  shows "keeps {} r r' \<and> (\<forall>s. res = Inr (Some s) \<longrightarrow> blob r' key = Some (acont (rs_arena r') s))"
proof -
  let ?r = "r\<lparr> rs_stats := (rs_stats r)\<lparr> st_gets := st_gets (rs_stats r) + 1 \<rparr> \<rparr>"
  have inv': "rs_inv n ?r" and t': "tier_ok ?r" using inv t by simp_all
  have hit: "slot_of (rs_map r' key) = Some s" if "res = Inr (Some s)" for s
    using rs_locate_inv [OF inv lo] that by simp
  have found: "blob r' key = Some (acont (rs_arena r') s)" if "res = Inr (Some s)" for s
    using hit [OF that] by (cases "rs_map r' key" rule: slot_of.cases) (simp_all add: rs_blob_def)
  consider (disk) d where "rs_map r key = Some (OnDisk d)" | (other) "\<forall>d. rs_map r key \<noteq> Some (OnDisk d)"
    by blast
  then have "keeps {} r r'"
  proof cases
    case other
    have "rs_map r' = rs_map r \<and> rs_arena r' = rs_arena r \<and> rs_swap r' = rs_swap r
        \<and> rs_max_disk_slots r' = rs_max_disk_slots r"
      using lo other
      by (auto simp: rs_locate_def rs_lru_touch_def rs_lru_remove_def Let_def
          split: option.splits loc.splits if_splits)
    then show ?thesis using keeps_same [OF keeps_refl [OF t]] by blast
  next
    case disk
    then have key: "rs_map ?r key = Some (OnDisk d)" by simp
    obtain res1 r1 where ac: "rs_acquire_slot ao so (rs_disk_lru_remove key ?r) = (res1, r1)" by force
    have k1: "keeps {} r r1" and b1: "blob r1 key = blob r key"
      using keeps_acquire_disk [OF inv' key t' ac] by simp_all
    note acq = rs_acquire_from_disk [OF inv' key ac]
    show ?thesis
    proof (cases res1)
      case (Inl e)
      then show ?thesis using lo key ac k1 by (auto simp: rs_locate_def)
    next
      case (Inr s)
      have ok1: "rs_ok n {s} {} {key} {} r1" and m1: "rs_map r1 key = Some (OnDisk d)"
        using acq Inr by auto
      show ?thesis
      proof (cases "read_record so (rs_swap r1) d")
        case (Inl e)
        then show ?thesis using lo key ac \<open>res1 = Inr s\<close> k1 by (auto simp: rs_locate_def Let_def)
      next
        case rd: (Inr buf)
        obtain w a' where w: "write_slot ao (rs_arena r1) s buf = (w, a')" by force
        have k2: "keeps {} r (r1\<lparr> rs_arena := a' \<rparr>)"
          by (rule keeps_trans [OF k1 keeps_arena_hand [OF ok1 _ keeps_tier_ok [OF k1] w]]) simp
        show ?thesis
        proof (cases w)
          case (Some e)
          then have "r' = r1\<lparr> rs_arena := a', rs_free_slots := vec_push (rs_free_slots r1) s,
              rs_disk_lru := key # rs_disk_lru r1 \<rparr>"
            using lo key ac Inr rd w by (simp add: rs_locate_def Let_def)
          then show ?thesis using k2 by simp
        next
          case None
          let ?q = "r1\<lparr> rs_arena := a', rs_swap := discard_record so (rs_swap r1) d,
                       rs_map := (rs_map r1)(key := Some (Resident s)) \<rparr>"
          have r': "r' = r1\<lparr> rs_arena := a', rs_free_disk := vec_push (rs_free_disk r1) d,
              rs_swap := discard_record so (rs_swap r1) d,
              rs_map := (rs_map r1)(key \<mapsto> Resident s), rs_lru := rs_lru r1 @ [key],
              rs_stats := (rs_stats r1)\<lparr> st_faults_from_disk := st_faults_from_disk (rs_stats r1) + 1 \<rparr> \<rparr>"
            using lo key ac Inr rd w None by (simp add: rs_locate_def Let_def)
          have "keeps {key} (r1\<lparr> rs_arena := a' \<rparr>) ?q"
            using keeps_discard [of n "{s}" "{}" "{key}" "{}" "r1\<lparr> rs_arena := a' \<rparr>" key d "Some (Resident s)"]
              ok1 m1 keeps_tier_ok [OF k2] by simp
          from keeps_trans [OF keeps_mono [OF k2, of "{key}", OF empty_subsetI] this]
          have kq: "keeps {key} r ?q" .
          have "acont a' s = buf"
            using arena_write [OF _ w] None keeps_tier_ok [OF k1] by (simp add: tier_ok_def)
          moreover have "scont (rs_swap r1) d = Some buf"
            using store_read [OF _ rd] keeps_tier_ok [OF k1] by (simp add: tier_ok_def)
          ultimately have "blob ?q key = blob r key" using m1 b1 by (simp add: rs_blob_def)
          then have "keeps {} r ?q" using kq m1 key by (auto simp: keeps_def)
          then show ?thesis by (rule keeps_same) (simp_all add: r')
        qed
      qed
    qed
  qed
  with found show ?thesis by blast
qed

lemma keeps_remove:
  assumes "rs_inv n r" and "tier_ok r"
  shows "keeps {key} r (rs_remove so key r)"
proof (cases "\<exists>d. rs_map r key = Some (OnDisk d)")
  case True
  then obtain d where d: "rs_map r key = Some (OnDisk d)" by blast
  show ?thesis
    by (rule keeps_same [OF keeps_discard [OF assms(1) d assms(2), of None]])
      (simp_all add: d rs_remove_def rs_disk_lru_remove_def)
next
  case False
  have "keeps {key} r (r\<lparr> rs_map := (rs_map r)(key := None) \<rparr>)"
    by (rule keepsI) (use assms(2) in \<open>auto intro: blob_cong\<close>)
  then show ?thesis
    by (rule keeps_same) (use False in \<open>auto simp: rs_remove_def rs_lru_remove_def Let_def
        split: option.split loc.split\<close>)
qed

lemma keeps_commit:
  assumes "tier_ok r"
  shows "keeps {} r (snd (rs_commit key r))"
proof -
  have "blob (snd (rs_commit key r)) k = blob r k" for k
    by (auto simp: rs_commit_def rs_blob_def split: option.split loc.split)
  then show ?thesis using assms
    by (auto simp: keeps_def rs_commit_def tier_ok_def split: option.split loc.split)
qed

lemma keeps_pins:
  "tier_ok r \<Longrightarrow> keeps {} r (rs_pin_read key r)"
  "tier_ok r \<Longrightarrow> keeps {} r (rs_unpin_read key r)"
  by (rule keeps_same [OF keeps_refl]; auto simp: rs_pin_read_def rs_unpin_read_def rs_lru_remove_def
      Let_def split: option.split loc.split)+

lemma blob_put:
  assumes inv: "rs_inv n r" and t: "tier_ok r" and put: "rs_put_blob ao so key bs r = (err, r')"
  shows "keeps {key} r r' \<and> (err = None \<longrightarrow> blob r' key = Some bs)
       \<and> (err \<noteq> None \<longrightarrow> rs_map r' key = None \<or> rs_map r key \<noteq> None \<and> blob r' key = blob r key)"
proof (cases "length bs \<noteq> rs_blob_bytes r")
  case True
  then show ?thesis using put t by (cases "rs_map r key") (auto simp: rs_put_blob_def keeps_refl)
next
  case len: False
  obtain res r1 where al: "rs_alloc ao so key r = (res, r1)" by force
  note k1 = keeps_alloc [OF inv t al]
  note inv1 = rs_alloc_inv [OF inv al]
  show ?thesis
  proof (cases res)
    case (Inl e)
    then have "r' = r1" "err = Some e" using put len al by (simp_all add: rs_put_blob_def)
    then show ?thesis using k1 Inl by (auto simp: keeps_def split: if_splits)
  next
    case (Inr s)
    obtain w a' where w: "write_slot ao (rs_arena r1) s bs = (w, a')" by force
    let ?q = "r1\<lparr> rs_arena := a' \<rparr>"
    have m1: "rs_map r1 key = Some (Reserved s)" using inv1 Inr by simp
    note aw = arena_write [OF _ w]
    have t1: "tier_ok r1" using k1 keeps_tier_ok by blast
    have "keeps {key} r1 ?q"
    proof (rule keepsI)
      show "tier_ok ?q" using aw t1 by (simp add: tier_ok_def)
      show "blob ?q k = blob r1 k" if "k \<notin> {key}" for k
      proof (rule blob_cong, goal_cases)
        case (2 t)
        have "t \<noteq> s"
          using parts_inj [OF rs_ok_slots [OF conjunct1 [OF inv1]], of k t key] 2 m1 that by auto
        then show ?case using aw t1 by (simp add: tier_ok_def)
      qed simp_all
    qed simp_all
    with k1 have kq: "keeps {key} r ?q" using keeps_trans by blast
    have invq: "rs_inv n ?q" using inv1 by simp
    show ?thesis
    proof (cases w)
      case None
      then have "(err, r') = rs_commit key ?q" using put len al Inr w by (simp add: rs_put_blob_def)
      moreover have "fst (rs_commit key ?q) = None
          \<and> rs_map (snd (rs_commit key ?q)) key = Some (Resident s)
          \<and> rs_arena (snd (rs_commit key ?q)) = a'"
        using m1 by (simp add: rs_commit_def)
      moreover have "acont a' s = bs" using aw None t1 by (simp add: tier_ok_def)
      ultimately show ?thesis
        using keeps_trans [OF kq keeps_mono [OF keeps_commit [OF keeps_tier_ok [OF kq]]]]
        by (metis fst_conv snd_conv empty_subsetI rs_blob_def option.simps(5) loc.simps(11))
    next
      case (Some e)
      then have "err = Some e" "r' = rs_remove so key ?q"
        using put len al Inr w by (simp_all add: rs_put_blob_def)
      then show ?thesis
        using keeps_trans [OF kq keeps_remove [OF invq keeps_tier_ok [OF kq]]]
          rs_remove_inv [OF invq, of so key] by simp
    qed
  qed
qed

lemma blob_get:
  assumes inv: "rs_inv n r" and t: "tier_ok r" and get: "rs_get_blob ao so key len r = (res, r')"
  shows "keeps {} r r' \<and> (\<forall>bs. res = Inr (Some bs) \<longrightarrow> blob r key = Some bs)
       \<and> (res = Inr None \<longrightarrow> rs_map r key = None)"
proof -
  obtain res1 r1 where lo: "rs_locate ao so key r = (res1, r1)" by force
  note k = keeps_locate [OF inv t lo]
  note li = rs_locate_inv [OF inv lo]
  have "blob r key = Some (acont (rs_arena r1) s)" if "res1 = Inr (Some s)" for s
  proof -
    have "rs_map r1 key \<noteq> None" using li that by (cases "rs_map r1 key") auto
    then show ?thesis using k that keeps_blob [of "{}" r r1 key] by simp
  qed
  moreover have "aok (rs_arena r1)" using k keeps_tier_ok by (auto simp: tier_ok_def)
  ultimately show ?thesis using get lo k li t
    by (auto simp: rs_get_blob_def keeps_refl dest: arena_read split: if_splits sum.splits option.splits)
qed

text \<open>The page table never holds other bytes for a key than the ones last put.\<close>

definition agrees :: "nat \<Rightarrow> ('a, 's) residency \<times> (u64w \<rightharpoonup> byte list) \<Rightarrow> bool" where
  "agrees n = (\<lambda>(r, m). rs_inv n r \<and> tier_ok r \<and> (\<forall>k. rs_map r k \<noteq> None \<longrightarrow> m k \<noteq> None \<and> blob r k = m k))"

lemma agrees_keeps:
  assumes "agrees n (r, m)" and "keeps K r r'" and "rs_inv n r'"
    and "\<And>k. k \<notin> K \<Longrightarrow> m' k = m k"
    and "\<And>k. k \<in> K \<Longrightarrow> rs_map r' k \<noteq> None \<Longrightarrow> m' k \<noteq> None \<and> blob r' k = m' k"
  shows "agrees n (r', m')"
  using assms unfolding agrees_def keeps_def by (auto split: if_splits) (metis option.distinct(1))+

lemma blob_run_agrees:
  "agrees n (r, m) \<Longrightarrow> agrees n (blob_run ao so ops (r, m))"
proof (induction ops arbitrary: r m)
  case Nil
  then show ?case by simp
next
  case (Cons b ops)
  then have inv: "rs_inv n r" and t: "tier_ok r" and ag: "agrees n (r, m)" by (simp_all add: agrees_def)
  show ?case
  proof (cases b)
    case (BPut k bs)
    obtain err r' where p: "rs_put_blob ao so k bs r = (err, r')" by force
    note bp = blob_put [OF inv t p]
    have "agrees n (r', if err = None then m(k \<mapsto> bs) else m)"
      by (rule agrees_keeps [OF ag conjunct1 [OF bp] rs_put_blob_inv [OF inv p]])
        (use bp ag in \<open>auto simp: agrees_def keeps_def\<close>)
    then show ?thesis using Cons.IH BPut p by (auto split: option.split if_splits)
  next
    case (BGet k len)
    obtain res r' where g: "rs_get_blob ao so k len r = (res, r')" by force
    have "agrees n (r', m)"
      by (rule agrees_keeps [OF ag _ rs_get_blob_inv [OF inv g]]) (use blob_get [OF inv t g] in auto)
    then show ?thesis using Cons.IH BGet g by simp
  next
    case (BLocate k)
    obtain res r' where g: "rs_locate ao so k r = (res, r')" by force
    have "agrees n (r', m)"
      by (rule agrees_keeps [OF ag conjunct1 [OF keeps_locate [OF inv t g]]])
        (use rs_locate_inv [OF inv g] in auto)
    then show ?thesis using Cons.IH BLocate g by simp
  next
    case (BRemove k)
    have "agrees n (rs_remove so k r, m(k := None))"
      by (rule agrees_keeps [OF ag keeps_remove [OF inv t]])
        (use rs_remove_inv [OF inv, of so k] in auto)
    then show ?thesis using Cons.IH BRemove by simp
  next
    case (BPin k)
    have "agrees n (rs_pin_read k r, m)"
      by (rule agrees_keeps [OF ag keeps_pins(1) [OF t] rs_pin_inv [OF inv]]) auto
    then show ?thesis using Cons.IH BPin by simp
  next
    case (BUnpin k)
    have "agrees n (rs_unpin_read k r, m)"
      by (rule agrees_keeps [OF ag keeps_pins(2) [OF t] rs_unpin_inv [OF inv]]) auto
    then show ?thesis using Cons.IH BUnpin by simp
  qed
qed

end

subsection \<open>Nothing is lost without a cap\<close>

lemma rs_locate_blob_bytes:
  assumes inv: "rs_inv n r" and lo: "rs_locate ao so key r = (res, r')"
  shows "rs_blob_bytes r' = rs_blob_bytes r"
proof -
  let ?r = "r\<lparr> rs_stats := (rs_stats r)\<lparr> st_gets := st_gets (rs_stats r) + 1 \<rparr> \<rparr>"
  have inv': "rs_inv n ?r" using inv by simp
  show ?thesis
  proof (cases "\<exists>d. rs_map r key = Some (OnDisk d)")
    case True
    then obtain d where key: "rs_map ?r key = Some (OnDisk d)" by auto
    obtain res1 r1 where ac: "rs_acquire_slot ao so (rs_disk_lru_remove key ?r) = (res1, r1)" by force
    have X: "\<forall>k \<in> {key}. rs_disks (rs_disk_lru_remove key ?r) k \<noteq> None"
      using key by (simp add: rs_disk_lru_remove_def)
    have "rs_blob_bytes r1 = rs_blob_bytes r"
      using rs_acquire_ok [OF rs_ok_stats_lru [OF inv' key] X ac] by (simp add: rs_disk_lru_remove_def)
    moreover have "rs_blob_bytes r' = rs_blob_bytes r1"
      using lo key ac
      by (auto simp: rs_locate_def Let_def split: sum.splits prod.splits option.splits)
    ultimately show ?thesis by simp
  next
    case False
    then show ?thesis using lo
      by (auto simp: rs_locate_def rs_lru_touch_def rs_lru_remove_def Let_def
          split: option.splits loc.splits if_splits)
  qed
qed

lemma rs_simple_blob_bytes [simp]:
  "rs_blob_bytes (snd (rs_commit key r)) = rs_blob_bytes r"
  "rs_blob_bytes (rs_remove so key r) = rs_blob_bytes r"
  "rs_blob_bytes (rs_pin_read key r) = rs_blob_bytes r"
  "rs_blob_bytes (rs_unpin_read key r) = rs_blob_bytes r"
  by (auto simp: rs_commit_def rs_remove_def rs_pin_read_def rs_unpin_read_def rs_lru_remove_def
      rs_disk_lru_remove_def Let_def split: option.split loc.split)

lemma rs_put_blob_bytes:
  assumes inv: "rs_inv n r" and put: "rs_put_blob ao so key bs r = (err, r')"
  shows "rs_blob_bytes r' = rs_blob_bytes r"
proof (cases "length bs \<noteq> rs_blob_bytes r")
  case True
  then show ?thesis using put by (simp add: rs_put_blob_def)
next
  case len: False
  obtain res r1 where al: "rs_alloc ao so key r = (res, r1)" by force
  then have bb: "rs_blob_bytes r1 = rs_blob_bytes r" using rs_alloc_inv [OF inv] by blast
  show ?thesis
  proof (cases res)
    case (Inl e)
    then show ?thesis using put len al bb by (simp add: rs_put_blob_def)
  next
    case (Inr s)
    obtain w a' where w: "write_slot ao (rs_arena r1) s bs = (w, a')" by force
    have "r' = (case w of Some e \<Rightarrow> rs_remove so key (r1\<lparr> rs_arena := a' \<rparr>)
              | None \<Rightarrow> snd (rs_commit key (r1\<lparr> rs_arena := a' \<rparr>)))"
      using put len al Inr w by (auto simp: rs_put_blob_def split: option.splits dest: arg_cong [of _ _ snd])
    then show ?thesis using bb by (simp split: option.splits)
  qed
qed

lemma rs_get_blob_bytes:
  assumes inv: "rs_inv n r" and get: "rs_get_blob ao so key len r = (res, r')"
  shows "rs_blob_bytes r' = rs_blob_bytes r"
proof -
  obtain res1 r1 where lo: "rs_locate ao so key r = (res1, r1)" by force
  from rs_locate_blob_bytes [OF inv lo] get lo show ?thesis
    by (auto simp: rs_get_blob_def split: if_splits sum.splits option.splits)
qed

text \<open>An arena whose writes to its \<open>N\<close> slots of \<open>B\<close> bytes always succeed.\<close>

locale reliable_tier = tier ao so aok sok acont scont
  for ao :: "'a arena_ops" and so :: "'s store_ops" and aok sok acont scont +
  fixes N B :: nat
  assumes arena_writes: "aok a \<Longrightarrow> s < N \<Longrightarrow> length b = B \<Longrightarrow> fst (write_slot ao a s b) = None"
begin

lemma put_error_changes_nothing:
  assumes inv: "rs_inv N r" and t: "tier_ok r" and B: "rs_blob_bytes r = B"
    and put: "rs_put_blob ao so key bs r = (Some e, r')"
  shows "keeps {} r r'"
proof (cases "length bs \<noteq> rs_blob_bytes r")
  case True
  then show ?thesis using put t by (simp add: rs_put_blob_def keeps_refl)
next
  case len: False
  obtain res r1 where al: "rs_alloc ao so key r = (res, r1)" by force
  note k1 = keeps_alloc [OF inv t al]
  note inv1 = rs_alloc_inv [OF inv al]
  show ?thesis
  proof (cases res)
    case (Inl e)
    then show ?thesis using put len al k1 by (auto simp: rs_put_blob_def)
  next
    case (Inr s)
    then have m1: "rs_map r1 key = Some (Reserved s)" using inv1 by simp
    have "s < N" using parts_bound [OF rs_ok_slots [OF conjunct1 [OF inv1]], of key s] m1 by simp
    moreover have "aok (rs_arena r1)" using k1 keeps_tier_ok by (auto simp: tier_ok_def)
    ultimately have "fst (write_slot ao (rs_arena r1) s bs) = None" using arena_writes len B by simp
    then have "fst (rs_put_blob ao so key bs r) = None"
      using len al Inr m1 by (auto simp: rs_put_blob_def rs_commit_def Let_def split: prod.split)
    then show ?thesis using put by simp
  qed
qed

definition exact :: "('a, 's) residency \<times> (u64w \<rightharpoonup> byte list) \<Rightarrow> bool" where
  "exact = (\<lambda>(r, m). rs_inv N r \<and> tier_ok r \<and> rs_blob_bytes r = B \<and> rs_max_disk_slots r = 0
     \<and> (\<forall>k. if rs_map r k = None then m k = None else m k \<noteq> None \<and> blob r k = m k))"

lemma exact_keeps:
  assumes "exact (r, m)" and "keeps K r r'" and "rs_inv N r'" and "rs_blob_bytes r' = rs_blob_bytes r"
    and "\<And>k. k \<notin> K \<Longrightarrow> m' k = m k"
    and "\<And>k. k \<in> K \<Longrightarrow> if rs_map r' k = None then m' k = None else m' k \<noteq> None \<and> blob r' k = m' k"
  shows "exact (r', m')"
proof -
  have "(rs_map r' k = None \<longrightarrow> m' k = None) \<and> (rs_map r' k \<noteq> None \<longrightarrow> m' k \<noteq> None \<and> blob r' k = m' k)" for k
  proof (cases "k \<in> K")
    case True
    then show ?thesis using assms(6) [of k] by (auto split: if_splits)
  next
    case False
    have a: "if rs_map r k = None then m k = None else m k \<noteq> None \<and> blob r k = m k"
      and z: "rs_max_disk_slots r = 0"
      using assms(1) by (auto simp: exact_def)
    have "if rs_map r' k = None then rs_map r k = None \<or> 0 < rs_max_disk_slots r
          else rs_map r k \<noteq> None \<and> blob r' k = blob r k"
      using assms(2) False by (simp add: keeps_def)
    then show ?thesis using a z assms(5) [OF False] by (auto split: if_splits)
  qed
  moreover have "tier_ok r' \<and> rs_blob_bytes r' = B \<and> rs_max_disk_slots r' = 0"
    using assms(1,2,4) by (auto simp: exact_def keeps_def)
  ultimately show ?thesis using assms(3) by (simp add: exact_def)
qed

lemma blob_run_exact:
  "exact (r, m) \<Longrightarrow> exact (blob_run ao so ops (r, m))"
proof (induction ops arbitrary: r m)
  case Nil
  then show ?case by simp
next
  case (Cons b ops)
  then have inv: "rs_inv N r" and t: "tier_ok r" and B: "rs_blob_bytes r = B" and ag: "exact (r, m)"
    by (auto simp: exact_def)
  show ?case
  proof (cases b)
    case (BPut k bs)
    obtain err r' where p: "rs_put_blob ao so k bs r = (err, r')" by force
    note bp = blob_put [OF inv t p]
    show ?thesis
    proof (cases err)
      case None
      have "rs_map r' k \<noteq> None" using bp None by (cases "rs_map r' k") (simp_all add: rs_blob_def)
      then have "exact (r', m(k \<mapsto> bs))"
        by (intro exact_keeps [OF ag conjunct1 [OF bp] rs_put_blob_inv [OF inv p] rs_put_blob_bytes [OF inv p]])
          (use bp None in auto)
      then show ?thesis using Cons.IH BPut p None by simp
    next
      case (Some e)
      have "exact (r', m)"
        by (rule exact_keeps [OF ag put_error_changes_nothing [OF inv t B p [unfolded Some]]
              rs_put_blob_inv [OF inv p] rs_put_blob_bytes [OF inv p]]) auto
      then show ?thesis using Cons.IH BPut p Some by simp
    qed
  next
    case (BGet k len)
    obtain res r' where g: "rs_get_blob ao so k len r = (res, r')" by force
    have "exact (r', m)"
      by (rule exact_keeps [OF ag conjunct1 [OF blob_get [OF inv t g]] rs_get_blob_inv [OF inv g]
            rs_get_blob_bytes [OF inv g]]) auto
    then show ?thesis using Cons.IH BGet g by simp
  next
    case (BLocate k)
    obtain res r' where g: "rs_locate ao so k r = (res, r')" by force
    have "exact (r', m)"
      by (rule exact_keeps [OF ag conjunct1 [OF keeps_locate [OF inv t g]]
            conjunct1 [OF rs_locate_inv [OF inv g]] rs_locate_blob_bytes [OF inv g]]) auto
    then show ?thesis using Cons.IH BLocate g by simp
  next
    case (BRemove k)
    have "exact (rs_remove so k r, m(k := None))"
      by (rule exact_keeps [OF ag keeps_remove [OF inv t]])
        (use rs_remove_inv [OF inv, of so k] in auto)
    then show ?thesis using Cons.IH BRemove by simp
  next
    case (BPin k)
    have "exact (rs_pin_read k r, m)"
      by (rule exact_keeps [OF ag keeps_pins(1) [OF t] rs_pin_inv [OF inv]]) auto
    then show ?thesis using Cons.IH BPin by simp
  next
    case (BUnpin k)
    have "exact (rs_unpin_read k r, m)"
      by (rule exact_keeps [OF ag keeps_pins(2) [OF t] rs_unpin_inv [OF inv]]) auto
    then show ?thesis using Cons.IH BUnpin by simp
  qed
qed

end

end
