(* ===== verification/Residency_Cap.thy ===== *)
theory Residency_Cap
  imports Residency_Inv
begin

text \<open>
  The disk cap of \<open>Residency\<close>: how many keys are on disk and how many records the store file
  ever holds. Both stay at most one above \<open>max_disk_slots\<close>; the file does because a faulting key
  is out of \<open>disk_lru\<close> while its record is still live, the number of on-disk keys does because a
  fault that spilled another key and then failed puts its key back.
\<close>

definition rs_disk_count :: "('a, 's) residency \<Rightarrow> nat" where
  "rs_disk_count r = length (rs_disk_lru r)"

definition rs_disk_high_water :: "('a, 's) residency \<Rightarrow> nat" where
  "rs_disk_high_water r = rs_next_disk r"

definition rs_resident_count :: "('a, 's) residency \<Rightarrow> nat" where
  "rs_resident_count r = length (rs_lru r)"

definition rs_within_cap :: "('a, 's) residency \<Rightarrow> bool" where
  "rs_within_cap r \<longleftrightarrow> rs_max_disk_slots r = 0
     \<or> rs_disk_count r \<le> rs_max_disk_slots r + 1 \<and> rs_disk_high_water r \<le> rs_max_disk_slots r + 1"

lemmas rs_cap_defs = rs_within_cap_def rs_disk_count_def rs_disk_high_water_def

subsection \<open>Counting the records\<close>

lemma rs_ok_on_disk:
  assumes "rs_ok n H D X Y r" and "\<forall>k \<in> X. rs_disks r k \<noteq> None"
  shows "dom (rs_disks r) = set (rs_disk_lru r) \<union> X"
proof -
  have "k \<in> dom (rs_disks r) \<longleftrightarrow> k \<in> set (rs_disk_lru r) \<union> X" for k
    using rs_ok_disk_lru(2) [OF assms(1), of k] assms(2) by blast
  then show ?thesis by blast
qed

lemma rs_ok_next_disk_full:
  assumes "rs_ok n H {} X Y r" and "\<forall>k \<in> X. rs_disks r k \<noteq> None" and "rs_free_disk r = []"
    and "finite X"
  shows "rs_next_disk r \<le> length (rs_disk_lru r) + card X"
proof -
  have "card (dom (rs_disks r)) = rs_next_disk r"
    using rs_ok_disks [OF assms(1)] assms(3) by (simp add: parts_full)
  then have "rs_next_disk r = card (set (rs_disk_lru r) \<union> X)"
    using rs_ok_on_disk [OF assms(1,2)] by simp
  also have "\<dots> \<le> card (set (rs_disk_lru r)) + card X" by (rule card_Un_le)
  also have "\<dots> \<le> length (rs_disk_lru r) + card X" by (simp add: card_length)
  finally show ?thesis .
qed

lemma rs_make_room_loop_short:
  "0 < rs_max_disk_slots r \<Longrightarrow> length (rs_disk_lru (rs_make_room_loop so r)) < rs_max_disk_slots r
   \<and> rs_next_disk (rs_make_room_loop so r) = rs_next_disk r"
proof (induction so r rule: rs_make_room_loop.induct)
  case (1 so r)
  show ?case
  proof (cases "rs_max_disk_slots r \<le> length (rs_disk_lru r)")
    case False
    then show ?thesis by (subst rs_make_room_loop.simps, subst rs_make_room_loop.simps) simp
  next
    case True
    with "1.prems" obtain cold rest where cr: "rs_disk_lru r = cold # rest"
      by (cases "rs_disk_lru r") auto
    have "rs_make_room_loop so r = rs_make_room_loop so (rs_drop_cold so cold rest r)"
      using True cr by (subst rs_make_room_loop.simps) simp
    then show ?thesis using "1.IH" [OF True cr] "1.prems" by simp
  qed
qed

lemma rs_alloc_disk_slot_next:
  assumes "rs_alloc_disk_slot r = (d, r')"
  shows "rs_next_disk r' = (if rs_free_disk r = [] then rs_next_disk r + 1 else rs_next_disk r)"
  using assms by (auto simp: rs_alloc_disk_slot_def vec_pop_Some split: option.splits prod.splits)

text \<open>A spill leaves at most the cap, one record more while a key is faulting.\<close>

lemma rs_evict_cap:
  assumes ok: "rs_ok n H {} X {} r" and X: "\<forall>k \<in> X. rs_disks r k \<noteq> None" "finite X" "card X \<le> 1"
    and cap: "0 < rs_max_disk_slots r" "rs_next_disk r \<le> rs_max_disk_slots r + 1"
    and ev: "rs_evict_coldest_to_disk ao so r = (res, r')"
  shows "rs_next_disk r' \<le> rs_max_disk_slots r + 1
    \<and> (length (rs_disk_lru r') \<le> rs_max_disk_slots r \<or> rs_disk_lru r' = rs_disk_lru r)"
proof (cases "rs_lru r")
  case Nil
  then show ?thesis using ev cap by (auto simp: rs_evict_coldest_to_disk_def)
next
  case (Cons victim lru')
  obtain slot where slot: "rs_map r victim = Some (Resident slot)"
    using rs_ok_lru_key [OF ok, of victim] Cons by auto
  define r1 where "r1 = rs_make_disk_room so (r\<lparr> rs_lru := lru' \<rparr>)"
  obtain d r2 where ad: "rs_alloc_disk_slot r1 = (d, r2)" by force
  obtain err swap' where w: "rs_spill_write ao so r2 slot d = (err, swap')" by force
  note mr = rs_make_disk_room_ok [OF rs_ok_hide_lru [OF ok Cons], where so = so, folded r1_def]
  have short: "length (rs_disk_lru r1) < rs_max_disk_slots r" and next1: "rs_next_disk r1 = rs_next_disk r"
    using rs_make_room_loop_short [of "r\<lparr> rs_lru := lru' \<rparr>" so] cap
    by (simp_all add: r1_def rs_make_disk_room_def)
  have X1: "\<forall>k \<in> X. rs_disks r1 k \<noteq> None" using X(1) mr by auto
  have "rs_next_disk r1 \<le> length (rs_disk_lru r1) + card X" if "rs_free_disk r1 = []"
    by (rule rs_ok_next_disk_full [OF conjunct1 [OF mr] X1 that X(2)])
  then have n2: "rs_next_disk r2 \<le> rs_max_disk_slots r + 1"
    using rs_alloc_disk_slot_next [OF ad] short next1 cap X(3) by (auto split: if_splits)
  have l2: "rs_disk_lru r2 = rs_disk_lru r1" using rs_alloc_disk_slot_frame [OF ad] by simp
  note unf = rs_evict_unfold [OF Cons slot ad [unfolded r1_def] w]
  show ?thesis
  proof (cases err)
    case None
    then have "rs_next_disk r' = rs_next_disk r2" "rs_disk_lru r' = rs_disk_lru r2 @ [victim]"
      using ev unf by auto
    then show ?thesis using n2 l2 short by simp
  next
    case (Some e)
    then have "rs_next_disk r' = rs_next_disk r2" "rs_disk_lru r' = rs_disk_lru r2"
      using ev unf by auto
    then show ?thesis using n2 l2 short by simp
  qed
qed

lemma rs_acquire_cap:
  assumes "rs_ok n H {} X {} r" and "\<forall>k \<in> X. rs_disks r k \<noteq> None" "finite X" "card X \<le> 1"
    and "0 < rs_max_disk_slots r" "rs_next_disk r \<le> rs_max_disk_slots r + 1"
    and "rs_acquire_slot ao so r = (res, r')"
  shows "rs_next_disk r' \<le> rs_max_disk_slots r + 1
    \<and> (length (rs_disk_lru r') \<le> rs_max_disk_slots r \<or> rs_disk_lru r' = rs_disk_lru r)
    \<and> rs_max_disk_slots r' = rs_max_disk_slots r"
proof (cases "vec_pop (rs_free_slots r)")
  case None
  then show ?thesis
    using rs_evict_cap [OF assms(1-6), of ao so res r'] rs_evict_ok [OF assms(1,2), of ao so res r'] assms(7)
    by (simp add: rs_acquire_slot_def)
next
  case (Some p)
  then show ?thesis using assms by (auto simp: rs_acquire_slot_def split: prod.splits)
qed

text \<open>The acquisition of a slot for a key that is not on disk, and for one that is.\<close>

lemma rs_acquire_cap_new:
  assumes "rs_inv n r" and "rs_within_cap r" and "rs_acquire_slot ao so r = (res, r')"
  shows "rs_within_cap r' \<and> rs_max_disk_slots r' = rs_max_disk_slots r"
proof (cases "rs_max_disk_slots r = 0")
  case True
  then show ?thesis using rs_acquire_ok [OF assms(1) _ assms(3)] by (simp add: rs_cap_defs)
next
  case False
  then show ?thesis
    using rs_acquire_cap [OF assms(1) _ _ _ _ _ assms(3)] assms(2) by (auto simp: rs_cap_defs)
qed

lemma rs_acquire_cap_disk:
  assumes "rs_inv n r" and "rs_within_cap r" and "rs_map r key = Some (OnDisk d)"
    and "rs_acquire_slot ao so (rs_disk_lru_remove key r) = (res, r')"
  shows "rs_max_disk_slots r' = rs_max_disk_slots r
    \<and> (0 < rs_max_disk_slots r \<longrightarrow> rs_next_disk r' \<le> rs_max_disk_slots r + 1
         \<and> length (rs_disk_lru r') \<le> rs_max_disk_slots r)"
proof -
  let ?q = "rs_disk_lru_remove key r"
  have ok: "rs_ok n {} {} {key} {} ?q" by (rule rs_ok_stats_lru [OF assms(1,3)])
  have X: "\<forall>k \<in> {key}. rs_disks ?q k \<noteq> None" using assms(3) by (simp add: rs_disk_lru_remove_def)
  have max: "rs_max_disk_slots r' = rs_max_disk_slots r"
    using rs_acquire_ok [OF ok X assms(4)] by (simp add: rs_disk_lru_remove_def)
  have "key \<in> set (rs_disk_lru r)" using rs_ok_disk_lru(2) [OF assms(1), of key] assms(3) by simp
  then have len: "length (rs_disk_lru ?q) = length (rs_disk_lru r) - 1"
    by (simp add: rs_disk_lru_remove_def length_remove1)
  show ?thesis
  proof (cases "rs_max_disk_slots r = 0")
    case True
    then show ?thesis using max by simp
  next
    case False
    then have "rs_next_disk ?q \<le> rs_max_disk_slots ?q + 1" "0 < rs_max_disk_slots ?q"
      using assms(2) by (simp_all add: rs_cap_defs rs_disk_lru_remove_def)
    from rs_acquire_cap [OF ok X _ _ this(2,1) assms(4)] show ?thesis
      using False len assms(2) max by (auto simp: rs_cap_defs rs_disk_lru_remove_def)
  qed
qed

subsection \<open>Every operation stays within the cap\<close>

lemma rs_within_cap_frame [simp]:
  "rs_within_cap (r\<lparr> rs_stats := st \<rparr>) = rs_within_cap r"
  "rs_within_cap (r\<lparr> rs_arena := a \<rparr>) = rs_within_cap r"
  "rs_within_cap (r\<lparr> rs_lru := l \<rparr>) = rs_within_cap r"
  "rs_within_cap (r\<lparr> rs_map := m \<rparr>) = rs_within_cap r"
  "rs_within_cap (r\<lparr> rs_read_pins := p \<rparr>) = rs_within_cap r"
  by (simp_all add: rs_cap_defs)

lemma rs_within_cap_fewer:
  assumes "rs_within_cap r" and "rs_max_disk_slots r' = rs_max_disk_slots r"
    and "rs_next_disk r' = rs_next_disk r" and "length (rs_disk_lru r') \<le> length (rs_disk_lru r)"
  shows "rs_within_cap r'"
  using assms by (auto simp: rs_cap_defs)

lemma rs_alloc_cap:
  assumes "rs_inv n r" and "rs_within_cap r" and "rs_alloc ao so key r = (res, r')"
  shows "rs_within_cap r' \<and> rs_max_disk_slots r' = rs_max_disk_slots r"
proof -
  let ?r = "r\<lparr> rs_stats := (rs_stats r)\<lparr> st_puts := st_puts (rs_stats r) + 1 \<rparr> \<rparr>"
  have inv: "rs_inv n ?r" and cap: "rs_within_cap ?r" using assms(1,2) by simp_all
  consider (fresh) "rs_map r key = None" | (disk) d where "rs_map r key = Some (OnDisk d)"
    | (slot) s where "slot_of (rs_map r key) = Some s"
    by (cases "rs_map r key" rule: slot_of.cases) auto
  then show ?thesis
  proof cases
    case fresh
    obtain res1 r1 where ac: "rs_acquire_slot ao so ?r = (res1, r1)" by force
    from rs_acquire_cap_new [OF inv cap ac] show ?thesis
      using assms(3) fresh ac by (auto simp: rs_alloc_def split: sum.splits)
  next
    case disk
    then have key: "rs_map ?r key = Some (OnDisk d)" by simp
    obtain res1 r1 where ac: "rs_acquire_slot ao so (rs_disk_lru_remove key ?r) = (res1, r1)" by force
    from rs_acquire_cap_disk [OF inv cap key ac] show ?thesis
      using assms(3) key ac by (auto simp: rs_alloc_def rs_cap_defs split: sum.splits)
  next
    case slot
    then show ?thesis using assms(2,3)
      by (cases "rs_map r key" rule: slot_of.cases)
        (auto simp: rs_alloc_def rs_lru_remove_def Let_def)
  qed
qed

lemma rs_locate_cap:
  assumes "rs_inv n r" and "rs_within_cap r" and "rs_locate ao so key r = (res, r')"
  shows "rs_within_cap r' \<and> rs_max_disk_slots r' = rs_max_disk_slots r"
proof -
  let ?r = "r\<lparr> rs_stats := (rs_stats r)\<lparr> st_gets := st_gets (rs_stats r) + 1 \<rparr> \<rparr>"
  have inv: "rs_inv n ?r" and cap: "rs_within_cap ?r" using assms(1,2) by simp_all
  consider (fresh) "rs_map r key = None" | (disk) d where "rs_map r key = Some (OnDisk d)"
    | (slot) s where "slot_of (rs_map r key) = Some s"
    by (cases "rs_map r key" rule: slot_of.cases) auto
  then show ?thesis
  proof cases
    case fresh
    then show ?thesis using assms(2,3) by (auto simp: rs_locate_def)
  next
    case disk
    then have key: "rs_map ?r key = Some (OnDisk d)" by simp
    obtain res1 r1 where ac: "rs_acquire_slot ao so (rs_disk_lru_remove key ?r) = (res1, r1)" by force
    note c = rs_acquire_cap_disk [OF inv cap key ac]
    have "rs_max_disk_slots r' = rs_max_disk_slots r1 \<and> rs_next_disk r' = rs_next_disk r1
        \<and> length (rs_disk_lru r') \<le> Suc (length (rs_disk_lru r1))"
      using assms(3) key ac
      by (auto simp: rs_locate_def Let_def split: sum.splits prod.splits option.splits)
    then show ?thesis using c by (auto simp: rs_cap_defs)
  next
    case slot
    then show ?thesis using assms(2,3)
      by (cases "rs_map r key" rule: slot_of.cases)
        (auto simp: rs_locate_def rs_lru_touch_def rs_lru_remove_def Let_def split: if_splits)
  qed
qed

lemma rs_remove_cap:
  assumes "rs_within_cap r"
  shows "rs_within_cap (rs_remove so key r)
       \<and> rs_max_disk_slots (rs_remove so key r) = rs_max_disk_slots r"
proof -
  have "rs_max_disk_slots (rs_remove so key r) = rs_max_disk_slots r
      \<and> rs_next_disk (rs_remove so key r) = rs_next_disk r
      \<and> length (rs_disk_lru (rs_remove so key r)) \<le> length (rs_disk_lru r)"
    by (auto simp: rs_remove_def rs_lru_remove_def rs_disk_lru_remove_def Let_def length_remove1
        split: option.split loc.split)
  then show ?thesis using rs_within_cap_fewer [OF assms, of "rs_remove so key r"] by simp
qed

lemma rs_commit_cap:
  "rs_within_cap r \<Longrightarrow> rs_within_cap (snd (rs_commit key r))
     \<and> rs_max_disk_slots (snd (rs_commit key r)) = rs_max_disk_slots r"
  by (auto simp: rs_commit_def split: option.split loc.split)

lemma rs_pins_cap:
  "rs_within_cap r \<Longrightarrow> rs_within_cap (rs_pin_read key r)
     \<and> rs_max_disk_slots (rs_pin_read key r) = rs_max_disk_slots r"
  "rs_within_cap r \<Longrightarrow> rs_within_cap (rs_unpin_read key r)
     \<and> rs_max_disk_slots (rs_unpin_read key r) = rs_max_disk_slots r"
  by (auto simp: rs_pin_read_def rs_unpin_read_def rs_lru_remove_def Let_def
      split: option.split loc.split)

lemma rs_put_blob_cap:
  assumes "rs_inv n r" and "rs_within_cap r" and "rs_put_blob ao so key bytes r = (err, r')"
  shows "rs_within_cap r' \<and> rs_max_disk_slots r' = rs_max_disk_slots r"
proof (cases "length bytes \<noteq> rs_blob_bytes r")
  case True
  then show ?thesis using assms by (simp add: rs_put_blob_def)
next
  case False
  obtain res r1 where al: "rs_alloc ao so key r = (res, r1)" by force
  note c = rs_alloc_cap [OF assms(1,2) al]
  show ?thesis
  proof (cases res)
    case (Inl e)
    then show ?thesis using assms(3) False al c by (simp add: rs_put_blob_def)
  next
    case (Inr s)
    obtain w a' where w: "write_slot ao (rs_arena r1) s bytes = (w, a')" by force
    have c2: "rs_within_cap (r1\<lparr> rs_arena := a' \<rparr>)" using c by simp
    show ?thesis
    proof (cases w)
      case None
      then have "r' = snd (rs_commit key (r1\<lparr> rs_arena := a' \<rparr>))"
        using assms(3) False al Inr w by (simp add: rs_put_blob_def)
      then show ?thesis using rs_commit_cap [OF c2, of key] c by simp
    next
      case (Some e)
      then have "r' = rs_remove so key (r1\<lparr> rs_arena := a' \<rparr>)"
        using assms(3) False al Inr w by (simp add: rs_put_blob_def)
      then show ?thesis using rs_remove_cap [OF c2, of so key] c by simp
    qed
  qed
qed

lemma rs_get_blob_cap:
  assumes "rs_inv n r" and "rs_within_cap r" and "rs_get_blob ao so key len r = (res, r')"
  shows "rs_within_cap r' \<and> rs_max_disk_slots r' = rs_max_disk_slots r"
proof -
  obtain res1 r1 where lo: "rs_locate ao so key r = (res1, r1)" by force
  from rs_locate_cap [OF assms(1,2) lo] assms lo show ?thesis
    by (auto simp: rs_get_blob_def split: if_splits sum.splits option.splits)
qed

lemma rs_step_cap:
  assumes "rs_inv n r" and "rs_within_cap r" and "rs_step ao so oper r = Some r'"
  shows "rs_within_cap r' \<and> rs_max_disk_slots r' = rs_max_disk_slots r"
proof (cases oper)
  case (OpAlloc k)
  then show ?thesis using assms rs_alloc_cap [OF assms(1,2) prod.collapse [symmetric]] by auto
next
  case (OpCommit k)
  then show ?thesis using assms rs_commit_cap [OF assms(2), of k] by auto
next
  case (OpLocate k)
  then show ?thesis using assms rs_locate_cap [OF assms(1,2) prod.collapse [symmetric]] by auto
next
  case (OpRemove k)
  then show ?thesis using assms rs_remove_cap [OF assms(2), of so k] by auto
next
  case (OpPin k)
  then show ?thesis using assms rs_pins_cap(1) [OF assms(2), of k] by auto
next
  case (OpUnpin k)
  then show ?thesis using assms rs_pins_cap(2) [OF assms(2), of k] by auto
next
  case (OpPut k bs)
  then show ?thesis using assms rs_put_blob_cap [OF assms(1,2) prod.collapse [symmetric]] by auto
next
  case (OpGet k len)
  then show ?thesis using assms rs_get_blob_cap [OF assms(1,2) prod.collapse [symmetric]] by auto
qed

interpretation rs_cap: stepping "rs_step ao so"
  "\<lambda>r. rs_inv n r \<and> rs_within_cap r \<and> rs_max_disk_slots r = m"
  by unfold_locales (use rs_step_inv rs_step_cap in blast)

subsection \<open>A read-pinned slot stays where it is\<close>

lemma rs_evict_pinned:
  assumes ok: "rs_ok n H {} X {} r" and X: "\<forall>k \<in> X. rs_disks r k \<noteq> None"
    and ev: "rs_evict_coldest_to_disk ao so r = (res, r')" and pin: "rs_read_pins r k \<noteq> None"
  shows "rs_map r' k = rs_map r k"
proof (cases "rs_lru r")
  case Nil
  then show ?thesis using ev by (auto simp: rs_evict_coldest_to_disk_def)
next
  case (Cons victim lru')
  obtain slot where slot: "rs_map r victim = Some (Resident slot)"
    and nopin: "rs_read_pins r victim = None"
    using rs_ok_lru_key [OF ok, of victim] Cons by auto
  define r1 where "r1 = rs_make_disk_room so (r\<lparr> rs_lru := lru' \<rparr>)"
  obtain d r2 where ad: "rs_alloc_disk_slot r1 = (d, r2)" by force
  obtain err st' where w: "rs_spill_write ao so r2 slot d = (err, st')" by force
  note mr = rs_make_disk_room_ok [OF rs_ok_hide_lru [OF ok Cons], where so = so, folded r1_def]
  have "rs_disks r k = None" using rs_ok_pins [OF ok] pin by blast
  then have m2: "rs_map r2 k = rs_map r k" using mr rs_alloc_disk_slot_frame [OF ad] by auto
  have "k \<noteq> victim" using pin nopin by auto
  moreover note rs_evict_unfold [OF Cons slot ad [unfolded r1_def] w]
  ultimately show ?thesis using ev m2 by (cases err) auto
qed

lemma rs_acquire_pinned:
  assumes "rs_ok n H {} X {} r" and "\<forall>k \<in> X. rs_disks r k \<noteq> None"
    and "rs_acquire_slot ao so r = (res, r')" and "rs_read_pins r k \<noteq> None"
  shows "rs_map r' k = rs_map r k"
proof (cases "vec_pop (rs_free_slots r)")
  case None
  then show ?thesis using rs_evict_pinned [OF assms(1,2) _ assms(4)] assms(3)
    by (simp add: rs_acquire_slot_def)
next
  case (Some p)
  then show ?thesis using assms(3) by (auto simp: rs_acquire_slot_def split: prod.splits)
qed

text \<open>The slot of a pinned key that is resident or reserved.\<close>

lemma rs_acquire_disk_pinned:
  assumes "rs_inv n r" and "rs_map r key = Some (OnDisk d)"
    and "rs_acquire_slot ao so (rs_disk_lru_remove key r) = (res, r1)" and "rs_read_pins r k \<noteq> None"
  shows "rs_map r1 k = rs_map r k"
proof -
  have "\<forall>k \<in> {key}. rs_disks (rs_disk_lru_remove key r) k \<noteq> None"
    using assms(2) by (simp add: rs_disk_lru_remove_def)
  from rs_acquire_pinned [OF rs_ok_stats_lru [OF assms(1,2)] this assms(3)] assms(4)
  show ?thesis by (simp add: rs_disk_lru_remove_def)
qed

lemma rs_alloc_pinned:
  assumes inv: "rs_inv n r" and al: "rs_alloc ao so key r = (res, r')"
    and pin: "rs_read_pins r k \<noteq> None" "slot_of (rs_map r k) = Some s"
  shows "slot_of (rs_map r' k) = Some s \<and> (key \<noteq> k \<longrightarrow> rs_map r' k = rs_map r k)"
proof -
  let ?r = "r\<lparr> rs_stats := (rs_stats r)\<lparr> st_puts := st_puts (rs_stats r) + 1 \<rparr> \<rparr>"
  have inv': "rs_inv n ?r" and pin': "rs_read_pins ?r k \<noteq> None" using inv pin by simp_all
  consider (fresh) "rs_map r key = None" | (disk) d where "rs_map r key = Some (OnDisk d)"
    | (slot) t where "slot_of (rs_map r key) = Some t"
    by (cases "rs_map r key" rule: slot_of.cases) auto
  then show ?thesis
  proof cases
    case fresh
    then have "k \<noteq> key" using pin(2) by auto
    moreover obtain res1 r1 where ac: "rs_acquire_slot ao so ?r = (res1, r1)" by force
    moreover have "rs_map r1 k = rs_map r k" using rs_acquire_pinned [OF inv' _ ac pin'] by simp
    ultimately show ?thesis using al fresh pin(2) by (auto simp: rs_alloc_def split: sum.splits)
  next
    case disk
    then have key: "rs_map ?r key = Some (OnDisk d)" and ne: "k \<noteq> key" using pin(2) by auto
    obtain res1 r1 where ac: "rs_acquire_slot ao so (rs_disk_lru_remove key ?r) = (res1, r1)" by force
    have "rs_map r1 k = rs_map r k" using rs_acquire_disk_pinned [OF inv' key ac pin'] by simp
    then show ?thesis using al key ac ne pin(2) by (auto simp: rs_alloc_def Let_def split: sum.splits)
  next
    case slot
    then show ?thesis using al pin(2)
      by (cases "rs_map r key" rule: slot_of.cases)
        (auto simp: rs_alloc_def rs_lru_remove_def Let_def)
  qed
qed

lemma rs_locate_pinned:
  assumes inv: "rs_inv n r" and lo: "rs_locate ao so key r = (res, r')"
    and pin: "rs_read_pins r k \<noteq> None" "slot_of (rs_map r k) = Some s"
  shows "rs_map r' k = rs_map r k"
proof -
  let ?r = "r\<lparr> rs_stats := (rs_stats r)\<lparr> st_gets := st_gets (rs_stats r) + 1 \<rparr> \<rparr>"
  have inv': "rs_inv n ?r" and pin': "rs_read_pins ?r k \<noteq> None" using inv pin by simp_all
  show ?thesis
  proof (cases "\<exists>d. rs_map r key = Some (OnDisk d)")
    case True
    then obtain d where key: "rs_map ?r key = Some (OnDisk d)" by auto
    then have ne: "k \<noteq> key" using pin(2) by auto
    obtain res1 r1 where ac: "rs_acquire_slot ao so (rs_disk_lru_remove key ?r) = (res1, r1)" by force
    have "rs_map r1 k = rs_map r k" using rs_acquire_disk_pinned [OF inv' key ac pin'] by simp
    then show ?thesis using lo key ac ne
      by (auto simp: rs_locate_def Let_def split: sum.splits prod.splits option.splits)
  next
    case False
    then show ?thesis using lo
      by (auto simp: rs_locate_def rs_lru_touch_def rs_lru_remove_def Let_def
          split: option.splits loc.splits if_splits)
  qed
qed

lemma rs_put_pinned:
  assumes inv: "rs_inv n r" and put: "rs_put_blob ao so key bs r = (err, r')"
    and pin: "rs_read_pins r k \<noteq> None" "slot_of (rs_map r k) = Some s" and ne: "key \<noteq> k"
  shows "rs_map r' k = rs_map r k"
proof (cases "length bs \<noteq> rs_blob_bytes r")
  case True
  then show ?thesis using put by (simp add: rs_put_blob_def)
next
  case len: False
  obtain res r1 where al: "rs_alloc ao so key r = (res, r1)" by force
  note p = rs_alloc_pinned [OF inv al pin] and inv1 = rs_alloc_inv [OF inv al]
  show ?thesis
  proof (cases res)
    case (Inl e)
    then show ?thesis using put len al p ne by (simp add: rs_put_blob_def)
  next
    case (Inr t)
    obtain w a' where w: "write_slot ao (rs_arena r1) t bs = (w, a')" by force
    have "rs_map r1 key = Some (Reserved t)" using inv1 Inr by simp
    then show ?thesis using put len al Inr w p ne
      by (cases w) (auto simp: rs_put_blob_def rs_commit_def rs_remove_def rs_lru_remove_def Let_def)
  qed
qed

text \<open>C4: a key with a read-pin keeps its arena slot through every call except \<open>remove\<close> and a
  re-\<open>alloc\<close> of the key itself, whatever else is put, fetched or spilled: the offset a peer handed
  to an RDMA reader stays valid until the reader unpins it.\<close>

theorem residency_pinned_slot_stable:
  assumes "rs_inv n r" and "rs_read_pins r k \<noteq> None" and "rs_map r k = Some (Resident s)"
    and "oper \<notin> {OpAlloc k, OpRemove k} \<union> range (OpPut k)"
    and "rs_step ao so oper r = Some r'"
  shows "rs_map r' k = Some (Resident s)"
proof -
  have s: "slot_of (rs_map r k) = Some s" using assms(3) by simp
  show ?thesis
  proof (cases oper)
    case (OpAlloc j)
    then show ?thesis using assms rs_alloc_pinned [OF assms(1) prod.collapse [symmetric] assms(2) s]
      by auto
  next
    case (OpCommit j)
    then show ?thesis using assms by (auto simp: rs_commit_def split: option.splits loc.splits)
  next
    case (OpLocate j)
    then show ?thesis using assms rs_locate_pinned [OF assms(1) prod.collapse [symmetric] assms(2) s]
      by auto
  next
    case (OpRemove j)
    then show ?thesis using assms rs_remove_inv [OF assms(1), of so j] by auto
  next
    case (OpPin j)
    then show ?thesis using assms
      by (auto simp: rs_pin_read_def rs_lru_remove_def Let_def split: option.splits loc.splits)
  next
    case (OpUnpin j)
    then show ?thesis using assms
      by (auto simp: rs_unpin_read_def Let_def split: option.splits loc.splits if_splits)
  next
    case (OpPut j bs)
    then have "j \<noteq> k" using assms(4) by auto
    then show ?thesis using OpPut assms
        rs_put_pinned [OF assms(1) prod.collapse [symmetric] assms(2) s] by auto
  next
    case (OpGet j len)
    obtain res1 r1 where lo: "rs_locate ao so j r = (res1, r1)" by force
    have "rs_map r1 k = rs_map r k" by (rule rs_locate_pinned [OF assms(1) lo assms(2) s])
    then show ?thesis using OpGet assms lo
      by (auto simp: rs_get_blob_def split: if_splits sum.splits option.splits)
  qed
qed

end
