(* ===== verification/Tier_Mem.thy ===== *)
theory Tier_Mem
  imports Residency_Content Residency_Cap
begin

text \<open>
  The host-RAM tiers (crates/storage/src/tier/mem.rs): \<open>VecSlotArena\<close>, one byte buffer cut into
  slots, and \<open>MemSwapStore\<close>, a map of heap records. They satisfy the contract \<open>tier\<close>, so the page
  table over them is the map from keys to the bytes last put.

  The traits' \<open>out\<close> buffer is not a parameter of the model: \<open>Residency\<close> always passes one of
  \<open>blob_bytes\<close> bytes, which is the slot size, so the \<open>out.len() != slot_bytes\<close> half of
  \<open>read_slot\<close>'s guard never fires, and \<open>MemSwapStore::read_record\<close> copies equal lengths.
\<close>

record vec_slot_arena =
  va_buf :: "byte list"
  va_slot_bytes :: nat
  va_n :: nat

definition va_new :: "nat \<Rightarrow> nat \<Rightarrow> vec_slot_arena" where
  "va_new sb n = \<lparr> va_buf = replicate (sb * n) 0, va_slot_bytes = sb, va_n = n \<rparr>"

definition va_read_slot :: "vec_slot_arena \<Rightarrow> nat \<Rightarrow> string + byte list" where
  "va_read_slot a slot =
    (if va_n a \<le> slot then Inl ''VecSlotArena::read_slot out of range / size mismatch''
     else (let ofs = slot * va_slot_bytes a in Inr (take (va_slot_bytes a) (drop ofs (va_buf a)))))"

definition va_write_slot :: "vec_slot_arena \<Rightarrow> nat \<Rightarrow> byte list \<Rightarrow> string option \<times> vec_slot_arena" where
  "va_write_slot a slot bytes =
    (if va_n a \<le> slot \<or> length bytes \<noteq> va_slot_bytes a
     then (Some ''VecSlotArena::write_slot out of range / size mismatch'', a)
     else
       (let ofs = slot * va_slot_bytes a in
        (None, a\<lparr> va_buf := take ofs (va_buf a) @ bytes @ drop (ofs + va_slot_bytes a) (va_buf a) \<rparr>)))"

definition va_ops :: "vec_slot_arena arena_ops" where
  "va_ops = \<lparr> slot_bytes = va_slot_bytes, num_slots = va_n, read_slot = va_read_slot,
     write_slot = va_write_slot \<rparr>"

record mem_swap_store =
  ms_recs :: "nat \<rightharpoonup> byte list"
  ms_record_bytes :: nat

definition ms_new :: "nat \<Rightarrow> mem_swap_store" where
  "ms_new rb = \<lparr> ms_recs = Map.empty, ms_record_bytes = rb \<rparr>"

definition ms_write_record :: "mem_swap_store \<Rightarrow> nat \<Rightarrow> byte list \<Rightarrow> string option \<times> mem_swap_store" where
  "ms_write_record st disk_slot bytes =
    (if length bytes \<noteq> ms_record_bytes st then (Some ''MemSwapStore::write_record: wrong length'', st)
     else (None, st\<lparr> ms_recs := (ms_recs st)(disk_slot \<mapsto> bytes) \<rparr>))"

definition ms_read_record :: "mem_swap_store \<Rightarrow> nat \<Rightarrow> string + byte list" where
  "ms_read_record st disk_slot =
    (case ms_recs st disk_slot of Some v \<Rightarrow> Inr v | None \<Rightarrow> Inl ''MemSwapStore: no record'')"

definition ms_discard_record :: "mem_swap_store \<Rightarrow> nat \<Rightarrow> mem_swap_store" where
  "ms_discard_record st disk_slot = st\<lparr> ms_recs := (ms_recs st)(disk_slot := None) \<rparr>"

definition ms_ops :: "mem_swap_store store_ops" where
  "ms_ops = \<lparr> record_bytes = ms_record_bytes, read_record = ms_read_record,
     write_record = ms_write_record, discard_record = ms_discard_record \<rparr>"

subsection \<open>The slots of the buffer\<close>

definition va_slot :: "vec_slot_arena \<Rightarrow> nat \<Rightarrow> byte list" where
  "va_slot a s = take (va_slot_bytes a) (drop (s * va_slot_bytes a) (va_buf a))"

definition va_ok :: "nat \<Rightarrow> nat \<Rightarrow> vec_slot_arena \<Rightarrow> bool" where
  "va_ok N B a \<longleftrightarrow> va_n a = N \<and> va_slot_bytes a = B \<and> length (va_buf a) = B * N"

lemma take_drop_splice_same:
  "s + length b \<le> length xs \<Longrightarrow> take (length b) (drop s (take s xs @ b @ ys)) = b"
  by simp

lemma take_drop_splice_before:
  "t + n \<le> s \<Longrightarrow> s \<le> length xs \<Longrightarrow> take n (drop t (take s xs @ ys)) = take n (drop t xs)"
  by (simp add: take_drop min_def)

lemma take_drop_splice_after:
  assumes "s + length b \<le> t" and "s + length b \<le> length xs"
  shows "take n (drop t (take s xs @ b @ drop (s + length b) xs)) = take n (drop t xs)"
  using assms by (simp add: min_def)

lemma va_write_slot_spec:
  assumes ok: "va_ok N B a" and w: "va_write_slot a s b = (err, a')"
  shows "va_ok N B a' \<and> (\<forall>t. t \<noteq> s \<longrightarrow> va_slot a' t = va_slot a t) \<and> (err = None \<longrightarrow> va_slot a' s = b)"
proof (cases "va_n a \<le> s \<or> length b \<noteq> va_slot_bytes a")
  case True
  then show ?thesis using ok w by (auto simp: va_write_slot_def)
next
  case False
  with ok have s: "s < N" and b: "length b = B" by (auto simp: va_ok_def)
  have fit: "s * B + B \<le> B * N"
  proof -
    have "Suc s * B \<le> N * B" using s by (intro mult_le_mono1) simp
    then show ?thesis by (simp add: algebra_simps)
  qed
  have a': "a' = a\<lparr> va_buf := take (s * B) (va_buf a) @ b @ drop (s * B + length b) (va_buf a) \<rparr>"
    and err: "err = None"
    using w False ok b by (auto simp: va_write_slot_def va_ok_def Let_def)
  have len: "length (va_buf a) = B * N" and sb: "va_slot_bytes a = B" using ok by (auto simp: va_ok_def)
  have "va_ok N B a'" using ok fit b by (auto simp: va_ok_def a')
  moreover have "va_slot a' s = b"
    using take_drop_splice_same [of "s * B" b "va_buf a"] fit len b by (simp add: va_slot_def a' sb)
  moreover have "va_slot a' t = va_slot a t" if "t \<noteq> s" for t
  proof (cases "t < s")
    case True
    then have "Suc t * B \<le> s * B" by (intro mult_le_mono1) simp
    then show ?thesis
      using take_drop_splice_before [of "t * B" B "s * B" "va_buf a"] fit len s
      by (simp add: va_slot_def a' sb)
  next
    case False
    with that have "Suc s * B \<le> t * B" by (intro mult_le_mono1) simp
    then show ?thesis
      using take_drop_splice_after [of "s * B" b "t * B" "va_buf a" B] fit len b
      by (simp add: va_slot_def a' sb)
  qed
  ultimately show ?thesis using err by simp
qed

interpretation mem_tier: reliable_tier va_ops ms_ops "va_ok N B" "\<lambda>_. True" va_slot ms_recs N B
proof (unfold_locales, goal_cases)
  case (1 a s b)
  then show ?case by (auto simp: va_ops_def va_read_slot_def va_slot_def Let_def split: if_splits)
next
  case (2 a s b w a')
  then show ?case using va_write_slot_spec by (simp add: va_ops_def)
next
  case (3 st d b)
  then show ?case by (auto simp: ms_ops_def ms_read_record_def split: option.splits)
next
  case (4 st d b w st')
  then show ?case by (auto simp: ms_ops_def ms_write_record_def split: if_splits)
next
  case (5 st d)
  then show ?case by (simp add: ms_ops_def ms_discard_record_def)
next
  case (6 a s b)
  then show ?case by (simp add: va_ops_def va_write_slot_def va_ok_def Let_def)
qed

subsection \<open>Properties\<close>

lemma mem_residency_start:
  assumes "rs_new_capped va_ops ms_ops (va_new B N) (ms_new B) cap = Inr r"
  shows "mem_tier.agrees N B N (r, Map.empty) \<and> (cap = 0 \<longrightarrow> mem_tier.exact N B (r, Map.empty))"
proof -
  note new = rs_new_capped_inv [OF assms]
  have "va_ok N B (rs_arena r)" and "num_slots va_ops (va_new B N) = N"
    and "slot_bytes va_ops (va_new B N) = B"
    using new by (simp_all add: va_ok_def va_new_def va_ops_def)
  then show ?thesis using new
    by (auto simp: mem_tier.agrees_def mem_tier.exact_def mem_tier.tier_ok_def)
qed

text \<open>C3: over the host-RAM tiers the page table is the map from keys to the bytes last put: whatever
  puts, gets, removes and read-pins a client made before, a get of a key returns the bytes of the
  last successful put of it and nothing else, and without a disk cap it answers that the key is
  unknown only when it was never put or has been removed.\<close>

theorem residency_serves_last_put:
  assumes "rs_new_capped va_ops ms_ops (va_new B N) (ms_new B) cap = Inr r0"
    and "blob_run va_ops ms_ops ops (r0, Map.empty) = (r, m)"
    and "rs_get_blob va_ops ms_ops key len r = (res, r')"
  shows "(\<forall>bs. res = Inr (Some bs) \<longrightarrow> m key = Some bs) \<and> (cap = 0 \<and> res = Inr None \<longrightarrow> m key = None)"
proof -
  note start = mem_residency_start [OF assms(1)]
  have ag: "mem_tier.agrees N B N (r, m)"
    using mem_tier.blob_run_agrees [of N B N r0 Map.empty ops] start assms(2) by simp
  then have "rs_inv N r" "mem_tier.tier_ok N B r" by (auto simp: mem_tier.agrees_def)
  from mem_tier.blob_get [OF this assms(3)]
  have got: "\<And>bs. res = Inr (Some bs) \<Longrightarrow> rs_blob va_slot ms_recs r key = Some bs"
    and miss: "res = Inr None \<Longrightarrow> rs_map r key = None" by auto
  have "m key = Some bs" if "res = Inr (Some bs)" for bs
  proof -
    have "rs_map r key \<noteq> None" using got [OF that] by (cases "rs_map r key") (simp_all add: rs_blob_def)
    then show ?thesis using ag got [OF that] by (auto simp: mem_tier.agrees_def)
  qed
  moreover have "m key = None" if "cap = 0 \<and> res = Inr None"
    using mem_tier.blob_run_exact [of N B r0 Map.empty ops] start assms(2) miss that
    by (auto simp: mem_tier.exact_def split: if_splits)
  ultimately show ?thesis by blast
qed

definition two_puts :: "(vec_slot_arena, mem_swap_store) residency \<times> (u64w \<rightharpoonup> byte list)" where
  "two_puts = (case rs_new va_ops ms_ops (va_new 2 1) (ms_new 2) of
     Inr r \<Rightarrow> blob_run va_ops ms_ops [BPut 7 [1, 2], BPut 8 [3, 4]] (r, Map.empty)
   | Inl _ \<Rightarrow> undefined)"

theorem residency_serves_last_put_witness:
  "\<exists>r0 m. rs_new_capped va_ops ms_ops (va_new 2 1) (ms_new 2) 0 = Inr r0
     \<and> blob_run va_ops ms_ops [BPut 7 [1, 2], BPut 8 [3, 4]] (r0, Map.empty) = (fst two_puts, m)
     \<and> fst (rs_get_blob va_ops ms_ops 7 2 (fst two_puts)) = Inr (Some [1, 2])
     \<and> m 7 = Some [1, 2]"
proof -
  obtain r0 where r0: "rs_new_capped va_ops ms_ops (va_new 2 1) (ms_new 2) 0 = Inr r0"
    by (simp add: rs_new_capped_def va_ops_def ms_ops_def va_new_def ms_new_def)
  obtain r m where run: "blob_run va_ops ms_ops [BPut 7 [1, 2], BPut 8 [3, 4]] (r0, Map.empty) = (r, m)"
    by force
  have two: "two_puts = (r, m)" using r0 run by (simp add: two_puts_def rs_new_def)
  have got: "fst (rs_get_blob va_ops ms_ops 7 2 (fst two_puts)) = Inr (Some [1, 2])" by code_simp
  obtain r' where "rs_get_blob va_ops ms_ops 7 2 r = (Inr (Some [1, 2]), r')"
    using got two by (metis fst_conv prod.collapse)
  from residency_serves_last_put [OF r0 run this] have "m 7 = Some [1, 2]" by blast
  with r0 run two got show ?thesis by (metis fst_conv)
qed

definition pinned_page :: "(vec_slot_arena, mem_swap_store) residency" where
  "pinned_page = (case rs_new va_ops ms_ops (va_new 2 1) (ms_new 2) of
     Inr r \<Rightarrow> rs_pin_read 7 (snd (rs_put_blob va_ops ms_ops 7 [1, 2] r))
   | Inl _ \<Rightarrow> undefined)"

lemma pinned_page_inv: "rs_inv 1 pinned_page"
proof -
  obtain r where r: "rs_new_capped va_ops ms_ops (va_new 2 1) (ms_new 2) 0 = Inr r"
    by (simp add: rs_new_capped_def va_ops_def ms_ops_def va_new_def ms_new_def)
  have "num_slots va_ops (va_new 2 1) = 1" by (simp add: va_ops_def va_new_def)
  then have "rs_inv 1 r" using rs_new_capped_inv [OF r] by simp
  from rs_pin_inv [OF rs_put_blob_inv [OF this prod.collapse [symmetric]]] show ?thesis
    unfolding pinned_page_def rs_new_def r by simp
qed

theorem residency_pinned_slot_stable_witness:
  "rs_inv 1 pinned_page \<and> rs_map pinned_page 7 = Some (Resident 0)
   \<and> fst (rs_put_blob va_ops ms_ops 8 [3, 4] pinned_page) = Some ''Residency: arena exhausted''
   \<and> rs_map (snd (rs_put_blob va_ops ms_ops 8 [3, 4] pinned_page)) 7 = Some (Resident 0)"
proof -
  have m: "rs_map pinned_page 7 = Some (Resident 0)" by code_simp
  have p: "rs_read_pins pinned_page 7 \<noteq> None" by code_simp
  have e: "fst (rs_put_blob va_ops ms_ops 8 [3, 4] pinned_page) = Some ''Residency: arena exhausted''"
    by code_simp
  have "OpPut 8 [3, 4] \<notin> {OpAlloc 7, OpRemove 7} \<union> range (OpPut 7)" by auto
  from residency_pinned_slot_stable [OF pinned_page_inv p m this]
  have "rs_map (snd (rs_put_blob va_ops ms_ops 8 [3, 4] pinned_page)) 7 = Some (Resident 0)" by simp
  then show ?thesis using pinned_page_inv m e by blast
qed

text \<open>Over every arena and every store, failing ones included, any sequence of calls on a new
  page table keeps its invariant: each slot and each store record has exactly one owner (its free
  list or one key), the eviction queue holds exactly the resident keys without a read-pin, the disk
  queue exactly the on-disk keys, each once, and no read-pinned key is on disk.\<close>

theorem residency_run_inv:
  assumes "rs_new_capped ao so a st cap = Inr r0" and "for_each (rs_step ao so) ops r0 = Some r"
  shows "rs_inv (num_slots ao a) r"
  using rs_page.run_inv [OF conjunct1 [OF rs_new_capped_inv [OF assms(1)]] assms(2)] .

theorem residency_run_inv_witness:
  "\<exists>r0 r. rs_new_capped va_ops ms_ops (va_new 2 1) (ms_new 2) 0 = Inr r0
     \<and> for_each (rs_step va_ops ms_ops) [OpPut 7 [1, 2], OpAlloc 8, OpRemove 7] r0 = Some r
     \<and> rs_inv 1 r"
proof -
  obtain r0 where r0: "rs_new_capped va_ops ms_ops (va_new 2 1) (ms_new 2) 0 = Inr r0"
    by (simp add: rs_new_capped_def va_ops_def ms_ops_def va_new_def ms_new_def)
  obtain r where r: "for_each (rs_step va_ops ms_ops) [OpPut 7 [1, 2], OpAlloc 8, OpRemove 7] r0 = Some r"
    by simp
  have n: "num_slots va_ops (va_new 2 1) = 1" by (simp add: va_ops_def va_new_def)
  from residency_run_inv [OF r0 r] show ?thesis using r0 r n by auto
qed

text \<open>C5: with a disk cap of \<open>cap > 0\<close> records, after any sequence of calls at most \<open>cap + 1\<close> keys are
  on disk and the store never held more than \<open>cap + 1\<close> records.\<close>

theorem residency_disk_cap:
  assumes "rs_new_capped ao so a st cap = Inr r0" and "for_each (rs_step ao so) ops r0 = Some r"
    and "0 < cap"
  shows "rs_disk_count r \<le> cap + 1 \<and> rs_disk_high_water r \<le> cap + 1"
proof -
  note new = rs_new_capped_inv [OF assms(1)]
  have "rs_disk_lru r0 = [] \<and> rs_next_disk r0 = 0"
    using assms(1) by (auto simp: rs_new_capped_def Let_def split: if_splits)
  then have "rs_inv (num_slots ao a) r0 \<and> rs_within_cap r0 \<and> rs_max_disk_slots r0 = cap"
    using new by (simp add: rs_cap_defs)
  from rs_cap.run_inv [OF this assms(2)] show ?thesis
    using assms(3) by (auto simp: rs_cap_defs)
qed

text \<open>A store whose reads fail, as a swap file's do on an I/O error.\<close>

definition broken_ops :: "mem_swap_store store_ops" where
  "broken_ops = ms_ops\<lparr> read_record := \<lambda>_ _. Inl ''I/O error'' \<rparr>"

definition capped_page :: "(vec_slot_arena, mem_swap_store) residency" where
  "capped_page = (case rs_new_capped va_ops broken_ops (va_new 2 1) (ms_new 2) 1 of
     Inr r \<Rightarrow> r | Inl _ \<Rightarrow> undefined)"

definition over_cap_ops :: "rs_op list" where
  "over_cap_ops = [OpPut 7 [1, 2], OpPut 8 [3, 4], OpGet 7 2]"

theorem residency_disk_cap_witness:
  "rs_new_capped va_ops broken_ops (va_new 2 1) (ms_new 2) 1 = Inr capped_page
   \<and> (\<exists>r. for_each (rs_step va_ops broken_ops) over_cap_ops capped_page = Some r
        \<and> rs_disk_count r \<le> 2)"
proof -
  obtain r0 where r0: "rs_new_capped va_ops broken_ops (va_new 2 1) (ms_new 2) 1 = Inr r0"
    by (simp add: rs_new_capped_def va_ops_def broken_ops_def ms_ops_def va_new_def ms_new_def)
  then have c: "capped_page = r0" by (simp add: capped_page_def)
  obtain r where r: "for_each (rs_step va_ops broken_ops) over_cap_ops r0 = Some r"
    by (simp add: over_cap_ops_def)
  have "rs_disk_count r \<le> 1 + 1" using residency_disk_cap [OF r0 r] by simp
  then show ?thesis using r0 c r by auto
qed

text \<open>The bound \<open>cap\<close> itself does not hold: with one slot and a cap of one, a get of an on-disk
  key that spills the resident key and then fails to read its own record leaves two keys on
  disk.\<close>

theorem residency_disk_count_exceeds_cap:
  "rs_max_disk_slots capped_page = 1
   \<and> map_option rs_disk_count (for_each (rs_step va_ops broken_ops) over_cap_ops capped_page) = Some 2"
  by (intro conjI; code_simp)

end
