(* ===== verification/Paging_Props.thy ===== *)
theory Paging_Props
  imports Paging_Wire Tier_Mem
begin

text \<open>
  Properties of the paging protocol (\<open>Paging_Wire\<close>): which headers are accepted, how a transfer
  is striped, and that the calls of a client over the wire are the operations of the page table.
\<close>

subsection \<open>The header\<close>

lemma is_paging_rw_iff: "is_paging_rw kind \<longleftrightarrow> kind = PK_SSM \<or> kind = PK_KV"
proof (cases kind)
  case (PagingKind k)
  have "k \<le> 1 \<longleftrightarrow> k = 0 \<or> k = 1"
    by (metis word_le_less_eq word_less_1 order_refl word_zero_le)
  then show ?thesis by (simp add: PagingKind PK_SSM_def PK_KV_def)
qed

lemma le_bytes_iff: "length bs = 8 \<Longrightarrow> from_le_bytes bs = w \<longleftrightarrow> bs = to_le_bytes w"
  by (metis from_to_le_bytes to_from_le_bytes)

lemma read_u64_written: "sk_in s = to_le_bytes w @ rest \<Longrightarrow> read_exact 8 s = (Some (to_le_bytes w), s\<lparr> sk_in := rest \<rparr>)"
  by (simp add: read_exact_def)

lemma read_byte_written: "sk_in s = b # rest \<Longrightarrow> read_exact 1 s = (Some [b], s\<lparr> sk_in := rest \<rparr>)"
  by (simp add: read_exact_def)

lemma read_u64E:
  assumes "read_exact 8 s = (Some bs, s')"
  shows "bs = to_le_bytes (from_le_bytes bs)" and "sk_in s = to_le_bytes (from_le_bytes bs) @ sk_in s'"
    and "s' = s\<lparr> sk_in := sk_in s' \<rparr>"
proof -
  have len: "length bs = 8" and s': "s' = s\<lparr> sk_in := drop 8 (sk_in s) \<rparr>" and bs: "bs = take 8 (sk_in s)"
    using assms by (auto simp: read_exact_Some)
  show "bs = to_le_bytes (from_le_bytes bs)" by (simp add: to_from_le_bytes len)
  then show "sk_in s = to_le_bytes (from_le_bytes bs) @ sk_in s'" by (metis append_take_drop_id bs s' io_stream.select_convs(1) io_stream.surjective io_stream.update_convs(1))
  show "s' = s\<lparr> sk_in := sk_in s' \<rparr>" by (simp add: s')
qed

lemma read_byteE:
  assumes "read_exact 1 s = (Some bs, s')"
  shows "sk_in s = bs ! 0 # sk_in s'" and "s' = s\<lparr> sk_in := sk_in s' \<rparr>"
  using assms by (cases "sk_in s"; auto simp: read_exact_Some)+

text \<open>The peer accepts exactly what a client encodes: a header is parsed to a kind, an arena
  size and a blob size just when the bytes read are the encoding of those three and the kind is SSM
  or KV, and the stream is then left right after the 25 bytes of the header.\<close>

theorem paging_header_exact:
  "parse_paging_header first s = (Inr (kind, arena, blob), s') \<longleftrightarrow>
     (kind = PK_SSM \<or> kind = PK_KV)
     \<and> to_le_bytes first @ sk_in s = encode_paging_v2_header kind arena blob @ sk_in s'
     \<and> s' = s\<lparr> sk_in := sk_in s' \<rparr>" (is "?parse \<longleftrightarrow> ?enc")
proof
  assume ?parse
  then have first: "first = PAGING_MAGIC_V2" by (auto simp: parse_paging_header_def split: if_splits)
  from \<open>?parse\<close> obtain kb s1 b8 s2 c8 where r: "read_exact 1 s = (Some kb, s1)" "read_exact 8 s1 = (Some b8, s2)"
      "read_exact 8 s2 = (Some c8, s')"
    and v: "kind = PagingKind (kb ! 0)" "arena = from_le_bytes b8" "blob = from_le_bytes c8" "is_paging_rw kind"
    by (auto simp: parse_paging_header_def Let_def simp del: One_nat_def split: if_splits option.splits prod.splits)
  have "sk_in s = kb ! 0 # to_le_bytes arena @ to_le_bytes blob @ sk_in s'"
    using read_byteE(1) [OF r(1)] read_u64E(2) [OF r(2)] read_u64E(2) [OF r(3)] v by simp
  moreover have "s' = s\<lparr> sk_in := sk_in s' \<rparr>"
    using read_byteE(2) [OF r(1)] read_u64E(3) [OF r(2)] read_u64E(3) [OF r(3)]
    by (metis io_stream.update_convs(1) io_stream.surjective io_stream.select_convs)
  ultimately show ?enc using first v by (simp add: encode_paging_v2_header_def is_paging_rw_iff)
next
  assume enc: ?enc
  obtain k where k: "kind = PagingKind k" by (cases kind)
  have "length (to_le_bytes first) = length (to_le_bytes PAGING_MAGIC_V2)" by simp
  with enc have "to_le_bytes first = to_le_bytes PAGING_MAGIC_V2"
    and s: "sk_in s = k # to_le_bytes arena @ to_le_bytes blob @ sk_in s'"
    by (simp_all add: encode_paging_v2_header_def k)
  then have first: "first = PAGING_MAGIC_V2" by (metis from_to_le_bytes)
  have "is_paging_rw kind" using enc is_paging_rw_iff by blast
  moreover have "PAGING_MAGIC_V2 \<noteq> PAGING_MAGIC_V1_RETIRED"
    by (simp add: PAGING_MAGIC_V2_def PAGING_MAGIC_V1_RETIRED_def)
  moreover have "s\<lparr> sk_in := sk_in s' \<rparr> = s'" using enc by simp
  ultimately show ?parse using first k
    by (simp add: parse_paging_header_def read_byte_written [OF s] read_u64_written Let_def del: One_nat_def)
qed

subsection \<open>The stripe plan\<close>

definition chunk_count :: "nat \<Rightarrow> nat \<Rightarrow> nat" where
  "chunk_count blob cb = (blob + cb - 1) div cb"

definition chunk_at :: "nat \<Rightarrow> nat \<Rightarrow> nat \<Rightarrow> nat \<times> nat" where
  "chunk_at blob cb j = (j * cb, min cb (blob - j * cb))"

text \<open>How many chunks of the plan hold byte \<open>x\<close>.\<close>

definition times_covered :: "nat \<Rightarrow> rail list \<Rightarrow> nat" where
  "times_covered x rails = size (filter_mset (\<lambda>(off, len). off \<le> x \<and> x < off + len) (mset (concat rails)))"

lemma chunk_count_iff: "0 < cb \<Longrightarrow> j < chunk_count blob cb \<longleftrightarrow> j * cb < blob"
  using less_eq_div_iff_mult_less_eq [of cb "Suc j" "blob + cb - 1"]
  by (auto simp: chunk_count_def Suc_le_eq)

lemma mset_concat_push:
  "i < length rails \<Longrightarrow> mset (concat (rails[i := vec_push (rails ! i) c])) = add_mset c (mset (concat rails))"
proof (induction rails arbitrary: i)
  case (Cons x xs)
  then show ?case by (cases i) (simp_all add: vec_push_def)
qed simp

lemma stripe_loop_covers:
  assumes "length rails = n" and "0 < n"
  shows "times_covered x (stripe_loop blob cb n off j rails)
    = times_covered x rails + (if off \<le> x \<and> x < blob then 1 else 0)"
  using assms
proof (induction blob cb n off j rails rule: stripe_loop.induct)
  case (1 blob cb n off j rails)
  show ?case
  proof (cases "off < blob")
    case True
    define len where "len = min (max cb 1) (blob - off)"
    let ?rails = "rails[j mod n := vec_push (rails ! (j mod n)) (off, len)]"
    have "j mod n < length rails" using 1(2,3) by simp
    then have "times_covered x ?rails = times_covered x rails + (if off \<le> x \<and> x < off + len then 1 else 0)"
      by (simp add: times_covered_def mset_concat_push)
    moreover have "times_covered x (stripe_loop blob cb n (off + len) (j + 1) ?rails)
        = times_covered x ?rails + (if off + len \<le> x \<and> x < blob then 1 else 0)"
      using 1 True by (simp add: len_def Let_def)
    moreover have "off + len \<le> blob" using True by (simp add: len_def)
    moreover have "stripe_loop blob cb n off j rails = stripe_loop blob cb n (off + len) (j + 1) ?rails"
      using True by (simp add: stripe_loop.simps [of blob cb n off] len_def Let_def)
    ultimately show ?thesis by auto
  next
    case False
    then show ?thesis by (simp add: stripe_loop.simps [of blob cb n off])
  qed
qed

lemma stripe_loop_rail:
  assumes "length rails = n" and "i < n" and "off = min (j * max cb 1) blob"
  shows "length (stripe_loop blob cb n off j rails) = n
    \<and> stripe_loop blob cb n off j rails ! i
      = rails ! i @ map (chunk_at blob (max cb 1)) (filter (\<lambda>k. k mod n = i) [j..<chunk_count blob (max cb 1)])"
  using assms
proof (induction blob cb n off j rails rule: stripe_loop.induct)
  case (1 blob cb n off j rails)
  let ?N = "chunk_count blob (max cb 1)"
  show ?case
  proof (cases "off < blob")
    case True
    define len where "len = min (max cb 1) (blob - off)"
    let ?rails = "rails[j mod n := vec_push (rails ! (j mod n)) (off, len)]"
    from True 1(4) have off: "off = j * max cb 1" and j: "j < ?N" by (auto simp: chunk_count_iff)
    have c: "(off, len) = chunk_at blob (max cb 1) j" by (simp add: chunk_at_def off len_def)
    have "off + len = min (off + max cb 1) blob" using True by (auto simp: len_def)
    then have nxt: "off + len = min ((j + 1) * max cb 1) blob" by (simp add: off add.commute)
    have f: "filter (\<lambda>k. k mod n = i) [j..<?N] = (if j mod n = i then [j] else []) @ filter (\<lambda>k. k mod n = i) [j + 1..<?N]"
      by (subst upt_conv_Cons [OF j]) simp
    have "stripe_loop blob cb n off j rails = stripe_loop blob cb n (off + len) (j + 1) ?rails"
      using True by (simp add: stripe_loop.simps [of blob cb n off] len_def Let_def)
    moreover have "length (stripe_loop blob cb n (off + len) (j + 1) ?rails) = n
        \<and> stripe_loop blob cb n (off + len) (j + 1) ?rails ! i
          = ?rails ! i @ map (chunk_at blob (max cb 1)) (filter (\<lambda>k. k mod n = i) [j + 1..<?N])"
      using 1(1) [OF True refl] 1(2,3) nxt by (simp add: len_def)
    moreover have "?rails ! i @ map (chunk_at blob (max cb 1)) (filter (\<lambda>k. k mod n = i) [j + 1..<?N])
        = rails ! i @ map (chunk_at blob (max cb 1)) (filter (\<lambda>k. k mod n = i) [j..<?N])"
      unfolding f c using 1(2,3) by (simp add: vec_push_def nth_list_update)
    ultimately show ?thesis by simp
  next
    case False
    with 1(4) have "\<not> j < ?N" by (simp add: chunk_count_iff)
    with False 1(2) show ?thesis by (simp add: stripe_loop.simps [of blob cb n off])
  qed
qed

text \<open>C9: The stripe plan deals the chunks of a transfer round-robin: with zero counted as one, rail
  \<open>i\<close> of \<open>n\<close> gets, in order, the chunks whose number is \<open>i\<close> modulo \<open>n\<close>, chunk \<open>j\<close> starting at \<open>j\<close>
  chunk sizes and only the last one short; and each byte of the blob is in exactly one chunk of
  one rail, no chunk reaching past the blob.\<close>

theorem stripe_plan_deals:
  "stripe_plan blob chunk_bytes n_rails
     = map (\<lambda>i. map (chunk_at blob (max chunk_bytes 1))
                 (filter (\<lambda>j. j mod max n_rails 1 = i) [0..<chunk_count blob (max chunk_bytes 1)]))
         [0..<max n_rails 1]
   \<and> times_covered x (stripe_plan blob chunk_bytes n_rails) = (if x < blob then 1 else 0)"
proof -
  let ?n = "max n_rails 1" and ?cb = "max chunk_bytes 1"
  have rail: "length (stripe_plan blob chunk_bytes n_rails) = ?n
      \<and> stripe_plan blob chunk_bytes n_rails ! i
        = map (chunk_at blob ?cb) (filter (\<lambda>j. j mod ?n = i) [0..<chunk_count blob ?cb])" if "i < ?n" for i
    using stripe_loop_rail [of "replicate ?n []" ?n i 0 0 ?cb blob] that by (simp add: stripe_plan_def Let_def)
  then have len: "length (stripe_plan blob chunk_bytes n_rails) = ?n" by (meson less_max_iff_disj zero_less_one)
  have "times_covered x (replicate ?n []) = 0" by (simp add: times_covered_def concat_replicate_trivial)
  then have "times_covered x (stripe_plan blob chunk_bytes n_rails) = (if x < blob then 1 else 0)"
    by (simp add: stripe_plan_def Let_def stripe_loop_covers)
  moreover have "stripe_plan blob chunk_bytes n_rails
     = map (\<lambda>i. map (chunk_at blob ?cb) (filter (\<lambda>j. j mod ?n = i) [0..<chunk_count blob ?cb])) [0..<?n]"
    using len rail by (simp add: list_eq_iff_nth_eq)
  ultimately show ?thesis by simp
qed

subsection \<open>The calls of a client are the operations of the page table\<close>

datatype wire_call = CAlloc u64w | CCommit u64w | CGet u64w | CRemove u64w

datatype call_result =
    Offset "wire_error + u64w"
  | Finished "wire_error option"
  | Found "wire_error + u64w option"

fun client_call :: "wire_call \<Rightarrow> io_stream \<Rightarrow> call_result \<times> io_stream" where
  "client_call (CAlloc k) s = (case client_alloc k s of (res, s1) \<Rightarrow> (Offset res, s1))"
| "client_call (CCommit k) s = (case client_commit k s of (res, s1) \<Rightarrow> (Finished res, s1))"
| "client_call (CGet k) s = (case client_get k s of (res, s1) \<Rightarrow> (Found res, s1))"
| "client_call (CRemove k) s = (case client_remove k s of (res, s1) \<Rightarrow> (Finished res, s1))"

fun client_session :: "wire_call list \<Rightarrow> io_stream \<Rightarrow> call_result list \<times> io_stream" where
  "client_session [] s = ([], snd (client_bye s))"
| "client_session (call # calls) s =
    (case client_call call s of
       (res, s1) \<Rightarrow> (case client_session calls s1 of (ress, s2) \<Rightarrow> (res # ress, s2)))"

text \<open>The same calls made on the page table itself, each after the release of the pin of the one
  before.\<close>

definition page_call ::
  "'a arena_ops \<Rightarrow> 's store_ops \<Rightarrow> wire_call \<Rightarrow> u64w option \<Rightarrow> ('a, 's) residency
     \<Rightarrow> call_result \<times> u64w option \<times> ('a, 's) residency" where
  "page_call ao so call pinned r =
    (let r0 = unpin_held pinned r in
     case call of
       CAlloc k \<Rightarrow>
         (case rs_alloc ao so k r0 of
            (Inr slot, r1) \<Rightarrow> (Offset (Inr (of_nat (rs_slot_offset r1 slot))), None, r1)
          | (Inl e, r1) \<Rightarrow> (Offset (Inl (Refused OP_ALLOC k ST_ERR)), None, r1))
     | CCommit k \<Rightarrow>
         (case rs_commit k r0 of
            (None, r1) \<Rightarrow> (Finished None, None, r1)
          | (Some e, r1) \<Rightarrow> (Finished (Some (Refused OP_COMMIT k ST_ERR)), None, r1))
     | CGet k \<Rightarrow>
         (case rs_locate ao so k r0 of
            (Inr (Some slot), r1) \<Rightarrow>
              (Found (Inr (Some (of_nat (rs_slot_offset r1 slot)))), Some k, rs_pin_read k r1)
          | (Inr None, r1) \<Rightarrow> (Found (Inr None), None, r1)
          | (Inl e, r1) \<Rightarrow> (Found (Inl (Refused OP_GET k ST_ERR)), None, r1))
     | CRemove k \<Rightarrow> (Finished None, None, rs_remove so k r0))"

fun page_session ::
  "'a arena_ops \<Rightarrow> 's store_ops \<Rightarrow> wire_call list \<Rightarrow> u64w option \<Rightarrow> ('a, 's) residency
     \<Rightarrow> call_result list \<times> ('a, 's) residency" where
  "page_session ao so [] pinned r = ([], unpin_held pinned r)"
| "page_session ao so (call # calls) pinned r =
    (case page_call ao so call pinned r of
       (res, pinned', r') \<Rightarrow>
         (case page_session ao so calls pinned' r' of (ress, r'') \<Rightarrow> (res # ress, r'')))"

fun request_bytes :: "wire_call \<Rightarrow> byte list" where
  "request_bytes (CAlloc k) = OP_ALLOC # to_le_bytes k"
| "request_bytes (CCommit k) = OP_COMMIT # to_le_bytes k"
| "request_bytes (CGet k) = OP_GET # to_le_bytes k"
| "request_bytes (CRemove k) = OP_REMOVE # to_le_bytes k"

text \<open>The bytes of the reply to a call with a given result.\<close>

fun result_bytes :: "call_result \<Rightarrow> byte list" where
  "result_bytes (Offset (Inr off)) = ST_OK # to_le_bytes off"
| "result_bytes (Found (Inr (Some off))) = ST_OK # to_le_bytes off"
| "result_bytes (Finished None) = [ST_OK]"
| "result_bytes (Found (Inr None)) = [ST_MISS]"
| "result_bytes _ = [ST_ERR]"

abbreviation open_stream :: "byte list \<Rightarrow> byte list \<Rightarrow> io_stream" where
  "open_stream inp out \<equiv> \<lparr> sk_in = inp, sk_out = out, sk_room = None \<rparr>"

lemma write_all_open: "write_all bs (open_stream inp out) = (True, open_stream inp (out @ bs))"
  by (simp add: write_all_def)

lemma read_byte_open: "read_exact 1 (open_stream (b # inp) out) = (Some [b], open_stream inp out)"
  by (simp add: read_exact_def)

lemma read_u64_open: "read_exact 8 (open_stream (to_le_bytes w @ inp) out) = (Some (to_le_bytes w), open_stream inp out)"
  by (simp add: read_exact_def)

lemmas open_simps = write_all_open read_byte_open read_u64_open

lemma paging_turn_request:
  assumes "handle_paging_op ao so code key pinned r = (reply, pinned', r')" and "code \<noteq> OP_BYE"
  shows "paging_turn ao so \<lparr> cn_stream = open_stream (code # to_le_bytes key @ inp) out, cn_pinned = pinned \<rparr> r
    = (Again, \<lparr> cn_stream = open_stream inp (out @ (case reply of Located off \<Rightarrow> ST_OK # to_le_bytes off
        | ReplyOk \<Rightarrow> [ST_OK] | ReplyMiss \<Rightarrow> [ST_MISS] | ReplyErr \<Rightarrow> [ST_ERR] | ReplyBye \<Rightarrow> [])),
        cn_pinned = pinned' \<rparr>, r')"
  using assms by (cases reply) (simp_all add: paging_turn_def open_simps del: One_nat_def)

lemma paging_turn_call:
  assumes "page_call ao so call pinned r = (res, pinned', r')"
  shows "paging_turn ao so \<lparr> cn_stream = open_stream (request_bytes call @ inp) out, cn_pinned = pinned \<rparr> r
    = (Again, \<lparr> cn_stream = open_stream inp (out @ result_bytes res), cn_pinned = pinned' \<rparr>, r')"
proof (cases call)
  case (CAlloc k)
  then show ?thesis using assms
    by (auto simp: page_call_def Let_def handle_paging_op_def dispatch_def wire_codes
        split: prod.splits sum.splits intro!: paging_turn_request [THEN trans])
next
  case (CCommit k)
  then show ?thesis using assms
    by (auto simp: page_call_def Let_def handle_paging_op_def dispatch_def wire_codes
        split: prod.splits option.splits intro!: paging_turn_request [THEN trans])
next
  case (CGet k)
  then show ?thesis using assms
    by (auto simp: page_call_def Let_def handle_paging_op_def dispatch_def wire_codes
        split: prod.splits sum.splits option.splits intro!: paging_turn_request [THEN trans])
next
  case (CRemove k)
  then show ?thesis using assms
    by (auto simp: page_call_def Let_def handle_paging_op_def dispatch_def wire_codes
        intro!: paging_turn_request [THEN trans])
qed

lemma client_call_reply:
  assumes "page_call ao so call pinned r = (res, pinned', r')"
  shows "client_call call (open_stream (result_bytes res @ inp) out)
    = (res, open_stream inp (out @ request_bytes call))"
proof (cases call)
  case (CAlloc k)
  then show ?thesis using assms
    by (auto simp: page_call_def Let_def client_alloc_def send_req_def read_status_def read_offset_def
        open_simps wire_codes simp del: One_nat_def split: prod.splits sum.splits)
next
  case (CCommit k)
  then show ?thesis using assms
    by (auto simp: page_call_def Let_def client_commit_def send_req_def read_status_def
        open_simps wire_codes simp del: One_nat_def split: prod.splits option.splits)
next
  case (CGet k)
  then show ?thesis using assms
    by (auto simp: page_call_def Let_def client_get_def send_req_def read_status_def read_offset_def
        open_simps wire_codes simp del: One_nat_def split: prod.splits sum.splits option.splits)
next
  case (CRemove k)
  then show ?thesis using assms
    by (auto simp: page_call_def Let_def client_remove_def send_req_def read_status_def
        open_simps wire_codes simp del: One_nat_def)
qed

text \<open>What a client writes does not depend on what it reads.\<close>

lemma read_exact_frame: "read_exact n s = (b, s') \<Longrightarrow> sk_out s' = sk_out s \<and> sk_room s' = sk_room s"
  by (auto simp: read_exact_def split: if_splits)

lemma read_reply_frame:
  "read_status s = (st, s') \<Longrightarrow> sk_out s' = sk_out s \<and> sk_room s' = sk_room s"
  "read_offset s = (off, s') \<Longrightarrow> sk_out s' = sk_out s \<and> sk_room s' = sk_room s"
  by (auto simp: read_status_def read_offset_def simp del: One_nat_def dest!: read_exact_frame split: prod.splits option.splits)

lemma client_call_writes:
  assumes "sk_room s = None" and "client_call call s = (res, s')"
  shows "sk_out s' = sk_out s @ request_bytes call \<and> sk_room s' = None"
  using assms
  by (cases call)
    (auto simp: client_alloc_def client_commit_def client_get_def client_remove_def send_req_def
      write_all_def dest!: read_reply_frame split: prod.splits sum.splits if_splits)

abbreviation session_bytes :: "wire_call list \<Rightarrow> byte list" where
  "session_bytes calls \<equiv> concat (map request_bytes calls) @ OP_BYE # to_le_bytes 0"

lemma client_session_writes:
  "sk_room s = None \<Longrightarrow> client_session calls s = (ress, s') \<Longrightarrow> sk_out s' = sk_out s @ session_bytes calls"
proof (induction calls arbitrary: s ress)
  case Nil
  then show ?case by (auto simp: client_bye_def send_req_def write_all_def)
next
  case (Cons call calls)
  obtain res s1 where c: "client_call call s = (res, s1)" by force
  with Cons.prems(2) obtain ress1 where "client_session calls s1 = (ress1, s')" by (auto split: prod.splits)
  with Cons.IH client_call_writes [OF Cons.prems(1) c] show ?case by fastforce
qed

lemma serve_session:
  assumes "page_session ao so calls pinned r = (ress, r')"
  shows "run_paging_loop ao so \<lparr> cn_stream = open_stream (session_bytes calls) out, cn_pinned = pinned \<rparr> r
    = (None, \<lparr> cn_stream = open_stream (to_le_bytes 0) (out @ concat (map result_bytes ress)), cn_pinned = None \<rparr>, r')"
  using assms
proof (induction calls arbitrary: pinned r ress out)
  case Nil
  have "paging_turn ao so \<lparr> cn_stream = open_stream (session_bytes []) out, cn_pinned = pinned \<rparr> r
      = (Leave, \<lparr> cn_stream = open_stream (to_le_bytes 0) out, cn_pinned = None \<rparr>, unpin_held pinned r)"
    by (simp add: paging_turn_def open_simps del: One_nat_def)
  then show ?case using Nil by (subst run_paging_loop.simps) simp
next
  case (Cons call calls)
  obtain res pinned1 r1 where pc: "page_call ao so call pinned r = (res, pinned1, r1)" by (metis prod_cases3)
  with Cons.prems obtain ress1 where ps: "page_session ao so calls pinned1 r1 = (ress1, r')"
    and ress: "ress = res # ress1" by (auto split: prod.splits)
  from Cons.IH [OF ps, of "out @ result_bytes res"] show ?case
    using paging_turn_call [OF pc, of "session_bytes calls" out]
    by (subst run_paging_loop.simps) (simp add: ress)
qed

lemma client_session_replies:
  assumes "page_session ao so calls pinned r = (ress, r')"
  shows "client_session calls (open_stream (concat (map result_bytes ress)) out)
    = (ress, open_stream [] (out @ session_bytes calls))"
  using assms
proof (induction calls arbitrary: pinned r ress out)
  case Nil
  then show ?case by (simp add: client_bye_def send_req_def open_simps)
next
  case (Cons call calls)
  obtain res pinned1 r1 where pc: "page_call ao so call pinned r = (res, pinned1, r1)" by (metis prod_cases3)
  with Cons.prems obtain ress1 where ps: "page_session ao so calls pinned1 r1 = (ress1, r')"
    and ress: "ress = res # ress1" by (auto split: prod.splits)
  from Cons.IH [OF ps] show ?case
    using client_call_reply [OF pc, of "concat (map result_bytes ress1)" out] by (simp add: ress)
qed

text \<open>C8: Calls over the wire are calls on the page table. When the peer serves exactly the bytes a
  client writes, and the client reads exactly the bytes the peer answers, the client's results are
  those of the page table operations made directly in the same order, errors of the page table
  included, the page table ends in the same state, no reply byte is left over, and the peer's loop
  returns without an error and holds no pin.\<close>

theorem paging_calls_transparent:
  assumes "run_paging_loop ao so \<lparr> cn_stream = open_stream sent [], cn_pinned = None \<rparr> r = (err, c', r')"
    and "client_session calls (open_stream (sk_out (cn_stream c')) []) = (ress, s')"
    and "sk_out s' = sent"
  shows "(ress, r') = page_session ao so calls None r \<and> sk_in s' = [] \<and> err = None \<and> cn_pinned c' = None"
proof -
  obtain ress1 r1 where ps: "page_session ao so calls None r = (ress1, r1)" by force
  have "sent = session_bytes calls" using client_session_writes [OF _ assms(2)] assms(3) by simp
  with assms(1) serve_session [OF ps, of "[]"]
  have s: "err = None" "r' = r1" "cn_pinned c' = None" "sk_out (cn_stream c') = concat (map result_bytes ress1)" by auto
  then have "ress = ress1" "sk_in s' = []" using assms(2) client_session_replies [OF ps, of "[]"] by auto
  with s ps show ?thesis by simp
qed

definition small_page :: "(vec_slot_arena, mem_swap_store) residency" where
  "small_page = (case rs_new va_ops ms_ops (va_new 2 2) (ms_new 2) of Inr r \<Rightarrow> r | Inl _ \<Rightarrow> undefined)"

definition demo_calls :: "wire_call list" where
  "demo_calls = [CAlloc 7, CCommit 7, CGet 7, CGet 9, CCommit 9]"

definition demo_served :: "wire_error option \<times> conn \<times> (vec_slot_arena, mem_swap_store) residency" where
  "demo_served = run_paging_loop va_ops ms_ops
     \<lparr> cn_stream = open_stream (session_bytes demo_calls) [], cn_pinned = None \<rparr> small_page"

definition demo_client :: "call_result list \<times> io_stream" where
  "demo_client = client_session demo_calls (open_stream (sk_out (cn_stream (fst (snd demo_served)))) [])"

lemma paging_calls_transparent_witness:
  "fst demo_client = [Offset (Inr 0), Finished None, Found (Inr (Some 0)), Found (Inr None),
      Finished (Some (Refused OP_COMMIT 9 ST_ERR))]
   \<and> (fst demo_client, snd (snd demo_served)) = page_session va_ops ms_ops demo_calls None small_page"
proof -
  obtain err c' r' where sv: "demo_served = (err, c', r')" by (metis prod_cases3)
  obtain ress s' where cl: "demo_client = (ress, s')" by force
  have sent: "sk_out (snd demo_client) = session_bytes demo_calls" by code_simp
  have got: "fst demo_client = [Offset (Inr 0), Finished None, Found (Inr (Some 0)), Found (Inr None),
      Finished (Some (Refused OP_COMMIT 9 ST_ERR))]" by code_simp
  have "sk_out s' = session_bytes demo_calls" using sent unfolding cl snd_conv .
  from paging_calls_transparent [OF sv [unfolded demo_served_def]
      cl [unfolded demo_client_def sv, simplified] this]
  have "(fst demo_client, snd (snd demo_served)) = page_session va_ops ms_ops demo_calls None small_page"
    unfolding sv cl fst_conv snd_conv by blast
  with got show ?thesis by (rule conjI)
qed

end
