(* ===== verification/Paging_Peer.thy ===== *)
theory Paging_Peer
  imports Paging_Props
begin

text \<open>
  The cache peer as its connections see it (\<open>run_paging_loop_shared\<close> of
  crates/storage/src/snapshot_swap/wire.rs): one page table under a lock, any number of
  connections that each take turns of the loop, and RDMA writes that change the arena at any
  time. A turn locks once, so a run is a sequence of turns. The properties are about the read
  pins: what they protect, and what a pin that was never taken does.
\<close>

subsection \<open>The peer\<close>

text \<open>A connection is live until its loop has ended; an ended one keeps the pin it left behind.\<close>

type_synonym ('a, 's) peer = "(bool \<times> conn) list \<times> ('a, 's) residency"

datatype 'a peer_event = Accept io_stream | Turn nat | Rdma 'a

fun peer_step ::
  "'a arena_ops \<Rightarrow> 's store_ops \<Rightarrow> 'a peer_event \<Rightarrow> ('a, 's) peer \<Rightarrow> ('a, 's) peer option" where
  "peer_step ao so (Accept s) (cs, r) = Some (cs @ [(True, \<lparr> cn_stream = s, cn_pinned = None \<rparr>)], r)"
| "peer_step ao so (Turn i) (cs, r) =
    (if i < length cs \<and> fst (cs ! i) then
       (case paging_turn ao so (snd (cs ! i)) r of (t, c', r') \<Rightarrow> Some (cs[i := (t = Again, c')], r'))
     else None)"
| "peer_step ao so (Rdma a) (cs, r) = Some (cs, r\<lparr> rs_arena := a \<rparr>)"

text \<open>The runs all of whose steps satisfy \<open>ok\<close>.\<close>

inductive peer_run ::
  "'a arena_ops \<Rightarrow> 's store_ops \<Rightarrow> ('a peer_event \<Rightarrow> ('a, 's) peer \<Rightarrow> bool) \<Rightarrow> ('a, 's) peer \<Rightarrow> ('a, 's) peer \<Rightarrow> bool"
  for ao so ok p where
  start: "peer_run ao so ok p p"
| step: "peer_run ao so ok p q \<Longrightarrow> ok ev q \<Longrightarrow> peer_step ao so ev q = Some q' \<Longrightarrow> peer_run ao so ok p q'"

definition holders :: "u64w \<Rightarrow> (bool \<times> conn) list \<Rightarrow> nat" where
  "holders k cs = length (filter (\<lambda>lc. cn_pinned (snd lc) = Some k) cs)"

text \<open>The request a connection sends next.\<close>

definition next_request :: "conn \<Rightarrow> (byte \<times> u64w) option" where
  "next_request c =
    (case read_exact 1 (cn_stream c) of
       (None, s1) \<Rightarrow> None
     | (Some ob, s1) \<Rightarrow>
         if ob ! 0 = OP_BYE then None
         else (case read_exact 8 s1 of (None, s2) \<Rightarrow> None | (Some kb, s2) \<Rightarrow> Some (ob ! 0, from_le_bytes kb)))"

subsection \<open>What a turn does to the pins\<close>

abbreviation pins_on :: "u64w \<Rightarrow> ('a, 's) residency \<Rightarrow> nat" where
  "pins_on k r \<equiv> rs_read_pin_count k r"

lemma pins_on_eq: "rs_read_pins r' = rs_read_pins r \<Longrightarrow> pins_on k r' = pins_on k r"
  by (simp add: rs_read_pin_count_def)

lemma pins_on_pin:
  "pins_on k (rs_pin_read key r) = pins_on k r + (if key = k \<and> is_resident (rs_map r key) then 1 else 0)
   \<and> rs_map (rs_pin_read key r) = rs_map r"
  by (auto simp: rs_pin_read_def rs_read_pin_count_def rs_lru_remove_def Let_def split: option.splits loc.splits)

lemma pins_on_unpin:
  assumes "rs_inv n r"
  shows "pins_on k (rs_unpin_read key r) = pins_on k r - (if key = k then 1 else 0)
    \<and> rs_map (rs_unpin_read key r) = rs_map r"
  using rs_okD(7) [OF assms]
  by (auto simp: rs_unpin_read_def rs_read_pin_count_def Let_def split: option.splits loc.splits)

lemma unpin_held_spec:
  assumes "rs_inv n r"
  shows "rs_inv n (unpin_held pinned r)
    \<and> pins_on k (unpin_held pinned r) = pins_on k r - (if pinned = Some k then 1 else 0)
    \<and> rs_map (unpin_held pinned r) = rs_map r"
proof (cases pinned)
  case (Some prev)
  then show ?thesis using pins_on_unpin [OF assms] rs_unpin_inv [OF assms] by (simp add: unpin_held_def)
qed (simp add: unpin_held_def assms)

lemma rs_locate_found:
  assumes "rs_locate ao so key r = (Inr (Some slot), r')" and "\<nexists>s. rs_map r key = Some (Reserved s)"
  shows "is_resident (rs_map r' key)"
  using assms
  by (auto simp: rs_locate_def rs_lru_touch_def rs_lru_remove_def Let_def
      split: option.splits loc.splits sum.splits prod.splits if_splits)

text \<open>A request leaves every pin alone, and the slot of a pinned resident key too unless it asks to
  replace or drop that key.\<close>

lemma dispatch_spec:
  assumes "rs_inv n r" and "dispatch ao so code key r = (reply, r')"
  shows "rs_inv n r' \<and> rs_read_pins r' = rs_read_pins r
    \<and> (code = OP_GET \<and> is_located reply \<and> (\<nexists>s. rs_map r key = Some (Reserved s)) \<longrightarrow> is_resident (rs_map r' key))
    \<and> (rs_read_pins r k \<noteq> None \<and> rs_map r k = Some (Resident s) \<and> (key = k \<longrightarrow> code \<notin> {OP_ALLOC, OP_REMOVE})
        \<longrightarrow> rs_map r' k = Some (Resident s))"
proof -
  consider (alloc) "code = OP_ALLOC" | (commit) "code = OP_COMMIT" | (get) "code = OP_GET"
    | (remove) "code = OP_REMOVE" | (other) "code \<notin> {OP_ALLOC, OP_COMMIT, OP_GET, OP_REMOVE}" by blast
  then show ?thesis
  proof cases
    case alloc
    obtain res r1 where al: "rs_alloc ao so key r = (res, r1)" by force
    have "r' = r1" using assms(2) al alloc by (auto simp: dispatch_def wire_codes split: sum.splits)
    then show ?thesis using rs_alloc_inv [OF assms(1) al] rs_alloc_pinned [OF assms(1) al, of k s] alloc
      by (auto simp: wire_codes)
  next
    case commit
    obtain res r1 where co: "rs_commit key r = (res, r1)" by force
    have "r' = r1" using assms(2) co commit by (auto simp: dispatch_def wire_codes split: option.splits)
    moreover have "rs_read_pins r1 = rs_read_pins r \<and> (rs_map r k = Some (Resident s) \<longrightarrow> rs_map r1 k = Some (Resident s))"
      using co by (auto simp: rs_commit_def split: option.splits loc.splits)
    ultimately show ?thesis using rs_commit_inv [OF assms(1) co] commit by (simp add: wire_codes)
  next
    case get
    obtain res r1 where lo: "rs_locate ao so key r = (res, r1)" by force
    have "r' = r1" and "is_located reply \<longrightarrow> (\<exists>slot. res = Inr (Some slot))"
      using assms(2) lo get by (auto simp: dispatch_def wire_codes split: sum.splits option.splits)
    moreover have "is_resident (rs_map r1 key)" if "res = Inr (Some slot)" "\<nexists>s. rs_map r key = Some (Reserved s)" for slot
      using rs_locate_found lo that by blast
    ultimately show ?thesis using rs_locate_inv [OF assms(1) lo] rs_locate_pinned [OF assms(1) lo, of k s] by auto
  next
    case remove
    then have "r' = rs_remove so key r" using assms(2) by (auto simp: dispatch_def wire_codes)
    moreover have "rs_read_pins (rs_remove so key r) = rs_read_pins r"
      by (auto simp: rs_remove_def rs_lru_remove_def rs_disk_lru_remove_def Let_def split: option.splits loc.splits)
    ultimately show ?thesis using rs_remove_inv [OF assms(1), of so key] remove by (auto simp: wire_codes)
  next
    case other
    then have "r' = r" using assms(2) by (simp add: dispatch_def split: if_splits)
    then show ?thesis using assms(1) other by simp
  qed
qed

text \<open>A handled request takes the connection's pin off its key, and puts one on a key it located
  when that key is resident.\<close>

lemma handle_spec:
  assumes "rs_inv n r" and "handle_paging_op ao so code key pinned r = (reply, pinned', r')"
  shows "rs_inv n r'"
    and "pins_on k r' = pins_on k r - (if pinned = Some k then 1 else 0)
        + (if pinned' = Some k \<and> is_resident (rs_map r' k) then 1 else 0)"
    and "pinned' = None \<or> pinned' = Some key \<and> code = OP_GET \<and> ((\<nexists>s. rs_map r key = Some (Reserved s)) \<longrightarrow> is_resident (rs_map r' key))"
    and "rs_map r k = Some (Resident s) \<Longrightarrow> (if pinned = Some k then 1 else 0) < pins_on k r
        \<Longrightarrow> (key = k \<longrightarrow> code \<notin> {OP_ALLOC, OP_REMOVE}) \<Longrightarrow> rs_map r' k = Some (Resident s)"
proof -
  let ?r0 = "unpin_held pinned r"
  obtain rep r1 where d: "dispatch ao so code key ?r0 = (rep, r1)" by force
  have h: "if code = OP_GET \<and> is_located rep then (reply, pinned', r') = (rep, Some key, rs_pin_read key r1)
      else (reply, pinned', r') = (rep, None, r1)"
    using assms(2) by (auto simp: handle_paging_op_def d split: if_splits)
  note u = unpin_held_spec [OF assms(1), of pinned]
  note ds = dispatch_spec [OF conjunct1 [OF u] d]
  have p1: "pins_on k r1 = pins_on k r - (if pinned = Some k then 1 else 0)"
    using ds u [of k] pins_on_eq by metis
  have m: "rs_map r' = rs_map r1" using h pins_on_pin by (auto split: if_splits)
  have "rs_inv n r1" using ds by blast
  then show "rs_inv n r'" using h rs_pin_inv [of n r1 key] by (auto split: if_splits)
  show "pins_on k r' = pins_on k r - (if pinned = Some k then 1 else 0)
        + (if pinned' = Some k \<and> is_resident (rs_map r' k) then 1 else 0)"
    using h m p1 pins_on_pin [of k key r1] by (auto split: if_splits)
  show "pinned' = None \<or> pinned' = Some key \<and> code = OP_GET \<and> ((\<nexists>s. rs_map r key = Some (Reserved s)) \<longrightarrow> is_resident (rs_map r' key))"
    using h ds u m by (auto split: if_splits)
  show "rs_map r' k = Some (Resident s)" if "rs_map r k = Some (Resident s)"
    "(if pinned = Some k then 1 else 0) < pins_on k r" "key = k \<longrightarrow> code \<notin> {OP_ALLOC, OP_REMOVE}"
  proof -
    have "0 < pins_on k ?r0" using u [of k] that(2) by (auto split: if_splits)
    then have "rs_read_pins ?r0 k \<noteq> None" by (auto simp: rs_read_pin_count_def split: option.splits)
    then show ?thesis using ds [where k = k and s = s] u that(1,3) m by auto
  qed
qed

lemma paging_turn_None:
  assumes "next_request c = None" and "paging_turn ao so c r = (t, c', r')"
  shows "t \<noteq> Again \<and> (cn_pinned c' = None \<and> r' = unpin_held (cn_pinned c) r \<or> cn_pinned c' = cn_pinned c \<and> r' = r)"
  using assms
  by (auto simp: next_request_def paging_turn_def simp del: One_nat_def split: option.splits prod.splits if_splits)

lemma paging_turn_Some:
  assumes "next_request c = Some (code, key)" and "paging_turn ao so c r = (t, c', r')"
  shows "\<exists>reply. handle_paging_op ao so code key (cn_pinned c) r = (reply, cn_pinned c', r')"
  using assms
  by (auto simp: next_request_def paging_turn_def simp del: One_nat_def split: option.splits prod.splits if_splits bool.splits)

lemma length_filter_update:
  "i < length xs \<Longrightarrow> length (filter P (xs[i := x])) + (if P (xs ! i) then 1 else 0)
     = length (filter P xs) + (if P x then 1 else 0)"
proof (induction xs arbitrary: i)
  case (Cons y ys)
  then show ?case by (cases i) auto
qed simp

lemma holders_update:
  assumes "i < length cs" and "snd (cs ! i) = c"
  shows "holders k (cs[i := (b, c')]) + (if cn_pinned c = Some k then 1 else 0)
    = holders k cs + (if cn_pinned c' = Some k then 1 else 0)"
  using length_filter_update [OF assms(1), of "\<lambda>lc. cn_pinned (snd lc) = Some k" "(b, c')"] assms(2)
  by (simp add: holders_def)

lemma holders_pos: "i < length cs \<Longrightarrow> cn_pinned (snd (cs ! i)) = Some k \<Longrightarrow> 0 < holders k cs"
  by (auto simp: holders_def filter_empty_conv intro!: bexI [of _ "cs ! i"])

lemma holders_two:
  assumes "i < length cs" "j < length cs" "i \<noteq> j"
    and "cn_pinned (snd (cs ! i)) = Some k" "cn_pinned (snd (cs ! j)) = Some k"
  shows "1 < holders k cs"
proof -
  have "0 < holders k (cs[j := (True, \<lparr> cn_stream = undefined, cn_pinned = None \<rparr>)])"
    by (rule holders_pos [of i]) (use assms in simp_all)
  then show ?thesis
    using holders_update [OF assms(2) refl, of k True "\<lparr> cn_stream = undefined, cn_pinned = None \<rparr>"] assms(5) by simp
qed

subsection \<open>Pins and the connections that hold them\<close>

text \<open>No turn is a get of a key that is reserved, that is, between the alloc and the commit of a
  put.\<close>

fun gets_committed :: "'a peer_event \<Rightarrow> ('a, 's) peer \<Rightarrow> bool" where
  "gets_committed (Turn i) (cs, r) \<longleftrightarrow>
     (case next_request (snd (cs ! i)) of
        Some (code, key) \<Rightarrow> code = OP_GET \<longrightarrow> (case rs_map r key of Some (Reserved s) \<Rightarrow> False | _ \<Rightarrow> True)
      | None \<Rightarrow> True)"
| "gets_committed _ _ \<longleftrightarrow> True"

text \<open>No turn is connection \<open>i\<close>'s, and none replaces or drops \<open>k\<close>.\<close>

fun leaves_alone :: "nat \<Rightarrow> u64w \<Rightarrow> 'a peer_event \<Rightarrow> ('a, 's) peer \<Rightarrow> bool" where
  "leaves_alone i k (Turn j) (cs, r) \<longleftrightarrow>
     j \<noteq> i
     \<and> (case next_request (snd (cs ! j)) of
          Some (code, key) \<Rightarrow> key = k \<longrightarrow> code \<noteq> OP_ALLOC \<and> code \<noteq> OP_REMOVE
        | None \<Rightarrow> True)"
| "leaves_alone i k _ _ \<longleftrightarrow> True"

lemma turn_pins:
  assumes inv: "rs_inv n r" and t: "paging_turn ao so c r = (t, c', r')" and le: "pins_on k r \<le> h" "cn_pinned c = Some k \<Longrightarrow> 0 < h"
    and h': "h' + (if cn_pinned c = Some k then 1 else 0) = h + (if cn_pinned c' = Some k then 1 else 0)"
  shows "rs_inv n r'" and "pins_on k r' \<le> h'"
    and "pins_on k r = h \<Longrightarrow> (case next_request c of Some (code, key) \<Rightarrow> code = OP_GET \<longrightarrow> (\<nexists>s. rs_map r key = Some (Reserved s)) | None \<Rightarrow> True)
      \<Longrightarrow> pins_on k r' = h'"
proof -
  have *: "rs_inv n r' \<and> pins_on k r' \<le> h' \<and> (pins_on k r = h \<and> (case next_request c of Some (code, key) \<Rightarrow> code = OP_GET \<longrightarrow> (\<nexists>s. rs_map r key = Some (Reserved s)) | None \<Rightarrow> True)
      \<longrightarrow> pins_on k r' = h')"
  proof (cases "next_request c")
    case None
    from paging_turn_None [OF this t] show ?thesis
      using inv unpin_held_spec [OF inv, of "cn_pinned c" k] le h' by (auto split: if_splits)
  next
    case (Some q)
    obtain code key where q: "q = (code, key)" by force
    obtain reply where "handle_paging_op ao so code key (cn_pinned c) r = (reply, cn_pinned c', r')"
      using paging_turn_Some [OF Some [unfolded q] t] by blast
    note hs = handle_spec [OF inv this]
    have "rs_inv n r'" by (rule hs(1))
    moreover have "pins_on k r' \<le> h'" using hs(2) [of k] le h' by (auto split: if_splits)
    moreover have "pins_on k r' = h'" if "pins_on k r = h"
      and g: "case next_request c of Some (code, key) \<Rightarrow> code = OP_GET \<longrightarrow> (\<nexists>s. rs_map r key = Some (Reserved s)) | None \<Rightarrow> True"
    proof -
      have "cn_pinned c' = Some k \<longrightarrow> is_resident (rs_map r' k)" using hs(3) g Some q by auto
      then show ?thesis using hs(2) [of k] that(1) le h' by (auto split: if_splits)
    qed
    ultimately show ?thesis by blast
  qed
  show "rs_inv n r'" and "pins_on k r' \<le> h'" using * by blast+
  show "pins_on k r' = h'" if "pins_on k r = h" "case next_request c of Some (code, key) \<Rightarrow> code = OP_GET \<longrightarrow> (\<nexists>s. rs_map r key = Some (Reserved s)) | None \<Rightarrow> True"
    using * that by blast
qed

lemma peer_step_pins:
  assumes inv: "rs_inv n r" and le: "pins_on k r \<le> holders k cs"
    and st: "peer_step ao so ev (cs, r) = Some (cs', r')"
  shows "rs_inv n r' \<and> pins_on k r' \<le> holders k cs'
    \<and> (pins_on k r = holders k cs \<and> gets_committed ev (cs, r) \<longrightarrow> pins_on k r' = holders k cs')"
proof (cases ev)
  case (Accept s)
  then show ?thesis using assms by (auto simp: holders_def)
next
  case (Rdma a)
  have "pins_on k (r\<lparr> rs_arena := a \<rparr>) = pins_on k r" by (simp add: rs_read_pin_count_def)
  then show ?thesis using assms Rdma by auto
next
  case (Turn i)
  with st obtain c t c' where i: "i < length cs" and c: "snd (cs ! i) = c" and t: "paging_turn ao so c r = (t, c', r')"
    and cs': "cs' = cs[i := (t = Again, c')]" by (auto split: if_splits prod.splits)
  note hu = holders_update [OF i c, of k "t = Again" c', folded cs']
  have pos: "cn_pinned c = Some k \<Longrightarrow> 0 < holders k cs" using holders_pos [OF i] c by simp
  have "gets_committed ev (cs, r) \<longleftrightarrow>
      (case next_request c of Some (code, key) \<Rightarrow> code = OP_GET \<longrightarrow> (\<nexists>s. rs_map r key = Some (Reserved s)) | None \<Rightarrow> True)"
    using c by (auto simp: Turn split: option.splits loc.splits)
  then show ?thesis using turn_pins [OF inv t le pos hu] by blast
qed

lemma peer_run_pins:
  assumes "peer_run ao so ok p q" and "rs_inv n (snd p)" and "\<And>k. pins_on k (snd p) = holders k (fst p)"
  shows "rs_inv n (snd q) \<and> (\<forall>k. pins_on k (snd q) \<le> holders k (fst q))
    \<and> ((\<forall>ev p. ok ev p \<longrightarrow> gets_committed ev p) \<longrightarrow> (\<forall>k. pins_on k (snd q) = holders k (fst q)))"
  using assms(1)
proof (induction rule: peer_run.induct)
  case start
  then show ?case using assms(2,3) by simp
next
  case (step q ev q')
  obtain cs r cs' r' where q: "q = (cs, r)" "q' = (cs', r')" by (metis surj_pair)
  have IH: "rs_inv n r" "\<And>k. pins_on k r \<le> holders k cs"
    "(\<forall>ev p. ok ev p \<longrightarrow> gets_committed ev p) \<Longrightarrow> (\<And>k. pins_on k r = holders k cs)" using step.IH q by auto
  note s = peer_step_pins [OF IH(1,2) step.hyps(3) [unfolded q]]
  have "rs_inv n r' \<and> (\<forall>k. pins_on k r' \<le> holders k cs')" using s by blast
  moreover have "\<forall>k. pins_on k r' = holders k cs'" if "\<forall>ev p. ok ev p \<longrightarrow> gets_committed ev p"
    using s IH(3) [OF that] that step.hyps(2) q(1) by blast
  ultimately show ?case using q by simp
qed

text \<open>The read pins of a page table that connections share are bounded by them: after any turns of
  any connections, and any RDMA writes into the arena, a key has at most as many pins as
  connections that hold it, so once no connection holds it nothing keeps its slot from being
  evicted; the two numbers are equal if no connection ever asked for a key that another one was in
  the middle of putting.\<close>

theorem peer_pins_bounded:
  assumes "rs_new_capped ao so a st cap = Inr r0" and "peer_run ao so ok ([], r0) (cs, r)"
  shows "rs_inv (num_slots ao a) r \<and> pins_on k r \<le> holders k cs
    \<and> ((\<forall>ev p. ok ev p \<longrightarrow> gets_committed ev p) \<longrightarrow> pins_on k r = holders k cs)"
proof -
  have "rs_read_pins r0 = Map.empty" using assms(1) by (auto simp: rs_new_capped_def Let_def split: if_splits)
  then have "pins_on j r0 = holders j []" for j by (simp add: rs_read_pin_count_def holders_def)
  with peer_run_pins [OF assms(2), of "num_slots ao a"] rs_new_capped_inv [OF assms(1)] show ?thesis by simp
qed

subsection \<open>A reader's slot\<close>

lemma reader_step:
  assumes inv: "rs_inv n r" and eq: "pins_on k r = holders k cs" and i: "i < length cs" "cn_pinned (snd (cs ! i)) = Some k"
    and res: "rs_map r k = Some (Resident s)" and la: "leaves_alone i k ev (cs, r)"
    and st: "peer_step ao so ev (cs, r) = Some (cs', r')"
  shows "rs_map r' k = Some (Resident s) \<and> pins_on k r' = holders k cs' \<and> rs_inv n r'
    \<and> i < length cs' \<and> cn_pinned (snd (cs' ! i)) = Some k"
proof (cases ev)
  case (Accept x)
  then show ?thesis using assms by (auto simp: holders_def nth_append)
next
  case (Rdma a)
  have "pins_on k (r\<lparr> rs_arena := a \<rparr>) = pins_on k r" by (simp add: rs_read_pin_count_def)
  then show ?thesis using assms Rdma by auto
next
  case (Turn j)
  with st obtain c t c' where j: "j < length cs" and c: "snd (cs ! j) = c" and t: "paging_turn ao so c r = (t, c', r')"
    and cs': "cs' = cs[j := (t = Again, c')]" by (auto split: if_splits prod.splits)
  have ji: "j \<noteq> i" using la Turn by simp
  note ps = peer_step_pins [OF inv eq_refl [OF eq] st]
  have "rs_map r' k = Some (Resident s)"
  proof (cases "next_request c")
    case None
    from paging_turn_None [OF this t] show ?thesis using unpin_held_spec [OF inv] res by auto
  next
    case (Some q)
    obtain code key where q: "q = (code, key)" by force
    obtain reply where h: "handle_paging_op ao so code key (cn_pinned c) r = (reply, cn_pinned c', r')"
      using paging_turn_Some [OF Some [unfolded q] t] by blast
    have "(if cn_pinned c = Some k then 1 else 0) < pins_on k r"
      unfolding eq using holders_pos [OF i] holders_two [OF i(1) j ji [symmetric] i(2)] c by auto
    moreover have "key = k \<longrightarrow> code \<notin> {OP_ALLOC, OP_REMOVE}" using la Turn c Some q by simp
    ultimately show ?thesis by (rule handle_spec(4) [OF inv h res])
  qed
  moreover have "pins_on k r' = holders k cs'"
  proof -
    have hu: "holders k cs' + (if cn_pinned c = Some k then 1 else 0) = holders k cs + (if cn_pinned c' = Some k then 1 else 0)"
      using holders_update [OF j c, of k "t = Again" c'] cs' by simp
    show ?thesis
    proof (cases "next_request c")
      case None
      from paging_turn_None [OF this t] show ?thesis using unpin_held_spec [OF inv, of "cn_pinned c" k] eq hu by (auto split: if_splits)
    next
      case (Some q)
      obtain code key where q: "q = (code, key)" by force
      obtain reply where h: "handle_paging_op ao so code key (cn_pinned c) r = (reply, cn_pinned c', r')"
        using paging_turn_Some [OF Some [unfolded q] t] by blast
      have "cn_pinned c' = Some k \<longrightarrow> is_resident (rs_map r' k)" using handle_spec(3) [OF inv h] res by auto
      moreover have "cn_pinned c = Some k \<Longrightarrow> 0 < holders k cs" using holders_pos [OF j] c by simp
      ultimately show ?thesis using handle_spec(2) [OF inv h, of k] eq hu by (auto split: if_splits)
    qed
  qed
  ultimately show ?thesis using ps i ji cs' by simp
qed

lemma reader_run:
  assumes "peer_run ao so (leaves_alone i k) p q"
    and "rs_inv n (snd p)" "pins_on k (snd p) = holders k (fst p)" "i < length (fst p)"
    "cn_pinned (snd (fst p ! i)) = Some k" "rs_map (snd p) k = Some (Resident s)"
  shows "rs_map (snd q) k = Some (Resident s) \<and> pins_on k (snd q) = holders k (fst q) \<and> rs_inv n (snd q)
    \<and> i < length (fst q) \<and> cn_pinned (snd (fst q ! i)) = Some k"
  using assms(1)
proof (induction rule: peer_run.induct)
  case start
  then show ?case using assms by blast
next
  case (step q ev q')
  obtain cs r cs' r' where q: "q = (cs, r)" "q' = (cs', r')" by (metis surj_pair)
  with step.IH have "rs_inv n r" "pins_on k r = holders k cs" "i < length cs" "cn_pinned (snd (cs ! i)) = Some k"
    "rs_map r k = Some (Resident s)" by simp_all
  from reader_step [OF this step.hyps(2,3) [unfolded q]] show ?case by (simp add: q)
qed

text \<open>C6: A reader's slot stays its own, on two conditions: no connection has so far asked for a key that
  another one was in the middle of putting, and from the reply that located a resident key to the next
  request of that connection no other connection puts or removes this very key. Then the key stays in
  the slot it was located in and is still pinned, whatever the other connections ask, evict or fail at
  meanwhile.\<close>

theorem peer_reader_slot_stable:
  assumes "rs_new_capped ao so a st cap = Inr r0" and "peer_run ao so gets_committed ([], r0) (cs, r)"
    and "i < length cs" and "cn_pinned (snd (cs ! i)) = Some k" and "rs_map r k = Some (Resident s)"
    and "peer_run ao so (leaves_alone i k) (cs, r) (cs', r')"
  shows "rs_map r' k = Some (Resident s) \<and> 0 < pins_on k r'"
proof -
  have "rs_read_pins r0 = Map.empty" using assms(1) by (auto simp: rs_new_capped_def Let_def split: if_splits)
  then have "pins_on j r0 = holders j []" for j by (simp add: rs_read_pin_count_def holders_def)
  with peer_run_pins [OF assms(2), of "num_slots ao a"] rs_new_capped_inv [OF assms(1)]
  have "rs_inv (num_slots ao a) r" "pins_on k r = holders k cs" by auto
  with reader_run [OF assms(6)] assms(3-5) show ?thesis using holders_pos [of i cs' k] by fastforce
qed

subsection \<open>Concrete runs\<close>

fun peer_exec ::
  "'a arena_ops \<Rightarrow> 's store_ops \<Rightarrow> ('a peer_event \<Rightarrow> ('a, 's) peer \<Rightarrow> bool) \<Rightarrow> 'a peer_event list \<Rightarrow> ('a, 's) peer
     \<Rightarrow> ('a, 's) peer option" where
  "peer_exec ao so ok [] p = Some p"
| "peer_exec ao so ok (ev # evs) p =
    (if ok ev p then (case peer_step ao so ev p of Some p' \<Rightarrow> peer_exec ao so ok evs p' | None \<Rightarrow> None) else None)"

lemma peer_run_then: "peer_run ao so ok p q \<Longrightarrow> peer_exec ao so ok evs q = Some q' \<Longrightarrow> peer_run ao so ok p q'"
  by (induction evs arbitrary: q) (auto split: if_splits option.splits intro: peer_run.step)

lemma peer_exec_run: "peer_exec ao so ok evs p = Some q \<Longrightarrow> peer_run ao so ok p q"
  by (rule peer_run_then [OF peer_run.start])

definition wire_client :: "wire_call list \<Rightarrow> vec_slot_arena peer_event" where
  "wire_client calls = Accept (open_stream (session_bytes calls) [])"

text \<open>One connection puts key 7 in a page table of one slot; another gets it; the first then tries
  to put key 8.\<close>

definition one_slot_page :: "(vec_slot_arena, mem_swap_store) residency" where
  "one_slot_page = (case rs_new va_ops ms_ops (va_new 2 1) (ms_new 2) of Inr r \<Rightarrow> r | Inl _ \<Rightarrow> undefined)"

lemma one_slot_page_new: "rs_new_capped va_ops ms_ops (va_new 2 1) (ms_new 2) 0 = Inr one_slot_page"
  by (simp add: one_slot_page_def rs_new_def rs_new_capped_def va_ops_def ms_ops_def va_new_def ms_new_def)

definition read_put_get :: "(vec_slot_arena, mem_swap_store) peer option" where
  "read_put_get = peer_exec va_ops ms_ops gets_committed
     [wire_client [CAlloc 7, CCommit 7, CAlloc 8], wire_client [CGet 7], Turn 0, Turn 0, Turn 1] ([], one_slot_page)"

definition then_put :: "(vec_slot_arena, mem_swap_store) peer option" where
  "then_put = Option.bind read_put_get (peer_exec va_ops ms_ops (leaves_alone 1 7) [Turn 0])"

lemma peer_pins_bounded_witness: "map_option (\<lambda>p. pins_on 7 (snd p)) read_put_get = Some 1"
proof -
  have "read_put_get \<noteq> None" by code_simp
  then obtain cs r where p: "read_put_get = Some (cs, r)" by auto
  have "map_option (\<lambda>p. holders 7 (fst p)) read_put_get = Some 1" by code_simp
  moreover have "pins_on 7 r = holders 7 cs"
    using peer_pins_bounded [OF one_slot_page_new peer_exec_run [OF p [unfolded read_put_get_def]], of 7] by blast
  ultimately show ?thesis by (simp add: p)
qed

lemma peer_reader_slot_stable_witness:
  "map_option (\<lambda>p. rs_map (snd p) 7) then_put = Some (Some (Resident 0))
   \<and> map_option (\<lambda>p. drop 9 (sk_out (cn_stream (snd (fst p ! 0))))) then_put = Some [ST_OK, ST_ERR]"
proof -
  have "read_put_get \<noteq> None" "then_put \<noteq> None" by code_simp+
  then obtain p q where p: "read_put_get = Some p" and tq: "then_put = Some q" by blast
  then have q: "peer_exec va_ops ms_ops (leaves_alone 1 7) [Turn 0] p = Some q"
    unfolding then_put_def p Option.bind.simps by blast
  obtain cs r cs' r' where pq: "p = (cs, r)" "q = (cs', r')" by (metis surj_pair)
  have "map_option (\<lambda>p. length (fst p)) read_put_get = Some 2"
    "map_option (\<lambda>p. cn_pinned (snd (fst p ! 1))) read_put_get = Some (Some 7)"
    "map_option (\<lambda>p. rs_map (snd p) 7) read_put_get = Some (Some (Resident 0))" by code_simp+
  then have "1 < length cs" "cn_pinned (snd (cs ! 1)) = Some 7" "rs_map r 7 = Some (Resident 0)"
    unfolding p pq by simp_all
  from peer_reader_slot_stable [OF one_slot_page_new peer_exec_run [OF p [unfolded read_put_get_def pq]] this
      peer_exec_run [OF q [unfolded pq]]]
  have "map_option (\<lambda>p. rs_map (snd p) 7) then_put = Some (Some (Resident 0))" by (simp add: tq pq)
  moreover have "map_option (\<lambda>p. drop 9 (sk_out (cn_stream (snd (fst p ! 0))))) then_put = Some [ST_OK, ST_ERR]" by code_simp
  ultimately show ?thesis ..
qed

subsection \<open>A pin that was never taken\<close>

text \<open>A get of a reserved key is answered with its slot and recorded, but takes no pin.\<close>

lemma reserved_get:
  assumes inv: "rs_inv n r" and h: "handle_paging_op ao so OP_GET k pinned r = (reply, pinned', r')" and k: "rs_map r k = Some (Reserved s)"
  shows "pinned' = Some k \<and> pins_on k r' = pins_on k r - (if pinned = Some k then 1 else 0)"
proof -
  let ?r0 = "unpin_held pinned r"
  have u: "pins_on k ?r0 = pins_on k r - (if pinned = Some k then 1 else 0)" "rs_map ?r0 k = Some (Reserved s)"
    using unpin_held_spec [OF inv] k by simp_all
  obtain r1 where l: "rs_locate ao so k ?r0 = (Inr (Some s), r1)" "rs_map r1 k = Some (Reserved s)" "rs_read_pins r1 = rs_read_pins ?r0"
    by (simp add: rs_locate_def u(2))
  then obtain off where "dispatch ao so OP_GET k ?r0 = (Located off, r1)" by (simp add: dispatch_def wire_codes)
  then have "pinned' = Some k" "r' = rs_pin_read k r1" using h by (simp_all add: handle_paging_op_def)
  then show ?thesis using pins_on_pin [of k k r1] pins_on_eq [OF l(3), of k] u(1) l(2) by simp
qed

text \<open>The turns of the others keep the deficit of one pin.\<close>

definition others :: "nat \<Rightarrow> 'a peer_event \<Rightarrow> ('a, 's) peer \<Rightarrow> bool" where
  "others i ev p \<longleftrightarrow> ev \<noteq> Turn i \<and> gets_committed ev p"

lemma others_step:
  assumes inv: "rs_inv n r" and d: "pins_on k r + 1 = holders k cs" and i: "i < length cs" "cn_pinned (snd (cs ! i)) = Some k"
    and o: "others i ev (cs, r)" and st: "peer_step ao so ev (cs, r) = Some (cs', r')"
  shows "rs_inv n r' \<and> pins_on k r' + 1 = holders k cs' \<and> i < length cs' \<and> cn_pinned (snd (cs' ! i)) = Some k"
proof (cases ev)
  case (Accept s)
  then show ?thesis using assms by (auto simp: holders_def nth_append)
next
  case (Rdma a)
  have "pins_on k (r\<lparr> rs_arena := a \<rparr>) = pins_on k r" by (simp add: rs_read_pin_count_def)
  then show ?thesis using assms Rdma by auto
next
  case (Turn j)
  with st obtain c t c' where j: "j < length cs" and c: "snd (cs ! j) = c" and t: "paging_turn ao so c r = (t, c', r')"
    and cs': "cs' = cs[j := (t = Again, c')]" by (auto split: if_splits prod.splits)
  have ji: "j \<noteq> i" using o Turn by (auto simp: others_def)
  have two: "cn_pinned c = Some k \<Longrightarrow> 1 < holders k cs" using holders_two [OF i(1) j ji [symmetric] i(2)] c by simp
  have i': "i < length cs'" "cn_pinned (snd (cs' ! i)) = Some k" using i ji cs' by simp_all
  have hu: "holders k cs' - 1 + (if cn_pinned c = Some k then 1 else 0) = holders k cs - 1 + (if cn_pinned c' = Some k then 1 else 0)"
    using holders_update [OF j c, of k "t = Again" c'] cs' holders_pos [OF i] holders_pos [OF i'] by simp
  have g: "case next_request c of Some (code, key) \<Rightarrow> code = OP_GET \<longrightarrow> (\<nexists>s. rs_map r key = Some (Reserved s)) | None \<Rightarrow> True"
    using o c by (auto simp: others_def Turn split: option.splits loc.splits)
  note tp = turn_pins [OF inv t _ _ hu]
  have "rs_inv n r'" by (rule tp(1)) (use d two in auto)
  moreover have "pins_on k r' = holders k cs' - 1" by (rule tp(3)) (use d two g in auto)
  ultimately show ?thesis using i' holders_pos [OF i'] by simp
qed

lemma others_run:
  assumes "peer_run ao so (others i) p q"
    and "rs_inv n (snd p)" "pins_on k (snd p) + 1 = holders k (fst p)" "i < length (fst p)" "cn_pinned (snd (fst p ! i)) = Some k"
  shows "rs_inv n (snd q) \<and> pins_on k (snd q) + 1 = holders k (fst q) \<and> i < length (fst q) \<and> cn_pinned (snd (fst q ! i)) = Some k"
  using assms(1)
proof (induction rule: peer_run.induct)
  case start
  then show ?case using assms by blast
next
  case (step q ev q')
  obtain cs r cs' r' where q: "q = (cs, r)" "q' = (cs', r')" by (metis surj_pair)
  with step.IH have "rs_inv n r" "pins_on k r + 1 = holders k cs" "i < length cs" "cn_pinned (snd (cs ! i)) = Some k" by simp_all
  from others_step [OF this step.hyps(2,3) [unfolded q]] show ?case by (simp add: q)
qed

lemma turn_handles:
  assumes "peer_step ao so (Turn i) (cs, r) = Some (cs', r')" and "next_request (snd (cs ! i)) = Some (code, key)"
  obtains b c' reply where "i < length cs" "cs' = cs[i := (b, c')]"
    "handle_paging_op ao so code key (cn_pinned (snd (cs ! i))) r = (reply, cn_pinned c', r')"
proof -
  obtain t c' where t: "i < length cs" "paging_turn ao so (snd (cs ! i)) r = (t, c', r')" "cs' = cs[i := (t = Again, c')]"
    using assms(1) by (auto split: if_splits prod.splits)
  from paging_turn_Some [OF assms(2) t(2)] t show thesis by (auto intro: that)
qed

text \<open>C7: A get of a key in the middle of its put is answered and recorded like any other but takes no
  pin, and it is released like one. If, in a run without such gets, connection \<open>i\<close> asks for \<open>k\<close> while
  another is putting it, and later, with no further get of that kind, \<open>k\<close> is recorded for connection \<open>i\<close> and
  for one other connection \<open>j\<close>, then \<open>k\<close> has one pin, and the next request of connection \<open>i\<close>, for any other
  key, leaves it with none, though connection \<open>j\<close> is still reading.\<close>

theorem peer_pin_stolen:
  assumes "rs_new_capped ao so a st cap = Inr r0" and "peer_run ao so gets_committed ([], r0) (cs, r)"
    and "next_request (snd (cs ! i)) = Some (OP_GET, k)" and "rs_map r k = Some (Reserved s)"
    and "peer_step ao so (Turn i) (cs, r) = Some (cs1, r1)"
    and "peer_run ao so (others i) (cs1, r1) (cs2, r2)"
    and "j \<noteq> i" and "cn_pinned (snd (cs2 ! j)) = Some k" and "holders k cs2 = 2"
    and "next_request (snd (cs2 ! i)) = Some (code, key)" and "key \<noteq> k"
    and "peer_step ao so (Turn i) (cs2, r2) = Some (cs3, r3)"
  shows "pins_on k r2 = 1 \<and> pins_on k r3 = 0 \<and> cn_pinned (snd (cs3 ! j)) = Some k"
proof -
  have "rs_read_pins r0 = Map.empty" using assms(1) by (auto simp: rs_new_capped_def Let_def split: if_splits)
  then have "pins_on j r0 = holders j []" for j by (simp add: rs_read_pin_count_def holders_def)
  with peer_run_pins [OF assms(2), of "num_slots ao a"] rs_new_capped_inv [OF assms(1)]
  have r: "rs_inv (num_slots ao a) r" "pins_on k r = holders k cs" by auto
  obtain b c1 reply where 1: "i < length cs" "cs1 = cs[i := (b, c1)]"
    "handle_paging_op ao so OP_GET k (cn_pinned (snd (cs ! i))) r = (reply, cn_pinned c1, r1)"
    using turn_handles [OF assms(5,3)] by blast
  note g = reserved_get [OF r(1) 1(3) assms(4)]
  have "pins_on k r1 + 1 = holders k cs1"
    using g r(2) holders_update [OF 1(1) refl, of k b c1] holders_pos [OF 1(1), of k] 1(2) by (auto split: if_splits)
  with others_run [OF assms(6), of "num_slots ao a" k] handle_spec(1) [OF r(1) 1(3)] g 1(1,2)
  have 2: "rs_inv (num_slots ao a) r2" "pins_on k r2 + 1 = holders k cs2" "cn_pinned (snd (cs2 ! i)) = Some k" by simp_all
  obtain b' c3 reply' where 3: "cs3 = cs2[i := (b', c3)]"
    "handle_paging_op ao so code key (cn_pinned (snd (cs2 ! i))) r2 = (reply', cn_pinned c3, r3)"
    using turn_handles [OF assms(12,10)] by blast
  note hs = handle_spec [OF 2(1) 3(2)]
  have "cn_pinned c3 \<noteq> Some k" using hs(3) assms(11) by auto
  then have "pins_on k r3 = 0" using hs(2) [of k] 2 assms(9) by simp
  then show ?thesis using 2(2) assms(7,8,9) 3(1) by simp
qed

text \<open>Connection 0 puts key 7, connection 1 asks for it between the alloc and the commit, connection 2
  gets it and is told slot 0, connection 1 asks for key 9; connection 0 can then put key 8 into the slot
  that connection 2, which has made no further request, reads.\<close>

definition steal_start :: "(vec_slot_arena, mem_swap_store) peer option" where
  "steal_start = peer_exec va_ops ms_ops gets_committed
     [wire_client [CAlloc 7, CCommit 7, CAlloc 8], wire_client [CGet 7, CGet 9], wire_client [CGet 7], Turn 0] ([], one_slot_page)"

definition steal_get :: "(vec_slot_arena, mem_swap_store) peer option" where
  "steal_get = Option.bind steal_start (peer_step va_ops ms_ops (Turn 1))"

definition steal_read :: "(vec_slot_arena, mem_swap_store) peer option" where
  "steal_read = Option.bind steal_get (peer_exec va_ops ms_ops (others 1) [Turn 0, Turn 2])"

definition steal_drop :: "(vec_slot_arena, mem_swap_store) peer option" where
  "steal_drop = Option.bind steal_read (peer_step va_ops ms_ops (Turn 1))"

lemma peer_pin_stolen_witness:
  "map_option (\<lambda>p. pins_on 7 (snd p)) steal_read = Some 1 \<and> map_option (\<lambda>p. pins_on 7 (snd p)) steal_drop = Some 0
   \<and> map_option (\<lambda>p. sk_out (cn_stream (snd (fst p ! 2)))) steal_drop = Some (ST_OK # to_le_bytes 0)
   \<and> map_option (\<lambda>p. (rs_map (snd p) 7, rs_map (snd p) 8)) (Option.bind steal_drop (peer_step va_ops ms_ops (Turn 0)))
     = Some (Some (OnDisk 0), Some (Reserved 0))"
proof -
  have "steal_start \<noteq> None" "steal_get \<noteq> None" "steal_read \<noteq> None" "steal_drop \<noteq> None" by code_simp+
  then obtain p p1 p2 p3 where p: "steal_start = Some p" "steal_get = Some p1" "steal_read = Some p2" "steal_drop = Some p3" by blast
  have s: "peer_step va_ops ms_ops (Turn 1) p = Some p1" "peer_exec va_ops ms_ops (others 1) [Turn 0, Turn 2] p1 = Some p2"
    "peer_step va_ops ms_ops (Turn 1) p2 = Some p3"
    using p(2) [unfolded steal_get_def p(1) Option.bind.simps] p(3) [unfolded steal_read_def p(2) Option.bind.simps]
      p(4) [unfolded steal_drop_def p(3) Option.bind.simps] by blast+
  obtain cs r cs1 r1 cs2 r2 cs3 r3 where q: "p = (cs, r)" "p1 = (cs1, r1)" "p2 = (cs2, r2)" "p3 = (cs3, r3)" by (metis surj_pair)
  have "map_option (\<lambda>p. (next_request (snd (fst p ! 1)), rs_map (snd p) 7)) steal_start = Some (Some (OP_GET, 7), Some (Reserved 0))"
    "map_option (\<lambda>p. (cn_pinned (snd (fst p ! 2)), holders 7 (fst p), next_request (snd (fst p ! 1)))) steal_read
       = Some (Some 7, 2, Some (OP_GET, 9))" by code_simp+
  then have f: "next_request (snd (cs ! 1)) = Some (OP_GET, 7)" "rs_map r 7 = Some (Reserved 0)"
    "cn_pinned (snd (cs2 ! 2)) = Some 7" "holders 7 cs2 = 2" "next_request (snd (cs2 ! 1)) = Some (OP_GET, 9)"
    unfolding p q by simp_all
  have "pins_on 7 r2 = 1 \<and> pins_on 7 r3 = 0 \<and> cn_pinned (snd (cs3 ! 2)) = Some 7"
    by (rule peer_pin_stolen [OF one_slot_page_new peer_exec_run [OF p(1) [unfolded steal_start_def q]] f(1,2) s(1) [unfolded q]
        peer_exec_run [OF s(2) [unfolded q]] _ f(3,4,5) _ s(3) [unfolded q]]) simp_all
  then have "map_option (\<lambda>p. pins_on 7 (snd p)) steal_read = Some 1" "map_option (\<lambda>p. pins_on 7 (snd p)) steal_drop = Some 0"
    by (simp_all add: p q)
  moreover have "map_option (\<lambda>p. sk_out (cn_stream (snd (fst p ! 2)))) steal_drop = Some (ST_OK # to_le_bytes 0)"
    "map_option (\<lambda>p. (rs_map (snd p) 7, rs_map (snd p) 8)) (Option.bind steal_drop (peer_step va_ops ms_ops (Turn 0)))
     = Some (Some (OnDisk 0), Some (Reserved 0))" by code_simp+
  ultimately show ?thesis by blast
qed

end
