(* ===== verification/Kv_Geometry.thy ===== *)
theory Kv_Geometry
  imports Prelude
begin

text \<open>
  The KV cache storage formats (\<open>KvCacheDtype\<close>) with their catalogue and parser, and the block
  geometry of \<open>KvCacheConfig\<close> (crates/cache/src/kv_cache.rs, kv_cache/catalog.rs). Sizes are
  \<open>usize\<close> values modelled as naturals; the products stay far below 2^64 for any device memory.
\<close>

subsection \<open>Formats\<close>

datatype kv_cache_dtype =
    Bf16 | Fp8 | Nvfp4 | Turbo4 | Turbo3 | Turbo2 | Turbo8
  | Turbo4KTurbo3V | Turbo4KTurbo8V | Turbo3KTurbo8V
  | Bf16KTurbo4V | Bf16KTurbo3V | Fp8KTurbo4V | Fp8KTurbo3V
  | Bf16KTurbo2V | Fp8KTurbo2V

fun kv_pair :: "kv_cache_dtype \<Rightarrow> kv_cache_dtype \<times> kv_cache_dtype" where
  "kv_pair Turbo4KTurbo3V = (Turbo4, Turbo3)"
| "kv_pair Turbo4KTurbo8V = (Turbo4, Turbo8)"
| "kv_pair Turbo3KTurbo8V = (Turbo3, Turbo8)"
| "kv_pair Bf16KTurbo4V = (Bf16, Turbo4)"
| "kv_pair Bf16KTurbo3V = (Bf16, Turbo3)"
| "kv_pair Fp8KTurbo4V = (Fp8, Turbo4)"
| "kv_pair Fp8KTurbo3V = (Fp8, Turbo3)"
| "kv_pair Bf16KTurbo2V = (Bf16, Turbo2)"
| "kv_pair Fp8KTurbo2V = (Fp8, Turbo2)"
| "kv_pair other = (other, other)"

definition is_wht_rotated :: "kv_cache_dtype \<Rightarrow> bool" where
  "is_wht_rotated d \<longleftrightarrow> d \<in> {Turbo2, Turbo3, Turbo4, Turbo8}"

definition is_asymmetric :: "kv_cache_dtype \<Rightarrow> bool" where
  "is_asymmetric d \<longleftrightarrow> d \<in> {Turbo4KTurbo3V, Turbo4KTurbo8V, Turbo3KTurbo8V, Bf16KTurbo4V,
     Bf16KTurbo3V, Fp8KTurbo4V, Fp8KTurbo3V, Bf16KTurbo2V, Fp8KTurbo2V}"

definition all_dtypes :: "kv_cache_dtype list" where
  "all_dtypes = [Bf16, Fp8, Nvfp4, Turbo4, Turbo3, Turbo2, Turbo8, Turbo4KTurbo3V,
     Turbo4KTurbo8V, Turbo3KTurbo8V, Bf16KTurbo4V, Bf16KTurbo3V, Fp8KTurbo4V, Fp8KTurbo3V,
     Bf16KTurbo2V, Fp8KTurbo2V]"

fun dtype_name :: "kv_cache_dtype \<Rightarrow> string" where
  "dtype_name Bf16 = ''bf16''"
| "dtype_name Fp8 = ''fp8''"
| "dtype_name Nvfp4 = ''nvfp4''"
| "dtype_name Turbo4 = ''turbo4''"
| "dtype_name Turbo3 = ''turbo3''"
| "dtype_name Turbo2 = ''turbo2''"
| "dtype_name Turbo8 = ''turbo8''"
| "dtype_name Turbo4KTurbo3V = ''turbo4k_turbo3v''"
| "dtype_name Turbo4KTurbo8V = ''turbo4k_turbo8v''"
| "dtype_name Turbo3KTurbo8V = ''turbo3k_turbo8v''"
| "dtype_name Bf16KTurbo4V = ''bf16k_turbo4v''"
| "dtype_name Bf16KTurbo3V = ''bf16k_turbo3v''"
| "dtype_name Fp8KTurbo4V = ''fp8k_turbo4v''"
| "dtype_name Fp8KTurbo3V = ''fp8k_turbo3v''"
| "dtype_name Bf16KTurbo2V = ''bf16k_turbo2v''"
| "dtype_name Fp8KTurbo2V = ''fp8k_turbo2v''"

text \<open>\<open>FromStr\<close>: the spellings in the order of the match arms; \<open>None\<close> is the \<open>bail!\<close> arm.\<close>

definition dtype_spellings :: "(string \<times> kv_cache_dtype) list" where
  "dtype_spellings =
    [(''bf16'', Bf16), (''fp8'', Fp8), (''nvfp4'', Nvfp4), (''turbo4'', Turbo4),
     (''turbo3'', Turbo3), (''turbo2'', Turbo2), (''turbo8'', Turbo8),
     (''turbo4k_turbo3v'', Turbo4KTurbo3V), (''turbo4k3v'', Turbo4KTurbo3V),
     (''turbo4k_turbo8v'', Turbo4KTurbo8V), (''turbo4k8v'', Turbo4KTurbo8V),
     (''turbo3k_turbo8v'', Turbo3KTurbo8V), (''turbo3k8v'', Turbo3KTurbo8V),
     (''bf16k_turbo4v'', Bf16KTurbo4V), (''bf16k4v'', Bf16KTurbo4V),
     (''bf16k_turbo3v'', Bf16KTurbo3V), (''bf16k3v'', Bf16KTurbo3V),
     (''fp8k_turbo4v'', Fp8KTurbo4V), (''fp8k4v'', Fp8KTurbo4V),
     (''fp8k_turbo3v'', Fp8KTurbo3V), (''fp8k3v'', Fp8KTurbo3V),
     (''bf16k_turbo2v'', Bf16KTurbo2V), (''bf16k2v'', Bf16KTurbo2V),
     (''fp8k_turbo2v'', Fp8KTurbo2V), (''fp8k2v'', Fp8KTurbo2V)]"

definition dtype_from_str :: "string \<Rightarrow> kv_cache_dtype option" where
  "dtype_from_str s = map_of dtype_spellings s"

lemma dtype_spellings_distinct: "distinct (map fst dtype_spellings)"
  by (simp add: dtype_spellings_def)

lemma dtype_name_listed: "(dtype_name d, d) \<in> set dtype_spellings"
  by (cases d) (simp_all only: dtype_spellings_def dtype_name.simps list.set insert_iff simp_thms)

lemma dtype_parse_name: "dtype_from_str (dtype_name d) = Some d"
  unfolding dtype_from_str_def
  by (rule map_of_is_SomeI [OF dtype_spellings_distinct dtype_name_listed])

lemma kv_pair_symmetric: "\<not> is_asymmetric d \<Longrightarrow> kv_pair d = (d, d)"
  by (cases d) (auto simp: is_asymmetric_def)

lemma kv_pair_sides_symmetric:
  "\<not> is_asymmetric (fst (kv_pair d)) \<and> \<not> is_asymmetric (snd (kv_pair d))"
  by (cases d) (auto simp: is_asymmetric_def)

lemma kv_pair_differ: "is_asymmetric d \<longleftrightarrow> fst (kv_pair d) \<noteq> snd (kv_pair d)"
  by (cases d) (auto simp: is_asymmetric_def)

lemma all_dtypes_complete: "set all_dtypes = UNIV \<and> distinct all_dtypes"
proof
  have "d \<in> set all_dtypes" for d by (cases d) (simp_all add: all_dtypes_def)
  then show "set all_dtypes = UNIV" by blast
qed (simp add: all_dtypes_def)

subsection \<open>Block geometry\<close>

definition NVFP4_GROUP_SIZE :: nat where
  "NVFP4_GROUP_SIZE = 16"

record kv_cache_config =
  cfg_block_size :: nat
  cfg_num_kv_heads :: nat
  cfg_head_dim :: nat
  cfg_num_layers :: nat
  cfg_dtype :: kv_cache_dtype
  cfg_layer_dtypes :: "kv_cache_dtype list"
  cfg_layer_dims :: "(nat \<times> nat) list"
  cfg_cache_blocks_per_seq :: "nat option"

definition dtype_for_layer :: "kv_cache_config \<Rightarrow> nat \<Rightarrow> kv_cache_dtype" where
  "dtype_for_layer c i =
    (if i < length (cfg_layer_dtypes c) then cfg_layer_dtypes c ! i else cfg_dtype c)"

definition dims_for_layer :: "kv_cache_config \<Rightarrow> nat \<Rightarrow> nat \<times> nat" where
  "dims_for_layer c i =
    (if i < length (cfg_layer_dims c) then cfg_layer_dims c ! i
     else (cfg_num_kv_heads c, cfg_head_dim c))"

definition block_bytes_dims :: "kv_cache_config \<Rightarrow> kv_cache_dtype \<Rightarrow> nat \<Rightarrow> nat \<Rightarrow> nat" where
  "block_bytes_dims c d nkv hdim =
    (let elems = cfg_block_size c * nkv * hdim; num_groups = elems div NVFP4_GROUP_SIZE in
     if d \<in> {Bf16, Bf16KTurbo4V, Bf16KTurbo3V, Bf16KTurbo2V} then elems * 2
     else if d \<in> {Fp8, Fp8KTurbo4V, Fp8KTurbo3V, Fp8KTurbo2V} then elems
     else if d \<in> {Nvfp4, Turbo4, Turbo4KTurbo3V, Turbo4KTurbo8V} then elems div 2 + num_groups
     else if d \<in> {Turbo3, Turbo3KTurbo8V} then elems * 3 div 8 + num_groups
     else if d = Turbo2 then elems div 4 + num_groups
     else elems + num_groups * 2)"

definition v_block_bytes_dims :: "kv_cache_config \<Rightarrow> kv_cache_dtype \<Rightarrow> nat \<Rightarrow> nat \<Rightarrow> nat" where
  "v_block_bytes_dims c d nkv hdim = block_bytes_dims c (snd (kv_pair d)) nkv hdim"

definition k_block_bytes_dims :: "kv_cache_config \<Rightarrow> kv_cache_dtype \<Rightarrow> nat \<Rightarrow> nat \<Rightarrow> nat" where
  "k_block_bytes_dims c d nkv hdim = block_bytes_dims c (fst (kv_pair d)) nkv hdim"

definition k_block_bytes_for_layer :: "kv_cache_config \<Rightarrow> nat \<Rightarrow> nat" where
  "k_block_bytes_for_layer c i =
    (let (nkv, hdim) = dims_for_layer c i; (k, v) = kv_pair (dtype_for_layer c i)
     in block_bytes_dims c k nkv hdim)"

definition v_block_bytes_for_layer :: "kv_cache_config \<Rightarrow> nat \<Rightarrow> nat" where
  "v_block_bytes_for_layer c i =
    (let (nkv, hdim) = dims_for_layer c i; (k, v) = kv_pair (dtype_for_layer c i)
     in block_bytes_dims c v nkv hdim)"

definition block_bytes_for_dtype :: "kv_cache_config \<Rightarrow> kv_cache_dtype \<Rightarrow> nat" where
  "block_bytes_for_dtype c d = block_bytes_dims c d (cfg_num_kv_heads c) (cfg_head_dim c)"

definition block_bytes :: "kv_cache_config \<Rightarrow> nat" where
  "block_bytes c = block_bytes_for_dtype c (cfg_dtype c)"

definition block_bytes_for_layer :: "kv_cache_config \<Rightarrow> nat \<Rightarrow> nat" where
  "block_bytes_for_layer c i =
    (let (nkv, hdim) = dims_for_layer c i in block_bytes_dims c (dtype_for_layer c i) nkv hdim)"

definition block_bytes_kv :: "kv_cache_config \<Rightarrow> nat" where
  "block_bytes_kv c = block_bytes c * 2"

definition block_bytes_kv_all_layers :: "kv_cache_config \<Rightarrow> nat" where
  "block_bytes_kv_all_layers c =
    sum_list (map (\<lambda>i. k_block_bytes_for_layer c i + v_block_bytes_for_layer c i)
                  [0..<cfg_num_layers c])"

definition cache_stride_elements :: "kv_cache_config \<Rightarrow> nat" where
  "cache_stride_elements c = cfg_block_size c * cfg_num_kv_heads c * cfg_head_dim c"

definition nvfp4_data_bytes :: "kv_cache_config \<Rightarrow> nat" where
  "nvfp4_data_bytes c = cfg_block_size c * cfg_num_kv_heads c * cfg_head_dim c div 2"

definition nvfp4_scale_bytes :: "kv_cache_config \<Rightarrow> nat" where
  "nvfp4_scale_bytes c =
    cfg_block_size c * cfg_num_kv_heads c * cfg_head_dim c div NVFP4_GROUP_SIZE"

definition turbo3_data_bytes :: "kv_cache_config \<Rightarrow> nat" where
  "turbo3_data_bytes c =
    (let elems = cfg_block_size c * cfg_num_kv_heads c * cfg_head_dim c in elems * 3 div 8)"

definition turbo2_data_bytes :: "kv_cache_config \<Rightarrow> nat" where
  "turbo2_data_bytes c =
    (let elems = cfg_block_size c * cfg_num_kv_heads c * cfg_head_dim c in elems div 4)"

definition turbo8_data_bytes :: "kv_cache_config \<Rightarrow> nat" where
  "turbo8_data_bytes c = cfg_block_size c * cfg_num_kv_heads c * cfg_head_dim c"

definition turbo8_scale_bytes :: "kv_cache_config \<Rightarrow> nat" where
  "turbo8_scale_bytes c = nvfp4_scale_bytes c * 2"

text \<open>\<open>PagedKvCache::compute_num_blocks\<close>; \<open>None\<close> is the zero-block-size error.\<close>

definition compute_num_blocks :: "kv_cache_config \<Rightarrow> nat \<Rightarrow> nat option" where
  "compute_num_blocks c available_bytes =
    (let bytes_per_block = block_bytes_kv_all_layers c in
     if bytes_per_block = 0 then None else Some (available_bytes div bytes_per_block))"

lemma symmetric_layer_bytes:
  assumes "\<not> is_asymmetric (dtype_for_layer c i)"
  shows "k_block_bytes_for_layer c i = block_bytes_for_layer c i
       \<and> v_block_bytes_for_layer c i = block_bytes_for_layer c i"
  using kv_pair_symmetric [OF assms]
  by (simp add: k_block_bytes_for_layer_def v_block_bytes_for_layer_def block_bytes_for_layer_def
      split: prod.splits)

subsection \<open>Properties\<close>

text \<open>Every format parses back from its printed name, so no two formats print alike, and the
  catalogue lists every format exactly once.\<close>

theorem dtype_roundtrip:
  "dtype_from_str (dtype_name d) = Some d \<and> inj dtype_name
   \<and> set all_dtypes = UNIV \<and> distinct all_dtypes"
proof -
  have "inj dtype_name" by (rule injI) (metis dtype_parse_name option.inject)
  then show ?thesis using dtype_parse_name all_dtypes_complete by blast
qed

text \<open>The number of blocks computed for a memory budget fits in it, counted as the sum of the
  K and V bytes of every layer in its own format, and one more block would not.\<close>

theorem compute_num_blocks_fits:
  assumes "compute_num_blocks c avail = Some n"
  shows "n * block_bytes_kv_all_layers c \<le> avail
       \<and> avail < (n + 1) * block_bytes_kv_all_layers c"
proof -
  let ?b = "block_bytes_kv_all_layers c"
  from assms have b: "?b > 0" and n: "n = avail div ?b"
    by (auto simp: compute_num_blocks_def Let_def split: if_splits)
  have "avail = n * ?b + avail mod ?b" using n by simp
  moreover have "avail mod ?b < ?b" using b by simp
  ultimately show ?thesis by (simp add: algebra_simps)
qed

definition example_config :: kv_cache_config where
  "example_config = \<lparr> cfg_block_size = 16, cfg_num_kv_heads = 2, cfg_head_dim = 64,
     cfg_num_layers = 2, cfg_dtype = Bf16, cfg_layer_dtypes = [Bf16KTurbo4V],
     cfg_layer_dims = [], cfg_cache_blocks_per_seq = None \<rparr>"

lemma example_config_bytes: "block_bytes_kv_all_layers example_config = 13440"
  by (simp add: block_bytes_kv_all_layers_def example_config_def k_block_bytes_for_layer_def
      v_block_bytes_for_layer_def dims_for_layer_def dtype_for_layer_def block_bytes_dims_def
      NVFP4_GROUP_SIZE_def upt_rec)

theorem compute_num_blocks_fits_witness:
  "compute_num_blocks example_config 100000 = Some 7 \<and> 7 * 13440 \<le> (100000::nat)"
proof -
  have s: "compute_num_blocks example_config 100000 = Some 7"
    by (simp add: compute_num_blocks_def example_config_bytes)
  from compute_num_blocks_fits [OF s] show ?thesis using s by (simp add: example_config_bytes)
qed

end
