(* ===== verification/Refcount_Ledger.thy ===== *)
theory Refcount_Ledger
  imports Prelude
begin

text \<open>
  The contract of a reference-counted block pool, and what its clients may rely on. The
  operations are the ones the model engine calls on the paged KV cache: take a block off the
  free list, add a reference, drop a reference. \<open>holds s H\<close> says that the multiset \<open>H\<close>
  of references in the hands of all clients (sequences and the prefix cache) agrees with the
  counts; the lemmas of the locale show how each operation moves it.
\<close>

locale refcount_pool =
  fixes cnt :: "'s \<Rightarrow> nat \<Rightarrow> nat"
    and cap :: "'s \<Rightarrow> nat"
    and pool_inv :: "'s \<Rightarrow> bool"
    and acquire :: "'s \<Rightarrow> (nat \<times> 's) option"
    and retain :: "nat \<Rightarrow> 's \<Rightarrow> 's option"
    and discard :: "nat \<Rightarrow> 's \<Rightarrow> (bool \<times> 's) option"
  assumes cnt_outside: "pool_inv s \<Longrightarrow> cap s \<le> b \<Longrightarrow> cnt s b = 0"
    and acquire_law: "pool_inv s \<Longrightarrow> acquire s = Some (b, s') \<Longrightarrow>
      pool_inv s' \<and> cap s' = cap s \<and> b < cap s \<and> cnt s b = 0 \<and> cnt s' = (cnt s)(b := 1)"
    and acquire_none: "pool_inv s \<Longrightarrow> acquire s = None \<Longrightarrow> b < cap s \<Longrightarrow> 0 < cnt s b"
    and retain_law: "pool_inv s \<Longrightarrow> 0 < cnt s b \<Longrightarrow> cnt s b < U32_MAX \<Longrightarrow>
      \<exists>s'. retain b s = Some s' \<and> pool_inv s' \<and> cap s' = cap s
         \<and> cnt s' = (cnt s)(b := Suc (cnt s b))"
    and discard_law: "pool_inv s \<Longrightarrow> 0 < cnt s b \<Longrightarrow>
      \<exists>s'. discard b s = Some (cnt s b = 1, s') \<and> pool_inv s' \<and> cap s' = cap s
         \<and> cnt s' = (cnt s)(b := cnt s b - 1)"
begin

definition holds :: "'s \<Rightarrow> nat multiset \<Rightarrow> bool" where
  "holds s H \<longleftrightarrow> pool_inv s \<and> (\<forall>b. cnt s b = count H b)"

lemma holds_in_cap: "holds s H \<Longrightarrow> b \<in># H \<Longrightarrow> b < cap s"
  unfolding holds_def by (metis cnt_outside count_greater_zero_iff leI less_irrefl)

lemma acquire_holds:
  assumes "holds s H" and "acquire s = Some (b, s')"
  shows "holds s' (add_mset b H) \<and> b \<notin># H \<and> cap s' = cap s \<and> b < cap s"
  using assms acquire_law [of s b s'] by (auto simp: holds_def not_in_iff)

lemma acquire_exhausted:
  assumes "holds s H" and "acquire s = None" and "b < cap s"
  shows "b \<in># H"
  using assms acquire_none [of s b] by (auto simp: holds_def)

lemma retain_holds:
  assumes "holds s H" and "b \<in># H" and "count H b < U32_MAX"
  shows "\<exists>s'. retain b s = Some s' \<and> holds s' (add_mset b H) \<and> cap s' = cap s"
proof -
  from assms have c: "pool_inv s" "cnt s b = count H b" "0 < cnt s b" "cnt s b < U32_MAX"
    by (auto simp: holds_def)
  with retain_law obtain s' where "retain b s = Some s'" "pool_inv s'" "cap s' = cap s"
      "cnt s' = (cnt s)(b := Suc (cnt s b))" by blast
  with assms(1) show ?thesis by (auto simp: holds_def)
qed

lemma discard_holds:
  assumes "holds s H" and "b \<in># H"
  shows "\<exists>s'. discard b s = Some (count H b = 1, s') \<and> holds s' (H - {#b#}) \<and> cap s' = cap s"
proof -
  from assms have c: "pool_inv s" "cnt s b = count H b" "0 < cnt s b"
    by (auto simp: holds_def)
  with discard_law obtain s' where "discard b s = Some (cnt s b = 1, s')" "pool_inv s'"
      "cap s' = cap s" "cnt s' = (cnt s)(b := cnt s b - 1)" by blast
  with assms(1) c(2) show ?thesis by (auto simp: holds_def)
qed

text \<open>Whole vectors of references: the loops of the callers.\<close>

lemma retain_all_holds:
  assumes "holds s H" and "set bs \<subseteq> set_mset H" and "size H + length bs \<le> U32_MAX"
  shows "\<exists>s'. for_each retain bs s = Some s' \<and> holds s' (H + mset bs) \<and> cap s' = cap s"
  using assms
proof (induction bs arbitrary: s H)
  case (Cons b bs)
  have "count H b \<le> size H" by (rule count_le_size)
  then have "count H b < U32_MAX" using Cons.prems(3) by simp
  then obtain s1 where s1: "retain b s = Some s1" "holds s1 (add_mset b H)" "cap s1 = cap s"
    using retain_holds [OF Cons.prems(1), of b] Cons.prems(2) by auto
  moreover have "set bs \<subseteq> set_mset (add_mset b H)" using Cons.prems(2) by auto
  ultimately obtain s2 where "for_each retain bs s1 = Some s2"
      "holds s2 (add_mset b H + mset bs)" "cap s2 = cap s1"
    using Cons.IH [of s1 "add_mset b H"] Cons.prems(3) by auto
  with s1 show ?case by simp
qed simp

lemma discard_all_holds:
  assumes "holds s H" and "mset bs \<subseteq># H"
  shows "\<exists>s'. for_each (\<lambda>b t. map_option snd (discard b t)) bs s = Some s'
           \<and> holds s' (H - mset bs) \<and> cap s' = cap s"
  using assms
proof (induction bs arbitrary: s H)
  case (Cons b bs)
  have bH: "b \<in># H" and sub: "mset bs \<subseteq># H - {#b#}"
    using Cons.prems(2) by (auto simp: insert_subset_eq_iff)
  obtain s1 where s1: "discard b s = Some (count H b = 1, s1)" "holds s1 (H - {#b#})"
      "cap s1 = cap s"
    using discard_holds [OF Cons.prems(1) bH] by auto
  obtain s2 where "for_each (\<lambda>b t. map_option snd (discard b t)) bs s1 = Some s2"
      "holds s2 (H - {#b#} - mset bs)" "cap s2 = cap s1"
    using Cons.IH [OF s1(2) sub] by auto
  with s1 show ?case by (simp add: diff_diff_add_mset)
qed simp

end

end
