(* ===== verification/Kv_Pool.thy ===== *)
theory Kv_Pool
  imports Kv_Geometry Refcount_Ledger
begin

text \<open>
  \<open>PagedKvCache\<close> (crates/cache/src/kv_cache.rs and kv_cache/paged_impl.rs): the device pools of
  every layer, the free list and the per-block reference counts. The device is the
  \<open>GpuBackend\<close> trait, a record of functions over a device state \<open>'g\<close>; its errors are strings.
  Reference counts are \<open>u32\<close> and \<open>inc_ref\<close> wraps (\<open>u32_succ\<close>). The outer \<open>option\<close> of an
  operation is \<open>None\<close> where indexing \<open>block_ref_counts\<close> panics; \<open>debug_assert!\<close>s are
  compiled out, as in the release build, and the refcount event ring (\<open>BlockTrace\<close>), which no
  decision reads, is left out.
\<close>

subsection \<open>State\<close>

record 'g gpu_backend =
  gpu_alloc :: "nat \<Rightarrow> 'g \<Rightarrow> string + (nat \<times> 'g)"
  gpu_free :: "nat \<Rightarrow> 'g \<Rightarrow> string option \<times> 'g"
  gpu_memset_async :: "nat \<Rightarrow> byte \<Rightarrow> nat \<Rightarrow> nat \<Rightarrow> 'g \<Rightarrow> string + 'g"
  gpu_copy_d2h :: "nat \<Rightarrow> nat \<Rightarrow> 'g \<Rightarrow> string + byte list"
  gpu_copy_h2d :: "byte list \<Rightarrow> nat \<Rightarrow> 'g \<Rightarrow> string + 'g"

record layer_pool =
  lp_k_pool :: nat
  lp_v_pool :: nat
  lp_k_block_stride :: nat
  lp_v_block_stride :: nat
  lp_dtype :: kv_cache_dtype

record kv_pool =
  kp_layers :: "layer_pool list"
  kp_num_blocks :: nat
  kp_free_blocks :: "nat list"
  kp_ref_counts :: "nat list"
  kp_config :: kv_cache_config

subsection \<open>Construction and release\<close>

fun kv_alloc_layers ::
  "'g gpu_backend \<Rightarrow> kv_cache_config \<Rightarrow> nat \<Rightarrow> nat list \<Rightarrow> 'g \<Rightarrow> string + (layer_pool list \<times> 'g)"
where
  "kv_alloc_layers gpu c num_blocks [] g = Inr ([], g)"
| "kv_alloc_layers gpu c num_blocks (i # is) g =
     (let k_block_bytes = k_block_bytes_for_layer c i;
          v_block_bytes = v_block_bytes_for_layer c i in
      case gpu_alloc gpu (num_blocks * k_block_bytes) g of
        Inl e \<Rightarrow> Inl e
      | Inr (k_pool, g1) \<Rightarrow>
          (case gpu_alloc gpu (num_blocks * v_block_bytes) g1 of
             Inl e \<Rightarrow> Inl e
           | Inr (v_pool, g2) \<Rightarrow>
               (case kv_alloc_layers gpu c num_blocks is g2 of
                  Inl e \<Rightarrow> Inl e
                | Inr (ls, g3) \<Rightarrow>
                    Inr (\<lparr> lp_k_pool = k_pool, lp_v_pool = v_pool,
                           lp_k_block_stride = k_block_bytes, lp_v_block_stride = v_block_bytes,
                           lp_dtype = dtype_for_layer c i \<rparr> # ls, g3))))"

text \<open>\<open>(0..num_blocks as u32).rev()\<close>: the cast keeps the low 32 bits.\<close>

definition kv_new ::
  "'g gpu_backend \<Rightarrow> kv_cache_config \<Rightarrow> nat \<Rightarrow> 'g \<Rightarrow> string + (kv_pool \<times> 'g)" where
  "kv_new gpu c num_blocks g =
    (case kv_alloc_layers gpu c num_blocks [0..<cfg_num_layers c] g of
       Inl e \<Rightarrow> Inl e
     | Inr (layers, g') \<Rightarrow>
         Inr (\<lparr> kp_layers = layers, kp_num_blocks = num_blocks,
                kp_free_blocks = rev [0..<num_blocks mod 4294967296],
                kp_ref_counts = replicate num_blocks 0, kp_config = c \<rparr>, g'))"

fun kv_free_ptrs ::
  "'g gpu_backend \<Rightarrow> nat list \<Rightarrow> string option \<Rightarrow> 'g \<Rightarrow> string option \<times> 'g" where
  "kv_free_ptrs gpu [] first_error g = (first_error, g)"
| "kv_free_ptrs gpu (ptr # ptrs) first_error g =
     (case gpu_free gpu ptr g of
        (None, g') \<Rightarrow> kv_free_ptrs gpu ptrs first_error g'
      | (Some e, g') \<Rightarrow>
          kv_free_ptrs gpu ptrs (if first_error = None then Some e else first_error) g')"

definition kv_release ::
  "'g gpu_backend \<Rightarrow> kv_pool \<Rightarrow> 'g \<Rightarrow> (string option \<times> 'g) \<times> kv_pool" where
  "kv_release gpu p g =
    (kv_free_ptrs gpu (concat (map (\<lambda>l. [lp_k_pool l, lp_v_pool l]) (kp_layers p))) None g,
     p\<lparr> kp_layers := [], kp_free_blocks := [], kp_ref_counts := [], kp_num_blocks := 0 \<rparr>)"

subsection \<open>The free list and the reference counts\<close>

definition kv_try_alloc_block :: "kv_pool \<Rightarrow> (nat option \<times> kv_pool) option" where
  "kv_try_alloc_block p =
    (case vec_pop (kp_free_blocks p) of
       None \<Rightarrow> Some (None, p)
     | Some (idx, rest) \<Rightarrow>
         if idx < length (kp_ref_counts p)
         then Some (Some idx, p\<lparr> kp_free_blocks := rest,
                                 kp_ref_counts := (kp_ref_counts p)[idx := 1] \<rparr>)
         else None)"

definition kv_alloc_block :: "kv_pool \<Rightarrow> ((string + nat) \<times> kv_pool) option" where
  "kv_alloc_block p =
    (case vec_pop (kp_free_blocks p) of
       None \<Rightarrow> Some (Inl ''KV cache exhausted: no free blocks'', p)
     | Some (idx, rest) \<Rightarrow>
         if idx < length (kp_ref_counts p)
         then Some (Inr idx, p\<lparr> kp_free_blocks := rest,
                                kp_ref_counts := (kp_ref_counts p)[idx := 1] \<rparr>)
         else None)"

definition kv_inc_ref :: "nat \<Rightarrow> kv_pool \<Rightarrow> kv_pool option" where
  "kv_inc_ref b p =
    (if b < length (kp_ref_counts p)
     then Some (p\<lparr> kp_ref_counts := (kp_ref_counts p)[b := u32_succ (kp_ref_counts p ! b)] \<rparr>)
     else None)"

definition kv_dec_ref :: "nat \<Rightarrow> kv_pool \<Rightarrow> (bool \<times> kv_pool) option" where
  "kv_dec_ref b p =
    (if length (kp_ref_counts p) \<le> b then None
     else if kp_ref_counts p ! b = 0 then Some (False, p)
     else
       (let counts = (kp_ref_counts p)[b := kp_ref_counts p ! b - 1] in
        if counts ! b = 0
        then Some (True, p\<lparr> kp_ref_counts := counts,
                            kp_free_blocks := vec_push (kp_free_blocks p) b \<rparr>)
        else Some (False, p\<lparr> kp_ref_counts := counts \<rparr>)))"

definition kv_free_block :: "nat \<Rightarrow> kv_pool \<Rightarrow> kv_pool option" where
  "kv_free_block b p = map_option snd (kv_dec_ref b p)"

definition kv_free_blocks :: "nat list \<Rightarrow> kv_pool \<Rightarrow> kv_pool option" where
  "kv_free_blocks block_table p = for_each kv_free_block block_table p"

definition kv_return_evicted_block :: "nat \<Rightarrow> kv_pool \<Rightarrow> kv_pool option" where
  "kv_return_evicted_block b p =
    (if length (kp_ref_counts p) \<le> b then None
     else if kp_ref_counts p ! b = 0 then Some p
     else
       (let counts = (kp_ref_counts p)[b := kp_ref_counts p ! b - 1] in
        if counts ! b = 0
        then Some (p\<lparr> kp_ref_counts := counts,
                      kp_free_blocks := vec_push (kp_free_blocks p) b \<rparr>)
        else Some (p\<lparr> kp_ref_counts := counts \<rparr>)))"

definition kv_ref_count :: "nat \<Rightarrow> kv_pool \<Rightarrow> nat option" where
  "kv_ref_count b p =
    (if b < length (kp_ref_counts p) then Some (kp_ref_counts p ! b) else None)"

definition kv_num_free_blocks :: "kv_pool \<Rightarrow> nat" where
  "kv_num_free_blocks p = length (kp_free_blocks p)"

subsection \<open>Addresses and host copies\<close>

text \<open>Layer indices in range are the callers' obligation; out of range Rust panics.\<close>

definition kv_k_cache_ptr :: "kv_pool \<Rightarrow> nat \<Rightarrow> nat \<Rightarrow> nat" where
  "kv_k_cache_ptr p i b = lp_k_pool (kp_layers p ! i) + b * lp_k_block_stride (kp_layers p ! i)"

definition kv_v_cache_ptr :: "kv_pool \<Rightarrow> nat \<Rightarrow> nat \<Rightarrow> nat" where
  "kv_v_cache_ptr p i b = lp_v_pool (kp_layers p ! i) + b * lp_v_block_stride (kp_layers p ! i)"

fun kv_fill_layers ::
  "'g gpu_backend \<Rightarrow> byte \<Rightarrow> nat \<Rightarrow> nat \<Rightarrow> layer_pool list \<Rightarrow> 'g \<Rightarrow> string + 'g" where
  "kv_fill_layers gpu v b stream [] g = Inr g"
| "kv_fill_layers gpu v b stream (l # ls) g =
     (case gpu_memset_async gpu (lp_k_pool l + b * lp_k_block_stride l) v
             (lp_k_block_stride l) stream g of
        Inl e \<Rightarrow> Inl e
      | Inr g1 \<Rightarrow>
          (case gpu_memset_async gpu (lp_v_pool l + b * lp_v_block_stride l) v
                  (lp_v_block_stride l) stream g1 of
             Inl e \<Rightarrow> Inl e
           | Inr g2 \<Rightarrow> kv_fill_layers gpu v b stream ls g2))"

definition kv_zero_block :: "'g gpu_backend \<Rightarrow> nat \<Rightarrow> nat \<Rightarrow> kv_pool \<Rightarrow> 'g \<Rightarrow> string + 'g" where
  "kv_zero_block gpu b stream p g = kv_fill_layers gpu 0 b stream (kp_layers p) g"

definition kv_poison_block :: "'g gpu_backend \<Rightarrow> nat \<Rightarrow> nat \<Rightarrow> kv_pool \<Rightarrow> 'g \<Rightarrow> string + 'g" where
  "kv_poison_block gpu b stream p g = kv_fill_layers gpu 0xFF b stream (kp_layers p) g"

definition kv_read_block ::
  "'g gpu_backend \<Rightarrow> kv_pool \<Rightarrow> nat \<Rightarrow> nat \<Rightarrow> 'g \<Rightarrow> string + (byte list \<times> byte list)" where
  "kv_read_block gpu p i b g =
    (case gpu_copy_d2h gpu (kv_k_cache_ptr p i b) (lp_k_block_stride (kp_layers p ! i)) g of
       Inl e \<Rightarrow> Inl e
     | Inr k_data \<Rightarrow>
         (case gpu_copy_d2h gpu (kv_v_cache_ptr p i b) (lp_v_block_stride (kp_layers p ! i)) g of
            Inl e \<Rightarrow> Inl e
          | Inr v_data \<Rightarrow> Inr (k_data, v_data)))"

definition kv_write_block ::
  "'g gpu_backend \<Rightarrow> kv_pool \<Rightarrow> nat \<Rightarrow> nat \<Rightarrow> byte list \<Rightarrow> byte list \<Rightarrow> 'g \<Rightarrow> string + 'g" where
  "kv_write_block gpu p i b k_data v_data g =
    (case gpu_copy_h2d gpu k_data (kv_k_cache_ptr p i b) g of
       Inl e \<Rightarrow> Inl e
     | Inr g1 \<Rightarrow> gpu_copy_h2d gpu v_data (kv_v_cache_ptr p i b) g1)"

subsection \<open>The pool invariant and the ledger contract\<close>

definition kv_inv :: "kv_pool \<Rightarrow> bool" where
  "kv_inv p \<longleftrightarrow> length (kp_ref_counts p) = kp_num_blocks p
     \<and> distinct (kp_free_blocks p)
     \<and> (\<forall>b. b \<in> set (kp_free_blocks p) \<longleftrightarrow> b < kp_num_blocks p \<and> kp_ref_counts p ! b = 0)"

lemma kv_invI [intro?]:
  assumes "length (kp_ref_counts p) = kp_num_blocks p" and "distinct (kp_free_blocks p)"
    and "\<And>b. b \<in> set (kp_free_blocks p) \<longleftrightarrow> b < kp_num_blocks p \<and> kp_ref_counts p ! b = 0"
  shows "kv_inv p"
  using assms by (simp add: kv_inv_def)

lemma kv_inv_length: "kv_inv p \<Longrightarrow> length (kp_ref_counts p) = kp_num_blocks p"
  by (simp add: kv_inv_def)

lemma kv_inv_distinct: "kv_inv p \<Longrightarrow> distinct (kp_free_blocks p)"
  by (simp add: kv_inv_def)

lemma kv_inv_free:
  "kv_inv p \<Longrightarrow> b \<in> set (kp_free_blocks p) \<longleftrightarrow> b < kp_num_blocks p \<and> kp_ref_counts p ! b = 0"
  by (simp add: kv_inv_def)

definition kv_cnt :: "kv_pool \<Rightarrow> nat \<Rightarrow> nat" where
  "kv_cnt p b = (if b < length (kp_ref_counts p) then kp_ref_counts p ! b else 0)"

definition kv_acquire :: "kv_pool \<Rightarrow> (nat \<times> kv_pool) option" where
  "kv_acquire p =
    (case kv_try_alloc_block p of Some (Some b, p') \<Rightarrow> Some (b, p') | _ \<Rightarrow> None)"

lemma kv_alloc_block_try:
  "kv_alloc_block p = (case kv_try_alloc_block p of
     None \<Rightarrow> None
   | Some (None, p') \<Rightarrow> Some (Inl ''KV cache exhausted: no free blocks'', p')
   | Some (Some b, p') \<Rightarrow> Some (Inr b, p'))"
  by (simp add: kv_alloc_block_def kv_try_alloc_block_def split: option.splits prod.splits)

lemma kv_return_evicted_eq: "kv_return_evicted_block b p = kv_free_block b p"
  by (simp add: kv_return_evicted_block_def kv_free_block_def kv_dec_ref_def Let_def)

lemma kv_acquire_cases:
  "kv_acquire p = (case vec_pop (kp_free_blocks p) of
     None \<Rightarrow> None
   | Some (idx, rest) \<Rightarrow> if idx < length (kp_ref_counts p)
       then Some (idx, p\<lparr> kp_free_blocks := rest,
                          kp_ref_counts := (kp_ref_counts p)[idx := 1] \<rparr>) else None)"
  by (simp add: kv_acquire_def kv_try_alloc_block_def split: option.splits prod.splits)

lemma kv_pop_valid:
  assumes "kv_inv p" and "vec_pop (kp_free_blocks p) = Some (idx, rest)"
  shows "idx < length (kp_ref_counts p)"
proof -
  from assms(2) have "idx \<in> set (kp_free_blocks p)" by (simp add: vec_pop_Some)
  then show ?thesis using assms(1) by (simp add: kv_inv_free kv_inv_length)
qed

lemma kv_try_alloc_total:
  assumes "kv_inv p"
  shows "kv_try_alloc_block p =
     (case kv_acquire p of None \<Rightarrow> Some (None, p) | Some (b, p') \<Rightarrow> Some (Some b, p'))"
  using kv_pop_valid [OF assms]
  by (simp add: kv_acquire_def kv_try_alloc_block_def split: option.split prod.split)

lemma kv_acquire_law:
  assumes "kv_inv p" and "kv_acquire p = Some (b, p')"
  shows "kv_inv p' \<and> kp_num_blocks p' = kp_num_blocks p \<and> b < kp_num_blocks p
       \<and> kv_cnt p b = 0 \<and> kv_cnt p' = (kv_cnt p)(b := 1)"
proof -
  from assms(2) obtain rest where pop: "vec_pop (kp_free_blocks p) = Some (b, rest)"
    and b: "b < length (kp_ref_counts p)"
    and p': "p' = p\<lparr> kp_free_blocks := rest, kp_ref_counts := (kp_ref_counts p)[b := 1] \<rparr>"
    by (auto simp: kv_acquire_cases split: option.splits if_splits)
  then have free: "kp_free_blocks p = rest @ [b]" by (simp add: vec_pop_Some)
  have len: "length (kp_ref_counts p) = kp_num_blocks p" by (rule kv_inv_length [OF assms(1)])
  have d: "b \<notin> set rest" "distinct rest" using kv_inv_distinct [OF assms(1)] free by auto
  have mem: "x \<in> set rest \<or> x = b \<longleftrightarrow> x < kp_num_blocks p \<and> kp_ref_counts p ! x = 0" for x
    using kv_inv_free [OF assms(1), of x] free by auto
  have b0: "kp_ref_counts p ! b = 0" using mem [of b] by blast
  have "kv_inv p'"
  proof
    fix x
    show "x \<in> set (kp_free_blocks p') \<longleftrightarrow> x < kp_num_blocks p' \<and> kp_ref_counts p' ! x = 0"
      using mem [of x] d(1) b by (cases "x = b") (simp_all add: p')
  qed (simp_all add: p' len d)
  moreover have "kv_cnt p' = (kv_cnt p)(b := 1)"
    using b by (simp add: kv_cnt_def p' fun_eq_iff nth_list_update)
  ultimately show ?thesis using b b0 len by (simp add: kv_cnt_def p')
qed

lemma kv_acquire_none:
  assumes "kv_inv p" and "kv_acquire p = None" and "b < kp_num_blocks p"
  shows "0 < kv_cnt p b"
proof -
  have "vec_pop (kp_free_blocks p) = None"
    using assms(2) kv_pop_valid [OF assms(1)]
    by (auto simp: kv_acquire_cases split: option.splits if_splits)
  then show ?thesis
    using kv_inv_free [OF assms(1), of b] kv_inv_length [OF assms(1)] assms(3)
    by (simp add: kv_cnt_def)
qed

lemma kv_set_count_inv:
  assumes "kv_inv p" and "b < length (kp_ref_counts p)" and "0 < kp_ref_counts p ! b" and "0 < n"
  shows "kv_inv (p\<lparr> kp_ref_counts := (kp_ref_counts p)[b := n] \<rparr>)"
proof
  fix x
  show "x \<in> set (kp_free_blocks (p\<lparr> kp_ref_counts := (kp_ref_counts p)[b := n] \<rparr>)) \<longleftrightarrow>
     x < kp_num_blocks (p\<lparr> kp_ref_counts := (kp_ref_counts p)[b := n] \<rparr>)
     \<and> kp_ref_counts (p\<lparr> kp_ref_counts := (kp_ref_counts p)[b := n] \<rparr>) ! x = 0"
    using kv_inv_free [OF assms(1), of x] assms(2-4) by (cases "x = b") simp_all
qed (simp_all add: assms(1) kv_inv_length kv_inv_distinct)

lemma kv_cnt_update:
  "b < length (kp_ref_counts p) \<Longrightarrow> kp_ref_counts q = (kp_ref_counts p)[b := n] \<Longrightarrow>
   kv_cnt q = (kv_cnt p)(b := n)"
  by (simp add: kv_cnt_def fun_eq_iff nth_list_update)

lemma kv_cnt_pos:
  "0 < kv_cnt p b \<Longrightarrow> b < length (kp_ref_counts p) \<and> kp_ref_counts p ! b = kv_cnt p b"
  by (simp add: kv_cnt_def split: if_splits)

lemma kv_retain_law:
  assumes "kv_inv p" and "0 < kv_cnt p b" and "kv_cnt p b < U32_MAX"
  shows "\<exists>p'. kv_inc_ref b p = Some p' \<and> kv_inv p' \<and> kp_num_blocks p' = kp_num_blocks p
           \<and> kv_cnt p' = (kv_cnt p)(b := Suc (kv_cnt p b))"
proof -
  have b: "b < length (kp_ref_counts p)" "kp_ref_counts p ! b = kv_cnt p b"
    using kv_cnt_pos [OF assms(2)] by auto
  let ?p' = "p\<lparr> kp_ref_counts := (kp_ref_counts p)[b := Suc (kv_cnt p b)] \<rparr>"
  have "kv_inc_ref b p = Some ?p'" using b assms(3) by (simp add: kv_inc_ref_def)
  moreover have "kv_inv ?p'" using kv_set_count_inv [OF assms(1) b(1)] b(2) assms(2) by simp
  moreover have "kv_cnt ?p' = (kv_cnt p)(b := Suc (kv_cnt p b))"
    by (rule kv_cnt_update [OF b(1)]) simp
  ultimately show ?thesis by simp
qed

lemma kv_push_free_inv:
  assumes "kv_inv p" and "b < length (kp_ref_counts p)" and "0 < kp_ref_counts p ! b"
  shows "kv_inv (p\<lparr> kp_ref_counts := (kp_ref_counts p)[b := 0],
                    kp_free_blocks := vec_push (kp_free_blocks p) b \<rparr>)" (is "kv_inv ?q")
proof
  fix x
  show "x \<in> set (kp_free_blocks ?q) \<longleftrightarrow> x < kp_num_blocks ?q \<and> kp_ref_counts ?q ! x = 0"
    using kv_inv_free [OF assms(1), of x] kv_inv_length [OF assms(1)] assms(2)
    by (cases "x = b") simp_all
  show "distinct (kp_free_blocks ?q)"
    using kv_inv_free [OF assms(1), of b] kv_inv_distinct [OF assms(1)] assms(3) by simp
qed (simp add: assms(1) kv_inv_length)

lemma kv_discard_law:
  assumes "kv_inv p" and "0 < kv_cnt p b"
  shows "\<exists>p'. kv_dec_ref b p = Some (kv_cnt p b = 1, p') \<and> kv_inv p'
           \<and> kp_num_blocks p' = kp_num_blocks p \<and> kv_cnt p' = (kv_cnt p)(b := kv_cnt p b - 1)"
proof -
  have b: "b < length (kp_ref_counts p)" "kp_ref_counts p ! b = kv_cnt p b"
    using kv_cnt_pos [OF assms(2)] by auto
  show ?thesis
  proof (cases "kv_cnt p b = 1")
    case True
    let ?q = "p\<lparr> kp_ref_counts := (kp_ref_counts p)[b := 0],
                 kp_free_blocks := vec_push (kp_free_blocks p) b \<rparr>"
    have "kv_dec_ref b p = Some (True, ?q)" using b True by (simp add: kv_dec_ref_def)
    moreover have "kv_inv ?q" using kv_push_free_inv [OF assms(1) b(1)] b(2) True by simp
    moreover have "kv_cnt ?q = (kv_cnt p)(b := 0)" by (rule kv_cnt_update [OF b(1)]) simp
    ultimately show ?thesis using True by simp
  next
    case False
    let ?q = "p\<lparr> kp_ref_counts := (kp_ref_counts p)[b := kv_cnt p b - 1] \<rparr>"
    have "kv_dec_ref b p = Some (False, ?q)"
      using b False assms(2) by (simp add: kv_dec_ref_def)
    moreover have "kv_inv ?q"
      using kv_set_count_inv [OF assms(1) b(1)] b(2) False assms(2) by simp
    moreover have "kv_cnt ?q = (kv_cnt p)(b := kv_cnt p b - 1)"
      by (rule kv_cnt_update [OF b(1)]) simp
    ultimately show ?thesis using False by simp
  qed
qed

interpretation kv: refcount_pool kv_cnt kp_num_blocks kv_inv kv_acquire kv_inc_ref kv_dec_ref
proof unfold_locales
  fix s b
  assume "kv_inv s" and "kp_num_blocks s \<le> b"
  then show "kv_cnt s b = 0" by (simp add: kv_cnt_def kv_inv_length)
qed (fact kv_acquire_law kv_acquire_none kv_retain_law kv_discard_law)+

subsection \<open>Properties of the pool\<close>

lemma kv_alloc_layers_spec:
  "kv_alloc_layers gpu c n is g = Inr (ls, g') \<Longrightarrow>
   map lp_k_block_stride ls = map (k_block_bytes_for_layer c) is
   \<and> map lp_v_block_stride ls = map (v_block_bytes_for_layer c) is
   \<and> map lp_dtype ls = map (dtype_for_layer c) is"
  by (induction gpu c n "is" g arbitrary: ls g' rule: kv_alloc_layers.induct)
    (auto simp: Let_def split: sum.splits prod.splits)

lemma kv_new_inv:
  assumes "n < 4294967296"
  shows "kv_inv \<lparr> kp_layers = ls, kp_num_blocks = n, kp_free_blocks = rev [0..<n mod 4294967296],
             kp_ref_counts = replicate n 0, kp_config = c \<rparr>"
  using assms by (intro kv_invI) auto

text \<open>C1: allocation never panics and never hands out a block in use: it takes a block whose count
  is zero and sets it to one, leaving every other count alone, and it reports exhaustion only
  when every block of the pool is referenced.\<close>

theorem kv_alloc_fresh:
  assumes "kv_inv p"
  shows "(\<exists>b p'. kv_try_alloc_block p = Some (Some b, p') \<and> kv_alloc_block p = Some (Inr b, p')
            \<and> kv_inv p' \<and> b < kp_num_blocks p \<and> kv_cnt p b = 0 \<and> kv_cnt p' = (kv_cnt p)(b := 1))
       \<or> (kv_try_alloc_block p = Some (None, p)
            \<and> kv_alloc_block p = Some (Inl ''KV cache exhausted: no free blocks'', p)
            \<and> (\<forall>b < kp_num_blocks p. 0 < kv_cnt p b))"
proof (cases "kv_acquire p")
  case None
  then show ?thesis
    using kv_acquire_none [OF assms] by (simp add: kv_alloc_block_try kv_try_alloc_total [OF assms])
next
  case (Some r)
  then show ?thesis
    using kv_acquire_law [OF assms, of "fst r" "snd r"]
    by (cases r) (simp add: kv_alloc_block_try kv_try_alloc_total [OF assms])
qed

definition small_pool :: kv_pool where
  "small_pool = \<lparr> kp_layers = [], kp_num_blocks = 3, kp_free_blocks = [2],
     kp_ref_counts = [1, 2, 0], kp_config = example_config \<rparr>"

lemma small_pool_inv: "kv_inv small_pool"
proof
  fix b
  show "b \<in> set (kp_free_blocks small_pool)
      \<longleftrightarrow> b < kp_num_blocks small_pool \<and> kp_ref_counts small_pool ! b = 0"
    by (auto simp: small_pool_def nth_Cons' less_Suc_eq numeral_3_eq_3)
qed (simp_all add: small_pool_def)

theorem kv_alloc_fresh_witness:
  "kv_inv small_pool \<and> kv_cnt small_pool 2 = 0
   \<and> (\<exists>p'. kv_try_alloc_block small_pool = Some (Some 2, p') \<and> kv_inv p')"
  using kv_alloc_fresh [OF small_pool_inv] small_pool_inv
  by (auto simp: kv_try_alloc_block_def small_pool_def vec_pop_def kv_cnt_def)

text \<open>C2: dropping a reference to a block of the pool never panics; it decrements the count by one
  and appends the block to the free list exactly on the step from one to zero, does nothing at
  zero, keeps the invariant, and returning an evicted block does the same.\<close>

theorem kv_dec_ref_frees_once:
  assumes "kv_inv p" and "b < kp_num_blocks p"
  shows "\<exists>p'. kv_dec_ref b p = Some (kv_cnt p b = 1, p')
           \<and> kv_return_evicted_block b p = Some p' \<and> kv_inv p'
           \<and> kv_cnt p' = (kv_cnt p)(b := kv_cnt p b - 1)
           \<and> kp_free_blocks p' =
               (if kv_cnt p b = 1 then kp_free_blocks p @ [b] else kp_free_blocks p)"
proof (cases "kv_cnt p b = 0")
  case True
  then have "kv_dec_ref b p = Some (False, p)"
    using assms by (simp add: kv_dec_ref_def kv_cnt_def kv_inv_length)
  with True assms show ?thesis by (auto simp: kv_return_evicted_eq kv_free_block_def)
next
  case False
  then obtain p' where p': "kv_dec_ref b p = Some (kv_cnt p b = 1, p')" "kv_inv p'"
      "kv_cnt p' = (kv_cnt p)(b := kv_cnt p b - 1)"
    using kv_discard_law [OF assms(1)] by blast
  have "kp_free_blocks p' =
      (if kv_cnt p b = 1 then kp_free_blocks p @ [b] else kp_free_blocks p)"
    using p'(1) False assms
    by (auto simp: kv_dec_ref_def kv_cnt_def Let_def vec_push_def kv_inv_length split: if_splits)
  with p' show ?thesis by (simp add: kv_return_evicted_eq kv_free_block_def)
qed

theorem kv_dec_ref_frees_once_witness:
  "kv_inv small_pool \<and> 0 < kp_num_blocks small_pool
   \<and> (\<exists>p'. kv_dec_ref 0 small_pool = Some (True, p') \<and> kp_free_blocks p' = [2, 0])"
proof -
  have n: "0 < kp_num_blocks small_pool" by (simp add: small_pool_def)
  have c: "kv_cnt small_pool 0 = 1" "kp_free_blocks small_pool = [2]"
    by (simp_all add: kv_cnt_def small_pool_def)
  from kv_dec_ref_frees_once [OF small_pool_inv n] c
  show ?thesis using small_pool_inv n by auto
qed

text \<open>a freshly built pool has one K and one V pool per attention layer with that layer's own
  block strides and format, and for fewer than 2^32 blocks every block starts free with count zero
  and the invariant holds.\<close>

theorem kv_new_ok:
  assumes "kv_new gpu c n g = Inr (p, g')" and "n < 4294967296"
  shows "kv_inv p \<and> kp_num_blocks p = n \<and> kv_num_free_blocks p = n \<and> (\<forall>b. kv_cnt p b = 0)
       \<and> length (kp_layers p) = cfg_num_layers c
       \<and> (\<forall>i < cfg_num_layers c. lp_k_block_stride (kp_layers p ! i) = k_block_bytes_for_layer c i
            \<and> lp_v_block_stride (kp_layers p ! i) = v_block_bytes_for_layer c i
            \<and> lp_dtype (kp_layers p ! i) = dtype_for_layer c i)"
proof -
  from assms(1) obtain ls where ls: "kv_alloc_layers gpu c n [0..<cfg_num_layers c] g = Inr (ls, g')"
    and p: "p = \<lparr> kp_layers = ls, kp_num_blocks = n, kp_free_blocks = rev [0..<n mod 4294967296],
             kp_ref_counts = replicate n 0, kp_config = c \<rparr>"
    by (auto simp: kv_new_def split: sum.splits prod.splits)
  note spec = kv_alloc_layers_spec [OF ls]
  have len: "length ls = cfg_num_layers c" using spec by (metis length_map length_upt diff_zero)
  have "lp_k_block_stride (ls ! i) = k_block_bytes_for_layer c i
      \<and> lp_v_block_stride (ls ! i) = v_block_bytes_for_layer c i
      \<and> lp_dtype (ls ! i) = dtype_for_layer c i" if "i < cfg_num_layers c" for i
    using spec len that by (metis nth_map nth_upt length_upt diff_zero add_0)
  moreover have "kv_inv p" using kv_new_inv [of n ls c] assms(2) by (simp add: p)
  ultimately show ?thesis
    using assms(2) len by (simp add: p kv_num_free_blocks_def kv_cnt_def)
qed

definition bump_gpu :: "nat gpu_backend" where
  "bump_gpu = \<lparr> gpu_alloc = (\<lambda>n g. Inr (g, g + n)), gpu_free = (\<lambda>_ g. (None, g)),
     gpu_memset_async = (\<lambda>_ _ _ _ g. Inr g), gpu_copy_d2h = (\<lambda>_ n _. Inr (replicate n 0)),
     gpu_copy_h2d = (\<lambda>_ _ g. Inr g) \<rparr>"

theorem kv_new_ok_witness:
  "(4::nat) < 4294967296
   \<and> (\<exists>p g'. kv_new bump_gpu example_config 4 0 = Inr (p, g') \<and> kv_inv p \<and> kv_num_free_blocks p = 4)"
proof -
  obtain p g' where p: "kv_new bump_gpu example_config 4 0 = Inr (p, g')"
    by (simp add: kv_new_def bump_gpu_def example_config_def Let_def upt_rec)
  moreover have "(4::nat) < 4294967296" by simp
  ultimately show ?thesis using kv_new_ok [OF p] by blast
qed

lemma strided_blocks:
  fixes b b' n stride base :: nat
  assumes "b < n"
  shows "base + b * stride + stride \<le> base + n * stride"
    and "b < b' \<Longrightarrow> base + b * stride + stride \<le> base + b' * stride"
proof -
  have "Suc b * stride \<le> n * stride" using assms by (intro mult_le_mono1) simp
  then show "base + b * stride + stride \<le> base + n * stride" by simp
  assume "b < b'"
  then have "Suc b * stride \<le> b' * stride" by (intro mult_le_mono1) simp
  then show "base + b * stride + stride \<le> base + b' * stride" by simp
qed

text \<open>The K bytes of two different blocks of a layer never overlap, and every block lies inside
  the layer's pool; the same holds on the V side.\<close>

theorem kv_block_ranges_disjoint:
  assumes "b < n" and "b < b'"
  shows "kv_k_cache_ptr p i b + lp_k_block_stride (kp_layers p ! i) \<le> kv_k_cache_ptr p i b'
       \<and> kv_v_cache_ptr p i b + lp_v_block_stride (kp_layers p ! i) \<le> kv_v_cache_ptr p i b'
       \<and> kv_k_cache_ptr p i b + lp_k_block_stride (kp_layers p ! i)
           \<le> lp_k_pool (kp_layers p ! i) + n * lp_k_block_stride (kp_layers p ! i)
       \<and> kv_v_cache_ptr p i b + lp_v_block_stride (kp_layers p ! i)
           \<le> lp_v_pool (kp_layers p ! i) + n * lp_v_block_stride (kp_layers p ! i)"
  unfolding kv_k_cache_ptr_def kv_v_cache_ptr_def
  using strided_blocks [OF assms(1)] assms(2) by blast

theorem kv_block_ranges_disjoint_witness:
  "\<exists>p g'. kv_new bump_gpu example_config 4 0 = Inr (p, g')
     \<and> kv_k_cache_ptr p 0 1 + 4096 \<le> kv_k_cache_ptr p 0 3"
proof -
  obtain p g' where p: "kv_new bump_gpu example_config 4 0 = Inr (p, g')"
    by (simp add: kv_new_def bump_gpu_def example_config_def Let_def upt_rec)
  from p have "lp_k_block_stride (kp_layers p ! 0) = 4096"
    by (auto simp: kv_new_def bump_gpu_def example_config_def Let_def upt_rec k_block_bytes_for_layer_def
        dims_for_layer_def dtype_for_layer_def block_bytes_dims_def)
  with kv_block_ranges_disjoint [of 1 4 3 p 0] p show ?thesis by auto
qed

lemma kv_free_ptrs_state:
  "snd (kv_free_ptrs gpu ptrs e g) = fold (\<lambda>ptr g. snd (gpu_free gpu ptr g)) ptrs g"
  by (induction gpu ptrs e g rule: kv_free_ptrs.induct) (auto split: prod.split option.split)

lemma kv_free_ptrs_keeps_error: "fst (kv_free_ptrs gpu ptrs (Some e) g) = Some e"
  by (induction gpu ptrs "Some e" g rule: kv_free_ptrs.induct) (auto split: prod.split option.split)

text \<open>releasing the pool frees both device pools of every layer even after an error, reports the
  first error, and leaves a pool from which no block can be allocated.\<close>

theorem kv_release_frees_all:
  "snd (fst (kv_release gpu p g)) =
     fold (\<lambda>ptr g. snd (gpu_free gpu ptr g))
       (concat (map (\<lambda>l. [lp_k_pool l, lp_v_pool l]) (kp_layers p))) g
   \<and> kv_alloc_block (snd (kv_release gpu p g)) =
       Some (Inl ''KV cache exhausted: no free blocks'', snd (kv_release gpu p g))"
  by (simp add: kv_release_def kv_free_ptrs_state kv_alloc_block_def)

end
