(* ===== verification/Slot_Cache.thy ===== *)
theory Slot_Cache
  imports Group_Layout
begin

text \<open>
  The bookkeeping of the cascade's first tier (crates/storage/src/cascade_policy.rs): a fixed number
  of slots holding KV groups, a write plan that evicts the least recently used group, and the split
  of a read into hits and misses. The two \<open>expect\<close>s of \<open>plan_write\<close> are \<open>None\<close>.

  The contract is an LRU list of keys, oldest first, of at most the capacity: \<open>lru_write\<close>.
\<close>

subsection \<open>State and operations\<close>

record write_plan =
  wp_slot :: nat
  wp_flush_victim :: "(group_key \<times> nat) option"

record slot_cache =
  sk_cap :: nat
  sk_lookup :: "group_key \<rightharpoonup> nat"
  sk_slot_key :: "group_key option list"
  sk_free :: "nat list"
  sk_lru :: "nat list"

definition sk_new :: "nat \<Rightarrow> slot_cache option" where
  "sk_new cap = (if cap = 0 then None
     else Some \<lparr> sk_cap = cap, sk_lookup = Map.empty, sk_slot_key = replicate cap None,
                 sk_free = [0..<cap], sk_lru = [] \<rparr>)"

definition sk_move_to_back :: "nat \<Rightarrow> slot_cache \<Rightarrow> slot_cache" where
  "sk_move_to_back slot s = s\<lparr> sk_lru := remove1 slot (sk_lru s) @ [slot] \<rparr>"

definition sk_touch :: "nat \<Rightarrow> slot_cache \<Rightarrow> slot_cache" where
  "sk_touch slot s = sk_move_to_back slot s"

definition sk_install :: "group_key \<Rightarrow> nat \<Rightarrow> slot_cache \<Rightarrow> slot_cache" where
  "sk_install key slot s = s\<lparr> sk_lookup := (sk_lookup s)(key \<mapsto> slot),
     sk_slot_key := (sk_slot_key s)[slot := Some key], sk_lru := sk_lru s @ [slot] \<rparr>"

definition sk_plan_write :: "group_key \<Rightarrow> slot_cache \<Rightarrow> (write_plan \<times> slot_cache) option" where
  "sk_plan_write key s =
    (case sk_lookup s key of
       Some slot \<Rightarrow> Some (\<lparr> wp_slot = slot, wp_flush_victim = None \<rparr>, sk_move_to_back slot s)
     | None \<Rightarrow>
         (case sk_free s of
            slot # rest \<Rightarrow>
              Some (\<lparr> wp_slot = slot, wp_flush_victim = None \<rparr>, sk_install key slot (s\<lparr> sk_free := rest \<rparr>))
          | [] \<Rightarrow>
              (case sk_lru s of
                 [] \<Rightarrow> None
               | victim_slot # rest \<Rightarrow>
                   (case sk_slot_key s ! victim_slot of
                      None \<Rightarrow> None
                    | Some victim_key \<Rightarrow>
                        Some (\<lparr> wp_slot = victim_slot, wp_flush_victim = Some (victim_key, victim_slot) \<rparr>,
                          sk_install key victim_slot
                            (s\<lparr> sk_lru := rest, sk_slot_key := (sk_slot_key s)[victim_slot := None],
                               sk_lookup := (sk_lookup s)(victim_key := None) \<rparr>))))))"

fun sk_split :: "(group_key \<rightharpoonup> nat) \<Rightarrow> nat \<Rightarrow> group_key list \<Rightarrow> (nat \<times> nat) list \<times> nat list" where
  "sk_split m i [] = ([], [])"
| "sk_split m i (k # ks) =
    (let (hits, misses) = sk_split m (Suc i) ks
     in case m k of Some slot \<Rightarrow> ((i, slot) # hits, misses) | None \<Rightarrow> (hits, i # misses))"

definition sk_plan_read :: "slot_cache \<Rightarrow> group_key list \<Rightarrow> (nat \<times> nat) list \<times> nat list" where
  "sk_plan_read s keys = sk_split (sk_lookup s) 0 keys"

definition sk_residents :: "slot_cache \<Rightarrow> (group_key \<times> nat) set" where
  "sk_residents s = {(k, slot). sk_lookup s k = Some slot}"

subsection \<open>Contract\<close>

definition lru_write :: "nat \<Rightarrow> 'k \<Rightarrow> 'k list \<Rightarrow> 'k option \<times> 'k list" where
  "lru_write cap k xs =
    (if k \<in> set xs then (None, remove1 k xs @ [k])
     else if length xs < cap then (None, xs @ [k])
     else (Some (hd xs), tl xs @ [k]))"

definition sk_key :: "slot_cache \<Rightarrow> nat \<Rightarrow> group_key" where
  "sk_key s slot = the (sk_slot_key s ! slot)"

definition sk_abs :: "slot_cache \<Rightarrow> group_key list" where
  "sk_abs s = map (sk_key s) (sk_lru s)"

definition sk_ok :: "slot_cache \<Rightarrow> bool" where
  "sk_ok s \<longleftrightarrow> length (sk_slot_key s) = sk_cap s \<and> 0 < sk_cap s
     \<and> distinct (sk_free s @ sk_lru s) \<and> set (sk_free s @ sk_lru s) = {..< sk_cap s}
     \<and> (\<forall>slot \<in> set (sk_free s). sk_slot_key s ! slot = None)
     \<and> (\<forall>slot \<in> set (sk_lru s). sk_slot_key s ! slot \<noteq> None)
     \<and> (\<forall>k slot. sk_lookup s k = Some slot \<longleftrightarrow> slot < sk_cap s \<and> sk_slot_key s ! slot = Some k)"

lemma sk_okD:
  assumes "sk_ok s"
  shows "length (sk_slot_key s) = sk_cap s" "0 < sk_cap s" "distinct (sk_free s)" "distinct (sk_lru s)"
    "set (sk_free s) \<inter> set (sk_lru s) = {}" "set (sk_free s) \<union> set (sk_lru s) = {..< sk_cap s}"
    "\<And>slot. slot \<in> set (sk_free s) \<Longrightarrow> sk_slot_key s ! slot = None"
    "\<And>slot. slot \<in> set (sk_lru s) \<Longrightarrow> sk_slot_key s ! slot = Some (sk_key s slot)"
    "\<And>k slot. sk_lookup s k = Some slot \<longleftrightarrow> slot < sk_cap s \<and> sk_slot_key s ! slot = Some k"
proof -
  note a = assms [unfolded sk_ok_def distinct_append set_append]
  show "length (sk_slot_key s) = sk_cap s" "0 < sk_cap s" "distinct (sk_free s)" "distinct (sk_lru s)"
    "set (sk_free s) \<inter> set (sk_lru s) = {}" "set (sk_free s) \<union> set (sk_lru s) = {..< sk_cap s}"
    using a by blast+
  show "sk_slot_key s ! slot = None" if "slot \<in> set (sk_free s)" for slot using a that by blast
  show "sk_slot_key s ! slot = Some (sk_key s slot)" if "slot \<in> set (sk_lru s)" for slot
    using a that unfolding sk_key_def by (metis option.collapse)
  show "sk_lookup s k = Some slot \<longleftrightarrow> slot < sk_cap s \<and> sk_slot_key s ! slot = Some k" for k slot
    using a by blast
qed

lemma sk_okI:
  assumes "length (sk_slot_key s) = sk_cap s" "0 < sk_cap s" "distinct (sk_free s)" "distinct (sk_lru s)"
    "set (sk_free s) \<inter> set (sk_lru s) = {}" "set (sk_free s) \<union> set (sk_lru s) = {..< sk_cap s}"
    "\<And>slot. slot \<in> set (sk_free s) \<Longrightarrow> sk_slot_key s ! slot = None"
    "\<And>slot. slot \<in> set (sk_lru s) \<Longrightarrow> sk_slot_key s ! slot \<noteq> None"
    "\<And>k slot. sk_lookup s k = Some slot \<longleftrightarrow> slot < sk_cap s \<and> sk_slot_key s ! slot = Some k"
  shows "sk_ok s"
  unfolding sk_ok_def distinct_append set_append by (intro conjI ballI allI assms) assumption+

lemma sk_lookup_lru:
  assumes "sk_ok s"
  shows "sk_lookup s k = Some slot \<longleftrightarrow> slot \<in> set (sk_lru s) \<and> sk_key s slot = k"
proof -
  note d = sk_okD [OF assms]
  have "slot \<in> set (sk_lru s)" if "slot < sk_cap s" "sk_slot_key s ! slot \<noteq> None"
  proof -
    have "slot \<in> set (sk_free s) \<union> set (sk_lru s)" unfolding d(6) using that(1) by simp
    then show ?thesis using d(7) that(2) by auto
  qed
  moreover have "slot < sk_cap s" if "slot \<in> set (sk_lru s)"
  proof -
    have "slot \<in> set (sk_free s) \<union> set (sk_lru s)" using that by simp
    then show ?thesis unfolding d(6) by simp
  qed
  ultimately show ?thesis unfolding d(9) using d(8) [of slot] by auto
qed

lemma sk_key_inj:
  assumes "sk_ok s"
  shows "inj_on (sk_key s) (set (sk_lru s))"
  using sk_lookup_lru [OF assms] by (intro inj_onI) (metis option.inject)

lemma sk_abs_distinct: "sk_ok s \<Longrightarrow> distinct (sk_abs s)"
  using sk_key_inj sk_okD(4) by (auto simp: sk_abs_def distinct_map)

lemma sk_abs_member: "sk_ok s \<Longrightarrow> k \<in> set (sk_abs s) \<longleftrightarrow> sk_lookup s k \<noteq> None"
proof -
  assume "sk_ok s"
  then have "(\<exists>slot. sk_lookup s k = Some slot) \<longleftrightarrow> k \<in> set (sk_abs s)"
    unfolding sk_lookup_lru [OF \<open>sk_ok s\<close>] by (auto simp: sk_abs_def)
  then show ?thesis by auto
qed

lemma sk_abs_length:
  assumes "sk_ok s"
  shows "length (sk_abs s) + length (sk_free s) = sk_cap s"
proof -
  note d = sk_okD [OF assms]
  have "card (set (sk_free s) \<union> set (sk_lru s)) = card (set (sk_free s)) + card (set (sk_lru s))"
    using d(5) by (intro card_Un_disjoint) auto
  then show ?thesis using d(3,4,6) by (simp add: sk_abs_def distinct_card)
qed

subsection \<open>The operations implement the contract\<close>

lemma remove1_map_inj:
  "inj_on f (set xs) \<Longrightarrow> x \<in> set xs \<Longrightarrow> remove1 (f x) (map f xs) = map f (remove1 x xs)"
  by (induction xs) (auto simp: inj_on_def)

lemma sk_new_ok: "sk_new cap = Some s \<Longrightarrow> sk_ok s \<and> sk_abs s = [] \<and> sk_cap s = cap"
  by (auto simp: sk_new_def sk_abs_def atLeast0LessThan split: if_splits intro!: sk_okI)

lemma sk_touch_spec:
  assumes "sk_ok s" and "sk_lookup s k = Some slot"
  shows "sk_ok (sk_touch slot s)" and "sk_abs (sk_touch slot s) = remove1 k (sk_abs s) @ [k]"
    and "sk_lookup (sk_touch slot s) = sk_lookup s" and "sk_cap (sk_touch slot s) = sk_cap s"
proof -
  note d = sk_okD [OF assms(1)]
  have m: "slot \<in> set (sk_lru s)" "sk_key s slot = k" using assms sk_lookup_lru by blast+
  have s: "set (remove1 slot (sk_lru s) @ [slot]) = set (sk_lru s)"
    using d(4) m(1) by (auto simp: set_remove1_eq)
  have di: "distinct (remove1 slot (sk_lru s) @ [slot])" using d(4) by (auto simp: distinct_remove1 set_remove1_eq)
  show "sk_ok (sk_touch slot s)"
    by (rule sk_okI; unfold sk_touch_def sk_move_to_back_def; use d s di m in auto)
  have "sk_key (sk_touch slot s) = sk_key s" by (simp add: fun_eq_iff sk_key_def sk_touch_def sk_move_to_back_def)
  then show "sk_abs (sk_touch slot s) = remove1 k (sk_abs s) @ [k]"
    using remove1_map_inj [OF sk_key_inj [OF assms(1)] m(1)] m(2)
    by (simp add: sk_abs_def sk_touch_def sk_move_to_back_def)
  show "sk_lookup (sk_touch slot s) = sk_lookup s" "sk_cap (sk_touch slot s) = sk_cap s"
    by (simp_all add: sk_touch_def sk_move_to_back_def)
qed

text \<open>Installing a key that is not resident in an unused slot.\<close>

lemma sk_install_spec:
  assumes ok: "sk_ok s" and key: "sk_lookup s key = None" and free: "sk_free s = slot # rest"
  defines "t \<equiv> sk_install key slot (s\<lparr> sk_free := rest \<rparr>)"
  shows "sk_ok t" and "sk_abs t = sk_abs s @ [key]" and "sk_lookup t = (sk_lookup s)(key \<mapsto> slot)" and "sk_cap t = sk_cap s"
proof -
  note d = sk_okD [OF ok]
  have sl: "slot < sk_cap s" "slot \<notin> set (sk_lru s)" "slot \<notin> set rest" using d(3,5,6) free by auto
  have t: "sk_lookup t = (sk_lookup s)(key \<mapsto> slot)" "sk_slot_key t = (sk_slot_key s)[slot := Some key]"
    "sk_lru t = sk_lru s @ [slot]" "sk_free t = rest" "sk_cap t = sk_cap s"
    by (simp_all add: t_def sk_install_def)
  have nokey: "sk_slot_key s ! sl \<noteq> Some key" if "sl < sk_cap s" for sl using key d(9) that by (metis option.distinct(1))
  show "sk_ok t"
  proof (rule sk_okI)
    show "set (sk_free t) \<union> set (sk_lru t) = {..< sk_cap t}" using d(6) free unfolding t by auto
    show "sk_slot_key t ! x = None" if "x \<in> set (sk_free t)" for x
      using d(7) [of x] sl that free unfolding t by (cases "x = slot") auto
    show "sk_slot_key t ! x \<noteq> None" if "x \<in> set (sk_lru t)" for x
      using d(8) [of x] d(1) sl that unfolding t by (cases "x = slot") auto
    show "sk_lookup t k = Some x \<longleftrightarrow> x < sk_cap t \<and> sk_slot_key t ! x = Some k" for k x
      using d(1,9) sl nokey d(7) [of slot] free unfolding t by (cases "x = slot"; cases "k = key") auto
  qed (use d free sl t in auto)
  have "sk_key t x = sk_key s x" if "slot \<noteq> x" for x using that by (simp add: sk_key_def t)
  then have "map (sk_key t) (sk_lru s) = map (sk_key s) (sk_lru s)"
    using sl(2) by (intro map_cong refl) metis
  moreover have "sk_key t slot = key" using d(1) sl(1) by (simp add: sk_key_def t)
  ultimately show "sk_abs t = sk_abs s @ [key]" by (simp add: sk_abs_def t)
  show "sk_lookup t = (sk_lookup s)(key \<mapsto> slot)" "sk_cap t = sk_cap s" by (simp_all add: t)
qed

text \<open>Evicting the oldest key leaves the state as if its slot were free.\<close>

lemma sk_evict_spec:
  assumes ok: "sk_ok s" and "sk_free s = []" and lru: "sk_lru s = slot # rest"
  defines "u \<equiv> s\<lparr> sk_lru := rest, sk_free := [slot], sk_slot_key := (sk_slot_key s)[slot := None],
                sk_lookup := (sk_lookup s)(sk_key s slot := None) \<rparr>"
  shows "sk_ok u" and "sk_abs s = sk_key s slot # sk_abs u"
proof -
  note d = sk_okD [OF ok]
  have sl: "slot < sk_cap s" "slot \<notin> set rest" using d(4,6) lru by auto
  have inj: "sk_key s x \<noteq> sk_key s slot" if "x \<in> set rest" for x
    using inj_onD [OF sk_key_inj [OF ok], of x slot] that lru sl(2) by auto
  show "sk_ok u"
  proof (rule sk_okI)
    show "set (sk_free u) \<union> set (sk_lru u) = {..< sk_cap u}" using d(6) lru assms(2) by (auto simp: u_def)
    show "sk_slot_key u ! x = None" if "x \<in> set (sk_free u)" for x using that d(1) sl by (simp add: u_def)
    show "sk_slot_key u ! x \<noteq> None" if "x \<in> set (sk_lru u)" for x
      using that d(8) [of x] sl lru by (cases "x = slot") (auto simp: u_def)
    show "sk_lookup u k = Some x \<longleftrightarrow> x < sk_cap u \<and> sk_slot_key u ! x = Some k" for k x
    proof (cases "x = slot")
      case True
      then show ?thesis using d(1) sl sk_lookup_lru [OF ok, of k slot] by (auto simp: u_def)
    next
      case False
      have "k \<noteq> sk_key s slot" if "x < sk_cap s" "sk_slot_key s ! x = Some k"
        using that False d(9) sk_lookup_lru [OF ok] by (metis option.inject d(8) lru list.set_intros(1))
      with False show ?thesis using d(9) by (auto simp: u_def)
    qed
  qed (use d lru sl in \<open>auto simp: u_def\<close>)
  have "sk_key u x = sk_key s x" if "slot \<noteq> x" for x using that by (simp add: sk_key_def u_def)
  then have "map (sk_key u) rest = map (sk_key s) rest"
    using sl(2) by (intro map_cong refl) metis
  then show "sk_abs s = sk_key s slot # sk_abs u" by (simp add: sk_abs_def lru u_def)
qed

definition write_ok :: "slot_cache \<Rightarrow> group_key \<Rightarrow> write_plan \<Rightarrow> slot_cache \<Rightarrow> bool" where
  "write_ok s key wp s' \<longleftrightarrow> sk_ok s' \<and> sk_cap s' = sk_cap s
     \<and> (map_option fst (wp_flush_victim wp), sk_abs s') = lru_write (sk_cap s) key (sk_abs s)
     \<and> sk_lookup s' key = Some (wp_slot wp)
     \<and> (\<forall>v slot. wp_flush_victim wp = Some (v, slot) \<longrightarrow> slot = wp_slot wp \<and> sk_lookup s v = Some slot)
     \<and> (\<forall>k. k \<noteq> key \<and> map_option fst (wp_flush_victim wp) \<noteq> Some k \<longrightarrow> sk_lookup s' k = sk_lookup s k)"

lemma sk_plan_write_ok:
  assumes ok: "sk_ok s"
  shows "\<exists>wp s'. sk_plan_write key s = Some (wp, s') \<and> write_ok s key wp s'"
proof (cases "sk_lookup s key")
  case (Some slot)
  have "key \<in> set (sk_abs s)" using Some sk_abs_member [OF ok] by simp
  moreover have "sk_plan_write key s = Some (\<lparr> wp_slot = slot, wp_flush_victim = None \<rparr>, sk_touch slot s)"
    using Some by (simp add: sk_plan_write_def sk_touch_def)
  ultimately show ?thesis using sk_touch_spec [OF ok Some] Some
    by (simp add: write_ok_def lru_write_def)
next
  case None
  then have new: "key \<notin> set (sk_abs s)" using sk_abs_member [OF ok] by simp
  show ?thesis
  proof (cases "sk_free s")
    case (Cons slot rest)
    have len: "length (sk_abs s) < sk_cap s" using sk_abs_length [OF ok] Cons by simp
    have "sk_plan_write key s = Some (\<lparr> wp_slot = slot, wp_flush_victim = None \<rparr>, sk_install key slot (s\<lparr> sk_free := rest \<rparr>))"
      using None Cons by (simp add: sk_plan_write_def)
    then show ?thesis using sk_install_spec [OF ok None Cons] new len
      by (simp add: write_ok_def lru_write_def)
  next
    case Nil
    note d = sk_okD [OF ok]
    have len: "length (sk_abs s) = sk_cap s" using sk_abs_length [OF ok] Nil by simp
    then obtain slot rest where lru: "sk_lru s = slot # rest" using d(2) by (cases "sk_lru s") (auto simp: sk_abs_def)
    define v where "v = sk_key s slot"
    have vk: "sk_slot_key s ! slot = Some v" using d(8) [of slot] lru by (simp add: v_def)
    have lv: "sk_lookup s v = Some slot" using sk_lookup_lru [OF ok] lru by (simp add: v_def)
    define u where "u = s\<lparr> sk_lru := rest, sk_free := [slot], sk_slot_key := (sk_slot_key s)[slot := None],
                sk_lookup := (sk_lookup s)(v := None) \<rparr>"
    note e = sk_evict_spec [OF ok Nil lru, folded v_def, folded u_def]
    have un: "sk_lookup u key = None" and uf: "sk_free u = slot # []" using None by (simp_all add: u_def)
    note i = sk_install_spec [OF e(1) un uf]
    define t where "t = sk_install key slot (u\<lparr> sk_free := [] \<rparr>)"
    have "sk_plan_write key s = Some (\<lparr> wp_slot = slot, wp_flush_victim = Some (v, slot) \<rparr>, t)"
      using None Nil lru vk by (simp add: sk_plan_write_def t_def u_def sk_install_def)
    moreover have "sk_lookup t = (sk_lookup s)(v := None, key \<mapsto> slot)" using i(3) by (simp add: t_def u_def)
    moreover have "sk_cap t = sk_cap s" using i(4) by (simp add: t_def u_def)
    ultimately show ?thesis using i(1,2) e(2) len new lv unfolding t_def [symmetric]
      by (simp add: write_ok_def lru_write_def)
  qed
qed

subsection \<open>Histories\<close>

datatype cache_op = CWrite group_key | CRead "group_key list"

text \<open>A read touches each hit, as the backend does after queueing its copy.\<close>

definition sk_step :: "cache_op \<Rightarrow> slot_cache \<Rightarrow> slot_cache option" where
  "sk_step c s = (case c of
     CWrite k \<Rightarrow> map_option snd (sk_plan_write k s)
   | CRead ks \<Rightarrow> Some (fold (\<lambda>(i, slot). sk_touch slot) (fst (sk_plan_read s ks)) s))"

definition lru_touch :: "'k \<Rightarrow> 'k list \<Rightarrow> 'k list" where
  "lru_touch k xs = (if k \<in> set xs then remove1 k xs @ [k] else xs)"

definition lru_step :: "nat \<Rightarrow> cache_op \<Rightarrow> group_key list \<Rightarrow> group_key list" where
  "lru_step cap c xs = (case c of CWrite k \<Rightarrow> snd (lru_write cap k xs) | CRead ks \<Rightarrow> fold lru_touch ks xs)"

lemma sk_split_touch:
  assumes "sk_ok s" and "sk_lookup s = m"
  shows "sk_ok (fold (\<lambda>(i, slot). sk_touch slot) (fst (sk_split m i ks)) s) \<and> sk_lookup (fold (\<lambda>(i, slot). sk_touch slot) (fst (sk_split m i ks)) s) = m \<and> sk_cap (fold (\<lambda>(i, slot). sk_touch slot) (fst (sk_split m i ks)) s) = sk_cap s
    \<and> sk_abs (fold (\<lambda>(i, slot). sk_touch slot) (fst (sk_split m i ks)) s) = fold lru_touch ks (sk_abs s)"
  using assms
proof (induction m i ks arbitrary: s rule: sk_split.induct)
  case (2 m i k ks)
  obtain hits misses where r: "sk_split m (Suc i) ks = (hits, misses)" by fastforce
  show ?case
  proof (cases "m k")
    case None
    then have "lru_touch k (sk_abs s) = sk_abs s" using sk_abs_member [OF 2(2)] 2(3) by (simp add: lru_touch_def)
    with 2(1) [OF 2(2,3)] None r show ?thesis by simp
  next
    case (Some slot)
    then have l: "sk_lookup s k = Some slot" using 2(3) by simp
    note t = sk_touch_spec [OF 2(2) l]
    have "lru_touch k (sk_abs s) = sk_abs (sk_touch slot s)"
      using sk_abs_member [OF 2(2)] l t(2) by (simp add: lru_touch_def)
    with 2(1) [OF t(1)] t(3,4) 2(3) Some r show ?thesis by simp
  qed
qed simp

lemma sk_step_refines:
  assumes "sk_ok s"
  shows "\<exists>s'. sk_step c s = Some s' \<and> sk_ok s' \<and> sk_cap s' = sk_cap s \<and> sk_abs s' = lru_step (sk_cap s) c (sk_abs s)"
proof (cases c)
  case (CWrite k)
  obtain wp s' where "sk_plan_write k s = Some (wp, s')" "write_ok s k wp s'" using sk_plan_write_ok [OF assms] by blast
  then have "sk_step c s = Some s'" "sk_ok s'" "sk_cap s' = sk_cap s" "sk_abs s' = lru_step (sk_cap s) c (sk_abs s)"
    using CWrite by (simp_all add: sk_step_def write_ok_def lru_step_def) (metis snd_conv)
  then show ?thesis by blast
next
  case (CRead ks)
  then show ?thesis using sk_split_touch [OF assms refl, of 0 ks]
    by (simp add: sk_step_def sk_plan_read_def lru_step_def)
qed

lemma sk_run_refines:
  "sk_ok s \<Longrightarrow> \<exists>s'. for_each sk_step ops s = Some s' \<and> sk_ok s' \<and> sk_cap s' = sk_cap s
     \<and> sk_abs s' = fold (lru_step (sk_cap s)) ops (sk_abs s)"
proof (induction ops arbitrary: s)
  case (Cons c ops)
  obtain s1 where s1: "sk_step c s = Some s1" "sk_ok s1" "sk_cap s1 = sk_cap s"
    "sk_abs s1 = lru_step (sk_cap s) c (sk_abs s)" using sk_step_refines [OF Cons.prems] by blast
  from Cons.IH [OF s1(2)] s1 show ?case by simp
qed simp

text \<open>C37: After any history of writes and touched reads on a fresh cache of at least one slot,
  nothing has panicked and the resident keys, oldest first, are those of an LRU list of that
  capacity. The next write is given the slot of its key; it names a victim exactly when the LRU
  list is full, the victim is the oldest key and its slot is the one reused, and every other
  resident group keeps its slot.\<close>

theorem slot_cache_is_lru:
  assumes "sk_new cap = Some s0"
  shows "\<exists>s wp s'. for_each sk_step ops s0 = Some s \<and> sk_abs s = fold (lru_step cap) ops []
    \<and> distinct (sk_abs s) \<and> length (sk_abs s) \<le> cap
    \<and> sk_plan_write key s = Some (wp, s')
    \<and> (map_option fst (wp_flush_victim wp), sk_abs s') = lru_write cap key (sk_abs s)
    \<and> sk_lookup s' key = Some (wp_slot wp)
    \<and> (\<forall>v slot. wp_flush_victim wp = Some (v, slot) \<longrightarrow> slot = wp_slot wp \<and> sk_lookup s v = Some slot)
    \<and> (\<forall>k. k \<noteq> key \<and> map_option fst (wp_flush_victim wp) \<noteq> Some k \<longrightarrow> sk_lookup s' k = sk_lookup s k)"
proof -
  have n: "sk_ok s0" "sk_abs s0 = []" "sk_cap s0 = cap" using sk_new_ok [OF assms] by simp_all
  obtain s where s: "for_each sk_step ops s0 = Some s" "sk_ok s" "sk_cap s = cap" "sk_abs s = fold (lru_step cap) ops []"
    using sk_run_refines [OF n(1)] n by metis
  obtain wp s' where w: "sk_plan_write key s = Some (wp, s')" "write_ok s key wp s'" using sk_plan_write_ok [OF s(2)] by blast
  show ?thesis
    using s w sk_abs_distinct [OF s(2)] sk_abs_length [OF s(2)] unfolding write_ok_def by fastforce
qed

lemma slot_cache_is_lru_witness:
  "let a = gk_new 0 0 0 KindK; b = gk_new 0 1 0 KindK; c = gk_new 0 2 0 KindK in
   \<exists>s0 s wp s'. sk_new 2 = Some s0 \<and> for_each sk_step [CWrite a, CWrite b, CRead [a]] s0 = Some s
     \<and> sk_plan_write c s = Some (wp, s') \<and> map_option fst (wp_flush_victim wp) = Some b \<and> sk_abs s' = [a, c]"
proof -
  let ?a = "gk_new 0 0 0 KindK" and ?b = "gk_new 0 1 0 KindK" and ?c = "gk_new 0 2 0 KindK"
  obtain s0 where n: "sk_new 2 = Some s0" by (simp add: sk_new_def)
  have l: "lru_write 2 ?c (fold (lru_step 2) [CWrite ?a, CWrite ?b, CRead [?a]] []) = (Some ?b, [?a, ?c])"
    by (simp add: lru_step_def lru_write_def lru_touch_def gk_new_def)
  obtain s wp s' where "for_each sk_step [CWrite ?a, CWrite ?b, CRead [?a]] s0 = Some s"
    "sk_abs s = fold (lru_step 2) [CWrite ?a, CWrite ?b, CRead [?a]] []"
    "sk_plan_write ?c s = Some (wp, s')"
    "(map_option fst (wp_flush_victim wp), sk_abs s') = lru_write 2 ?c (sk_abs s)"
    using slot_cache_is_lru [OF n, of "[CWrite ?a, CWrite ?b, CRead [?a]]" ?c] by blast
  with n l show ?thesis by auto
qed

end
