(* ===== verification/Pio.thy ===== *)
theory Pio
  imports Prelude
begin

text \<open>
  Positional file I/O (crates/storage/src/tier/pio.rs). A file is its bytes. One system call may
  transfer fewer bytes than asked: the \<open>i\<close>-th call of a loop is governed by \<open>sys i\<close>, where \<open>None\<close> is an
  I/O error and \<open>Some k\<close> lets at most \<open>k + 1\<close> bytes through, so a call transfers nothing only at the
  end of the file or for an empty buffer. The loops of the code are the recursive functions; the
  theorems show that the result does not depend on how the transfers were cut.
\<close>

datatype io_error = OsError | UnexpectedEof | WriteZero

type_synonym syscalls = "nat \<Rightarrow> nat option"

definition next_call :: "syscalls \<Rightarrow> syscalls" where
  "next_call sys = (\<lambda>i. sys (Suc i))"

text \<open>One \<open>read_at\<close>: the bytes at \<open>off\<close>, at most \<open>len\<close>.\<close>

definition read_at :: "nat option \<Rightarrow> byte list \<Rightarrow> nat \<Rightarrow> nat \<Rightarrow> io_error + byte list" where
  "read_at call f off len = (case call of None \<Rightarrow> Inl OsError
     | Some k \<Rightarrow> Inr (take (min len (Suc k)) (drop off f)))"

text \<open>The loop shared by \<open>read_exact_at\<close> and \<open>read_at_least_at\<close>: the bytes read until the buffer is
  full or a read returns nothing.\<close>

function read_fill :: "syscalls \<Rightarrow> byte list \<Rightarrow> nat \<Rightarrow> nat \<Rightarrow> io_error + byte list" where
  "read_fill sys f off want =
    (if want = 0 then Inr []
     else case read_at (sys 0) f off want of
            Inl e \<Rightarrow> Inl e
          | Inr [] \<Rightarrow> Inr []
          | Inr (b # bs) \<Rightarrow>
              (case read_fill (next_call sys) f (off + length (b # bs)) (want - length (b # bs)) of
                 Inl e \<Rightarrow> Inl e
               | Inr rest \<Rightarrow> Inr ((b # bs) @ rest)))"
  by pat_completeness auto
termination
  by (relation "measure (\<lambda>(sys, f, off, want). want)") auto

declare read_fill.simps [simp del]

definition read_exact_at :: "syscalls \<Rightarrow> byte list \<Rightarrow> nat \<Rightarrow> nat \<Rightarrow> io_error + byte list" where
  "read_exact_at sys f off len =
    (case read_fill sys f off len of
       Inl e \<Rightarrow> Inl e
     | Inr bs \<Rightarrow> if length bs < len then Inl UnexpectedEof else Inr bs)"

definition read_at_least_at :: "syscalls \<Rightarrow> byte list \<Rightarrow> nat \<Rightarrow> nat \<Rightarrow> nat \<Rightarrow> io_error + byte list" where
  "read_at_least_at sys f off len needed =
    (case read_fill sys f off len of
       Inl e \<Rightarrow> Inl e
     | Inr bs \<Rightarrow> if length bs < needed then Inl UnexpectedEof else Inr bs)"

text \<open>\<open>write_at\<close> stores the bytes it takes at \<open>off\<close>, filling a gap past the end with zeroes.
  \<open>Some 0\<close> here is a call that writes nothing.\<close>

definition poke :: "byte list \<Rightarrow> nat \<Rightarrow> byte list \<Rightarrow> byte list" where
  "poke f off bs = take off (f @ replicate (off - length f) 0) @ bs @ drop (off + length bs) f"

function write_all_at :: "syscalls \<Rightarrow> byte list \<Rightarrow> byte list \<Rightarrow> nat \<Rightarrow> io_error option \<times> byte list" where
  "write_all_at sys f buf off =
    (if buf = [] then (None, f)
     else case sys 0 of
            None \<Rightarrow> (Some OsError, f)
          | Some k \<Rightarrow>
              (if k = 0 then (Some WriteZero, f)
               else write_all_at (next_call sys) (poke f off (take k buf)) (drop k buf) (off + length (take k buf))))"
  by pat_completeness auto
termination
  by (relation "measure (\<lambda>(sys, f, buf, off). length buf)") auto

declare write_all_at.simps [simp del]

lemma read_fill_spec:
  "read_fill sys f off want = Inr (take want (drop off f))
   \<or> read_fill sys f off want = Inl OsError \<and> (\<exists>i. sys i = None)"
proof (induction sys f off want rule: read_fill.induct)
  case (1 sys f off want)
  show ?case
  proof (cases "want = 0 \<or> sys 0 = None")
    case True
    then show ?thesis by (auto simp: read_fill.simps [of sys f off want] read_at_def)
  next
    case False
    then obtain k where k: "sys 0 = Some k" "want \<noteq> 0" by auto
    define c where "c = take (min want (Suc k)) (drop off f)"
    have r: "read_at (sys 0) f off want = Inr c" by (simp add: read_at_def k c_def)
    show ?thesis
    proof (cases c)
      case Nil
      then have "drop off f = []" using k(2) by (auto simp: c_def)
      then show ?thesis using r Nil k(2) by (subst read_fill.simps) simp
    next
      case (Cons b bs)
      let ?n = "length (b # bs)"
      have n: "?n \<le> want" using Cons [symmetric] by (simp add: c_def)
      have pre: "b # bs = take ?n (drop off f)" using Cons [symmetric] by (simp add: c_def min_def)
      have IH: "read_fill (next_call sys) f (off + ?n) (want - ?n)
            = Inr (take (want - ?n) (drop (off + ?n) f))
          \<or> read_fill (next_call sys) f (off + ?n) (want - ?n) = Inl OsError \<and> (\<exists>i. next_call sys i = None)"
        by (rule 1 [OF k(2) r Cons])
      have "take want (drop off f) = take ?n (drop off f) @ take (want - ?n) (drop (off + ?n) f)"
        using n by (metis take_add drop_drop add.commute le_add_diff_inverse)
      then have e: "take want (drop off f) = (b # bs) @ take (want - ?n) (drop (off + ?n) f)" by (simp only: pre [symmetric])
      have "read_fill sys f off want = (case read_fill (next_call sys) f (off + ?n) (want - ?n) of
          Inl e \<Rightarrow> Inl e | Inr rest \<Rightarrow> Inr ((b # bs) @ rest))"
        using r Cons k(2) by (subst read_fill.simps) simp
      with IH e show ?thesis by (auto simp: next_call_def)
    qed
  qed
qed

lemma poke_append:
  assumes "off \<le> length f"
  shows "poke (poke f off (take k buf)) (off + length (take k buf)) (drop k buf) = poke f off buf"
proof -
  have l: "length (take k buf) + length (drop k buf) = length buf" by simp
  have "take off f @ take k buf @ drop k buf @ drop (off + (length (take k buf) + length (drop k buf))) f
      = take off f @ buf @ drop (off + length buf) f" unfolding l by simp
  then show ?thesis using assms by (simp add: poke_def ac_simps min_def)
qed

lemma poke_read: "off \<le> length f \<Longrightarrow> take (length buf) (drop off (poke f off buf)) = buf"
  by (simp add: poke_def)

lemma write_all_at_spec:
  "write_all_at sys f buf off = (None, poke f off buf) \<or> fst (write_all_at sys f buf off) \<noteq> None" if "off \<le> length f"
  using that
proof (induction sys f buf off rule: write_all_at.induct)
  case (1 sys f buf off)
  consider (empty) "buf = []" | (err) "buf \<noteq> []" "sys 0 = None \<or> sys 0 = Some 0"
    | (step) k where "buf \<noteq> []" "sys 0 = Some k" "0 < k" by (cases "sys 0") auto
  then show ?case
  proof cases
    case empty
    then show ?thesis using 1(2) by (subst (1 2) write_all_at.simps) (simp add: poke_def)
  next
    case err
    then show ?thesis by (subst (1 2) write_all_at.simps) auto
  next
    case step
    let ?f = "poke f off (take k buf)" and ?o = "off + length (take k buf)"
    have "?o \<le> length ?f" using 1(2) by (simp add: poke_def)
    then have "write_all_at (next_call sys) ?f (drop k buf) ?o = (None, poke ?f ?o (drop k buf))
        \<or> fst (write_all_at (next_call sys) ?f (drop k buf) ?o) \<noteq> None"
      using 1(1) [OF step(1,2)] step(3) by simp
    moreover have "write_all_at sys f buf off = write_all_at (next_call sys) ?f (drop k buf) ?o"
      using step by (subst write_all_at.simps) simp
    ultimately show ?thesis using poke_append [OF 1(2)] by simp
  qed
qed

text \<open>C38: However the system cuts the transfers, a write that reports success followed by an exact
  read of the same range gives the bytes back unless a system call fails; and a read of at least
  \<open>needed\<close> bytes gives all the file holds of the range, or an unexpected end exactly when the file
  holds fewer than \<open>needed\<close> of them.\<close>

theorem pio_write_read:
  assumes "off \<le> length f" and "write_all_at ws f buf off = (None, f')"
  shows "(read_exact_at rs f' off (length buf) = Inr buf \<or> read_exact_at rs f' off (length buf) = Inl OsError)
    \<and> ((\<forall>i. rs i \<noteq> None) \<longrightarrow> read_exact_at rs f' off (length buf) = Inr buf)
    \<and> ((\<forall>i. rs i \<noteq> None) \<longrightarrow> read_at_least_at rs f pos n needed
          = (if length (take n (drop pos f)) < needed then Inl UnexpectedEof else Inr (take n (drop pos f))))"
proof -
  have f': "f' = poke f off buf" using write_all_at_spec [OF assms(1), of ws buf] assms(2) by auto
  have t: "take (length buf) (drop off f') = buf" unfolding f' by (rule poke_read [OF assms(1)])
  have 1: "read_exact_at rs f' off (length buf) = Inr buf
      \<or> read_exact_at rs f' off (length buf) = Inl OsError \<and> (\<exists>i. rs i = None)"
    using read_fill_spec [of rs f' off "length buf"] t by (auto simp: read_exact_at_def)
  have 2: "read_at_least_at rs f pos n needed
          = (if length (take n (drop pos f)) < needed then Inl UnexpectedEof else Inr (take n (drop pos f)))"
    if "\<forall>i. rs i \<noteq> None"
    using read_fill_spec [of rs f pos n] that by (auto simp: read_at_least_at_def)
  show ?thesis using 1 2 by blast
qed

lemma pio_write_read_witness:
  "write_all_at (\<lambda>_. Some 2) [1, 2, 3, 4] [7, 8, 9] 1 = (None, [1, 7, 8, 9])
   \<and> read_exact_at (\<lambda>_. Some 0) [1, 7, 8, 9] 1 3 = Inr [7, 8, 9]"
proof -
  have w: "write_all_at (\<lambda>_. Some 2) [1, 2, 3, 4] [7, 8, 9] 1 = (None, [1, 7, 8, 9])"
    by (simp add: write_all_at.simps next_call_def poke_def numeral_2_eq_2)
  have "read_exact_at (\<lambda>_. Some 0) [1, 7, 8, 9] 1 (length [7, 8, 9 :: byte]) = Inr [7, 8, 9]"
    using pio_write_read [OF _ w] by simp
  with w show ?thesis by (simp add: numeral_3_eq_3)
qed

end
