(* ===== verification/Ngram_Cache.thy ===== *)
theory Ngram_Cache
  imports Pio
begin

text \<open>
  The NVMe-backed row cache of the n-gram embedding tables (crates/storage/src/ngram_cache.rs,
  ngram_cache_fault.rs): a CLOCK cache of rows in a pinned arena, filled by whole-block reads.

  The arena is the list of its slots' bytes; the backing files are their bytes, read by
  \<open>Pio.read_at_least_at\<close> under an arbitrary schedule of system calls per row. An empty slot
  (\<open>u64::MAX\<close> in \<open>slot_row\<close>) is \<open>None\<close>. Faults run in job order, as below four jobs or with the
  serial switch; the threaded path writes the same disjoint slots, and after a failure all slots
  of the batch are unmapped whichever of them were written. The scale arena, a parallel array
  filled by the same jobs, and the address arithmetic into pinned memory are not modelled.
\<close>

definition BLOCK :: nat where
  "BLOCK = 4096"

datatype ngram_error = RowOutOfRange | AllPinned | ReadFailed | NoSuchFile | ZeroGeometry | RowTooWide | NoShards

record ngram_segments =
  sg_bases :: "nat list"
  sg_shard_file :: "nat list"
  sg_rows_per :: nat

record ngram_cache =
  nc_base :: nat
  nc_segments :: "ngram_segments option"
  nc_stride :: nat
  nc_slots :: nat
  nc_rows_total :: nat
  nc_map :: "nat \<rightharpoonup> nat"
  nc_slot_row :: "nat option list"
  nc_refbit :: "bool list"
  nc_pinned :: "bool list"
  nc_hand :: nat
  nc_arena :: "byte list list"
  nc_hits :: nat
  nc_misses :: nat
  nc_evictions :: nat

definition nc_open_at :: "nat \<Rightarrow> nat \<Rightarrow> nat \<Rightarrow> nat \<Rightarrow> ngram_error + ngram_cache" where
  "nc_open_at base rows_total stride slots =
    (if stride = 0 \<or> slots = 0 then Inl ZeroGeometry
     else if BLOCK < stride then Inl RowTooWide
     else Inr \<lparr> nc_base = base, nc_segments = None, nc_stride = stride, nc_slots = slots,
       nc_rows_total = rows_total, nc_map = Map.empty, nc_slot_row = replicate slots None,
       nc_refbit = replicate slots False, nc_pinned = replicate slots False, nc_hand = 0,
       nc_arena = replicate slots (replicate stride 0), nc_hits = 0, nc_misses = 0, nc_evictions = 0 \<rparr>)"

text \<open>One file per distinct path, in first-seen order.\<close>

fun shard_files :: "string list \<Rightarrow> string list \<Rightarrow> string list \<times> nat list" where
  "shard_files order [] = (order, [])"
| "shard_files order (p # ps) =
    (case position (\<lambda>q. q = p) order of
       Some i \<Rightarrow> (let (o', is) = shard_files order ps in (o', i # is))
     | None \<Rightarrow> (let (o', is) = shard_files (order @ [p]) ps in (o', length order # is)))"

definition nc_open_segmented :: "(string \<times> nat) list \<Rightarrow> nat \<Rightarrow> nat \<Rightarrow> nat
    \<Rightarrow> ngram_error + string list \<times> ngram_cache" where
  "nc_open_segmented shards rows_per stride slots =
    (if shards = [] \<or> rows_per = 0 then Inl NoShards
     else (let (order, idx) = shard_files [] (map fst shards) in
       case nc_open_at 0 (length shards * rows_per) stride slots of
         Inl e \<Rightarrow> Inl e
       | Inr c \<Rightarrow> Inr (order, c\<lparr> nc_segments := Some \<lparr> sg_bases = map snd shards, sg_shard_file = idx,
                                     sg_rows_per = rows_per \<rparr> \<rparr>)))"

subsection \<open>Reading a row\<close>

definition nblocks_for :: "nat \<Rightarrow> nat \<Rightarrow> nat" where
  "nblocks_for within stride = (if BLOCK < within + stride then 2 else 1)"

definition nc_row_byte :: "ngram_cache \<Rightarrow> nat \<Rightarrow> nat \<times> nat" where
  "nc_row_byte c row =
    (case nc_segments c of
       None \<Rightarrow> (0, nc_base c + row * nc_stride c)
     | Some seg \<Rightarrow>
         (let shard = row div sg_rows_per seg; local = row mod sg_rows_per seg
          in (sg_shard_file seg ! shard, sg_bases seg ! shard + local * nc_stride c)))"

text \<open>\<open>fault_job\<close> and \<open>run_one\<close> for one row: the covering blocks are read into the bounce buffer and
  the row copied out.\<close>

record fault_job =
  fj_row :: nat
  fj_slot :: nat
  fj_block_off :: nat
  fj_within :: nat
  fj_nblocks :: nat
  fj_file :: nat

definition nc_fault_job :: "ngram_cache \<Rightarrow> nat \<Rightarrow> nat \<Rightarrow> fault_job" where
  "nc_fault_job c row slot =
    (let (fi, b) = nc_row_byte c row;
         block_off = b - b mod BLOCK;
         within = b - block_off
     in \<lparr> fj_row = row, fj_slot = slot, fj_block_off = block_off, fj_within = within,
          fj_nblocks = nblocks_for within (nc_stride c), fj_file = fi \<rparr>)"

definition run_one :: "(nat \<Rightarrow> syscalls) \<Rightarrow> byte list list \<Rightarrow> nat \<Rightarrow> fault_job \<Rightarrow> ngram_error + byte list" where
  "run_one sys files stride j =
    (if length files \<le> fj_file j then Inl NoSuchFile
     else case read_at_least_at (sys (fj_row j)) (files ! fj_file j) (fj_block_off j)
                 (fj_nblocks j * BLOCK) (fj_within j + stride) of
            Inl e \<Rightarrow> Inl ReadFailed
          | Inr bs \<Rightarrow> Inr (take stride (drop (fj_within j) bs)))"

fun fault_all :: "(nat \<Rightarrow> syscalls) \<Rightarrow> byte list list \<Rightarrow> nat \<Rightarrow> fault_job list \<Rightarrow> byte list list
    \<Rightarrow> ngram_error option \<times> byte list list" where
  "fault_all sys files stride [] arena = (None, arena)"
| "fault_all sys files stride (j # js) arena =
    (case run_one sys files stride j of
       Inl e \<Rightarrow> (Some e, arena)
     | Inr row \<Rightarrow> fault_all sys files stride js (arena[fj_slot j := row]))"

subsection \<open>The clock\<close>

fun nc_clock :: "nat \<Rightarrow> ngram_cache \<Rightarrow> nat option \<times> ngram_cache" where
  "nc_clock 0 c = (None, c)"
| "nc_clock (Suc n) c =
    (let s = nc_hand c; c1 = c\<lparr> nc_hand := (s + 1) mod nc_slots c \<rparr> in
     if nc_pinned c ! s then nc_clock n c1
     else if nc_refbit c ! s then nc_clock n (c1\<lparr> nc_refbit := (nc_refbit c)[s := False] \<rparr>)
     else (Some s, case nc_slot_row c ! s of
             Some old \<Rightarrow> c1\<lparr> nc_map := (nc_map c)(old := None), nc_evictions := nc_evictions c + 1 \<rparr>
           | None \<Rightarrow> c1))"

definition nc_victim :: "ngram_cache \<Rightarrow> nat option \<times> ngram_cache" where
  "nc_victim c = nc_clock (nc_slots c * 2) c"

subsection \<open>Resolving a batch\<close>

definition nc_pin :: "nat \<Rightarrow> ngram_cache \<Rightarrow> ngram_cache" where
  "nc_pin s c = c\<lparr> nc_refbit := (nc_refbit c)[s := True], nc_pinned := (nc_pinned c)[s := True] \<rparr>"

definition nc_claim :: "nat \<Rightarrow> nat \<Rightarrow> ngram_cache \<Rightarrow> ngram_cache" where
  "nc_claim row s c = nc_pin s (c\<lparr> nc_map := (nc_map c)(row \<mapsto> s), nc_slot_row := (nc_slot_row c)[s := Some row] \<rparr>)"

text \<open>The first loop of \<open>resolve\<close>: the jobs and the slots, or the error it leaves on.\<close>

fun nc_assign :: "nat list \<Rightarrow> ngram_cache \<Rightarrow> (ngram_error + fault_job list \<times> nat list) \<times> ngram_cache" where
  "nc_assign [] c = (Inr ([], []), c)"
| "nc_assign (row # rows) c =
    (if nc_rows_total c \<le> row then (Inl RowOutOfRange, c)
     else case nc_map c row of
       Some s \<Rightarrow>
         (case nc_assign rows (nc_pin s (c\<lparr> nc_hits := nc_hits c + 1 \<rparr>)) of
            (Inl e, c') \<Rightarrow> (Inl e, c')
          | (Inr (jobs, out), c') \<Rightarrow> (Inr (jobs, s # out), c'))
     | None \<Rightarrow>
         (case nc_victim (c\<lparr> nc_misses := nc_misses c + 1 \<rparr>) of
            (None, c') \<Rightarrow> (Inl AllPinned, c')
          | (Some s, c1) \<Rightarrow>
              (case nc_assign rows (nc_claim row s c1) of
                 (Inl e, c') \<Rightarrow> (Inl e, c')
               | (Inr (jobs, out), c') \<Rightarrow> (Inr (nc_fault_job c row s # jobs, s # out), c'))))"

definition nc_unmap :: "fault_job \<Rightarrow> ngram_cache \<Rightarrow> ngram_cache" where
  "nc_unmap j c = c\<lparr> nc_map := (nc_map c)(fj_row j := None),
     nc_slot_row := (nc_slot_row c)[fj_slot j := None],
     nc_pinned := (nc_pinned c)[fj_slot j := False], nc_refbit := (nc_refbit c)[fj_slot j := False] \<rparr>"

definition nc_resolve :: "(nat \<Rightarrow> syscalls) \<Rightarrow> byte list list \<Rightarrow> nat list \<Rightarrow> ngram_cache
    \<Rightarrow> (ngram_error + nat list) \<times> ngram_cache" where
  "nc_resolve sys files rows c =
    (case nc_assign rows c of
       (Inl e, c') \<Rightarrow> (Inl e, c')
     | (Inr (jobs, out), c1) \<Rightarrow>
         (case fault_all sys files (nc_stride c1) jobs (nc_arena c1) of
            (None, arena) \<Rightarrow> (Inr out, c1\<lparr> nc_arena := arena \<rparr>)
          | (Some e, arena) \<Rightarrow> (Inl e, fold nc_unmap jobs (c1\<lparr> nc_arena := arena \<rparr>))))"

definition nc_end_batch :: "ngram_cache \<Rightarrow> ngram_cache" where
  "nc_end_batch c = c\<lparr> nc_pinned := replicate (length (nc_pinned c)) False \<rparr>"

definition nc_stats :: "ngram_cache \<Rightarrow> nat \<times> nat \<times> nat" where
  "nc_stats c = (nc_hits c, nc_misses c, nc_evictions c)"

end
