(* ===== verification/Ngram_Props.thy ===== *)
theory Ngram_Props
  imports Ngram_Cache
begin

text \<open>
  What the n-gram row cache guarantees. The map and the slots agree after every call; a slot pinned
  since the last \<open>end_batch\<close> keeps its row and its bytes; the clock finds a victim whenever a slot
  is unpinned; a resolve that succeeds on a cache whose mapped slots hold their rows hands out slots
  that hold the rows asked for. A resolve that fails before the fault keeps rows mapped to slots it
  never filled (\<open>ngram_error_serves_stale_row\<close>).
\<close>

definition nc_ok :: "ngram_cache \<Rightarrow> bool" where
  "nc_ok c \<longleftrightarrow> 0 < nc_slots c \<and> nc_hand c < nc_slots c \<and> length (nc_slot_row c) = nc_slots c
     \<and> length (nc_refbit c) = nc_slots c \<and> length (nc_pinned c) = nc_slots c \<and> length (nc_arena c) = nc_slots c
     \<and> 0 < nc_stride c \<and> nc_stride c \<le> BLOCK
     \<and> (\<forall>row s. nc_map c row = Some s \<longleftrightarrow> s < nc_slots c \<and> nc_slot_row c ! s = Some row)"

definition same_table :: "ngram_cache \<Rightarrow> ngram_cache \<Rightarrow> bool" where
  "same_table c c' \<longleftrightarrow> nc_base c' = nc_base c \<and> nc_segments c' = nc_segments c \<and> nc_stride c' = nc_stride c
     \<and> nc_slots c' = nc_slots c \<and> nc_rows_total c' = nc_rows_total c \<and> nc_arena c' = nc_arena c"

lemma same_table_refl [simp]: "same_table c c"
  by (simp add: same_table_def)

lemma same_table_trans: "same_table a b \<Longrightarrow> same_table b c \<Longrightarrow> same_table a c"
  by (simp add: same_table_def)

lemma same_table_row_byte: "same_table c c' \<Longrightarrow> nc_row_byte c' row = nc_row_byte c row"
  by (cases "nc_segments c") (simp_all add: same_table_def nc_row_byte_def)

lemma same_table_job: "same_table c c' \<Longrightarrow> nc_fault_job c' row s = nc_fault_job c row s"
  using same_table_row_byte [of c c' row] by (simp add: nc_fault_job_def same_table_def)

lemma nc_fault_job_sel [simp]: "fj_row (nc_fault_job c row s) = row" "fj_slot (nc_fault_job c row s) = s"
  by (simp_all add: nc_fault_job_def Let_def split: prod.splits)

subsection \<open>The clock\<close>

text \<open>The effect of the clock on everything but the hand, the reference bits and the counter.\<close>

definition evicted :: "nat \<Rightarrow> ngram_cache \<Rightarrow> nat \<rightharpoonup> nat" where
  "evicted s c = (case nc_slot_row c ! s of Some old \<Rightarrow> (nc_map c)(old := None) | None \<Rightarrow> nc_map c)"

lemma evicted_hand [simp]:
  "evicted s (c\<lparr> nc_hand := h \<rparr>) = evicted s c"
  "evicted s (c\<lparr> nc_hand := h, nc_refbit := b \<rparr>) = evicted s c"
  by (cases "nc_slot_row c ! s"; simp add: evicted_def)+

lemma nc_clock_frame:
  "nc_clock n c = (r, c') \<Longrightarrow> nc_hand c < nc_slots c \<Longrightarrow>
     same_table c c' \<and> nc_pinned c' = nc_pinned c \<and> nc_slot_row c' = nc_slot_row c
     \<and> length (nc_refbit c') = length (nc_refbit c) \<and> nc_hand c' < nc_slots c
     \<and> (\<forall>s. nc_refbit c' ! s \<longrightarrow> nc_refbit c ! s)
     \<and> (case r of None \<Rightarrow> nc_map c' = nc_map c
        | Some s \<Rightarrow> s < nc_slots c \<and> \<not> nc_pinned c ! s \<and> nc_map c' = evicted s c)"
proof (induction n arbitrary: c)
  case 0
  then show ?case by simp
next
  case (Suc n)
  let ?s = "nc_hand c"
  let ?c1 = "c\<lparr> nc_hand := (?s + 1) mod nc_slots c \<rparr>"
  let ?c2 = "?c1\<lparr> nc_refbit := (nc_refbit c)[?s := False] \<rparr>"
  have h: "(?s + 1) mod nc_slots c < nc_slots c" using Suc.prems(2) by simp
  consider (pin) "nc_pinned c ! ?s" | (bit) "\<not> nc_pinned c ! ?s" "nc_refbit c ! ?s"
    | (take) "\<not> nc_pinned c ! ?s" "\<not> nc_refbit c ! ?s" by blast
  then show ?case
  proof cases
    case pin
    then have "nc_clock n ?c1 = (r, c')" using Suc.prems(1) by simp
    from Suc.IH [OF this] h show ?thesis by (cases r) (simp_all add: same_table_def)
  next
    case bit
    then have "nc_clock n ?c2 = (r, c')" using Suc.prems(1) by (simp add: Let_def)
    note IH = Suc.IH [OF this]
    have "nc_refbit c ! s" if "(nc_refbit c)[?s := False] ! s" for s
      using that bit(2) by (cases "s = ?s") auto
    with IH h show ?thesis by (cases r) (simp_all add: same_table_def)
  next
    case take
    then show ?thesis using Suc.prems h
      by (cases "nc_slot_row c ! ?s") (auto simp: Let_def same_table_def evicted_def)
  qed
qed

text \<open>A sweep that finds nothing clears the bit of every unpinned slot it passes, and found it set.\<close>

lemma nc_clock_none:
  "nc_clock n c = (None, c') \<Longrightarrow> nc_hand c < nc_slots c \<Longrightarrow> length (nc_refbit c) = nc_slots c \<Longrightarrow> i < n \<Longrightarrow>
     \<not> nc_pinned c ! ((nc_hand c + i) mod nc_slots c) \<Longrightarrow>
     nc_refbit c ! ((nc_hand c + i) mod nc_slots c) \<and> \<not> nc_refbit c' ! ((nc_hand c + i) mod nc_slots c)"
proof (induction n arbitrary: c i)
  case (Suc n)
  let ?s = "nc_hand c"
  let ?c1 = "c\<lparr> nc_hand := (?s + 1) mod nc_slots c \<rparr>"
  let ?c2 = "?c1\<lparr> nc_refbit := (nc_refbit c)[?s := False] \<rparr>"
  define d where "d = (if nc_pinned c ! ?s then ?c1 else ?c2)"
  have d: "nc_clock n d = (None, c')" using Suc.prems(1)
    by (auto simp: d_def Let_def split: if_splits option.splits)
  have f: "nc_hand d = (?s + 1) mod nc_slots c" "nc_slots d = nc_slots c" "nc_pinned d = nc_pinned c"
    "length (nc_refbit d) = nc_slots c" using Suc.prems(3) by (simp_all add: d_def)
  have hd: "nc_hand d < nc_slots d" using Suc.prems(2) f by simp
  have mono: "nc_refbit c ! x" if "nc_refbit d ! x" for x
    using that by (cases "x = ?s") (auto simp: d_def Suc.prems(2,3) split: if_splits)
  show ?case
  proof (cases i)
    case 0
    then have np: "\<not> nc_pinned c ! ?s" using Suc.prems(2,5) by simp
    then have "nc_refbit c ! ?s" using Suc.prems(1) by (auto simp: Let_def split: if_splits option.splits)
    moreover have "\<not> nc_refbit d ! ?s" using np Suc.prems(2,3) by (simp add: d_def)
    ultimately show ?thesis using nc_clock_frame [OF d hd] 0 Suc.prems(2) by auto
  next
    case (Suc j)
    have e: "(nc_hand d + j) mod nc_slots d = (nc_hand c + i) mod nc_slots c"
      by (simp add: f Suc mod_add_left_eq)
    have "nc_refbit d ! ((nc_hand c + i) mod nc_slots c) \<and> \<not> nc_refbit c' ! ((nc_hand c + i) mod nc_slots c)"
      using Suc.IH [OF d hd, of j] Suc.prems(4,5) f Suc unfolding e by simp
    with mono show ?thesis by blast
  qed
qed simp

lemma nc_clock_split:
  "nc_clock (n + m) c = (case nc_clock n c of (None, c') \<Rightarrow> nc_clock m c' | (Some s, c') \<Rightarrow> (Some s, c'))"
  by (induction n arbitrary: c) (auto simp: Let_def split: option.splits prod.splits)

lemma nc_clock_hand:
  "nc_clock n c = (None, c') \<Longrightarrow> nc_hand c < nc_slots c \<Longrightarrow> nc_hand c' = (nc_hand c + n) mod nc_slots c"
proof (induction n arbitrary: c)
  case (Suc n)
  let ?s = "nc_hand c"
  let ?c1 = "c\<lparr> nc_hand := (?s + 1) mod nc_slots c \<rparr>"
  let ?c2 = "?c1\<lparr> nc_refbit := (nc_refbit c)[?s := False] \<rparr>"
  have "nc_clock n ?c1 = (None, c') \<or> nc_clock n ?c2 = (None, c')" using Suc.prems(1)
    by (auto simp: Let_def split: if_splits option.splits)
  then show ?case using Suc.IH [of ?c1] Suc.IH [of ?c2] Suc.prems(2) by (auto simp: mod_add_left_eq)
qed simp

lemma nc_victim_none:
  assumes "nc_ok c" and "u < nc_slots c" and "\<not> nc_pinned c ! u"
  shows "fst (nc_victim c) \<noteq> None"
proof
  assume none: "fst (nc_victim c) = None"
  let ?n = "nc_slots c"
  have h: "nc_hand c < ?n" "length (nc_refbit c) = ?n" using assms(1) by (simp_all add: nc_ok_def)
  obtain c1 where c1: "nc_clock ?n c = (None, c1)"
    using none by (auto simp: nc_victim_def mult_2_right nc_clock_split split: prod.splits option.splits)
  obtain c2 where c2: "nc_clock ?n c1 = (None, c2)"
    using none c1 by (cases "nc_clock ?n c1") (simp add: nc_victim_def mult_2_right nc_clock_split)
  note fr = nc_clock_frame [OF c1 h(1)]
  then have s1: "nc_slots c1 = ?n" "nc_pinned c1 = nc_pinned c" "length (nc_refbit c1) = ?n" "nc_hand c1 < nc_slots c1"
    using h by (simp_all add: same_table_def)
  have h1: "nc_hand c1 = nc_hand c" using nc_clock_hand [OF c1 h(1)] h(1) by simp
  define i where "i = (u + ?n - nc_hand c) mod ?n"
  have i: "i < ?n" "(nc_hand c + i) mod ?n = u"
  proof -
    show "i < ?n" using h(1) by (simp add: i_def)
    have "(nc_hand c + i) mod ?n = (nc_hand c + (u + ?n - nc_hand c)) mod ?n" by (simp add: i_def mod_add_right_eq)
    also have "nc_hand c + (u + ?n - nc_hand c) = u + ?n" using h(1) by simp
    finally show "(nc_hand c + i) mod ?n = u" using assms(2) by simp
  qed
  have "\<not> nc_refbit c1 ! u" using nc_clock_none [OF c1 h i(1)] i(2) assms(3) by simp
  moreover have "nc_refbit c1 ! u" using nc_clock_none [OF c2 s1(4), of i] i assms(3) s1 h1 by simp
  ultimately show False by blast
qed

subsection \<open>Resolving\<close>

text \<open>What a step of the first loop keeps: well-formedness, the table, and every pinned slot's row.\<close>

definition nc_keeps :: "ngram_cache \<Rightarrow> ngram_cache \<Rightarrow> bool" where
  "nc_keeps c c' \<longleftrightarrow> nc_ok c' \<and> same_table c c'
     \<and> (\<forall>s<nc_slots c. nc_pinned c ! s \<longrightarrow> nc_pinned c' ! s \<and> nc_slot_row c' ! s = nc_slot_row c ! s)"

lemma nc_keeps_refl: "nc_ok c \<Longrightarrow> nc_keeps c c"
  by (simp add: nc_keeps_def)

lemma nc_keeps_trans:
  assumes "nc_keeps a b" and "nc_keeps b c" shows "nc_keeps a c"
proof -
  have "nc_slots b = nc_slots a" using assms(1) by (simp add: nc_keeps_def same_table_def)
  with assms same_table_trans [of a b c] show ?thesis by (simp add: nc_keeps_def)
qed

lemma nc_keeps_map:
  assumes "nc_keeps c c'" "nc_ok c" "nc_map c row = Some s" "nc_pinned c ! s"
  shows "nc_map c' row = Some s \<and> nc_pinned c' ! s"
proof -
  have "nc_slots c' = nc_slots c" using assms(1) by (simp add: nc_keeps_def same_table_def)
  moreover have "s < nc_slots c" "nc_slot_row c ! s = Some row" using assms(2,3) by (simp_all add: nc_ok_def)
  ultimately show ?thesis using assms(1,4) by (simp add: nc_keeps_def nc_ok_def)
qed

lemma nc_pin_keeps: "nc_ok c \<Longrightarrow> s < nc_slots c \<Longrightarrow> nc_keeps c (nc_pin s (c\<lparr> nc_hits := h \<rparr>))"
  by (simp add: nc_keeps_def nc_ok_def nc_pin_def same_table_def nth_list_update)

lemma nc_pin_sel [simp]:
  "nc_map (nc_pin s c) = nc_map c" "nc_pinned (nc_pin s c) = (nc_pinned c)[s := True]"
  "nc_map (nc_claim row s c) = (nc_map c)(row \<mapsto> s)" "nc_pinned (nc_claim row s c) = (nc_pinned c)[s := True]"
  by (simp_all add: nc_pin_def nc_claim_def)

lemma nc_victim_spec:
  assumes "nc_ok c" and v: "nc_victim (c\<lparr> nc_misses := m \<rparr>) = (Some s, c1)"
  shows "same_table c c1 \<and> nc_pinned c1 = nc_pinned c \<and> nc_slot_row c1 = nc_slot_row c
    \<and> length (nc_refbit c1) = nc_slots c \<and> nc_hand c1 < nc_slots c
    \<and> s < nc_slots c \<and> \<not> nc_pinned c ! s \<and> nc_map c1 = evicted s c"
proof -
  let ?c = "c\<lparr> nc_misses := m \<rparr>"
  have "nc_hand ?c < nc_slots ?c" using assms(1) by (simp add: nc_ok_def)
  from nc_clock_frame [OF v [unfolded nc_victim_def] this] show ?thesis
    using assms(1) by (cases "nc_slot_row c ! s") (simp_all add: same_table_def nc_ok_def evicted_def)
qed

lemma nc_claim_keeps:
  assumes "nc_ok c" "nc_map c row = None" and v: "nc_victim (c\<lparr> nc_misses := m \<rparr>) = (Some s, c1)"
  shows "nc_keeps c (nc_claim row s c1)"
proof -
  note f = nc_victim_spec [OF assms(1) v]
  have ok: "nc_map c r = Some x \<longleftrightarrow> x < nc_slots c \<and> nc_slot_row c ! x = Some r" for r x
    using assms(1) by (simp add: nc_ok_def)
  have "((evicted s c)(row \<mapsto> s)) r = Some x \<longleftrightarrow> x < nc_slots c \<and> (nc_slot_row c)[s := Some row] ! x = Some r" for r x
  proof (cases "x = s")
    case True
    then have "evicted s c r \<noteq> Some s" for r
      using f ok [of r s] by (cases "nc_slot_row c ! s") (auto simp: evicted_def)
    then show ?thesis using True f assms(1) by (auto simp: nc_ok_def)
  next
    case False
    then have "evicted s c r = Some x \<longleftrightarrow> nc_map c r = Some x" for r
      using f ok [of r s] ok [of r x] by (cases "nc_slot_row c ! s") (auto simp: evicted_def)
    then show ?thesis using False ok [of r x] ok [of row x] assms(2) by auto
  qed
  then have "nc_ok (nc_claim row s c1)" using assms(1) f by (simp add: nc_ok_def nc_claim_def nc_pin_def same_table_def)
  then show ?thesis using assms(1) f
    by (auto simp: nc_keeps_def nc_claim_def nc_pin_def same_table_def nth_list_update nc_ok_def)
qed

text \<open>After a claim a mapped row is the claimed one or was mapped before, to another slot.\<close>

lemma nc_claim_map:
  assumes "nc_ok c" and v: "nc_victim (c\<lparr> nc_misses := m \<rparr>) = (Some s, c1)" and "nc_map (nc_claim row s c1) r = Some x"
  shows "r = row \<and> x = s \<or> nc_map c r = Some x"
  using assms(3) nc_victim_spec [OF assms(1) v]
  by (cases "nc_slot_row c ! s") (auto simp: evicted_def split: if_splits)

lemma nc_assign_spec:
  "nc_assign rows c = (Inr (jobs, out), c') \<Longrightarrow> nc_ok c \<Longrightarrow>
     nc_keeps c c' \<and> length out = length rows
     \<and> (\<forall>i<length rows. rows ! i < nc_rows_total c \<and> nc_map c' (rows ! i) = Some (out ! i) \<and> nc_pinned c' ! (out ! i))
     \<and> (\<forall>j\<in>set jobs. nc_map c' (fj_row j) = Some (fj_slot j) \<and> \<not> nc_pinned c ! fj_slot j
          \<and> j = nc_fault_job c (fj_row j) (fj_slot j))
     \<and> (\<forall>r s. nc_map c' r = Some s \<longrightarrow> nc_map c r = Some s \<or> (\<exists>j\<in>set jobs. fj_row j = r \<and> fj_slot j = s))"
proof (induction rows arbitrary: c jobs out)
  case Nil
  then show ?case by (simp add: nc_keeps_refl)
next
  case (Cons row rows)
  have r: "row < nc_rows_total c" using Cons.prems(1) by (auto split: if_splits)
  show ?case
  proof (cases "nc_map c row")
    case (Some s)
    let ?d = "nc_pin s (c\<lparr> nc_hits := nc_hits c + 1 \<rparr>)"
    obtain out' where o: "nc_assign rows ?d = (Inr (jobs, out'), c')" "out = s # out'"
      using Cons.prems(1) r Some by (auto split: prod.splits sum.splits)
    have s: "s < nc_slots c" using Cons.prems(2) Some by (simp add: nc_ok_def)
    note k = nc_pin_keeps [OF Cons.prems(2) s, of "nc_hits c + 1"]
    then have ok: "nc_ok ?d" by (simp add: nc_keeps_def)
    note IH = Cons.IH [OF o(1) ok]
    have st: "same_table c ?d" using k by (simp add: nc_keeps_def)
    have sl: "length (nc_pinned c) = nc_slots c" using Cons.prems(2) by (simp add: nc_ok_def)
    have "nc_map c' row = Some s \<and> nc_pinned c' ! s"
      using nc_keeps_map [OF IH [THEN conjunct1] ok, of row s] Some s sl by simp
    moreover have "nc_rows_total ?d = nc_rows_total c" using st by (simp add: same_table_def)
    moreover have "\<not> nc_pinned c ! t" if "\<not> nc_pinned ?d ! t" for t
      using that s sl by (cases "t = s") auto
    ultimately show ?thesis using IH nc_keeps_trans [OF k IH [THEN conjunct1]] o(2) r same_table_job [OF st]
      by (auto simp: nth_Cons split: nat.splits)
  next
    case None
    obtain s c1 where v: "nc_victim (c\<lparr> nc_misses := nc_misses c + 1 \<rparr>) = (Some s, c1)"
      using Cons.prems(1) r None by (auto split: prod.splits option.splits)
    let ?d = "nc_claim row s c1"
    obtain jobs' out' where o: "nc_assign rows ?d = (Inr (jobs', out'), c')"
      "jobs = nc_fault_job c row s # jobs'" "out = s # out'"
      using Cons.prems(1) r None v by (auto split: prod.splits sum.splits)
    note k = nc_claim_keeps [OF Cons.prems(2) None v]
    then have ok: "nc_ok ?d" by (simp add: nc_keeps_def)
    note IH = Cons.IH [OF o(1) ok]
    note f = nc_victim_spec [OF Cons.prems(2) v]
    have st: "same_table c ?d" using k by (simp add: nc_keeps_def)
    have sl: "length (nc_pinned c) = nc_slots c" using Cons.prems(2) by (simp add: nc_ok_def)
    have m: "nc_map c' row = Some s \<and> nc_pinned c' ! s"
      using nc_keeps_map [OF IH [THEN conjunct1] ok, of row s] f sl by simp
    have np: "\<not> nc_pinned c ! t" if "\<not> nc_pinned ?d ! t" for t
      using that f sl by (cases "t = s") auto
    have "nc_rows_total ?d = nc_rows_total c" using st by (simp add: same_table_def)
    then show ?thesis using IH nc_keeps_trans [OF k IH [THEN conjunct1]] o(2,3) r m np same_table_job [OF st] f
        nc_claim_map [OF Cons.prems(2) v]
      by (auto simp: nth_Cons split: nat.splits) blast+
  qed
qed

subsection \<open>The fault\<close>

text \<open>The bytes of a row in the backing files.\<close>

definition row_bytes :: "byte list list \<Rightarrow> ngram_cache \<Rightarrow> nat \<Rightarrow> byte list" where
  "row_bytes files c row = (case nc_row_byte c row of (fi, b) \<Rightarrow> take (nc_stride c) (drop b (files ! fi)))"

definition nc_clean :: "byte list list \<Rightarrow> ngram_cache \<Rightarrow> bool" where
  "nc_clean files c \<longleftrightarrow> (\<forall>row s. nc_map c row = Some s \<longrightarrow> nc_arena c ! s = row_bytes files c row)"

lemma same_table_row_bytes: "same_table c c' \<Longrightarrow> row_bytes files c' row = row_bytes files c row"
  using same_table_row_byte [of c c' row] by (simp add: row_bytes_def same_table_def)

lemma run_one_bytes:
  assumes "run_one sys files (nc_stride c) (nc_fault_job c row s) = Inr bs" and "nc_stride c \<le> BLOCK"
  shows "bs = row_bytes files c row"
proof -
  obtain fi b where rb: "nc_row_byte c row = (fi, b)" by (cases "nc_row_byte c row")
  let ?w = "b mod BLOCK" and ?o = "b - b mod BLOCK"
  let ?n = "nblocks_for ?w (nc_stride c) * BLOCK"
  have off: "b - ?o = ?w" by simp
  have pos: "0 < BLOCK" by (simp add: BLOCK_def)
  then have w: "?w + nc_stride c \<le> ?n"
    using assms(2) mod_less_divisor [OF pos, of b] by (simp add: nblocks_for_def)
  obtain r where r: "read_fill (sys row) (files ! fi) ?o ?n = Inr r" "bs = take (nc_stride c) (drop ?w r)"
    using assms(1) rb
    by (auto simp: run_one_def nc_fault_job_def Let_def read_at_least_at_def off split: if_splits sum.splits)
  have "r = take ?n (drop ?o (files ! fi))" using read_fill_spec [of "sys row" "files ! fi" ?o ?n] r(1) by auto
  then have "bs = take (nc_stride c) (drop (?o + ?w) (files ! fi))"
    using r(2) w by (simp add: drop_take add.commute min_def)
  then show ?thesis using rb by (simp add: row_bytes_def)
qed

lemma fault_all_spec:
  "fault_all sys files stride js arena = (r, arena') \<Longrightarrow>
     length arena' = length arena
     \<and> (\<forall>s. arena' ! s = arena ! s \<or> s \<in> fj_slot ` set js)
     \<and> (r = None \<longrightarrow> (\<forall>s<length arena. s \<in> fj_slot ` set js \<longrightarrow>
          (\<exists>j\<in>set js. fj_slot j = s \<and> run_one sys files stride j = Inr (arena' ! s))))"
proof (induction js arbitrary: arena)
  case (Cons j js)
  show ?case
  proof (cases "run_one sys files stride j")
    case (Inl e)
    then show ?thesis using Cons.prems by auto
  next
    case (Inr row)
    let ?a = "arena[fj_slot j := row]"
    have "fault_all sys files stride js ?a = (r, arena')" using Cons.prems Inr by simp
    note IH = Cons.IH [OF this]
    have e: "?a ! s = arena ! s \<or> s = fj_slot j" for s by (cases "s = fj_slot j") auto
    have "\<exists>i\<in>set (j # js). fj_slot i = s \<and> run_one sys files stride i = Inr (arena' ! s)"
      if "r = None" "s < length arena" "s \<in> fj_slot ` set (j # js)" for s
    proof (cases "s \<in> fj_slot ` set js")
      case True
      then show ?thesis using IH that by auto
    next
      case False
      then have s: "s = fj_slot j" "arena' ! s = ?a ! s" using IH that(3) by auto
      then have "arena' ! s = row" using that(2) by simp
      with s Inr show ?thesis by auto
    qed
    moreover have "arena' ! s = arena ! s \<or> s \<in> fj_slot ` set (j # js)" for s
    proof -
      have "arena' ! s = ?a ! s \<or> s \<in> fj_slot ` set js" using IH by blast
      with e [of s] show ?thesis by auto
    qed
    ultimately show ?thesis using IH by simp
  qed
qed auto

lemma nc_unmap_fold:
  "nc_map (fold nc_unmap js c) r = (if r \<in> fj_row ` set js then None else nc_map c r)
   \<and> (s < length (nc_slot_row c) \<longrightarrow> nc_slot_row (fold nc_unmap js c) ! s = (if s \<in> fj_slot ` set js then None else nc_slot_row c ! s))
   \<and> (s < length (nc_pinned c) \<longrightarrow> nc_pinned (fold nc_unmap js c) ! s = (nc_pinned c ! s \<and> s \<notin> fj_slot ` set js))
   \<and> same_table c (fold nc_unmap js c) \<and> nc_hand (fold nc_unmap js c) = nc_hand c
   \<and> length (nc_slot_row (fold nc_unmap js c)) = length (nc_slot_row c)
   \<and> length (nc_pinned (fold nc_unmap js c)) = length (nc_pinned c)
   \<and> length (nc_refbit (fold nc_unmap js c)) = length (nc_refbit c)"
proof (induction js arbitrary: c)
  case (Cons j js)
  show ?case using Cons [of "nc_unmap j c"]
    by (auto simp: nc_unmap_def same_table_def nth_list_update)
qed simp

lemma nc_unmap_fold_ok:
  assumes "nc_ok c" and "\<And>j. j \<in> set js \<Longrightarrow> nc_map c (fj_row j) = Some (fj_slot j)"
  shows "nc_ok (fold nc_unmap js c)"
proof -
  let ?d = "fold nc_unmap js c"
  note u = nc_unmap_fold [of js c]
  have ok: "nc_map c r = Some s \<longleftrightarrow> s < nc_slots c \<and> nc_slot_row c ! s = Some r" for r s
    using assms(1) by (simp add: nc_ok_def)
  have l: "length (nc_slot_row c) = nc_slots c" using assms(1) by (simp add: nc_ok_def)
  have "nc_map ?d r = Some s \<longleftrightarrow> s < nc_slots c \<and> nc_slot_row ?d ! s = Some r" for r s
  proof -
    have "r \<in> fj_row ` set js \<longleftrightarrow> s \<in> fj_slot ` set js" if "nc_map c r = Some s"
    proof -
      have "fj_row j = r \<longleftrightarrow> fj_slot j = s" if "j \<in> set js" for j
      proof
        assume "fj_row j = r"
        then show "fj_slot j = s" using assms(2) [OF that] \<open>nc_map c r = Some s\<close> by simp
      next
        assume "fj_slot j = s"
        then show "fj_row j = r" using assms(2) [OF that] \<open>nc_map c r = Some s\<close> ok [of "fj_row j" s] ok [of r s] by simp
      qed
      then show ?thesis by (auto simp: image_iff)
    qed
    then show ?thesis using u [of r s] ok [of r s] l by auto
  qed
  then show ?thesis using assms(1) u by (simp add: nc_ok_def same_table_def)
qed

lemma nc_resolve_cases:
  assumes "nc_ok c" and "nc_clean files c" and a: "nc_assign rows c = (Inr (jobs, out), c1)"
    and f: "fault_all sys files (nc_stride c1) jobs (nc_arena c1) = (r, arena)"
    and d: "d = (case r of None \<Rightarrow> c1\<lparr> nc_arena := arena \<rparr> | Some e \<Rightarrow> fold nc_unmap jobs (c1\<lparr> nc_arena := arena \<rparr>))"
  shows "nc_ok d \<and> nc_clean files d"
    and "s < nc_slots c \<Longrightarrow> nc_pinned c ! s \<Longrightarrow>
      nc_pinned d ! s \<and> nc_slot_row d ! s = nc_slot_row c ! s \<and> nc_arena d ! s = nc_arena c ! s"
proof -
  note A = nc_assign_spec [OF a assms(1)]
  note F = fault_all_spec [OF f]
  let ?e = "c1\<lparr> nc_arena := arena \<rparr>"
  have st: "same_table c c1" "nc_ok c1" using A by (simp_all add: nc_keeps_def)
  have len: "length (nc_arena c1) = nc_slots c" "nc_slots c1 = nc_slots c" "nc_arena c1 = nc_arena c" "nc_stride c1 = nc_stride c"
    using st by (simp_all add: nc_ok_def same_table_def)
  have sl: "length (nc_slot_row c1) = nc_slots c" "length (nc_pinned c1) = nc_slots c"
    using st len by (simp_all add: nc_ok_def)
  have oke: "nc_ok ?e" using st(2) F by (simp add: nc_ok_def)
  have map: "nc_map ?e (fj_row j) = Some (fj_slot j)" if "j \<in> set jobs" for j using A that by simp
  note u = nc_unmap_fold [of jobs ?e]
  have ok: "nc_ok d" using oke nc_unmap_fold_ok [OF oke map] d by (cases r) simp_all
  have rb: "row_bytes files d row = row_bytes files c row" for row
  proof -
    have "row_bytes files ?e row = row_bytes files c row" using same_table_row_bytes [OF st(1), of files row]
      by (simp add: row_bytes_def nc_row_byte_def split: option.splits)
    then show ?thesis using d same_table_row_bytes [of ?e d files row] u by (cases r) simp_all
  qed
  have ad: "nc_arena d = arena" using d u by (cases r) (simp_all add: same_table_def)
  have "nc_arena d ! t = row_bytes files d row" if m: "nc_map d row = Some t" for row t
  proof (cases "t \<in> fj_slot ` set jobs")
    case True
    then have "r = None"
      using m u d oke st len nc_unmap_fold_ok [OF oke map] sl u [of row t] ok by (cases r) (auto simp: nc_ok_def)
    then have t: "nc_map c1 row = Some t" "t < length (nc_arena c1)" using m d ok len by (simp_all add: nc_ok_def)
    obtain j where j: "j \<in> set jobs" "fj_slot j = t" "run_one sys files (nc_stride c1) j = Inr (arena ! t)"
      using F \<open>r = None\<close> True t(2) by blast
    then have "fj_row j = row" using t(1) map [OF j(1)] st(2) by (simp add: nc_ok_def)
    then have "j = nc_fault_job c row t" using A j by auto
    then have "arena ! t = row_bytes files c row"
      using run_one_bytes [of sys files c row t] j(3) len(4) assms(1) by (simp add: nc_ok_def)
    then show ?thesis by (simp add: ad rb)
  next
    case False
    have "nc_map c1 row = Some t" using m d u [of row t] by (cases r) (auto split: if_splits)
    then have "nc_map c row = Some t \<or> (\<exists>j\<in>set jobs. fj_row j = row \<and> fj_slot j = t)" using A by blast
    then have "nc_map c row = Some t" using False by blast
    then have "nc_arena c ! t = row_bytes files c row" using assms(2) by (simp add: nc_clean_def)
    moreover have "arena ! t = nc_arena c ! t" using F False len(3) by auto
    ultimately show ?thesis by (simp add: ad rb)
  qed
  with ok show "nc_ok d \<and> nc_clean files d" by (simp add: nc_clean_def)
  show "nc_pinned d ! s \<and> nc_slot_row d ! s = nc_slot_row c ! s \<and> nc_arena d ! s = nc_arena c ! s"
    if s: "s < nc_slots c" "nc_pinned c ! s"
  proof -
    have n: "s \<notin> fj_slot ` set jobs" using A s by auto
    have "nc_pinned c1 ! s \<and> nc_slot_row c1 ! s = nc_slot_row c ! s" using A s by (simp add: nc_keeps_def)
    moreover have "arena ! s = nc_arena c ! s" using F n len(3) by auto
    ultimately show ?thesis using n d u [of _ s] s sl ad by (cases r) simp_all
  qed
qed

text \<open>C36: The clock returns a victim exactly when some slot is unpinned; the victim is unpinned and
  only its own row loses its mapping.\<close>

theorem ngram_victim_live:
  assumes "nc_ok c"
  shows "(fst (nc_victim c) \<noteq> None \<longleftrightarrow> (\<exists>u<nc_slots c. \<not> nc_pinned c ! u))
    \<and> (\<forall>s c'. nc_victim c = (Some s, c') \<longrightarrow> s < nc_slots c \<and> \<not> nc_pinned c ! s
         \<and> nc_pinned c' = nc_pinned c \<and> nc_map c' = evicted s c)"
proof -
  have "nc_hand c < nc_slots c" using assms by (simp add: nc_ok_def)
  then have v: "s < nc_slots c \<and> \<not> nc_pinned c ! s \<and> nc_pinned c' = nc_pinned c \<and> nc_map c' = evicted s c"
    if "nc_victim c = (Some s, c')" for s c'
    using nc_clock_frame [OF that [unfolded nc_victim_def]] by simp
  have "\<exists>u<nc_slots c. \<not> nc_pinned c ! u" if "fst (nc_victim c) \<noteq> None"
    using that v by (cases "nc_victim c") auto
  then show ?thesis using v nc_victim_none [OF assms] by blast
qed

text \<open>C34: A resolve that succeeds on a cache whose mapped slots hold their rows returns, for each row
  asked for, a pinned slot that holds the row's bytes of the file; every slot pinned before keeps its
  row and its bytes.\<close>

theorem ngram_resolve_serves_rows:
  assumes "nc_ok c" and "nc_clean files c" and "nc_resolve sys files rows c = (Inr out, c')"
  shows "nc_ok c' \<and> nc_clean files c' \<and> length out = length rows
    \<and> (\<forall>i<length rows. nc_arena c' ! (out ! i) = row_bytes files c (rows ! i) \<and> nc_pinned c' ! (out ! i))
    \<and> (\<forall>s<nc_slots c. nc_pinned c ! s \<longrightarrow>
         nc_pinned c' ! s \<and> nc_slot_row c' ! s = nc_slot_row c ! s \<and> nc_arena c' ! s = nc_arena c ! s)"
proof -
  obtain jobs c1 arena where a: "nc_assign rows c = (Inr (jobs, out), c1)"
    and f: "fault_all sys files (nc_stride c1) jobs (nc_arena c1) = (None, arena)" and c': "c' = c1\<lparr> nc_arena := arena \<rparr>"
    using assms(3) by (auto simp: nc_resolve_def split: prod.splits sum.splits option.splits)
  note R = nc_resolve_cases [OF assms(1,2) a f, of c']
  note A = nc_assign_spec [OF a assms(1)]
  have st: "same_table c c1" using A by (simp add: nc_keeps_def)
  have rb: "row_bytes files c' row = row_bytes files c row" for row
    using same_table_row_bytes [OF st, of files row] by (simp add: c' row_bytes_def nc_row_byte_def split: option.splits)
  have R1: "nc_ok c' \<and> nc_clean files c'" using R(1) c' by simp
  moreover have "nc_map c' (rows ! i) = Some (out ! i) \<and> nc_pinned c' ! (out ! i)" if "i < length rows" for i
    using A that c' by simp
  ultimately have "\<forall>i<length rows. nc_arena c' ! (out ! i) = row_bytes files c (rows ! i) \<and> nc_pinned c' ! (out ! i)"
    using rb by (simp add: nc_clean_def)
  then show ?thesis using R1 R(2) A c' by simp
qed

text \<open>When the reads of a batch fail the cache is as sound as before: every mapped slot still holds
  its row, and the slots pinned before are untouched.\<close>

theorem ngram_failed_fault_clean:
  assumes "nc_ok c" and "nc_clean files c" and "nc_assign rows c = (Inr (jobs, out), c1)"
    and "nc_resolve sys files rows c = (Inl e, c')"
  shows "nc_ok c' \<and> nc_clean files c' \<and> (\<forall>j\<in>set jobs. nc_map c' (fj_row j) = None)
    \<and> (\<forall>s<nc_slots c. nc_pinned c ! s \<longrightarrow>
         nc_pinned c' ! s \<and> nc_slot_row c' ! s = nc_slot_row c ! s \<and> nc_arena c' ! s = nc_arena c ! s)"
proof -
  obtain arena where f: "fault_all sys files (nc_stride c1) jobs (nc_arena c1) = (Some e, arena)"
    and c': "c' = fold nc_unmap jobs (c1\<lparr> nc_arena := arena \<rparr>)"
    using assms(3,4) by (auto simp: nc_resolve_def split: prod.splits sum.splits option.splits)
  note R = nc_resolve_cases [OF assms(1-3) f, of c']
  have "nc_map c' (fj_row j) = None" if "j \<in> set jobs" for j
    using that nc_unmap_fold [of jobs "c1\<lparr> nc_arena := arena \<rparr>" "fj_row j"] by (simp add: c')
  then show ?thesis using R(1,2) c' by simp
qed

text \<open>C35: A resolve that stops at a row id past the table leaves the rows before it mapped to slots it
  never filled: after \<open>end_batch\<close> the next resolve of such a row is a hit that reads nothing and
  returns a slot with its old bytes.\<close>

theorem ngram_error_serves_stale_row:
  assumes "nc_ok c" and "nc_map c row = None" and "row < nc_rows_total c" and "nc_rows_total c \<le> bad"
    and "u < nc_slots c" and "\<not> nc_pinned c ! u"
  shows "\<exists>s c1 c2. nc_resolve sys files [row, bad] c = (Inl RowOutOfRange, c1) \<and> nc_pinned c1 ! s
    \<and> nc_resolve sys' files [row] (nc_end_batch c1) = (Inr [s], c2) \<and> nc_arena c2 ! s = nc_arena c ! s"
proof -
  let ?m = "c\<lparr> nc_misses := nc_misses c + 1 \<rparr>"
  have "nc_ok ?m" using assms(1) by (simp add: nc_ok_def)
  then obtain s c1 where v: "nc_victim ?m = (Some s, c1)"
    using nc_victim_none [of ?m u] assms(5,6) by (cases "nc_victim ?m") auto
  note f = nc_victim_spec [OF assms(1) v]
  let ?c1 = "nc_claim row s c1"
  have sl: "length (nc_pinned c1) = nc_slots c" using assms(1) f by (simp add: nc_ok_def)
  have c1: "nc_resolve sys files [row, bad] c = (Inl RowOutOfRange, ?c1)" "nc_pinned ?c1 ! s"
    using assms v f sl by (simp_all add: nc_resolve_def nc_claim_def nc_pin_def same_table_def)
  let ?e = "nc_end_batch ?c1"
  have e: "nc_map ?e row = Some s" "nc_rows_total ?e = nc_rows_total c" "nc_arena ?e = nc_arena c"
    using f by (simp_all add: nc_end_batch_def nc_claim_def nc_pin_def same_table_def)
  let ?c2 = "nc_pin s (?e\<lparr> nc_hits := nc_hits ?e + 1 \<rparr>)"
  have "nc_resolve sys' files [row] ?e = (Inr [s], ?c2)" "nc_arena ?c2 ! s = nc_arena c ! s"
    using assms(3) e by (simp_all add: nc_resolve_def nc_pin_def)
  with c1 show ?thesis by blast
qed

subsection \<open>Witnesses\<close>

text \<open>A table of two rows of two bytes in one file, and a cache of one slot.\<close>

definition demo_cache :: ngram_cache where
  "demo_cache = \<lparr> nc_base = 0, nc_segments = None, nc_stride = 2, nc_slots = 1, nc_rows_total = 2,
     nc_map = Map.empty, nc_slot_row = [None], nc_refbit = [False], nc_pinned = [False], nc_hand = 0,
     nc_arena = [[0, 0]], nc_hits = 0, nc_misses = 0, nc_evictions = 0 \<rparr>"

lemma demo_open: "nc_open_at 0 2 2 1 = Inr demo_cache"
  by (simp add: nc_open_at_def demo_cache_def BLOCK_def numeral_2_eq_2)

lemma demo_ok: "nc_ok demo_cache" "nc_clean files demo_cache"
  by (auto simp: nc_ok_def nc_clean_def demo_cache_def BLOCK_def)

lemma demo_assign:
  "nc_assign [1] demo_cache = (Inr ([nc_fault_job demo_cache 1 0], [0]),
     nc_claim 1 0 (demo_cache\<lparr> nc_misses := 1 \<rparr>))"
  by (simp add: demo_cache_def nc_victim_def numeral_2_eq_2)

lemma demo_run: "run_one (\<lambda>_ _. Some 5000) [[5, 6, 7, 8]] 2 (nc_fault_job demo_cache 1 0) = Inr [7, 8]"
  by (simp add: run_one_def nc_fault_job_def nc_row_byte_def demo_cache_def Let_def read_at_least_at_def
      read_fill.simps read_at_def nblocks_for_def BLOCK_def next_call_def)

lemma ngram_victim_live_witness: "fst (nc_victim demo_cache) \<noteq> None"
  using ngram_victim_live [OF demo_ok(1)] by (simp add: demo_cache_def)

lemma ngram_resolve_serves_rows_witness:
  "\<exists>c'. nc_resolve (\<lambda>_ _. Some 5000) [[5, 6, 7, 8]] [1] demo_cache = (Inr [0], c') \<and> nc_arena c' ! 0 = [7, 8]"
proof -
  have a: "nc_arena (nc_claim 1 0 (demo_cache\<lparr> nc_misses := 1 \<rparr>)) = [[0, 0]]"
    "nc_stride (nc_claim 1 0 (demo_cache\<lparr> nc_misses := 1 \<rparr>)) = 2"
    by (simp_all add: nc_claim_def nc_pin_def demo_cache_def)
  obtain c' where r: "nc_resolve (\<lambda>_ _. Some 5000) [[5, 6, 7, 8]] [1] demo_cache = (Inr [0], c')"
    unfolding nc_resolve_def demo_assign by (simp add: demo_run a del: One_nat_def)
  have "nc_arena c' ! 0 = row_bytes [[5, 6, 7, 8]] demo_cache 1"
    using ngram_resolve_serves_rows [OF demo_ok(1,2) r] by simp
  then show ?thesis using r by (simp add: row_bytes_def nc_row_byte_def demo_cache_def)
qed

lemma ngram_failed_fault_clean_witness:
  "\<exists>c'. nc_resolve (\<lambda>_ _. None) [[5, 6, 7, 8]] [1] demo_cache = (Inl ReadFailed, c') \<and> nc_map c' 1 = None"
proof -
  have e: "run_one (\<lambda>_ _. None) [[5, 6, 7, 8]] 2 (nc_fault_job demo_cache 1 0) = Inl ReadFailed"
    by (simp add: run_one_def nc_fault_job_def nc_row_byte_def demo_cache_def Let_def read_at_least_at_def
        read_fill.simps read_at_def nblocks_for_def BLOCK_def)
  have a: "nc_stride (nc_claim 1 0 (demo_cache\<lparr> nc_misses := 1 \<rparr>)) = 2"
    by (simp add: nc_claim_def nc_pin_def demo_cache_def)
  obtain c' where r: "nc_resolve (\<lambda>_ _. None) [[5, 6, 7, 8]] [1] demo_cache = (Inl ReadFailed, c')"
    unfolding nc_resolve_def demo_assign by (simp add: e a del: One_nat_def)
  show ?thesis using ngram_failed_fault_clean [OF demo_ok(1,2) demo_assign r] r by simp
qed

lemma ngram_error_serves_stale_row_witness:
  "\<exists>s c1 c2. nc_resolve (\<lambda>_ _. Some 5000) [[5, 6, 7, 8]] [1, 2] demo_cache = (Inl RowOutOfRange, c1)
     \<and> nc_resolve (\<lambda>_ _. Some 5000) [[5, 6, 7, 8]] [1] (nc_end_batch c1) = (Inr [s], c2)
     \<and> nc_arena demo_cache ! 0 \<noteq> row_bytes [[5, 6, 7, 8]] demo_cache 1"
  using ngram_error_serves_stale_row [OF demo_ok(1), of 1 2 0 "\<lambda>_ _. Some 5000" "[[5, 6, 7, 8]]" "\<lambda>_ _. Some 5000"]
  by (auto simp: demo_cache_def row_bytes_def nc_row_byte_def)

end
