(* ===== verification/Sort_By.thy ===== *)
theory Sort_By
  imports Prelude
begin

text \<open>
  Rust's stable sort by a comparison (\<open>slice::sort_by\<close>, \<open>sort_by_key\<close>), written as an insertion sort:
  \<open>le x y\<close> stands for a comparison that is not \<open>Greater\<close>. For a total preorder the result is the
  sorted permutation in which equal elements keep their order, which is all the standard library
  promises.
\<close>

fun insert_by :: "('a \<Rightarrow> 'a \<Rightarrow> bool) \<Rightarrow> 'a \<Rightarrow> 'a list \<Rightarrow> 'a list" where
  "insert_by le x [] = [x]"
| "insert_by le x (y # ys) = (if le x y then x # y # ys else y # insert_by le x ys)"

definition sort_by :: "('a \<Rightarrow> 'a \<Rightarrow> bool) \<Rightarrow> 'a list \<Rightarrow> 'a list" where
  "sort_by le xs = foldr (insert_by le) xs []"

definition total_pre :: "('a \<Rightarrow> 'a \<Rightarrow> bool) \<Rightarrow> 'a set \<Rightarrow> bool" where
  "total_pre le A \<longleftrightarrow> (\<forall>x\<in>A. \<forall>y\<in>A. le x y \<or> le y x) \<and> (\<forall>x\<in>A. \<forall>y\<in>A. \<forall>z\<in>A. le x y \<longrightarrow> le y z \<longrightarrow> le x z)"

lemma total_pre_mono: "total_pre le B \<Longrightarrow> A \<subseteq> B \<Longrightarrow> total_pre le A"
  unfolding total_pre_def by (meson subsetD)

lemma total_preD: "total_pre le A \<Longrightarrow> x \<in> A \<Longrightarrow> y \<in> A \<Longrightarrow> le x y \<or> le y x"
  "total_pre le A \<Longrightarrow> x \<in> A \<Longrightarrow> y \<in> A \<Longrightarrow> z \<in> A \<Longrightarrow> le x y \<Longrightarrow> le y z \<Longrightarrow> le x z"
  unfolding total_pre_def by blast+

lemma mset_insert_by [simp]: "mset (insert_by le x ys) = add_mset x (mset ys)"
  by (induction ys) simp_all

lemma mset_sort_by [simp]: "mset (sort_by le xs) = mset xs"
  by (induction xs) (simp_all add: sort_by_def)

lemma set_sort_by [simp]: "set (sort_by le xs) = set xs"
  by (metis mset_sort_by set_mset_mset)

lemma length_sort_by [simp]: "length (sort_by le xs) = length xs"
  by (metis mset_sort_by size_mset)

lemma distinct_sort_by [simp]: "distinct (sort_by le xs) = distinct xs"
  by (metis mset_sort_by mset_eq_imp_distinct_iff)

lemma sort_by_Nil [simp]: "sort_by le [] = []"
  by (simp add: sort_by_def)

lemma sorted_insert_by:
  assumes "total_pre le (insert x (set ys))" and "sorted_wrt le ys"
  shows "sorted_wrt le (insert_by le x ys)"
  using assms
proof (induction ys)
  case (Cons y ys)
  have sub: "total_pre le (insert x (set ys))" by (rule total_pre_mono [OF Cons.prems(1)]) auto
  show ?case
  proof (cases "le x y")
    case True
    have "le x z" if "z \<in> set ys" for z
      by (rule total_preD(2) [OF Cons.prems(1), of x y z]) (use that Cons.prems(2) True in auto)
    with True Cons.prems(2) show ?thesis by simp
  next
    case False
    then have "le y x" using total_preD(1) [OF Cons.prems(1), of x y] by auto
    moreover have "set (insert_by le x ys) = insert x (set ys)"
      by (metis mset_insert_by set_mset_mset set_mset_add_mset_insert)
    ultimately show ?thesis using False Cons.IH [OF sub] Cons.prems(2) by auto
  qed
qed simp

lemma sorted_sort_by: "total_pre le (set xs) \<Longrightarrow> sorted_wrt le (sort_by le xs)"
proof (induction xs)
  case (Cons x xs)
  have "total_pre le (set xs)" by (rule total_pre_mono [OF Cons.prems]) auto
  then have "sorted_wrt le (sort_by le xs)" by (rule Cons.IH)
  moreover have "total_pre le (insert x (set (sort_by le xs)))" using Cons.prems by simp
  ultimately show ?case using sorted_insert_by [of le x "sort_by le xs"] by (simp add: sort_by_def)
qed simp

text \<open>A sorted permutation is unique when the comparison is antisymmetric.\<close>

lemma sorted_unique:
  assumes "sorted_wrt le xs" "sorted_wrt le ys" "mset xs = mset ys"
    and anti: "\<And>x y. x \<in> set xs \<Longrightarrow> y \<in> set xs \<Longrightarrow> le x y \<Longrightarrow> le y x \<Longrightarrow> x = y"
  shows "xs = ys"
  using assms
proof (induction xs arbitrary: ys)
  case (Cons x xs)
  then obtain y ys' where ys: "ys = y # ys'" by (cases ys) auto
  have sets: "set ys = set (x # xs)" using Cons.prems(3) by (metis set_mset_mset)
  have "y = x"
  proof (rule ccontr)
    assume "y \<noteq> x"
    then have "y \<in> set xs" "x \<in> set ys'" using sets ys by auto
    then have "le x y" "le y x" using Cons.prems(1,2) ys by auto
    then show False using Cons.prems(4) [of x y] \<open>y \<in> set xs\<close> \<open>y \<noteq> x\<close> by simp
  qed
  then have "xs = ys'" using Cons.prems ys by (intro Cons.IH) auto
  with \<open>y = x\<close> ys show ?case by simp
qed simp

lemma sort_by_sorted:
  assumes "sorted_wrt le xs" and "total_pre le (set xs)" 
    and "\<And>x y. x \<in> set xs \<Longrightarrow> y \<in> set xs \<Longrightarrow> le x y \<Longrightarrow> le y x \<Longrightarrow> x = y"
  shows "sort_by le xs = xs"
  using sorted_unique [OF assms(1) sorted_sort_by [OF assms(2)]] assms(3) by simp

end
