(* ===== verification/Verify_Key.thy ===== *)
theory Verify_Key
  imports Sort_By
begin

text \<open>
  The order of one batched-verify dispatch and the key of its CUDA graph
  (crates/model-layers/src/speculative/verify_key.rs, and \<open>verify_batched_graph_key\<close> of
  crates/model-engine/src/model/trait_impl/verify_e2.rs). A panic or a missing entry is \<open>None\<close>;
  words of the key are naturals below \<open>2 ^ 32\<close>.
\<close>

definition CANONICAL_KEY_MIN_WIDTH :: nat where
  "CANONICAL_KEY_MIN_WIDTH = 8"

definition canonical_assignment_at :: "nat \<Rightarrow> nat \<Rightarrow> bool \<Rightarrow> bool" where
  "canonical_assignment_at n min_width kill_switch_clear = (kill_switch_clear \<and> min_width \<le> n)"

text \<open>The comparisons of the two sort keys, \<open>(slot, index)\<close> and \<open>(Reverse(k), slot, index)\<close>.\<close>

definition by_slot :: "nat list \<Rightarrow> nat \<Rightarrow> nat \<Rightarrow> bool" where
  "by_slot slots i j \<longleftrightarrow> slots ! i < slots ! j \<or> slots ! i = slots ! j \<and> i \<le> j"

definition by_depth :: "nat list \<Rightarrow> nat list \<Rightarrow> nat \<Rightarrow> nat \<Rightarrow> bool" where
  "by_depth slots ks i j \<longleftrightarrow> ks ! j < ks ! i \<or> ks ! i = ks ! j \<and> by_slot slots i j"

definition verify_batch_permutation :: "nat list \<Rightarrow> nat list \<Rightarrow> bool \<Rightarrow> nat list option" where
  "verify_batch_permutation slots ks canonical =
    (if length slots \<noteq> length ks then None
     else Some (sort_by (if canonical then by_slot slots else by_depth slots ks)
                  [0..<min (length slots) (length ks)]))"

definition verify_batch_order :: "nat list \<Rightarrow> nat list \<Rightarrow> bool \<Rightarrow> (nat list \<times> nat list) option" where
  "verify_batch_order slots ks canonical =
    (case verify_batch_permutation slots ks canonical of
       None \<Rightarrow> None
     | Some order \<Rightarrow>
         Some (order, if canonical then sort_by (\<lambda>a b. b \<le> a) (take (length order) ks)
                      else map (\<lambda>i. ks ! i) order))"

fun key_pairs :: "(nat \<times> nat) list \<Rightarrow> nat list" where
  "key_pairs [] = []"
| "key_pairs ((slot, k) # ps) = slot # k # key_pairs ps"

definition verify_graph_key :: "(nat \<times> nat) list \<Rightarrow> bool \<Rightarrow> bool \<Rightarrow> nat list" where
  "verify_graph_key pairs wy_tables_null write_on_accept =
    key_pairs pairs @ [U32_MAX - of_bool wy_tables_null - 2 * of_bool write_on_accept]"

text \<open>\<open>as u32\<close> keeps the low 32 bits. A sequence without a slot, or without a row count, gives no key.\<close>

definition as_u32 :: "nat \<Rightarrow> nat" where
  "as_u32 x = x mod 2 ^ 32"

fun graph_pairs :: "nat option list \<Rightarrow> nat list \<Rightarrow> (nat \<times> nat) list option" where
  "graph_pairs [] ks = Some []"
| "graph_pairs (None # ss) ks = None"
| "graph_pairs (Some s # ss) [] = None"
| "graph_pairs (Some s # ss) (k # ks) = map_option (\<lambda>ps. (as_u32 s, as_u32 k) # ps) (graph_pairs ss ks)"

definition verify_batched_graph_key :: "nat option list \<Rightarrow> nat list \<Rightarrow> bool \<Rightarrow> bool \<Rightarrow> nat list option" where
  "verify_batched_graph_key seqs ks wy_tables_null write_on_accept =
    map_option (\<lambda>ps. verify_graph_key ps wy_tables_null write_on_accept) (graph_pairs seqs ks)"

text \<open>The key of a batch that is ordered first: the sequences are dispatched in the order, with the
  depths assigned to the positions.\<close>

definition dispatch_key :: "nat list \<Rightarrow> nat list \<Rightarrow> bool \<Rightarrow> bool \<Rightarrow> bool \<Rightarrow> nat list option" where
  "dispatch_key slots ks canonical null woa =
    (case verify_batch_order slots ks canonical of
       None \<Rightarrow> None
     | Some (order, depths) \<Rightarrow> verify_batched_graph_key (map (\<lambda>i. Some (slots ! i)) order) depths null woa)"

subsection \<open>The order\<close>

lemma by_slot_pre: "total_pre (by_slot slots) A"
  by (auto simp: total_pre_def by_slot_def)

lemma by_depth_pre: "total_pre (by_depth slots ks) A"
  by (auto simp: total_pre_def by_depth_def by_slot_def)

lemma ge_pre: "total_pre (\<lambda>a b. b \<le> (a :: nat)) A"
  by (auto simp: total_pre_def)

lemma permutation_spec:
  assumes "verify_batch_permutation slots ks canonical = Some order"
  shows "length slots = length ks" and "mset order = mset [0..<length slots]"
    and "sorted_wrt (if canonical then by_slot slots else by_depth slots ks) order"
proof -
  show l: "length slots = length ks" using assms by (simp add: verify_batch_permutation_def split: if_splits)
  then have o: "order = sort_by (if canonical then by_slot slots else by_depth slots ks) [0..<length slots]"
    using assms by (simp add: verify_batch_permutation_def)
  then show "mset order = mset [0..<length slots]" by simp
  show "sorted_wrt (if canonical then by_slot slots else by_depth slots ks) order"
    unfolding o by (cases canonical) (simp_all add: sorted_sort_by by_slot_pre by_depth_pre)
qed

lemma mset_map_nth: "mset order = mset [0..<length xs] \<Longrightarrow> mset (map (\<lambda>i. xs ! i) order) = mset xs"
  by (metis mset_map map_nth)

text \<open>Under the canonical arm the dispatched slots are the sorted slots.\<close>

lemma canonical_slots:
  assumes "verify_batch_permutation slots ks True = Some order"
  shows "map (\<lambda>i. slots ! i) order = sort slots"
proof -
  have "sorted_wrt (\<lambda>i j. slots ! i \<le> slots ! j) order"
    by (rule sorted_wrt_mono_rel [OF _ permutation_spec(3) [OF assms, simplified]]) (auto simp: by_slot_def)
  then have "sorted (map (\<lambda>i. slots ! i) order)" by (simp add: sorted_wrt_map)
  with mset_map_nth [OF permutation_spec(2) [OF assms]] show ?thesis
    by (metis properties_for_sort)
qed

lemma sort_by_ge: "sort_by (\<lambda>a b. b \<le> (a :: nat)) xs = rev (sort xs)"
proof (rule sorted_unique [of "\<lambda>a b. b \<le> a"])
  show "sorted_wrt (\<lambda>a b. b \<le> a) (rev (sort xs))" by (simp add: sorted_wrt_rev)
qed (auto intro: sorted_sort_by [OF ge_pre])

lemma graph_pairs_Some:
  "length ss = length ks \<Longrightarrow> \<forall>x\<in>set ss \<union> set ks. x < 2 ^ 32 \<Longrightarrow> graph_pairs (map Some ss) ks = Some (zip ss ks)"
  by (induction ss ks rule: list_induct2) (simp_all add: as_u32_def)

lemma dispatch_key_canonical:
  assumes "length slots = length ks" and "\<forall>x\<in>set slots \<union> set ks. x < 2 ^ 32"
  shows "dispatch_key slots ks True null woa = Some (verify_graph_key (zip (sort slots) (rev (sort ks))) null woa)"
proof -
  obtain order where o: "verify_batch_permutation slots ks True = Some order"
    using assms(1) by (simp add: verify_batch_permutation_def)
  have "length order = length slots" using permutation_spec(2) [OF o] by (metis length_upt minus_nat.diff_0 size_mset)
  then have d: "verify_batch_order slots ks True = Some (order, rev (sort ks))"
    using assms(1) o by (simp add: verify_batch_order_def sort_by_ge)
  have "map (\<lambda>i. Some (slots ! i)) order = map Some (sort slots)"
    using canonical_slots [OF o] by (metis (no_types, lifting) map_map comp_apply map_cong)
  moreover have "graph_pairs (map Some (sort slots)) (rev (sort ks)) = Some (zip (sort slots) (rev (sort ks)))"
    by (rule graph_pairs_Some) (use assms in auto)
  ultimately show ?thesis by (simp add: dispatch_key_def d verify_batched_graph_key_def)
qed

lemma key_pairs_inj: "key_pairs ps = key_pairs qs \<Longrightarrow> ps = qs"
proof (induction ps arbitrary: qs)
  case Nil
  then show ?case by (cases qs) auto
next
  case (Cons p ps)
  then show ?case by (cases p; cases qs) auto
qed

lemma verify_graph_key_inj:
  "verify_graph_key ps null woa = verify_graph_key qs null' woa' \<longleftrightarrow> ps = qs \<and> null = null' \<and> woa = woa'"
proof
  assume e: "verify_graph_key ps null woa = verify_graph_key qs null' woa'"
  then have "ps = qs" by (auto simp: verify_graph_key_def dest: key_pairs_inj)
  moreover have "null = null' \<and> woa = woa'"
    using e by (cases null; cases null'; cases woa; cases woa') (simp_all add: verify_graph_key_def)
  ultimately show "ps = qs \<and> null = null' \<and> woa = woa'" by simp
qed simp

lemma sort_eq_iff: "sort xs = sort ys \<longleftrightarrow> mset xs = mset ys"
  by (metis mset_sort properties_for_sort sorted_sort)

text \<open>C31: Under the canonical arm the graph key of a batch is a function of its multiset of slots, its
  multiset of row counts and the two flags, and determines them: two batches share a captured graph
  exactly when they agree on all four.\<close>

theorem canonical_key_iff:
  assumes "length slots = length ks" and "length slots' = length ks'"
    and "\<forall>x\<in>set slots \<union> set ks \<union> set slots' \<union> set ks'. x < 2 ^ 32"
  shows "dispatch_key slots ks True null woa = dispatch_key slots' ks' True null' woa'
    \<longleftrightarrow> mset slots = mset slots' \<and> mset ks = mset ks' \<and> null = null' \<and> woa = woa'"
proof -
  let ?p = "zip (sort slots) (rev (sort ks))" and ?q = "zip (sort slots') (rev (sort ks'))"
  have 1: "dispatch_key slots ks True null woa = Some (verify_graph_key ?p null woa)"
    by (rule dispatch_key_canonical [OF assms(1)]) (use assms(3) in blast)
  have 2: "dispatch_key slots' ks' True null' woa' = Some (verify_graph_key ?q null' woa')"
    by (rule dispatch_key_canonical [OF assms(2)]) (use assms(3) in blast)
  have "?p = ?q \<longleftrightarrow> mset slots = mset slots' \<and> mset ks = mset ks'"
  proof
    assume e: "?p = ?q"
    have "map fst ?p = sort slots" "map snd ?p = rev (sort ks)" using assms(1) by simp_all
    moreover have "map fst ?q = sort slots'" "map snd ?q = rev (sort ks')" using assms(2) by simp_all
    ultimately have "sort slots = sort slots'" "rev (sort ks) = rev (sort ks')" using e by simp_all
    then show "mset slots = mset slots' \<and> mset ks = mset ks'" by (simp add: sort_eq_iff)
  next
    assume "mset slots = mset slots' \<and> mset ks = mset ks'"
    then have "sort slots = sort slots'" "sort ks = sort ks'" by (simp_all add: sort_eq_iff)
    then show "?p = ?q" by simp
  qed
  with 1 2 show ?thesis by (simp add: verify_graph_key_inj)
qed

lemma canonical_key_iff_witness:
  "dispatch_key [2, 0, 1] [3, 2, 4] True False False = dispatch_key [0, 1, 2] [4, 3, 2] True False False
   \<and> dispatch_key [2, 0, 1] [3, 2, 4] False False False \<noteq> dispatch_key [0, 1, 2] [4, 3, 2] False False False"
proof
  show "dispatch_key [2, 0, 1] [3, 2, 4] True False False = dispatch_key [0, 1, 2] [4, 3, 2] True False False"
    using canonical_key_iff [of "[2, 0, 1]" "[3, 2, 4]" "[0, 1, 2]" "[4, 3, 2]" False False False False] by simp
  show "dispatch_key [2, 0, 1] [3, 2, 4] False False False \<noteq> dispatch_key [0, 1, 2] [4, 3, 2] False False False"
    by (simp add: dispatch_key_def verify_batch_order_def verify_batch_permutation_def sort_by_def upt_rec
        by_depth_def by_slot_def verify_batched_graph_key_def verify_graph_key_def as_u32_def)
qed

text \<open>The dispatch order is a permutation of the batch in both arms. Without the canonical arm each
  member keeps its own row count, deepest first and then by slot; with it the slots ascend, the
  depths descend and are the given multiset, and ordering the ordered batch again changes nothing.\<close>

theorem verify_order_spec:
  assumes "verify_batch_order slots ks canonical = Some (order, depths)"
  shows "mset order = mset [0..<length slots] \<and> mset depths = mset ks \<and> length depths = length order
    \<and> sorted_wrt (\<lambda>a b. b \<le> a) depths
    \<and> (canonical \<longrightarrow> sorted (map (\<lambda>i. slots ! i) order)
        \<and> verify_batch_order (map (\<lambda>i. slots ! i) order) depths canonical = Some ([0..<length order], depths))
    \<and> (\<not> canonical \<longrightarrow> depths = map (\<lambda>i. ks ! i) order \<and> sorted_wrt (by_depth slots ks) order)"
proof -
  obtain o: "verify_batch_permutation slots ks canonical = Some order"
    and d: "depths = (if canonical then sort_by (\<lambda>a b. b \<le> a) (take (length order) ks) else map (\<lambda>i. ks ! i) order)"
    using assms by (auto simp: verify_batch_order_def split: option.splits)
  note P = permutation_spec [OF o]
  have lo: "length order = length slots" using P(2) by (metis length_upt minus_nat.diff_0 size_mset)
  have ms: "mset depths = mset ks"
    using P(1) lo mset_map_nth [of order ks] P(2) by (cases canonical) (simp_all add: d)
  have sd: "sorted_wrt (\<lambda>a b. b \<le> a) depths"
  proof (cases canonical)
    case True
    then show ?thesis by (simp add: d sorted_sort_by ge_pre)
  next
    case False
    have "sorted_wrt (\<lambda>i j. ks ! j \<le> ks ! i) order"
      by (rule sorted_wrt_mono_rel [OF _ P(3)]) (use False in \<open>auto simp: by_depth_def\<close>)
    with False show ?thesis by (simp add: d sorted_wrt_map)
  qed
  have canon: "sorted (map (\<lambda>i. slots ! i) order)
        \<and> verify_batch_order (map (\<lambda>i. slots ! i) order) depths canonical = Some ([0..<length order], depths)"
    if canonical
  proof -
    let ?s = "map (\<lambda>i. slots ! i) order"
    have s: "?s = sort slots" using canonical_slots o that by simp
    have ld: "length depths = length order" using ms P(1) lo by (metis size_mset)
    have "sort_by (by_slot ?s) [0..<length order] = [0..<length order]"
    proof (rule sort_by_sorted)
      show "sorted_wrt (by_slot ?s) [0..<length order]"
      proof -
        have "sort slots ! i < sort slots ! j \<or> sort slots ! i = sort slots ! j" if "i < j" "j < length slots" for i j
          using sorted_nth_mono [of "sort slots" i j] that by (simp add: le_less)
        then show ?thesis unfolding s by (auto simp: sorted_wrt_iff_nth_less by_slot_def lo)
      qed
    qed (auto simp: by_slot_pre by_slot_def)
    moreover have "sort_by (\<lambda>a b. b \<le> a) depths = depths"
      by (rule sort_by_sorted [OF sd]) (auto simp: ge_pre)
    ultimately show ?thesis using that ld s lo by (simp add: verify_batch_order_def verify_batch_permutation_def)
  qed
  have "length depths = length order" using ms P(1) lo by (metis size_mset)
  moreover have "depths = map (\<lambda>i. ks ! i) order \<and> sorted_wrt (by_depth slots ks) order" if "\<not> canonical"
    using that P(3) by (simp add: d)
  ultimately show ?thesis using P(2) ms sd canon by blast
qed

lemma verify_order_spec_witness:
  "verify_batch_order [2, 0, 1] [3, 2, 4] True = Some ([1, 2, 0], [4, 3, 2]) \<and> sorted (map (\<lambda>i. [2, 0, 1 :: nat] ! i) [1, 2, 0])"
proof -
  have e: "verify_batch_order [2, 0, 1] [3, 2, 4] True = Some ([1, 2, 0], [4, 3, 2])"
    by (simp add: verify_batch_order_def verify_batch_permutation_def sort_by_def upt_rec by_slot_def)
  show ?thesis using verify_order_spec [OF e] e by simp
qed

end
