(* ===== verification/Dcut.thy ===== *)
theory Dcut
  imports Verify_Key
begin

text \<open>
  D-Cut, the pruning of a batched verify to the drafts most likely to be accepted
  (crates/server/src/scheduler/mtp_dcut.rs). A confidence is a value of an arbitrary type with the
  operations the code uses, in place of \<open>f32\<close>; the products with the retention ratio, rounded, are
  the function \<open>by_ratio\<close>. The telemetry counters are not modelled.
\<close>

record 'f score_ops =
  so_zero :: 'f
  so_add :: "'f \<Rightarrow> 'f \<Rightarrow> 'f"
  so_lt :: "'f \<Rightarrow> 'f \<Rightarrow> bool"

definition VERIFY_ROW_BUDGET :: nat where
  "VERIFY_ROW_BUDGET = 256"

definition WIDTH_CAP :: nat where
  "WIDTH_CAP = 128"

subsection \<open>select\<close>

text \<open>The positions of one sequence from depth \<open>j\<close>, with the running prefix sum; depth 0 is not ranked.\<close>

fun rank_row :: "'f score_ops \<Rightarrow> nat \<Rightarrow> 'f list \<Rightarrow> nat \<Rightarrow> nat \<Rightarrow> 'f \<Rightarrow> ('f \<times> nat \<times> nat) list" where
  "rank_row ops i c j 0 acc = []"
| "rank_row ops i c j (Suc m) acc =
    (let acc' = so_add ops acc (if j < length c then c ! j else so_zero ops)
     in (if 1 \<le> j then [(acc', i, j)] else []) @ rank_row ops i c (Suc j) m acc')"

definition rank_all :: "'f score_ops \<Rightarrow> 'f list list \<Rightarrow> nat \<Rightarrow> ('f \<times> nat \<times> nat) list" where
  "rank_all ops confs k = concat (map (\<lambda>i. rank_row ops i (confs ! i) 0 k (so_zero ops)) [0..<length confs])"

text \<open>\<open>b.0.partial_cmp(&a.0).unwrap_or(Equal).then(..)\<close>.\<close>

definition rank_le :: "'f score_ops \<Rightarrow> 'f \<times> nat \<times> nat \<Rightarrow> 'f \<times> nat \<times> nat \<Rightarrow> bool" where
  "rank_le ops a b = (case (a, b) of ((s, i, j), (t, i', j')) \<Rightarrow>
     so_lt ops t s \<or> \<not> so_lt ops s t \<and> (i < i' \<or> i = i' \<and> j \<le> j'))"

definition dcut_select :: "'f score_ops \<Rightarrow> (nat \<Rightarrow> nat) \<Rightarrow> 'f list list \<Rightarrow> nat \<Rightarrow> nat \<Rightarrow> nat list" where
  "dcut_select ops by_ratio confs k_drafts row_budget =
    (let n = length confs; retained = replicate n (min 1 k_drafts) in
     if k_drafts \<le> 1 \<or> n = 0 then retained
     else
       let prunable = n * (k_drafts - 1);
           ranked = sort_by (rank_le ops) (rank_all ops confs k_drafts);
           by_budget = row_budget - 2 * n;
           keep = min (min (by_ratio prunable) by_budget) prunable
       in fold (\<lambda>(s, i, j) r. r[i := max (r ! i) (j + 1)]) (take keep ranked) retained)"

subsection \<open>plan\<close>

record 'f dcut_seq =
  ds_slot :: "nat option"
  ds_drafts :: "token list"
  ds_conf :: "'f list"

record dcut_levers =
  dl_enabled :: bool
  dl_width_cap :: nat
  dl_min_width :: nat
  dl_kill_clear :: bool

definition seq_conf :: "'f dcut_seq \<Rightarrow> 'f list" where
  "seq_conf a = (if length (ds_conf a) = length (ds_drafts a) then ds_conf a else [])"

definition dcut_truncate :: "nat \<Rightarrow> 'f dcut_seq \<Rightarrow> 'f dcut_seq" where
  "dcut_truncate k a = a\<lparr> ds_drafts := take (k - 1) (ds_drafts a), ds_conf := take (k - 1) (ds_conf a) \<rparr>"

definition dcut_depths :: "'f score_ops \<Rightarrow> (nat \<Rightarrow> nat) \<Rightarrow> 'f dcut_seq list \<Rightarrow> nat list \<Rightarrow> nat \<Rightarrow> nat list" where
  "dcut_depths ops by_ratio active batchable ladder_nd =
    map (\<lambda>r. min (max r 1) ladder_nd + 1)
      (dcut_select ops by_ratio (map (\<lambda>i. seq_conf (active ! i)) batchable) ladder_nd VERIFY_ROW_BUDGET)"

text \<open>The row counts in dispatch order, the reordered batch and the sequences with their drafts
  truncated; \<open>None\<close> is a panic.\<close>

definition dcut_plan :: "'f score_ops \<Rightarrow> (nat \<Rightarrow> nat) \<Rightarrow> dcut_levers \<Rightarrow> 'f dcut_seq list \<Rightarrow> nat list \<Rightarrow> nat \<Rightarrow> nat
    \<Rightarrow> (nat list \<times> nat list \<times> 'f dcut_seq list) option" where
  "dcut_plan ops by_ratio lev active batchable ladder_nd rows =
    (if \<not> dl_enabled lev \<or> ladder_nd < 2 \<or> batchable = [] \<or> dl_width_cap lev < length batchable
     then Some (replicate (length batchable) rows, batchable, active)
     else
       let ks = dcut_depths ops by_ratio active batchable ladder_nd;
           slots = map (\<lambda>i. case ds_slot (active ! i) of Some s \<Rightarrow> s | None \<Rightarrow> 2 ^ 64 - 1) batchable
       in case verify_batch_order slots ks
              (canonical_assignment_at (length batchable) (dl_min_width lev) (dl_kill_clear lev)) of
            None \<Rightarrow> None
          | Some (order, ks_out) \<Rightarrow>
              let reordered = map (\<lambda>p. batchable ! p) order
              in Some (ks_out, reordered,
                   fold (\<lambda>(i, k) act. act[i := dcut_truncate k (act ! i)]) (zip reordered ks_out) active))"

subsection \<open>Chunks\<close>

text \<open>The inner loop: how many sequences the chunk takes, with \<open>cap\<close> places and \<open>r\<close> rows already in it.\<close>

fun chunk_fill :: "nat \<Rightarrow> nat \<Rightarrow> nat list \<Rightarrow> nat" where
  "chunk_fill cap r [] = 0"
| "chunk_fill cap r (k # ks) =
    (if 0 < cap \<and> r + k \<le> VERIFY_ROW_BUDGET then Suc (chunk_fill (cap - 1) (r + k) ks) else 0)"

definition chunk_size :: "nat list \<Rightarrow> nat" where
  "chunk_size ks = max 1 (chunk_fill (min (VERIFY_ROW_BUDGET div max (hd ks) 1) WIDTH_CAP) 0 ks)"

function chunk_from :: "nat \<Rightarrow> nat list \<Rightarrow> (nat \<times> nat) list" where
  "chunk_from lo [] = []"
| "chunk_from lo (k # ks) =
    (lo, lo + chunk_size (k # ks)) # chunk_from (lo + chunk_size (k # ks)) (drop (chunk_size (k # ks)) (k # ks))"
  by pat_completeness auto
termination
  by (relation "measure (length \<circ> snd)") (auto simp: chunk_size_def)

definition chunk_ranges :: "nat list \<Rightarrow> (nat \<times> nat) list" where
  "chunk_ranges ks = chunk_from 0 ks"

end
