(* ===== verification/Dcut_Props.thy ===== *)
theory Dcut_Props
  imports Dcut
begin

text \<open>
  What D-Cut guarantees: the kept drafts of a sequence are a prefix of its drafts, the number kept
  is exactly the retention count, within the row budget, and no kept draft is less likely to be
  reached than a pruned one; a planned batch keeps every sequence's first draft and fits the verify
  buffer; the chunks cover the batch and satisfy the model's bounds.
\<close>

subsection \<open>The ranking\<close>

text \<open>\<open>f32\<close> without NaN is a strict weak order, and adding a log-probability, which is at most zero,
  never increases a sum.\<close>

definition score_laws :: "'f score_ops \<Rightarrow> 'f set \<Rightarrow> bool" where
  "score_laws ops V \<longleftrightarrow> (\<forall>a. \<not> so_lt ops a a)
     \<and> (\<forall>a b c. so_lt ops a b \<longrightarrow> so_lt ops b c \<longrightarrow> so_lt ops a c)
     \<and> (\<forall>a b c. \<not> so_lt ops a b \<longrightarrow> \<not> so_lt ops b c \<longrightarrow> \<not> so_lt ops a c)
     \<and> (\<forall>a. \<forall>c\<in>insert (so_zero ops) V. \<not> so_lt ops a (so_add ops a c))"

fun survival :: "'f score_ops \<Rightarrow> 'f list \<Rightarrow> nat \<Rightarrow> 'f" where
  "survival ops c 0 = so_add ops (so_zero ops) (if 0 < length c then c ! 0 else so_zero ops)"
| "survival ops c (Suc j) = so_add ops (survival ops c j) (if Suc j < length c then c ! Suc j else so_zero ops)"

lemma rank_row_eq:
  "acc = (case j of 0 \<Rightarrow> so_zero ops | Suc i \<Rightarrow> survival ops c i) \<Longrightarrow>
     rank_row ops i c j m acc = map (\<lambda>d. (survival ops c d, i, d)) (filter (\<lambda>d. 1 \<le> d) [j..<j + m])"
proof (induction m arbitrary: j acc)
  case (Suc m)
  have e: "so_add ops acc (if j < length c then c ! j else so_zero ops) = survival ops c j"
    using Suc.prems by (cases j) auto
  have "rank_row ops i c (Suc j) m (survival ops c j)
      = map (\<lambda>d. (survival ops c d, i, d)) (filter (\<lambda>d. 1 \<le> d) [Suc j..<Suc j + m])"
    by (rule Suc.IH) simp
  then show ?case unfolding rank_row.simps(2) Let_def e using upt_rec [of j "j + Suc m"] by simp
qed simp

definition positions :: "'f score_ops \<Rightarrow> 'f list list \<Rightarrow> nat \<Rightarrow> ('f \<times> nat \<times> nat) list" where
  "positions ops confs k = concat (map (\<lambda>i. map (\<lambda>d. (survival ops (confs ! i) d, i, d)) [1..<k]) [0..<length confs])"

lemma rank_all_eq: "rank_all ops confs k = positions ops confs k"
proof -
  have "filter (\<lambda>d. 1 \<le> d) [0..<0 + k] = [1..<k]"
  proof (cases k)
    case (Suc m)
    then have "[0..<0 + k] = 0 # [1..<k]" using upt_conv_Cons [of 0 k] by simp
    then show ?thesis by simp
  qed simp
  then show ?thesis
    using rank_row_eq [of _ ops _ 0 _ k] by (simp add: rank_all_def positions_def)
qed

lemma positions_set:
  "x \<in> set (positions ops confs k) \<longleftrightarrow> (\<exists>i d. x = (survival ops (confs ! i) d, i, d) \<and> i < length confs \<and> 1 \<le> d \<and> d < k)"
  by (auto simp: positions_def image_iff Bex_def)

lemma positions_length: "length (positions ops confs k) = length confs * (k - 1)"
  by (simp add: positions_def length_concat comp_def sum_list_triv)

lemma positions_distinct: "distinct (map snd (positions ops confs k))"
proof -
  have "map snd (positions ops confs k) = List.product [0..<length confs] [1..<k]"
    by (simp add: positions_def product_concat_map map_concat comp_def)
  then show ?thesis by (simp add: distinct_product)
qed

lemma score_lawsD:
  assumes "score_laws ops V"
  shows "\<not> so_lt ops a a"
    and "so_lt ops a b \<Longrightarrow> so_lt ops b c \<Longrightarrow> so_lt ops a c"
    and "\<not> so_lt ops a b \<Longrightarrow> \<not> so_lt ops b c \<Longrightarrow> \<not> so_lt ops a c"
    and "v = so_zero ops \<or> v \<in> V \<Longrightarrow> \<not> so_lt ops a (so_add ops a v)"
  using assms unfolding score_laws_def by (blast, blast, blast, blast)

lemma rank_le_pre:
  assumes "score_laws ops V" shows "total_pre (rank_le ops) A"
proof -
  note irr = score_lawsD(1) [OF assms] and tr = score_lawsD(2) [OF assms] and nt = score_lawsD(3) [OF assms]
  have tot: "rank_le ops x y \<or> rank_le ops y x" for x y
    by (cases x; cases y) (auto simp: rank_le_def)
  have trans: "rank_le ops x z" if xy: "rank_le ops x y" and yz: "rank_le ops y z" for x y z
  proof -
    obtain s i d t i' d' u i'' d'' where xyz: "x = (s, i, d)" "y = (t, i', d')" "z = (u, i'', d'')"
      by (cases x; cases y; cases z) auto
    have "so_lt ops u s \<or> \<not> so_lt ops s u \<and> \<not> so_lt ops t s \<and> \<not> so_lt ops u t"
    proof (cases "so_lt ops u s")
      case False
      have "\<not> so_lt ops t s"
      proof
        assume ts: "so_lt ops t s"
        have "\<not> so_lt ops t u" using tr irr yz xyz by (auto simp: rank_le_def)
        with nt [of t u s] False ts show False by blast
      qed
      moreover have "\<not> so_lt ops u t"
      proof
        assume ut: "so_lt ops u t"
        have "\<not> so_lt ops s t" using tr irr xy xyz by (auto simp: rank_le_def)
        with nt [of u s t] False ut show False by blast
      qed
      moreover have "\<not> so_lt ops s u"
        using nt [of s t u] tr irr xy yz xyz by (auto simp: rank_le_def)
      ultimately show ?thesis by blast
    qed blast
    then show ?thesis using xy yz xyz by (auto simp: rank_le_def)
  qed
  show ?thesis unfolding total_pre_def using tot trans by blast
qed

lemma survival_mono:
  assumes "score_laws ops V" and "set c \<subseteq> V" and "d' \<le> d"
  shows "\<not> so_lt ops (survival ops c d') (survival ops c d)"
  using assms(3)
proof (induction rule: dec_induct)
  case base
  show ?case by (rule score_lawsD(1) [OF assms(1)])
next
  case (step n)
  have "(if Suc n < length c then c ! Suc n else so_zero ops) = so_zero ops
      \<or> (if Suc n < length c then c ! Suc n else so_zero ops) \<in> V"
    using assms(2) nth_mem [of "Suc n" c] by (cases "Suc n < length c") (simp_all add: subset_iff)
  then have "\<not> so_lt ops (survival ops c n) (survival ops c (Suc n))"
    unfolding survival.simps by (rule score_lawsD(4) [OF assms(1)])
  with step.IH show ?case by (rule score_lawsD(3) [OF assms(1)])
qed

lemma sorted_take_closed:
  assumes "sorted_wrt le xs" "x \<in> set (take m xs)" "y \<in> set xs" "\<not> le x y"
  shows "y \<in> set (take m xs)"
proof (rule ccontr)
  assume "y \<notin> set (take m xs)"
  then have "y \<in> set (drop m xs)" using assms(3) by (metis Un_iff append_take_drop_id set_append)
  moreover have "sorted_wrt le (take m xs @ drop m xs)" using assms(1) by simp
  ultimately have "le x y" using assms(2) unfolding sorted_wrt_append by blast
  with assms(4) show False by blast
qed

subsection \<open>The retained counts\<close>

lemma retain_fold:
  "i < length r \<Longrightarrow>
     fold (\<lambda>(s, i, d) r. r[i := max (r ! i) (d + 1)]) ps r ! i
     = Max (insert (r ! i) {d + 1 |d s. (s, i, d) \<in> set ps})
   \<and> length (fold (\<lambda>(s, i, d) r. r[i := max (r ! i) (d + 1)]) ps r) = length r"
proof (induction ps arbitrary: r)
  case (Cons p ps)
  obtain s i' d where p: "p = (s, i', d)" by (cases p)
  let ?r = "r[i' := max (r ! i') (d + 1)]"
  let ?S = "{d + 1 |d s. (s, i, d) \<in> set ps}" and ?T = "{d + 1 |d s. (s, i, d) \<in> set (p # ps)}"
  have fin: "finite ?S"
    by (rule finite_subset [of _ "(\<lambda>x. snd (snd x) + 1) ` set ps"]) force+
  have IH: "fold (\<lambda>(s, i, d) r. r[i := max (r ! i) (d + 1)]) ps ?r ! i = Max (insert (?r ! i) ?S)
    \<and> length (fold (\<lambda>(s, i, d) r. r[i := max (r ! i) (d + 1)]) ps ?r) = length ?r"
    by (rule Cons.IH) (use Cons.prems in auto)
  have "Max (insert (?r ! i) ?S) = Max (insert (r ! i) ?T)"
  proof (cases "i' = i")
    case True
    then have "?T = insert (d + 1) ?S" using p by auto
    moreover have "Max (insert (max (r ! i) (d + 1)) ?S) = Max (insert (r ! i) (insert (d + 1) ?S))"
      using fin by (cases "?S = {}") (auto simp: max.assoc)
    ultimately show ?thesis using True Cons.prems(1) by simp
  next
    case False
    then have "?T = ?S" using p by auto
    with False show ?thesis by simp
  qed
  with IH p show ?case by simp
qed simp

lemma prefix_set_card:
  assumes "\<And>d. d \<in> S \<Longrightarrow> 1 \<le> d" and "\<And>d d'. d \<in> S \<Longrightarrow> 1 \<le> d' \<Longrightarrow> d' \<le> d \<Longrightarrow> d' \<in> S" and "finite S"
  shows "Max (insert 1 {d + 1 |d. d \<in> S}) = card S + (1 :: nat)" and "S = {1..card S}"
proof -
  have "Max (insert 1 {d + 1 |d. d \<in> S}) = card S + 1 \<and> S = {1..card S}"
  proof (cases "S = {}")
    case False
    let ?m = "Max S"
    have S: "S = {1..?m}"
    proof (intro equalityI subsetI)
      show "d \<in> {1..?m}" if "d \<in> S" for d using assms(1,3) that by simp
      show "d \<in> S" if "d \<in> {1..?m}" for d using assms(2) [OF Max_in [OF assms(3) False]] that by simp
    qed
    then have c: "card S = ?m" by (metis card_atLeastAtMost diff_Suc_1)
    have "?m \<in> S" using assms(3) False by simp
    have "Max (insert 1 {d + 1 |d. d \<in> S}) = ?m + 1"
    proof (rule Max_eqI)
      show "finite (insert 1 {d + 1 |d. d \<in> S})" using assms(3) by simp
      show "x \<le> ?m + 1" if "x \<in> insert 1 {d + 1 |d. d \<in> S}" for x
        using that Max_ge [OF assms(3)] by auto
      show "?m + 1 \<in> insert 1 {d + 1 |d. d \<in> S}" using \<open>?m \<in> S\<close> by blast
    qed
    with c S show ?thesis by simp
  qed simp
  then show "Max (insert 1 {d + 1 |d. d \<in> S}) = card S + 1" "S = {1..card S}" by blast+
qed

text \<open>The kept positions: a prefix of every row, and the best \<open>keep\<close> of all.\<close>

definition kept :: "'f score_ops \<Rightarrow> 'f list list \<Rightarrow> nat \<Rightarrow> nat \<Rightarrow> ('f \<times> nat \<times> nat) list" where
  "kept ops confs k m = take m (sort_by (rank_le ops) (positions ops confs k))"

definition kept_depths :: "'f score_ops \<Rightarrow> 'f list list \<Rightarrow> nat \<Rightarrow> nat \<Rightarrow> nat \<Rightarrow> nat set" where
  "kept_depths ops confs k m i = {d. \<exists>s. (s, i, d) \<in> set (kept ops confs k m)}"


lemma kept_in:
  "x \<in> set (kept ops confs k m) \<Longrightarrow>
    \<exists>i d. x = (survival ops (confs ! i) d, i, d) \<and> i < length confs \<and> 1 \<le> d \<and> d < k"
  using positions_set [of x ops confs k] set_take_subset [of m "sort_by (rank_le ops) (positions ops confs k)"]
  by (auto simp: kept_def)

lemma kept_closed:
  assumes ok: "score_laws ops (\<Union> (set ` set confs))" and "(s, i, d) \<in> set (kept ops confs k m)" "1 \<le> d'" "d' \<le> d"
  shows "(survival ops (confs ! i) d', i, d') \<in> set (kept ops confs k m)"
proof -
  have x: "s = survival ops (confs ! i) d" "i < length confs" "d < k" using kept_in [OF assms(2)] by auto
  show ?thesis
  proof (cases "d' = d")
    case False
    have "set (confs ! i) \<subseteq> \<Union> (set ` set confs)" using nth_mem [OF x(2)] by blast
    from survival_mono [OF ok this assms(4)]
    have n: "\<not> rank_le ops (s, i, d) (survival ops (confs ! i) d', i, d')"
      using False assms(4) x(1) by (simp add: rank_le_def)
    show ?thesis unfolding kept_def
      by (rule sorted_take_closed [OF sorted_sort_by [OF rank_le_pre [OF ok]] assms(2) [unfolded kept_def] _ n])
        (use x assms(3,4) in \<open>auto simp: positions_set\<close>)
  qed (use assms(2) x in simp)
qed

lemma kept_best:
  assumes ok: "score_laws ops (\<Union> (set ` set confs))" and "(s, i, d) \<in> set (kept ops confs k m)" "i' < length confs" "1 \<le> d'" "d' < k"
    and "d' \<notin> kept_depths ops confs k m i'"
  shows "\<not> so_lt ops s (survival ops (confs ! i') d')"
proof
  let ?y = "(survival ops (confs ! i') d', i', d')"
  assume lt: "so_lt ops s (survival ops (confs ! i') d')"
  then have n: "\<not> rank_le ops (s, i, d) ?y"
    using score_lawsD(1,2) [OF ok] by (auto simp: rank_le_def)
  have "?y \<in> set (kept ops confs k m)" unfolding kept_def
    by (rule sorted_take_closed [OF sorted_sort_by [OF rank_le_pre [OF ok]] assms(2) [unfolded kept_def] _ n])
      (use assms(3-5) in \<open>auto simp: positions_set\<close>)
  with assms(6) show False by (auto simp: kept_depths_def)
qed

lemma kept_depths_facts:
  assumes ok: "score_laws ops (\<Union> (set ` set confs))"
  shows "finite (kept_depths ops confs k m i)" "kept_depths ops confs k m i \<subseteq> {1..<k}"
  "kept_depths ops confs k m i = {1..card (kept_depths ops confs k m i)}"
  "Max (insert 1 {d + 1 |d. d \<in> kept_depths ops confs k m i}) = card (kept_depths ops confs k m i) + 1"
proof -
  show sub: "kept_depths ops confs k m i \<subseteq> {1..<k}" using kept_in by (fastforce simp: kept_depths_def)
  then show fin: "finite (kept_depths ops confs k m i)" by (rule finite_subset) simp
  have pre: "d' \<in> kept_depths ops confs k m i" if "d \<in> kept_depths ops confs k m i" "1 \<le> d'" "d' \<le> d" for d d'
    using that kept_closed [OF ok, of _ i d k m d'] unfolding kept_depths_def by blast
  have pos: "1 \<le> d" if "d \<in> kept_depths ops confs k m i" for d using that sub by auto
  show "kept_depths ops confs k m i = {1..card (kept_depths ops confs k m i)}"
    by (rule prefix_set_card(2) [OF pos pre fin])
  show "Max (insert 1 {d + 1 |d. d \<in> kept_depths ops confs k m i}) = card (kept_depths ops confs k m i) + 1"
    by (rule prefix_set_card(1) [OF pos pre fin])
qed

lemma kept_card:
  assumes ok: "score_laws ops (\<Union> (set ` set confs))"
  shows "(\<Sum>i<length confs. card (kept_depths ops confs k m i)) = min m (length confs * (k - 1))"
proof -
  let ?L = "sort_by (rank_le ops) (positions ops confs k)"
  have "mset (map snd ?L) = mset (map snd (positions ops confs k))" by simp
  then have "distinct (map snd ?L)" using positions_distinct by (metis mset_eq_imp_distinct_iff)
  then have "distinct (take m (map snd ?L))" by (rule distinct_take)
  then have "distinct (map snd (kept ops confs k m))" by (simp only: kept_def take_map)
  then have "card (snd ` set (kept ops confs k m)) = length (kept ops confs k m)"
    by (metis distinct_card length_map set_map)
  also have "\<dots> = min m (length confs * (k - 1))" by (simp add: kept_def positions_length min.commute)
  also have "snd ` set (kept ops confs k m) = (SIGMA i:{..<length confs}. kept_depths ops confs k m i)"
  proof (intro equalityI subsetI)
    fix y assume "y \<in> snd ` set (kept ops confs k m)"
    then obtain x where x: "x \<in> set (kept ops confs k m)" "y = snd x" by blast
    with kept_in [OF x(1)] show "y \<in> (SIGMA i:{..<length confs}. kept_depths ops confs k m i)"
      by (auto simp: kept_depths_def)
  next
    fix y assume "y \<in> (SIGMA i:{..<length confs}. kept_depths ops confs k m i)"
    then show "y \<in> snd ` set (kept ops confs k m)" by (force simp: kept_depths_def)
  qed
  also have "card \<dots> = (\<Sum>i<length confs. card (kept_depths ops confs k m i))"
    by (rule card_SigmaI) (simp_all add: kept_depths_facts(1) [OF ok])
  finally show ?thesis by simp
qed

lemma retained_counts:
  assumes ok: "score_laws ops (\<Union> (set ` set confs))" and "i < length confs"
  shows "fold (\<lambda>(s, i, d) r. r[i := max (r ! i) (d + 1)]) (kept ops confs k m) (replicate (length confs) 1) ! i
      = card (kept_depths ops confs k m i) + 1"
    and "length (fold (\<lambda>(s, i, d) r. r[i := max (r ! i) (d + 1)]) (kept ops confs k m) (replicate (length confs) 1))
      = length confs"
proof -
  have "fold (\<lambda>(s, i, d) r. r[i := max (r ! i) (d + 1)]) (kept ops confs k m) (replicate (length confs) 1) ! i
      = Max (insert (replicate (length confs) 1 ! i) {d + 1 |d s. (s, i, d) \<in> set (kept ops confs k m)})
    \<and> length (fold (\<lambda>(s, i, d) r. r[i := max (r ! i) (d + 1)]) (kept ops confs k m) (replicate (length confs) 1))
      = length (replicate (length confs) (1 :: nat))"
    by (rule retain_fold) (use assms in auto)
  moreover have "{d + 1 |d s. (s, i, d) \<in> set (kept ops confs k m)} = {d + 1 |d. d \<in> kept_depths ops confs k m i}"
    by (auto simp: kept_depths_def)
  ultimately show "fold (\<lambda>(s, i, d) r. r[i := max (r ! i) (d + 1)]) (kept ops confs k m) (replicate (length confs) 1) ! i
      = card (kept_depths ops confs k m i) + 1"
    and "length (fold (\<lambda>(s, i, d) r. r[i := max (r ! i) (d + 1)]) (kept ops confs k m) (replicate (length confs) 1))
      = length confs"
    using assms kept_depths_facts(4) [OF ok, of k m i] by simp_all
qed

definition dcut_keep :: "(nat \<Rightarrow> nat) \<Rightarrow> nat \<Rightarrow> nat \<Rightarrow> nat \<Rightarrow> nat" where
  "dcut_keep by_ratio n k budget = min (min (by_ratio (n * (k - 1))) (budget - 2 * n)) (n * (k - 1))"

lemma dcut_select_kept:
  assumes "2 \<le> k"
  shows "dcut_select ops by_ratio confs k budget
    = fold (\<lambda>(s, i, d) r. r[i := max (r ! i) (d + 1)]) (kept ops confs k (dcut_keep by_ratio (length confs) k budget))
        (replicate (length confs) 1)"
  using assms by (auto simp: dcut_select_def Let_def kept_def rank_all_eq dcut_keep_def)

lemma dcut_select_counts:
  assumes ok: "score_laws ops (\<Union> (set ` set confs))" and "2 \<le> k"
    and r: "r = dcut_select ops by_ratio confs k budget"
  shows "length r = length confs" and "\<forall>i<length confs. 1 \<le> r ! i \<and> r ! i \<le> k"
    and "sum_list r = length confs + dcut_keep by_ratio (length confs) k budget"
    and "i < length confs \<Longrightarrow> r ! i = card (kept_depths ops confs k (dcut_keep by_ratio (length confs) k budget) i) + 1"
proof -
  let ?n = "length confs" and ?m = "dcut_keep by_ratio (length confs) k budget"
  let ?D = "kept_depths ops confs k ?m"
  have nth: "r ! i = card (?D i) + 1" if "i < ?n" for i
    unfolding r dcut_select_kept [OF assms(2)] by (rule retained_counts(1) [OF ok that])
  then show "i < ?n \<Longrightarrow> r ! i = card (?D i) + 1" .
  show len: "length r = ?n"
  proof (cases "confs = []")
    case False
    then show ?thesis unfolding r dcut_select_kept [OF assms(2)] by (intro retained_counts(2) [OF ok, of 0]) simp
  qed (simp add: r dcut_select_def)
  have le: "card (?D i) \<le> k - 1" for i
    using card_mono [OF _ kept_depths_facts(2) [OF ok, of k ?m i]] by simp
  have "sum_list r = (\<Sum>i<?n. r ! i)" by (simp add: sum_list_sum_nth len atLeast0LessThan)
  also have "\<dots> = (\<Sum>i<?n. card (?D i) + 1)" by (rule sum.cong) (simp_all add: nth)
  also have "\<dots> = ?n + (\<Sum>i<?n. card (?D i))" by (subst sum.distrib) simp
  also have "\<dots> = ?n + ?m" unfolding kept_card [OF ok] by (simp add: dcut_keep_def)
  finally show "sum_list r = ?n + ?m" .
  have "1 \<le> r ! i \<and> r ! i \<le> k" if "i < ?n" for i using nth [OF that] le [of i] assms(2) by simp
  then show "\<forall>i<?n. 1 \<le> r ! i \<and> r ! i \<le> k" by blast
qed

text \<open>With at least two drafts the selection keeps at least the first and at most all drafts of
  every sequence, exactly as many further drafts as the retention ratio and the row budget allow, and
  no kept draft is less likely to be reached than a pruned one.\<close>

theorem dcut_select_spec:
  assumes ok: "score_laws ops (\<Union> (set ` set confs))" and "2 \<le> k"
    and r: "r = dcut_select ops by_ratio confs k budget"
  shows "length r = length confs \<and> (\<forall>i<length confs. 1 \<le> r ! i \<and> r ! i \<le> k)
    \<and> sum_list r = length confs + dcut_keep by_ratio (length confs) k budget
    \<and> (\<forall>i<length confs. \<forall>i'<length confs. \<forall>d d'. 1 \<le> d \<and> d < r ! i \<and> r ! i' \<le> d' \<and> d' < k \<longrightarrow>
         \<not> so_lt ops (survival ops (confs ! i) d) (survival ops (confs ! i') d'))"
proof -
  let ?n = "length confs" and ?m = "dcut_keep by_ratio (length confs) k budget"
  let ?D = "kept_depths ops confs k ?m"
  note C = dcut_select_counts [OF assms]
  have "\<not> so_lt ops (survival ops (confs ! i) d) (survival ops (confs ! i') d')"
    if "i < ?n" "i' < ?n" "1 \<le> d" "d < r ! i" "r ! i' \<le> d'" "d' < k" for i i' d d'
  proof -
    have D: "?D x = {1..card (?D x)}" for x by (rule kept_depths_facts(3) [OF ok])
    have "d \<in> {1..card (?D i)}" using that C(4) [OF that(1)] by simp
    then have "d \<in> ?D i" using D [of i] by blast
    then obtain s where s: "(s, i, d) \<in> set (kept ops confs k ?m)" by (auto simp: kept_depths_def)
    have "d' \<notin> {1..card (?D i')}" using that C(4) [OF that(2)] by simp
    then have "d' \<notin> ?D i'" using D [of i'] by blast
    moreover have "s = survival ops (confs ! i) d" using kept_in [OF s] by simp
    ultimately show ?thesis using kept_best [OF ok s that(2)] that C(4) [OF that(2)] by simp
  qed
  then show ?thesis using C(1-3) by blast
qed

definition int_scores :: "int score_ops" where
  "int_scores = \<lparr> so_zero = 0, so_add = (+), so_lt = (<) \<rparr>"

lemma int_scores_laws: "\<forall>v\<in>V. v \<le> 0 \<Longrightarrow> score_laws int_scores V"
  by (auto simp: score_laws_def int_scores_def)

lemma dcut_select_spec_witness:
  "dcut_select int_scores (\<lambda>p. 2) [[- 1, - 1, - 1], [- 5, - 1, - 1]] 3 256 = [3, 1]
   \<and> sum_list (dcut_select int_scores (\<lambda>p. 2) [[- 1, - 1, - 1], [- 5, - 1, - 1]] 3 256) = 4"
proof
  show "dcut_select int_scores (\<lambda>p. 2) [[- 1, - 1, - 1], [- 5, - 1, - 1]] 3 256 = [3, 1]"
    by (simp add: dcut_select_def Let_def rank_all_def upt_rec int_scores_def sort_by_def rank_le_def numeral_3_eq_3 numeral_2_eq_2)
  have "score_laws int_scores (\<Union> (set ` set [[- 1, - 1, - 1], [- 5, - 1, - 1]]))"
    by (rule int_scores_laws) simp
  from dcut_select_spec [OF this, of 3 "dcut_select int_scores (\<lambda>p. 2) [[- 1, - 1, - 1], [- 5, - 1, - 1]] 3 256" "\<lambda>p. 2" 256]
  show "sum_list (dcut_select int_scores (\<lambda>p. 2) [[- 1, - 1, - 1], [- 5, - 1, - 1]] 3 256) = 4"
    by (simp add: dcut_keep_def)
qed

subsection \<open>plan\<close>

lemma fold_truncate:
  "distinct (map fst ps) \<Longrightarrow> \<forall>(i, k)\<in>set ps. i < length act \<Longrightarrow>
     length (fold (\<lambda>(i, k) act. act[i := dcut_truncate k (act ! i)]) ps act) = length act
     \<and> (\<forall>(i, k)\<in>set ps. fold (\<lambda>(i, k) act. act[i := dcut_truncate k (act ! i)]) ps act ! i = dcut_truncate k (act ! i))
     \<and> (\<forall>i. i \<notin> fst ` set ps \<longrightarrow> fold (\<lambda>(i, k) act. act[i := dcut_truncate k (act ! i)]) ps act ! i = act ! i)"
proof (induction ps arbitrary: act)
  case (Cons p ps)
  obtain i' k' where p: "p = (i', k')" by (cases p)
  let ?a = "act[i' := dcut_truncate k' (act ! i')]"
  let ?f = "fold (\<lambda>(i, k) act. act[i := dcut_truncate k (act ! i)]) ps ?a"
  have "i' < length act" "i' \<notin> fst ` set ps" using Cons.prems p by auto
  moreover have "length ?f = length ?a
     \<and> (\<forall>(i, k)\<in>set ps. ?f ! i = dcut_truncate k (?a ! i)) \<and> (\<forall>i. i \<notin> fst ` set ps \<longrightarrow> ?f ! i = ?a ! i)"
    by (rule Cons.IH) (use Cons.prems p in auto)
  moreover have "?a ! i = act ! i" if "(i, k) \<in> set ps" for i k
    using that \<open>i' \<notin> fst ` set ps\<close> by (metis fst_conv image_eqI nth_list_update_neq)
  ultimately show ?case using p by auto
qed simp

lemma sum_list_succ: "sum_list (map (\<lambda>x. x + 1) r) = sum_list r + (length r :: nat)"
  by (induction r) simp_all

text \<open>C30: Planning a batch of at most 128 sequences that each carry \<open>ladder_nd\<close> drafts, with D-Cut on,
  gives row counts of 2 to \<open>ladder_nd + 1\<close>, deepest first, that fit the verify buffer together; every
  sequence of the batch keeps exactly the prefix of its drafts that its row count verifies, and every
  other sequence is untouched.\<close>

theorem dcut_plan_spec:
  assumes on: "dl_enabled lev" "batchable \<noteq> []" "length batchable \<le> dl_width_cap lev" "length batchable \<le> WIDTH_CAP"
    and nd: "2 \<le> ladder_nd" and d: "distinct batchable"
    and drafts: "\<forall>i\<in>set batchable. i < length active \<and> length (ds_drafts (active ! i)) = ladder_nd"
    and laws: "score_laws ops (\<Union>i\<in>set batchable. set (seq_conf (active ! i)))"
  shows "\<exists>ks b act. dcut_plan ops by_ratio lev active batchable ladder_nd rows = Some (ks, b, act)
    \<and> mset b = mset batchable \<and> length ks = length b \<and> sorted_wrt (\<lambda>x y. y \<le> x) ks
    \<and> (\<forall>k\<in>set ks. 2 \<le> k \<and> k \<le> ladder_nd + 1) \<and> sum_list ks \<le> VERIFY_ROW_BUDGET
    \<and> length act = length active
    \<and> (\<forall>p<length b. ds_drafts (act ! (b ! p)) = take (ks ! p - 1) (ds_drafts (active ! (b ! p)))
         \<and> length (ds_drafts (act ! (b ! p))) + 1 = ks ! p)
    \<and> (\<forall>i. i \<notin> set b \<longrightarrow> act ! i = active ! i)"
proof -
  let ?confs = "map (\<lambda>i. seq_conf (active ! i)) batchable"
  define r where "r = dcut_select ops by_ratio ?confs ladder_nd VERIFY_ROW_BUDGET"
  have ok: "score_laws ops (\<Union> (set ` set ?confs))" using laws by (simp add: image_image)
  note S = dcut_select_counts [OF ok nd r_def]
  define ks0 where "ks0 = dcut_depths ops by_ratio active batchable ladder_nd"
  have lr: "length r = length batchable" using S by simp
  have r: "1 \<le> x \<and> x \<le> ladder_nd" if "x \<in> set r" for x using that S lr by (auto simp: in_set_conv_nth)
  then have "ks0 = map (\<lambda>x. x + 1) r" by (auto simp: ks0_def dcut_depths_def r_def)
  then have k0: "length ks0 = length batchable" "sum_list ks0 = sum_list r + length batchable"
    "\<forall>k\<in>set ks0. 2 \<le> k \<and> k \<le> ladder_nd + 1"
    using lr r sum_list_succ [of r] by auto
  have "dcut_keep by_ratio (length batchable) ladder_nd VERIFY_ROW_BUDGET \<le> VERIFY_ROW_BUDGET - 2 * length batchable"
    by (simp add: dcut_keep_def)
  moreover have "sum_list r = length batchable + dcut_keep by_ratio (length batchable) ladder_nd VERIFY_ROW_BUDGET"
    using S by simp
  ultimately have sum: "sum_list ks0 \<le> VERIFY_ROW_BUDGET"
    using k0(2) on(4) by (simp add: VERIFY_ROW_BUDGET_def WIDTH_CAP_def)
  let ?slots = "map (\<lambda>i. case ds_slot (active ! i) of Some s \<Rightarrow> s | None \<Rightarrow> 2 ^ 64 - 1) batchable"
  let ?c = "canonical_assignment_at (length batchable) (dl_min_width lev) (dl_kill_clear lev)"
  obtain order ks where o: "verify_batch_order ?slots ks0 ?c = Some (order, ks)"
    using k0(1) by (cases "verify_batch_order ?slots ks0 ?c") (auto simp: verify_batch_order_def verify_batch_permutation_def)
  note V = verify_order_spec [OF o]
  let ?b = "map (\<lambda>p. batchable ! p) order"
  have mb: "mset ?b = mset batchable" by (rule mset_map_nth) (use V in simp)
  then have db: "distinct ?b" "set ?b = set batchable" using d by (metis mset_eq_imp_distinct_iff, metis set_mset_mset)
  have lk: "length ks = length ?b" using V by simp
  let ?act = "fold (\<lambda>(i, k) act. act[i := dcut_truncate k (act ! i)]) (zip ?b ks) active"
  have z: "map fst (zip ?b ks) = ?b" using lk by simp
  have F: "length ?act = length active
     \<and> (\<forall>(i, k)\<in>set (zip ?b ks). ?act ! i = dcut_truncate k (active ! i))
     \<and> (\<forall>i. i \<notin> fst ` set (zip ?b ks) \<longrightarrow> ?act ! i = active ! i)"
  proof (rule fold_truncate)
    show "distinct (map fst (zip ?b ks))" unfolding z by (rule db(1))
    show "\<forall>(i, k)\<in>set (zip ?b ks). i < length active" using drafts db(2) by (auto dest: set_zip_leftD)
  qed
  have mk: "mset ks = mset ks0" using V by simp
  then have ks: "\<forall>k\<in>set ks. 2 \<le> k \<and> k \<le> ladder_nd + 1" "sum_list ks \<le> VERIFY_ROW_BUDGET"
    using k0(3) sum by (metis set_mset_mset, metis sum_mset_sum_list)
  have plan: "dcut_plan ops by_ratio lev active batchable ladder_nd rows = Some (ks, ?b, ?act)"
    using on nd o by (simp add: dcut_plan_def ks0_def Let_def)
  have each: "ds_drafts (?act ! (?b ! p)) = take (ks ! p - 1) (ds_drafts (active ! (?b ! p)))
         \<and> length (ds_drafts (?act ! (?b ! p))) + 1 = ks ! p" if "p < length ?b" for p
  proof -
    have "(?b ! p, ks ! p) \<in> set (zip ?b ks)" using that lk by (metis in_set_zip fst_conv snd_conv)
    then have a: "?act ! (?b ! p) = dcut_truncate (ks ! p) (active ! (?b ! p))" using F by fast
    have "?b ! p \<in> set batchable" using that db(2) nth_mem by blast
    moreover have "2 \<le> ks ! p \<and> ks ! p \<le> ladder_nd + 1" using ks(1) that lk by (metis nth_mem)
    ultimately show ?thesis using drafts unfolding a by (auto simp: dcut_truncate_def)
  qed
  have "fst ` set (zip ?b ks) = set ?b" using z by (metis list.set_map)
  then have out: "\<forall>i. i \<notin> set ?b \<longrightarrow> ?act ! i = active ! i" using F by blast
  have sd: "sorted_wrt (\<lambda>x y. y \<le> x) ks" and la: "length ?act = length active" using V F by blast+
  show ?thesis
    by (rule exI [of _ ks], rule exI [of _ ?b], rule exI [of _ ?act], intro conjI)
      (fact plan mb lk sd ks la out | use each in blast)+
qed

lemma dcut_plan_spec_witness:
  "dcut_plan int_scores (\<lambda>p. 1) \<lparr> dl_enabled = True, dl_width_cap = 8, dl_min_width = 8, dl_kill_clear = True \<rparr>
      [\<lparr> ds_slot = Some 1, ds_drafts = [5, 6], ds_conf = [- 1, - 4] \<rparr>, \<lparr> ds_slot = Some 0, ds_drafts = [7, 8], ds_conf = [- 1, - 1] \<rparr>]
      [0, 1] 2 3
    = Some ([3, 2], [1, 0], [\<lparr> ds_slot = Some 1, ds_drafts = [5], ds_conf = [- 1] \<rparr>,
                             \<lparr> ds_slot = Some 0, ds_drafts = [7, 8], ds_conf = [- 1, - 1] \<rparr>])
   \<and> sum_list [3, 2] \<le> VERIFY_ROW_BUDGET"
proof -
  let ?lev = "\<lparr> dl_enabled = True, dl_width_cap = 8, dl_min_width = 8, dl_kill_clear = True \<rparr>"
  let ?act = "[\<lparr> ds_slot = Some 1, ds_drafts = [5, 6], ds_conf = [- 1, - 4] \<rparr>,
    \<lparr> ds_slot = Some 0, ds_drafts = [7, 8], ds_conf = [- 1, - 1] \<rparr>]"
  let ?out = "Some ([3, 2], [1, 0], [\<lparr> ds_slot = Some 1, ds_drafts = [5], ds_conf = [- 1] \<rparr>,
    \<lparr> ds_slot = Some 0, ds_drafts = [7, 8], ds_conf = [- 1, - 1] \<rparr>])"
  have e: "dcut_plan int_scores (\<lambda>p. 1) ?lev ?act [0, 1] 2 3 = ?out"
    by (simp add: dcut_plan_def dcut_depths_def dcut_select_def seq_conf_def Let_def rank_all_def upt_rec
        int_scores_def sort_by_def rank_le_def numeral_2_eq_2 VERIFY_ROW_BUDGET_def verify_batch_order_def
        verify_batch_permutation_def canonical_assignment_at_def by_depth_def by_slot_def dcut_truncate_def)
  have "score_laws int_scores (\<Union>i\<in>set [0, 1]. set (seq_conf (?act ! i)))"
    by (rule int_scores_laws) (simp add: seq_conf_def)
  from dcut_plan_spec [OF _ _ _ _ _ _ _ this, of ?lev 2 "\<lambda>p. 1" 3]
  have "sum_list [3, 2] \<le> VERIFY_ROW_BUDGET" unfolding e by (simp add: WIDTH_CAP_def)
  with e show ?thesis by blast
qed

subsection \<open>Chunks\<close>

lemma chunk_fill_bounds:
  "chunk_fill cap r ks \<le> cap \<and> chunk_fill cap r ks \<le> length ks
   \<and> (r \<le> VERIFY_ROW_BUDGET \<longrightarrow> r + sum_list (take (chunk_fill cap r ks) ks) \<le> VERIFY_ROW_BUDGET)"
proof (induction cap r ks rule: chunk_fill.induct)
  case (2 cap r k ks)
  then show ?case by (cases "0 < cap \<and> r + k \<le> VERIFY_ROW_BUDGET") auto
qed simp

lemma chunk_size_bounds:
  "ks \<noteq> [] \<Longrightarrow> 1 \<le> chunk_size ks \<and> chunk_size ks \<le> length ks \<and> chunk_size ks \<le> WIDTH_CAP
     \<and> (chunk_size ks = 1 \<or> sum_list (take (chunk_size ks) ks) \<le> VERIFY_ROW_BUDGET)"
  using chunk_fill_bounds [of "min (VERIFY_ROW_BUDGET div max (hd ks) 1) WIDTH_CAP" 0 ks]
  by (cases ks) (auto simp: chunk_size_def max_def WIDTH_CAP_def)

lemma chunk_from_spec:
  "concat (map (\<lambda>(a, b). [a..<b]) (chunk_from lo ks)) = [lo..<lo + length ks]
   \<and> (\<forall>(a, b)\<in>set (chunk_from lo ks). lo \<le> a \<and> a < b \<and> b - a \<le> WIDTH_CAP
        \<and> (b = a + 1 \<or> sum_list (take (b - a) (drop (a - lo) ks)) \<le> VERIFY_ROW_BUDGET))"
proof (induction lo ks rule: chunk_from.induct)
  case (2 lo k ks)
  let ?ks = "k # ks" and ?m = "chunk_size (k # ks)"
  have m: "1 \<le> ?m" "?m \<le> length ?ks" "?m \<le> WIDTH_CAP"
    "?m = 1 \<or> sum_list (take ?m ?ks) \<le> VERIFY_ROW_BUDGET"
    using chunk_size_bounds [of ?ks] by auto
  have split: "[lo..<lo + length ?ks] = [lo..<lo + ?m] @ [lo + ?m..<(lo + ?m) + length (drop ?m ?ks)]"
    using m(2) upt_add_eq_append [of lo "lo + ?m" "length ?ks - ?m"] by simp
  have e: "drop (a - (lo + ?m)) (drop ?m ?ks) = drop (a - lo) ?ks" if "lo + ?m \<le> a" for a
    using that by (simp only: drop_drop) (rule arg_cong [of _ _ "\<lambda>n. drop n (k # ks)"], simp)
  have rest: "lo \<le> a \<and> a < b \<and> b - a \<le> WIDTH_CAP
        \<and> (b = a + 1 \<or> sum_list (take (b - a) (drop (a - lo) ?ks)) \<le> VERIFY_ROW_BUDGET)"
    if "(a, b) \<in> set (chunk_from (lo + ?m) (drop ?m ?ks))" for a b
  proof -
    have "lo + ?m \<le> a \<and> a < b \<and> b - a \<le> WIDTH_CAP
        \<and> (b = a + 1 \<or> sum_list (take (b - a) (drop (a - (lo + ?m)) (drop ?m ?ks))) \<le> VERIFY_ROW_BUDGET)"
      using 2 that by fast
    then show ?thesis using e [of a] by auto
  qed
  have fst: "lo < lo + ?m \<and> lo + ?m - lo \<le> WIDTH_CAP
        \<and> (lo + ?m = lo + 1 \<or> sum_list (take (lo + ?m - lo) (drop (lo - lo) ?ks)) \<le> VERIFY_ROW_BUDGET)"
    using m by auto
  show ?case unfolding chunk_from.simps(2) [of lo k ks] split
    using 2 rest fst by (auto simp del: drop_drop upt_Suc)
qed simp

text \<open>The chunks of a batch cover it in order without gaps, each non-empty and at most 128 sequences
  wide, and each fits the row budget unless it is a single sequence; with every row count within the
  budget, every chunk fits.\<close>

theorem chunk_ranges_spec:
  "concat (map (\<lambda>(lo, hi). [lo..<hi]) (chunk_ranges ks)) = [0..<length ks]
   \<and> (\<forall>(lo, hi)\<in>set (chunk_ranges ks). lo < hi \<and> hi - lo \<le> WIDTH_CAP
        \<and> (hi = lo + 1 \<or> sum_list (take (hi - lo) (drop lo ks)) \<le> VERIFY_ROW_BUDGET)
        \<and> ((\<forall>k\<in>set ks. k \<le> VERIFY_ROW_BUDGET) \<longrightarrow> sum_list (take (hi - lo) (drop lo ks)) \<le> VERIFY_ROW_BUDGET))"
proof -
  note S = chunk_from_spec [of 0 ks]
  have "sum_list (take (hi - lo) (drop lo ks)) \<le> VERIFY_ROW_BUDGET"
    if "hi = lo + 1" "\<forall>k\<in>set ks. k \<le> VERIFY_ROW_BUDGET" for lo hi
  proof (cases "drop lo ks")
    case (Cons k r)
    then have "k \<in> set ks" by (metis in_set_dropD list.set_intros(1))
    with Cons that show ?thesis by simp
  qed simp
  with S show ?thesis by (fastforce simp: chunk_ranges_def)
qed

lemma chunk_ranges_spec_witness:
  "chunk_ranges [200, 60, 50] = [(0, 1), (1, 3)] \<and> concat (map (\<lambda>(lo, hi). [lo..<hi]) (chunk_ranges [200, 60, 50])) = [0..<3]"
proof
  show "chunk_ranges [200, 60, 50] = [(0, 1), (1, 3)]"
    by (simp add: chunk_ranges_def chunk_size_def VERIFY_ROW_BUDGET_def WIDTH_CAP_def numeral_2_eq_2 numeral_3_eq_3)
  show "concat (map (\<lambda>(lo, hi). [lo..<hi]) (chunk_ranges [200, 60, 50])) = [0..<3]"
    using chunk_ranges_spec [of "[200, 60, 50]"] by (simp add: numeral_3_eq_3)
qed

end
