(* ===== verification/Draft_Tree.thy ===== *)
theory Draft_Tree
  imports Text_Parse
begin

text \<open>
  Draft trees for tree speculative decoding (crates/model-layers/src/speculative/tree_shape.rs): the
  shape and its parser, the layout of the verify rows and the accepted path. An out-of-range index
  is a panic, \<open>None\<close>. The theorem that matters relates the accepted path to greedy decoding of the
  target model, which is an arbitrary function from the tokens so far to the next token.
\<close>

definition MAX_RANK :: nat where
  "MAX_RANK = 4"

definition MAX_NODES :: nat where
  "MAX_NODES = 7"

datatype shape_error = ShapeParse | ShapeEmpty | ShapeCount | ShapeNodes

record tree_shape =
  ts_counts :: "nat list"

definition ts_nodes :: "tree_shape \<Rightarrow> nat" where
  "ts_nodes s = sum_list (ts_counts s)"

definition ts_validate :: "tree_shape \<Rightarrow> shape_error option" where
  "ts_validate s =
    (if ts_counts s = [] then Some ShapeEmpty
     else if list_ex (\<lambda>c. c = 0 \<or> MAX_RANK < c) (ts_counts s) then Some ShapeCount
     else if MAX_NODES < ts_nodes s then Some ShapeNodes
     else None)"

definition ts_parse :: "string \<Rightarrow> shape_error + tree_shape" where
  "ts_parse s =
    (case collect (\<lambda>t. parse_uint 8 (str_trim t)) (str_split (CHR '','') s) of
       None \<Rightarrow> Inl ShapeParse
     | Some counts \<Rightarrow>
         (let shape = \<lparr> ts_counts = counts \<rparr>
          in case ts_validate shape of Some e \<Rightarrow> Inl e | None \<Rightarrow> Inr shape))"

definition ts_spine_len :: "tree_shape \<Rightarrow> nat" where
  "ts_spine_len s = length (ts_counts s)"

definition ts_verify_width :: "tree_shape \<Rightarrow> nat" where
  "ts_verify_width s = ts_nodes s + 1"

definition ts_shape_id :: "tree_shape \<Rightarrow> u64w" where
  "ts_shape_id s = foldl (\<lambda>acc c. or (push_bit 4 acc) (word_of_nat c)) 0 (ts_counts s)"

definition ts_is_chain :: "tree_shape \<Rightarrow> bool" where
  "ts_is_chain s = list_all (\<lambda>c. c = 1) (ts_counts s)"

record hedge_node =
  hn_depth :: nat
  hn_rank :: nat
  hn_token :: token

record tree_draft =
  td_shape :: tree_shape
  td_spine :: "token list"
  td_hedges :: "hedge_node list"

record tree_row =
  tr_token :: token
  tr_depth :: nat
  tr_parent :: nat

definition td_rows :: "tree_draft \<Rightarrow> token \<Rightarrow> tree_row list" where
  "td_rows d root =
    \<lparr> tr_token = root, tr_depth = 0, tr_parent = 0 \<rparr>
    # map (\<lambda>(i, t). \<lparr> tr_token = t, tr_depth = i + 1, tr_parent = i \<rparr>) (zip [0..<length (td_spine d)] (td_spine d))
    @ map (\<lambda>h. \<lparr> tr_token = hn_token h, tr_depth = hn_depth h, tr_parent = usize_pred (hn_depth h) \<rparr>) (td_hedges d)"

text \<open>The loop of \<open>accept_path\<close> from depth \<open>d\<close>, with \<open>n\<close> depths left, at row \<open>cur\<close>.\<close>

fun accept_from :: "hedge_node list \<Rightarrow> nat \<Rightarrow> tree_row list \<Rightarrow> token list \<Rightarrow> nat \<Rightarrow> nat \<Rightarrow> nat
    \<Rightarrow> (nat list \<times> nat) option" where
  "accept_from hs l rows v 0 d cur = Some ([], cur)"
| "accept_from hs l rows v (Suc n) d cur =
    (if length v \<le> cur \<or> length rows \<le> d then None
     else if tr_token (rows ! d) = v ! cur then
       map_option (\<lambda>(path, c). (d # path, c)) (accept_from hs l rows v n (d + 1) d)
     else case position (\<lambda>h. hn_depth h = d \<and> hn_token h = v ! cur) hs of
            Some i \<Rightarrow> Some ([1 + l + i], 1 + l + i)
          | None \<Rightarrow> Some ([], cur))"

definition td_accept_path :: "tree_draft \<Rightarrow> tree_row list \<Rightarrow> token list \<Rightarrow> (nat list \<times> token) option" where
  "td_accept_path d rows v =
    (case accept_from (td_hedges d) (length (td_spine d)) rows v (length (td_spine d)) 1 0 of
       None \<Rightarrow> None
     | Some (path, cur) \<Rightarrow> if cur < length v then Some (path, v ! cur) else None)"

subsection \<open>Shapes\<close>

definition shape_nat :: "nat list \<Rightarrow> nat" where
  "shape_nat cs = foldl (\<lambda>acc c. 16 * acc + c) 0 cs"

lemma shape_nat_bound: "\<forall>c\<in>set cs. c < 16 \<Longrightarrow> shape_nat cs < 16 ^ length cs"
proof (induction cs rule: rev_induct)
  case (snoc c cs)
  then have "shape_nat cs + 1 \<le> 16 ^ length cs" "c < 16" by simp_all
  then have "16 * shape_nat cs + 16 \<le> 16 * 16 ^ length cs" by linarith
  with \<open>c < 16\<close> show ?case by (simp add: shape_nat_def)
qed (simp add: shape_nat_def)

lemma nibble_or:
  assumes "n < 2 ^ 60" and "c < 16"
  shows "or (push_bit 4 (word_of_nat n :: u64w)) (word_of_nat c) = word_of_nat (16 * n + c)"
proof -
  have "and (push_bit 4 (word_of_nat n :: u64w)) (word_of_nat c) = 0"
  proof (rule bit_word_eqI)
    fix i :: nat
    have "\<not> bit (word_of_nat c :: u64w) i" if "4 \<le> i"
    proof -
      have "take_bit 4 c = c" using assms(2) by (simp add: take_bit_nat_eq_self)
      then have "\<not> bit c i" using that by (metis bit_take_bit_iff linorder_not_le)
      then show ?thesis by (simp add: bit_of_nat_iff)
    qed
    then show "bit (and (push_bit 4 (word_of_nat n :: u64w)) (word_of_nat c)) i = bit (0 :: u64w) i"
      by (auto simp: bit_and_iff bit_push_bit_iff)
  qed
  then have "or (push_bit 4 (word_of_nat n :: u64w)) (word_of_nat c) = push_bit 4 (word_of_nat n) + word_of_nat c"
    by (simp add: disjunctive_add_eq_or)
  also have "\<dots> = word_of_nat (16 * n + c)" by (simp add: push_bit_eq_mult mult.commute)
  finally show ?thesis .
qed

lemma shape_id_nat:
  "length cs \<le> 15 \<Longrightarrow> \<forall>c\<in>set cs. c < 16 \<Longrightarrow>
     foldl (\<lambda>acc c. or (push_bit 4 acc) (word_of_nat c)) (0 :: u64w) cs = word_of_nat (shape_nat cs)"
proof (induction cs rule: rev_induct)
  case (snoc c cs)
  have "shape_nat cs < 16 ^ length cs" using snoc.prems by (intro shape_nat_bound) simp
  also have "(16 :: nat) ^ length cs \<le> 16 ^ 15" using snoc.prems(1) by (intro power_increasing) simp_all
  also have "(16 :: nat) ^ 15 = 2 ^ 60" by simp
  finally have "shape_nat cs < 2 ^ 60" .
  then have "or (push_bit 4 (word_of_nat (shape_nat cs) :: u64w)) (word_of_nat c) = word_of_nat (16 * shape_nat cs + c)"
    using snoc.prems(2) by (intro nibble_or) simp_all
  with snoc show ?case by (simp add: shape_nat_def)
qed (simp add: shape_nat_def)

lemma shape_nat_inj:
  "\<forall>c\<in>set cs. 0 < c \<and> c < 16 \<Longrightarrow> \<forall>c\<in>set ds. 0 < c \<and> c < 16 \<Longrightarrow> shape_nat cs = shape_nat ds \<Longrightarrow> cs = ds"
proof (induction cs arbitrary: ds rule: rev_induct)
  case Nil
  then show ?case by (cases ds rule: rev_cases) (simp_all add: shape_nat_def)
next
  case (snoc c cs)
  then obtain d ds' where ds: "ds = ds' @ [d]" by (cases ds rule: rev_cases) (simp_all add: shape_nat_def)
  have e: "16 * shape_nat cs + c = 16 * shape_nat ds' + d" using snoc.prems(3) ds by (simp add: shape_nat_def)
  moreover have "c < 16" "d < 16" using snoc.prems(1,2) ds by simp_all
  ultimately have q: "shape_nat cs = shape_nat ds'" by linarith
  then have cd: "c = d" using e by simp
  have "cs = ds'" by (rule snoc.IH [OF _ _ q]) (use snoc.prems(1,2) ds in simp_all)
  with cd ds show ?case by simp
qed

lemma sum_list_ge_length: "\<forall>c\<in>set cs. 0 < (c :: nat) \<Longrightarrow> length cs \<le> sum_list cs"
  by (induction cs) auto

lemma ts_validate_iff:
  "ts_validate s = None \<longleftrightarrow> ts_counts s \<noteq> [] \<and> (\<forall>c\<in>set (ts_counts s). 1 \<le> c \<and> c \<le> 4) \<and> ts_nodes s \<le> 7"
proof -
  have "list_ex (\<lambda>c. c = 0 \<or> 4 < c) (ts_counts s) \<longleftrightarrow> \<not> (\<forall>c\<in>set (ts_counts s). 1 \<le> c \<and> c \<le> 4)"
    unfolding list_ex_iff by (metis less_one linorder_not_le)
  then show ?thesis by (simp add: ts_validate_def MAX_RANK_def MAX_NODES_def)
qed

text \<open>C33: Parsing a printed shape gives the shape back exactly when it is valid; a parsed shape holds
  one to four nodes at each depth and at most seven in all; and two parsed shapes with one identifier
  are equal.\<close>

theorem tree_shape_parse:
  assumes "counts \<noteq> []" and "\<forall>c\<in>set counts. c < 256"
  shows "ts_parse (str_join (CHR '','') (map (show_radix 10) counts))
      = (case ts_validate \<lparr> ts_counts = counts \<rparr> of None \<Rightarrow> Inr \<lparr> ts_counts = counts \<rparr> | Some e \<Rightarrow> Inl e)
    \<and> (\<forall>t s. ts_parse t = Inr s \<longrightarrow> ts_counts s \<noteq> [] \<and> (\<forall>c\<in>set (ts_counts s). 1 \<le> c \<and> c \<le> 4) \<and> ts_nodes s \<le> 7)
    \<and> (\<forall>t s t' s'. ts_parse t = Inr s \<longrightarrow> ts_parse t' = Inr s' \<longrightarrow> ts_shape_id s = ts_shape_id s' \<longrightarrow> s = s')"
proof (intro conjI allI impI)
  have sp: "CHR '','' \<notin> set (show_radix 10 n)" for n
  proof
    assume "CHR '','' \<in> set (show_radix 10 n)"
    then obtain d where d: "d < 10" "CHR '','' = digit_char d" using show_radix_chars [of 10 "CHR '',''" n] by auto
    have "of_char CHR '','' = (44 :: nat)" by simp
    moreover have "of_char (digit_char d) = 48 + d" using d(1) by (simp add: digit_char_def)
    ultimately show False using d(2) by simp
  qed
  have "str_split (CHR '','') (str_join (CHR '','') (map (show_radix 10) counts)) = map (show_radix 10) counts"
    by (rule str_split_join) (use assms(1) sp in auto)
  moreover have "collect (\<lambda>t. parse_uint 8 (str_trim t)) (map (show_radix 10) counts) = Some (map (\<lambda>x. x) counts)"
  proof (rule collect_map, intro ballI)
    fix n assume "n \<in> set counts"
    then have "n < 2 ^ 8" using assms(2) by simp
    moreover have "str_trim (show_radix 10 n) = show_radix 10 n" using show_radix_plain [of 10] by (intro str_trim_none) simp
    ultimately show "parse_uint 8 (str_trim (show_radix 10 n)) = Some n" by (simp add: parse_uint_show)
  qed
  ultimately show "ts_parse (str_join (CHR '','') (map (show_radix 10) counts))
      = (case ts_validate \<lparr> ts_counts = counts \<rparr> of None \<Rightarrow> Inr \<lparr> ts_counts = counts \<rparr> | Some e \<Rightarrow> Inl e)"
    by (simp add: ts_parse_def split: option.splits)
next
  fix t s assume "ts_parse t = Inr s"
  then have "ts_validate s = None" by (auto simp: ts_parse_def Let_def split: option.splits)
  then have v: "ts_counts s \<noteq> [] \<and> (\<forall>c\<in>set (ts_counts s). 1 \<le> c \<and> c \<le> 4) \<and> ts_nodes s \<le> 7"
    by (rule ts_validate_iff [THEN iffD1])
  then show "ts_counts s \<noteq> []" "\<forall>c\<in>set (ts_counts s). 1 \<le> c \<and> c \<le> 4" "ts_nodes s \<le> 7" by blast+
next
  fix t s t' s' assume p: "ts_parse t = Inr s" "ts_parse t' = Inr s'" and id: "ts_shape_id s = ts_shape_id s'"
  have v: "\<forall>c\<in>set (ts_counts x). 0 < c \<and> c < 16" "length (ts_counts x) \<le> 7" if "ts_parse y = Inr x" for x y
  proof -
    have "ts_validate x = None" using that by (auto simp: ts_parse_def Let_def split: option.splits)
    then have *: "\<forall>c\<in>set (ts_counts x). 1 \<le> c \<and> c \<le> 4" "sum_list (ts_counts x) \<le> 7"
      by (simp_all add: ts_validate_iff ts_nodes_def)
    then show "\<forall>c\<in>set (ts_counts x). 0 < c \<and> c < 16" by auto
    then have "\<forall>c\<in>set (ts_counts x). 0 < c" by simp
    then show "length (ts_counts x) \<le> 7" using sum_list_ge_length *(2) by force
  qed
  have small: "shape_nat (ts_counts x) < 2 ^ 64" if "ts_parse y = Inr x" for x y
  proof -
    have "shape_nat (ts_counts x) < 16 ^ length (ts_counts x)" using v [OF that] by (intro shape_nat_bound) auto
    also have "(16 :: nat) ^ length (ts_counts x) \<le> 16 ^ 7" using v(2) [OF that] by (intro power_increasing) simp_all
    finally show ?thesis by simp
  qed
  have "word_of_nat (shape_nat (ts_counts s)) = (word_of_nat (shape_nat (ts_counts s')) :: u64w)"
    using id v [OF p(1)] v [OF p(2)] by (simp add: ts_shape_id_def shape_id_nat)
  then have "shape_nat (ts_counts s) = shape_nat (ts_counts s')"
  proof -
    have "unat (word_of_nat n :: u64w) = n" if "n < 2 ^ 64" for n
      using of_nat_inverse [OF refl, of n, where 'a = 64] that by simp
    with small [OF p(1)] small [OF p(2)] show ?thesis
      using \<open>word_of_nat (shape_nat (ts_counts s)) = (word_of_nat (shape_nat (ts_counts s')) :: u64w)\<close> by metis
  qed
  then have "ts_counts s = ts_counts s'" using shape_nat_inj v [OF p(1)] v [OF p(2)] by blast
  then show "s = s'" by simp
qed

lemma tree_shape_parse_witness:
  "ts_parse (str_join (CHR '','') (map (show_radix 10) [1, 2, 2])) = Inr \<lparr> ts_counts = [1, 2, 2] \<rparr>"
  using tree_shape_parse [of "[1, 2, 2]"] by (simp add: ts_validate_def MAX_RANK_def MAX_NODES_def ts_nodes_def)

subsection \<open>Rows\<close>

text \<open>The tokens from the root to a row, the root excluded.\<close>

definition row_path :: "tree_draft \<Rightarrow> nat \<Rightarrow> token list" where
  "row_path d i = (let l = length (td_spine d) in
     if i \<le> l then take i (td_spine d)
     else take (hn_depth (td_hedges d ! (i - 1 - l)) - 1) (td_spine d) @ [hn_token (td_hedges d ! (i - 1 - l))])"

definition hedges_ok :: "tree_draft \<Rightarrow> bool" where
  "hedges_ok d \<longleftrightarrow> (\<forall>h\<in>set (td_hedges d). 1 \<le> hn_depth h \<and> hn_depth h \<le> length (td_spine d))"

fun greedy :: "(token list \<Rightarrow> token) \<Rightarrow> token list \<Rightarrow> nat \<Rightarrow> token list" where
  "greedy f ctx 0 = []"
| "greedy f ctx (Suc n) = f ctx # greedy f (ctx @ [f ctx]) n"

lemma td_rows_length: "length (td_rows d root) = 1 + length (td_spine d) + length (td_hedges d)"
  by (simp add: td_rows_def)

lemma td_rows_spine:
  "1 \<le> i \<Longrightarrow> i \<le> length (td_spine d) \<Longrightarrow>
     tr_token (td_rows d root ! i) = td_spine d ! (i - 1) \<and> tr_parent (td_rows d root ! i) = i - 1"
  by (cases i) (auto simp: td_rows_def nth_append)

lemma td_rows_hedge:
  "i < length (td_hedges d) \<Longrightarrow>
     tr_token (td_rows d root ! (1 + length (td_spine d) + i)) = hn_token (td_hedges d ! i)
   \<and> tr_parent (td_rows d root ! (1 + length (td_spine d) + i)) = usize_pred (hn_depth (td_hedges d ! i))"
  by (simp add: td_rows_def nth_append)

lemma row_path_hedge:
  "row_path d (1 + length (td_spine d) + i)
    = take (hn_depth (td_hedges d ! i) - 1) (td_spine d) @ [hn_token (td_hedges d ! i)]"
  by (simp add: row_path_def)

text \<open>The children of a row are the spine row one deeper and the hedges at that depth.\<close>

lemma child_of:
  assumes ok: "hedges_ok d" and i: "0 < i" "i < length (td_rows d root)" and p: "tr_parent (td_rows d root ! i) = c"
  shows "c < length (td_spine d) \<and> (i = c + 1 \<and> tr_token (td_rows d root ! i) = td_spine d ! c
    \<or> (\<exists>h\<in>set (td_hedges d). hn_depth h = c + 1 \<and> tr_token (td_rows d root ! i) = hn_token h))"
proof (cases "i \<le> length (td_spine d)")
  case True
  then show ?thesis using td_rows_spine [of i d root] i p by auto
next
  case False
  define j where "j = i - 1 - length (td_spine d)"
  have j: "i = 1 + length (td_spine d) + j" "j < length (td_hedges d)"
    using False i by (auto simp: j_def td_rows_length)
  note r = td_rows_hedge [OF j(2), of root]
  have h: "td_hedges d ! j \<in> set (td_hedges d)" using j(2) by simp
  then have "1 \<le> hn_depth (td_hedges d ! j)" "hn_depth (td_hedges d ! j) \<le> length (td_spine d)"
    using ok by (auto simp: hedges_ok_def)
  then show ?thesis using r p h unfolding j(1) by (auto intro!: disjI2 bexI [of _ "td_hedges d ! j"])
qed

lemma accept_from_spec:
  assumes ok: "hedges_ok d" and v: "v = map (\<lambda>i. f (ctx @ row_path d i)) [0..<length (td_rows d root)]"
    and "c + n = length (td_spine d)"
  shows "\<exists>path e. accept_from (td_hedges d) (length (td_spine d)) (td_rows d root) v n (c + 1) c = Some (path, e)
    \<and> e < length (td_rows d root) \<and> e = last (c # path) \<and> (\<forall>r\<in>set path. 0 < r \<and> r < length (td_rows d root))
    \<and> map (\<lambda>r. tr_token (td_rows d root ! r)) path @ [v ! e] = greedy f (ctx @ take c (td_spine d)) (length path + 1)
    \<and> (\<forall>i. 0 < i \<and> i < length (td_rows d root) \<and> tr_parent (td_rows d root ! i) = e \<longrightarrow> tr_token (td_rows d root ! i) \<noteq> v ! e)"
  using assms(3)
proof (induction n arbitrary: c)
  case 0
  then have c: "c = length (td_spine d)" by simp
  have "v ! c = f (ctx @ td_spine d)" using c by (simp add: v td_rows_length row_path_def del: upt_Suc)
  moreover have "\<not> tr_parent (td_rows d root ! i) = c" if "0 < i" "i < length (td_rows d root)" for i
    using child_of [OF ok that] c by auto
  ultimately show ?case using c by (auto simp: td_rows_length)
next
  case (Suc n)
  let ?l = "length (td_spine d)" and ?R = "td_rows d root" and ?t = "ctx @ take c (td_spine d)"
  have cl: "c < ?l" using Suc.prems by simp
  then have lens: "\<not> length v \<le> c" "\<not> length ?R \<le> c + 1" by (simp_all add: v td_rows_length)
  have vc: "v ! c = f ?t" using cl by (simp add: v td_rows_length row_path_def del: upt_Suc)
  have tok: "tr_token (?R ! (c + 1)) = td_spine d ! c" using td_rows_spine [of "c + 1" d root] cl by simp
  show ?case
  proof (cases "td_spine d ! c = v ! c")
    case True
    obtain path e where I: "accept_from (td_hedges d) ?l ?R v n (c + 1 + 1) (c + 1) = Some (path, e)"
      "e < length ?R" "e = last ((c + 1) # path)" "\<forall>r\<in>set path. 0 < r \<and> r < length ?R"
      "map (\<lambda>r. tr_token (?R ! r)) path @ [v ! e] = greedy f (ctx @ take (c + 1) (td_spine d)) (length path + 1)"
      "\<forall>i. 0 < i \<and> i < length ?R \<and> tr_parent (?R ! i) = e \<longrightarrow> tr_token (?R ! i) \<noteq> v ! e"
      using Suc.IH [of "c + 1"] Suc.prems by auto
    have "accept_from (td_hedges d) ?l ?R v (Suc n) (c + 1) c = Some ((c + 1) # path, e)"
      using lens tok True I(1) by simp
    moreover have "ctx @ take (c + 1) (td_spine d) = ?t @ [f ?t]"
      using cl True vc by (simp add: take_Suc_conv_app_nth)
    ultimately show ?thesis using I tok True vc lens(2) by auto
  next
    case False
    show ?thesis
    proof (cases "position (\<lambda>h. hn_depth h = c + 1 \<and> hn_token h = v ! c) (td_hedges d)")
      case (Some i)
      then have i: "i < length (td_hedges d)" "hn_depth (td_hedges d ! i) = c + 1" "hn_token (td_hedges d ! i) = v ! c"
        using position_Some by fast+
      let ?e = "1 + ?l + i"
      have a: "accept_from (td_hedges d) ?l ?R v (Suc n) (c + 1) c = Some ([?e], ?e)" using lens tok False Some by simp
      have e: "?e < length ?R" using i(1) by (simp add: td_rows_length)
      have "v ! ?e = f (ctx @ row_path d ?e)" using e by (simp add: v del: upt_Suc)
      then have "v ! ?e = f (?t @ [f ?t])" using i(2,3) vc by (simp add: row_path_hedge [simplified])
      moreover have "tr_token (?R ! ?e) = f ?t" using td_rows_hedge [OF i(1), of root] i(3) vc by simp
      moreover have "tr_parent (?R ! j) \<noteq> ?e" if "0 < j" "j < length ?R" for j
        using child_of [OF ok that, of ?e] by auto
      ultimately show ?thesis using a e by auto
    next
      case None
      then have n: "\<not> (hn_depth h = c + 1 \<and> hn_token h = v ! c)" if "h \<in> set (td_hedges d)" for h
        using that by (auto simp: position_None)
      have a: "accept_from (td_hedges d) ?l ?R v (Suc n) (c + 1) c = Some ([], c)" using lens tok False None by simp
      have "tr_token (?R ! i) \<noteq> v ! c" if "0 < i" "i < length ?R" "tr_parent (?R ! i) = c" for i
        using child_of [OF ok that] False n by auto
      then show ?thesis using a vc lens by auto
    qed
  qed
qed

text \<open>C28: When every row is verified by the target, the accepted tokens followed by the bonus token are
  exactly what greedy decoding of the target emits from the same context, whatever tree was drafted;
  and the path is as long as the tree allows: no row below its end holds the next greedy token.\<close>

theorem accept_path_is_greedy:
  assumes "hedges_ok d" and "v = map (\<lambda>i. f (ctx @ row_path d i)) [0..<length (td_rows d root)]"
  shows "\<exists>path bonus. td_accept_path d (td_rows d root) v = Some (path, bonus)
    \<and> map (\<lambda>r. tr_token (td_rows d root ! r)) path @ [bonus] = greedy f ctx (length path + 1)
    \<and> (\<forall>i. 0 < i \<and> i < length (td_rows d root) \<and> tr_parent (td_rows d root ! i) = last (0 # path)
         \<longrightarrow> tr_token (td_rows d root ! i) \<noteq> bonus)"
proof -
  obtain path e where a: "accept_from (td_hedges d) (length (td_spine d)) (td_rows d root) v (length (td_spine d)) 1 0 = Some (path, e)"
    "e < length (td_rows d root)" "e = last (0 # path)"
    "map (\<lambda>r. tr_token (td_rows d root ! r)) path @ [v ! e] = greedy f ctx (length path + 1)"
    "\<forall>i. 0 < i \<and> i < length (td_rows d root) \<and> tr_parent (td_rows d root ! i) = e \<longrightarrow> tr_token (td_rows d root ! i) \<noteq> v ! e"
    using accept_from_spec [OF assms, of 0] by auto
  moreover have "length v = length (td_rows d root)" by (simp add: assms(2))
  ultimately show ?thesis by (auto simp: td_accept_path_def)
qed

definition demo_tree :: tree_draft where
  "demo_tree = \<lparr> td_shape = \<lparr> ts_counts = [2, 1] \<rparr>, td_spine = [5, 6],
     td_hedges = [\<lparr> hn_depth = 1, hn_rank = 2, hn_token = 9 \<rparr>] \<rparr>"

definition demo_target :: "token list \<Rightarrow> token" where
  "demo_target ts = (if ts = [1] then 9 else if ts = [1, 9] then 4 else 0)"

lemma accept_path_is_greedy_witness:
  "td_accept_path demo_tree (td_rows demo_tree 1) (map (\<lambda>i. demo_target ([1] @ row_path demo_tree i)) [0..<length (td_rows demo_tree 1)])
     = Some ([3], 4)
   \<and> greedy demo_target [1] 2 = [9, 4]"
proof -
  have e: "td_accept_path demo_tree (td_rows demo_tree 1) (map (\<lambda>i. demo_target ([1] @ row_path demo_tree i)) [0..<length (td_rows demo_tree 1)])
     = Some ([3], 4)"
    by (simp add: td_accept_path_def td_rows_def row_path_def upt_rec demo_tree_def demo_target_def)
  have t: "tr_token (td_rows demo_tree 1 ! 3) = 9" by (simp add: td_rows_def demo_tree_def)
  have "hedges_ok demo_tree" by (simp add: hedges_ok_def demo_tree_def)
  from accept_path_is_greedy [OF this refl, of 1 demo_target "[1]"] e t
  have "[9, 4] = greedy demo_target [1] (Suc (length [3 :: nat]))" by auto
  then have "greedy demo_target [1] 2 = [9, 4]" by (auto simp: numeral_2_eq_2)
  with e show ?thesis by blast
qed

end
