(* ===== verification/Spec_Policy.thy ===== *)
theory Spec_Policy
  imports Text_Parse
begin

text \<open>
  How many drafts a speculative step takes: the static ladder and the width cap
  (crates/model-layers/src/speculative/ladder.rs), the limits of the verify slots and the serial arm
  (crates/speculative/src/spec_capacity.rs), the adaptive count at widths 9 to 16
  (crates/speculative/src/adaptive_rung.rs) and the prompt-lookup proposer
  (crates/speculative/src/ngram.rs). Environment variables are arguments, read once as the code
  reads them; \<open>f64\<close> is an arbitrary type with the operations the code uses.
\<close>

subsection \<open>The ladder\<close>

definition parse_step :: "string \<Rightarrow> (nat \<times> nat) option" where
  "parse_step part =
    (case split_once (CHR '':'') (str_trim part) of
       None \<Rightarrow> None
     | Some (n, k) \<Rightarrow>
         (case (parse_uint 64 (str_trim n), parse_uint 64 (str_trim k)) of
            (Some n', Some k') \<Rightarrow> Some (n', k') | _ \<Rightarrow> None))"

definition parse_ladder :: "string \<Rightarrow> (nat \<times> nat) list option" where
  "parse_ladder value = map_option (sort_key fst) (collect parse_step (str_split (CHR '','') value))"

definition default_ladder :: "(nat \<times> nat) list" where
  "default_ladder = [(4, 3), (8, 3), (16, 1), (32, 1)]"

definition mtp_ladder_steps :: "string option \<Rightarrow> (nat \<times> nat) list" where
  "mtp_ladder_steps env =
    (case env of None \<Rightarrow> default_ladder
     | Some value \<Rightarrow> (case parse_ladder value of Some steps \<Rightarrow> steps | None \<Rightarrow> default_ladder))"

definition clamp :: "nat \<Rightarrow> nat \<Rightarrow> nat \<Rightarrow> nat" where
  "clamp lo hi x = (if x < lo then lo else if hi < x then hi else x)"

definition ladder_drafts_from_steps :: "(nat \<times> nat) list \<Rightarrow> nat \<Rightarrow> nat \<Rightarrow> nat" where
  "ladder_drafts_from_steps steps n_active num_drafts =
    (if num_drafts = 0 then 0
     else case (case find (\<lambda>(n_max, k). n_active \<le> n_max) steps of
                  Some s \<Rightarrow> Some s | None \<Rightarrow> if steps = [] then None else Some (last steps)) of
            Some (n_max, k) \<Rightarrow> clamp 1 num_drafts k
          | None \<Rightarrow> num_drafts)"

definition mtp_ladder_drafts :: "bool \<Rightarrow> (nat \<times> nat) list \<Rightarrow> nat \<Rightarrow> nat \<Rightarrow> nat" where
  "mtp_ladder_drafts disabled steps n_active num_drafts =
    (if num_drafts = 0 then 0
     else if disabled then num_drafts
     else ladder_drafts_from_steps steps n_active num_drafts)"

definition DEFAULT_MTP_MAX_SEQS :: nat where
  "DEFAULT_MTP_MAX_SEQS = 32"

definition MAX_MTP_MAX_SEQS :: nat where
  "MAX_MTP_MAX_SEQS = 128"

datatype mtp_max_seqs_source = SrcCli | SrcModelDefault | SrcEngineDefault

definition resolve_mtp_max_seqs :: "nat option \<Rightarrow> nat \<Rightarrow> bool \<Rightarrow> (nat \<times> mtp_max_seqs_source) option" where
  "resolve_mtp_max_seqs cli model_default ladder_disabled =
    (let (n, source) = (case cli of
           Some n \<Rightarrow> (n, SrcCli)
         | None \<Rightarrow> if 0 < model_default then (model_default, SrcModelDefault)
                   else (if ladder_disabled then 4 else DEFAULT_MTP_MAX_SEQS, SrcEngineDefault))
     in if 1 \<le> n \<and> n \<le> MAX_MTP_MAX_SEQS then Some (n, source) else None)"

text \<open>The published cap is a cell written once.\<close>

definition set_mtp_max_seqs :: "nat \<Rightarrow> nat option \<Rightarrow> bool \<times> nat option" where
  "set_mtp_max_seqs n cell =
    (case cell of None \<Rightarrow> (True, Some n) | Some got \<Rightarrow> (got = n, Some got))"

definition mtp_max_seqs :: "bool \<Rightarrow> nat option \<Rightarrow> nat" where
  "mtp_max_seqs ladder_disabled cell =
    (case cell of Some n \<Rightarrow> n | None \<Rightarrow> if ladder_disabled then 4 else DEFAULT_MTP_MAX_SEQS)"

subsection \<open>Capacity\<close>

definition clamp_drafts_to_slot_capacity :: "nat \<Rightarrow> nat list \<Rightarrow> nat" where
  "clamp_drafts_to_slot_capacity drafts slot_capacities = fold (\<lambda>cap acc. min acc cap) slot_capacities drafts"

datatype serial_arm = ArmDFlash | ArmK4 | ArmK3 | ArmK2

definition serial_verify_plan :: "nat \<Rightarrow> nat \<Rightarrow> bool \<Rightarrow> nat \<times> serial_arm" where
  "serial_verify_plan pending step_drafts dflash =
    (let keep = (if dflash then pending else min pending step_drafts);
         arm = (if 4 \<le> keep then ArmDFlash
                else if 3 \<le> step_drafts \<and> 3 \<le> keep then ArmK4
                else if 2 \<le> step_drafts \<and> 2 \<le> keep then ArmK3
                else ArmK2)
     in (keep, arm))"

subsection \<open>The adaptive rung\<close>

record 'f f64_ops =
  fl_zero :: 'f
  fl_one :: 'f
  fl_add :: "'f \<Rightarrow> 'f \<Rightarrow> 'f"
  fl_sub :: "'f \<Rightarrow> 'f \<Rightarrow> 'f"
  fl_mul :: "'f \<Rightarrow> 'f \<Rightarrow> 'f"
  fl_div :: "'f \<Rightarrow> 'f \<Rightarrow> 'f"
  fl_lt :: "'f \<Rightarrow> 'f \<Rightarrow> bool"
  fl_le :: "'f \<Rightarrow> 'f \<Rightarrow> bool"
  fl_finite :: "'f \<Rightarrow> bool"

record 'f rung_params =
  rp_disabled :: bool
  rp_enter :: 'f
  rp_leave :: 'f
  rp_alpha :: 'f
  rp_alpha_slow :: 'f
  rp_probe_ticks :: nat
  rp_p1_trigger :: 'f

definition fl_clamp01 :: "'f f64_ops \<Rightarrow> 'f \<Rightarrow> 'f" where
  "fl_clamp01 f x = (if fl_lt f x (fl_zero f) then fl_zero f else if fl_lt f (fl_one f) x then fl_one f else x)"

definition token_ratio :: "'f f64_ops \<Rightarrow> 'f \<Rightarrow> 'f \<Rightarrow> 'f" where
  "token_ratio f p1 p2_cond =
    (if fl_le f p1 (fl_zero f) \<or> \<not> fl_finite f p1 \<or> \<not> fl_finite f p2_cond then fl_one f
     else fl_add f (fl_one f) (fl_div f (fl_mul f p1 p2_cond) (fl_add f (fl_one f) p1)))"

definition p2_cond_from :: "'f f64_ops \<Rightarrow> 'f \<Rightarrow> 'f \<Rightarrow> 'f option" where
  "p2_cond_from f p1 mean_na =
    (if fl_lt f (fl_zero f) p1 then Some (fl_clamp01 f (fl_div f (fl_sub f mean_na p1) p1)) else None)"

definition next_state :: "'f f64_ops \<Rightarrow> bool \<Rightarrow> 'f \<Rightarrow> 'f rung_params \<Rightarrow> bool" where
  "next_state f at_depth tr p = (if at_depth then fl_le f (rp_leave p) tr else fl_le f (rp_enter p) tr)"

text \<open>An estimate and its seeded flag are one optional value here: the cell is only read through the
  flag, except for the probe's difference, where an unseeded cell reads as zero.\<close>

record 'f adaptive_rung =
  ar_params :: "'f rung_params"
  ar_p1 :: "'f option"
  ar_p1_slow :: "'f option"
  ar_p2 :: "'f option"
  ar_at_depth :: bool
  ar_tick :: nat
  ar_last_probe :: nat
  ar_p1_at_decision :: 'f
  ar_flips :: nat
  ar_width_engaged :: bool
  ar_width_flips :: nat

definition in_band :: "nat \<Rightarrow> bool" where
  "in_band n \<longleftrightarrow> 9 \<le> n \<and> n \<le> 16"

definition ar_new :: "'f f64_ops \<Rightarrow> 'f rung_params \<Rightarrow> 'f adaptive_rung" where
  "ar_new f params = \<lparr> ar_params = params, ar_p1 = None, ar_p1_slow = None, ar_p2 = None, ar_at_depth = False,
     ar_tick = 0, ar_last_probe = 0, ar_p1_at_decision = fl_zero f, ar_flips = 0, ar_width_engaged = True,
     ar_width_flips = 0 \<rparr>"

definition ewma_a :: "'f f64_ops \<Rightarrow> 'f option \<Rightarrow> 'f \<Rightarrow> 'f \<Rightarrow> 'f" where
  "ewma_a f prev sample a =
    (case prev of Some p \<Rightarrow> fl_add f (fl_mul f a sample) (fl_mul f (fl_sub f (fl_one f) a) p) | None \<Rightarrow> sample)"

definition ar_observe :: "'f f64_ops \<Rightarrow> nat \<Rightarrow> nat \<Rightarrow> 'f \<Rightarrow> 'f \<Rightarrow> 'f adaptive_rung \<Rightarrow> 'f adaptive_rung" where
  "ar_observe f n k_drafts p1 mean_na c =
    (let p = ar_params c in
     if rp_disabled p \<or> \<not> in_band n then c
     else
       let p1_e = ewma_a f (ar_p1 c) p1 (rp_alpha p);
           p1_slow = ewma_a f (ar_p1_slow c) p1 (rp_alpha_slow p);
           tick = ar_tick c + 1;
           c1 = c\<lparr> ar_p1 := Some p1_e, ar_p1_slow := Some p1_slow, ar_tick := tick \<rparr>
       in if k_drafts < 2 then c1
          else
            let c2 = c1\<lparr> ar_last_probe := tick, ar_p1_at_decision := p1_slow \<rparr>
            in case p2_cond_from f p1 mean_na of
                 None \<Rightarrow> c2
               | Some p2 \<Rightarrow>
                   let p2_e = ewma_a f (ar_p2 c2) p2 (rp_alpha p);
                       tr = token_ratio f p1_e p2_e;
                       c3 = c2\<lparr> ar_p2 := Some p2_e \<rparr>;
                       now = next_state f (ar_at_depth c3) tr p
                   in if now \<noteq> ar_at_depth c3 then c3\<lparr> ar_at_depth := now, ar_flips := ar_flips c3 + 1 \<rparr> else c3)"

definition ar_drafts_for :: "'f f64_ops \<Rightarrow> bool \<Rightarrow> (nat \<times> nat) list \<Rightarrow> 'f adaptive_rung \<Rightarrow> nat \<Rightarrow> nat \<Rightarrow> nat" where
  "ar_drafts_for f ladder_disabled steps c n_active num_drafts =
    (let p = ar_params c; base = mtp_ladder_drafts ladder_disabled steps n_active num_drafts in
     if rp_disabled p \<or> ladder_disabled \<or> num_drafts < 2 \<or> \<not> in_band n_active then base
     else
       let p1_moved = fl_le f (rp_p1_trigger p)
             (fl_sub f (case ar_p1_slow c of Some x \<Rightarrow> x | None \<Rightarrow> fl_zero f) (ar_p1_at_decision c));
           probing = (ar_p2 c = None \<or> p1_moved \<or> rp_probe_ticks p \<le> ar_tick c - ar_last_probe c)
       in if ar_at_depth c \<or> probing then max (min 2 num_drafts) base else base)"

definition ar_note_width_regime :: "bool \<Rightarrow> 'f adaptive_rung \<Rightarrow> 'f adaptive_rung" where
  "ar_note_width_regime engaged c =
    (if ar_width_engaged c = engaged then c
     else c\<lparr> ar_width_engaged := engaged, ar_width_flips := ar_width_flips c + 1 \<rparr>)"

subsection \<open>The proposer\<close>

record ngram_proposer =
  np_min_match :: nat
  np_max_match :: nat
  np_accepts :: nat
  np_rejects :: nat

definition np_new :: ngram_proposer where
  "np_new = \<lparr> np_min_match = 2, np_max_match = 16, np_accepts = 0, np_rejects = 0 \<rparr>"

definition np_record_accept :: "ngram_proposer \<Rightarrow> ngram_proposer" where
  "np_record_accept p = p\<lparr> np_accepts := np_accepts p + 1 \<rparr>"

definition np_record_reject :: "ngram_proposer \<Rightarrow> ngram_proposer" where
  "np_record_reject p = p\<lparr> np_rejects := np_rejects p + 1 \<rparr>"

text \<open>The earliest earlier occurrence of the suffix of length \<open>n\<close>.\<close>

definition np_search :: "token list \<Rightarrow> nat \<Rightarrow> nat option" where
  "np_search ts n = position (\<lambda>start. take n (drop start ts) = drop (length ts - n) ts) [0..<length ts - n]"

definition np_propose :: "ngram_proposer \<Rightarrow> token list \<Rightarrow> token option" where
  "np_propose p ts =
    (if length ts < np_min_match p + 1 then None
     else
       let max_n = min (np_max_match p) (length ts - 1)
       in snd (fold (\<lambda>n (best_len, best_next).
            case np_search ts n of
              Some start \<Rightarrow> if best_len < n then (n, Some (ts ! (start + n))) else (best_len, best_next)
            | None \<Rightarrow> (best_len, best_next)) [np_min_match p..<max_n + 1] (0, None)))"

end
