(* ===== verification/Spec_Policy_Props.thy ===== *)
theory Spec_Policy_Props
  imports Spec_Policy
begin

text \<open>
  Bounds of a speculative step: the draft count of any width stays between the ladder's and the
  configured count, a lift happens only at widths 9 to 16, the slot capacities bound the step, and
  the serial arm never verifies more than the step allows. The proposer returns the continuation of
  the longest repeated suffix.
\<close>

subsection \<open>The step's width\<close>

lemma ladder_bounds: "0 < num_drafts \<Longrightarrow>
    1 \<le> mtp_ladder_drafts dis steps n num_drafts \<and> mtp_ladder_drafts dis steps n num_drafts \<le> num_drafts"
  by (auto simp: mtp_ladder_drafts_def ladder_drafts_from_steps_def clamp_def split: option.splits)

lemma ladder_zero [simp]: "mtp_ladder_drafts dis steps n 0 = 0"
  by (simp add: mtp_ladder_drafts_def)

lemma slot_clamp: "clamp_drafts_to_slot_capacity d caps = Min (insert d (set caps))"
proof (induction caps arbitrary: d)
  case (Cons c caps)
  have "clamp_drafts_to_slot_capacity d (c # caps) = clamp_drafts_to_slot_capacity (min d c) caps"
    by (simp add: clamp_drafts_to_slot_capacity_def)
  also have "\<dots> = Min (insert (min d c) (set caps))" by (rule Cons.IH)
  also have "\<dots> = Min (insert d (set (c # caps)))" by (cases "set caps = {}") (simp_all add: min.assoc)
  finally show ?case .
qed (simp add: clamp_drafts_to_slot_capacity_def)

text \<open>The adaptive count lies between the ladder's count and the configured one, equals the ladder's
  outside widths 9 to 16 and when adaptation is off, and is at most two where it differs. After the
  clamp the step fits every active slot and is positive when every capacity is; the serial arm keeps
  at most the step's drafts, and the arm it names verifies exactly what it keeps.\<close>

theorem adaptive_step_width:
  assumes "0 < num_drafts"
    and b: "b = mtp_ladder_drafts dis steps n num_drafts" and d: "d = ar_drafts_for f dis steps c n num_drafts"
    and s: "s = clamp_drafts_to_slot_capacity d caps"
  shows "b \<le> d \<and> 1 \<le> b \<and> d \<le> num_drafts
    \<and> (d \<noteq> b \<longrightarrow> in_band n \<and> d = 2 \<and> \<not> rp_disabled (ar_params c) \<and> \<not> dis)
    \<and> s \<le> d \<and> (\<forall>cap\<in>set caps. s \<le> cap) \<and> ((\<forall>cap\<in>set caps. 1 \<le> cap) \<longrightarrow> 1 \<le> s)
    \<and> (case serial_verify_plan pending s False of (keep, arm) \<Rightarrow>
         keep \<le> s \<and> keep \<le> pending
         \<and> (case arm of ArmDFlash \<Rightarrow> 4 \<le> keep | ArmK4 \<Rightarrow> keep = 3 | ArmK3 \<Rightarrow> keep = 2 | ArmK2 \<Rightarrow> keep \<le> 1))
    \<and> (\<not> in_band n \<longrightarrow> ar_observe f n k p1 mean_na c = c)"
proof -
  have bb: "1 \<le> b" "b \<le> num_drafts" using ladder_bounds [OF assms(1)] b by auto
  have dd: "b \<le> d \<and> d \<le> num_drafts \<and> (d \<noteq> b \<longrightarrow> in_band n \<and> d = 2 \<and> \<not> rp_disabled (ar_params c) \<and> \<not> dis)"
    using bb unfolding d ar_drafts_for_def Let_def b [symmetric] by (auto simp: max_def min_def)
  have sm: "s = Min (insert d (set caps))" by (simp add: s slot_clamp)
  then have ss: "s \<le> d" "\<forall>cap\<in>set caps. s \<le> cap" by (simp_all add: Min_le)
  have pos: "1 \<le> s" if "\<forall>cap\<in>set caps. 1 \<le> cap"
    using that bb dd unfolding sm by (intro Min.boundedI) auto
  have arm: "case serial_verify_plan pending s False of (keep, arm) \<Rightarrow> keep \<le> s \<and> keep \<le> pending
         \<and> (case arm of ArmDFlash \<Rightarrow> 4 \<le> keep | ArmK4 \<Rightarrow> keep = 3 | ArmK3 \<Rightarrow> keep = 2 | ArmK2 \<Rightarrow> keep \<le> 1)"
    by (auto simp: serial_verify_plan_def Let_def)
  have "ar_observe f n k p1 mean_na c = c" if "\<not> in_band n" using that by (simp add: ar_observe_def)
  then show ?thesis using bb(1) dd ss pos arm by simp
qed

definition int_f64 :: "int f64_ops" where
  "int_f64 = \<lparr> fl_zero = 0, fl_one = 1, fl_add = (+), fl_sub = (-), fl_mul = (*), fl_div = (div),
     fl_lt = (<), fl_le = (\<le>), fl_finite = (\<lambda>_. True) \<rparr>"

lemma adaptive_step_width_witness:
  "ar_drafts_for int_f64 False default_ladder (ar_new int_f64 \<lparr> rp_disabled = False, rp_enter = 1, rp_leave = 1,
      rp_alpha = 1, rp_alpha_slow = 1, rp_probe_ticks = 9, rp_p1_trigger = 1 \<rparr>) 12 3 = 2
   \<and> clamp_drafts_to_slot_capacity 2 [3, 1] \<le> 2"
proof -
  let ?c = "ar_new int_f64 \<lparr> rp_disabled = False, rp_enter = 1, rp_leave = 1,
      rp_alpha = 1, rp_alpha_slow = 1, rp_probe_ticks = 9, rp_p1_trigger = 1 \<rparr>"
  have e: "ar_drafts_for int_f64 False default_ladder ?c 12 3 = 2"
    by (simp add: ar_drafts_for_def ar_new_def in_band_def mtp_ladder_drafts_def ladder_drafts_from_steps_def
        default_ladder_def clamp_def)
  show ?thesis
    using adaptive_step_width [OF _ refl e [symmetric] refl, of "[3, 1]"] e by simp
qed

subsection \<open>The proposer\<close>

text \<open>The suffix of length \<open>n\<close> occurs at \<open>s\<close>, followed by a token.\<close>

definition occurs_at :: "token list \<Rightarrow> nat \<Rightarrow> nat \<Rightarrow> bool" where
  "occurs_at ts n s \<longleftrightarrow> s + n < length ts \<and> take n (drop s ts) = drop (length ts - n) ts"

lemma np_search_Some:
  "np_search ts n = Some s \<Longrightarrow> n < length ts \<and> occurs_at ts n s \<and> (\<forall>u < s. \<not> occurs_at ts n u)"
  using position_Some [of "\<lambda>start. take n (drop start ts) = drop (length ts - n) ts" "[0..<length ts - n]" s]
  by (auto simp: np_search_def occurs_at_def)

lemma np_search_None: "np_search ts n = None \<Longrightarrow> \<not> occurs_at ts n s"
  by (auto simp: np_search_def occurs_at_def position_None)

definition best_upto :: "token list \<Rightarrow> nat \<Rightarrow> nat \<Rightarrow> nat \<times> token option \<Rightarrow> bool" where
  "best_upto ts lo hi = (\<lambda>(bl, bn). case bn of
     None \<Rightarrow> bl = 0 \<and> (\<forall>n s. lo \<le> n \<longrightarrow> n < hi \<longrightarrow> \<not> occurs_at ts n s)
   | Some t \<Rightarrow> lo \<le> bl \<and> bl < hi \<and> (\<exists>s. occurs_at ts bl s \<and> t = ts ! (s + bl) \<and> (\<forall>u < s. \<not> occurs_at ts bl u))
        \<and> (\<forall>n s. bl < n \<longrightarrow> n < hi \<longrightarrow> \<not> occurs_at ts n s))"

lemma np_fold:
  assumes "1 \<le> lo"
  shows "best_upto ts lo (lo + m) (fold (\<lambda>n (bl, bn). case np_search ts n of
      Some s \<Rightarrow> if bl < n then (n, Some (ts ! (s + n))) else (bl, bn) | None \<Rightarrow> (bl, bn)) [lo..<lo + m] (0, None))"
proof (induction m)
  case 0
  then show ?case by (simp add: best_upto_def)
next
  case (Suc m)
  let ?F = "\<lambda>n (bl, bn). case np_search ts n of
      Some s \<Rightarrow> if bl < n then (n, Some (ts ! (s + n))) else (bl, bn) | None \<Rightarrow> (bl, bn)"
  obtain bl bn where f: "fold ?F [lo..<lo + m] (0, None) = (bl, bn)" by (cases "fold ?F [lo..<lo + m] (0, None)")
  then have IH: "best_upto ts lo (lo + m) (bl, bn)" using Suc.IH by simp
  then have bl: "bl < lo + m" using assms by (cases bn) (auto simp: best_upto_def)
  have step: "fold ?F [lo..<lo + Suc m] (0, None) = ?F (lo + m) (bl, bn)" using f by simp
  show ?case
  proof (cases "np_search ts (lo + m)")
    case None
    then have "\<not> occurs_at ts (lo + m) s" for s by (rule np_search_None)
    then have "best_upto ts lo (lo + Suc m) (bl, bn)"
      using IH by (cases bn) (auto simp: best_upto_def less_Suc_eq)
    then show ?thesis unfolding step using None by simp
  next
    case (Some s)
    then have "best_upto ts lo (lo + Suc m) (lo + m, Some (ts ! (s + (lo + m))))"
      using np_search_Some [OF Some] by (auto simp: best_upto_def)
    then show ?thesis unfolding step using Some bl by simp
  qed
qed

text \<open>The proposer returns the token after the earliest occurrence of the longest suffix, within its
  length bounds, that also occurs earlier; it returns nothing exactly when no such suffix repeats.\<close>

theorem propose_longest_suffix:
  assumes "1 \<le> np_min_match p"
  shows "case np_propose p ts of
      None \<Rightarrow> \<forall>n s. np_min_match p \<le> n \<longrightarrow> n \<le> np_max_match p \<longrightarrow> \<not> occurs_at ts n s
    | Some t \<Rightarrow> \<exists>n s. np_min_match p \<le> n \<and> n \<le> np_max_match p \<and> occurs_at ts n s \<and> t = ts ! (s + n)
        \<and> (\<forall>n' s'. n' \<le> np_max_match p \<longrightarrow> occurs_at ts n' s' \<longrightarrow> n' < n \<or> n' = n \<and> s \<le> s')"
proof -
  let ?lo = "np_min_match p" and ?hi = "min (np_max_match p) (length ts - 1)"
  have short: "n \<le> length ts - 1" if "occurs_at ts n s" for n s using that by (auto simp: occurs_at_def)
  show ?thesis
  proof (cases "length ts < ?lo + 1 \<or> ?hi < ?lo")
    case True
    then have "np_propose p ts = None" by (auto simp: np_propose_def Let_def)
    moreover have "\<not> occurs_at ts n s" if "?lo \<le> n" "n \<le> np_max_match p" for n s
      using True that short [of n s] by (auto simp: occurs_at_def)
    ultimately show ?thesis by simp
  next
    case False
    define m where "m = ?hi + 1 - ?lo"
    have hi: "?hi + 1 = ?lo + m" using False by (simp add: m_def)
    obtain bl bn where f: "fold (\<lambda>n (bl, bn). case np_search ts n of
      Some s \<Rightarrow> if bl < n then (n, Some (ts ! (s + n))) else (bl, bn) | None \<Rightarrow> (bl, bn)) [?lo..<?lo + m] (0, None) = (bl, bn)"
      by fastforce
    have "\<not> length ts < ?lo + 1" using False by blast
    then have pr: "np_propose p ts = bn" unfolding np_propose_def Let_def hi f by simp
    have B: "best_upto ts ?lo (?lo + m) (bl, bn)" using np_fold [OF assms, of ts m] f by simp
    have in_range: "n < ?lo + m" if "occurs_at ts n s" "n \<le> np_max_match p" for n s
      using short [OF that(1)] that(2) hi by linarith
    show ?thesis
    proof (cases bn)
      case None
      then show ?thesis using pr B in_range by (auto simp: best_upto_def)
    next
      case (Some t)
      then obtain s where s: "?lo \<le> bl" "bl < ?lo + m" "occurs_at ts bl s" "t = ts ! (s + bl)"
        "\<forall>u < s. \<not> occurs_at ts bl u" "\<forall>n s. bl < n \<longrightarrow> n < ?lo + m \<longrightarrow> \<not> occurs_at ts n s"
        using B by (auto simp: best_upto_def)
      have "n' < bl \<or> n' = bl \<and> s \<le> s'" if "n' \<le> np_max_match p" "occurs_at ts n' s'" for n' s'
        using s(5,6) in_range [OF that(2,1)] that(2) by (metis linorder_not_less linorder_neqE_nat)
      moreover have "bl \<le> np_max_match p" using s(2) hi by linarith
      ultimately show ?thesis using pr Some s(1,3,4) by auto
    qed
  qed
qed

lemma propose_longest_suffix_witness:
  "np_propose np_new [1, 2, 3, 4, 5, 1, 2, 3] = Some 4 \<and> occurs_at [1, 2, 3, 4, 5, 1, 2, 3] 3 0
   \<and> (\<exists>n s. occurs_at [1, 2, 3, 4, 5, 1, 2, 3] n s \<and> 2 \<le> n)"
proof -
  have e: "np_propose np_new [1, 2, 3, 4, 5, 1, 2, 3] = Some 4"
    by (simp add: np_propose_def np_new_def np_search_def upt_rec Let_def)
  have "1 \<le> np_min_match np_new" by (simp add: np_new_def)
  from propose_longest_suffix [OF this, of "[1, 2, 3, 4, 5, 1, 2, 3]"]
  have "\<exists>n s. occurs_at [1, 2, 3, 4, 5, 1, 2, 3] n s \<and> 2 \<le> n" unfolding e by (auto simp: np_new_def)
  with e show ?thesis by (simp add: occurs_at_def)
qed

end
