(* ===== verification/Dflash_Rung.thy ===== *)
theory Dflash_Rung
  imports Text_Parse
begin

text \<open>
  The DFlash gamma resolver (crates/speculative/src/dflash_rung.rs): the verify width by concurrency
  and, for a single stream, by the first-draft hits of the last 64 single-stream steps. The atomics
  are fields of a record, as one scheduler thread owns them; the environment is a map from names to
  values.
\<close>

record rungs =
  rg_multi :: nat
  rg_narrow :: nat
  rg_wide :: nat
  rg_enter :: nat
  rg_leave :: nat
  rg_dwell :: nat

type_synonym environment = "string \<rightharpoonup> string"

definition env_usize :: "environment \<Rightarrow> string \<Rightarrow> nat \<Rightarrow> nat" where
  "env_usize env name dflt =
    (case env name of None \<Rightarrow> dflt
     | Some v \<Rightarrow> (case parse_uint 64 v of Some n \<Rightarrow> n | None \<Rightarrow> dflt))"

definition env_u32 :: "environment \<Rightarrow> string \<Rightarrow> nat \<Rightarrow> nat" where
  "env_u32 env name dflt =
    (case env name of None \<Rightarrow> dflt
     | Some v \<Rightarrow> (case parse_uint 32 v of Some n \<Rightarrow> n | None \<Rightarrow> dflt))"

definition clamp2 :: "nat \<Rightarrow> nat \<Rightarrow> nat" where
  "clamp2 cap x = min (max x 2) (max cap 2)"

definition rungs_defaults :: "nat \<Rightarrow> rungs" where
  "rungs_defaults cap = \<lparr> rg_multi = clamp2 cap 4, rg_narrow = clamp2 cap 5, rg_wide = max cap 2,
     rg_enter = 60, rg_leave = 46, rg_dwell = 64 \<rparr>"

definition rungs_from_env :: "environment \<Rightarrow> nat \<Rightarrow> bool \<Rightarrow> rungs" where
  "rungs_from_env env cap woa_available =
    (let d = rungs_defaults cap in
     \<lparr> rg_multi = (if woa_available then clamp2 cap (env_usize env ''METRALE_DFLASH_RUNG_MULTI'' (rg_multi d)) else max cap 2),
       rg_narrow = clamp2 cap (env_usize env ''METRALE_DFLASH_RUNG_NARROW'' (rg_narrow d)),
       rg_wide = clamp2 cap (env_usize env ''METRALE_DFLASH_RUNG_WIDE'' (rg_wide d)),
       rg_enter = env_u32 env ''METRALE_DFLASH_RUNG_ENTER'' (rg_enter d),
       rg_leave = env_u32 env ''METRALE_DFLASH_RUNG_LEAVE'' (rg_leave d),
       rg_dwell = env_usize env ''METRALE_DFLASH_RUNG_DWELL'' (rg_dwell d) \<rparr>)"

record dflash_ctl =
  df_cap :: nat
  df_armed :: bool
  df_rungs :: rungs
  df_wide :: bool
  df_hits :: u64w
  df_tick :: nat
  df_last_switch :: nat
  df_last_n :: nat
  df_flips :: nat

definition df_new :: dflash_ctl where
  "df_new = \<lparr> df_cap = 0, df_armed = False,
     df_rungs = \<lparr> rg_multi = 4, rg_narrow = 5, rg_wide = 0, rg_enter = 60, rg_leave = 46, rg_dwell = 64 \<rparr>,
     df_wide = True, df_hits = 0, df_tick = 0, df_last_switch = 0, df_last_n = 0, df_flips = 0 \<rparr>"

definition df_configure_with :: "nat \<Rightarrow> bool \<Rightarrow> rungs \<Rightarrow> dflash_ctl \<Rightarrow> dflash_ctl" where
  "df_configure_with cap_k pinned r c =
    c\<lparr> df_cap := cap_k, df_rungs := r, df_wide := True, df_hits := 0, df_tick := 0, df_last_switch := 0,
       df_last_n := 0, df_armed := (\<not> pinned \<and> 3 \<le> cap_k) \<rparr>"

definition df_configure :: "environment \<Rightarrow> nat \<Rightarrow> bool \<Rightarrow> bool \<Rightarrow> dflash_ctl \<Rightarrow> dflash_ctl" where
  "df_configure env cap_k explicit_flag woa_available c =
    (let pinned = env ''METRALE_DFLASH_STATIC_GAMMA'' \<noteq> None
           \<or> explicit_flag \<and> env ''METRALE_DFLASH_GAMMA_RESOLVER'' = None
     in df_configure_with cap_k pinned (rungs_from_env env cap_k woa_available) c)"

definition k_for :: "nat \<Rightarrow> bool \<Rightarrow> rungs \<Rightarrow> nat" where
  "k_for n_active wide r = (if 2 \<le> n_active then rg_multi r else if wide then rg_wide r else rg_narrow r)"

definition next_wide :: "bool \<Rightarrow> nat \<Rightarrow> rungs \<Rightarrow> bool" where
  "next_wide wide hits r = (if wide then rg_leave r < hits else rg_enter r \<le> hits)"

definition shift_in :: "u64w \<Rightarrow> bool \<Rightarrow> u64w" where
  "shift_in register hit = and (or (push_bit 1 register) (of_bool hit)) (drop_bit (64 - 64) (- 1))"

definition count_ones :: "u64w \<Rightarrow> nat" where
  "count_ones w = length (filter (bit w) [0..<64])"

definition df_drafts_for :: "nat \<Rightarrow> nat \<Rightarrow> dflash_ctl \<Rightarrow> nat \<times> dflash_ctl" where
  "df_drafts_for n_active num_drafts c =
    (if \<not> df_armed c then (num_drafts, c)
     else (max (min (usize_pred (k_for n_active (df_wide c) (df_rungs c))) num_drafts) 1,
           c\<lparr> df_last_n := n_active \<rparr>))"

definition df_observe_step :: "bool \<Rightarrow> dflash_ctl \<Rightarrow> dflash_ctl" where
  "df_observe_step d1_match c =
    (if \<not> df_armed c \<or> df_last_n c \<noteq> 1 then c
     else
       let register = shift_in (df_hits c) d1_match;
           tick = df_tick c + 1;
           c1 = c\<lparr> df_hits := register, df_tick := tick \<rparr>;
           r = df_rungs c1
       in if tick - df_last_switch c1 < rg_dwell r then c1
          else
            let hits = count_ones register; now = next_wide (df_wide c1) hits r
            in if now \<noteq> df_wide c1
               then c1\<lparr> df_wide := now, df_last_switch := tick, df_flips := df_flips c1 + 1 \<rparr>
               else c1)"

subsection \<open>Runs\<close>

datatype rung_event = Ask nat nat | Step bool

fun rung_step :: "rung_event \<Rightarrow> dflash_ctl \<Rightarrow> dflash_ctl" where
  "rung_step (Ask n d) c = snd (df_drafts_for n d c)"
| "rung_step (Step b) c = df_observe_step b c"

text \<open>The specification's history: the width of the last dispatch and, newest first, the first-draft
  hits of the single-stream steps.\<close>

fun rung_history :: "rung_event list \<Rightarrow> nat \<times> bool list \<Rightarrow> nat \<times> bool list" where
  "rung_history [] h = h"
| "rung_history (Ask n d # es) (m, hs) = rung_history es (n, hs)"
| "rung_history (Step b # es) (m, hs) = rung_history es (if m = 1 then (m, b # hs) else (m, hs))"

definition window_hits :: "bool list \<Rightarrow> nat" where
  "window_hits hs = length (filter (\<lambda>b. b) (take 64 hs))"

lemma clamp2_bounds: "2 \<le> clamp2 cap x" "3 \<le> cap \<Longrightarrow> clamp2 cap x \<le> cap"
  by (auto simp: clamp2_def)

lemma bit_shift_in: "i < 64 \<Longrightarrow> bit (shift_in w b) i \<longleftrightarrow> (if i = 0 then b else bit w (i - 1))"
  unfolding shift_in_def bit_and_iff bit_or_iff bit_push_bit_iff bit_drop_bit_eq comp_apply bit_minus_1_iff bit_of_bool_iff
  by auto

definition register_of :: "bool list \<Rightarrow> u64w \<Rightarrow> bool" where
  "register_of hs w \<longleftrightarrow> (\<forall>i<64. bit w i \<longleftrightarrow> i < length hs \<and> hs ! i)"

lemma register_shift: "register_of hs w \<Longrightarrow> register_of (b # hs) (shift_in w b)"
  by (auto simp: register_of_def bit_shift_in nth_Cons')

lemma register_count:
  assumes "register_of hs w" shows "count_ones w = window_hits hs"
proof -
  have f: "filter (bit w) [0..<64] = filter (\<lambda>i. i < length hs \<and> hs ! i) [0..<64]"
    by (rule filter_cong) (use assms in \<open>auto simp: register_of_def\<close>)
  have t: "filter (\<lambda>i. i < length hs \<and> hs ! i) [0..<64] = filter (\<lambda>i. take 64 hs ! i) [0..<length (take 64 hs)]"
  proof -
    have "[0..<64] = [0..<min (length hs) 64] @ [min (length hs) 64..<64 :: nat]"
      using upt_add_eq_append [of 0 "min (length hs) 64" "64 - min (length hs) 64"] by simp
    moreover have "filter (\<lambda>i. i < length hs \<and> hs ! i) [min (length hs) 64..<64] = []"
      by (auto simp: filter_empty_conv)
    ultimately show ?thesis by (auto intro!: filter_cong)
  qed
  have "length (filter (\<lambda>i. xs ! i) [0..<length xs]) = length (filter (\<lambda>b. b) xs)" for xs :: "bool list"
  proof -
    have "map (\<lambda>i. xs ! i) (filter (\<lambda>i. xs ! i) [0..<length xs]) = filter (\<lambda>b. b) (map (\<lambda>i. xs ! i) [0..<length xs])"
      by (simp add: filter_map comp_def)
    then show ?thesis by (metis length_map map_nth)
  qed
  then show ?thesis by (simp only: count_ones_def f t window_hits_def)
qed

text \<open>The controller while armed refines the history.\<close>

definition rung_inv :: "rungs \<Rightarrow> nat \<Rightarrow> nat \<times> bool list \<Rightarrow> dflash_ctl \<Rightarrow> bool" where
  "rung_inv r f0 h c \<longleftrightarrow> df_armed c \<and> df_rungs c = r \<and> df_last_n c = fst h \<and> df_tick c = length (snd h)
     \<and> register_of (snd h) (df_hits c) \<and> f0 \<le> df_flips c
     \<and> (df_flips c - f0) * rg_dwell r \<le> df_last_switch c \<and> df_last_switch c \<le> df_tick c"

lemma rung_step_inv:
  assumes "rung_inv r f0 h c"
  shows "rung_inv r f0 (rung_history [e] h) (rung_step e c)"
proof (cases e)
  case (Ask n d)
  then show ?thesis using assms by (cases h) (simp add: rung_inv_def df_drafts_for_def)
next
  case (Step b)
  obtain m hs where h: "h = (m, hs)" by (cases h)
  show ?thesis
  proof (cases "m = 1")
    case False
    then show ?thesis using assms Step h by (simp add: rung_inv_def df_observe_step_def)
  next
    case True
    let ?c1 = "c\<lparr> df_hits := shift_in (df_hits c) b, df_tick := df_tick c + 1 \<rparr>"
    have I1: "rung_inv r f0 (m, b # hs) ?c1"
      using assms True h register_shift [of hs "df_hits c" b] by (simp add: rung_inv_def)
    have g: "df_armed c" "df_last_n c = 1" "df_rungs c = r" using assms True h by (simp_all add: rung_inv_def)
    let ?w = "next_wide (df_wide c) (count_ones (shift_in (df_hits c) b)) r"
    have "rung_step e c = ?c1 \<or> rung_step e c = ?c1\<lparr> df_wide := ?w, df_last_switch := df_tick c + 1, df_flips := df_flips c + 1 \<rparr>
        \<and> rg_dwell r \<le> df_tick c + 1 - df_last_switch c"
    proof (cases "df_tick c + 1 - df_last_switch c < rg_dwell r")
      case True
      then show ?thesis using g Step by (simp add: df_observe_step_def)
    next
      case False
      then show ?thesis using g Step by (cases "?w = df_wide c") (simp_all add: df_observe_step_def Let_def)
    qed
    then consider (keep) "rung_step e c = ?c1"
      | (flip) w where "rung_step e c = ?c1\<lparr> df_wide := w, df_last_switch := df_tick c + 1, df_flips := df_flips c + 1 \<rparr>"
          "rg_dwell r \<le> df_tick c + 1 - df_last_switch c" by blast
    then show ?thesis
    proof cases
      case keep
      then show ?thesis using I1 Step h True by simp
    next
      case flip
      have b: "f0 \<le> df_flips c" "(df_flips c - f0) * rg_dwell r \<le> df_last_switch c" "df_last_switch c \<le> df_tick c"
        using assms by (simp_all add: rung_inv_def)
      have "(df_flips c + 1 - f0) * rg_dwell r = (df_flips c - f0) * rg_dwell r + rg_dwell r"
        using b(1) by (simp add: Suc_diff_le)
      also have "\<dots> \<le> df_tick c + 1" using b(2,3) flip(2) by linarith
      finally have "(df_flips c + 1 - f0) * rg_dwell r \<le> df_tick c + 1" .
      then show ?thesis using I1 flip Step h True b(1) by (simp add: rung_inv_def)
    qed
  qed
qed

lemma rung_history_append: "rung_history (es @ fs) h = rung_history fs (rung_history es h)"
  by (induction es h rule: rung_history.induct) auto

lemma rung_run_inv: "rung_inv r f0 h c \<Longrightarrow> rung_inv r f0 (rung_history es h) (fold rung_step es c)"
proof (induction es arbitrary: h c)
  case (Cons e es)
  have "rung_history (e # es) h = rung_history es (rung_history [e] h)"
    using rung_history_append [of "[e]" es h] by simp
  then show ?case using Cons.IH [OF rung_step_inv [OF Cons.prems, of e]] by simp
qed simp

lemma rung_start_inv: "\<not> pinned \<Longrightarrow> 3 \<le> cap \<Longrightarrow> rung_inv r (df_flips c) (0, []) (df_configure_with cap pinned r c)"
  by (simp add: rung_inv_def df_configure_with_def register_of_def)

text \<open>C32: After any run of an armed resolver the register counts the first-draft hits of the last 64
  single-stream steps; one more step goes narrow only with at most \<open>leave\<close> hits among them and wide
  only with at least \<open>enter\<close>, and the switches so far took at least \<open>dwell\<close> single-stream steps each.\<close>

theorem dflash_switch_evidence:
  assumes "\<not> pinned" and "3 \<le> cap" and c: "c = fold rung_step es (df_configure_with cap pinned r c0)"
    and h: "rung_history es (0, []) = (m, hs)"
  shows "count_ones (df_hits c) = window_hits hs
    \<and> (df_flips c - df_flips c0) * rg_dwell r \<le> length hs
    \<and> (df_wide (df_observe_step b c) \<noteq> df_wide c \<longrightarrow>
        m = 1 \<and> (if df_wide c then window_hits (b # hs) \<le> rg_leave r else rg_enter r \<le> window_hits (b # hs)))"
proof -
  have I: "rung_inv r (df_flips c0) (m, hs) c"
    using rung_run_inv [OF rung_start_inv [OF assms(1,2), of r c0], of es] c h by simp
  then have reg: "register_of hs (df_hits c)" and g: "df_armed c" "df_rungs c = r" "df_last_n c = m"
    by (simp_all add: rung_inv_def)
  have w: "count_ones (shift_in (df_hits c) b) = window_hits (b # hs)"
    by (rule register_count [OF register_shift [OF reg]])
  have "m = 1 \<and> (if df_wide c then window_hits (b # hs) \<le> rg_leave r else rg_enter r \<le> window_hits (b # hs))"
    if flip: "df_wide (df_observe_step b c) \<noteq> df_wide c"
  proof -
    have m: "m = 1"
    proof (rule ccontr)
      assume "m \<noteq> 1" then show False using flip g by (simp add: df_observe_step_def)
    qed
    have "\<not> df_tick c + 1 - df_last_switch c < rg_dwell r"
    proof
      assume "df_tick c + 1 - df_last_switch c < rg_dwell r"
      then show False using flip g m by (simp add: df_observe_step_def Let_def)
    qed
    moreover have "next_wide (df_wide c) (window_hits (b # hs)) r \<noteq> df_wide c"
    proof
      assume "next_wide (df_wide c) (window_hits (b # hs)) r = df_wide c"
      then show False using flip g w by (simp add: df_observe_step_def Let_def split: if_splits)
    qed
    ultimately show ?thesis using m by (auto simp: next_wide_def)
  qed
  moreover have "(df_flips c - df_flips c0) * rg_dwell r \<le> length hs" using I by (simp add: rung_inv_def)
  ultimately show ?thesis using register_count [OF reg] by blast
qed

definition demo_rungs :: rungs where
  "demo_rungs = \<lparr> rg_multi = 2, rg_narrow = 2, rg_wide = 3, rg_enter = 1, rg_leave = 0, rg_dwell = 1 \<rparr>"

lemma dflash_switch_evidence_witness:
  "df_wide (df_observe_step False (fold rung_step [Ask 1 2] (df_configure_with 3 False demo_rungs df_new))) = False
   \<and> count_ones (df_hits (fold rung_step [Ask 1 2] (df_configure_with 3 False demo_rungs df_new))) = 0"
proof
  let ?c = "fold rung_step [Ask 1 2] (df_configure_with 3 False demo_rungs df_new)"
  have "shift_in 0 False = 0" by (simp add: shift_in_def)
  then have z: "count_ones (shift_in 0 False) = 0" by (simp add: count_ones_def)
  show "df_wide (df_observe_step False ?c) = False"
    by (simp add: df_observe_step_def df_drafts_for_def df_configure_with_def demo_rungs_def df_new_def next_wide_def
        Let_def z)
  have "rung_history [Ask 1 2] (0, []) = (1, [])" by simp
  from dflash_switch_evidence [OF _ _ refl this, of False 3]
  show "count_ones (df_hits ?c) = 0" by (simp add: window_hits_def)
qed

text \<open>With widths from the environment, whatever it holds, an armed resolver asks for at least one
  draft and at most the configured count and the head's width less one; unarmed it returns the
  configured count.\<close>

theorem dflash_drafts_bounds:
  assumes "c = fold rung_step es (df_configure env cap explicit woa c0)" and "1 \<le> num_drafts"
  shows "(if df_armed c
      then 1 \<le> fst (df_drafts_for n num_drafts c) \<and> fst (df_drafts_for n num_drafts c) \<le> num_drafts
        \<and> fst (df_drafts_for n num_drafts c) \<le> cap - 1
        \<and> fst (df_drafts_for n num_drafts c) + 1 = min (k_for n (df_wide c) (rungs_from_env env cap woa)) (num_drafts + 1)
      else fst (df_drafts_for n num_drafts c) = num_drafts)
    \<and> (df_armed c \<longleftrightarrow> 3 \<le> cap \<and> env ''METRALE_DFLASH_STATIC_GAMMA'' = None
        \<and> (explicit \<longrightarrow> env ''METRALE_DFLASH_GAMMA_RESOLVER'' \<noteq> None))"
proof -
  let ?r = "rungs_from_env env cap woa"
  have inv: "df_armed (fold rung_step es d) = df_armed d \<and> df_rungs (fold rung_step es d) = df_rungs d" for d
  proof (induction es arbitrary: d)
    case (Cons e es)
    have "df_armed (rung_step e d) = df_armed d \<and> df_rungs (rung_step e d) = df_rungs d"
      by (cases e) (simp_all add: df_drafts_for_def df_observe_step_def Let_def)
    then show ?case using Cons [of "rung_step e d"] by simp
  qed simp
  have r: "df_rungs c = ?r" and a: "df_armed c \<longleftrightarrow> 3 \<le> cap \<and> env ''METRALE_DFLASH_STATIC_GAMMA'' = None
        \<and> (explicit \<longrightarrow> env ''METRALE_DFLASH_GAMMA_RESOLVER'' \<noteq> None)"
    using inv [of "df_configure env cap explicit woa c0"] assms(1)
    by (auto simp: df_configure_def df_configure_with_def Let_def)
  have k: "2 \<le> k_for n w ?r \<and> k_for n w ?r \<le> cap" if "3 \<le> cap" for w
    using that clamp2_bounds by (auto simp: k_for_def rungs_from_env_def Let_def)
  have "1 \<le> fst (df_drafts_for n num_drafts c) \<and> fst (df_drafts_for n num_drafts c) \<le> num_drafts
      \<and> fst (df_drafts_for n num_drafts c) \<le> cap - 1
      \<and> fst (df_drafts_for n num_drafts c) + 1 = min (k_for n (df_wide c) ?r) (num_drafts + 1)" if "df_armed c"
    using that k [of "df_wide c"] a assms(2) r by (auto simp: df_drafts_for_def)
  then show ?thesis using a by (auto simp: df_drafts_for_def)
qed

lemma dflash_drafts_bounds_witness:
  "fst (df_drafts_for 1 9 (fold rung_step [] (df_configure Map.empty 8 False True df_new))) = 7"
proof -
  have c: "df_armed (df_configure Map.empty 8 False True df_new)" "df_wide (df_configure Map.empty 8 False True df_new)"
    by (simp_all add: df_configure_def df_configure_with_def Let_def)
  then show ?thesis
    using dflash_drafts_bounds [of _ "[]" Map.empty 8 False True df_new 9 1, OF refl]
    by (simp add: k_for_def rungs_from_env_def rungs_defaults_def env_usize_def clamp2_def Let_def)
qed

end
