(* ===== verification/Mtp_Gate.thy ===== *)
theory Mtp_Gate
  imports Spec_Policy
begin

text \<open>
  The runtime gate that chooses between the MTP verify step and plain decode by the throughput each
  delivered (crates/speculative/src/mtp_gate.rs, mtp_gate/driver.rs), and the two predicates the
  scheduler asks before it. \<open>f64\<close> is an arbitrary type with the operations the code uses; a step's
  wall time is given in seconds. Counters are naturals; logging is left out.
\<close>

definition WINDOW_STEPS :: nat where
  "WINDOW_STEPS = 16"

definition SWITCH_DWELL_WINDOWS :: nat where
  "SWITCH_DWELL_WINDOWS = 2"

definition REMEASURE_DEPTH_FACTOR :: nat where
  "REMEASURE_DEPTH_FACTOR = 2"

definition REMEASURE_DEPTH_FLOOR :: nat where
  "REMEASURE_DEPTH_FLOOR = 512"

text \<open>The constants \<open>TPS_ALPHA\<close> = 0.3, \<open>MARGIN_REL_FLOOR\<close> = 0.05 and 0.5, and the conversion of a count.\<close>

record 'f gate_ops = "'f f64_ops" +
  go_alpha :: 'f
  go_margin :: 'f
  go_half :: 'f
  go_of_nat :: "nat \<Rightarrow> 'f"
  go_abs :: "'f \<Rightarrow> 'f"
  go_max :: "'f \<Rightarrow> 'f \<Rightarrow> 'f"

definition parse_entry_pin_tokens :: "string option \<Rightarrow> nat" where
  "parse_entry_pin_tokens env =
    (case env of None \<Rightarrow> 8 | Some v \<Rightarrow> (case parse_uint 32 v of Some n \<Rightarrow> n | None \<Rightarrow> 8))"

definition entry_pin_forces_verify :: "nat \<Rightarrow> nat \<Rightarrow> bool" where
  "entry_pin_forces_verify min_post_think_emitted pin_tokens = (min_post_think_emitted < pin_tokens)"

definition spec_dispatch_eligible :: "bool \<Rightarrow> nat \<Rightarrow> nat \<Rightarrow> bool \<Rightarrow> bool \<Rightarrow> bool \<Rightarrow> nat \<Rightarrow> bool \<Rightarrow> bool" where
  "spec_dispatch_eligible inside_thinking post_think_emitted output_len suppress_tool_call disable_mtp
      spec_think resume_guard dflash_raw_argmax =
    (if suppress_tool_call \<or> disable_mtp then False
     else if inside_thinking \<and> \<not> spec_think then False
     else if dflash_raw_argmax \<and> \<not> spec_think then resume_guard \<le> post_think_emitted
     else if inside_thinking then resume_guard \<le> output_len
     else resume_guard \<le> post_think_emitted)"

datatype gate_step = MeasureDecode | MeasureVerify

datatype gate_decision = KeepMtp | DisableMtp

datatype gate_mode = ModeMtp | ModeSerial

record 'f mode_stats =
  md_tps :: "'f option"
  md_dev :: 'f
  md_stale :: bool
  md_windows :: nat

definition md_default :: "'f gate_ops \<Rightarrow> 'f mode_stats" where
  "md_default f = \<lparr> md_tps = None, md_dev = fl_zero f, md_stale = False, md_windows = 0 \<rparr>"

definition md_update :: "'f gate_ops \<Rightarrow> 'f \<Rightarrow> bool \<Rightarrow> 'f mode_stats \<Rightarrow> 'f mode_stats" where
  "md_update f window_tps replace m =
    (let m' = (case (md_tps m, replace) of
           (Some prev, False) \<Rightarrow>
             (let beta = fl_sub f (fl_one f) (go_alpha f);
                  nxt = fl_add f (fl_mul f beta prev) (fl_mul f (go_alpha f) window_tps)
              in m\<lparr> md_dev := fl_add f (fl_mul f beta (md_dev m)) (fl_mul f (go_alpha f) (go_abs f (fl_sub f window_tps nxt))),
                    md_tps := Some nxt \<rparr>)
         | _ \<Rightarrow> m\<lparr> md_tps := Some window_tps, md_dev := fl_mul f (md_dev m) (go_half f) \<rparr>)
     in m'\<lparr> md_stale := False, md_windows := md_windows m' + 1 \<rparr>)"

record 'f mtp_gate =
  mg_reprobe :: nat
  mg_refresh :: nat
  mg_mode :: gate_mode
  mg_probing :: bool
  mg_probe_left :: nat
  mg_mtp :: "'f mode_stats"
  mg_serial :: "'f mode_stats"
  mg_win_tokens :: 'f
  mg_win_wall :: 'f
  mg_win_steps :: nat
  mg_losing :: nat
  mg_loss_other :: nat
  mg_since_event :: nat
  mg_depth :: nat
  mg_measured_depth :: nat
  mg_width :: nat
  mg_fresh :: "gate_decision option"
  mg_settle :: nat
  mg_regime_reprobes :: nat

definition mg_new :: "'f gate_ops \<Rightarrow> nat \<Rightarrow> nat \<Rightarrow> 'f mtp_gate" where
  "mg_new f reprobe refresh = \<lparr> mg_reprobe = reprobe, mg_refresh = refresh, mg_mode = ModeMtp, mg_probing = False,
     mg_probe_left = 0, mg_mtp = md_default f, mg_serial = md_default f, mg_win_tokens = fl_zero f,
     mg_win_wall = fl_zero f, mg_win_steps = 0, mg_losing = 0, mg_loss_other = 0, mg_since_event = 0, mg_depth = 0,
     mg_measured_depth = 0, mg_width = 0, mg_fresh = None, mg_settle = 0, mg_regime_reprobes = 0 \<rparr>"

fun other_mode :: "gate_mode \<Rightarrow> gate_mode" where
  "other_mode ModeMtp = ModeSerial"
| "other_mode ModeSerial = ModeMtp"

fun stats_of :: "gate_mode \<Rightarrow> 'f mtp_gate \<Rightarrow> 'f mode_stats" where
  "stats_of ModeMtp g = mg_mtp g"
| "stats_of ModeSerial g = mg_serial g"

fun set_stats :: "gate_mode \<Rightarrow> 'f mode_stats \<Rightarrow> 'f mtp_gate \<Rightarrow> 'f mtp_gate" where
  "set_stats ModeMtp s g = g\<lparr> mg_mtp := s \<rparr>"
| "set_stats ModeSerial s g = g\<lparr> mg_serial := s \<rparr>"

definition event_interval :: "'f mtp_gate \<Rightarrow> nat" where
  "event_interval g = (case mg_mode g of ModeMtp \<Rightarrow> mg_refresh g * max (mg_width g) 1 | ModeSerial \<Rightarrow> mg_reprobe g)"

definition clear_window :: "'f gate_ops \<Rightarrow> 'f mtp_gate \<Rightarrow> 'f mtp_gate" where
  "clear_window f g = g\<lparr> mg_win_tokens := fl_zero f, mg_win_wall := fl_zero f, mg_win_steps := 0 \<rparr>"

definition mark_stale :: "'f mtp_gate \<Rightarrow> 'f mtp_gate" where
  "mark_stale g = g\<lparr> mg_mtp := (mg_mtp g)\<lparr> md_stale := True \<rparr>, mg_serial := (mg_serial g)\<lparr> md_stale := True \<rparr> \<rparr>"

definition bring_forward :: "'f mtp_gate \<Rightarrow> 'f mtp_gate" where
  "bring_forward g = g\<lparr> mg_since_event := max (mg_since_event g) (event_interval g) \<rparr>"

fun next_power_of_two :: "nat \<Rightarrow> nat" where
  "next_power_of_two w = (if w \<le> 1 then 1 else 2 * next_power_of_two ((w + 1) div 2))"

declare next_power_of_two.simps [simp del]

definition mg_note_width :: "'f gate_ops \<Rightarrow> nat \<Rightarrow> 'f mtp_gate \<Rightarrow> 'f mtp_gate" where
  "mg_note_width f width g =
    (let regime = next_power_of_two width in
     if regime = mg_width g then g
     else if mg_width g \<noteq> 0
     then (bring_forward ((clear_window f (mark_stale g))\<lparr> mg_losing := 0, mg_width := regime \<rparr>))\<lparr> mg_settle := WINDOW_STEPS \<rparr>
     else g\<lparr> mg_width := regime \<rparr>)"

definition mg_margin :: "'f gate_ops \<Rightarrow> 'f \<Rightarrow> 'f mtp_gate \<Rightarrow> 'f" where
  "mg_margin f cur g = go_max f (fl_mul f (go_margin f) cur)
     (fl_mul f (go_half f) (fl_add f (md_dev (stats_of (mg_mode g) g)) (md_dev (stats_of (other_mode (mg_mode g)) g))))"

definition mg_switch :: "'f mtp_gate \<Rightarrow> 'f mtp_gate" where
  "mg_switch g =
    (let to = other_mode (mg_mode g) in
     g\<lparr> mg_mode := to, mg_losing := 0, mg_since_event := 0, mg_measured_depth := mg_depth g,
        mg_fresh := Some (case to of ModeMtp \<Rightarrow> KeepMtp | ModeSerial \<Rightarrow> DisableMtp) \<rparr>)"

definition mg_arbitrate :: "'f gate_ops \<Rightarrow> 'f mtp_gate \<Rightarrow> 'f mtp_gate" where
  "mg_arbitrate f g =
    (let os = stats_of (other_mode (mg_mode g)) g in
     case (md_tps (stats_of (mg_mode g) g), md_tps os) of
       (Some cur, Some other) \<Rightarrow>
         if md_stale os then g
         else if fl_lt f (fl_add f cur (mg_margin f cur g)) other then
           (if 0 < mg_losing g \<and> md_windows os = mg_loss_other g then g
            else
              let g1 = g\<lparr> mg_losing := mg_losing g + 1, mg_loss_other := md_windows os \<rparr>;
                  g2 = (if mg_losing g1 < SWITCH_DWELL_WINDOWS then bring_forward g1 else g1)
              in if SWITCH_DWELL_WINDOWS \<le> mg_losing g2 then mg_switch g2 else g2)
         else g\<lparr> mg_losing := 0 \<rparr>
     | _ \<Rightarrow> g)"

definition fold_window :: "'f gate_ops \<Rightarrow> 'f mtp_gate \<Rightarrow> 'f mtp_gate" where
  "fold_window f g =
    (let ran = (if mg_probing g then other_mode (mg_mode g) else mg_mode g) in
     clear_window f
       (if fl_lt f (fl_zero f) (mg_win_wall g) \<and> 0 < mg_win_steps g
        then set_stats ran (md_update f (fl_div f (mg_win_tokens g) (mg_win_wall g))
               (mg_probing g \<or> md_stale (stats_of ran g)) (stats_of ran g)) g
        else g))"

definition mg_close_window :: "'f gate_ops \<Rightarrow> 'f mtp_gate \<Rightarrow> 'f mtp_gate" where
  "mg_close_window f g =
    (let g1 = fold_window f g in
     if mg_probing g1 then
       (let g2 = g1\<lparr> mg_probe_left := mg_probe_left g1 - 1 \<rparr> in
        if mg_probe_left g2 = 0 then mg_arbitrate f (g2\<lparr> mg_probing := False, mg_since_event := 0 \<rparr>) else g2)
     else if event_interval g1 \<le> mg_since_event g1 then g1\<lparr> mg_probing := True, mg_probe_left := 1 \<rparr>
     else mg_arbitrate f g1)"

definition mg_record_step :: "'f gate_ops \<Rightarrow> 'f \<Rightarrow> nat \<Rightarrow> 'f mtp_gate \<Rightarrow> 'f mtp_gate" where
  "mg_record_step f wall tokens g =
    (if 0 < mg_settle g then g\<lparr> mg_settle := mg_settle g - 1 \<rparr>
     else
       let g1 = g\<lparr> mg_win_tokens := fl_add f (mg_win_tokens g) (go_of_nat f tokens),
                   mg_win_wall := fl_add f (mg_win_wall g) wall,
                   mg_win_steps := mg_win_steps g + 1,
                   mg_since_event := (if mg_probing g then mg_since_event g else mg_since_event g + tokens) \<rparr>
       in if WINDOW_STEPS \<le> mg_win_steps g1 then mg_close_window f g1
          else if \<not> mg_probing g1 \<and> event_interval g1 \<le> mg_since_event g1 \<and> \<not> md_stale (stats_of (mg_mode g1) g1)
          then mg_close_window f (if mg_win_steps g1 < WINDOW_STEPS div 2 then clear_window f g1 else g1)
          else g1)"

definition mg_note_depth :: "nat \<Rightarrow> 'f mtp_gate \<Rightarrow> 'f mtp_gate" where
  "mg_note_depth depth g = g\<lparr> mg_depth := depth \<rparr>"

definition mg_maybe_remeasure :: "nat \<Rightarrow> 'f mtp_gate \<Rightarrow> bool \<times> 'f mtp_gate" where
  "mg_maybe_remeasure current_depth g =
    (let measured = max (mg_measured_depth g) REMEASURE_DEPTH_FLOOR;
         live = max current_depth REMEASURE_DEPTH_FLOOR
     in if measured * REMEASURE_DEPTH_FACTOR \<le> live \<or> live * REMEASURE_DEPTH_FACTOR \<le> measured
        then (True, (bring_forward ((mark_stale g)\<lparr> mg_measured_depth := current_depth \<rparr>))
                \<lparr> mg_regime_reprobes := mg_regime_reprobes g + 1 \<rparr>)
        else (False, g))"

definition mg_take_fresh_decision :: "'f mtp_gate \<Rightarrow> gate_decision option \<times> 'f mtp_gate" where
  "mg_take_fresh_decision g = (mg_fresh g, g\<lparr> mg_fresh := None \<rparr>)"

definition mg_next_step :: "'f mtp_gate \<Rightarrow> gate_step" where
  "mg_next_step g =
    (case (if mg_probing g then other_mode (mg_mode g) else mg_mode g) of
       ModeMtp \<Rightarrow> MeasureVerify | ModeSerial \<Rightarrow> MeasureDecode)"

definition mg_record_decode :: "'f gate_ops \<Rightarrow> 'f \<Rightarrow> nat \<Rightarrow> 'f mtp_gate \<Rightarrow> 'f mtp_gate" where
  "mg_record_decode f wall width g = mg_record_step f wall (max width 1) (mg_note_width f (max width 1) g)"

definition mg_record_verify_step :: "'f gate_ops \<Rightarrow> 'f \<Rightarrow> nat \<Rightarrow> nat \<Rightarrow> 'f mtp_gate \<Rightarrow> 'f mtp_gate" where
  "mg_record_verify_step f wall emitted width g =
    mg_record_step f wall (max emitted 1) (mg_note_width f (max width 1) g)"

end
