(* ===== verification/Mtp_Gate_Props.thy ===== *)
theory Mtp_Gate_Props
  imports Mtp_Gate
begin

text \<open>
  The gate over arbitrary sequences of the scheduler's calls: a switch needs both estimates, a fresh
  measurement of the other mode beyond the margin, and an earlier loss on an older measurement; an
  open window holds steps of one width bucket only; and a probe ends after one window.
\<close>

datatype 'f gate_event = GDecode 'f nat | GVerify 'f nat nat | GDepth nat | GRemeasure nat | GTake

fun gate_apply :: "'f gate_ops \<Rightarrow> 'f gate_event \<Rightarrow> 'f mtp_gate \<Rightarrow> 'f mtp_gate" where
  "gate_apply f (GDecode wall width) g = mg_record_decode f wall width g"
| "gate_apply f (GVerify wall emitted width) g = mg_record_verify_step f wall emitted width g"
| "gate_apply f (GDepth d) g = mg_note_depth d g"
| "gate_apply f (GRemeasure d) g = snd (mg_maybe_remeasure d g)"
| "gate_apply f GTake g = snd (mg_take_fresh_decision g)"

text \<open>The width a call records, if it records a step.\<close>

fun event_width :: "'f gate_event \<Rightarrow> nat option" where
  "event_width (GDecode wall width) = Some (max width 1)"
| "event_width (GVerify wall emitted width) = Some (max width 1)"
| "event_width (GDepth d) = None"
| "event_width (GRemeasure d) = None"
| "event_width GTake = None"

lemma next_power_of_two_spec: "\<exists>k. next_power_of_two w = 2 ^ k \<and> w \<le> 2 ^ k \<and> (1 < w \<longrightarrow> 2 ^ k < 2 * w)"
proof (induction w rule: next_power_of_two.induct)
  case (1 w)
  show ?case
  proof (cases "w \<le> 1")
    case True
    then show ?thesis by (auto simp: next_power_of_two.simps [of w] intro: exI [of _ 0])
  next
    case False
    let ?v = "(w + 1) div 2"
    obtain k where k: "next_power_of_two ?v = 2 ^ k" "?v \<le> 2 ^ k" "1 < ?v \<longrightarrow> 2 ^ k < 2 * ?v" using 1 False by blast
    have v: "2 * ?v = w + 1 \<or> 2 * ?v = w" by presburger
    have "(2 :: nat) ^ Suc k < 2 * w"
    proof (cases "1 < ?v")
      case True
      then have "(2 :: nat) ^ k < 2 * ?v" "even ((2 :: nat) ^ Suc k)" using k(3) by simp_all
      show ?thesis
      proof (cases k)
        case 0
        then show ?thesis using False by simp
      next
        case (Suc j)
        then have "even ((2 :: nat) ^ k)" by simp
        with \<open>(2 :: nat) ^ k < 2 * ?v\<close> have "(2 :: nat) ^ k \<le> 2 * ?v - 2" by (elim evenE) simp
        then show ?thesis using v False by auto
      qed
    next
      case F: False
      then have "?v = 1" using False by simp
      then have "next_power_of_two ?v = 1" by (simp add: next_power_of_two.simps)
      with k(1) False show ?thesis by simp
    qed
    moreover have "next_power_of_two w = 2 ^ Suc k" using False k(1) by (subst next_power_of_two.simps) simp
    moreover have "w \<le> 2 ^ Suc k" using k(2) v by auto
    ultimately show ?thesis by blast
  qed
qed

lemma next_power_of_two_pos [simp]: "0 < next_power_of_two w"
  using next_power_of_two_spec [of w] by auto

subsection \<open>Arbitration\<close>

definition window_eq :: "'f mtp_gate \<Rightarrow> 'f mtp_gate \<Rightarrow> bool" where
  "window_eq g g' \<longleftrightarrow> mg_probing g' = mg_probing g \<and> mg_probe_left g' = mg_probe_left g \<and> mg_mtp g' = mg_mtp g
     \<and> mg_serial g' = mg_serial g \<and> mg_win_steps g' = mg_win_steps g \<and> mg_width g' = mg_width g \<and> mg_settle g' = mg_settle g"

definition evidence :: "'f gate_ops \<Rightarrow> 'f mtp_gate \<Rightarrow> gate_mode \<Rightarrow> bool" where
  "evidence f g m \<longleftrightarrow> (\<exists>cur other. md_tps (stats_of m g) = Some cur \<and> md_tps (stats_of (other_mode m) g) = Some other
     \<and> \<not> md_stale (stats_of (other_mode m) g) \<and> fl_lt f (fl_add f cur (mg_margin f cur (g\<lparr> mg_mode := m \<rparr>))) other)"

lemma other_mode_simps [simp]: "other_mode m \<noteq> m" "other_mode (other_mode m) = m"
  by (cases m; simp)+

lemma stats_cong: "mg_mtp g' = mg_mtp g \<Longrightarrow> mg_serial g' = mg_serial g \<Longrightarrow> stats_of m g' = stats_of m g"
  by (cases m) simp_all

lemma arbitrate_cases:
  obtains (same) "mg_arbitrate f g = g"
  | (reset) "mg_arbitrate f g = g\<lparr> mg_losing := 0 \<rparr>"
  | (loss) "mg_arbitrate f g = bring_forward (g\<lparr> mg_losing := mg_losing g + 1, mg_loss_other := md_windows (stats_of (other_mode (mg_mode g)) g) \<rparr>)"
      "mg_losing g + 1 < SWITCH_DWELL_WINDOWS" "evidence f g (mg_mode g)"
  | (switch) "mg_arbitrate f g = mg_switch (g\<lparr> mg_losing := mg_losing g + 1, mg_loss_other := md_windows (stats_of (other_mode (mg_mode g)) g) \<rparr>)"
      "SWITCH_DWELL_WINDOWS \<le> mg_losing g + 1" "evidence f g (mg_mode g)"
      "md_windows (stats_of (other_mode (mg_mode g)) g) \<noteq> mg_loss_other g"
proof -
  let ?o = "stats_of (other_mode (mg_mode g)) g"
  let ?g1 = "g\<lparr> mg_losing := mg_losing g + 1, mg_loss_other := md_windows ?o \<rparr>"
  show thesis
  proof (cases "md_tps (stats_of (mg_mode g) g)")
    case None
    then show thesis by (intro same) (simp add: mg_arbitrate_def)
  next
    case (Some cur)
    note c = Some
    show thesis
    proof (cases "md_tps ?o")
      case None
      then show thesis by (intro same) (simp add: mg_arbitrate_def c)
    next
      case (Some other)
      have eq: "mg_arbitrate f g = (if md_stale ?o then g
          else if fl_lt f (fl_add f cur (mg_margin f cur g)) other then
            (if 0 < mg_losing g \<and> md_windows ?o = mg_loss_other g then g
             else let g2 = (if mg_losing ?g1 < SWITCH_DWELL_WINDOWS then bring_forward ?g1 else ?g1)
                  in if SWITCH_DWELL_WINDOWS \<le> mg_losing g2 then mg_switch g2 else g2)
          else g\<lparr> mg_losing := 0 \<rparr>)"
        by (simp only: mg_arbitrate_def Let_def c Some option.case prod.case)
      consider (st) "md_stale ?o" | (ok) "\<not> md_stale ?o" "\<not> fl_lt f (fl_add f cur (mg_margin f cur g)) other"
        | (old) "\<not> md_stale ?o" "fl_lt f (fl_add f cur (mg_margin f cur g)) other" "0 < mg_losing g \<and> md_windows ?o = mg_loss_other g"
        | (new) "\<not> md_stale ?o" "fl_lt f (fl_add f cur (mg_margin f cur g)) other" "\<not> (0 < mg_losing g \<and> md_windows ?o = mg_loss_other g)"
        by blast
      then show thesis
      proof cases
        case st
        then show thesis using eq by (intro same) simp
      next
        case ok
        then show thesis using eq by (intro reset) simp
      next
        case old
        then show thesis using eq by (intro same) simp
      next
        case new
        have ev: "evidence f g (mg_mode g)" using new c Some by (simp add: evidence_def)
        have e: "mg_arbitrate f g = (let g2 = (if mg_losing ?g1 < SWITCH_DWELL_WINDOWS then bring_forward ?g1 else ?g1)
              in if SWITCH_DWELL_WINDOWS \<le> mg_losing g2 then mg_switch g2 else g2)"
          by (simp only: eq new(1,2) if_False if_True new(3))
        show thesis
        proof (cases "mg_losing g + 1 < SWITCH_DWELL_WINDOWS")
          case True
          then show thesis using e ev by (intro loss) (simp_all add: Let_def bring_forward_def)
        next
          case False
          then have "0 < mg_losing g" by (simp add: SWITCH_DWELL_WINDOWS_def)
          then have "md_windows ?o \<noteq> mg_loss_other g" using new(3) by blast
          then show thesis using e ev False by (intro switch) (simp_all add: Let_def)
        qed
      qed
    qed
  qed
qed

lemma arbitrate_window: "window_eq g (mg_arbitrate f g)"
  by (cases rule: arbitrate_cases [of f g])
    (simp_all add: window_eq_def bring_forward_def mg_switch_def Let_def)

lemma evidence_cong:
  assumes "mg_mtp g' = mg_mtp g" "mg_serial g' = mg_serial g"
  shows "evidence f g' m = evidence f g m"
proof -
  have s: "stats_of x g' = stats_of x g" for x by (rule stats_cong [OF assms])
  have u: "stats_of x (h\<lparr> mg_mode := m \<rparr>) = stats_of x h" for x and h :: "'a mtp_gate" by (cases x) simp_all
  show ?thesis by (simp add: evidence_def mg_margin_def s u)
qed

subsection \<open>Windows\<close>

definition mg_ok :: "'f mtp_gate \<Rightarrow> bool" where
  "mg_ok g \<longleftrightarrow> mg_losing g < SWITCH_DWELL_WINDOWS \<and> mg_settle g \<le> WINDOW_STEPS
     \<and> mg_probe_left g = (if mg_probing g then 1 else 0)
     \<and> (0 < mg_losing g \<longrightarrow> mg_loss_other g \<le> md_windows (stats_of (other_mode (mg_mode g)) g))"

definition switched :: "'f gate_ops \<Rightarrow> 'f mtp_gate \<Rightarrow> 'f mtp_gate \<Rightarrow> bool" where
  "switched f g g' \<longleftrightarrow> mg_mode g' = other_mode (mg_mode g) \<and> evidence f g' (mg_mode g)
     \<and> mg_losing g = 1 \<and> mg_loss_other g < md_windows (stats_of (other_mode (mg_mode g)) g')
     \<and> mg_fresh g' = Some (case mg_mode g' of ModeMtp \<Rightarrow> KeepMtp | ModeSerial \<Rightarrow> DisableMtp)"

lemma arbitrate_ok:
  assumes "mg_ok g"
  shows "mg_ok (mg_arbitrate f g) \<and> (mg_mode (mg_arbitrate f g) = mg_mode g \<or> switched f g (mg_arbitrate f g))"
proof (cases rule: arbitrate_cases [of f g])
  case same
  then show ?thesis using assms by simp
next
  case reset
  have "stats_of x (g\<lparr> mg_losing := 0 \<rparr>) = stats_of x g" for x by (cases x) simp_all
  then show ?thesis using assms reset by (simp add: mg_ok_def SWITCH_DWELL_WINDOWS_def)
next
  case loss
  have "stats_of x (bring_forward (g\<lparr> mg_losing := l, mg_loss_other := w \<rparr>)) = stats_of x g" for x l w
    by (cases x) (simp_all add: bring_forward_def)
  then show ?thesis using assms loss by (simp add: mg_ok_def bring_forward_def)
next
  case switch
  let ?g' = "mg_arbitrate f g"
  have m: "mg_mtp ?g' = mg_mtp g" "mg_serial ?g' = mg_serial g" using switch(1) by (simp_all add: mg_switch_def Let_def)
  have "mg_losing g = 1" using switch(2) assms by (simp add: mg_ok_def SWITCH_DWELL_WINDOWS_def)
  then have "switched f g ?g'"
    using switch(3,4) assms m stats_cong [OF m] evidence_cong [OF m]
    by (simp add: switched_def mg_ok_def switch(1) mg_switch_def Let_def)
  moreover have "mg_ok ?g'" using assms switch(1) by (simp add: mg_ok_def mg_switch_def Let_def SWITCH_DWELL_WINDOWS_def)
  ultimately show ?thesis by simp
qed

lemma md_update_windows: "md_windows (md_update f w r m) = md_windows m + 1"
  by (cases "md_tps m"; cases r) (simp_all add: md_update_def Let_def)

definition frame_eq :: "'f mtp_gate \<Rightarrow> 'f mtp_gate \<Rightarrow> bool" where
  "frame_eq g g' \<longleftrightarrow> mg_mode g' = mg_mode g \<and> mg_probing g' = mg_probing g \<and> mg_probe_left g' = mg_probe_left g
     \<and> mg_losing g' = mg_losing g \<and> mg_loss_other g' = mg_loss_other g \<and> mg_width g' = mg_width g
     \<and> mg_settle g' = mg_settle g \<and> mg_since_event g' = mg_since_event g
     \<and> (\<forall>m. md_windows (stats_of m g) \<le> md_windows (stats_of m g'))"

lemma fold_window_frame: "frame_eq g (fold_window f g) \<and> mg_win_steps (fold_window f g) = 0"
proof -
  define ran where "ran = (if mg_probing g then other_mode (mg_mode g) else mg_mode g)"
  define g1 where "g1 = (if fl_lt f (fl_zero f) (mg_win_wall g) \<and> 0 < mg_win_steps g
        then set_stats ran (md_update f (fl_div f (mg_win_tokens g) (mg_win_wall g))
               (mg_probing g \<or> md_stale (stats_of ran g)) (stats_of ran g)) g else g)"
  have fw: "fold_window f g = clear_window f g1" by (simp add: fold_window_def ran_def g1_def Let_def)
  have "md_windows (stats_of m g) \<le> md_windows (stats_of m g1)" for m
    by (cases m; cases ran) (simp_all add: g1_def md_update_windows)
  moreover have "stats_of m (clear_window f g1) = stats_of m g1" for m by (cases m) (simp_all add: clear_window_def)
  moreover have "mg_mode g1 = mg_mode g \<and> mg_probing g1 = mg_probing g \<and> mg_probe_left g1 = mg_probe_left g
     \<and> mg_losing g1 = mg_losing g \<and> mg_loss_other g1 = mg_loss_other g \<and> mg_width g1 = mg_width g
     \<and> mg_settle g1 = mg_settle g \<and> mg_since_event g1 = mg_since_event g"
    by (cases ran) (simp_all add: g1_def)
  ultimately show ?thesis by (simp add: frame_eq_def fw clear_window_def)
qed

lemma switched_frame:
  assumes "frame_eq g g1" and "switched f g1 g'" shows "switched f g g'"
  using assms by (simp add: frame_eq_def switched_def)

lemma close_window_spec:
  assumes "mg_ok g"
  shows "mg_ok (mg_close_window f g) \<and> mg_win_steps (mg_close_window f g) = 0
    \<and> mg_width (mg_close_window f g) = mg_width g \<and> mg_settle (mg_close_window f g) = mg_settle g
    \<and> (mg_probing g \<longrightarrow> \<not> mg_probing (mg_close_window f g))
    \<and> (mg_mode (mg_close_window f g) = mg_mode g \<or> switched f g (mg_close_window f g))"
proof -
  define g1 where "g1 = fold_window f g"
  have F: "frame_eq g g1" "mg_win_steps g1 = 0" using fold_window_frame [of g f] by (simp_all add: g1_def)
  have ok1: "mg_ok g1" using assms F(1) unfolding mg_ok_def frame_eq_def by (auto intro: le_trans)
  have cw: "mg_close_window f g = (if mg_probing g1 then
       (let g2 = g1\<lparr> mg_probe_left := mg_probe_left g1 - 1 \<rparr> in
        if mg_probe_left g2 = 0 then mg_arbitrate f (g2\<lparr> mg_probing := False, mg_since_event := 0 \<rparr>) else g2)
     else if event_interval g1 \<le> mg_since_event g1 then g1\<lparr> mg_probing := True, mg_probe_left := 1 \<rparr>
     else mg_arbitrate f g1)"
    by (simp only: mg_close_window_def g1_def [symmetric] Let_def)
  have fin: ?thesis if h: "mg_close_window f g = mg_arbitrate f h" "mg_ok h" "frame_eq g (h\<lparr> mg_probing := mg_probing g,
      mg_probe_left := mg_probe_left g, mg_since_event := mg_since_event g \<rparr>)" "mg_win_steps h = 0" "\<not> mg_probing h" for h
  proof -
    have u: "stats_of m (h\<lparr> mg_probing := a, mg_probe_left := b, mg_since_event := c \<rparr>) = stats_of m h" for m a b c
      by (cases m) simp_all
    have "switched f g (mg_arbitrate f h)" if "switched f h (mg_arbitrate f h)"
      using that h(3) by (simp add: switched_def frame_eq_def)
    then show ?thesis using arbitrate_ok [OF h(2), of f] arbitrate_window [of h f] h
      by (auto simp: window_eq_def frame_eq_def)
  qed
  have u: "stats_of m (g1\<lparr> mg_probe_left := a, mg_probing := b, mg_since_event := c \<rparr>) = stats_of m g1" for m a b c
    by (cases m) simp_all
  show ?thesis
  proof (cases "mg_probing g1")
    case True
    let ?h = "g1\<lparr> mg_probe_left := 0, mg_probing := False, mg_since_event := 0 \<rparr>"
    have "mg_probe_left g1 = 1" using ok1 True by (simp add: mg_ok_def)
    then have e: "mg_close_window f g = mg_arbitrate f ?h" using cw True by (simp add: Let_def)
    have "mg_ok ?h" using ok1 True by (simp add: mg_ok_def u)
    moreover have "stats_of m (?h\<lparr> mg_probing := a, mg_probe_left := b, mg_since_event := c \<rparr>) = stats_of m g1" for m a b c
      by (cases m) simp_all
    ultimately show ?thesis using F by (intro fin [OF e]) (simp_all add: frame_eq_def)
  next
    case np: False
    show ?thesis
    proof (cases "event_interval g1 \<le> mg_since_event g1")
      case True
      have "stats_of m (g1\<lparr> mg_probing := True, mg_probe_left := 1 \<rparr>) = stats_of m g1" for m by (cases m) simp_all
      moreover have "mg_close_window f g = g1\<lparr> mg_probing := True, mg_probe_left := 1 \<rparr>" using cw np True by simp
      moreover have "\<not> mg_probing g" using np F(1) by (simp add: frame_eq_def)
      ultimately show ?thesis using ok1 F by (simp add: mg_ok_def frame_eq_def)
    next
      case False
      have "stats_of m (g1\<lparr> mg_probing := a, mg_probe_left := b, mg_since_event := c \<rparr>) = stats_of m g1" for m a b c
        by (cases m) simp_all
      moreover have "mg_close_window f g = mg_arbitrate f g1" using cw np False by simp
      ultimately show ?thesis using ok1 F np by (intro fin [of g1]) (simp_all add: frame_eq_def)
    qed
  qed
qed

subsection \<open>Steps\<close>

definition gate_inv :: "'f mtp_gate \<Rightarrow> bool" where
  "gate_inv g \<longleftrightarrow> mg_ok g \<and> mg_win_steps g < WINDOW_STEPS \<and> (0 < mg_settle g \<longrightarrow> mg_win_steps g = 0)"

text \<open>How many recorded steps of the current bucket the open window still takes.\<close>

definition steps_left :: "'f mtp_gate \<Rightarrow> nat" where
  "steps_left g = mg_settle g + (WINDOW_STEPS - mg_win_steps g)"

definition step_result :: "'f gate_ops \<Rightarrow> 'f mtp_gate \<Rightarrow> 'f mtp_gate \<Rightarrow> bool" where
  "step_result f g g' \<longleftrightarrow> gate_inv g' \<and> mg_width g' = mg_width g \<and> mg_win_steps g' \<le> mg_win_steps g + 1
     \<and> (mg_mode g' = mg_mode g \<or> switched f g g')
     \<and> (mg_probing g \<longrightarrow> (if steps_left g = 1 then \<not> mg_probing g' else mg_probing g' \<and> steps_left g' = steps_left g - 1))"

lemma record_step_spec:
  assumes I: "gate_inv g"
  shows "step_result f g (mg_record_step f wall tokens g)"
proof (cases "0 < mg_settle g")
  case True
  have "stats_of m (g\<lparr> mg_settle := n \<rparr>) = stats_of m g" for m n by (cases m) simp_all
  then show ?thesis using I True
    by (auto simp: step_result_def mg_record_step_def gate_inv_def mg_ok_def steps_left_def WINDOW_STEPS_def)
next
  case False
  define g1 where "g1 = g\<lparr> mg_win_tokens := fl_add f (mg_win_tokens g) (go_of_nat f tokens),
                   mg_win_wall := fl_add f (mg_win_wall g) wall,
                   mg_win_steps := mg_win_steps g + 1,
                   mg_since_event := (if mg_probing g then mg_since_event g else mg_since_event g + tokens) \<rparr>"
  have s1: "stats_of m g1 = stats_of m g" for m by (cases m) (simp_all add: g1_def)
  have f1: "mg_mode g1 = mg_mode g" "mg_probing g1 = mg_probing g" "mg_probe_left g1 = mg_probe_left g"
    "mg_losing g1 = mg_losing g" "mg_loss_other g1 = mg_loss_other g" "mg_width g1 = mg_width g"
    "mg_settle g1 = 0" "mg_win_steps g1 = mg_win_steps g + 1" using False by (simp_all add: g1_def)
  have ok1: "mg_ok g1" using I by (simp add: gate_inv_def mg_ok_def f1 s1)
  have r: "mg_record_step f wall tokens g = (if WINDOW_STEPS \<le> mg_win_steps g1 then mg_close_window f g1
          else if \<not> mg_probing g1 \<and> event_interval g1 \<le> mg_since_event g1 \<and> \<not> md_stale (stats_of (mg_mode g1) g1)
          then mg_close_window f (if mg_win_steps g1 < WINDOW_STEPS div 2 then clear_window f g1 else g1) else g1)"
    using False by (simp only: mg_record_step_def g1_def [symmetric] Let_def if_False)
  have close: "step_result f g (mg_close_window f h)"
    if h: "h = g1 \<or> h = clear_window f g1" "mg_probing g \<longrightarrow> steps_left g = 1" for h
  proof -
    have sh: "stats_of m h = stats_of m g" for m using h(1) by (cases m) (auto simp: clear_window_def g1_def)
    have fh: "mg_mode h = mg_mode g" "mg_probing h = mg_probing g" "mg_losing h = mg_losing g" "mg_loss_other h = mg_loss_other g"
      "mg_width h = mg_width g" "mg_settle h = 0" "mg_ok h"
      using h(1) f1 ok1 by (auto simp: clear_window_def mg_ok_def s1 sh)
    have "switched f g (mg_close_window f h)" if "switched f h (mg_close_window f h)"
      using that by (simp add: switched_def fh)
    then show ?thesis using close_window_spec [OF fh(7), of f] h(2)
      by (auto simp: step_result_def gate_inv_def fh WINDOW_STEPS_def)
  qed
  consider (full) "WINDOW_STEPS \<le> mg_win_steps g1"
    | (due) "\<not> WINDOW_STEPS \<le> mg_win_steps g1" "\<not> mg_probing g1 \<and> event_interval g1 \<le> mg_since_event g1 \<and> \<not> md_stale (stats_of (mg_mode g1) g1)"
    | (part) "\<not> WINDOW_STEPS \<le> mg_win_steps g1" "\<not> (\<not> mg_probing g1 \<and> event_interval g1 \<le> mg_since_event g1 \<and> \<not> md_stale (stats_of (mg_mode g1) g1))"
    by blast
  then show ?thesis
  proof cases
    case full
    moreover have "mg_win_steps g < WINDOW_STEPS" using I by (simp add: gate_inv_def)
    ultimately have "WINDOW_STEPS = Suc (mg_win_steps g)" using f1(8) by linarith
    then have "steps_left g = 1" using False by (simp add: steps_left_def)
    then show ?thesis using full r close [of g1] by simp
  next
    case due
    then have "\<not> mg_probing g" by (simp add: f1)
    moreover have "mg_record_step f wall tokens g
        = mg_close_window f (if mg_win_steps g1 < WINDOW_STEPS div 2 then clear_window f g1 else g1)"
      by (simp only: r due if_True if_False not_False_eq_True simp_thms)
    ultimately show ?thesis using close [of g1] close [of "clear_window f g1"] by (auto split: if_splits)
  next
    case part
    then have "mg_record_step f wall tokens g = g1" by (simp only: r part if_False)
    moreover have "steps_left g1 = steps_left g - 1" "steps_left g \<noteq> 1"
      using part(1) False f1 I by (simp_all add: steps_left_def)
    ultimately show ?thesis using part(1) ok1 f1 by (simp add: step_result_def gate_inv_def)
  qed
qed

lemma note_width_spec:
  assumes "gate_inv g"
  shows "gate_inv (mg_note_width f w g) \<and> mg_width (mg_note_width f w g) = next_power_of_two w
    \<and> mg_mode (mg_note_width f w g) = mg_mode g \<and> mg_probing (mg_note_width f w g) = mg_probing g
    \<and> (mg_width g = next_power_of_two w \<longrightarrow> mg_note_width f w g = g)
    \<and> (mg_width g \<noteq> 0 \<longrightarrow> mg_width g \<noteq> next_power_of_two w \<longrightarrow> mg_win_steps (mg_note_width f w g) = 0)
    \<and> mg_win_steps (mg_note_width f w g) \<le> mg_win_steps g
    \<and> (mg_losing (mg_note_width f w g) = 1 \<longrightarrow> mg_losing g = 1 \<and> mg_loss_other (mg_note_width f w g) = mg_loss_other g)"
proof -
  let ?r = "next_power_of_two w"
  consider (same) "?r = mg_width g" | (first) "?r \<noteq> mg_width g" "mg_width g = 0" | (change) "?r \<noteq> mg_width g" "mg_width g \<noteq> 0"
    by blast
  then show ?thesis
  proof cases
    case same
    then show ?thesis using assms by (simp add: mg_note_width_def Let_def)
  next
    case first
    then have "mg_note_width f w g = g\<lparr> mg_width := ?r \<rparr>" by (simp add: mg_note_width_def Let_def)
    moreover have "stats_of m (g\<lparr> mg_width := ?r \<rparr>) = stats_of m g" for m by (cases m) simp_all
    ultimately show ?thesis using assms first by (simp add: gate_inv_def mg_ok_def)
  next
    case change
    then show ?thesis using assms
      by (simp add: mg_note_width_def Let_def bring_forward_def clear_window_def mark_stale_def gate_inv_def mg_ok_def
          SWITCH_DWELL_WINDOWS_def WINDOW_STEPS_def)
  qed
qed

subsection \<open>Runs\<close>

lemma record_spec:
  assumes "gate_inv g" and "event_width e = Some w"
  shows "step_result f (mg_note_width f w g) (gate_apply f e g)"
    and "mg_mode (gate_apply f e g) = mg_mode g \<or> switched f g (gate_apply f e g)"
proof -
  obtain wall tokens where e: "gate_apply f e g = mg_record_step f wall tokens (mg_note_width f w g)"
    using assms(2) by (cases e) (auto simp: mg_record_decode_def mg_record_verify_step_def)
  note N = note_width_spec [OF assms(1), of f w]
  show R: "step_result f (mg_note_width f w g) (gate_apply f e g)"
    unfolding e by (rule record_step_spec) (use N in simp)
  have "switched f g (gate_apply f e g)" if "switched f (mg_note_width f w g) (gate_apply f e g)"
    using that N by (simp add: switched_def)
  then show "mg_mode (gate_apply f e g) = mg_mode g \<or> switched f g (gate_apply f e g)"
    using R N by (auto simp: step_result_def)
qed

lemma quiet_spec:
  assumes "gate_inv g" and "event_width e = None"
  shows "gate_inv (gate_apply f e g) \<and> mg_mode (gate_apply f e g) = mg_mode g
    \<and> mg_width (gate_apply f e g) = mg_width g \<and> mg_win_steps (gate_apply f e g) = mg_win_steps g"
proof (cases e)
  case (GRemeasure d)
  then show ?thesis using assms(1)
    by (cases "mg_mode g") (simp_all add: mg_maybe_remeasure_def Let_def gate_inv_def mg_ok_def bring_forward_def mark_stale_def)
next
  case (GDepth d)
  then show ?thesis using assms(1)
    by (cases "mg_mode g") (simp_all add: mg_note_depth_def gate_inv_def mg_ok_def)
next
  case GTake
  then show ?thesis using assms(1)
    by (cases "mg_mode g") (simp_all add: mg_take_fresh_decision_def gate_inv_def mg_ok_def)
qed (use assms(2) in simp_all)

definition gate_run :: "'f gate_ops \<Rightarrow> nat \<Rightarrow> nat \<Rightarrow> 'f gate_event list \<Rightarrow> 'f mtp_gate" where
  "gate_run f reprobe refresh es = fold (gate_apply f) es (mg_new f reprobe refresh)"

definition recorded_widths :: "'f gate_event list \<Rightarrow> nat list" where
  "recorded_widths es = List.map_filter event_width es"

lemma gate_run_snoc: "gate_run f r s (es @ [e]) = gate_apply f e (gate_run f r s es)"
  by (simp add: gate_run_def)

lemma recorded_snoc:
  "recorded_widths (es @ [e]) = recorded_widths es @ (case event_width e of Some w \<Rightarrow> [w] | None \<Rightarrow> [])"
  by (simp add: recorded_widths_def map_filter_def split: option.splits)

lemma gate_run_inv:
  "gate_inv (gate_run f r s es)
   \<and> mg_win_steps (gate_run f r s es) \<le> length (recorded_widths es)
   \<and> (recorded_widths es = [] \<longleftrightarrow> mg_width (gate_run f r s es) = 0)
   \<and> (\<forall>w\<in>set (take (mg_win_steps (gate_run f r s es)) (rev (recorded_widths es))). next_power_of_two w = mg_width (gate_run f r s es))"
proof (induction es rule: rev_induct)
  case Nil
  then show ?case
    by (simp add: gate_run_def mg_new_def gate_inv_def mg_ok_def SWITCH_DWELL_WINDOWS_def WINDOW_STEPS_def
        recorded_widths_def map_filter_def)
next
  case (snoc e es)
  let ?g = "gate_run f r s es" and ?g' = "gate_run f r s (es @ [e])"
  have inv: "gate_inv ?g" using snoc by simp
  show ?case
  proof (cases "event_width e")
    case None
    then show ?thesis using snoc quiet_spec [OF inv None, of f] by (simp add: gate_run_snoc recorded_snoc)
  next
    case (Some w)
    note N = note_width_spec [OF inv, of f w]
    note R = record_spec(1) [OF inv Some, of f]
    have ws: "rev (recorded_widths (es @ [e])) = w # rev (recorded_widths es)" using Some by (simp add: recorded_snoc)
    have g': "gate_inv ?g'" "mg_width ?g' = next_power_of_two w" "mg_win_steps ?g' \<le> mg_win_steps (mg_note_width f w ?g) + 1"
      using R N by (simp_all add: step_result_def gate_run_snoc)
    have old: "mg_win_steps (mg_note_width f w ?g) = 0 \<or> mg_width ?g = next_power_of_two w \<and> mg_win_steps (mg_note_width f w ?g) = mg_win_steps ?g"
    proof (cases "mg_width ?g = 0")
      case True
      then have "recorded_widths es = []" using snoc by blast
      moreover have "mg_win_steps ?g \<le> length (recorded_widths es)" using snoc by blast
      ultimately show ?thesis using N by simp
    qed (use N in auto)
    have "next_power_of_two x = next_power_of_two w" if x: "x \<in> set (take (mg_win_steps ?g') (w # rev (recorded_widths es)))" for x
    proof (cases "x = w")
      case False
      then have "x \<in> set (take (mg_win_steps (mg_note_width f w ?g)) (rev (recorded_widths es)))"
        using x g'(3) by (cases "mg_win_steps ?g'") (auto dest: set_take_subset_set_take [THEN subsetD, rotated])
      then show ?thesis using old snoc by auto
    qed simp
    moreover have "mg_win_steps ?g' \<le> length (recorded_widths (es @ [e]))"
      using g'(3) N snoc Some by (simp add: recorded_snoc)
    ultimately show ?thesis using g' ws Some by (simp add: recorded_snoc)
  qed
qed

text \<open>C29: The gate changes its mode only on a recorded step, when both modes have an estimate, the other
  mode's is not stale and exceeds the current one's by more than the margin, and only as the second
  loss, on a measurement of the other mode newer than the first loss's.\<close>

theorem gate_switch_evidence:
  assumes "mg_mode (gate_run f reprobe refresh (es @ [e])) \<noteq> mg_mode (gate_run f reprobe refresh es)"
  shows "event_width e \<noteq> None \<and> switched f (gate_run f reprobe refresh es) (gate_run f reprobe refresh (es @ [e]))"
proof -
  let ?g = "gate_run f reprobe refresh es"
  have inv: "gate_inv ?g" using gate_run_inv [of f reprobe refresh es] by simp
  show ?thesis
  proof (cases "event_width e")
    case None
    then show ?thesis using quiet_spec [OF inv None, of f] assms by (simp add: gate_run_snoc)
  next
    case (Some w)
    then show ?thesis using record_spec(2) [OF inv Some, of f] assms by (simp add: gate_run_snoc)
  qed
qed

text \<open>An open window never mixes batch-width buckets: it holds at most the last fifteen recorded
  steps, and all of them are of the bucket of the last recorded width.\<close>

theorem gate_window_one_bucket:
  "mg_win_steps (gate_run f reprobe refresh es) < WINDOW_STEPS
   \<and> mg_win_steps (gate_run f reprobe refresh es) \<le> length (recorded_widths es)
   \<and> (\<forall>w\<in>set (take (mg_win_steps (gate_run f reprobe refresh es)) (rev (recorded_widths es))).
        next_power_of_two w = mg_width (gate_run f reprobe refresh es))"
  using gate_run_inv [of f reprobe refresh es] by (simp add: gate_inv_def)

lemma probe_countdown:
  "gate_inv g \<Longrightarrow> mg_probing g \<Longrightarrow> length es = steps_left g \<Longrightarrow>
     \<forall>e\<in>set es. \<exists>w. event_width e = Some w \<and> next_power_of_two w = mg_width g \<Longrightarrow>
     \<not> mg_probing (fold (gate_apply f) es g)"
proof (induction es arbitrary: g)
  case Nil
  then show ?case by (simp add: steps_left_def gate_inv_def)
next
  case (Cons e es)
  then obtain w where w: "event_width e = Some w" "next_power_of_two w = mg_width g" by auto
  have n: "mg_note_width f w g = g" using note_width_spec [OF Cons.prems(1), of f w] w(2) by simp
  have R: "step_result f g (gate_apply f e g)" using record_spec(1) [OF Cons.prems(1) w(1), of f] n by simp
  show ?case
  proof (cases "steps_left g = 1")
    case True
    then have "es = []" using Cons.prems(3) by simp
    then show ?thesis using True R Cons.prems(2) by (simp add: step_result_def)
  next
    case False
    have "\<not> mg_probing (fold (gate_apply f) es (gate_apply f e g))"
      by (rule Cons.IH) (use R False Cons.prems in \<open>auto simp: step_result_def\<close>)
    then show ?thesis by simp
  qed
qed

text \<open>A probe ends: after the steps the open window and the settling still take, at most 32, all of
  the current width bucket, the gate is back in its own mode, whatever was measured.\<close>

theorem gate_probe_ends:
  assumes "mg_probing (gate_run f reprobe refresh es)"
    and "length ps = steps_left (gate_run f reprobe refresh es)"
    and "\<forall>e\<in>set ps. \<exists>w. event_width e = Some w \<and> next_power_of_two w = mg_width (gate_run f reprobe refresh es)"
  shows "\<not> mg_probing (gate_run f reprobe refresh (es @ ps)) \<and> 0 < length ps \<and> length ps \<le> 32"
proof -
  have inv: "gate_inv (gate_run f reprobe refresh es)" using gate_run_inv by blast
  then have "mg_settle (gate_run f reprobe refresh es) \<le> 16" "mg_win_steps (gate_run f reprobe refresh es) < 16"
    by (simp_all add: gate_inv_def mg_ok_def WINDOW_STEPS_def)
  then have "0 < length ps" "length ps \<le> 32" using assms(2) by (simp_all add: steps_left_def WINDOW_STEPS_def)
  moreover have "\<not> mg_probing (fold (gate_apply f) ps (gate_run f reprobe refresh es))"
    by (rule probe_countdown [OF inv assms])
  ultimately show ?thesis by (simp add: gate_run_def)
qed

subsection \<open>Witnesses\<close>

definition int_gate :: "int gate_ops" where
  "int_gate = \<lparr> fl_zero = 0, fl_one = 1, fl_add = (+), fl_sub = (-), fl_mul = (*), fl_div = (div),
     fl_lt = (<), fl_le = (\<le>), fl_finite = (\<lambda>_. True), go_alpha = 1, go_margin = 0, go_half = 0,
     go_of_nat = int, go_abs = abs, go_max = max \<rparr>"

definition demo_run :: "int gate_event list" where
  "demo_run = replicate 16 (GVerify 100 1 1) @ replicate 16 (GDecode 1 1) @ [GVerify 100 1 1] @ replicate 15 (GDecode 1 1)"

lemma gate_switch_evidence_witness:
  "mg_mode (gate_run int_gate 256 16 (demo_run @ [GDecode 1 1])) = ModeSerial
   \<and> mg_fresh (gate_run int_gate 256 16 (demo_run @ [GDecode 1 1])) = Some DisableMtp"
proof -
  have a: "mg_mode (gate_run int_gate 256 16 demo_run) = ModeMtp" by code_simp
  have b: "mg_mode (gate_run int_gate 256 16 (demo_run @ [GDecode 1 1])) = ModeSerial" by code_simp
  show ?thesis using gate_switch_evidence [of int_gate 256 16 demo_run "GDecode 1 1"] a b by (simp add: switched_def)
qed

lemma gate_probe_ends_witness:
  "mg_probing (gate_run int_gate 256 0 [GVerify 1 1 1])
   \<and> \<not> mg_probing (gate_run int_gate 256 0 ([GVerify 1 1 1] @ replicate 16 (GDecode 1 1)))"
proof -
  have p: "mg_probing (gate_run int_gate 256 0 [GVerify 1 1 1])"
    and l: "steps_left (gate_run int_gate 256 0 [GVerify 1 1 1]) = 16"
    and w: "mg_width (gate_run int_gate 256 0 [GVerify 1 1 1]) = 1" by code_simp+
  have "next_power_of_two 1 = 1" by (simp add: next_power_of_two.simps)
  then show ?thesis
    using gate_probe_ends [OF p, of "replicate 16 (GDecode 1 1)"] p l w by simp
qed

lemma gate_window_one_bucket_witness:
  "mg_win_steps (gate_run int_gate 256 64 [GVerify 1 1 3, GDecode 1 4]) = 2
   \<and> mg_width (gate_run int_gate 256 64 [GVerify 1 1 3, GDecode 1 4]) = 4 \<and> next_power_of_two 3 = 4"
proof -
  have a: "mg_win_steps (gate_run int_gate 256 64 [GVerify 1 1 3, GDecode 1 4]) = 2"
    and b: "mg_width (gate_run int_gate 256 64 [GVerify 1 1 3, GDecode 1 4]) = 4"
    and c: "rev (recorded_widths [GVerify (1 :: int) 1 3, GDecode 1 4]) = [4, 3]" by code_simp+
  show ?thesis using gate_window_one_bucket [of int_gate 256 64 "[GVerify 1 1 3, GDecode 1 4]"] a b c by simp
qed

end
