(* ===== verification/Fsm.thy ===== *)
theory Fsm
  imports Prelude
begin

text \<open>
  The finite-state machines of the grammar engine (crates/grammar/src/fsm: edge.rs, fsm.rs,
  traversal.rs, fsm_traversal.rs, with_start_end.rs): adjacency lists of edges, the traversals over
  sets of states, and a machine with a start state and accepting states.

  Edge bounds, rule ids and auxiliary indices are integers; the casts to \<open>i16\<close> the code makes are
  written out. State ids are naturals. Indexing a state that does not exist is a panic of the code;
  the theorems are about machines whose edges stay inside (\<open>fsm_wf\<close> in \<open>Fsm_Lang\<close>), which every
  operation keeps, so it never happens in them. A hash set is a set: what the traversals return does
  not depend on the order they visit it in.
\<close>

subsection \<open>Edges\<close>

text \<open>\<open>as i16\<close>.\<close>

definition as_i16 :: "int \<Rightarrow> int" where
  "as_i16 x = (x + 32768) mod 65536 - 32768"

lemma as_i16_small [simp]: "- 32768 \<le> x \<Longrightarrow> x < 32768 \<Longrightarrow> as_i16 x = x"
  by (simp add: as_i16_def)

definition CHAR_RANGE :: int where "CHAR_RANGE = 0"
definition EPSILON :: int where "EPSILON = - 1"
definition RULE_REF :: int where "RULE_REF = - 2"
definition EOS :: int where "EOS = - 3"
definition REPEAT_REF :: int where "REPEAT_REF = - 4"

lemmas edge_types = CHAR_RANGE_def EPSILON_def RULE_REF_def EOS_def REPEAT_REF_def

datatype fsm_edge = FsmEdge (e_min: int) (e_max: int) (e_target: nat)

definition is_char_range :: "fsm_edge \<Rightarrow> bool" where
  "is_char_range e \<longleftrightarrow> CHAR_RANGE \<le> e_min e"

definition is_epsilon :: "fsm_edge \<Rightarrow> bool" where
  "is_epsilon e \<longleftrightarrow> e_min e = EPSILON"

definition is_rule_ref :: "fsm_edge \<Rightarrow> bool" where
  "is_rule_ref e \<longleftrightarrow> e_min e = RULE_REF"

definition is_eos :: "fsm_edge \<Rightarrow> bool" where
  "is_eos e \<longleftrightarrow> e_min e = EOS"

definition is_repeat_ref :: "fsm_edge \<Rightarrow> bool" where
  "is_repeat_ref e \<longleftrightarrow> e_min e = REPEAT_REF"

definition is_aux_edge :: "fsm_edge \<Rightarrow> bool" where
  "is_aux_edge e = is_repeat_ref e"

definition ref_rule_id :: "fsm_edge \<Rightarrow> int" where
  "ref_rule_id e = (if is_rule_ref e then e_max e else - 1)"

definition aux_index :: "fsm_edge \<Rightarrow> int" where
  "aux_index e = (if is_repeat_ref e then e_max e else - 1)"

text \<open>The order of edges: by the bounds, then by the target.\<close>

definition edge_le :: "fsm_edge \<Rightarrow> fsm_edge \<Rightarrow> bool" where
  "edge_le a b \<longleftrightarrow>
     e_min a < e_min b \<or> e_min a = e_min b \<and> (e_max a < e_max b \<or> e_max a = e_max b \<and> e_target a \<le> e_target b)"

lemma edge_le_refl: "edge_le a a"
  by (simp add: edge_le_def)

lemma edge_le_trans: "edge_le a b \<Longrightarrow> edge_le b c \<Longrightarrow> edge_le a c"
  by (auto simp: edge_le_def)

lemma edge_le_antisym: "edge_le a b \<Longrightarrow> edge_le b a \<Longrightarrow> a = b"
  by (cases a; cases b) (auto simp: edge_le_def)

lemma edge_le_total: "edge_le a b \<or> edge_le b a"
  by (auto simp: edge_le_def)

instantiation fsm_edge :: linorder
begin

definition less_eq_fsm_edge :: "fsm_edge \<Rightarrow> fsm_edge \<Rightarrow> bool" where
  "less_eq_fsm_edge = edge_le"

definition less_fsm_edge :: "fsm_edge \<Rightarrow> fsm_edge \<Rightarrow> bool" where
  "less_fsm_edge a b \<longleftrightarrow> a \<le> b \<and> \<not> b \<le> a"

instance
proof
  fix a b c :: fsm_edge
  show "a < b \<longleftrightarrow> a \<le> b \<and> \<not> b \<le> a" by (rule less_fsm_edge_def)
  show "a \<le> a" unfolding less_eq_fsm_edge_def by (rule edge_le_refl)
  show "a \<le> b \<Longrightarrow> b \<le> c \<Longrightarrow> a \<le> c" unfolding less_eq_fsm_edge_def by (rule edge_le_trans)
  show "a \<le> b \<Longrightarrow> b \<le> a \<Longrightarrow> a = b" unfolding less_eq_fsm_edge_def by (rule edge_le_antisym)
  show "a \<le> b \<or> b \<le> a" unfolding less_eq_fsm_edge_def by (rule edge_le_total)
qed

end

text \<open>The slice of auxiliary data a repeat edge points at, \<open>[rule, lower, upper]\<close>; \<open>None\<close> when it is
  out of range.\<close>

record repeat_edge_ref =
  re_rule :: int
  re_lower :: int
  re_upper :: int

definition from_aux :: "int list \<Rightarrow> nat \<Rightarrow> repeat_edge_ref option" where
  "from_aux data idx =
    (if idx + 2 < length data
     then Some \<lparr> re_rule = as_i16 (data ! idx), re_lower = data ! (idx + 1), re_upper = data ! (idx + 2) \<rparr>
     else None)"

subsection \<open>Machines\<close>

record fsm =
  fs_edges :: "fsm_edge list list"
  fs_aux :: "int list"

definition fsm_with_states :: "nat \<Rightarrow> fsm" where
  "fsm_with_states n = \<lparr> fs_edges = replicate n [], fs_aux = [] \<rparr>"

definition fsm_num_states :: "fsm \<Rightarrow> nat" where
  "fsm_num_states f = length (fs_edges f)"

definition fsm_num_edges :: "fsm \<Rightarrow> nat" where
  "fsm_num_edges f = sum_list (map length (fs_edges f))"

definition fsm_row :: "fsm \<Rightarrow> nat \<Rightarrow> fsm_edge list" where
  "fsm_row f s = (if s < length (fs_edges f) then fs_edges f ! s else [])"

definition repeat_edge_info :: "fsm \<Rightarrow> int \<Rightarrow> repeat_edge_ref option" where
  "repeat_edge_info f idx = (if idx < 0 then None else from_aux (fs_aux f) (nat idx))"

text \<open>The new state's id is \<open>fsm_num_states f\<close>.\<close>

definition fsm_add_state :: "fsm \<Rightarrow> fsm" where
  "fsm_add_state f = f\<lparr> fs_edges := vec_push (fs_edges f) [] \<rparr>"

definition fsm_add_edge :: "fsm \<Rightarrow> nat \<Rightarrow> nat \<Rightarrow> int \<Rightarrow> int \<Rightarrow> fsm" where
  "fsm_add_edge f s t lo hi =
    f\<lparr> fs_edges := (fs_edges f)[s := vec_push (fs_edges f ! s) (FsmEdge lo hi t)] \<rparr>"

definition fsm_add_typed_edge :: "fsm \<Rightarrow> nat \<Rightarrow> nat \<Rightarrow> int \<Rightarrow> int \<Rightarrow> fsm" where
  "fsm_add_typed_edge f s t etype v = fsm_add_edge f s t etype v"

definition fsm_add_epsilon_edge :: "fsm \<Rightarrow> nat \<Rightarrow> nat \<Rightarrow> fsm" where
  "fsm_add_epsilon_edge f s t = fsm_add_typed_edge f s t EPSILON 0"

definition fsm_add_rule_edge :: "fsm \<Rightarrow> nat \<Rightarrow> nat \<Rightarrow> int \<Rightarrow> fsm" where
  "fsm_add_rule_edge f s t rule = fsm_add_typed_edge f s t RULE_REF rule"

definition fsm_add_eos_edge :: "fsm \<Rightarrow> nat \<Rightarrow> nat \<Rightarrow> fsm" where
  "fsm_add_eos_edge f s t = fsm_add_typed_edge f s t EOS 0"

definition fsm_add_repeat_edge :: "fsm \<Rightarrow> nat \<Rightarrow> nat \<Rightarrow> int \<Rightarrow> int \<Rightarrow> int \<Rightarrow> fsm" where
  "fsm_add_repeat_edge f s t rule lower upper =
    (let aux = as_i16 (int (length (fs_aux f)));
         f1 = f\<lparr> fs_aux := fs_aux f @ [rule, lower, upper] \<rparr>
     in fsm_add_typed_edge f1 s t REPEAT_REF aux)"

definition shift_edge :: "nat \<Rightarrow> int \<Rightarrow> fsm_edge \<Rightarrow> fsm_edge" where
  "shift_edge offset aux_offset e =
    FsmEdge (e_min e)
      (if is_aux_edge e \<and> 0 < aux_offset then as_i16 (e_max e + aux_offset) else e_max e)
      (e_target e + offset)"

definition fsm_add_fsm :: "fsm \<Rightarrow> fsm \<Rightarrow> fsm \<times> nat list" where
  "fsm_add_fsm f other =
    (let old = fsm_num_states f;
         aux_offset = as_i16 (int (length (fs_aux f)));
         mapping = map (\<lambda>i. i + old) [0..<fsm_num_states other]
     in (\<lparr> fs_edges = fs_edges f @ map (map (shift_edge old aux_offset)) (fs_edges other),
           fs_aux = fs_aux f @ fs_aux other \<rparr>, mapping))"

definition fsm_sort_edges :: "fsm \<Rightarrow> fsm" where
  "fsm_sort_edges f = f\<lparr> fs_edges := map sort (fs_edges f) \<rparr>"

definition remap_edge :: "nat list \<Rightarrow> fsm_edge \<Rightarrow> fsm_edge" where
  "remap_edge mapping e = FsmEdge (e_min e) (e_max e) (mapping ! e_target e)"

definition fsm_rebuild_with_mapping :: "fsm \<Rightarrow> nat list \<Rightarrow> nat \<Rightarrow> fsm" where
  "fsm_rebuild_with_mapping f mapping n =
    \<lparr> fs_edges = map (\<lambda>j. remdups_adj (sort (concat (map (\<lambda>i.
          map (remap_edge mapping)
            (filter (\<lambda>e. \<not> (is_epsilon e \<and> mapping ! i = mapping ! e_target e)) (fsm_row f i)))
          (filter (\<lambda>i. mapping ! i = j) [0..<fsm_num_states f]))))) [0..<n],
      fs_aux = fs_aux f \<rparr>"

subsection \<open>Traversal\<close>

definition edge_matches :: "fsm_edge \<Rightarrow> int \<Rightarrow> int \<Rightarrow> bool" where
  "edge_matches e v etype =
    (if etype = CHAR_RANGE then is_char_range e \<and> e_min e \<le> v \<and> v \<le> e_max e
     else if etype = RULE_REF then is_rule_ref e \<and> e_max e = v
     else if etype = EOS then is_eos e
     else if etype = REPEAT_REF then is_repeat_ref e
     else False)"

text \<open>The first target, \<open>None\<close> for \<open>NO_NEXT_STATE\<close>.\<close>

definition fsm_next_state :: "fsm \<Rightarrow> nat \<Rightarrow> int \<Rightarrow> int \<Rightarrow> nat option" where
  "fsm_next_state f s v etype = map_option e_target (find (\<lambda>e. edge_matches e v etype) (fsm_row f s))"

text \<open>The edges of one state in the loop of \<open>epsilon_closure\<close>: the set and the queue.\<close>

fun eps_row :: "fsm_edge list \<Rightarrow> nat set \<Rightarrow> nat list \<Rightarrow> nat set \<times> nat list" where
  "eps_row [] seen queue = (seen, queue)"
| "eps_row (e # es) seen queue =
    (if is_epsilon e \<and> e_target e \<notin> seen
     then eps_row es (insert (e_target e) seen) (vec_push queue (e_target e))
     else eps_row es seen queue)"

definition fsm_targets :: "fsm \<Rightarrow> nat set" where
  "fsm_targets f = e_target ` set (concat (fs_edges f))"

lemma finite_fsm_targets [simp]: "finite (fsm_targets f)"
  by (simp add: fsm_targets_def)

lemma fsm_row_targets: "e \<in> set (fsm_row f s) \<Longrightarrow> e_target e \<in> fsm_targets f"
  by (auto simp: fsm_row_def fsm_targets_def split: if_splits intro!: imageI bexI [OF _ nth_mem])

lemma eps_row_result:
  "eps_row es seen queue = (seen', queue') \<Longrightarrow>
     seen' = seen \<union> {e_target e | e. e \<in> set es \<and> is_epsilon e}
     \<and> (\<exists>new. queue' = queue @ new \<and> set new = seen' - seen)"
proof (induction es arbitrary: seen queue)
  case Nil
  then show ?case by simp
next
  case (Cons e es)
  show ?case
  proof (cases "is_epsilon e \<and> e_target e \<notin> seen")
    case True
    with Cons.prems have "eps_row es (insert (e_target e) seen) (vec_push queue (e_target e)) = (seen', queue')" by simp
    from Cons.IH [OF this] obtain new where "queue' = vec_push queue (e_target e) @ new"
      "set new = seen' - insert (e_target e) seen"
      "seen' = insert (e_target e) seen \<union> {e_target e | e. e \<in> set es \<and> is_epsilon e}" by blast
    with True show ?thesis by (intro conjI exI [of _ "e_target e # new"]) (auto simp: vec_push_def)
  next
    case False
    with Cons.prems have "eps_row es seen queue = (seen', queue')" by auto
    from Cons.IH [OF this] False show ?thesis by auto
  qed
qed

function eps_loop :: "fsm \<Rightarrow> nat list \<Rightarrow> nat set \<Rightarrow> nat set" where
  "eps_loop f [] seen = seen"
| "eps_loop f (cur # queue) seen =
    (case eps_row (fsm_row f cur) seen queue of (seen', queue') \<Rightarrow> eps_loop f queue' seen')"
  by pat_completeness auto
termination
proof (relation "measures [\<lambda>(f, queue, seen). card (fsm_targets f - seen), \<lambda>(f, queue, seen). length queue]", goal_cases)
  case (2 f cur queue seen seen' queue')
  have r: "eps_row (fsm_row f cur) seen queue = (seen', queue')" using 2 by simp
  from eps_row_result [OF r] obtain new where q: "queue' = queue @ new" "set new = seen' - seen"
    and s: "seen' = seen \<union> {e_target e | e. e \<in> set (fsm_row f cur) \<and> is_epsilon e}" by blast
  show ?case
  proof (cases "seen' = seen")
    case True
    with q show ?thesis by simp
  next
    case False
    have "seen' - seen \<subseteq> fsm_targets f" using s fsm_row_targets by auto
    with False s have "fsm_targets f - seen' \<subset> fsm_targets f - seen" by auto
    then have "card (fsm_targets f - seen') < card (fsm_targets f - seen)" by (intro psubset_card_mono) simp_all
    then show ?thesis by simp
  qed
qed simp

definition epsilon_closure :: "fsm \<Rightarrow> nat set \<Rightarrow> nat set" where
  "epsilon_closure f states = eps_loop f (sorted_list_of_set states) states"

definition advance :: "fsm \<Rightarrow> nat set \<Rightarrow> int \<Rightarrow> int \<Rightarrow> bool \<Rightarrow> nat set" where
  "advance f from v etype from_is_closure =
    (let start_closure = (if from_is_closure then from else epsilon_closure f from);
         hit = (\<Union>s\<in>start_closure. e_target ` set (filter (\<lambda>e. edge_matches e v etype) (fsm_row f s)))
     in epsilon_closure f hit)"

text \<open>The states reachable over edges of any kind.\<close>

fun any_row :: "fsm_edge list \<Rightarrow> nat set \<Rightarrow> nat list \<Rightarrow> nat set \<times> nat list" where
  "any_row [] seen queue = (seen, queue)"
| "any_row (e # es) seen queue =
    (if e_target e \<notin> seen then any_row es (insert (e_target e) seen) (vec_push queue (e_target e))
     else any_row es seen queue)"

lemma any_row_result:
  "any_row es seen queue = (seen', queue') \<Longrightarrow>
     seen' = seen \<union> e_target ` set es \<and> (\<exists>new. queue' = queue @ new \<and> set new = seen' - seen)"
proof (induction es arbitrary: seen queue)
  case Nil
  then show ?case by simp
next
  case (Cons e es)
  show ?case
  proof (cases "e_target e \<in> seen")
    case False
    with Cons.prems have "any_row es (insert (e_target e) seen) (vec_push queue (e_target e)) = (seen', queue')" by simp
    from Cons.IH [OF this] obtain new where "queue' = vec_push queue (e_target e) @ new"
      "set new = seen' - insert (e_target e) seen" "seen' = insert (e_target e) seen \<union> e_target ` set es" by blast
    with False show ?thesis by (intro conjI exI [of _ "e_target e # new"]) (auto simp: vec_push_def)
  next
    case True
    with Cons.prems have "any_row es seen queue = (seen', queue')" by auto
    from Cons.IH [OF this] True show ?thesis by auto
  qed
qed

function reach_loop :: "fsm \<Rightarrow> nat list \<Rightarrow> nat set \<Rightarrow> nat set" where
  "reach_loop f [] seen = seen"
| "reach_loop f (cur # queue) seen =
    (case any_row (fsm_row f cur) seen queue of (seen', queue') \<Rightarrow> reach_loop f queue' seen')"
  by pat_completeness auto
termination
proof (relation "measures [\<lambda>(f, queue, seen). card (fsm_targets f - seen), \<lambda>(f, queue, seen). length queue]", goal_cases)
  case (2 f cur queue seen seen' queue')
  have r: "any_row (fsm_row f cur) seen queue = (seen', queue')" using 2 by simp
  from any_row_result [OF r] obtain new where q: "queue' = queue @ new" "set new = seen' - seen"
    and s: "seen' = seen \<union> e_target ` set (fsm_row f cur)" by blast
  show ?case
  proof (cases "seen' = seen")
    case True
    with q show ?thesis by simp
  next
    case False
    have "seen' - seen \<subseteq> fsm_targets f" using s fsm_row_targets by auto
    with False s have "fsm_targets f - seen' \<subset> fsm_targets f - seen" by auto
    then have "card (fsm_targets f - seen') < card (fsm_targets f - seen)" by (intro psubset_card_mono) simp_all
    then show ?thesis by simp
  qed
qed simp

definition fsm_reachable_states :: "fsm \<Rightarrow> nat list \<Rightarrow> nat set" where
  "fsm_reachable_states f from = reach_loop f (remdups from) (set from)"

definition possible_rules :: "fsm \<Rightarrow> nat \<Rightarrow> int set" where
  "possible_rules f s = ref_rule_id ` set (filter is_rule_ref (fsm_row f s))"

subsection \<open>Machines with a start state and accepting states\<close>

record fsm_wse =
  ws_fsm :: fsm
  ws_start :: nat
  ws_ends :: "bool list"
  ws_is_dfa :: bool

definition ws_num_states :: "fsm_wse \<Rightarrow> nat" where
  "ws_num_states m = fsm_num_states (ws_fsm m)"

definition is_end_state :: "fsm_wse \<Rightarrow> nat \<Rightarrow> bool" where
  "is_end_state m s = ws_ends m ! s"

definition ws_add_end_state :: "fsm_wse \<Rightarrow> nat \<Rightarrow> fsm_wse" where
  "ws_add_end_state m s = m\<lparr> ws_ends := (ws_ends m)[s := True] \<rparr>"

definition ws_add_state :: "fsm_wse \<Rightarrow> fsm_wse" where
  "ws_add_state m = m\<lparr> ws_ends := vec_push (ws_ends m) False, ws_fsm := fsm_add_state (ws_fsm m) \<rparr>"

definition is_scanable_state :: "fsm_wse \<Rightarrow> nat \<Rightarrow> bool" where
  "is_scanable_state m s = list_ex is_char_range (fsm_row (ws_fsm m) s)"

definition is_non_terminal_state :: "fsm_wse \<Rightarrow> nat \<Rightarrow> bool" where
  "is_non_terminal_state m s = list_ex (\<lambda>e. is_rule_ref e \<or> is_epsilon e \<or> is_repeat_ref e) (fsm_row (ws_fsm m) s)"

fun accept_bytes :: "fsm_wse \<Rightarrow> byte list \<Rightarrow> nat set \<Rightarrow> bool" where
  "accept_bytes m [] states = (\<exists>s\<in>states. ws_ends m ! s)"
| "accept_bytes m (b # bs) states =
    (let result = advance (ws_fsm m) states (uint b) CHAR_RANGE False in
     if result = {} then False else accept_bytes m bs result)"

definition accept_string :: "fsm_wse \<Rightarrow> byte list \<Rightarrow> bool" where
  "accept_string m bytes = accept_bytes m bytes (epsilon_closure (ws_fsm m) {ws_start m})"

definition ws_reachable_states :: "fsm_wse \<Rightarrow> nat set" where
  "ws_reachable_states m = fsm_reachable_states (ws_fsm m) [ws_start m]"

definition is_leaf :: "fsm_wse \<Rightarrow> bool" where
  "is_leaf m = (\<forall>s\<in>ws_reachable_states m. \<forall>e\<in>set (fsm_row (ws_fsm m) s). \<not> (is_rule_ref e \<or> is_repeat_ref e))"

definition ws_rebuild_with_mapping :: "fsm_wse \<Rightarrow> nat list \<Rightarrow> nat \<Rightarrow> fsm_wse" where
  "ws_rebuild_with_mapping m mapping n =
    \<lparr> ws_fsm = fsm_rebuild_with_mapping (ws_fsm m) mapping n,
      ws_start = mapping ! ws_start m,
      ws_ends = fold (\<lambda>s ends. if is_end_state m s then ends[mapping ! s := True] else ends)
        [0..<ws_num_states m] (replicate n False),
      ws_is_dfa = False \<rparr>"

definition add_to_complete_fsm :: "fsm_wse \<Rightarrow> fsm \<Rightarrow> fsm_wse \<times> fsm" where
  "add_to_complete_fsm m complete =
    (case fsm_add_fsm complete (ws_fsm m) of
       (complete', mapping) \<Rightarrow>
         (\<lparr> ws_fsm = complete', ws_start = mapping ! ws_start m,
            ws_ends = fold (\<lambda>s ends. if is_end_state m s then ends[mapping ! s := True] else ends)
              [0..<ws_num_states m] (replicate (fsm_num_states complete') False),
            ws_is_dfa = ws_is_dfa m \<rparr>, complete'))"

end
