(* ===== verification/Fsm_Lang.thy ===== *)
theory Fsm_Lang
  imports Fsm
begin

text \<open>
  The language of a machine of \<open>Fsm\<close>: the words over bytes, rule references and repeat references
  that lead from the start state to an accepting one. The references are symbols of their own, so
  a theorem about languages covers the machines of grammar rules, whose edges call other rules.
  End-of-sequence edges belong to no word: nothing in these files follows them.
\<close>

subsection \<open>Words and paths\<close>

datatype sym = Byte byte | Call int | Loop repeat_edge_ref

fun reads :: "fsm \<Rightarrow> fsm_edge \<Rightarrow> sym option \<Rightarrow> bool" where
  "reads f e None = is_epsilon e"
| "reads f e (Some (Byte b)) = (is_char_range e \<and> e_min e \<le> uint b \<and> uint b \<le> e_max e)"
| "reads f e (Some (Call r)) = (is_rule_ref e \<and> e_max e = r)"
| "reads f e (Some (Loop i)) = (is_repeat_ref e \<and> repeat_edge_info f (e_max e) = Some i)"

definition fsm_trans :: "fsm \<Rightarrow> nat \<Rightarrow> sym option \<Rightarrow> nat \<Rightarrow> bool" where
  "fsm_trans f s l t \<longleftrightarrow> (\<exists>e\<in>set (fsm_row f s). e_target e = t \<and> reads f e l)"

inductive path :: "(nat \<Rightarrow> 'a option \<Rightarrow> nat \<Rightarrow> bool) \<Rightarrow> nat \<Rightarrow> 'a list \<Rightarrow> nat \<Rightarrow> bool" for T where
  path_refl [intro!]: "path T s [] s"
| path_eps: "T s None u \<Longrightarrow> path T u w t \<Longrightarrow> path T s w t"
| path_sym: "T s (Some a) u \<Longrightarrow> path T u w t \<Longrightarrow> path T s (a # w) t"

definition edge_ok :: "fsm \<Rightarrow> fsm_edge \<Rightarrow> bool" where
  "edge_ok f e \<longleftrightarrow> e_target e < fsm_num_states f
     \<and> (is_char_range e \<longrightarrow> e_min e \<le> e_max e \<and> e_max e \<le> 255)
     \<and> (is_repeat_ref e \<longrightarrow> repeat_edge_info f (e_max e) \<noteq> None)"

definition fsm_wf :: "fsm \<Rightarrow> bool" where
  "fsm_wf f \<longleftrightarrow> length (fs_aux f) < 32768 \<and> (\<forall>row\<in>set (fs_edges f). \<forall>e\<in>set row. edge_ok f e)"

definition ws_wf :: "fsm_wse \<Rightarrow> bool" where
  "ws_wf m \<longleftrightarrow> fsm_wf (ws_fsm m) \<and> ws_start m < ws_num_states m \<and> length (ws_ends m) = ws_num_states m"

definition lang_of :: "fsm_wse \<Rightarrow> sym list set" where
  "lang_of m = {w. \<exists>t < ws_num_states m. path (fsm_trans (ws_fsm m)) (ws_start m) w t \<and> is_end_state m t}"

inductive_cases path_NilE: "path T s [] t"
inductive_cases path_ConsE: "path T s (a # w) t"

lemma path_one: "T s (Some a) t \<Longrightarrow> path T s [a] t"
  by (blast intro: path_sym)

lemma path_trans: "path T s u r \<Longrightarrow> path T r v t \<Longrightarrow> path T s (u @ v) t"
  by (induction rule: path.induct) (auto intro: path_eps path_sym)

lemma path_append_split: "path T s w t \<Longrightarrow> w = u @ v \<Longrightarrow> \<exists>r. path T s u r \<and> path T r v t"
proof (induction arbitrary: u rule: path.induct)
  case (path_sym s a q w t)
  then show ?case by (cases u) (auto intro: path.intros)
qed (auto intro: path.intros)

lemma path_append: "path T s (u @ v) t \<longleftrightarrow> (\<exists>r. path T s u r \<and> path T r v t)"
  by (auto dest: path_append_split intro: path_trans)

lemma path_ConsD: "path T s w t \<Longrightarrow> w = a # v \<Longrightarrow> \<exists>p q. path T s [] p \<and> T p (Some a) q \<and> path T q v t"
proof (induction rule: path.induct)
  case (path_eps s u w t)
  then obtain p q where "path T u [] p" "T p (Some a) q" "path T q v t" by blast
  with path_eps.hyps(1) show ?case by (blast intro: path.path_eps)
qed auto

lemma path_Cons:
  "path T s (a # w) t \<longleftrightarrow> (\<exists>p q. path T s [] p \<and> T p (Some a) q \<and> path T q w t)"
proof
  show "path T s (a # w) t \<Longrightarrow> \<exists>p q. path T s [] p \<and> T p (Some a) q \<and> path T q w t"
    by (rule path_ConsD) simp_all
  assume "\<exists>p q. path T s [] p \<and> T p (Some a) q \<and> path T q w t"
  then obtain p q where "path T s [] p" "path T p (a # w) t" by (blast intro: path_sym)
  then show "path T s (a # w) t" using path_trans by fastforce
qed

text \<open>Two machines whose steps agree from a set of states that one of them cannot leave.\<close>

lemma path_mono: "path T s w t \<Longrightarrow> (\<And>s l t. T s l t \<Longrightarrow> U s l t) \<Longrightarrow> path U s w t"
  by (induction rule: path.induct) (auto intro: path_eps path_sym)

lemma path_map:
  "path T s w t \<Longrightarrow> (\<And>s l t. T s l t \<Longrightarrow> U (h s) l (h t)) \<Longrightarrow> path U (h s) w (h t)"
  by (induction rule: path.induct) (auto intro: path_eps path_sym)

lemma path_stays: "path T s w t \<Longrightarrow> P s \<Longrightarrow> (\<And>s l t. T s l t \<Longrightarrow> P s \<Longrightarrow> P t) \<Longrightarrow> P t"
  by (induction rule: path.induct) auto

lemma path_back:
  assumes "path U s' w t'" and "s' = h s"
    and "\<And>s l t'. U (h s) l t' \<Longrightarrow> \<exists>t. t' = h t \<and> T s l t"
  shows "\<exists>t. t' = h t \<and> path T s w t"
  using assms(1,2)
proof (induction arbitrary: s rule: path.induct)
  case (path_refl s')
  then show ?case by blast
next
  case (path_eps s' u w t)
  with assms(3) obtain v where "u = h v" "T s None v" by blast
  with path_eps.IH show ?case by (blast intro: path.path_eps)
next
  case (path_sym s' a u w t)
  with assms(3) obtain v where "u = h v" "T s (Some a) v" by blast
  with path_sym.IH show ?case by (blast intro: path.path_sym)
qed

subsection \<open>Well-formed machines\<close>

lemma all_rows: "(\<forall>row\<in>set (fs_edges f). \<forall>e\<in>set row. P e) \<longleftrightarrow> (\<forall>s. \<forall>e\<in>set (fsm_row f s). P e)"
proof
  assume *: "\<forall>s. \<forall>e\<in>set (fsm_row f s). P e"
  show "\<forall>row\<in>set (fs_edges f). \<forall>e\<in>set row. P e"
  proof
    fix row
    assume "row \<in> set (fs_edges f)"
    then obtain s where "s < length (fs_edges f)" "row = fs_edges f ! s" by (auto simp: in_set_conv_nth)
    then show "\<forall>e\<in>set row. P e" using * [rule_format, of _ s] by (simp add: fsm_row_def)
  qed
qed (auto simp: fsm_row_def)

lemma fsm_wf_rows: "fsm_wf f \<longleftrightarrow> length (fs_aux f) < 32768 \<and> (\<forall>s. \<forall>e\<in>set (fsm_row f s). edge_ok f e)"
  by (simp add: fsm_wf_def all_rows)

lemma fsm_wfD:
  assumes "fsm_wf f" and "e \<in> set (fsm_row f s)"
  shows "e_target e < fsm_num_states f" and "is_char_range e \<Longrightarrow> e_min e \<le> e_max e \<and> e_max e \<le> 255"
    and "is_repeat_ref e \<Longrightarrow> repeat_edge_info f (e_max e) \<noteq> None"
  using assms by (auto simp: fsm_wf_rows edge_ok_def)

lemma trans_range: "fsm_trans f s l t \<Longrightarrow> s < fsm_num_states f"
  by (auto simp: fsm_trans_def fsm_row_def fsm_num_states_def split: if_splits)

lemma trans_wf: "fsm_wf f \<Longrightarrow> fsm_trans f s l t \<Longrightarrow> t < fsm_num_states f"
  using fsm_wfD(1) by (auto simp: fsm_trans_def)

lemma path_wf: "path (fsm_trans f) s w t \<Longrightarrow> fsm_wf f \<Longrightarrow> s < fsm_num_states f \<Longrightarrow> t < fsm_num_states f"
  by (erule path_stays) (auto intro: trans_wf)

lemma in_lang_of:
  "ws_wf m \<Longrightarrow> w \<in> lang_of m \<longleftrightarrow> (\<exists>t. path (fsm_trans (ws_fsm m)) (ws_start m) w t \<and> is_end_state m t)"
  using path_wf by (fastforce simp: lang_of_def ws_wf_def ws_num_states_def)

subsection \<open>The closure and the advance of a set of states\<close>

lemma eps_loop_spec:
  assumes "set queue \<subseteq> seen"
    and "\<And>s t. s \<in> seen \<Longrightarrow> s \<notin> set queue \<Longrightarrow> fsm_trans f s None t \<Longrightarrow> t \<in> seen"
  shows "seen \<subseteq> eps_loop f queue seen \<and> eps_loop f queue seen \<subseteq> {t. \<exists>s\<in>seen. path (fsm_trans f) s [] t}
    \<and> (\<forall>s t. s \<in> eps_loop f queue seen \<longrightarrow> fsm_trans f s None t \<longrightarrow> t \<in> eps_loop f queue seen)"
  using assms
proof (induction f queue seen rule: eps_loop.induct)
  case (1 f seen)
  then show ?case by auto
next
  case (2 f cur queue seen)
  obtain seen' queue' where r: "eps_row (fsm_row f cur) seen queue = (seen', queue')" by force
  then obtain new where q: "queue' = queue @ new" "set new = seen' - seen"
    and s: "seen' = seen \<union> {e_target e | e. e \<in> set (fsm_row f cur) \<and> is_epsilon e}"
    using eps_row_result by blast
  have s': "seen' = seen \<union> {t. fsm_trans f cur None t}" unfolding s fsm_trans_def by auto
  have "set queue' \<subseteq> seen'" using q s' 2(2) by auto
  moreover have "t \<in> seen'" if "s \<in> seen'" "s \<notin> set queue'" "fsm_trans f s None t" for s t
  proof -
    have "s \<in> seen" "s \<notin> set queue" using that q by auto
    then show ?thesis using 2(3) that(3) s' by (cases "s = cur") auto
  qed
  ultimately have IH: "seen' \<subseteq> eps_loop f queue' seen' \<and> eps_loop f queue' seen' \<subseteq> {t. \<exists>s\<in>seen'. path (fsm_trans f) s [] t}
      \<and> (\<forall>s t. s \<in> eps_loop f queue' seen' \<longrightarrow> fsm_trans f s None t \<longrightarrow> t \<in> eps_loop f queue' seen')"
    using 2(1) [OF r [symmetric]] by blast
  have cur: "cur \<in> seen" using 2(2) by simp
  have "{t. \<exists>s\<in>seen'. path (fsm_trans f) s [] t} \<subseteq> {t. \<exists>s\<in>seen. path (fsm_trans f) s [] t}"
    using cur by (auto simp: s' intro: path_eps)
  moreover have "eps_loop f (cur # queue) seen = eps_loop f queue' seen'" using r by simp
  moreover have "seen \<subseteq> seen'" using s' by blast
  ultimately show ?case using IH by fastforce
qed

lemma epsilon_closure_iff:
  assumes "finite S"
  shows "t \<in> epsilon_closure f S \<longleftrightarrow> (\<exists>s\<in>S. path (fsm_trans f) s [] t)"
proof -
  have *: "S \<subseteq> epsilon_closure f S \<and> epsilon_closure f S \<subseteq> {t. \<exists>s\<in>S. path (fsm_trans f) s [] t}
    \<and> (\<forall>s t. s \<in> epsilon_closure f S \<longrightarrow> fsm_trans f s None t \<longrightarrow> t \<in> epsilon_closure f S)"
    unfolding epsilon_closure_def by (rule eps_loop_spec) (use assms in auto)
  have "t \<in> epsilon_closure f S" if "path (fsm_trans f) s w t" "w = []" "s \<in> epsilon_closure f S" for s w
    using that by (induction rule: path.induct) (use * in auto)
  with * show ?thesis by blast
qed

lemma finite_epsilon_closure: "finite S \<Longrightarrow> finite (epsilon_closure f S)"
proof -
  assume S: "finite S"
  have "t \<in> S \<or> t \<in> fsm_targets f" if "path (fsm_trans f) s w t" "s \<in> S \<or> s \<in> fsm_targets f" for s w t
    using that(1,2)
    by (rule path_stays) (auto simp: fsm_trans_def intro: fsm_row_targets)
  then have "epsilon_closure f S \<subseteq> S \<union> fsm_targets f" using epsilon_closure_iff [OF S] by blast
  then show ?thesis using S finite_subset by fastforce
qed

text \<open>The states a set of states reaches by reading a word.\<close>

definition after :: "fsm \<Rightarrow> nat set \<Rightarrow> sym list \<Rightarrow> nat set" where
  "after f S w = {t. \<exists>s\<in>S. path (fsm_trans f) s w t}"

lemma epsilon_closure_after: "finite S \<Longrightarrow> epsilon_closure f S = after f S []"
  by (auto simp: after_def epsilon_closure_iff)

lemma after_append: "after f (after f S u) v = after f S (u @ v)"
  by (auto simp: after_def path_append)

definition moves :: "fsm \<Rightarrow> nat set \<Rightarrow> sym \<Rightarrow> nat set" where
  "moves f S x = {t. \<exists>s\<in>S. fsm_trans f s (Some x) t}"

lemma finite_moves [simp]: "finite (moves f S x)"
  by (rule finite_subset [of _ "fsm_targets f"]) (auto simp: moves_def fsm_trans_def intro: fsm_row_targets)

lemma after_Cons: "after f S (x # w) = after f (moves f (after f S []) x) w"
  by (auto simp: after_def moves_def path_Cons [of _ _ x])

lemma after_Nil_closed: "after f (after f S w) [] = after f S w"
  by (simp add: after_append)

lemma edge_matches_byte: "edge_matches e (uint b) CHAR_RANGE \<longleftrightarrow> is_char_range e \<and> e_min e \<le> uint b \<and> uint b \<le> e_max e"
  by (simp add: edge_matches_def)

lemma advance_byte:
  assumes "finite S"
  shows "advance f S (uint b) CHAR_RANGE False = after f S [Byte b]"
proof -
  let ?hit = "\<Union>s\<in>epsilon_closure f S. e_target ` set (filter (\<lambda>e. edge_matches e (uint b) CHAR_RANGE) (fsm_row f s))"
  have "?hit = moves f (after f S []) (Byte b)"
    unfolding epsilon_closure_after [OF assms] by (auto simp: moves_def fsm_trans_def edge_matches_byte)
  then show ?thesis
    by (simp add: advance_def Let_def epsilon_closure_after after_Cons [of f S "Byte b" "[]"])
qed

lemma accept_bytes_iff:
  "finite S \<Longrightarrow> after f S [] = S \<Longrightarrow> f = ws_fsm m \<Longrightarrow>
   accept_bytes m bs S \<longleftrightarrow> (\<exists>t\<in>after f S (map Byte bs). is_end_state m t)"
proof (induction m bs S rule: accept_bytes.induct)
  case (1 m states)
  then show ?case by (simp add: is_end_state_def)
next
  case (2 m b bs S)
  let ?R = "advance (ws_fsm m) S (uint b) CHAR_RANGE False"
  have R: "?R = after f S [Byte b]" using advance_byte [OF 2(2)] 2(4) by simp
  then have closed: "after f ?R [] = ?R" by (simp add: after_Nil_closed)
  have fin: "finite ?R" unfolding R after_Cons [of f S "Byte b" "[]"]
    by (metis epsilon_closure_after finite_epsilon_closure finite_moves)
  have w: "after f ?R (map Byte bs) = after f S (map Byte (b # bs))" unfolding R after_append by simp
  show ?case
  proof (cases "?R = {}")
    case True
    then have "after f S (map Byte (b # bs)) = {}" using w by (simp add: after_def)
    then show ?thesis using True by simp
  next
    case False
    then show ?thesis using 2(1) [OF refl False fin closed 2(4)] w by simp
  qed
qed

text \<open>Running a machine on a byte string over sets of states decides whether the string is in
  its language: there is a path of edges from the start state to an accepting state that reads
  exactly those bytes.\<close>

lemma accept_string_lang:
  assumes "ws_wf m"
  shows "accept_string m bytes \<longleftrightarrow> map Byte bytes \<in> lang_of m"
proof -
  let ?S = "epsilon_closure (ws_fsm m) {ws_start m}"
  have S: "?S = after (ws_fsm m) {ws_start m} []" by (simp add: epsilon_closure_after)
  have "accept_string m bytes \<longleftrightarrow> (\<exists>t\<in>after (ws_fsm m) ?S (map Byte bytes). is_end_state m t)"
    unfolding accept_string_def by (rule accept_bytes_iff) (simp_all add: S after_Nil_closed, metis S finite_epsilon_closure finite.emptyI finite_insert)
  also have "after (ws_fsm m) ?S (map Byte bytes) = after (ws_fsm m) {ws_start m} (map Byte bytes)"
    by (simp add: S after_append)
  finally show ?thesis using in_lang_of [OF assms] by (auto simp: after_def)
qed

end
