(* ===== verification/Fsm_Ops.thy ===== *)
theory Fsm_Ops
  imports Fsm_Lang
begin

text \<open>
  The regular operations on machines (crates/grammar/src/fsm/fsm_ops.rs), which build one machine
  from others by splicing copies and adding epsilon edges, and their languages.
\<close>

definition ws_star :: "fsm_wse \<Rightarrow> fsm_wse" where
  "ws_star m =
    (let f0 = fsm_add_state (ws_fsm m);
         new_start = ws_num_states m;
         f1 = fold (\<lambda>e f. if is_end_state m e then fsm_add_epsilon_edge f e new_start else f) [0..<ws_num_states m] f0;
         f2 = fsm_add_epsilon_edge f1 new_start (ws_start m)
     in \<lparr> ws_fsm = f2, ws_start = new_start,
          ws_ends = (replicate (ws_num_states m + 1) False)[new_start := True], ws_is_dfa = False \<rparr>)"

definition ws_plus :: "fsm_wse \<Rightarrow> fsm_wse" where
  "ws_plus m =
    (let f = fold (\<lambda>e f. if is_end_state m e then fsm_add_epsilon_edge f e (ws_start m) else f)
               [0..<ws_num_states m] (ws_fsm m)
     in \<lparr> ws_fsm = f, ws_start = ws_start m, ws_ends = ws_ends m, ws_is_dfa = False \<rparr>)"

definition ws_optional :: "fsm_wse \<Rightarrow> fsm_wse" where
  "ws_optional m =
    (let f = (case find (is_end_state m) [0..<ws_num_states m] of
                Some e \<Rightarrow> fsm_add_epsilon_edge (ws_fsm m) (ws_start m) e
              | None \<Rightarrow> ws_fsm m)
     in \<lparr> ws_fsm = f, ws_start = ws_start m, ws_ends = ws_ends m, ws_is_dfa = False \<rparr>)"

text \<open>One turn of the loops of \<open>union\<close> and \<open>concat\<close>.\<close>

fun union_add :: "fsm_wse \<Rightarrow> fsm \<times> bool list \<Rightarrow> fsm \<times> bool list" where
  "union_add sub (f, ends) =
    (case fsm_add_fsm f (ws_fsm sub) of
       (f1, mapping) \<Rightarrow>
         (fsm_add_epsilon_edge f1 0 (mapping ! ws_start sub),
          ends @ map (is_end_state sub) [0..<ws_num_states sub]))"

definition ws_union :: "fsm_wse list \<Rightarrow> fsm_wse" where
  "ws_union fsms =
    (case fsms of
       [m] \<Rightarrow> m
     | _ \<Rightarrow>
         (case fold union_add fsms (fsm_with_states 1, [False]) of
            (f, ends) \<Rightarrow> \<lparr> ws_fsm = f, ws_start = 0, ws_ends = ends, ws_is_dfa = False \<rparr>))"

record concat_state =
  cc_fsm :: fsm
  cc_start :: nat
  cc_ends :: "bool list"
  cc_previous :: "nat list"

definition concat_add :: "nat \<Rightarrow> nat \<times> fsm_wse \<Rightarrow> concat_state \<Rightarrow> concat_state" where
  "concat_add final isub c =
    (case isub of (i, sub) \<Rightarrow>
      (case fsm_add_fsm (cc_fsm c) (ws_fsm sub) of
         (f1, mapping) \<Rightarrow>
           (let this_start = mapping ! ws_start sub;
                f2 = (if i = 0 then f1
                      else fold (\<lambda>e f. fsm_add_epsilon_edge f e this_start) (cc_previous c) f1);
                start = (if i = 0 then this_start else cc_start c)
            in if i = final
               then c\<lparr> cc_fsm := f2, cc_start := start,
                       cc_ends := fold (\<lambda>e ends. if is_end_state sub e then ends[mapping ! e := True] else ends)
                         [0..<ws_num_states sub] (replicate (fsm_num_states f2) False) \<rparr>
               else c\<lparr> cc_fsm := f2, cc_start := start,
                       cc_previous := map (\<lambda>e. mapping ! e) (filter (is_end_state sub) [0..<ws_num_states sub]) \<rparr>)))"

definition ws_concat :: "fsm_wse list \<Rightarrow> fsm_wse" where
  "ws_concat fsms =
    (case fsms of
       [m] \<Rightarrow> m
     | _ \<Rightarrow>
         (let c = fold (concat_add (length fsms - 1)) (enumerate 0 fsms)
                    \<lparr> cc_fsm = fsm_with_states 0, cc_start = 0, cc_ends = [], cc_previous = [] \<rparr>
          in \<lparr> ws_fsm = cc_fsm c, ws_start = cc_start c, ws_ends = cc_ends c, ws_is_dfa = False \<rparr>))"

subsection \<open>Languages\<close>

definition lang_conc :: "'a list set \<Rightarrow> 'a list set \<Rightarrow> 'a list set" where
  "lang_conc A B = {u @ v | u v. u \<in> A \<and> v \<in> B}"

definition lang_star :: "'a list set \<Rightarrow> 'a list set" where
  "lang_star A = {concat ws | ws. set ws \<subseteq> A}"

fun lang_concs :: "'a list set list \<Rightarrow> 'a list set" where
  "lang_concs [] = {[]}"
| "lang_concs (A # As) = lang_conc A (lang_concs As)"

lemma lang_star_Nil [simp]: "[] \<in> lang_star A"
  by (auto simp: lang_star_def intro!: exI [of _ "[]"])

lemma lang_star_Cons: "u \<in> A \<Longrightarrow> v \<in> lang_star A \<Longrightarrow> u @ v \<in> lang_star A"
  unfolding lang_star_def by (clarsimp, rule_tac x = "u # ws" in exI) simp

lemma lang_star_induct [consumes 1]:
  assumes "w \<in> lang_star A" and "P []" and "\<And>u v. u \<in> A \<Longrightarrow> v \<in> lang_star A \<Longrightarrow> P v \<Longrightarrow> P (u @ v)"
  shows "P w"
proof -
  have "set ws \<subseteq> A \<Longrightarrow> concat ws \<in> lang_star A \<and> P (concat ws)" for ws
    by (induction ws) (auto simp: assms(2) intro: lang_star_Cons assms(3))
  then show ?thesis using assms(1) by (auto simp: lang_star_def)
qed

lemma lang_conc_assoc: "lang_conc (lang_conc A B) C = lang_conc A (lang_conc B C)"
  unfolding lang_conc_def by (auto; metis append_assoc)

lemma lang_concs_snoc: "lang_concs (As @ [B]) = lang_conc (lang_concs As) B"
  by (induction As) (auto simp: lang_conc_assoc, auto simp: lang_conc_def)

subsection \<open>The steps of a machine after an edge, a state or another machine is added\<close>

lemma reads_aux: "fs_aux g = fs_aux f \<Longrightarrow> reads g e l = reads f e l"
  by (cases l rule: option.exhaust, simp, rename_tac x, case_tac x) (auto simp: repeat_edge_info_def)

lemma fsm_add_edge_frame [simp]:
  "fsm_num_states (fsm_add_edge f s t lo hi) = fsm_num_states f"
  "fs_aux (fsm_add_edge f s t lo hi) = fs_aux f"
  by (simp_all add: fsm_add_edge_def fsm_num_states_def)

lemma fsm_row_add_edge:
  "fsm_row (fsm_add_edge f s t lo hi) i
    = (if i = s \<and> s < fsm_num_states f then vec_push (fsm_row f s) (FsmEdge lo hi t) else fsm_row f i)"
  by (auto simp: fsm_row_def fsm_add_edge_def fsm_num_states_def nth_list_update)

lemma trans_add_edge:
  "fsm_trans (fsm_add_edge f a b lo hi) s l t
    \<longleftrightarrow> fsm_trans f s l t \<or> a < fsm_num_states f \<and> s = a \<and> t = b \<and> reads f (FsmEdge lo hi b) l"
  by (auto simp: fsm_trans_def fsm_row_add_edge reads_aux [of "fsm_add_edge f a b lo hi" f])

lemma edge_ok_mono:
  "edge_ok f e \<Longrightarrow> fsm_num_states f \<le> fsm_num_states g \<Longrightarrow> fs_aux g = fs_aux f \<Longrightarrow> edge_ok g e"
proof -
  assume "edge_ok f e" "fsm_num_states f \<le> fsm_num_states g" "fs_aux g = fs_aux f"
  moreover from this(3) have "repeat_edge_info g = repeat_edge_info f" by (simp add: fun_eq_iff repeat_edge_info_def)
  ultimately show "edge_ok g e" by (auto simp: edge_ok_def)
qed

lemma wf_add_edge:
  assumes "fsm_wf f" and "b < fsm_num_states f" and "lo < 0 \<or> lo \<le> hi \<and> hi \<le> 255" and "lo \<noteq> REPEAT_REF"
  shows "fsm_wf (fsm_add_edge f a b lo hi)"
proof -
  have "edge_ok (fsm_add_edge f a b lo hi) (FsmEdge lo hi b)"
    using assms by (auto simp: edge_ok_def is_char_range_def is_repeat_ref_def CHAR_RANGE_def)
  then show ?thesis using assms(1)
    by (auto simp: fsm_wf_rows fsm_row_add_edge intro: edge_ok_mono [of f])
qed

lemma reads_epsilon: "reads f (FsmEdge EPSILON v t) l \<longleftrightarrow> l = None"
  by (cases l rule: option.exhaust, simp add: is_epsilon_def, rename_tac x, case_tac x)
    (auto simp: is_char_range_def is_rule_ref_def is_repeat_ref_def edge_types)

lemmas epsilon_edge_def = fsm_add_epsilon_edge_def fsm_add_typed_edge_def

lemma trans_add_epsilon:
  "fsm_trans (fsm_add_epsilon_edge f a b) s l t
    \<longleftrightarrow> fsm_trans f s l t \<or> a < fsm_num_states f \<and> s = a \<and> t = b \<and> l = None"
  by (simp add: epsilon_edge_def trans_add_edge reads_epsilon)

lemma fsm_add_epsilon_frame [simp]:
  "fsm_num_states (fsm_add_epsilon_edge f s t) = fsm_num_states f"
  "fs_aux (fsm_add_epsilon_edge f s t) = fs_aux f"
  by (simp_all add: epsilon_edge_def)

lemma wf_add_epsilon: "fsm_wf f \<Longrightarrow> b < fsm_num_states f \<Longrightarrow> fsm_wf (fsm_add_epsilon_edge f a b)"
  by (simp add: epsilon_edge_def wf_add_edge edge_types)

lemma add_epsilons:
  assumes "fsm_wf f" and "b < fsm_num_states f"
  shows "fsm_wf (fold (\<lambda>e f. if P e then fsm_add_epsilon_edge f e b else f) es f)
    \<and> fsm_num_states (fold (\<lambda>e f. if P e then fsm_add_epsilon_edge f e b else f) es f) = fsm_num_states f
    \<and> fs_aux (fold (\<lambda>e f. if P e then fsm_add_epsilon_edge f e b else f) es f) = fs_aux f
    \<and> (fsm_trans (fold (\<lambda>e f. if P e then fsm_add_epsilon_edge f e b else f) es f) s l t
        \<longleftrightarrow> fsm_trans f s l t \<or> s \<in> set es \<and> P s \<and> s < fsm_num_states f \<and> t = b \<and> l = None)"
  using assms
proof (induction es arbitrary: f)
  case (Cons e es)
  let ?f = "if P e then fsm_add_epsilon_edge f e b else f"
  have "fsm_wf ?f" "b < fsm_num_states ?f" using Cons.prems by (simp_all add: wf_add_epsilon)
  from Cons.IH [OF this] show ?case by (auto simp: trans_add_epsilon)
qed simp

lemma fsm_add_state_frame [simp]:
  "fsm_num_states (fsm_add_state f) = Suc (fsm_num_states f)" "fs_aux (fsm_add_state f) = fs_aux f"
  "fsm_row (fsm_add_state f) s = fsm_row f s"
  by (auto simp: fsm_add_state_def fsm_num_states_def fsm_row_def vec_push_def nth_append)

lemma trans_add_state [simp]: "fsm_trans (fsm_add_state f) s l t = fsm_trans f s l t"
  by (simp add: fsm_trans_def reads_aux [of "fsm_add_state f" f])

lemma wf_add_state: "fsm_wf f \<Longrightarrow> fsm_wf (fsm_add_state f)"
  by (auto simp: fsm_wf_rows intro: edge_ok_mono [of f])

subsection \<open>Splicing in a copy of a machine\<close>

lemma fsm_add_fsm_frame [simp]:
  "fsm_num_states (fst (fsm_add_fsm f g)) = fsm_num_states f + fsm_num_states g"
  "fs_aux (fst (fsm_add_fsm f g)) = fs_aux f @ fs_aux g"
  "snd (fsm_add_fsm f g) = map (\<lambda>i. i + fsm_num_states f) [0..<fsm_num_states g]"
  by (simp_all add: fsm_add_fsm_def fsm_num_states_def Let_def)

lemma fsm_row_add_fsm:
  "fsm_row (fst (fsm_add_fsm f g)) s =
    (if s < fsm_num_states f then fsm_row f s
     else map (shift_edge (fsm_num_states f) (as_i16 (int (length (fs_aux f))))) (fsm_row g (s - fsm_num_states f)))"
  by (auto simp: fsm_row_def fsm_add_fsm_def fsm_num_states_def Let_def nth_append)

lemma repeat_info_append: "repeat_edge_info f i = Some r \<Longrightarrow> fs_aux h = fs_aux f @ xs \<Longrightarrow> repeat_edge_info h i = Some r"
  by (auto simp: repeat_edge_info_def from_aux_def nth_append split: if_splits)

lemma repeat_info_shift:
  "0 \<le> i \<Longrightarrow> fs_aux h = xs @ fs_aux g \<Longrightarrow> repeat_edge_info h (i + int (length xs)) = repeat_edge_info g i"
  by (auto simp: repeat_edge_info_def from_aux_def nth_append nat_add_distrib)

lemma repeat_info_range: "repeat_edge_info g i = Some r \<Longrightarrow> 0 \<le> i \<and> i + 2 < int (length (fs_aux g))"
  by (auto simp: repeat_edge_info_def from_aux_def split: if_splits)

text \<open>Two machines fit together when the auxiliary indices of both stay in an \<open>i16\<close>.\<close>

definition aux_fits :: "fsm \<Rightarrow> fsm \<Rightarrow> bool" where
  "aux_fits f g \<longleftrightarrow> length (fs_aux f) + length (fs_aux g) < 32768"

lemma old_edge:
  assumes "edge_ok f e" and aux: "fs_aux h = fs_aux f @ xs" and "fsm_num_states f \<le> fsm_num_states h"
  shows "edge_ok h e" and "reads h e l = reads f e l"
proof -
  have r: "repeat_edge_info h (e_max e) = repeat_edge_info f (e_max e)" if "is_repeat_ref e"
    using that assms(1) repeat_info_append [OF _ aux] by (auto simp: edge_ok_def)
  then show "edge_ok h e" using assms by (auto simp: edge_ok_def)
  show "reads h e l = reads f e l"
    using r by (cases l rule: option.exhaust, simp, rename_tac x, case_tac x) auto
qed

lemma new_edge:
  assumes e: "edge_ok g e" and aux: "fs_aux h = xs @ fs_aux g" and len: "length xs + length (fs_aux g) < 32768"
    and n: "fsm_num_states h = n + fsm_num_states g" and e': "e' = shift_edge n (int (length xs)) e"
  shows "edge_ok h e'" and "reads h e' l = reads g e l" and "e_target e' = e_target e + n"
proof -
  have rep: "repeat_edge_info h (e_max e') = repeat_edge_info g (e_max e)" if r: "is_repeat_ref e"
  proof -
    from e r obtain i where "repeat_edge_info g (e_max e) = Some i" by (auto simp: edge_ok_def)
    then have "0 \<le> e_max e" "e_max e + 2 < int (length (fs_aux g))" using repeat_info_range by blast+
    moreover have "e_max e' = e_max e + int (length xs)"
      using calculation len r by (simp add: e' shift_edge_def is_aux_edge_def)
    ultimately show ?thesis using repeat_info_shift [of "e_max e" h xs g] aux by simp
  qed
  have same: "e_min e' = e_min e" "e_target e' = e_target e + n" "\<not> is_repeat_ref e \<Longrightarrow> e_max e' = e_max e"
    by (simp_all add: e' shift_edge_def is_aux_edge_def)
  then have kinds: "is_char_range e' = is_char_range e" "is_rule_ref e' = is_rule_ref e" "is_epsilon e' = is_epsilon e"
    "is_repeat_ref e' = is_repeat_ref e"
    by (simp_all add: is_char_range_def is_rule_ref_def is_epsilon_def is_repeat_ref_def)
  have char: "is_char_range e \<or> is_rule_ref e \<Longrightarrow> e_max e' = e_max e"
    by (rule same(3)) (auto simp: is_char_range_def is_rule_ref_def is_repeat_ref_def edge_types)
  show "edge_ok h e'" using e rep char n by (auto simp: edge_ok_def kinds same)
  show "reads h e' l = reads g e l"
    using rep char by (cases l rule: option.exhaust, simp add: kinds, rename_tac x, case_tac x) (auto simp: kinds same)
  show "e_target e' = e_target e + n" by (rule same)
qed

lemma edges_add_fsm:
  assumes "fsm_wf f" and "fsm_wf g" and "aux_fits f g" and h: "h = fst (fsm_add_fsm f g)"
  shows "e \<in> set (fsm_row f s) \<Longrightarrow> edge_ok h e \<and> reads h e l = reads f e l"
    and "e \<in> set (fsm_row g s) \<Longrightarrow> e' = shift_edge (fsm_num_states f) (as_i16 (int (length (fs_aux f)))) e \<Longrightarrow>
      edge_ok h e' \<and> reads h e' l = reads g e l \<and> e_target e' = e_target e + fsm_num_states f"
proof -
  have nums: "fs_aux h = fs_aux f @ fs_aux g" "fsm_num_states h = fsm_num_states f + fsm_num_states g" by (simp_all add: h)
  have off: "as_i16 (int (length (fs_aux f))) = int (length (fs_aux f))" using assms(3) by (simp add: aux_fits_def)
  show "e \<in> set (fsm_row f s) \<Longrightarrow> edge_ok h e \<and> reads h e l = reads f e l"
    using old_edge [of f e h "fs_aux g"] assms(1) nums by (auto simp: fsm_wf_rows)
  assume "e \<in> set (fsm_row g s)" "e' = shift_edge (fsm_num_states f) (as_i16 (int (length (fs_aux f)))) e"
  then show "edge_ok h e' \<and> reads h e' l = reads g e l \<and> e_target e' = e_target e + fsm_num_states f"
    using new_edge [of g e h "fs_aux f" "fsm_num_states f" e'] assms(2,3) nums
    by (auto simp: fsm_wf_rows aux_fits_def off)
qed

lemma wf_add_fsm:
  assumes "fsm_wf f" and "fsm_wf g" and "aux_fits f g"
  shows "fsm_wf (fst (fsm_add_fsm f g))"
  using edges_add_fsm [OF assms refl] assms(3)
  by (auto simp: fsm_wf_rows fsm_row_add_fsm aux_fits_def)

lemma trans_add_fsm:
  assumes "fsm_wf f" and "fsm_wf g" and "aux_fits f g"
  shows "fsm_trans (fst (fsm_add_fsm f g)) s l t \<longleftrightarrow>
    s < fsm_num_states f \<and> fsm_trans f s l t
    \<or> (\<exists>s' t'. s = s' + fsm_num_states f \<and> t = t' + fsm_num_states f \<and> fsm_trans g s' l t')"
proof (cases "s < fsm_num_states f")
  case True
  then show ?thesis using edges_add_fsm(1) [OF assms refl] by (auto simp: fsm_trans_def fsm_row_add_fsm)
next
  case False
  then obtain s' where s: "s = s' + fsm_num_states f" by (metis add.commute le_Suc_ex not_less)
  show ?thesis using edges_add_fsm(2) [OF assms refl] by (fastforce simp: fsm_trans_def fsm_row_add_fsm s)
qed

text \<open>The paths of a machine with a copy spliced in, from the states of the old part: they stay
  there, or leave it for good over one of the new epsilon edges.\<close>

lemma path_splice:
  fixes n q0 :: nat
  assumes T': "\<And>s l t. T' s l t \<longleftrightarrow> s < n \<and> T s l t \<or> (\<exists>s' t'. s = s' + n \<and> t = t' + n \<and> G s' l t')
      \<or> s \<in> P \<and> t = q0 + n \<and> l = None"
    and T: "\<And>s l t. T s l t \<Longrightarrow> s < n \<and> t < n" and P: "\<And>p. p \<in> P \<Longrightarrow> p < n"
  shows path_splice_new: "path T' (s' + n) w t \<longleftrightarrow> (\<exists>t'. t = t' + n \<and> path G s' w t')"
    and path_splice_old: "s < n \<Longrightarrow> path T' s w t \<longleftrightarrow> t < n \<and> path T s w t
      \<or> (\<exists>u v p t'. w = u @ v \<and> p \<in> P \<and> path T s u p \<and> t = t' + n \<and> path G q0 v t')"
proof -
  show new: "path T' (s' + n) w t \<longleftrightarrow> (\<exists>t'. t = t' + n \<and> path G s' w t')" for s' w t
  proof
    assume "path T' (s' + n) w t"
    then show "\<exists>t'. t = t' + n \<and> path G s' w t'"
      by (rule path_back [where h = "\<lambda>i. i + n"]) (use P in \<open>auto simp: T'\<close>)
  next
    assume "\<exists>t'. t = t' + n \<and> path G s' w t'"
    then obtain t' where "t = t' + n" "path G s' w t'" by blast
    then show "path T' (s' + n) w t" using path_map [of G s' w t' T' "\<lambda>i. i + n"] T' by blast
  qed
  assume s: "s < n"
  show "path T' s w t \<longleftrightarrow> t < n \<and> path T s w t
      \<or> (\<exists>u v p t'. w = u @ v \<and> p \<in> P \<and> path T s u p \<and> t = t' + n \<and> path G q0 v t')" (is "_ \<longleftrightarrow> ?R s w")
  proof
    assume "path T' s w t"
    then show "?R s w" using s
    proof (induction rule: path.induct)
      case (path_eps s u w t)
      show ?case
      proof (cases "T s None u")
        case True
        with path_eps.IH T show ?thesis by (blast intro: path.path_eps)
      next
        case False
        with path_eps.hyps(1) path_eps.prems T' have "s \<in> P" "u = q0 + n" by auto
        with path_eps.hyps(2) new show ?thesis by (metis append_Nil path_refl)
      qed
    next
      case (path_sym s a u w t)
      then have "T s (Some a) u" using T' by auto
      with path_sym.IH T show ?case by (metis Cons_eq_appendI path.path_sym)
    qed auto
  next
    have old: "path T s u p \<Longrightarrow> path T' s u p" for u p
      by (erule path_mono) (use T T' in blast)
    assume "?R s w"
    then show "path T' s w t"
    proof (elim disjE exE conjE)
      fix u v p t'
      assume *: "w = u @ v" "p \<in> P" "path T s u p" "t = t' + n" "path G q0 v t'"
      then have "path T' p v t" using new [of q0 v t] T' by (blast intro: path_eps)
      then show ?thesis using old [OF *(3)] *(1) path_trans by simp
    qed (rule old)
  qed
qed

subsection \<open>Star and plus\<close>

text \<open>A machine whose accepting states lead back to a hub, and the hub to the start.\<close>

lemma path_hub:
  assumes T': "\<And>s l t. T' s l t \<longleftrightarrow> T s l t \<or> s \<in> E \<and> t = hub \<and> l = None \<or> s = hub \<and> t = start \<and> l = None"
    and T: "\<And>s l t. T s l t \<Longrightarrow> s \<noteq> hub \<and> t \<noteq> hub" and hub: "hub \<notin> E" "start \<noteq> hub"
    and L: "\<And>w. w \<in> L \<longleftrightarrow> (\<exists>e\<in>E. path T start w e)"
  shows "path T' hub w hub \<longleftrightarrow> w \<in> lang_star L"
proof
  have "path T' s w t \<Longrightarrow> t = hub \<Longrightarrow> (s = hub \<longrightarrow> w \<in> lang_star L)
      \<and> (s \<noteq> hub \<longrightarrow> (\<exists>u v e. w = u @ v \<and> path T s u e \<and> e \<in> E \<and> v \<in> lang_star L))" for s t
  proof (induction rule: path.induct)
    case (path_eps s u w t)
    consider "T s None u" | "s \<in> E" "u = hub" | "s = hub" "u = start" using path_eps.hyps(1) T' by blast
    then show ?case
    proof cases
      case 1
      with path_eps.IH path_eps.prems T [OF 1] show ?thesis by (blast intro: path.path_eps)
    next
      case 2
      with path_eps.IH path_eps.prems hub have "w \<in> lang_star L" by blast
      with 2 hub show ?thesis by (metis append_Nil path_refl)
    next
      case 3
      with path_eps.IH path_eps.prems hub obtain x v e
        where "w = x @ v" "path T start x e" "e \<in> E" "v \<in> lang_star L" by blast
      with 3 L show ?thesis by (blast intro: lang_star_Cons)
    qed
  next
    case (path_sym s a u w t)
    then have "T s (Some a) u" using T' by auto
    with path_sym.IH path_sym.prems T show ?case by (metis Cons_eq_appendI path.path_sym)
  qed auto
  then show "path T' hub w hub \<Longrightarrow> w \<in> lang_star L" by blast
next
  have old: "path T s u p \<Longrightarrow> path T' s u p" for s u p by (erule path_mono) (simp add: T')
  assume "w \<in> lang_star L"
  then show "path T' hub w hub"
  proof (induction rule: lang_star_induct)
    case (2 u v)
    then obtain e where "e \<in> E" "path T start u e" using L by blast
    moreover have "T' e None hub" using T' \<open>e \<in> E\<close> by simp
    ultimately have "path T' start u hub"
      using path_trans [OF old, of start u e "[]" hub] path_eps [of T' e hub "[]" hub] by auto
    then have "path T' hub u hub" using T' by (blast intro: path_eps)
    with 2(3) show ?case by (simp add: path_trans)
  qed auto
qed

lemma lang_ws_star:
  assumes "ws_wf m"
  shows "ws_wf (ws_star m)" and "lang_of (ws_star m) = lang_star (lang_of m)"
proof -
  define n where "n = ws_num_states m"
  define f1 where "f1 = fold (\<lambda>e f. if is_end_state m e then fsm_add_epsilon_edge f e n else f) [0..<n] (fsm_add_state (ws_fsm m))"
  have m: "fsm_wf (ws_fsm m)" "ws_start m < n" "length (ws_ends m) = n" using assms by (auto simp: ws_wf_def n_def)
  have n0: "fsm_num_states (fsm_add_state (ws_fsm m)) = Suc n" by (simp add: ws_num_states_def n_def)
  then have f1: "fsm_wf f1 \<and> fsm_num_states f1 = Suc n \<and>
      (fsm_trans f1 s l t \<longleftrightarrow> fsm_trans (ws_fsm m) s l t \<or> s < n \<and> is_end_state m s \<and> t = n \<and> l = None)" for s l t
    using add_epsilons [of "fsm_add_state (ws_fsm m)" n "is_end_state m" "[0..<n]" s l t] wf_add_state [OF m(1)]
    unfolding f1_def by auto
  have star: "ws_star m = \<lparr> ws_fsm = fsm_add_epsilon_edge f1 n (ws_start m), ws_start = n,
      ws_ends = (replicate (n + 1) False)[n := True], ws_is_dfa = False \<rparr>"
    by (simp only: ws_star_def Let_def f1_def n_def)
  show "ws_wf (ws_star m)" using f1 m by (simp add: ws_wf_def star wf_add_epsilon ws_num_states_def del: replicate_Suc)
  have T': "fsm_trans (ws_fsm (ws_star m)) s l t \<longleftrightarrow> fsm_trans (ws_fsm m) s l t
      \<or> s \<in> {e. e < n \<and> is_end_state m e} \<and> t = n \<and> l = None \<or> s = n \<and> t = ws_start m \<and> l = None" for s l t
    using f1 by (auto simp: star trans_add_epsilon)
  have "path (fsm_trans (ws_fsm (ws_star m))) n w n \<longleftrightarrow> w \<in> lang_star (lang_of m)" for w
  proof (rule path_hub [OF T'])
    show "fsm_trans (ws_fsm m) s l t \<Longrightarrow> s \<noteq> n \<and> t \<noteq> n" for s l t
      using trans_range trans_wf [OF m(1)] by (fastforce simp: ws_num_states_def n_def)
    show "w \<in> lang_of m \<longleftrightarrow> (\<exists>e\<in>{e. e < n \<and> is_end_state m e}. path (fsm_trans (ws_fsm m)) (ws_start m) w e)" for w
      by (auto simp: lang_of_def n_def)
  qed (use m in auto)
  moreover have "is_end_state (ws_star m) t \<longleftrightarrow> t = n" if "t < Suc n" for t
    using that by (auto simp: star is_end_state_def nth_list_update nth_append less_Suc_eq simp del: replicate_Suc)
  ultimately show "lang_of (ws_star m) = lang_star (lang_of m)"
    using f1 by (auto simp: lang_of_def ws_num_states_def star)
qed

lemma path_back_to_start:
  assumes T': "\<And>s l t. T' s l t \<longleftrightarrow> T s l t \<or> s \<in> E \<and> t = start \<and> l = None"
    and L: "\<And>w. w \<in> L \<longleftrightarrow> (\<exists>e\<in>E. path T start w e)"
  shows "(\<exists>e\<in>E. path T' start w e) \<longleftrightarrow> w \<in> lang_conc L (lang_star L)"
proof
  have "path T' s w t \<Longrightarrow> t \<in> E \<Longrightarrow> \<exists>u v e. w = u @ v \<and> path T s u e \<and> e \<in> E \<and> v \<in> lang_star L" for s t
  proof (induction rule: path.induct)
    case (path_refl s)
    then show ?case by (metis append_Nil lang_star_Nil path.path_refl)
  next
    case (path_eps s u w t)
    from path_eps.IH path_eps.prems obtain x v e
      where *: "w = x @ v" "path T u x e" "e \<in> E" "v \<in> lang_star L" by blast
    show ?case
    proof (cases "T s None u")
      case True
      with * show ?thesis by (blast intro: path.path_eps)
    next
      case False
      with path_eps.hyps(1) T' have "s \<in> E" "u = start" by auto
      with * L have "w \<in> lang_star L" by (blast intro: lang_star_Cons)
      with \<open>s \<in> E\<close> show ?thesis by (metis append_Nil path_refl)
    qed
  next
    case (path_sym s a u w t)
    then have "T s (Some a) u" using T' by auto
    with path_sym.IH path_sym.prems show ?case by (metis Cons_eq_appendI path.path_sym)
  qed
  then show "\<exists>e\<in>E. path T' start w e \<Longrightarrow> w \<in> lang_conc L (lang_star L)" using L by (fastforce simp: lang_conc_def)
next
  have old: "path T s u p \<Longrightarrow> path T' s u p" for s u p by (erule path_mono) (simp add: T')
  have again: "e \<in> E \<Longrightarrow> path T' start u e \<Longrightarrow> path T' start u start" for u e
  proof -
    assume "e \<in> E" and u: "path T' start u e"
    then have "path T' e [] start" using T' by (blast intro: path_eps)
    from path_trans [OF u this] show ?thesis by simp
  qed
  have "v \<in> lang_star L \<Longrightarrow> v = [] \<or> (\<exists>e\<in>E. path T' start v e)" for v
  proof (induction rule: lang_star_induct)
    case (2 u v)
    then obtain e where "e \<in> E" "path T' start u e" using L old by blast
    with 2(3) again show ?case by (metis append_Nil2 path_trans)
  qed simp
  moreover assume "w \<in> lang_conc L (lang_star L)"
  then obtain u v e where "w = u @ v" "e \<in> E" "path T' start u e" "v \<in> lang_star L"
    using L old by (auto simp: lang_conc_def)
  ultimately show "\<exists>e\<in>E. path T' start w e" using again by (metis append_Nil2 path_trans)
qed

lemma lang_ws_plus:
  assumes "ws_wf m"
  shows "ws_wf (ws_plus m)" and "lang_of (ws_plus m) = lang_conc (lang_of m) (lang_star (lang_of m))"
proof -
  define n where "n = ws_num_states m"
  define f where "f = fold (\<lambda>e f. if is_end_state m e then fsm_add_epsilon_edge f e (ws_start m) else f) [0..<n] (ws_fsm m)"
  define E where "E = {e. e < n \<and> is_end_state m e}"
  have m: "fsm_wf (ws_fsm m)" "ws_start m < n" "length (ws_ends m) = n" using assms by (auto simp: ws_wf_def n_def)
  have f: "fsm_wf f \<and> fsm_num_states f = n \<and>
      (fsm_trans f s l t \<longleftrightarrow> fsm_trans (ws_fsm m) s l t \<or> s \<in> E \<and> t = ws_start m \<and> l = None)" for s l t
    using add_epsilons [of "ws_fsm m" "ws_start m" "is_end_state m" "[0..<n]" s l t] m
    unfolding f_def E_def by (auto simp: ws_num_states_def n_def)
  have plus: "ws_plus m = \<lparr> ws_fsm = f, ws_start = ws_start m, ws_ends = ws_ends m, ws_is_dfa = False \<rparr>"
    by (simp add: ws_plus_def f_def n_def)
  show "ws_wf (ws_plus m)" using f m by (simp add: ws_wf_def plus ws_num_states_def)
  have "(\<exists>e\<in>E. path (fsm_trans f) (ws_start m) w e) \<longleftrightarrow> w \<in> lang_conc (lang_of m) (lang_star (lang_of m))" for w
    by (rule path_back_to_start [of _ "fsm_trans (ws_fsm m)"]) (use f in \<open>auto simp: lang_of_def E_def n_def\<close>)
  then show "lang_of (ws_plus m) = lang_conc (lang_of m) (lang_star (lang_of m))"
    using f by (fastforce simp: set_eq_iff lang_of_def [of "ws_plus m", unfolded plus] plus E_def is_end_state_def ws_num_states_def)
qed

subsection \<open>Union\<close>

definition aux_sum :: "fsm_wse list \<Rightarrow> nat" where
  "aux_sum ms = sum_list (map (\<lambda>m. length (fs_aux (ws_fsm m))) ms)"

lemma aux_sum_simps [simp]:
  "aux_sum [] = 0" "aux_sum (m # ms) = length (fs_aux (ws_fsm m)) + aux_sum ms"
  by (simp_all add: aux_sum_def)

text \<open>What the loop of \<open>union\<close> has built: the machine of a language whose state 0 is only a start.\<close>

definition union_inv :: "fsm \<Rightarrow> bool list \<Rightarrow> sym list set \<Rightarrow> bool" where
  "union_inv f ends L \<longleftrightarrow> fsm_wf f \<and> 0 < fsm_num_states f \<and> length ends = fsm_num_states f
     \<and> (\<forall>s l. \<not> fsm_trans f s l 0) \<and> L = {w. \<exists>t < length ends. path (fsm_trans f) 0 w t \<and> ends ! t}"

lemma path_into:
  assumes "\<And>s l. \<not> T s l r" and "path T s w r"
  shows "s = r \<and> w = []"
proof -
  have "path T s w t \<Longrightarrow> t = r \<Longrightarrow> s = r \<and> w = []" for t
    by (induction rule: path.induct) (use assms(1) in auto)
  then show ?thesis using assms(2) by blast
qed

lemma union_add_inv:
  assumes inv: "union_inv f ends L" and sub: "ws_wf sub" and fits: "aux_fits f (ws_fsm sub)"
    and r: "union_add sub (f, ends) = (f', ends')"
  shows "union_inv f' ends' (L \<union> lang_of sub)" and "fs_aux f' = fs_aux f @ fs_aux (ws_fsm sub)"
proof -
  define n where "n = fsm_num_states f"
  define f1 where "f1 = fst (fsm_add_fsm f (ws_fsm sub))"
  have f: "fsm_wf f" "0 < n" "length ends = n" "\<And>s l. \<not> fsm_trans f s l 0"
    and L: "L = {w. \<exists>t < n. path (fsm_trans f) 0 w t \<and> ends ! t}"
    using inv by (auto simp: union_inv_def n_def)
  have m: "fsm_wf (ws_fsm sub)" "ws_start sub < ws_num_states sub" "length (ws_ends sub) = ws_num_states sub"
    using sub by (auto simp: ws_wf_def)
  have r': "f' = fsm_add_epsilon_edge f1 0 (ws_start sub + n)"
      "ends' = ends @ map (is_end_state sub) [0..<ws_num_states sub]"
    using r m(2) unfolding f1_def by (auto simp: n_def ws_num_states_def split: prod.splits)
      (metis (no_types, lifting) add.left_neutral diff_zero fsm_add_fsm_frame(3) length_upt nth_map nth_upt snd_conv)+
  have nums: "fsm_num_states f1 = n + ws_num_states sub" "fs_aux f1 = fs_aux f @ fs_aux (ws_fsm sub)"
    by (simp_all add: f1_def n_def ws_num_states_def)
  have wf1: "fsm_wf f1" unfolding f1_def by (rule wf_add_fsm [OF f(1) m(1) fits])
  have T': "fsm_trans f' s l t \<longleftrightarrow> s < n \<and> fsm_trans f s l t
      \<or> (\<exists>s' t'. s = s' + n \<and> t = t' + n \<and> fsm_trans (ws_fsm sub) s' l t')
      \<or> s \<in> {0} \<and> t = ws_start sub + n \<and> l = None" for s l t
    using f(2) nums(1) trans_add_fsm [OF f(1) m(1) fits] unfolding r' trans_add_epsilon f1_def n_def by auto
  have paths: "path (fsm_trans f') 0 w t \<longleftrightarrow> t < n \<and> path (fsm_trans f) 0 w t
      \<or> (\<exists>u v p t'. w = u @ v \<and> p \<in> {0} \<and> path (fsm_trans f) 0 u p \<and> t = t' + n
           \<and> path (fsm_trans (ws_fsm sub)) (ws_start sub) v t')" for w t
    by (rule path_splice_old [OF T']) (use f trans_range trans_wf [OF f(1)] in \<open>auto simp: n_def\<close>)
  then have paths: "path (fsm_trans f') 0 w t \<longleftrightarrow> t < n \<and> path (fsm_trans f) 0 w t
      \<or> (\<exists>t'. t = t' + n \<and> path (fsm_trans (ws_fsm sub)) (ws_start sub) w t')" for w t
    using path_into [of "fsm_trans f" 0 0] f(4) by fastforce
  have "w \<in> L \<union> lang_of sub \<longleftrightarrow> (\<exists>t < length ends'. path (fsm_trans f') 0 w t \<and> ends' ! t)" for w
  proof -
    have "(\<exists>t < length ends'. path (fsm_trans f') 0 w t \<and> ends' ! t) \<longleftrightarrow>
        (\<exists>t < n. path (fsm_trans f') 0 w t \<and> ends' ! t)
        \<or> (\<exists>t' < ws_num_states sub. path (fsm_trans f') 0 w (t' + n) \<and> ends' ! (t' + n))"
      by (simp add: r'(2) f(3) ex_less_add)
    also have "\<dots> \<longleftrightarrow> w \<in> L \<union> lang_of sub"
      unfolding L lang_of_def paths using f(3) by (auto simp: r' nth_append)
    finally show ?thesis ..
  qed
  then show "union_inv f' ends' (L \<union> lang_of sub)"
    using wf1 nums m(2) f T' by (auto simp: union_inv_def r' wf_add_epsilon)
  show "fs_aux f' = fs_aux f @ fs_aux (ws_fsm sub)" by (simp add: r' nums)
qed

lemma union_fold_inv:
  assumes "union_inv f ends L" and "\<forall>m\<in>set ms. ws_wf m" and "length (fs_aux f) + aux_sum ms < 32768"
    and "fold union_add ms (f, ends) = (f', ends')"
  shows "union_inv f' ends' (L \<union> (\<Union>m\<in>set ms. lang_of m))"
  using assms
proof (induction ms arbitrary: f ends L)
  case (Cons m ms)
  obtain f1 ends1 where r: "union_add m (f, ends) = (f1, ends1)" by force
  from Cons.prems have fits: "aux_fits f (ws_fsm m)" by (simp add: aux_fits_def)
  note add = union_add_inv [OF Cons.prems(1) _ fits r]
  have "union_inv f' ends' ((L \<union> lang_of m) \<union> (\<Union>m\<in>set ms. lang_of m))"
    by (rule Cons.IH [of f1 ends1]) (use Cons.prems add r in simp_all)
  then show ?case by (simp add: Un_assoc)
qed simp

lemma lang_ws_union:
  assumes "\<forall>m\<in>set ms. ws_wf m" and "aux_sum ms < 32768" and "ms \<noteq> []"
  shows "ws_wf (ws_union ms) \<and> lang_of (ws_union ms) = (\<Union>m\<in>set ms. lang_of m)"
proof (cases "\<exists>m. ms = [m]")
  case True
  then show ?thesis using assms(1) by (auto simp: ws_union_def)
next
  case False
  obtain f ends where r: "fold union_add ms (fsm_with_states 1, [False]) = (f, ends)" by force
  have u: "ws_union ms = \<lparr> ws_fsm = f, ws_start = 0, ws_ends = ends, ws_is_dfa = False \<rparr>"
    using False assms(3) r by (auto simp: ws_union_def split: list.splits)
  have row: "fsm_row (fsm_with_states 1) s = []" for s by (simp add: fsm_with_states_def fsm_row_def)
  then have "union_inv (fsm_with_states 1) [False] {}"
    by (simp add: union_inv_def fsm_wf_rows fsm_trans_def row) (simp add: fsm_with_states_def fsm_num_states_def)
  from union_fold_inv [OF this assms(1) _ r] assms(2)
  have "union_inv f ends (\<Union>m\<in>set ms. lang_of m)" by (simp add: fsm_with_states_def)
  then show ?thesis by (auto simp: union_inv_def u ws_wf_def ws_num_states_def lang_of_def is_end_state_def)
qed

subsection \<open>Concatenation\<close>

lemma fold_marks:
  "length (fold (\<lambda>e ends. if P e then ends[h e := True] else ends) es ends) = length ends"
  "t < length ends \<Longrightarrow> fold (\<lambda>e ends. if P e then ends[h e := True] else ends) es ends ! t
     \<longleftrightarrow> ends ! t \<or> (\<exists>e\<in>set es. P e \<and> h e = t)"
proof -
  show len: "length (fold (\<lambda>e ends. if P e then ends[h e := True] else ends) es ends) = length ends" for ends
    by (induction es arbitrary: ends) auto
  show "t < length ends \<Longrightarrow> fold (\<lambda>e ends. if P e then ends[h e := True] else ends) es ends ! t
     \<longleftrightarrow> ends ! t \<or> (\<exists>e\<in>set es. P e \<and> h e = t)"
  proof (induction es arbitrary: ends)
    case (Cons e es)
    then show ?case by (cases "h e = t") (auto simp: nth_list_update)
  qed simp
qed

text \<open>What the loop of \<open>concat\<close> has built: from the start, the words of the pieces so far lead to
  the accepting states of the last piece.\<close>

definition concat_inv :: "fsm \<Rightarrow> nat \<Rightarrow> nat list \<Rightarrow> sym list set \<Rightarrow> bool" where
  "concat_inv f start P L \<longleftrightarrow> fsm_wf f \<and> start < fsm_num_states f \<and> (\<forall>p\<in>set P. p < fsm_num_states f)
     \<and> L = {w. \<exists>p\<in>set P. path (fsm_trans f) start w p}"

definition shifted_ends :: "nat \<Rightarrow> fsm_wse \<Rightarrow> nat list" where
  "shifted_ends n m = map (\<lambda>e. e + n) (filter (is_end_state m) [0..<ws_num_states m])"

lemma set_shifted_ends: "set (shifted_ends n m) = {e + n | e. e < ws_num_states m \<and> is_end_state m e}"
  by (auto simp: shifted_ends_def)

lemma concat_first:
  assumes sub: "ws_wf sub" and f: "f = fst (fsm_add_fsm (fsm_with_states 0) (ws_fsm sub))"
  shows "concat_inv f (ws_start sub) (shifted_ends 0 sub) (lang_of sub)"
    and "fs_aux f = fs_aux (ws_fsm sub)" and "fsm_num_states f = ws_num_states sub"
proof -
  have m: "fsm_wf (ws_fsm sub)" "ws_start sub < ws_num_states sub" "length (ws_ends sub) = ws_num_states sub"
    using sub by (auto simp: ws_wf_def)
  have zero: "fsm_wf (fsm_with_states 0)" "fsm_num_states (fsm_with_states 0) = 0" "fs_aux (fsm_with_states 0) = []"
    by (simp_all add: fsm_wf_def fsm_with_states_def fsm_num_states_def)
  then have fits: "aux_fits (fsm_with_states 0) (ws_fsm sub)" using m(1) by (simp add: aux_fits_def fsm_wf_def)
  have T: "fsm_trans f = fsm_trans (ws_fsm sub)"
    using trans_add_fsm [OF zero(1) m(1) fits] zero(2) by (simp add: fun_eq_iff f)
  show n: "fsm_num_states f = ws_num_states sub" by (simp add: f zero ws_num_states_def)
  show "fs_aux f = fs_aux (ws_fsm sub)" by (simp add: f zero)
  have "fsm_wf f" unfolding f by (rule wf_add_fsm [OF zero(1) m(1) fits])
  then show "concat_inv f (ws_start sub) (shifted_ends 0 sub) (lang_of sub)"
    using m by (auto simp: concat_inv_def n T lang_of_def set_shifted_ends)
qed

lemma concat_next:
  assumes inv: "concat_inv f start P L" and sub: "ws_wf sub" and fits: "aux_fits f (ws_fsm sub)"
    and n: "n = fsm_num_states f"
    and f2: "f2 = fold (\<lambda>e f. fsm_add_epsilon_edge f e (ws_start sub + n)) P (fst (fsm_add_fsm f (ws_fsm sub)))"
  shows "concat_inv f2 start (shifted_ends n sub) (lang_conc L (lang_of sub))"
    and "fs_aux f2 = fs_aux f @ fs_aux (ws_fsm sub)" and "fsm_num_states f2 = n + ws_num_states sub"
proof -
  define f1 where "f1 = fst (fsm_add_fsm f (ws_fsm sub))"
  have f: "fsm_wf f" "start < n" "\<forall>p\<in>set P. p < n" and L: "L = {w. \<exists>p\<in>set P. path (fsm_trans f) start w p}"
    using inv by (auto simp: concat_inv_def n)
  have m: "fsm_wf (ws_fsm sub)" "ws_start sub < ws_num_states sub" "length (ws_ends sub) = ws_num_states sub"
    using sub by (auto simp: ws_wf_def)
  have nums: "fsm_num_states f1 = n + ws_num_states sub" "fs_aux f1 = fs_aux f @ fs_aux (ws_fsm sub)"
    by (simp_all add: f1_def n ws_num_states_def)
  have wf1: "fsm_wf f1" unfolding f1_def by (rule wf_add_fsm [OF f(1) m(1) fits])
  have f2: "fsm_wf f2 \<and> fsm_num_states f2 = fsm_num_states f1 \<and> fs_aux f2 = fs_aux f1 \<and>
      (fsm_trans f2 s l t \<longleftrightarrow> fsm_trans f1 s l t \<or> s \<in> set P \<and> s < fsm_num_states f1 \<and> t = ws_start sub + n \<and> l = None)" for s l t
    using add_epsilons [of f1 "ws_start sub + n" "\<lambda>_. True" P s l t] wf1 m(2) nums(1)
    unfolding f2 f1_def [symmetric] by simp
  have T': "fsm_trans f2 s l t \<longleftrightarrow> s < n \<and> fsm_trans f s l t
      \<or> (\<exists>s' t'. s = s' + n \<and> t = t' + n \<and> fsm_trans (ws_fsm sub) s' l t')
      \<or> s \<in> set P \<and> t = ws_start sub + n \<and> l = None" for s l t
    using f2 f(3) nums(1) trans_add_fsm [OF f(1) m(1) fits] unfolding f1_def n by fastforce
  have paths: "path (fsm_trans f2) start w t \<longleftrightarrow> t < n \<and> path (fsm_trans f) start w t
      \<or> (\<exists>u v p t'. w = u @ v \<and> p \<in> set P \<and> path (fsm_trans f) start u p \<and> t = t' + n
           \<and> path (fsm_trans (ws_fsm sub)) (ws_start sub) v t')" for w t
    by (rule path_splice_old [OF T']) (use f trans_range trans_wf [OF f(1)] in \<open>auto simp: n\<close>)
  have "lang_conc L (lang_of sub) = {w. \<exists>p\<in>set (shifted_ends n sub). path (fsm_trans f2) start w p}"
    unfolding L lang_of_def lang_conc_def paths set_shifted_ends by (auto, blast)
  then show "concat_inv f2 start (shifted_ends n sub) (lang_conc L (lang_of sub))"
    using f2 nums f by (auto simp: concat_inv_def set_shifted_ends)
  show "fs_aux f2 = fs_aux f @ fs_aux (ws_fsm sub)" "fsm_num_states f2 = n + ws_num_states sub" using f2 nums by auto
qed

text \<open>One turn of the loop, in the terms of the invariant.\<close>

lemma concat_add_cases:
  assumes "cc_fsm c = f" and sub: "ws_wf sub" and n: "n = fsm_num_states f"
    and f2: "f2 = (if i = 0 then fst (fsm_add_fsm f (ws_fsm sub))
      else fold (\<lambda>e f. fsm_add_epsilon_edge f e (ws_start sub + n)) (cc_previous c) (fst (fsm_add_fsm f (ws_fsm sub))))"
    and start: "start = (if i = 0 then ws_start sub + n else cc_start c)"
  shows "cc_fsm (concat_add final (i, sub) c) = f2" "cc_start (concat_add final (i, sub) c) = start"
    "i \<noteq> final \<Longrightarrow> cc_previous (concat_add final (i, sub) c) = shifted_ends n sub"
    "length (cc_ends (concat_add i (i, sub) c)) = fsm_num_states f2"
    "t < fsm_num_states f2 \<Longrightarrow> cc_ends (concat_add i (i, sub) c) ! t \<longleftrightarrow> t \<in> set (shifted_ends n sub)"
proof -
  obtain f1 mapping where r: "fsm_add_fsm f (ws_fsm sub) = (f1, mapping)" by force
  then have mapping: "mapping = map (\<lambda>i. i + n) [0..<ws_num_states sub]"
    using fsm_add_fsm_frame(3) [of f "ws_fsm sub"] by (simp_all add: n ws_num_states_def)
  have s: "mapping ! ws_start sub = ws_start sub + n" using sub by (simp add: mapping ws_wf_def)
  have prev: "map (\<lambda>e. mapping ! e) (filter (is_end_state sub) [0..<ws_num_states sub]) = shifted_ends n sub"
    by (simp add: shifted_ends_def mapping)
  show "cc_fsm (concat_add final (i, sub) c) = f2" "cc_start (concat_add final (i, sub) c) = start"
    "i \<noteq> final \<Longrightarrow> cc_previous (concat_add final (i, sub) c) = shifted_ends n sub"
    "length (cc_ends (concat_add i (i, sub) c)) = fsm_num_states f2"
    by (simp_all add: concat_add_def assms(1) r Let_def s prev f2 start fold_marks)
  have ends: "cc_ends (concat_add i (i, sub) c) = fold (\<lambda>e ends. if is_end_state sub e then ends[mapping ! e := True] else ends)
      [0..<ws_num_states sub] (replicate (fsm_num_states f2) False)"
    by (simp add: concat_add_def assms(1) r Let_def s f2)
  assume t: "t < fsm_num_states f2"
  then show "cc_ends (concat_add i (i, sub) c) ! t \<longleftrightarrow> t \<in> set (shifted_ends n sub)"
    unfolding ends set_shifted_ends by (auto simp: fold_marks(2) mapping)
qed

lemma concat_fold:
  assumes "concat_inv (cc_fsm c) (cc_start c) (cc_previous c) L" and "0 < i" and "\<forall>m\<in>set ms. ws_wf m" and "ms \<noteq> []"
    and "length (fs_aux (cc_fsm c)) + aux_sum ms < 32768" and final: "final = i + length ms - 1"
    and c': "c' = fold (concat_add final) (enumerate i ms) c"
  shows "fsm_wf (cc_fsm c') \<and> cc_start c' < fsm_num_states (cc_fsm c') \<and> length (cc_ends c') = fsm_num_states (cc_fsm c')
    \<and> lang_conc L (lang_concs (map lang_of ms)) = {w. \<exists>t < length (cc_ends c'). path (fsm_trans (cc_fsm c')) (cc_start c') w t \<and> cc_ends c' ! t}"
  using assms
proof (induction ms arbitrary: i c L)
  case (Cons m ms)
  define f2 where "f2 = fold (\<lambda>e f. fsm_add_epsilon_edge f e (ws_start m + fsm_num_states (cc_fsm c))) (cc_previous c)
    (fst (fsm_add_fsm (cc_fsm c) (ws_fsm m)))"
  let ?c = "concat_add final (i, m) c" and ?P = "shifted_ends (fsm_num_states (cc_fsm c)) m"
  have m: "ws_wf m" and fits: "aux_fits (cc_fsm c) (ws_fsm m)" using Cons.prems by (simp_all add: aux_fits_def)
  note nxt = concat_next [OF Cons.prems(1) m fits refl f2_def]
  have i: "f2 = (if i = 0 then fst (fsm_add_fsm (cc_fsm c) (ws_fsm m)) else f2)"
    "cc_start c = (if i = 0 then ws_start m + fsm_num_states (cc_fsm c) else cc_start c)" using Cons.prems(2) by simp_all
  note turn = concat_add_cases [OF refl m refl i(1) [unfolded f2_def] i(2)]
  show ?case
  proof (cases "ms = []")
    case True
    with Cons.prems have "final = i" "c' = concat_add i (i, m) c" by simp_all
    with turn [folded f2_def] nxt have "cc_fsm c' = f2" "cc_start c' = cc_start c" "length (cc_ends c') = fsm_num_states f2"
      "\<And>t. t < fsm_num_states f2 \<Longrightarrow> cc_ends c' ! t \<longleftrightarrow> t \<in> set ?P" by simp_all
    with nxt(1) show ?thesis by (auto simp: concat_inv_def True lang_conc_def)
  next
    case False
    with Cons.prems(6) have "i \<noteq> final" by simp
    with turn [folded f2_def] have c: "cc_fsm ?c = f2" "cc_start ?c = cc_start c" "cc_previous ?c = ?P" by simp_all
    have "fsm_wf (cc_fsm c') \<and> cc_start c' < fsm_num_states (cc_fsm c') \<and> length (cc_ends c') = fsm_num_states (cc_fsm c')
      \<and> lang_conc (lang_conc L (lang_of m)) (lang_concs (map lang_of ms))
        = {w. \<exists>t < length (cc_ends c'). path (fsm_trans (cc_fsm c')) (cc_start c') w t \<and> cc_ends c' ! t}"
    proof (rule Cons.IH [of ?c _ "Suc i"])
      show "concat_inv (cc_fsm ?c) (cc_start ?c) (cc_previous ?c) (lang_conc L (lang_of m))" unfolding c by (rule nxt(1))
      show "length (fs_aux (cc_fsm ?c)) + aux_sum ms < 32768" unfolding c nxt(2) using Cons.prems(5) by simp
    qed (use False Cons.prems in simp_all)
    then show ?thesis by (simp add: lang_conc_assoc)
  qed
qed simp

lemma lang_ws_concat:
  assumes "\<forall>m\<in>set ms. ws_wf m" and "aux_sum ms < 32768" and "ms \<noteq> []"
  shows "ws_wf (ws_concat ms) \<and> lang_of (ws_concat ms) = lang_concs (map lang_of ms)"
proof -
  obtain m ms' where ms: "ms = m # ms'" using assms(3) by (cases ms) auto
  show ?thesis
  proof (cases "ms' = []")
    case True
    then show ?thesis using assms(1) by (auto simp: ws_concat_def ms lang_conc_def)
  next
    case False
    define c0 where "c0 = \<lparr> cc_fsm = fsm_with_states 0, cc_start = 0, cc_ends = [], cc_previous = [] \<rparr>"
    define f where "f = fst (fsm_add_fsm (fsm_with_states 0) (ws_fsm m))"
    let ?c = "concat_add (length ms') (0, m) c0"
    define c' where "c' = fold (concat_add (length ms')) (enumerate 1 ms') ?c"
    have m: "ws_wf m" using assms(1) ms by simp
    note fst = concat_first [OF m f_def]
    have c: "cc_fsm ?c = f" "cc_start ?c = ws_start m" "cc_previous ?c = shifted_ends 0 m"
      using concat_add_cases(1-3) [of c0 _ m 0 _ 0 _ "length ms'"] m False by (auto simp: c0_def f_def fsm_num_states_def fsm_with_states_def)
    have u: "ws_concat ms = \<lparr> ws_fsm = cc_fsm c', ws_start = cc_start c', ws_ends = cc_ends c', ws_is_dfa = False \<rparr>"
      using False by (auto simp: ws_concat_def ms c'_def c0_def Let_def split: list.splits)
    have "fsm_wf (cc_fsm c') \<and> cc_start c' < fsm_num_states (cc_fsm c') \<and> length (cc_ends c') = fsm_num_states (cc_fsm c')
      \<and> lang_conc (lang_of m) (lang_concs (map lang_of ms'))
        = {w. \<exists>t < length (cc_ends c'). path (fsm_trans (cc_fsm c')) (cc_start c') w t \<and> cc_ends c' ! t}"
    proof (rule concat_fold [OF _ _ _ False _ _ c'_def])
      show "concat_inv (cc_fsm ?c) (cc_start ?c) (cc_previous ?c) (lang_of m)" unfolding c by (rule fst(1))
      show "length (fs_aux (cc_fsm ?c)) + aux_sum ms' < 32768" unfolding c fst(2) using assms(2) ms by simp
    qed (use assms ms in simp_all)
    then have "ws_wf (ws_concat ms)" "lang_of (ws_concat ms) = lang_conc (lang_of m) (lang_concs (map lang_of ms'))"
      unfolding u by (simp_all add: ws_wf_def ws_num_states_def is_end_state_def lang_of_def [of "\<lparr> ws_fsm = _, ws_start = _, ws_ends = _, ws_is_dfa = _ \<rparr>"] cong: conj_cong)
    then show ?thesis by (simp add: ms)
  qed
qed

end
