(* ===== verification/Fsm_Steps.thy ===== *)
theory Fsm_Steps
  imports Fsm_Ops
begin

text \<open>
  Machines with word-labelled steps: the edges of a machine and a set of extra steps, each of which
  reads a whole word. Code that grows a machine between two states is described by the step it adds
  (\<open>adds\<close>), and a fresh intermediate state is eliminated by composing the steps into and out of it.
\<close>

inductive wpath :: "(nat \<Rightarrow> 'a list \<Rightarrow> nat \<Rightarrow> bool) \<Rightarrow> nat \<Rightarrow> 'a list \<Rightarrow> nat \<Rightarrow> bool" for S where
  wpath_refl [intro!]: "wpath S s [] s"
| wpath_step: "S s u r \<Longrightarrow> wpath S r v t \<Longrightarrow> wpath S s (u @ v) t"

lemma wpath_one: "S s u t \<Longrightarrow> wpath S s u t"
  using wpath_step [of S s u t "[]" t] by auto

lemma wpath_trans: "wpath S s u r \<Longrightarrow> wpath S r v t \<Longrightarrow> wpath S s (u @ v) t"
  by (induction rule: wpath.induct) (auto intro: wpath_step)

lemma wpath_mono: "wpath S s w t \<Longrightarrow> (\<And>s u t. S s u t \<Longrightarrow> wpath S' s u t) \<Longrightarrow> wpath S' s w t"
  by (induction rule: wpath.induct) (auto intro: wpath_trans)

text \<open>The state \<open>q\<close> has steps only from \<open>a\<close> and only to \<open>b\<close>.\<close>

lemma wpath_eliminate:
  assumes S1: "\<And>s u t. S1 s u t \<longleftrightarrow> S0 s u t \<or> s = a \<and> u \<in> A \<and> t = q \<or> s = q \<and> u \<in> B \<and> t = b"
    and S2: "\<And>s u t. S2 s u t \<longleftrightarrow> S0 s u t \<or> s = a \<and> u \<in> lang_conc A B \<and> t = b"
    and S0: "\<And>s u t. S0 s u t \<Longrightarrow> s \<noteq> q \<and> t \<noteq> q" and q: "a \<noteq> q" "b \<noteq> q" "s \<noteq> q" "t \<noteq> q"
  shows "wpath S1 s w t \<longleftrightarrow> wpath S2 s w t"
proof
  assume "wpath S1 s w t"
  then have "t \<noteq> q \<longrightarrow> (s \<noteq> q \<longrightarrow> wpath S2 s w t) \<and> (s = q \<longrightarrow> (\<exists>u v. w = u @ v \<and> u \<in> B \<and> wpath S2 b v t))"
  proof (induction rule: wpath.induct)
    case (wpath_step s u r v t)
    consider "S0 s u r" | "s = a" "u \<in> A" "r = q" | "s = q" "u \<in> B" "r = b" using wpath_step.hyps(1) S1 by blast
    then show ?case
    proof cases
      case 1
      with wpath_step.IH S0 [OF 1] S2 show ?thesis by (auto intro: wpath.wpath_step)
    next
      case 2
      show ?thesis
      proof (intro impI conjI)
        assume "t \<noteq> q"
        with wpath_step.IH 2 obtain x y where xy: "v = x @ y" "x \<in> B" "wpath S2 b y t" by blast
        with 2 have "S2 s (u @ x) b" by (auto simp: S2 lang_conc_def)
        from wpath.wpath_step [OF this xy(3)] show "wpath S2 s (u @ v) t" by (simp add: xy)
      qed (use 2 q in auto)
    next
      case 3
      with wpath_step.IH q show ?thesis by blast
    qed
  qed blast
  with q show "wpath S2 s w t" by simp
next
  assume "wpath S2 s w t"
  then show "wpath S1 s w t"
  proof (rule wpath_mono)
    fix s u t
    assume "S2 s u t"
    then consider "S0 s u t" | x y where "s = a" "u = x @ y" "x \<in> A" "y \<in> B" "t = b"
      unfolding S2 lang_conc_def by blast
    then show "wpath S1 s u t"
    proof cases
      case 2
      then have "S1 s x q" "S1 q y t" by (simp_all add: S1)
      then show ?thesis unfolding 2(2) by (blast intro: wpath.wpath_step wpath_one)
    qed (simp add: S1 wpath_one)
  qed
qed

subsection \<open>The steps of a machine\<close>

type_synonym macros = "(nat \<times> sym list \<times> nat) set"

definition steps :: "fsm \<Rightarrow> macros \<Rightarrow> nat \<Rightarrow> sym list \<Rightarrow> nat \<Rightarrow> bool" where
  "steps f M s u t \<longleftrightarrow> (u = [] \<and> fsm_trans f s None t) \<or> (\<exists>a. u = [a] \<and> fsm_trans f s (Some a) t) \<or> (s, u, t) \<in> M"

definition seg :: "nat \<Rightarrow> sym list set \<Rightarrow> nat \<Rightarrow> macros" where
  "seg a R b = {(a, u, b) | u. u \<in> R}"

lemma path_wpath: "path (fsm_trans f) s w t \<longleftrightarrow> wpath (steps f {}) s w t"
proof
  show "path (fsm_trans f) s w t \<Longrightarrow> wpath (steps f {}) s w t"
  proof (induction rule: path.induct)
    case (path_eps s u w t)
    have "steps f {} s [] u" using path_eps.hyps(1) by (simp add: steps_def)
    from wpath_step [OF this path_eps.IH] show ?case by simp
  next
    case (path_sym s a u w t)
    have "steps f {} s [a] u" using path_sym.hyps(1) by (simp add: steps_def)
    from wpath_step [OF this path_sym.IH] show ?case by simp
  qed blast
  show "wpath (steps f {}) s w t \<Longrightarrow> path (fsm_trans f) s w t"
    by (induction rule: wpath.induct) (auto simp: steps_def intro: path_eps path_sym)
qed

lemma steps_extra: "steps f (M \<union> seg a R b) s u t \<longleftrightarrow> steps f M s u t \<or> s = a \<and> u \<in> R \<and> t = b"
  by (auto simp: steps_def seg_def)

lemma steps_add_state [simp]: "steps (fsm_add_state f) M = steps f M"
  by (simp add: steps_def fun_eq_iff)

definition byte_range :: "int \<Rightarrow> int \<Rightarrow> sym list set" where
  "byte_range lo hi = {[Byte b] | b. lo \<le> uint b \<and> uint b \<le> hi}"

lemma reads_range:
  "0 \<le> lo \<Longrightarrow> reads f (FsmEdge lo hi t) l \<longleftrightarrow> (\<exists>b. l = Some (Byte b) \<and> lo \<le> uint b \<and> uint b \<le> hi)"
  by (cases l rule: option.exhaust, simp add: is_epsilon_def edge_types, rename_tac x, case_tac x)
    (auto simp: is_char_range_def is_rule_ref_def is_repeat_ref_def edge_types)

lemma steps_add_edge:
  assumes "0 \<le> lo" and "a < fsm_num_states f"
  shows "steps (fsm_add_edge f a b lo hi) M = steps f (M \<union> seg a (byte_range lo hi) b)"
  using assms by (auto simp: fun_eq_iff steps_def trans_add_edge reads_range seg_def byte_range_def simp del: reads.simps)

subsection \<open>What growing a machine adds\<close>

definition within :: "nat \<Rightarrow> macros \<Rightarrow> bool" where
  "within n M \<longleftrightarrow> (\<forall>(s, u, t)\<in>M. s < n \<and> t < n)"

definition adds :: "fsm \<Rightarrow> fsm \<Rightarrow> nat \<Rightarrow> sym list set \<Rightarrow> nat \<Rightarrow> bool" where
  "adds f f' a R b \<longleftrightarrow> fsm_num_states f \<le> fsm_num_states f' \<and> fsm_wf f' \<and> fs_aux f' = fs_aux f
     \<and> (\<forall>M s w t. within (fsm_num_states f) M \<longrightarrow> s < fsm_num_states f \<longrightarrow> t < fsm_num_states f \<longrightarrow>
          wpath (steps f' M) s w t = wpath (steps f (M \<union> seg a R b)) s w t)"

lemma within_seg: "within n M \<Longrightarrow> a < n \<Longrightarrow> b < n \<Longrightarrow> within n (M \<union> seg a R b)"
  by (auto simp: within_def seg_def)

lemma within_mono: "within n M \<Longrightarrow> n \<le> m \<Longrightarrow> within m M"
  by (auto simp: within_def)

lemma adds_edge:
  "fsm_wf f \<Longrightarrow> a < fsm_num_states f \<Longrightarrow> b < fsm_num_states f \<Longrightarrow> 0 \<le> lo \<Longrightarrow> lo \<le> hi \<Longrightarrow> hi \<le> 255 \<Longrightarrow>
     adds f (fsm_add_edge f a b lo hi) a (byte_range lo hi) b"
  by (auto simp: adds_def steps_add_edge wf_add_edge REPEAT_REF_def)

lemma adds_none: "fsm_wf f \<Longrightarrow> adds f f a {} b"
  by (simp add: adds_def seg_def)

lemma adds_both:
  assumes "adds f f1 a R1 b" and "adds f1 f2 a R2 b" and "a < fsm_num_states f" "b < fsm_num_states f"
  shows "adds f f2 a (R1 \<union> R2) b"
proof -
  have "seg a R1 b \<union> seg a R2 b = seg a (R1 \<union> R2) b" by (auto simp: seg_def)
  then have eq: "M \<union> seg a R2 b \<union> seg a R1 b = M \<union> seg a (R1 \<union> R2) b" for M by blast
  show ?thesis unfolding adds_def
  proof (intro conjI allI impI)
    fix M s w t
    assume M: "within (fsm_num_states f) M" and st: "s < fsm_num_states f" "t < fsm_num_states f"
    have le: "fsm_num_states f \<le> fsm_num_states f1" using assms(1) by (simp add: adds_def)
    have "wpath (steps f2 M) s w t = wpath (steps f1 (M \<union> seg a R2 b)) s w t"
      using assms(2) within_mono [OF M le] st le by (simp add: adds_def)
    also have "\<dots> = wpath (steps f (M \<union> seg a R2 b \<union> seg a R1 b)) s w t"
      using assms(1) within_seg [OF M assms(3,4)] st by (simp add: adds_def)
    finally show "wpath (steps f2 M) s w t = wpath (steps f (M \<union> seg a (R1 \<union> R2) b)) s w t" by (simp only: eq)
  qed (use assms(1,2) in \<open>auto simp: adds_def\<close>)
qed

text \<open>A fresh state, an edge into it, and what is then added from it to \<open>b\<close>.\<close>

lemma adds_via:
  assumes f: "fsm_wf f" "a < fsm_num_states f" "b < fsm_num_states f" and lohi: "0 \<le> lo" "lo \<le> hi" "hi \<le> 255"
    and q: "q = fsm_num_states f"
    and rest: "adds (fsm_add_edge (fsm_add_state f) a q lo hi) f' q R b"
  shows "adds f f' a (lang_conc (byte_range lo hi) R) b"
proof -
  let ?f = "fsm_add_edge (fsm_add_state f) a q lo hi"
  have n: "fsm_num_states ?f = Suc q" by (simp add: q)
  show ?thesis unfolding adds_def
  proof (intro conjI allI impI)
    fix M s w t
    assume M: "within (fsm_num_states f) M" and st: "s < fsm_num_states f" "t < fsm_num_states f"
    have "wpath (steps f' M) s w t = wpath (steps ?f (M \<union> seg q R b)) s w t"
      using rest within_mono [OF M, of "Suc q"] st n q by (simp add: adds_def)
    also have "steps ?f (M \<union> seg q R b) = steps f (M \<union> seg q R b \<union> seg a (byte_range lo hi) q)"
      using f lohi by (simp add: steps_add_edge q)
    also have "wpath (steps f (M \<union> seg q R b \<union> seg a (byte_range lo hi) q)) s w t
        = wpath (steps f (M \<union> seg a (lang_conc (byte_range lo hi) R) b)) s w t"
    proof (rule wpath_eliminate [where ?S0.0 = "steps f M" and a = a and q = q and b = b])
      show "steps f M s u t \<Longrightarrow> s \<noteq> q \<and> t \<noteq> q" for s u t
        using trans_range trans_wf [OF f(1)] M unfolding q by (fastforce simp: steps_def within_def)
    qed (use f st q in \<open>auto simp: steps_extra\<close>)
    finally show "wpath (steps f' M) s w t = wpath (steps f (M \<union> seg a (lang_conc (byte_range lo hi) R) b)) s w t" .
  qed (use rest n q in \<open>auto simp: adds_def\<close>)
qed

text \<open>A machine of no edges to which steps between two states were added.\<close>

lemma wpath_seg_neq:
  assumes "a \<noteq> b" and "\<And>s u t. S s u t \<longleftrightarrow> s = a \<and> u \<in> R \<and> t = b"
  shows "wpath S a w b \<longleftrightarrow> w \<in> R"
proof
  have "wpath S s w t \<Longrightarrow> t = b \<Longrightarrow> (s = a \<longrightarrow> w \<in> R) \<and> (s = b \<longrightarrow> w = [])" for s t
    by (induction rule: wpath.induct) (use assms in auto)
  then show "wpath S a w b \<Longrightarrow> w \<in> R" by blast
  show "w \<in> R \<Longrightarrow> wpath S a w b" using assms by (blast intro: wpath_one)
qed

lemma wpath_seg_eq:
  assumes "\<And>s u t. S s u t \<longleftrightarrow> s = a \<and> u \<in> R \<and> t = a"
  shows "wpath S a w a \<longleftrightarrow> w \<in> lang_star R"
proof
  have "wpath S s w t \<Longrightarrow> s = a \<Longrightarrow> w \<in> lang_star R" for s t
    by (induction rule: wpath.induct) (use assms in \<open>auto intro: lang_star_Cons\<close>)
  then show "wpath S a w a \<Longrightarrow> w \<in> lang_star R" by blast
  assume "w \<in> lang_star R"
  then show "wpath S a w a" by (induction rule: lang_star_induct) (use assms in \<open>auto intro: wpath_step\<close>)
qed

end
