(* ===== verification/Utf8.thy ===== *)
theory Utf8
  imports Prelude
begin

text \<open>
  UTF-8 and Latin-1 coding and the escapes of grammar literals (crates/grammar/src/support:
  encoding.rs, escape.rs). A \<open>TCodepoint\<close> is an \<open>i32\<close>, here an integer; the encoder reads its bits as a
  \<open>u32\<close>. Errors are the negative sentinels the code returns in-band.
\<close>

unbundle bit_operations_syntax

subsection \<open>Coding\<close>

definition INVALID_UTF8 :: int where "INVALID_UTF8 = - 10"
definition INVALID_ESCAPE :: int where "INVALID_ESCAPE = - 11"
definition INVALID_LATIN1 :: int where "INVALID_LATIN1 = - 12"

definition char_to_utf8 :: "int \<Rightarrow> byte list" where
  "char_to_utf8 codepoint =
    (let cp = word_of_int codepoint :: 32 word in
     if cp \<le> 0x7F then [ucast cp]
     else if cp \<le> 0x7FF then
       [0xC0 OR ucast (drop_bit 6 cp AND 0x1F), 0x80 OR ucast (cp AND 0x3F)]
     else if cp \<le> 0xFFFF then
       [0xE0 OR ucast (drop_bit 12 cp AND 0x0F), 0x80 OR ucast (drop_bit 6 cp AND 0x3F), 0x80 OR ucast (cp AND 0x3F)]
     else
       [0xF0 OR ucast (drop_bit 18 cp AND 0x07), 0x80 OR ucast (drop_bit 12 cp AND 0x3F),
        0x80 OR ucast (drop_bit 6 cp AND 0x3F), 0x80 OR ucast (cp AND 0x3F)])"

text \<open>The table of sequence lengths by first byte, and the mask of the first byte's code point bits.\<close>

definition utf8_bytes :: "byte \<Rightarrow> int" where
  "utf8_bytes b = (if b < 0x80 then 1 else if b < 0xC0 then - 1 else if b < 0xE0 then 2
     else if b < 0xF0 then 3 else if b < 0xF8 then 4 else - 1)"

definition first_byte_mask :: "byte list" where
  "first_byte_mask = [0x00, 0x7F, 0x1F, 0x0F, 0x07]"

definition handle_utf8_first_byte :: "byte \<Rightarrow> bool \<times> nat \<times> int" where
  "handle_utf8_first_byte b =
    (let n = utf8_bytes b in
     if n = - 1 then (False, 0, 0) else (True, nat n, uint (b AND first_byte_mask ! nat n)))"

text \<open>The loop over the continuation bytes, \<open>None\<close> for \<open>accepted = false\<close>.\<close>

fun utf8_continue :: "byte list \<Rightarrow> nat list \<Rightarrow> int \<Rightarrow> int option" where
  "utf8_continue utf8 [] res = Some res"
| "utf8_continue utf8 (i # is) res =
    (if length utf8 \<le> i \<or> utf8 ! i = 0 \<or> utf8 ! i AND 0xC0 \<noteq> 0x80 then None
     else utf8_continue utf8 is (push_bit 6 res OR uint (utf8 ! i AND 0x3F)))"

definition parse_next_utf8 :: "byte list \<Rightarrow> int \<times> nat" where
  "parse_next_utf8 utf8 =
    (case utf8 of
       [] \<Rightarrow> (INVALID_UTF8, 0)
     | b # _ \<Rightarrow>
         (case handle_utf8_first_byte b of
            (accepted, num_bytes, res) \<Rightarrow>
              (case (if accepted then utf8_continue utf8 [1..<num_bytes] res else None) of
                 None \<Rightarrow> (INVALID_UTF8, 0)
               | Some res \<Rightarrow> (res, num_bytes))))"

lemma parse_next_utf8_consumes: "parse_next_utf8 (b # bs) = (cp, n) \<Longrightarrow> cp \<noteq> INVALID_UTF8 \<Longrightarrow> 0 < n"
  by (auto simp: parse_next_utf8_def handle_utf8_first_byte_def utf8_bytes_def Let_def split: if_splits option.splits)

function parse_utf8_loop :: "bool \<Rightarrow> byte list \<Rightarrow> int list \<Rightarrow> int list" where
  "parse_utf8_loop preserve [] codepoints = codepoints"
| "parse_utf8_loop preserve (b # bs) codepoints =
    (if b = 0 then codepoints
     else case parse_next_utf8 (b # bs) of
       (codepoint, num_bytes) \<Rightarrow>
         if codepoint = INVALID_UTF8
         then (if preserve then parse_utf8_loop preserve bs (vec_push codepoints (uint b)) else [INVALID_UTF8])
         else parse_utf8_loop preserve (drop num_bytes (b # bs)) (vec_push codepoints codepoint))"
  by pat_completeness auto
termination
  by (relation "measure (\<lambda>(_, bs, _). length bs)") (auto dest!: parse_next_utf8_consumes [OF sym])

definition parse_utf8 :: "byte list \<Rightarrow> bool \<Rightarrow> int list" where
  "parse_utf8 utf8 preserve_invalid_bytes = parse_utf8_loop preserve_invalid_bytes utf8 []"

definition hex_char_to_int :: "byte \<Rightarrow> int" where
  "hex_char_to_int c =
    (if 48 \<le> c \<and> c \<le> 57 then uint (c - 48)
     else if 97 \<le> c \<and> c \<le> 102 then uint (c - 97 + 10)
     else if 65 \<le> c \<and> c \<le> 70 then uint (c - 65 + 10)
     else - 1)"

fun latin1_to_bytes_loop :: "byte list \<Rightarrow> byte list \<Rightarrow> int + byte list" where
  "latin1_to_bytes_loop [] result = Inr result"
| "latin1_to_bytes_loop (c1 # rest) result =
    (if c1 < 0x80 then latin1_to_bytes_loop rest (vec_push result c1)
     else case rest of
       [] \<Rightarrow> Inl INVALID_LATIN1
     | c2 # rest' \<Rightarrow>
         if c2 AND 0xC0 \<noteq> 0x80 then Inl INVALID_LATIN1
         else let code = push_bit 6 (uint (c1 AND 0x1F)) OR uint (c2 AND 0x3F) in
           if \<not> (0x80 \<le> code \<and> code \<le> 0xFF) then Inl INVALID_LATIN1
           else latin1_to_bytes_loop rest' (vec_push result (word_of_int code)))"

definition latin1_to_bytes :: "byte list \<Rightarrow> int + byte list" where
  "latin1_to_bytes latin1 = latin1_to_bytes_loop latin1 []"

fun byte_to_latin1 :: "byte list \<Rightarrow> byte list" where
  "byte_to_latin1 [] = []"
| "byte_to_latin1 (b # bs) =
    (if b = 0 then []
     else if b \<le> 0x7F then b # byte_to_latin1 bs
     else (0xC0 OR drop_bit 6 b) # (0x80 OR (b AND 0x3F)) # byte_to_latin1 bs)"

subsection \<open>The bytes as numbers\<close>

lemma or_disjoint: "a AND b = 0 \<Longrightarrow> a OR b = a + b" for a b :: int
  using plus_and_or [of a b] by simp

lemma uint_and_mask: "uint (w AND mask k) = uint w mod 2 ^ k" for w :: "'a::len word"
  by (metis take_bit_eq_mask take_bit_eq_mod unsigned_take_bit_eq)

lemma byte_lt [simp]: "uint b < 256" for b :: byte
  using uint_bounded [of b] by simp

lemma byte_and [simp]:
  "uint (b AND 0x07) = uint b mod 8" "uint (b AND 0x0F) = uint b mod 16" "uint (b AND 0x1F) = uint b mod 32"
  "uint (b AND 0x3F) = uint b mod 64" "uint (b AND 0x7F) = uint b mod 128" for b :: "'a::len word"
  using uint_and_mask [of b 3] uint_and_mask [of b 4] uint_and_mask [of b 5] uint_and_mask [of b 6] uint_and_mask [of b 7]
  by (simp_all add: mask_numeral)

lemma uint_header:
  fixes h :: "'a::len word"
  assumes h: "h AND mask k = 0" and v: "0 \<le> uint v" "uint v < 2 ^ k"
  shows "uint (h OR v) = uint h + uint v"
proof -
  have "uint h AND mask k = uint (h AND mask k)"
    by (metis take_bit_eq_mask unsigned_take_bit_eq)
  then have "(uint h AND mask k) AND uint v = 0" by (simp add: h)
  moreover have "mask k AND uint v = uint v"
    using v by (simp add: and.commute [of "mask k"] take_bit_eq_mask [symmetric] take_bit_int_eq_self)
  ultimately have "uint h AND uint v = 0" by (simp only: and.assoc)
  then show ?thesis by (simp add: unsigned_or_eq or_disjoint)
qed

lemma uint_ucast_byte: "uint w < 256 \<Longrightarrow> uint (ucast w :: byte) = uint w" for w :: "'a::len word"
  by (simp add: unsigned_ucast_eq take_bit_int_eq_self)

lemma header_bits:
  fixes h :: byte and w :: "'a::len word"
  assumes h: "h AND mask k = 0" and k: "k \<le> 8"
  shows "uint (h OR ucast (w AND mask k)) = uint h + uint w mod 2 ^ k"
proof -
  have lt: "uint w mod 2 ^ k < 2 ^ k" by simp
  have "(2::int) ^ k \<le> 256" using power_increasing [OF k, of "2::int"] by simp
  then have "uint (w AND mask k) < 256" unfolding uint_and_mask using lt by linarith
  then have u: "uint (ucast (w AND mask k) :: byte) = uint w mod 2 ^ k"
    by (simp only: uint_ucast_byte uint_and_mask)
  show ?thesis using uint_header [OF h, of "ucast (w AND mask k)"] lt by (simp only: u) simp
qed

lemma headers [simp]:
  fixes w :: "'a::len word"
  shows "uint (0x80 OR ucast (w AND 0x3F) :: byte) = 128 + uint w mod 64"
    "uint (0xC0 OR ucast (w AND 0x1F) :: byte) = 192 + uint w mod 32"
    "uint (0xE0 OR ucast (w AND 0x0F) :: byte) = 224 + uint w mod 16"
    "uint (0xF0 OR ucast (w AND 0x07) :: byte) = 240 + uint w mod 8"
  using header_bits [where h = "0x80" and k = 6 and w = w] header_bits [where h = "0xC0" and k = 5 and w = w]
    header_bits [where h = "0xE0" and k = 4 and w = w] header_bits [where h = "0xF0" and k = 3 and w = w]
  by (simp_all add: mask_numeral)

lemma cont_bits: "b AND 0xC0 = 0x80 \<longleftrightarrow> 128 \<le> uint b \<and> uint b < 192" for b :: byte
proof -
  have "(uint b AND 192) AND (uint b AND 63) = 0"
    using and.left_commute [of "uint b" "192" "63"] by (simp add: and.assoc and.left_commute)
  then have "(uint b AND 192) + (uint b AND 63) = (uint b AND 192) OR (uint b AND 63)" by (rule or_disjoint [symmetric])
  also have "\<dots> = uint b AND mask 8" by (simp add: bit.conj_disj_distrib [symmetric] mask_numeral)
  also have "\<dots> = uint b" by (simp only: take_bit_eq_mask [symmetric]) (simp add: take_bit_int_eq_self)
  finally have "uint (b AND 0xC0) = uint b - uint (b AND 0x3F)" by (simp only: unsigned_and_eq) simp
  then have eq: "uint (b AND 0xC0) = uint b - uint b mod 64" by simp
  have "b AND 0xC0 = 0x80 \<longleftrightarrow> uint (b AND 0xC0) = 128" by (simp only: word_uint_eq_iff) simp
  also have "\<dots> \<longleftrightarrow> 128 \<le> uint b \<and> uint b < 192" unfolding eq by presburger
  finally show ?thesis .
qed

lemma word_less_nums:
  "(b < 0x80) = (uint b < 128)" "(b < 0xC0) = (uint b < 192)" "(b < 0xE0) = (uint b < 224)"
  "(b < 0xF0) = (uint b < 240)" "(b < 0xF8) = (uint b < 248)" "(b = 0) = (uint b = 0)" "(b \<le> 0x7F) = (uint b \<le> 127)" for b :: byte
  by (simp_all add: word_less_def word_le_def word_uint_eq_iff)

subsection \<open>Round trips\<close>

lemma shift_or: "0 \<le> y \<Longrightarrow> y < 64 \<Longrightarrow> push_bit 6 r OR y = r * 64 + y" for r y :: int
proof -
  assume y: "0 \<le> y" "y < 64"
  have "push_bit 6 r AND y = push_bit 6 r AND take_bit 6 y" using y by (simp add: take_bit_int_eq_self)
  also have "\<dots> = take_bit 6 (push_bit 6 r) AND y" by (simp only: take_bit_eq_mask and.assoc and.commute [of y])
  also have "\<dots> = 0" by (simp add: take_bit_push_bit)
  finally show ?thesis by (simp add: or_disjoint push_bit_eq_mult)
qed

lemma char_to_utf8_uints:
  assumes "0 \<le> c" and "c < 2097152"
  shows "map uint (char_to_utf8 c) =
    (if c < 128 then [c]
     else if c < 2048 then [192 + c div 64, 128 + c mod 64]
     else if c < 65536 then [224 + c div 4096, 128 + c div 64 mod 64, 128 + c mod 64]
     else [240 + c div 262144, 128 + c div 4096 mod 64, 128 + c div 64 mod 64, 128 + c mod 64])"
proof -
  define w where "w = (word_of_int c :: 32 word)"
  have w: "uint w = c" using assms by (simp add: w_def unsigned_of_int take_bit_int_eq_self)
  then have le: "w \<le> 0x7F \<longleftrightarrow> c < 128" "w \<le> 0x7FF \<longleftrightarrow> c < 2048" "w \<le> 0xFFFF \<longleftrightarrow> c < 65536"
    by (auto simp: word_le_def)
  have d: "uint (drop_bit 6 w) = c div 64" "uint (drop_bit 12 w) = c div 4096" "uint (drop_bit 18 w) = c div 262144"
    by (simp_all add: drop_bit_eq_div uint_div w)
  have "c div 64 mod 32 = c div 64" if "c < 2048" using that assms by simp
  moreover have "c div 4096 mod 16 = c div 4096" if "c < 65536" using that assms by simp
  moreover have "c div 262144 mod 8 = c div 262144" using assms by simp
  moreover have "c < 128 \<Longrightarrow> uint (ucast w :: byte) = c" using w by (simp add: uint_ucast_byte)
  ultimately show ?thesis
    using w by (simp add: char_to_utf8_def Let_def w_def [symmetric] le d)
qed

lemma utf8_bytes_uint:
  "utf8_bytes b = (if uint b < 128 then 1 else if uint b < 192 then - 1 else if uint b < 224 then 2
     else if uint b < 240 then 3 else if uint b < 248 then 4 else - 1)"
  by (simp add: utf8_bytes_def word_less_nums)

lemma first_byte_uint:
  "uint b < 128 \<Longrightarrow> handle_utf8_first_byte b = (True, 1, uint b)"
  "192 \<le> uint b \<Longrightarrow> uint b < 224 \<Longrightarrow> handle_utf8_first_byte b = (True, 2, uint b mod 32)"
  "224 \<le> uint b \<Longrightarrow> uint b < 240 \<Longrightarrow> handle_utf8_first_byte b = (True, 3, uint b mod 16)"
  "240 \<le> uint b \<Longrightarrow> uint b < 248 \<Longrightarrow> handle_utf8_first_byte b = (True, 4, uint b mod 8)"
  by (simp_all add: handle_utf8_first_byte_def utf8_bytes_uint first_byte_mask_def Let_def eval_nat_numeral)

lemma utf8_continue_step:
  "i < length u \<Longrightarrow> 128 \<le> uint (u ! i) \<Longrightarrow> uint (u ! i) < 192 \<Longrightarrow>
     utf8_continue u (i # is) res = utf8_continue u is (res * 64 + uint (u ! i) mod 64)"
  by (simp add: cont_bits word_less_nums shift_or)

text \<open>What the decoder makes of a first byte and its continuation bytes.\<close>

definition is_cont :: "byte \<Rightarrow> bool" where
  "is_cont b \<longleftrightarrow> 128 \<le> uint b \<and> uint b < 192"

lemma utf8_continue_all:
  assumes "\<forall>i\<in>set is. i < length u \<and> is_cont (u ! i)"
  shows "utf8_continue u is res = Some (fold (\<lambda>i r. r * 64 + uint (u ! i) mod 64) is res)"
  using assms by (induction "is" arbitrary: res) (auto simp: utf8_continue_step is_cont_def simp del: utf8_continue.simps(2))

lemma parse_sequence:
  "uint b0 < 128 \<Longrightarrow> parse_next_utf8 (b0 # rest) = (uint b0, 1)"
  "192 \<le> uint b0 \<Longrightarrow> uint b0 < 224 \<Longrightarrow> is_cont b1 \<Longrightarrow>
    parse_next_utf8 (b0 # b1 # rest) = (uint b0 mod 32 * 64 + uint b1 mod 64, 2)"
  "224 \<le> uint b0 \<Longrightarrow> uint b0 < 240 \<Longrightarrow> is_cont b1 \<Longrightarrow> is_cont b2 \<Longrightarrow>
    parse_next_utf8 (b0 # b1 # b2 # rest) = ((uint b0 mod 16 * 64 + uint b1 mod 64) * 64 + uint b2 mod 64, 3)"
  "240 \<le> uint b0 \<Longrightarrow> uint b0 < 248 \<Longrightarrow> is_cont b1 \<Longrightarrow> is_cont b2 \<Longrightarrow> is_cont b3 \<Longrightarrow>
    parse_next_utf8 (b0 # b1 # b2 # b3 # rest)
      = (((uint b0 mod 8 * 64 + uint b1 mod 64) * 64 + uint b2 mod 64) * 64 + uint b3 mod 64, 4)"
proof -
  have upt: "[Suc 0..<2] = [1]" "[Suc 0..<3] = [1, 2]" "[Suc 0..<4] = [1, 2, 3]" by (simp_all add: upt_rec)
  show "uint b0 < 128 \<Longrightarrow> parse_next_utf8 (b0 # rest) = (uint b0, 1)"
    by (simp add: parse_next_utf8_def first_byte_uint)
  show "192 \<le> uint b0 \<Longrightarrow> uint b0 < 224 \<Longrightarrow> is_cont b1 \<Longrightarrow>
    parse_next_utf8 (b0 # b1 # rest) = (uint b0 mod 32 * 64 + uint b1 mod 64, 2)"
    by (simp add: parse_next_utf8_def first_byte_uint upt utf8_continue_all del: utf8_continue.simps(2))
  show "224 \<le> uint b0 \<Longrightarrow> uint b0 < 240 \<Longrightarrow> is_cont b1 \<Longrightarrow> is_cont b2 \<Longrightarrow>
    parse_next_utf8 (b0 # b1 # b2 # rest) = ((uint b0 mod 16 * 64 + uint b1 mod 64) * 64 + uint b2 mod 64, 3)"
    by (simp add: parse_next_utf8_def first_byte_uint upt utf8_continue_all numeral_2_eq_2 del: utf8_continue.simps(2))
  show "240 \<le> uint b0 \<Longrightarrow> uint b0 < 248 \<Longrightarrow> is_cont b1 \<Longrightarrow> is_cont b2 \<Longrightarrow> is_cont b3 \<Longrightarrow>
    parse_next_utf8 (b0 # b1 # b2 # b3 # rest)
      = (((uint b0 mod 8 * 64 + uint b1 mod 64) * 64 + uint b2 mod 64) * 64 + uint b3 mod 64, 4)"
    by (simp add: parse_next_utf8_def first_byte_uint upt utf8_continue_all numeral_2_eq_2 numeral_3_eq_3 del: utf8_continue.simps(2))
qed

lemma parse_char_to_utf8:
  assumes c: "0 \<le> c" "c < 2097152"
  shows "parse_next_utf8 (char_to_utf8 c @ rest) = (c, length (char_to_utf8 c))"
proof -
  note u = char_to_utf8_uints [OF c]
  have d: "0 \<le> x mod 64" "x mod 64 < 64" for x :: int by simp_all
  have tail: "(128 + x mod 64) mod 64 = x mod 64" for x :: int by (subst mod_add_left_eq [symmetric]) simp
  have lead: "0 \<le> x \<Longrightarrow> x < 32 \<Longrightarrow> (192 + x) mod 32 = x" "0 \<le> x \<Longrightarrow> x < 16 \<Longrightarrow> (224 + x) mod 16 = x"
    "0 \<le> x \<Longrightarrow> x < 8 \<Longrightarrow> (240 + x) mod 8 = x" for x :: int
    by (subst mod_add_left_eq [symmetric], simp)+
  have digits: "c div 4096 = c div 64 div 64" "c div 262144 = c div 64 div 64 div 64"
    by (simp_all only: zdiv_zmult2_eq [symmetric]) simp_all
  consider "c < 128" | "128 \<le> c" "c < 2048" | "2048 \<le> c" "c < 65536" | "65536 \<le> c" by linarith
  then show ?thesis
  proof cases
    case 1
    with u obtain b where "char_to_utf8 c = [b]" "uint b = c" by auto
    with 1 parse_sequence(1) [of b rest] show ?thesis by simp
  next
    case 2
    with u obtain b0 b1 where b: "char_to_utf8 c = [b0, b1]" "uint b0 = 192 + c div 64" "uint b1 = 128 + c mod 64" by auto
    have "parse_next_utf8 (b0 # b1 # rest) = ((192 + c div 64) mod 32 * 64 + (128 + c mod 64) mod 64, 2)"
      unfolding b(2,3) [symmetric]
    proof (rule parse_sequence(2))
      show "192 \<le> uint b0" "uint b0 < 224" unfolding b using 2 by linarith+
      show "is_cont b1" unfolding b is_cont_def using d by linarith
    qed
    also have "(192 + c div 64) mod 32 * 64 + (128 + c mod 64) mod 64 = c"
      using 2 by (subst lead(1)) (simp_all add: tail)
    finally show ?thesis by (simp add: b)
  next
    case 3
    with u obtain b0 b1 b2 where b: "char_to_utf8 c = [b0, b1, b2]" "uint b0 = 224 + c div 4096"
      "uint b1 = 128 + c div 64 mod 64" "uint b2 = 128 + c mod 64" by auto
    have "parse_next_utf8 (b0 # b1 # b2 # rest)
        = (((224 + c div 4096) mod 16 * 64 + (128 + c div 64 mod 64) mod 64) * 64 + (128 + c mod 64) mod 64, 3)"
      unfolding b(2-4) [symmetric]
    proof (rule parse_sequence(3))
      show "224 \<le> uint b0" "uint b0 < 240" unfolding b using 3 by linarith+
      show "is_cont b1" "is_cont b2" unfolding b is_cont_def using d by auto
    qed
    also have "((224 + c div 4096) mod 16 * 64 + (128 + c div 64 mod 64) mod 64) * 64 + (128 + c mod 64) mod 64 = c"
      unfolding tail using 3 by (subst lead(2)) (simp_all add: digits(1))
    finally show ?thesis by (simp add: b)
  next
    case 4
    with u obtain b0 b1 b2 b3 where b: "char_to_utf8 c = [b0, b1, b2, b3]" "uint b0 = 240 + c div 262144"
      "uint b1 = 128 + c div 4096 mod 64" "uint b2 = 128 + c div 64 mod 64" "uint b3 = 128 + c mod 64" by auto
    have "parse_next_utf8 (b0 # b1 # b2 # b3 # rest)
        = ((((240 + c div 262144) mod 8 * 64 + (128 + c div 4096 mod 64) mod 64) * 64
            + (128 + c div 64 mod 64) mod 64) * 64 + (128 + c mod 64) mod 64, 4)"
      unfolding b(2-5) [symmetric]
    proof (rule parse_sequence(4))
      show "240 \<le> uint b0" "uint b0 < 248" unfolding b using 4 c by linarith+
      show "is_cont b1" "is_cont b2" "is_cont b3" unfolding b is_cont_def using d by auto
    qed
    also have "(((240 + c div 262144) mod 8 * 64 + (128 + c div 4096 mod 64) mod 64) * 64
            + (128 + c div 64 mod 64) mod 64) * 64 + (128 + c mod 64) mod 64 = c"
      unfolding tail using 4 c by (subst lead(3)) (simp_all add: digits)
    finally show ?thesis by (simp add: b)
  qed
qed

lemma char_to_utf8_hd:
  assumes "0 < c" "c < 2097152"
  shows "\<exists>b bs. char_to_utf8 c = b # bs \<and> b \<noteq> 0"
proof -
  have "map uint (char_to_utf8 c) \<noteq> [] \<and> hd (map uint (char_to_utf8 c)) \<noteq> 0"
    using assms by (subst (1 2) char_to_utf8_uints) auto
  then show ?thesis by (cases "char_to_utf8 c") auto
qed

lemma parse_utf8_loop_chars:
  "\<forall>c\<in>set cs. 0 < c \<and> c < 2097152 \<Longrightarrow>
     parse_utf8_loop preserve (concat (map char_to_utf8 cs)) acc = acc @ cs"
proof (induction cs arbitrary: acc)
  case (Cons c cs)
  from Cons.prems char_to_utf8_hd [of c] obtain b bs where b: "char_to_utf8 c = b # bs" "b \<noteq> 0" by auto
  have p: "parse_next_utf8 (b # bs @ concat (map char_to_utf8 cs)) = (c, length (b # bs))"
    using parse_char_to_utf8 [of c "concat (map char_to_utf8 cs)"] Cons.prems by (simp add: b)
  have "c \<noteq> INVALID_UTF8" using Cons.prems by (simp add: INVALID_UTF8_def)
  then show ?case using Cons.IH Cons.prems b p by (simp add: vec_push_def)
qed simp

end
