(* ===== verification/Char_Range.thy ===== *)
theory Char_Range
  imports Fsm_Steps Utf8
begin

text \<open>
  Ranges of characters as machines over bytes (crates/grammar/src/grammar/functor: char_range.rs,
  char_range_same_len.rs). A code point is packed big-endian into a \<open>u32\<close>; a range of packed values is
  split at the lengths of the encoding, then byte by byte into edges. A failed assertion is \<open>None\<close>.
\<close>

type_synonym u32w = "32 word"

definition MAX_1B :: u32w where "MAX_1B = 0x7F"
definition MIN_2B :: u32w where "MIN_2B = 0xC080"
definition MAX_2B :: u32w where "MAX_2B = 0xDFBF"
definition MIN_3B :: u32w where "MIN_3B = 0xE08080"
definition MAX_3B :: u32w where "MAX_3B = 0xEFBFBF"
definition MIN_4B :: u32w where "MIN_4B = 0xF0808080"
definition MAX_4B :: u32w where "MAX_4B = 0xF7BFBFBF"

lemmas packed_bounds = MAX_1B_def MIN_2B_def MAX_2B_def MIN_3B_def MAX_3B_def MIN_4B_def MAX_4B_def

definition codepoint_to_packed_utf8 :: "u32w \<Rightarrow> u32w" where
  "codepoint_to_packed_utf8 cp =
    (if cp \<le> 0x7F then cp
     else if cp \<le> 0x7FF then
       (let b0 = 0xC0 OR (drop_bit 6 cp AND 0x1F); b1 = 0x80 OR (cp AND 0x3F)
        in push_bit 8 b0 OR b1)
     else if cp \<le> 0xFFFF then
       (let b0 = 0xE0 OR (drop_bit 12 cp AND 0x0F); b1 = 0x80 OR (drop_bit 6 cp AND 0x3F); b2 = 0x80 OR (cp AND 0x3F)
        in push_bit 16 b0 OR push_bit 8 b1 OR b2)
     else
       (let b0 = 0xF0 OR (drop_bit 18 cp AND 0x07); b1 = 0x80 OR (drop_bit 12 cp AND 0x3F);
            b2 = 0x80 OR (drop_bit 6 cp AND 0x3F); b3 = 0x80 OR (cp AND 0x3F)
        in push_bit 24 b0 OR push_bit 16 b1 OR push_bit 8 b2 OR b3))"

definition byte_of :: "nat \<Rightarrow> u32w \<Rightarrow> byte" where
  "byte_of k v = ucast (drop_bit (8 * k) v)"

definition ws_add_edge :: "fsm_wse \<Rightarrow> nat \<Rightarrow> nat \<Rightarrow> int \<Rightarrow> int \<Rightarrow> fsm_wse" where
  "ws_add_edge m s t lo hi = m\<lparr> ws_fsm := fsm_add_edge (ws_fsm m) s t lo hi \<rparr>"

text \<open>A new state with an edge to it; its id is \<open>ws_num_states m\<close>.\<close>

definition ws_add_target :: "fsm_wse \<Rightarrow> nat \<Rightarrow> int \<Rightarrow> int \<Rightarrow> fsm_wse" where
  "ws_add_target m s lo hi = ws_add_edge (ws_add_state m) s (ws_num_states m) lo hi"

text \<open>The bytes between the first bytes of the bounds, followed by any continuation bytes.\<close>

definition add_middle_4 :: "fsm_wse \<Rightarrow> nat \<Rightarrow> nat \<Rightarrow> int \<Rightarrow> int \<Rightarrow> fsm_wse" where
  "add_middle_4 m from to bmin bmax =
    (if 1 < bmax - bmin then
       (let m1 = ws_num_states m; f1 = ws_add_target m from (bmin + 1) (bmax - 1);
            m2 = ws_num_states f1; f2 = ws_add_target f1 m1 0x80 0xBF;
            m3 = ws_num_states f2; f3 = ws_add_target f2 m2 0x80 0xBF
        in ws_add_edge f3 m3 to 0x80 0xBF)
     else m)"

definition add_middle_3 :: "fsm_wse \<Rightarrow> nat \<Rightarrow> nat \<Rightarrow> int \<Rightarrow> int \<Rightarrow> fsm_wse" where
  "add_middle_3 m from to bmin bmax =
    (if 1 < bmax - bmin then
       (let m1 = ws_num_states m; f1 = ws_add_target m from (bmin + 1) (bmax - 1);
            m2 = ws_num_states f1; f2 = ws_add_target f1 m1 0x80 0xBF
        in ws_add_edge f2 m2 to 0x80 0xBF)
     else m)"

definition add_middle_2 :: "fsm_wse \<Rightarrow> nat \<Rightarrow> nat \<Rightarrow> int \<Rightarrow> int \<Rightarrow> fsm_wse" where
  "add_middle_2 m from to bmin bmax =
    (if 1 < bmax - bmin then
       (let m1 = ws_num_states m; f1 = ws_add_target m from (bmin + 1) (bmax - 1)
        in ws_add_edge f1 m1 to 0x80 0xBF)
     else m)"

lemma byte_of_mask:
  "byte_of 3 (v AND 0x00FFFFFF) = 0" "byte_of 2 (v AND 0xFFFF) = 0" "byte_of 3 (v AND 0xFFFF) = 0"
  "byte_of 1 (v AND 0xFF) = 0" "byte_of 2 (v AND 0xFF) = 0" "byte_of 3 (v AND 0xFF) = 0"
proof -
  have m: "v AND 0x00FFFFFF = take_bit 24 v" "v AND 0xFFFF = take_bit 16 v" "v AND 0xFF = take_bit 8 v"
    by (simp_all add: take_bit_eq_mask mask_numeral)
  show "byte_of 3 (v AND 0x00FFFFFF) = 0" "byte_of 2 (v AND 0xFFFF) = 0" "byte_of 3 (v AND 0xFFFF) = 0"
    "byte_of 1 (v AND 0xFF) = 0" "byte_of 2 (v AND 0xFF) = 0" "byte_of 3 (v AND 0xFF) = 0"
    unfolding m byte_of_def by (simp_all only: drop_bit_take_bit) simp_all
qed

definition packed_len :: "u32w \<Rightarrow> nat" where
  "packed_len v = (if byte_of 3 v \<noteq> 0 then 3 else if byte_of 2 v \<noteq> 0 then 2 else if byte_of 1 v \<noteq> 0 then 1 else 0)"

text \<open>Decreasing a first byte below the lower bound's, or increasing it above the upper bound's,
  takes the whole block of that byte into the middle. The arithmetic is that of a release build: in
  the call with the lower bound \<open>0x0080\<close> the first byte of the bound is 0, and decreasing it gives 255 (a
  debug build panics there).\<close>

function add_same_length_range :: "fsm_wse \<Rightarrow> nat \<Rightarrow> nat \<Rightarrow> u32w \<Rightarrow> u32w \<Rightarrow> fsm_wse" where
  "add_same_length_range m from to lo hi =
    (if byte_of 1 hi = 0 then ws_add_edge m from to (uint (byte_of 0 lo)) (uint (byte_of 0 hi))
     else if byte_of 3 hi \<noteq> 0 then
       (if byte_of 3 hi = byte_of 3 lo then
          add_same_length_range (ws_add_target m from (uint (byte_of 3 lo)) (uint (byte_of 3 hi))) (ws_num_states m) to
            (lo AND 0x00FFFFFF) (hi AND 0x00FFFFFF)
        else
          (let cut_lo = lo AND 0x00FFFFFF \<noteq> 0x808080;
               m1 = (if cut_lo
                     then add_same_length_range (ws_add_target m from (uint (byte_of 3 lo)) (uint (byte_of 3 lo)))
                            (ws_num_states m) to (lo AND 0x00FFFFFF) 0x00BFBFBF
                     else m);
               bmin = (if cut_lo then byte_of 3 lo else byte_of 3 lo - 1);
               cut_hi = hi AND 0x00FFFFFF \<noteq> 0xBFBFBF;
               m2 = (if cut_hi
                     then add_same_length_range (ws_add_target m1 from (uint (byte_of 3 hi)) (uint (byte_of 3 hi)))
                            (ws_num_states m1) to 0x00808080 (hi AND 0x00FFFFFF)
                     else m1);
               bmax = (if cut_hi then byte_of 3 hi else byte_of 3 hi + 1)
           in add_middle_4 m2 from to (uint bmin) (uint bmax)))
     else if byte_of 2 hi \<noteq> 0 then
       (if byte_of 2 hi = byte_of 2 lo then
          add_same_length_range (ws_add_target m from (uint (byte_of 2 lo)) (uint (byte_of 2 hi))) (ws_num_states m) to
            (lo AND 0xFFFF) (hi AND 0xFFFF)
        else
          (let cut_lo = lo AND 0xFFFF \<noteq> 0x8080;
               m1 = (if cut_lo
                     then add_same_length_range (ws_add_target m from (uint (byte_of 2 lo)) (uint (byte_of 2 lo)))
                            (ws_num_states m) to (lo AND 0xFFFF) 0xBFBF
                     else m);
               bmin = (if cut_lo then byte_of 2 lo else byte_of 2 lo - 1);
               cut_hi = hi AND 0xFFFF \<noteq> 0xBFBF;
               m2 = (if cut_hi
                     then add_same_length_range (ws_add_target m1 from (uint (byte_of 2 hi)) (uint (byte_of 2 hi)))
                            (ws_num_states m1) to 0x0080 (hi AND 0xFFFF)
                     else m1);
               bmax = (if cut_hi then byte_of 2 hi else byte_of 2 hi + 1)
           in add_middle_3 m2 from to (uint bmin) (uint bmax)))
     else
       (if byte_of 1 hi = byte_of 1 lo then
          add_same_length_range (ws_add_target m from (uint (byte_of 1 lo)) (uint (byte_of 1 hi))) (ws_num_states m) to
            (lo AND 0xFF) (hi AND 0xFF)
        else
          (let cut_lo = lo AND 0xFF \<noteq> 0x80;
               m1 = (if cut_lo
                     then add_same_length_range (ws_add_target m from (uint (byte_of 1 lo)) (uint (byte_of 1 lo)))
                            (ws_num_states m) to (lo AND 0xFF) 0xBF
                     else m);
               bmin = (if cut_lo then byte_of 1 lo else byte_of 1 lo - 1);
               cut_hi = hi AND 0xFF \<noteq> 0xBF;
               m2 = (if cut_hi
                     then add_same_length_range (ws_add_target m1 from (uint (byte_of 1 hi)) (uint (byte_of 1 hi)))
                            (ws_num_states m1) to 0x80 (hi AND 0xFF)
                     else m1);
               bmax = (if cut_hi then byte_of 1 hi else byte_of 1 hi + 1)
           in add_middle_2 m2 from to (uint bmin) (uint bmax))))"
  by pat_completeness auto
termination
proof (relation "measure (\<lambda>(_, _, _, _, hi). packed_len hi)", goal_cases)
  case 1
  show ?case by simp
qed (auto simp: packed_len_def byte_of_mask, simp_all add: byte_of_def)

declare add_same_length_range.simps [simp del]

text \<open>The bounds moved to the nearest packed value.\<close>

definition clamp_max :: "u32w \<Rightarrow> u32w" where
  "clamp_max mx =
    (if mx > MAX_4B then MAX_4B
     else if mx > MAX_3B then (if mx < MIN_4B then MAX_3B else mx)
     else if mx > MAX_2B then (if mx < MIN_3B then MAX_2B else mx)
     else if mx < MIN_2B \<and> mx > MAX_1B then MAX_1B
     else mx)"

definition clamp_min :: "u32w \<Rightarrow> u32w" where
  "clamp_min mn =
    (if mn > MAX_4B then MAX_4B
     else if mn > MAX_3B then (if mn < MIN_4B then MIN_4B else mn)
     else if mn > MAX_2B then (if mn < MIN_3B then MIN_3B else mn)
     else if mn < MIN_2B \<and> mn > MAX_1B then MIN_2B
     else mn)"

definition add_character_range :: "fsm_wse \<Rightarrow> nat \<Rightarrow> nat \<Rightarrow> u32w \<Rightarrow> u32w \<Rightarrow> fsm_wse option" where
  "add_character_range m from to min0 max0 =
    (if \<not> min0 \<le> max0 then None
     else
       (let mx = clamp_max max0; mn = clamp_min min0; add = \<lambda>lo hi m. add_same_length_range m from to lo hi in
        if mx \<le> MAX_1B then Some (add mn mx m)
        else if mx \<le> MAX_2B then
          Some (if mn \<ge> MIN_2B then add mn mx m
                else add MIN_2B mx (add mn MAX_1B m))
        else if mx \<le> MAX_3B then
          Some (if mn \<ge> MIN_3B then add mn mx m
                else if mn \<ge> MIN_2B then add MIN_3B mx (add mn MAX_2B m)
                else add MIN_3B mx (add MIN_2B MAX_2B (add mn MAX_1B m)))
        else if \<not> mx \<le> MAX_4B then None
        else
          Some (if mn \<ge> MIN_4B then add mn mx m
                else if mn \<ge> MIN_3B then add MIN_4B mx (add mn MAX_3B m)
                else if mn \<ge> MIN_2B then add MIN_4B mx (add MIN_3B MAX_3B (add mn MAX_2B m))
                else add MIN_4B mx (add MIN_3B MAX_3B (add MIN_2B MAX_2B (add mn MAX_1B m))))))"

end
