(* ===== verification/Range_Lang.thy ===== *)
theory Range_Lang
  imports Char_Range
begin

text \<open>
  The words a range of characters adds to a machine: the byte sequences of the encoded lengths that
  lie between the bounds, first byte by first byte, with continuation bytes after it, except those that
  the three-byte case leaves out under the first byte of the upper bound.
\<close>

subsection \<open>Growing a machine with its accepting states\<close>

definition ws_adds :: "fsm_wse \<Rightarrow> fsm_wse \<Rightarrow> nat \<Rightarrow> sym list set \<Rightarrow> nat \<Rightarrow> bool" where
  "ws_adds m m' a R b \<longleftrightarrow> adds (ws_fsm m) (ws_fsm m') a R b \<and> ws_start m' = ws_start m
     \<and> ws_ends m' = ws_ends m @ replicate (ws_num_states m' - ws_num_states m) False"

lemma ws_adds_states: "ws_adds m m' a R b \<Longrightarrow> ws_num_states m \<le> ws_num_states m'"
  by (simp add: ws_adds_def adds_def ws_num_states_def)

lemma ws_adds_wf: "ws_adds m m' a R b \<Longrightarrow> ws_wf m \<Longrightarrow> ws_wf m'"
  by (auto simp: ws_adds_def adds_def ws_wf_def ws_num_states_def)

lemma ws_adds_none: "ws_wf m \<Longrightarrow> ws_adds m m a {} b"
  by (simp add: ws_adds_def adds_none ws_wf_def)

lemma ws_adds_both:
  assumes "ws_adds m m1 a R1 b" and "ws_adds m1 m2 a R2 b" and "a < ws_num_states m" "b < ws_num_states m"
  shows "ws_adds m m2 a (R1 \<union> R2) b"
proof -
  have "ws_num_states m \<le> ws_num_states m1" "ws_num_states m1 \<le> ws_num_states m2"
    using assms by (auto dest: ws_adds_states)
  then show ?thesis using assms adds_both [of "ws_fsm m" "ws_fsm m1" a R1 b "ws_fsm m2" R2]
    by (auto simp: ws_adds_def ws_num_states_def replicate_add [symmetric])
qed

lemma ws_adds_edge:
  "ws_wf m \<Longrightarrow> a < ws_num_states m \<Longrightarrow> b < ws_num_states m \<Longrightarrow> 0 \<le> lo \<Longrightarrow> lo \<le> hi \<Longrightarrow> hi \<le> 255 \<Longrightarrow>
     ws_adds m (ws_add_edge m a b lo hi) a (byte_range lo hi) b"
  by (simp add: ws_adds_def ws_add_edge_def adds_edge ws_wf_def ws_num_states_def)

lemma ws_add_target_frame [simp]:
  "ws_fsm (ws_add_target m a lo hi) = fsm_add_edge (fsm_add_state (ws_fsm m)) a (ws_num_states m) lo hi"
  "ws_num_states (ws_add_target m a lo hi) = Suc (ws_num_states m)"
  "ws_start (ws_add_target m a lo hi) = ws_start m"
  "ws_ends (ws_add_target m a lo hi) = ws_ends m @ [False]"
  by (simp_all add: ws_add_target_def ws_add_edge_def ws_add_state_def ws_num_states_def vec_push_def)

lemma ws_add_target_wf:
  "ws_wf m \<Longrightarrow> 0 \<le> lo \<Longrightarrow> lo \<le> hi \<Longrightarrow> hi \<le> 255 \<Longrightarrow> ws_wf (ws_add_target m a lo hi)"
  unfolding ws_wf_def ws_add_target_frame
  by (auto simp: ws_num_states_def wf_add_state REPEAT_REF_def intro!: wf_add_edge)

lemma ws_adds_via:
  assumes "ws_wf m" "a < ws_num_states m" "b < ws_num_states m" and "0 \<le> lo" "lo \<le> hi" "hi \<le> 255"
    and rest: "ws_adds (ws_add_target m a lo hi) m' (ws_num_states m) R b"
  shows "ws_adds m m' a (lang_conc (byte_range lo hi) R) b"
proof -
  have "Suc (ws_num_states m) \<le> ws_num_states m'" using ws_adds_states [OF rest] by simp
  then have "[False] @ replicate (ws_num_states m' - Suc (ws_num_states m)) False
      = replicate (ws_num_states m' - ws_num_states m) False"
    by (cases "ws_num_states m' - ws_num_states m") (auto simp: Suc_diff_le)
  then show ?thesis
    using assms adds_via [of "ws_fsm m" a b lo hi "ws_num_states m" "ws_fsm m'" R]
    by (auto simp: ws_adds_def ws_wf_def ws_num_states_def)
qed

subsection \<open>The bytes of a packed value\<close>

definition pv :: "byte list \<Rightarrow> int" where
  "pv bs = foldl (\<lambda>a b. a * 256 + uint b) 0 bs"

lemma pv_foldl: "foldl (\<lambda>a b. a * 256 + uint b) c bs = c * 256 ^ length bs + pv bs" for bs :: "byte list"
proof (induction bs arbitrary: c)
  case (Cons b bs)
  show ?case using Cons.IH [of "c * 256 + uint b"] Cons.IH [of "uint b"]
    by (simp add: pv_def algebra_simps)
qed (simp add: pv_def)

lemma pv_Nil [simp]: "pv [] = 0"
  by (simp add: pv_def)

lemma pv_Cons: "pv (b # bs) = uint b * 256 ^ length bs + pv bs"
  using pv_foldl [of "uint b" bs] by (simp add: pv_def)

lemma pv_bounds: "0 \<le> pv bs \<and> pv bs < 256 ^ length bs"
proof (induction bs)
  case (Cons b bs)
  have "uint b * 256 ^ length bs \<le> 255 * 256 ^ length bs" using byte_lt [of b] by (intro mult_right_mono, linarith) simp
  moreover have "0 \<le> uint b * 256 ^ length bs" by simp
  ultimately have "0 \<le> uint b * 256 ^ length bs + pv bs \<and> uint b * 256 ^ length bs + pv bs < 256 * 256 ^ length bs"
    using Cons.IH by linarith
  then show ?case by (simp add: pv_Cons)
qed simp

lemma pv_inj: "length xs = length ys \<Longrightarrow> pv xs = pv ys \<longleftrightarrow> xs = ys"
proof (induction xs arbitrary: ys)
  case (Cons x xs)
  then obtain y ys' where ys: "ys = y # ys'" "length xs = length ys'" by (cases ys) auto
  let ?n = "256 ^ length xs :: int"
  have *: "pv (x # xs) div ?n = uint x" "pv (y # ys') div ?n = uint y" "pv (x # xs) mod ?n = pv xs" "pv (y # ys') mod ?n = pv ys'"
    using pv_bounds [of xs] pv_bounds [of ys'] ys(2) by (simp_all add: pv_Cons)
  show ?case
  proof
    assume "pv (x # xs) = pv ys"
    then have "uint x = uint y" "pv xs = pv ys'" using * ys(1) by metis+
    then show "x # xs = ys" using Cons.IH ys by (simp add: word_uint_eq_iff)
  qed (simp add: ys)
qed simp

lemma uint_byte_of: "uint (byte_of k v) = uint v div 2 ^ (8 * k) mod 256"
proof -
  have "uint (drop_bit j v) = uint v div 2 ^ j" for j
  proof -
    have "take_bit 32 (uint v) = uint v" using uint_bounded [of v] by (simp add: take_bit_int_eq_self)
    then show ?thesis by (simp add: unsigned_drop_bit_eq flip: drop_bit_eq_div)
  qed
  then show ?thesis unfolding byte_of_def by (simp only: unsigned_ucast_eq take_bit_eq_mod) simp
qed

lemma byte_of_first:
  assumes v: "uint v = pv (b # bs)"
  shows "byte_of (length bs) v = b" and "length bs < k \<Longrightarrow> byte_of k v = 0"
    and "uint (take_bit (8 * length bs) v) = pv bs"
proof -
  let ?n = "256 ^ length bs :: int"
  have n: "(2::int) ^ (8 * j) = 256 ^ j" for j by (simp add: power_mult)
  note b = pv_bounds [of bs] byte_lt [of b]
  have "uint (byte_of (length bs) v) = uint b"
    using b by (simp add: uint_byte_of n v pv_Cons)
  then show "byte_of (length bs) v = b" by (simp add: word_uint_eq_iff)
  show "uint (take_bit (8 * length bs) v) = pv bs"
    using b by (simp only: unsigned_take_bit_eq) (simp add: take_bit_eq_mod n v pv_Cons)
  assume k: "length bs < k"
  have "pv (b # bs) < 256 ^ Suc (length bs)" using pv_bounds [of "b # bs"] by simp
  also have "(256::int) ^ Suc (length bs) \<le> 256 ^ k" using k by (intro power_increasing) auto
  finally have "uint v div 256 ^ k = 0" using pv_bounds [of "b # bs"] by (simp add: v)
  then show "byte_of k v = 0" by (simp add: word_uint_eq_iff uint_byte_of n)
qed

subsection \<open>The words of a range\<close>

fun lex_le :: "byte list \<Rightarrow> byte list \<Rightarrow> bool" where
  "lex_le (x # xs) (y # ys) \<longleftrightarrow> uint x < uint y \<or> x = y \<and> lex_le xs ys"
| "lex_le _ _ \<longleftrightarrow> True"

definition conts :: "byte list \<Rightarrow> bool" where
  "conts bs \<longleftrightarrow> (\<forall>b\<in>set bs. is_cont b)"

lemma conts_simps [simp]: "conts []" "conts (b # bs) \<longleftrightarrow> is_cont b \<and> conts bs"
  by (auto simp: conts_def)

definition words_between :: "byte list \<Rightarrow> byte list \<Rightarrow> byte list set" where
  "words_between lo hi = {bs. length bs = length lo \<and> lex_le lo bs \<and> lex_le bs hi \<and> conts (tl bs)}"

definition byte_words :: "byte list set \<Rightarrow> sym list set" where
  "byte_words W = map Byte ` W"

definition low :: "nat \<Rightarrow> byte list" where "low n = replicate n 0x80"
definition high :: "nat \<Rightarrow> byte list" where "high n = replicate n 0xBF"

definition blocks :: "nat \<Rightarrow> int \<Rightarrow> int \<Rightarrow> byte list set" where
  "blocks n lo hi = {b # bs | b bs. lo \<le> uint b \<and> uint b \<le> hi \<and> length bs = n \<and> conts bs}"

lemma lex_le_refl [simp]: "lex_le xs xs"
  by (induction xs) auto

lemma lex_low: "conts bs \<Longrightarrow> length bs = n \<Longrightarrow> lex_le (low n) bs"
proof (induction bs arbitrary: n)
  case (Cons b bs)
  then have "lex_le (low (length bs)) bs" "128 \<le> uint b" by (auto simp: is_cont_def)
  moreover have "b = 0x80 \<or> uint b \<noteq> 128" by (simp add: word_uint_eq_iff)
  ultimately show ?case using Cons.prems by (fastforce simp: low_def)
qed (simp add: low_def)

lemma lex_high: "conts bs \<Longrightarrow> length bs = n \<Longrightarrow> lex_le bs (high n)"
proof (induction bs arbitrary: n)
  case (Cons b bs)
  then have "lex_le bs (high (length bs))" "uint b < 192" by (auto simp: is_cont_def)
  moreover have "b = 0xBF \<or> uint b \<noteq> 191" by (simp add: word_uint_eq_iff)
  ultimately show ?case using Cons.prems by (fastforce simp: high_def)
qed (simp add: high_def)

lemma conts_low [simp]: "conts (low n)" "conts (high n)"
  by (auto simp: conts_def low_def high_def is_cont_def)

lemma length_low [simp]: "length (low n) = n" "length (high n) = n"
  by (simp_all add: low_def high_def)

lemma low_Nil [simp]: "low n = [] \<longleftrightarrow> n = 0" "high n = [] \<longleftrightarrow> n = 0"
  by (simp_all add: low_def high_def)

lemma lex_le_antisym: "lex_le xs ys \<Longrightarrow> lex_le ys xs \<Longrightarrow> length xs = length ys \<Longrightarrow> xs = ys"
  by (induction xs ys rule: lex_le.induct) auto

text \<open>Between continuation bytes every byte is one.\<close>

lemma between_conts:
  assumes "conts lo" "conts hi" "length lo = length hi" "lo \<noteq> []"
  shows "bs \<in> words_between lo hi \<longleftrightarrow> length bs = length lo \<and> conts bs \<and> lex_le lo bs \<and> lex_le bs hi"
proof -
  obtain l ls h hs where lh: "lo = l # ls" "hi = h # hs" using assms(3,4) by (cases lo; cases hi) auto
  have "is_cont b" if "bs = b # cs" "lex_le lo bs" "lex_le bs hi" for b cs
    using that assms(1,2) by (auto simp: lh is_cont_def)
  then show ?thesis using assms(4) by (cases bs) (auto simp: words_between_def)
qed

lemma byte_words_Cons:
  assumes "X = {b # bs | bs. bs \<in> Y}"
  shows "byte_words X = lang_conc (byte_range (uint b) (uint b)) (byte_words Y)"
proof -
  have "byte_range (uint b) (uint b) = {[Byte b]}" by (auto simp: byte_range_def word_uint_eq_iff)
  then show ?thesis unfolding byte_words_def assms lang_conc_def by (force simp: image_iff)
qed

lemma words_same_first:
  assumes "conts ls" "conts hs" "length ls = length hs" "ls \<noteq> []"
  shows "words_between (l # ls) (l # hs) = {l # bs | bs. bs \<in> words_between ls hs}"
proof (intro set_eqI iffI)
  fix bs
  assume bs: "bs \<in> words_between (l # ls) (l # hs)"
  then obtain b cs where b: "bs = b # cs" by (cases bs) (auto simp: words_between_def)
  with bs between_conts [OF assms, of cs] show "bs \<in> {l # bs | bs. bs \<in> words_between ls hs}"
    by (auto simp: words_between_def)
next
  fix bs
  assume "bs \<in> {l # bs | bs. bs \<in> words_between ls hs}"
  then obtain cs where "bs = l # cs" "cs \<in> words_between ls hs" by blast
  with between_conts [OF assms, of cs] show "bs \<in> words_between (l # ls) (l # hs)" by (simp add: words_between_def)
qed

lemma split_arith:
  "l < h \<Longrightarrow> (A \<longrightarrow> P) \<Longrightarrow> (B \<longrightarrow> Q) \<Longrightarrow> (l < b \<or> b = l \<and> P) \<and> (b < h \<or> b = h \<and> Q) \<longleftrightarrow>
     \<not> A \<and> b = l \<and> P \<or> \<not> B \<and> b = h \<and> Q \<or> (if A then l else l + 1) \<le> b \<and> b \<le> (if B then h else h - 1)"
  for l h b :: int
  by (cases A; cases B; cases P; cases Q) auto

text \<open>A range over different first bytes: the words from the lower bound on under its first byte, those
  up to the upper bound under its, and the whole blocks between.\<close>

lemma words_split:
  assumes ls: "conts ls" "conts hs" "length ls = n" "length hs = n" "0 < n" and lh: "uint l < uint h"
  shows "words_between (l # ls) (h # hs) =
    (if ls = low n then {} else {l # bs | bs. bs \<in> words_between ls (high n)})
    \<union> (if hs = high n then {} else {h # bs | bs. bs \<in> words_between (low n) hs})
    \<union> blocks n (if ls = low n then uint l else uint l + 1) (if hs = high n then uint h else uint h - 1)"
    (is "_ = ?L \<union> ?H \<union> ?M")
proof (intro set_eqI)
  fix w
  have L: "cs \<in> words_between ls (high n) \<longleftrightarrow> length cs = n \<and> conts cs \<and> lex_le ls cs" for cs
    using between_conts [of ls "high n" cs] ls lex_high [of cs n] by auto
  have H: "cs \<in> words_between (low n) hs \<longleftrightarrow> length cs = n \<and> conts cs \<and> lex_le cs hs" for cs
    using between_conts [of "low n" hs cs] ls lex_low [of cs n] by auto
  have lowest: "lex_le (low n) cs" "lex_le cs (high n)" if "conts cs" "length cs = n" for cs
    using lex_low lex_high that by blast+
  show "w \<in> words_between (l # ls) (h # hs) \<longleftrightarrow> w \<in> ?L \<union> ?H \<union> ?M"
  proof (cases w)
    case Nil
    then show ?thesis by (auto simp: words_between_def blocks_def)
  next
    case (Cons b cs)
    have eqs: "b = l \<longleftrightarrow> uint b = uint l" "b = h \<longleftrightarrow> uint b = uint h" "l = b \<longleftrightarrow> uint b = uint l"
      by (auto simp: word_uint_eq_iff)
    have "w \<in> words_between (l # ls) (h # hs) \<longleftrightarrow> length cs = n \<and> conts cs
        \<and> (uint l < uint b \<or> uint b = uint l \<and> lex_le ls cs) \<and> (uint b < uint h \<or> uint b = uint h \<and> lex_le cs hs)"
      using ls by (auto simp: words_between_def Cons eqs)
    moreover have "w \<in> ?L \<union> ?H \<union> ?M \<longleftrightarrow> length cs = n \<and> conts cs \<and>
        (ls \<noteq> low n \<and> uint b = uint l \<and> lex_le ls cs \<or> hs \<noteq> high n \<and> uint b = uint h \<and> lex_le cs hs
         \<or> (if ls = low n then uint l else uint l + 1) \<le> uint b \<and> uint b \<le> (if hs = high n then uint h else uint h - 1))"
      by (auto simp: Cons L H blocks_def eqs)
    ultimately show ?thesis using split_arith [OF lh, of "ls = low n" "lex_le ls cs" "hs = high n" "lex_le cs hs" "uint b"] lowest
      by blast
  qed
qed

subsection \<open>The words the code leaves out\<close>

text \<open>Under the first byte of the upper bound the three-byte case goes on from \<open>00 80\<close> instead of \<open>80 80\<close>. Of the
  words under that byte only those remain that agree with the bound in the second byte too, and none if
  the bound ends in \<open>BF\<close>.\<close>

fun skips :: "byte list \<Rightarrow> byte list \<Rightarrow> byte list \<Rightarrow> bool" where
  "skips [x, x1, x2] [y, y1, y2] [b, b1, b2] \<longleftrightarrow>
     b = y \<and> x \<noteq> y \<and> \<not> (y1 = 0xBF \<and> y2 = 0xBF) \<and> \<not> (b1 = y1 \<and> y2 \<noteq> 0xBF)"
| "skips (x # x1 # x2 # x3 # xs) (y # ys) (b # bs) \<longleftrightarrow> b = y \<and> skips (if x = y then x1 # x2 # x3 # xs else low 3) ys bs"
| "skips _ _ _ \<longleftrightarrow> False"

definition kept_words :: "byte list \<Rightarrow> byte list \<Rightarrow> byte list set" where
  "kept_words lo hi = {bs \<in> words_between lo hi. \<not> skips lo hi bs}"

lemma two_bytes: "high 2 = [0xBF, 0xBF]" "low 2 = [0x80, 0x80]" "high 1 = [0xBF]" "low 1 = [0x80]"
  "high 3 = [0xBF, 0xBF, 0xBF]" "low 3 = [0x80, 0x80, 0x80]"
  by (simp_all add: high_def low_def numeral_2_eq_2 numeral_3_eq_3)

lemma skips_short: "length ys < 3 \<Longrightarrow> \<not> skips xs ys bs"
  by (induction xs ys bs rule: skips.induct) auto

lemma skips_high: "length xs = Suc n \<Longrightarrow> n \<le> 3 \<Longrightarrow> \<not> skips xs (y # high n) bs"
proof -
  assume len: "length xs = Suc n" "n \<le> 3"
  then consider "n < 2" | "n = 2" | "n = 3" by linarith
  then show ?thesis
  proof cases
    case 1
    then show ?thesis by (simp add: skips_short)
  next
    case 2
    then obtain x x1 x2 where "xs = [x, x1, x2]" using len by (auto simp: length_Suc_conv numeral_2_eq_2)
    then show ?thesis using 2 by (cases "([x, x1, x2], y # high 2, bs)" rule: skips.cases) (auto simp: two_bytes)
  next
    case 3
    then obtain x x1 x2 x3 where xs: "xs = [x, x1, x2, x3]" using len by (auto simp: length_Suc_conv numeral_3_eq_3)
    have "\<not> skips zs [0xBF, 0xBF, 0xBF] cs" if zs: "length zs = 3" for zs cs
    proof -
      obtain z z1 z2 where "zs = [z, z1, z2]" using zs by (auto simp: length_Suc_conv numeral_3_eq_3)
      then show ?thesis by (cases "([z, z1, z2], [0xBF, 0xBF, 0xBF] :: byte list, cs)" rule: skips.cases) auto
    qed
    then show ?thesis using 3 by (cases bs) (simp_all add: xs two_bytes)
  qed
qed

lemma kept_high: "length xs = Suc n \<Longrightarrow> n \<le> 3 \<Longrightarrow> kept_words xs (y # high n) = words_between xs (y # high n)"
  using skips_high by (auto simp: kept_words_def)

lemma high_Cons: "high (Suc n) = 0xBF # high n"
  by (simp add: high_def)

lemma kept_short: "length ys < 3 \<Longrightarrow> kept_words xs ys = words_between xs ys"
  using skips_short by (auto simp: kept_words_def)

lemma kept_same_first:
  assumes "conts ls" "conts hs" "length ls = n" "length hs = n" "0 < n" "n \<le> 3"
  shows "kept_words (l # ls) (l # hs) = {l # bs | bs. bs \<in> kept_words ls hs}"
proof -
  have same: "skips (l # ls) (l # hs) (l # bs) \<longleftrightarrow> skips ls hs bs" if len: "length bs = n" for bs
  proof (cases "n = 3")
    case True
    then obtain x1 x2 x3 where "ls = [x1, x2, x3]" using assms(3) by (auto simp: length_Suc_conv numeral_3_eq_3)
    then show ?thesis by simp
  next
    case False
    then have "length hs < 3" using assms by simp
    moreover have "\<not> skips (l # ls) (l # hs) (l # bs)"
    proof (cases "n = 2")
      case True
      then obtain a b c d e f where "ls = [a, b]" "hs = [c, d]" "bs = [e, f]" using assms len by (auto simp: length_Suc_conv numeral_2_eq_2)
      then show ?thesis by simp
    next
      case False
      with \<open>n \<noteq> 3\<close> assms(4,6) have "length (l # hs) < 3" by simp
      then show ?thesis by (rule skips_short)
    qed
    ultimately show ?thesis using skips_short by blast
  qed
  have len: "length bs = n" if "bs \<in> words_between ls hs" for bs using that assms(3) by (simp add: words_between_def)
  have "ls \<noteq> []" "length ls = length hs" using assms(3,4,5) by auto
  note w = words_same_first [OF assms(1,2) this(2,1), of l]
  show ?thesis
  proof (intro set_eqI iffI)
    fix bs
    assume "bs \<in> kept_words (l # ls) (l # hs)"
    then obtain cs where "bs = l # cs" "cs \<in> words_between ls hs" "\<not> skips (l # ls) (l # hs) (l # cs)"
      unfolding kept_words_def w by auto
    with same [OF len] show "bs \<in> {l # bs | bs. bs \<in> kept_words ls hs}" by (simp add: kept_words_def)
  next
    fix bs
    assume "bs \<in> {l # bs | bs. bs \<in> kept_words ls hs}"
    then obtain cs where "bs = l # cs" "cs \<in> words_between ls hs" "\<not> skips ls hs cs" by (auto simp: kept_words_def)
    with same [OF len] show "bs \<in> kept_words (l # ls) (l # hs)" unfolding kept_words_def w by simp
  qed
qed

subsection \<open>One length of the encoding\<close>

lemma pv_append: "pv (xs @ ys) = pv xs * 256 ^ length ys + pv ys"
  using pv_foldl [of "pv xs" ys] by (simp add: pv_def)

lemma byte_of_nth: "uint v = pv (xs @ b # ys) \<Longrightarrow> byte_of (length ys) v = b"
proof -
  assume v: "uint v = pv (xs @ b # ys)"
  have "uint v = (pv xs * 256 + uint b) * 256 ^ length ys + pv ys"
    by (simp add: v pv_append pv_Cons algebra_simps)
  then have "uint v div 256 ^ length ys = pv xs * 256 + uint b" using pv_bounds [of ys] by simp
  then have "uint (byte_of (length ys) v) = uint b" by (simp add: uint_byte_of power_mult)
  then show ?thesis by (simp add: word_uint_eq_iff)
qed

definition packed :: "byte list \<Rightarrow> u32w" where
  "packed bs = word_of_int (pv bs)"

lemma uint_packed: "length bs \<le> 4 \<Longrightarrow> uint (packed bs) = pv bs"
proof -
  assume "length bs \<le> 4"
  then have "(256::int) ^ length bs \<le> 256 ^ 4" by (intro power_increasing) auto
  then have "pv bs < 4294967296" using pv_bounds [of bs] by simp
  then show ?thesis using pv_bounds [of bs] by (simp add: packed_def unsigned_of_int take_bit_int_eq_self)
qed

lemma packed_unique: "uint v = pv bs \<Longrightarrow> length bs \<le> 4 \<Longrightarrow> v = packed bs"
  by (simp add: word_uint_eq_iff uint_packed)

lemma packed_eq: "length xs \<le> 4 \<Longrightarrow> length ys = length xs \<Longrightarrow> packed xs = packed ys \<longleftrightarrow> xs = ys"
  using pv_inj [of xs ys] by (simp add: word_uint_eq_iff uint_packed)

lemma packed_low:
  "packed (low 3) = 0x808080" "packed (high 3) = 0xBFBFBF" "packed (low 2) = 0x8080" "packed (high 2) = 0xBFBF"
  "packed (low 1) = 0x80" "packed (high 1) = 0xBF"
proof -
  have r: "replicate 3 x = [x, x, x]" "replicate 2 x = [x, x]" "replicate 1 x = [x]" for x :: byte
    by (simp_all add: numeral_3_eq_3 numeral_2_eq_2)
  show "packed (low 3) = 0x808080" "packed (high 3) = 0xBFBFBF" "packed (low 2) = 0x8080" "packed (high 2) = 0xBFBF"
    "packed (low 1) = 0x80" "packed (high 1) = 0xBF"
    unfolding packed_def low_def high_def r pv_def by simp_all
qed

definition add_middle :: "nat \<Rightarrow> fsm_wse \<Rightarrow> nat \<Rightarrow> nat \<Rightarrow> int \<Rightarrow> int \<Rightarrow> fsm_wse" where
  "add_middle n = (if n = 3 then add_middle_4 else if n = 2 then add_middle_3 else add_middle_2)"

lemma take_bits:
  "v AND 0x00FFFFFF = take_bit 24 v" "v AND 0xFFFF = take_bit 16 v" "v AND 0xFF = take_bit 8 v" for v :: u32w
  by (simp_all add: take_bit_eq_mask mask_numeral)

lemma last_but_one:
  assumes "0 < length hs" and "h \<noteq> 0" and "conts hs" and v: "uint v = pv (h # hs)"
  shows "byte_of 1 v \<noteq> 0"
proof -
  obtain xs c d where split: "h # hs = xs @ [c, d]"
    using assms(1) by (metis (no_types) append_Cons append_Nil append_butlast_last_id list.size(3) list.discI less_irrefl butlast.simps(2) append_assoc last_ConsR)
  have "c \<in> set (h # hs)" by (simp add: split)
  then have "c \<noteq> 0" using assms(2,3) by (auto simp: conts_def is_cont_def)
  moreover have "byte_of 1 v = c" using byte_of_nth [of v xs c "[d]"] v by (simp add: split)
  ultimately show ?thesis by simp
qed

text \<open>The lower bound the code goes on from under the first byte of the upper bound.\<close>

definition cut_low :: "nat \<Rightarrow> byte list" where
  "cut_low n = (if n = 2 then [0, 0x80] else low n)"

lemma packed_cut: "packed (cut_low 3) = 0x808080" "packed (cut_low 2) = 0x0080" "packed (cut_low 1) = 0x80"
proof -
  have "packed [0, 0x80] = 0x80" unfolding packed_def pv_def by simp
  moreover have "cut_low 3 = low 3" "cut_low 2 = [0, 0x80]" "cut_low 1 = low 1" by (simp_all add: cut_low_def)
  ultimately show "packed (cut_low 3) = 0x808080" "packed (cut_low 2) = 0x0080" "packed (cut_low 1) = 0x80"
    by (simp_all only: packed_low)
qed

text \<open>The three blocks of the code at once: the first byte equal, or cut at both ends.\<close>

lemma range_block:
  assumes n: "n \<in> {1, 2, 3}" and len: "length ls = n" "length hs = n" and c: "conts ls" "conts hs" and h: "h \<noteq> 0"
  shows "add_same_length_range m a b (packed (l # ls)) (packed (h # hs)) =
    (if h = l then add_same_length_range (ws_add_target m a (uint l) (uint h)) (ws_num_states m) b (packed ls) (packed hs)
     else
       (let m1 = (if ls \<noteq> low n then add_same_length_range (ws_add_target m a (uint l) (uint l)) (ws_num_states m) b
                    (packed ls) (packed (high n)) else m);
            bmin = (if ls \<noteq> low n then l else l - 1);
            m2 = (if hs \<noteq> high n then add_same_length_range (ws_add_target m1 a (uint h) (uint h)) (ws_num_states m1) b
                    (packed (cut_low n)) (packed hs) else m1);
            bmax = (if hs \<noteq> high n then h else h + 1)
        in add_middle n m2 a b (uint bmin) (uint bmax)))"
proof -
  have le: "length (l # ls) \<le> 4" "length (h # hs) \<le> 4" using n len by auto
  note lo = uint_packed [OF le(1)] and hi = uint_packed [OF le(2)]
  have b1: "byte_of 1 (packed (h # hs)) \<noteq> 0" by (rule last_but_one [OF _ h c(2) hi]) (use n len in auto)
  have bn: "byte_of n (packed (l # ls)) = l" "byte_of n (packed (h # hs)) = h"
    "\<And>k. n < k \<Longrightarrow> byte_of k (packed (h # hs)) = 0"
    using byte_of_first [OF lo] byte_of_first [OF hi] len by auto
  have tl: "take_bit (8 * n) (packed (l # ls)) = packed ls" "take_bit (8 * n) (packed (h # hs)) = packed hs"
    using byte_of_first(3) [OF lo] byte_of_first(3) [OF hi] len le by (auto intro: packed_unique)
  have ne: "packed ls \<noteq> packed (low n) \<longleftrightarrow> ls \<noteq> low n" "packed hs \<noteq> packed (high n) \<longleftrightarrow> hs \<noteq> high n"
    using packed_eq [of ls "low n"] packed_eq [of hs "high n"] n len by auto
  let ?L = "packed (l # ls)" and ?H = "packed (h # hs)"
  note unfold = add_same_length_range.simps [of m a b ?L ?H]
  consider "n = 1" | "n = 2" | "n = 3" using n by blast
  then show ?thesis
  proof cases
    case 1
    have e: "byte_of 1 ?L = l" "byte_of 1 ?H = h" "byte_of 2 ?H = 0" "byte_of 3 ?H = 0"
      "?L AND 0xFF = packed ls" "?H AND 0xFF = packed hs" using bn tl by (simp_all add: 1 take_bits)
    show ?thesis using h b1 ne unfolding unfold e by (simp only: 1 add_middle_def packed_low packed_cut simp_thms if_False if_True) simp
  next
    case 2
    have e: "byte_of 2 ?L = l" "byte_of 2 ?H = h" "byte_of 3 ?H = 0"
      "?L AND 0xFFFF = packed ls" "?H AND 0xFFFF = packed hs" using bn tl by (simp_all add: 2 take_bits)
    show ?thesis using h b1 ne unfolding unfold e by (simp only: 2 add_middle_def packed_low packed_cut simp_thms if_False if_True) simp
  next
    case 3
    have e: "byte_of 3 ?L = l" "byte_of 3 ?H = h"
      "?L AND 0x00FFFFFF = packed ls" "?H AND 0x00FFFFFF = packed hs" using bn tl by (simp_all add: 3 take_bits)
    show ?thesis using h b1 ne unfolding unfold e by (simp only: 3 add_middle_def packed_low packed_cut simp_thms if_False if_True) simp
  qed
qed

definition cont_words :: "nat \<Rightarrow> byte list set" where
  "cont_words n = {bs. length bs = n \<and> conts bs}"

lemma byte_words_blocks: "byte_words (blocks n lo hi) = lang_conc (byte_range lo hi) (byte_words (cont_words n))"
proof -
  have "byte_words (blocks n lo hi) = {Byte b # map Byte bs | b bs. lo \<le> uint b \<and> uint b \<le> hi \<and> bs \<in> cont_words n}"
    by (auto simp: byte_words_def blocks_def cont_words_def image_iff) (metis list.simps(9))
  also have "\<dots> = lang_conc (byte_range lo hi) (byte_words (cont_words n))" unfolding lang_conc_def byte_range_def byte_words_def
  proof (intro set_eqI iffI)
    fix w
    assume "w \<in> {Byte b # map Byte bs | b bs. lo \<le> uint b \<and> uint b \<le> hi \<and> bs \<in> cont_words n}"
    then obtain b bs where "w = [Byte b] @ map Byte bs" "lo \<le> uint b" "uint b \<le> hi" "bs \<in> cont_words n" by auto
    then show "w \<in> {u @ v | u v. u \<in> {[Byte b] | b. lo \<le> uint b \<and> uint b \<le> hi} \<and> v \<in> map Byte ` cont_words n}" by blast
  qed auto
  finally show ?thesis .
qed

lemma cont_words_Suc: "byte_words (cont_words (Suc n)) = lang_conc (byte_range 128 191) (byte_words (cont_words n))"
proof -
  have "cont_words (Suc n) = blocks n 128 191"
    by (auto simp: cont_words_def blocks_def length_Suc_conv is_cont_def)
  then show ?thesis by (simp add: byte_words_blocks)
qed

lemma cont_words_1: "byte_words (cont_words 1) = byte_range 128 191"
proof -
  have "byte_words (cont_words 0) = {[]}" by (auto simp: byte_words_def cont_words_def)
  then show ?thesis using cont_words_Suc [of 0] by (simp add: lang_conc_def)
qed

lemma add_middle_adds:
  assumes m: "ws_wf m" "a < ws_num_states m" "b < ws_num_states m" and n: "n \<in> {1, 2, 3}"
    and bounds: "0 \<le> lo + 1" "hi - 1 \<le> 255"
  shows "ws_adds m (add_middle n m a b lo hi) a (byte_words (blocks n (lo + 1) (hi - 1))) b"
proof (cases "1 < hi - lo")
  case False
  then have "blocks n (lo + 1) (hi - 1) = {}" by (auto simp: blocks_def)
  then show ?thesis using False m n
    by (auto simp: add_middle_def add_middle_4_def add_middle_3_def add_middle_2_def byte_words_def ws_adds_none)
next
  case True
  define f1 where "f1 = ws_add_target m a (lo + 1) (hi - 1)"
  define f2 where "f2 = ws_add_target f1 (ws_num_states m) 128 191"
  define f3 where "f3 = ws_add_target f2 (ws_num_states f1) 128 191"
  have f1: "ws_wf f1" "ws_num_states f1 = Suc (ws_num_states m)"
    using m True bounds by (auto simp: f1_def intro!: ws_add_target_wf)
  have f2: "ws_wf f2" "ws_num_states f2 = Suc (Suc (ws_num_states m))"
    using f1 by (auto simp: f2_def intro!: ws_add_target_wf)
  have f3: "ws_wf f3" "ws_num_states f3 = Suc (Suc (Suc (ws_num_states m)))"
    using f2 by (auto simp: f3_def intro!: ws_add_target_wf)
  have via: "ws_adds f1 m' (ws_num_states m) R b \<Longrightarrow> ws_adds m m' a (lang_conc (byte_range (lo + 1) (hi - 1)) R) b" for m' R
    unfolding f1_def by (rule ws_adds_via) (use m True bounds in auto)
  have via1: "ws_adds f2 m' (ws_num_states f1) R b \<Longrightarrow> ws_adds f1 m' (ws_num_states m) (lang_conc (byte_range 128 191) R) b" for m' R
    unfolding f2_def by (rule ws_adds_via) (use m f1 in auto)
  have via2: "ws_adds f3 m' (ws_num_states f2) R b \<Longrightarrow> ws_adds f2 m' (ws_num_states f1) (lang_conc (byte_range 128 191) R) b" for m' R
    unfolding f3_def by (rule ws_adds_via) (use m f1 f2 in auto)
  have e1: "ws_adds f1 (ws_add_edge f1 (ws_num_states m) b 128 191) (ws_num_states m) (byte_words (cont_words 1)) b"
    unfolding cont_words_1 by (rule ws_adds_edge) (use m f1 in auto)
  have e2: "ws_adds f2 (ws_add_edge f2 (ws_num_states f1) b 128 191) (ws_num_states f1) (byte_words (cont_words 1)) b"
    unfolding cont_words_1 by (rule ws_adds_edge) (use m f1 f2 in auto)
  have e3: "ws_adds f3 (ws_add_edge f3 (ws_num_states f2) b 128 191) (ws_num_states f2) (byte_words (cont_words 1)) b"
    unfolding cont_words_1 by (rule ws_adds_edge) (use m f2 f3 in auto)
  have words: "byte_words (cont_words 2) = lang_conc (byte_range 128 191) (byte_words (cont_words 1))"
    "byte_words (cont_words 3) = lang_conc (byte_range 128 191) (lang_conc (byte_range 128 191) (byte_words (cont_words 1)))"
    using cont_words_Suc [of 1] cont_words_Suc [of 2] by (simp_all add: numeral_2_eq_2 numeral_3_eq_3)
  consider "n = 1" | "n = 2" | "n = 3" using n by blast
  then show ?thesis
  proof cases
    case 1
    then have "add_middle n m a b lo hi = ws_add_edge f1 (ws_num_states m) b 128 191"
      using True by (simp add: add_middle_def add_middle_2_def f1_def)
    with via [OF e1] 1 show ?thesis by (simp only: byte_words_blocks)
  next
    case 2
    then have "add_middle n m a b lo hi = ws_add_edge f2 (ws_num_states f1) b 128 191"
      using True by (simp add: add_middle_def add_middle_3_def f1_def f2_def Let_def)
    with via [OF via1 [OF e2]] 2 show ?thesis by (simp only: byte_words_blocks words)
  next
    case 3
    then have "add_middle n m a b lo hi = ws_add_edge f3 (ws_num_states f2) b 128 191"
      using True by (simp add: add_middle_def add_middle_4_def f1_def f2_def f3_def Let_def)
    with via [OF via1 [OF via2 [OF e3]]] 3 show ?thesis by (simp only: byte_words_blocks words)
  qed
qed

lemma range_single:
  "add_same_length_range m a b (packed [l]) (packed [h]) = ws_add_edge m a b (uint l) (uint h)"
proof -
  note u = uint_packed [of "[l]"] uint_packed [of "[h]"]
  have "byte_of 1 (packed [h]) = 0" "byte_of 0 (packed [l]) = l" "byte_of 0 (packed [h]) = h"
    using byte_of_first [of "packed [l]" l "[]"] byte_of_first [of "packed [h]" h "[]"] u by simp_all
  then show ?thesis by (subst add_same_length_range.simps) simp
qed

lemma words_single: "byte_words (words_between [l] [h]) = byte_range (uint l) (uint h)"
proof -
  have "words_between [l] [h] = {[b] | b. uint l \<le> uint b \<and> uint b \<le> uint h}"
    by (auto simp: words_between_def length_Suc_conv word_uint_eq_iff order.order_iff_strict)
  then show ?thesis by (simp add: byte_words_def byte_range_def setcompr_eq_image image_image)
qed

text \<open>What is left under the first byte of the upper bound.\<close>

definition cut_words :: "byte list \<Rightarrow> byte list set" where
  "cut_words hs = (if hs ! 1 = 0xBF then {} else {hs ! 0 # bs | bs. bs \<in> words_between [0x80] [hs ! 1]})"

definition top_words :: "nat \<Rightarrow> byte list \<Rightarrow> byte list set" where
  "top_words n hs = (if n = 2 then cut_words hs else kept_words (low n) hs)"

lemma cut_adds:
  assumes m: "ws_wf m" "a < ws_num_states m" "b < ws_num_states m" and hs: "conts hs" "length hs = 2"
  shows "ws_adds m (add_same_length_range m a b (packed [0, 0x80]) (packed hs)) a (byte_words (cut_words hs)) b"
proof -
  obtain h1 h2 where h: "hs = [h1, h2]" using hs(2) by (auto simp: length_Suc_conv numeral_2_eq_2)
  have c: "is_cont h1" "is_cont h2" using hs(1) by (simp_all add: h)
  then have h1: "h1 \<noteq> 0" "uint h1 < 192" by (auto simp: is_cont_def)
  define m2 where "m2 = (if [h2] \<noteq> high 1 then add_same_length_range (ws_add_target m a (uint h1) (uint h1)) (ws_num_states m) b
    (packed [0x80]) (packed [h2]) else m)"
  have low1: "cut_low 1 = [0x80]" "[0x80] = low 1" by (simp_all add: cut_low_def two_bytes low_def)
  have "add_same_length_range m a b (packed (0 # [0x80])) (packed (h1 # [h2]))
      = add_middle 1 m2 a b (uint (0 - 1 :: byte)) (uint (if [h2] \<noteq> high 1 then h1 else h1 + 1))"
    using range_block [of 1 "[0x80]" "[h2]" h1 m a b 0] c h1(1) low1
    by (simp add: m2_def Let_def is_cont_def)
  moreover have "uint (0 - 1 :: byte) = 255" by (simp add: unsigned_minus_1_eq_mask mask_eq_exp_minus_1)
  moreover have "uint (if [h2] \<noteq> high 1 then h1 else h1 + 1) \<le> 192" using h1(2) by (simp add: uint_plus_if' word_size)
  ultimately have eq: "add_same_length_range m a b (packed [0, 0x80]) (packed hs) = m2"
    by (simp add: h add_middle_def add_middle_2_def)
  show ?thesis
  proof (cases "h2 = 0xBF")
    case True
    then show ?thesis using m unfolding eq by (simp add: m2_def cut_words_def h high_def byte_words_def ws_adds_none)
  next
    case False
    have f: "0 \<le> uint h1" "uint h1 \<le> 255" using byte_lt [of h1] by (simp, linarith)
    have wf: "ws_wf (ws_add_target m a (uint h1) (uint h1))" using m f by (simp add: ws_add_target_wf)
    have "ws_adds (ws_add_target m a (uint h1) (uint h1))
        (add_same_length_range (ws_add_target m a (uint h1) (uint h1)) (ws_num_states m) b (packed [0x80]) (packed [h2]))
        (ws_num_states m) (byte_words (words_between [0x80] [h2])) b"
      unfolding range_single words_single using c(2) byte_lt [of h2]
      by (intro ws_adds_edge [OF wf]) (use m in \<open>auto simp: is_cont_def\<close>)
    from ws_adds_via [OF m _ _ _ this] f have "ws_adds m m2 a (byte_words {h1 # bs | bs. bs \<in> words_between [0x80] [h2]}) b"
      using False by (simp add: m2_def byte_words_Cons [OF refl] high_def)
    with False show ?thesis unfolding eq by (simp add: cut_words_def h)
  qed
qed

lemma skips_top:
  assumes n: "n \<in> {1, 2, 3}" and len: "length ls = n" "length hs = n" "length cs = n" and lh: "l \<noteq> h"
  shows "skips (l # ls) (h # hs) (b # cs) \<longleftrightarrow> b = h \<and> hs \<noteq> high n
    \<and> (n = 2 \<and> \<not> (cs ! 0 = hs ! 0 \<and> hs ! 1 \<noteq> 0xBF) \<or> n = 3 \<and> skips (low 3) hs cs)"
proof -
  consider "n = 1" | "n = 2" | "n = 3" using n by blast
  then show ?thesis
  proof cases
    case 1
    then have "length (h # hs) < 3" using len by simp
    then have "\<not> skips (l # ls) (h # hs) (b # cs)" by (rule skips_short)
    then show ?thesis using 1 by simp
  next
    case 2
    then obtain x1 x2 y1 y2 b1 b2 where "ls = [x1, x2]" "hs = [y1, y2]" "cs = [b1, b2]"
      using len by (auto simp: length_Suc_conv numeral_2_eq_2)
    then show ?thesis using lh by (auto simp: 2 two_bytes)
  next
    case 3
    then obtain x1 x2 x3 where "ls = [x1, x2, x3]" using len by (auto simp: length_Suc_conv numeral_3_eq_3)
    moreover have "\<not> skips (low 3) (high 3) cs"
      using skips_high [of "low 3" 2 "0xBF"] high_Cons [of 2] by (simp add: numeral_3_eq_3 numeral_2_eq_2)
    ultimately show ?thesis using lh by (auto simp: 3)
  qed
qed

lemma top_words_iff:
  assumes n: "n \<in> {1, 2, 3}" and hs: "conts hs" "length hs = n" and cs: "length cs = n"
  shows "cs \<in> top_words n hs \<longleftrightarrow> cs \<in> words_between (low n) hs
    \<and> \<not> (n = 2 \<and> \<not> (cs ! 0 = hs ! 0 \<and> hs ! 1 \<noteq> 0xBF) \<or> n = 3 \<and> skips (low 3) hs cs)"
proof (cases "n = 2")
  case True
  then obtain y1 y2 b1 b2 where e: "hs = [y1, y2]" "cs = [b1, b2]" using hs cs by (auto simp: length_Suc_conv numeral_2_eq_2)
  have "is_cont y1" "is_cont y2" using hs(1) by (simp_all add: e)
  then have y: "128 \<le> uint y1" "uint y1 = 128 \<longleftrightarrow> y1 = 0x80" "uint y2 < 192" by (simp_all add: is_cont_def word_uint_eq_iff)
  show ?thesis using True y by (auto simp: top_words_def cut_words_def e words_between_def two_bytes is_cont_def word_uint_eq_iff)
next
  case False
  then have "skips (low n) hs cs \<longleftrightarrow> n = 3 \<and> skips (low 3) hs cs" using n hs(2) skips_short [of hs] by auto
  with False show ?thesis by (simp add: top_words_def kept_words_def)
qed

lemma kept_split:
  assumes n: "n \<in> {1, 2, 3}" and ls: "conts ls" "conts hs" "length ls = n" "length hs = n" and lh: "uint l < uint h"
  shows "kept_words (l # ls) (h # hs) =
    (if ls = low n then {} else {l # bs | bs. bs \<in> words_between ls (high n)})
    \<union> (if hs = high n then {} else {h # bs | bs. bs \<in> top_words n hs})
    \<union> blocks n (if ls = low n then uint l else uint l + 1) (if hs = high n then uint h else uint h - 1)"
    (is "_ = ?L \<union> ?H \<union> ?M")
proof (intro set_eqI)
  fix w
  have n0: "0 < n" using n by auto
  have ne: "l \<noteq> h" using lh by auto
  note split = words_split [OF ls n0 lh]
  show "w \<in> kept_words (l # ls) (h # hs) \<longleftrightarrow> w \<in> ?L \<union> ?H \<union> ?M"
  proof (cases "\<exists>b cs. w = b # cs \<and> length cs = n")
    case False
    then have "w \<notin> words_between (l # ls) (h # hs)" using ls(3) by (cases w) (auto simp: words_between_def)
    moreover have "w \<notin> ?L \<union> ?H \<union> ?M"
    proof -
      have top: "length bs = n" if "bs \<in> top_words n hs" for bs
        using that n ls(4) by (auto simp: top_words_def cut_words_def kept_words_def words_between_def split: if_splits)
      have "w \<notin> ?L" using False ls(3) by (auto simp: words_between_def)
      moreover have "w \<notin> ?H" using False top by (auto split: if_splits)
      moreover have "w \<notin> ?M" using False by (auto simp: blocks_def)
      ultimately show ?thesis by blast
    qed
    ultimately show ?thesis by (simp add: kept_words_def)
  next
    case True
    then obtain b cs where w: "w = b # cs" "length cs = n" by blast
    note sk = skips_top [OF n ls(3,4) w(2) ne, of b]
    have H: "(h # cs \<in> {h # bs | bs. bs \<in> top_words n hs}) \<longleftrightarrow> cs \<in> top_words n hs" by simp
    show ?thesis
    proof (cases "b = h \<and> hs \<noteq> high n")
      case True
      then have "w \<notin> ?L" "w \<notin> ?M" using ne by (auto simp: w(1) blocks_def)
      moreover have "w \<in> ?H \<longleftrightarrow> cs \<in> top_words n hs" using True by (simp add: w(1))
      moreover have "w \<in> words_between (l # ls) (h # hs) \<longleftrightarrow> cs \<in> words_between (low n) hs"
        unfolding split using True ne by (auto simp: w(1) blocks_def)
      ultimately show ?thesis using sk top_words_iff [OF n ls(2,4) w(2)] True by (auto simp: kept_words_def w(1))
    next
      case False
      then have "\<not> skips (l # ls) (h # hs) w" using sk by (auto simp: w(1))
      moreover have "w \<in> ?L \<union> ?H \<union> ?M \<longleftrightarrow> w \<in> ?L \<union> ?M" using False by (auto simp: w(1))
      moreover have "w \<in> words_between (l # ls) (h # hs) \<longleftrightarrow> w \<in> ?L \<union> ?M" unfolding split using False by (auto simp: w(1))
      ultimately show ?thesis by (simp add: kept_words_def)
    qed
  qed
qed

lemma range_adds:
  assumes "length ls = n" "length hs = n" "n \<le> 3" and "conts ls" "conts hs" and "lex_le (l # ls) (h # hs)"
    and "0 < n \<Longrightarrow> 0 < uint l \<and> uint h < 255"
    and "ws_wf m" "a < ws_num_states m" "b < ws_num_states m"
  shows "ws_adds m (add_same_length_range m a b (packed (l # ls)) (packed (h # hs))) a
    (byte_words (kept_words (l # ls) (h # hs))) b"
  using assms
proof (induction n arbitrary: l ls h hs m a)
  case 0
  then have "uint l \<le> uint h" by auto
  moreover have "uint h \<le> 255" using byte_lt [of h] by linarith
  ultimately show ?case using 0 by (simp add: range_single kept_short words_single ws_adds_edge)
next
  case (Suc k)
  let ?n = "Suc k"
  obtain l' ls' h' hs' where tails: "ls = l' # ls'" "hs = h' # hs'" using Suc.prems(1,2) by (cases ls; cases hs) auto
  have n: "?n \<in> {1, 2, 3}" using Suc.prems(3) by auto
  have lh: "uint l \<le> uint h" "0 < uint l" "uint h < 255" using Suc.prems(6,7) by auto
  then have h: "h \<noteq> 0" by auto
  note block = range_block [OF n Suc.prems(1,2,4,5) h]
  have IH: "ws_adds m (add_same_length_range m q b (packed xs) (packed ys)) q (byte_words (kept_words xs ys)) b"
    if "ws_wf m" "q < ws_num_states m" "b < ws_num_states m" "length xs = ?n" "length ys = ?n" "conts xs" "conts ys" "lex_le xs ys"
    for m q xs ys
  proof -
    note a = that
    obtain x xs' y ys' where xy: "xs = x # xs'" "ys = y # ys'" using a by (cases xs; cases ys) auto
    show ?thesis unfolding xy by (rule Suc.IH) (use a xy Suc.prems(3) in \<open>auto simp: is_cont_def\<close>)
  qed
  have via: "ws_adds m (add_same_length_range (ws_add_target m a (uint f) (uint f)) (ws_num_states m) b (packed xs) (packed ys)) a
      (byte_words {f # bs | bs. bs \<in> kept_words xs ys}) b"
    if m: "ws_wf m" "a < ws_num_states m" "b < ws_num_states m"
      and xy: "length xs = ?n" "length ys = ?n" "conts xs" "conts ys" "lex_le xs ys" for m f xs ys
  proof -
    have f: "0 \<le> uint f" "uint f \<le> 255" using byte_lt [of f] by (simp, linarith)
    have "ws_wf (ws_add_target m a (uint f) (uint f))" using m f by (simp add: ws_add_target_wf)
    from IH [OF this _ _ xy] have "ws_adds (ws_add_target m a (uint f) (uint f))
        (add_same_length_range (ws_add_target m a (uint f) (uint f)) (ws_num_states m) b (packed xs) (packed ys))
        (ws_num_states m) (byte_words (kept_words xs ys)) b" using m by simp
    from ws_adds_via [OF m _ _ _ this] f show ?thesis by (simp add: byte_words_Cons [OF refl])
  qed
  show ?case
  proof (cases "h = l")
    case True
    then have "lex_le ls hs" using Suc.prems(6) by simp
    with via [of m ls hs l] Suc.prems True kept_same_first [of ls hs ?n l] show ?thesis
      unfolding block by simp
  next
    case False
    then have lt: "uint l < uint h" using lh(1) by (simp add: word_uint_eq_iff order.order_iff_strict)
    define m1 where "m1 = (if ls \<noteq> low ?n then add_same_length_range (ws_add_target m a (uint l) (uint l)) (ws_num_states m) b
        (packed ls) (packed (high ?n)) else m)"
    define bmin where "bmin = (if ls \<noteq> low ?n then l else l - 1)"
    define m2 where "m2 = (if hs \<noteq> high ?n then add_same_length_range (ws_add_target m1 a (uint h) (uint h)) (ws_num_states m1) b
        (packed (cut_low ?n)) (packed hs) else m1)"
    define bmax where "bmax = (if hs \<noteq> high ?n then h else h + 1)"
    have eq: "add_same_length_range m a b (packed (l # ls)) (packed (h # hs)) = add_middle ?n m2 a b (uint bmin) (uint bmax)"
      using False by (simp only: block m1_def m2_def bmin_def bmax_def Let_def if_False)
    have u: "uint bmin + 1 = (if ls = low ?n then uint l else uint l + 1)" "uint bmax - 1 = (if hs = high ?n then uint h else uint h - 1)"
      using lh by (simp_all add: bmin_def bmax_def uint_sub_if' uint_plus_if' word_size)
    have m1: "ws_adds m m1 a (byte_words (if ls = low ?n then {} else {l # bs | bs. bs \<in> words_between ls (high ?n)})) b"
    proof -
      have "kept_words ls (high ?n) = words_between ls (high ?n)"
        using kept_high [of ls k "0xBF"] Suc.prems(1,3) by (simp add: high_Cons)
      with via [of m ls "high ?n" l] Suc.prems lex_high [of ls ?n] ws_adds_none [of m a b] show ?thesis
        by (simp add: m1_def byte_words_def)
    qed
    note m1' = ws_adds_wf [OF m1 Suc.prems(8)] ws_adds_states [OF m1]
    have m2: "ws_adds m1 m2 a (byte_words (if hs = high ?n then {} else {h # bs | bs. bs \<in> top_words ?n hs})) b"
    proof (cases "hs \<noteq> high ?n \<and> ?n = 2")
      case True
      have f: "0 \<le> uint h" "uint h \<le> 255" using byte_lt [of h] by (simp, linarith)
      have w: "ws_wf m1" "a < ws_num_states m1" "b < ws_num_states m1" using m1' Suc.prems(9,10) by simp_all
      have "ws_wf (ws_add_target m1 a (uint h) (uint h))" using w f by (simp add: ws_add_target_wf)
      from cut_adds [OF this, of "ws_num_states m1" b hs] have "ws_adds (ws_add_target m1 a (uint h) (uint h))
          (add_same_length_range (ws_add_target m1 a (uint h) (uint h)) (ws_num_states m1) b (packed [0, 0x80]) (packed hs))
          (ws_num_states m1) (byte_words (cut_words hs)) b" using w True Suc.prems(2,5) by simp
      from ws_adds_via [OF w _ _ _ this] f True show ?thesis
        by (auto simp: m2_def cut_low_def top_words_def byte_words_Cons [OF refl])
    next
      case False
      then show ?thesis
        using via [of m1 "low ?n" hs h] Suc.prems lex_low [of hs ?n] ws_adds_none [of m1 a b] m1'
        by (auto simp: m2_def byte_words_def cut_low_def top_words_def)
    qed
    note m2' = ws_adds_wf [OF m2 m1'(1)] ws_adds_states [OF m2]
    have m3: "ws_adds m2 (add_middle ?n m2 a b (uint bmin) (uint bmax)) a (byte_words (blocks ?n (uint bmin + 1) (uint bmax - 1))) b"
      by (rule add_middle_adds) (use m1' m2' Suc.prems n u lh in \<open>auto split: if_splits\<close>)
    note all = ws_adds_both [OF ws_adds_both [OF m1 m2 Suc.prems(9,10)] m3 Suc.prems(9,10)]
    show ?thesis using all unfolding eq kept_split [OF n Suc.prems(4,5,1,2) lt]
      by (simp only: u byte_words_def image_Un)
  qed
qed

subsection \<open>Ranges over the lengths of the encoding\<close>

text \<open>A byte sequence of the form of an encoded character: a first byte that announces the length,
  and continuation bytes. (Overlong forms, such as \<open>C0 80\<close>, have it too.)\<close>

definition first_min :: "nat \<Rightarrow> int" where
  "first_min n = (if n = 1 then 0 else if n = 2 then 192 else if n = 3 then 224 else 240)"

definition first_max :: "nat \<Rightarrow> int" where
  "first_max n = (if n = 1 then 127 else if n = 2 then 223 else if n = 3 then 239 else 247)"

definition shaped :: "byte list \<Rightarrow> bool" where
  "shaped bs \<longleftrightarrow> bs \<noteq> [] \<and> length bs \<le> 4 \<and> conts (tl bs)
     \<and> first_min (length bs) \<le> uint (hd bs) \<and> uint (hd bs) \<le> first_max (length bs)"

definition enc_le :: "byte list \<Rightarrow> byte list \<Rightarrow> bool" where
  "enc_le xs ys \<longleftrightarrow> length xs < length ys \<or> length xs = length ys \<and> lex_le xs ys"

definition encoded_between :: "byte list \<Rightarrow> byte list \<Rightarrow> byte list set" where
  "encoded_between lo hi = {bs. shaped bs \<and> enc_le lo bs \<and> enc_le bs hi}"

definition min_enc :: "nat \<Rightarrow> byte list" where
  "min_enc n = word_of_int (first_min n) # low (n - 1)"

definition max_enc :: "nat \<Rightarrow> byte list" where
  "max_enc n = word_of_int (first_max n) # high (n - 1)"

lemma shaped_length: "shaped bs \<Longrightarrow> length bs = 1 \<or> length bs = 2 \<or> length bs = 3 \<or> length bs = 4"
proof -
  assume "shaped bs"
  then have "0 < length bs" "length bs \<le> 4" by (auto simp: shaped_def)
  then show ?thesis by linarith
qed

lemma uint_first: "uint (word_of_int (first_min n) :: byte) = first_min n" "uint (word_of_int (first_max n) :: byte) = first_max n"
  by (simp_all add: first_min_def first_max_def)

lemma shaped_enc:
  assumes "n \<in> {1, 2, 3, 4}"
  shows "shaped (min_enc n)" "shaped (max_enc n)" "length (min_enc n) = n" "length (max_enc n) = n"
  using assms by (auto simp: shaped_def min_enc_def max_enc_def uint_first, auto simp: first_min_def first_max_def)

lemma lex_enc:
  assumes "shaped bs" and "length bs = n"
  shows "lex_le (min_enc n) bs" and "lex_le bs (max_enc n)"
proof -
  obtain b cs where b: "bs = b # cs" using assms(1) by (cases bs) (auto simp: shaped_def)
  with assms have "first_min n \<le> uint b" "uint b \<le> first_max n" "conts cs" "length cs = n - 1" by (auto simp: shaped_def)
  moreover have "b = word_of_int k \<or> uint b \<noteq> k" for k by (metis word_of_int_uint)
  ultimately show "lex_le (min_enc n) bs" and "lex_le bs (max_enc n)"
    using lex_low [of cs "n - 1"] lex_high [of cs "n - 1"]
    by (auto simp: b min_enc_def max_enc_def uint_first less_le simp del: word_of_int_uint)
qed

lemma packed_enc:
  "packed (max_enc 1) = MAX_1B" "packed (min_enc 2) = MIN_2B" "packed (max_enc 2) = MAX_2B" "packed (min_enc 3) = MIN_3B"
  "packed (max_enc 3) = MAX_3B" "packed (min_enc 4) = MIN_4B" "packed (max_enc 4) = MAX_4B"
proof -
  have r: "replicate 3 x = [x, x, x]" "replicate 2 x = [x, x]" "replicate 1 x = [x]" "replicate 0 x = []" for x :: byte
    by (simp_all add: numeral_3_eq_3 numeral_2_eq_2)
  have d: "1 - 1 = (0::nat)" "2 - 1 = (1::nat)" "3 - 1 = (2::nat)" "4 - 1 = (3::nat)" by simp_all
  show "packed (max_enc 1) = MAX_1B" "packed (min_enc 2) = MIN_2B" "packed (max_enc 2) = MAX_2B" "packed (min_enc 3) = MIN_3B"
    "packed (max_enc 3) = MAX_3B" "packed (min_enc 4) = MIN_4B" "packed (max_enc 4) = MAX_4B"
    unfolding packed_def min_enc_def max_enc_def low_def high_def d r packed_bounds first_min_def first_max_def pv_def
    by simp_all
qed

text \<open>Where the packed values of each length lie.\<close>

lemma pv_shaped:
  assumes "shaped bs"
  shows "length bs = 1 \<Longrightarrow> pv bs \<le> 0x7F" "length bs = 2 \<Longrightarrow> 0xC080 \<le> pv bs \<and> pv bs \<le> 0xDFBF"
    "length bs = 3 \<Longrightarrow> 0xE08080 \<le> pv bs \<and> pv bs \<le> 0xEFBFBF"
    "length bs = 4 \<Longrightarrow> 0xF0808080 \<le> pv bs \<and> pv bs \<le> 0xF7BFBFBF"
proof -
  obtain b cs where b: "bs = b # cs" using assms by (cases bs) (auto simp: shaped_def)
  show "length bs = 1 \<Longrightarrow> pv bs \<le> 0x7F"
    using assms by (auto simp: b shaped_def pv_def first_max_def)
  show "length bs = 2 \<Longrightarrow> 0xC080 \<le> pv bs \<and> pv bs \<le> 0xDFBF"
    using assms by (auto simp: b shaped_def pv_def first_max_def first_min_def is_cont_def length_Suc_conv eval_nat_numeral)
  show "length bs = 3 \<Longrightarrow> 0xE08080 \<le> pv bs \<and> pv bs \<le> 0xEFBFBF"
    using assms by (auto simp: b shaped_def pv_def first_max_def first_min_def is_cont_def length_Suc_conv eval_nat_numeral)
  show "length bs = 4 \<Longrightarrow> 0xF0808080 \<le> pv bs \<and> pv bs \<le> 0xF7BFBFBF"
    using assms by (auto simp: b shaped_def pv_def first_max_def first_min_def is_cont_def length_Suc_conv eval_nat_numeral)
qed

lemma shaped_Cons: "shaped bs \<Longrightarrow> \<exists>b cs. bs = b # cs \<and> conts cs \<and> length cs = length bs - 1"
  by (cases bs) (auto simp: shaped_def)

definition chunk_words :: "byte list \<Rightarrow> byte list \<Rightarrow> byte list set" where
  "chunk_words xs ys = {bs. shaped bs \<and> length bs = length xs \<and> lex_le xs bs \<and> lex_le bs ys \<and> \<not> skips xs ys bs}"

lemma chunk_adds:
  assumes "shaped xs" "shaped ys" "length xs = length ys" "lex_le xs ys"
    and "ws_wf m" "a < ws_num_states m" "b < ws_num_states m"
  shows "ws_adds m (add_same_length_range m a b (packed xs) (packed ys)) a
    (byte_words (chunk_words xs ys)) b"
proof -
  obtain x xs' y ys' where xy: "xs = x # xs'" "ys = y # ys'" "conts xs'" "conts ys'"
    using shaped_Cons assms(1,2) by blast
  have "words_between xs ys = {bs. shaped bs \<and> length bs = length xs \<and> lex_le xs bs \<and> lex_le bs ys}"
  proof (intro set_eqI iffI)
    fix bs
    assume bs: "bs \<in> words_between xs ys"
    then obtain c cs where c: "bs = c # cs" by (cases bs) (auto simp: words_between_def xy)
    with bs have "uint x \<le> uint c" "uint c \<le> uint y" "length bs = length xs" "conts cs"
      by (auto simp: words_between_def xy)
    moreover have "first_min (length xs) \<le> uint x" "uint y \<le> first_max (length xs)" "length xs \<le> 4"
      using assms(1-3) by (auto simp: shaped_def xy)
    ultimately have "shaped bs" by (simp add: shaped_def c)
    then show "bs \<in> {bs. shaped bs \<and> length bs = length xs \<and> lex_le xs bs \<and> lex_le bs ys}"
      using bs by (auto simp: words_between_def)
  qed (auto simp: words_between_def shaped_def)
  then have "kept_words xs ys = chunk_words xs ys" by (auto simp: kept_words_def chunk_words_def)
  moreover have "ws_adds m (add_same_length_range m a b (packed (x # xs')) (packed (y # ys'))) a
      (byte_words (kept_words (x # xs') (y # ys'))) b"
  proof (rule range_adds [OF refl])
    show "0 < length xs' \<Longrightarrow> 0 < uint x \<and> uint y < 255"
      using assms(1-3) by (auto simp: shaped_def xy first_min_def first_max_def split: if_splits)
  qed (use assms xy in \<open>auto simp: shaped_def\<close>)
  ultimately show ?thesis by (simp add: xy)
qed

lemma lex_le_pv: "length xs = length ys \<Longrightarrow> lex_le xs ys \<Longrightarrow> pv xs \<le> pv ys"
proof (induction xs ys rule: lex_le.induct)
  case (1 x xs y ys)
  let ?n = "256 ^ length ys :: int"
  show ?case
  proof (cases "x = y")
    case True
    with 1 show ?thesis by (auto simp: pv_Cons)
  next
    case False
    with 1 have "uint x + 1 \<le> uint y" by simp
    then have "(uint x + 1) * ?n \<le> uint y * ?n" by (intro mult_right_mono) auto
    then have "uint x * ?n + ?n \<le> uint y * ?n" by (simp only: distrib_right mult_1)
    moreover have "pv xs < ?n" "0 \<le> pv ys" using pv_bounds [of xs] pv_bounds [of ys] 1(2) by simp_all
    ultimately show ?thesis using 1(2) by (simp add: pv_Cons)
  qed
qed auto

text \<open>The pieces the code cuts a range into: one for each length of the encoding.\<close>

definition range_chunks :: "byte list \<Rightarrow> byte list \<Rightarrow> (byte list \<times> byte list) list" where
  "range_chunks L H =
    (if length L = length H then [(L, H)]
     else (L, max_enc (length L)) # map (\<lambda>n. (min_enc n, max_enc n)) [length L + 1..<length H] @ [(min_enc (length H), H)])"

definition add_chunk :: "nat \<Rightarrow> nat \<Rightarrow> byte list \<times> byte list \<Rightarrow> fsm_wse \<Rightarrow> fsm_wse" where
  "add_chunk a b c m = add_same_length_range m a b (packed (fst c)) (packed (snd c))"

lemma add_character_range_chunks:
  assumes L: "shaped L" and H: "shaped H" and le: "enc_le L H"
  shows "add_character_range m a b (packed L) (packed H) = Some (fold (add_chunk a b) (range_chunks L H) m)"
proof -
  have uL: "uint (packed L) = pv L" and uH: "uint (packed H) = pv H" using L H by (auto simp: uint_packed shaped_def)
  have word: "(packed L \<le> w) = (pv L \<le> uint w)" "(w \<le> packed L) = (uint w \<le> pv L)" "(packed L < w) = (pv L < uint w)"
    "(w < packed L) = (uint w < pv L)" "(packed H \<le> w) = (pv H \<le> uint w)" "(w \<le> packed H) = (uint w \<le> pv H)"
    "(packed H < w) = (pv H < uint w)" "(w < packed H) = (uint w < pv H)" for w :: u32w
    by (simp_all add: word_le_def word_less_def uL uH)
  have bounds: "uint MAX_1B = 0x7F" "uint MIN_2B = 0xC080" "uint MAX_2B = 0xDFBF" "uint MIN_3B = 0xE08080"
    "uint MAX_3B = 0xEFBFBF" "uint MIN_4B = 0xF0808080" "uint MAX_4B = 0xF7BFBFBF"
    by (simp_all add: packed_bounds)
  note pL = pv_shaped [OF L] and pH = pv_shaped [OF H]
  have "pv L \<le> pv H"
    using le shaped_length [OF H] shaped_length [OF L] pL pH lex_le_pv [of L H] unfolding enc_le_def
    by (elim disjE) simp_all
  then have le': "packed L \<le> packed H" by (simp add: word uL)
  have clamp: "clamp_max (packed H) = packed H" "clamp_min (packed L) = packed L"
    using shaped_length [OF H] shaped_length [OF L] pL pH by (auto simp: clamp_max_def clamp_min_def word bounds)
  have upt: "[2..<2] = []" "[2..<3] = [2::nat]" "[2..<4] = [2, 3::nat]" "[3..<4] = [3::nat]" by (simp_all add: upt_rec)
  show ?thesis
    using shaped_length [OF H] shaped_length [OF L] pL pH le le'
    by (elim disjE) (simp_all add: add_character_range_def clamp Let_def word bounds range_chunks_def add_chunk_def packed_enc packed_enc(1) [unfolded One_nat_def]
      enc_le_def upt numeral_2_eq_2 [symmetric])
qed

lemma fold_chunks_adds:
  assumes "\<forall>(xs, ys)\<in>set cs. shaped xs \<and> shaped ys \<and> length xs = length ys \<and> lex_le xs ys"
    and "ws_adds m m0 a (byte_words W) b" and "ws_wf m" "a < ws_num_states m" "b < ws_num_states m"
  shows "ws_adds m (fold (add_chunk a b) cs m0) a
    (byte_words (W \<union> (\<Union>(xs, ys)\<in>set cs. chunk_words xs ys))) b"
  using assms
proof (induction cs arbitrary: m0 W)
  case (Cons c cs)
  obtain xs ys where c: "c = (xs, ys)" by force
  let ?W = "chunk_words xs ys"
  have w: "ws_wf m0" "ws_num_states m \<le> ws_num_states m0"
    using Cons.prems(2,3) ws_adds_wf ws_adds_states by blast+
  have "ws_adds m0 (add_chunk a b c m0) a (byte_words ?W) b"
    unfolding add_chunk_def c fst_conv snd_conv by (rule chunk_adds) (use Cons.prems c w in auto)
  from ws_adds_both [OF Cons.prems(2) this Cons.prems(4,5)]
  have "ws_adds m (add_chunk a b c m0) a (byte_words (W \<union> ?W)) b" by (simp add: byte_words_def image_Un)
  from Cons.IH [OF _ this Cons.prems(3-5)] Cons.prems(1) show ?case by (simp add: c Un_assoc)
qed simp

text \<open>Only the piece that ends at the upper bound loses words.\<close>

definition skipped :: "byte list \<Rightarrow> byte list \<Rightarrow> byte list \<Rightarrow> bool" where
  "skipped L H bs \<longleftrightarrow> length bs = length H \<and> skips (if length L = length H then L else min_enc (length H)) H bs"

definition coded_between :: "byte list \<Rightarrow> byte list \<Rightarrow> byte list set" where
  "coded_between L H = {bs \<in> encoded_between L H. \<not> skipped L H bs}"

lemma skips_max_enc: "length xs = n \<Longrightarrow> n \<in> {1, 2, 3, 4} \<Longrightarrow> \<not> skips xs (max_enc n) bs"
  using skips_high [of xs "n - 1" "word_of_int (first_max n)" bs] by (auto simp: max_enc_def)

lemma range_chunks_words:
  assumes L: "shaped L" and H: "shaped H" and le: "enc_le L H"
  shows "(\<Union>(xs, ys)\<in>set (range_chunks L H). chunk_words xs ys) = coded_between L H"
proof (cases "length L = length H")
  case True
  then show ?thesis by (auto simp: range_chunks_def chunk_words_def coded_between_def skipped_def encoded_between_def enc_le_def)
next
  case False
  then have lt: "length L < length H" using le by (simp add: enc_le_def)
  have len: "\<And>n. n \<in> set [length L + 1..<length H] \<Longrightarrow> n \<in> {1, 2, 3, 4}" using shaped_length [OF L] shaped_length [OF H] by auto
  have LH: "length L \<in> {1, 2, 3, 4}" "length H \<in> {1, 2, 3, 4}" using shaped_length L H by auto
  show ?thesis
  proof (intro set_eqI iffI)
    fix bs
    assume "bs \<in> (\<Union>(xs, ys)\<in>set (range_chunks L H). chunk_words xs ys)"
    then show "bs \<in> coded_between L H"
      using False lt shaped_enc [OF LH(1)] shaped_enc [OF LH(2)] shaped_enc [OF len]
      by (auto simp: range_chunks_def chunk_words_def coded_between_def skipped_def encoded_between_def enc_le_def)
  next
    fix bs
    assume "bs \<in> coded_between L H"
    then have bs: "shaped bs" "enc_le L bs" "enc_le bs H" "\<not> skipped L H bs" by (auto simp: coded_between_def encoded_between_def)
    then consider "length bs = length L" "lex_le L bs" | "length bs = length H" "lex_le bs H"
      | "length bs \<in> set [length L + 1..<length H]" by (force simp: enc_le_def)
    then show "bs \<in> (\<Union>(xs, ys)\<in>set (range_chunks L H). chunk_words xs ys)"
    proof cases
      case 1
      then show ?thesis using bs(1) lex_enc(2) [OF bs(1) refl] False skips_max_enc [OF refl LH(1)]
        by (auto simp: range_chunks_def chunk_words_def)
    next
      case 2
      then show ?thesis using bs(1,4) lex_enc(1) [OF bs(1) refl] False shaped_enc [OF LH(2)]
        by (auto simp: range_chunks_def chunk_words_def skipped_def)
    next
      case 3
      then have "(min_enc (length bs), max_enc (length bs)) \<in> set (range_chunks L H)" using False by (auto simp: range_chunks_def)
      moreover have "length (min_enc (length bs)) = length bs" using shaped_enc [OF len [OF 3]] by simp
      ultimately show ?thesis using bs(1) lex_enc [OF bs(1) refl] skips_max_enc [OF _ len [OF 3]] by (fastforce simp: chunk_words_def)
    qed
  qed
qed

text \<open>Nothing is lost up to the last form of a length.\<close>

lemma coded_whole: "n \<in> {1, 2, 3, 4} \<Longrightarrow> coded_between L (max_enc n) = encoded_between L (max_enc n)"
  using skips_max_enc [of "if length L = n then L else min_enc n" n] shaped_enc [of n]
  by (auto simp: coded_between_def skipped_def)

text \<open>The machine grows by exactly the sequences of an encoded form between the bounds, ordered by
  length and then by bytes, less those that are skipped: overlong forms among them, when the range
  crosses a length.\<close>

lemma add_character_range_adds:
  assumes L: "shaped L" and H: "shaped H" and le: "enc_le L H"
    and m: "ws_wf m" "a < ws_num_states m" "b < ws_num_states m"
  shows "\<exists>m'. add_character_range m a b (packed L) (packed H) = Some m' \<and> ws_adds m m' a (byte_words (coded_between L H)) b"
proof -
  have LH: "length L \<in> {1, 2, 3, 4}" "length H \<in> {1, 2, 3, 4}" using shaped_length L H by auto
  have "\<forall>(xs, ys)\<in>set (range_chunks L H). shaped xs \<and> shaped ys \<and> length xs = length ys \<and> lex_le xs ys"
  proof -
    have mid: "shaped (min_enc n) \<and> shaped (max_enc n) \<and> length (min_enc n) = length (max_enc n) \<and> lex_le (min_enc n) (max_enc n)"
      if "n \<in> {1, 2, 3, 4}" for n
      using shaped_enc [OF that] lex_enc(1) [of "max_enc n" n] by simp
    have "n \<in> {1, 2, 3, 4}" if "n \<in> set [length L + 1..<length H]" for n using that LH by auto
    then show ?thesis using L H le shaped_enc [OF LH(1)] shaped_enc [OF LH(2)] lex_enc(2) [OF L refl] lex_enc(1) [OF H refl] mid
      by (auto simp: range_chunks_def enc_le_def)
  qed
  from fold_chunks_adds [OF this _ m, of m "{}"] ws_adds_none [OF m(1), of a b]
  have "ws_adds m (fold (add_chunk a b) (range_chunks L H) m) a (byte_words (coded_between L H)) b"
    by (simp only: range_chunks_words [OF L H le] Un_empty_left) (simp add: byte_words_def)
  then show ?thesis using add_character_range_chunks [OF L H le] by blast
qed

end
