(* ===== verification/Char_Words.thy ===== *)
theory Char_Words
  imports Range_Lang
begin

text \<open>
  Ranges of characters: the packed form of a code point is the packed form of its encoding, and the
  order of code points is the order of their encodings. The words that a range of code points adds contain
  the encoding of a code point exactly when it lies in the range and is not \<open>lost\<close>: the constant
  \<open>0x0080\<close> of \<open>char_range_same_len.rs\<close> costs a range characters of the block of 4096 code points that
  its upper bound is in. A range that ends with a block, or has no block before that one, is \<open>whole\<close>.
\<close>

subsection \<open>Characters\<close>

lemma u32_or_shift: "uint v < 256 \<Longrightarrow> uint u < 16777216 \<Longrightarrow> uint (push_bit 8 u OR v) = uint u * 256 + uint v" for u v :: u32w
proof -
  assume v: "uint v < 256" and u: "uint u < 16777216"
  have "take_bit 8 (push_bit 8 u) = 0" by (simp add: take_bit_push_bit)
  then have z: "push_bit 8 u AND mask 8 = 0" by (simp add: take_bit_eq_mask)
  have "uint (push_bit 8 u) = take_bit 32 (push_bit 8 (uint u))" by (simp only: unsigned_push_bit_eq) simp
  also have "\<dots> = uint u * 256" using u by (simp only: push_bit_eq_mult) (simp add: take_bit_int_eq_self)
  finally have "uint (push_bit 8 u) = uint u * 256" .
  then show ?thesis using uint_header [OF z, of v] v by simp
qed

lemma u32_headers:
  "uint (0x80 OR (w AND 0x3F)) = 128 + uint w mod 64" "uint (0xC0 OR (w AND 0x1F)) = 192 + uint w mod 32"
  "uint (0xE0 OR (w AND 0x0F)) = 224 + uint w mod 16" "uint (0xF0 OR (w AND 0x07)) = 240 + uint w mod 8" for w :: u32w
proof -
  have h: "(0x80 :: u32w) AND mask 6 = 0" "(0xC0 :: u32w) AND mask 5 = 0" "(0xE0 :: u32w) AND mask 4 = 0" "(0xF0 :: u32w) AND mask 3 = 0"
    by (simp_all add: mask_numeral)
  show "uint (0x80 OR (w AND 0x3F)) = 128 + uint w mod 64" "uint (0xC0 OR (w AND 0x1F)) = 192 + uint w mod 32"
    "uint (0xE0 OR (w AND 0x0F)) = 224 + uint w mod 16" "uint (0xF0 OR (w AND 0x07)) = 240 + uint w mod 8"
    using uint_header [OF h(1), of "w AND 0x3F"] uint_header [OF h(2), of "w AND 0x1F"]
      uint_header [OF h(3), of "w AND 0x0F"] uint_header [OF h(4), of "w AND 0x07"] by simp_all
qed

lemma packed_codepoint:
  assumes c: "0 \<le> c" "c < 2097152"
  shows "codepoint_to_packed_utf8 (word_of_int c) = packed (char_to_utf8 c)"
proof -
  define w where "w = (word_of_int c :: u32w)"
  have w: "uint w = c" using c by (simp add: w_def unsigned_of_int take_bit_int_eq_self)
  then have le: "w \<le> 0x7F \<longleftrightarrow> c < 128" "w \<le> 0x7FF \<longleftrightarrow> c < 2048" "w \<le> 0xFFFF \<longleftrightarrow> c < 65536"
    by (auto simp: word_le_def)
  have d: "uint (drop_bit 6 w) = c div 64" "uint (drop_bit 12 w) = c div 4096" "uint (drop_bit 18 w) = c div 262144"
    by (simp_all add: drop_bit_eq_div uint_div w)
  have m: "0 \<le> x mod 64" "x mod 64 < 64" "x mod 32 < 32" "x mod 16 < 16" "x mod 8 < 8" "0 \<le> x mod 32" "0 \<le> x mod 16" "0 \<le> x mod 8" for x :: int
    by simp_all
  note b = u32_headers [of w] u32_headers [of "drop_bit 6 w"] u32_headers [of "drop_bit 12 w"] u32_headers [of "drop_bit 18 w"]
  have two: "uint (push_bit 8 u OR v) = uint u * 256 + uint v" if "uint v < 256" "uint u < 256" for u v :: u32w
    by (rule u32_or_shift) (use that in linarith)+
  have three: "uint (push_bit 16 t OR push_bit 8 u OR v) = (uint t * 256 + uint u) * 256 + uint v"
    if "uint v < 256" "uint u < 256" "uint t < 256" for t u v :: u32w
  proof -
    have e: "push_bit 16 t OR push_bit 8 u OR v = push_bit 8 (push_bit 8 t OR u) OR v" by (simp add: push_bit_or or.assoc)
    have i: "uint (push_bit 8 t OR u) = uint t * 256 + uint u" by (rule two) fact+
    have l: "uint v < 256" by fact
    have u: "uint (push_bit 8 t OR u) < 16777216" unfolding i using that by linarith
    show ?thesis unfolding e using u32_or_shift [OF l u] unfolding i .
  qed
  have four: "uint (push_bit 24 s OR push_bit 16 t OR push_bit 8 u OR v) = ((uint s * 256 + uint t) * 256 + uint u) * 256 + uint v"
    if "uint v < 256" "uint u < 256" "uint t < 256" "uint s < 256" for s t u v :: u32w
  proof -
    have e: "push_bit 24 s OR push_bit 16 t OR push_bit 8 u OR v = push_bit 8 (push_bit 16 s OR push_bit 8 t OR u) OR v"
      by (simp add: push_bit_or or.assoc)
    have i: "uint (push_bit 16 s OR push_bit 8 t OR u) = (uint s * 256 + uint t) * 256 + uint u" by (rule three) fact+
    have l: "uint v < 256" by fact
    have "uint s \<le> 255" "uint t \<le> 255" "uint u \<le> 255" using that by simp_all
    then have u: "uint (push_bit 16 s OR push_bit 8 t OR u) < 16777216" unfolding i by (simp add: distrib_right)
    show ?thesis unfolding e using u32_or_shift [OF l u] unfolding i .
  qed
  note u = char_to_utf8_uints [OF c]
  have pv: "pv bs = foldl (\<lambda>a x. a * 256 + x) 0 (map uint bs)" for bs by (simp add: pv_def foldl_map)
  have "length (map uint (char_to_utf8 c)) \<le> 4" unfolding u by simp
  then have "uint (packed (char_to_utf8 c)) = foldl (\<lambda>a x. a * 256 + x) 0 (map uint (char_to_utf8 c))"
    by (simp add: uint_packed pv)
  moreover have "uint (codepoint_to_packed_utf8 w) = foldl (\<lambda>a x. a * 256 + x) 0 (map uint (char_to_utf8 c))"
  proof -
    have lt: "uint (0x80 OR (x AND 0x3F)) < 256" "uint (0xC0 OR (x AND 0x1F)) < 256" "uint (0xE0 OR (x AND 0x0F)) < 256"
      "uint (0xF0 OR (x AND 0x07)) < 256" for x :: u32w
      unfolding u32_headers using m [of "uint x"] by linarith+
    have lead: "c div 64 mod 32 = c div 64" if "c < 2048" using that c by simp
    have lead3: "c div 4096 mod 16 = c div 4096" if "c < 65536" using that c by simp
    have lead4: "c div 262144 mod 8 = c div 262144" using c by simp
    consider "c < 128" | "128 \<le> c" "c < 2048" | "2048 \<le> c" "c < 65536" | "65536 \<le> c" by linarith
    then show ?thesis
    proof cases
      case 1
      then show ?thesis unfolding u by (simp add: codepoint_to_packed_utf8_def le w)
    next
      case 2
      then have "codepoint_to_packed_utf8 w = push_bit 8 (0xC0 OR (drop_bit 6 w AND 0x1F)) OR (0x80 OR (w AND 0x3F))"
        unfolding codepoint_to_packed_utf8_def le Let_def by simp
      then show ?thesis using 2 unfolding u two [OF lt(1) lt(2)] by (simp only: two [OF lt(1) lt(2)] b d w lead) simp
    next
      case 3
      then have "codepoint_to_packed_utf8 w = push_bit 16 (0xE0 OR (drop_bit 12 w AND 0x0F))
          OR push_bit 8 (0x80 OR (drop_bit 6 w AND 0x3F)) OR (0x80 OR (w AND 0x3F))"
        unfolding codepoint_to_packed_utf8_def le Let_def by simp
      then show ?thesis using 3 unfolding u by (simp only: three [OF lt(1) lt(1) lt(3)] b d w lead3) simp
    next
      case 4
      then have "codepoint_to_packed_utf8 w = push_bit 24 (0xF0 OR (drop_bit 18 w AND 0x07))
          OR push_bit 16 (0x80 OR (drop_bit 12 w AND 0x3F)) OR push_bit 8 (0x80 OR (drop_bit 6 w AND 0x3F)) OR (0x80 OR (w AND 0x3F))"
        unfolding codepoint_to_packed_utf8_def le Let_def by simp
      then show ?thesis using 4 unfolding u by (simp only: four [OF lt(1) lt(1) lt(1) lt(4)] b d w lead4) simp
    qed
  qed
  ultimately show ?thesis by (simp add: word_uint_eq_iff w_def)
qed

lemma char_to_utf8_shape:
  assumes c: "0 \<le> c" "c < 2097152"
  shows "shaped (char_to_utf8 c)"
    and "length (char_to_utf8 c) = (if c < 128 then 1 else if c < 2048 then 2 else if c < 65536 then 3 else 4)"
proof -
  note u = char_to_utf8_uints [OF c]
  have "length (map uint (char_to_utf8 c)) = (if c < 128 then 1 else if c < 2048 then 2 else if c < 65536 then 3 else 4)"
    unfolding u by simp
  then show len: "length (char_to_utf8 c) = (if c < 128 then 1 else if c < 2048 then 2 else if c < 65536 then 3 else 4)" by simp
  then have ne: "char_to_utf8 c \<noteq> []" by (auto split: if_splits)
  have "uint (hd (char_to_utf8 c)) = hd (map uint (char_to_utf8 c))" using ne by (simp add: list.map_sel(1))
  moreover have "first_min (length (char_to_utf8 c)) \<le> hd (map uint (char_to_utf8 c))
      \<and> hd (map uint (char_to_utf8 c)) \<le> first_max (length (char_to_utf8 c))"
    unfolding u len using c by (auto simp: first_min_def first_max_def)
  moreover have "conts (tl (char_to_utf8 c))"
  proof -
    have "\<forall>x\<in>set (map uint (tl (char_to_utf8 c))). 128 \<le> x \<and> x < 192"
      unfolding map_tl u by auto
    then show ?thesis by (auto simp: conts_def is_cont_def)
  qed
  ultimately show "shaped (char_to_utf8 c)" using ne len by (auto simp: shaped_def)
qed

text \<open>The packed values of one length are ordered as the code points.\<close>

lemma digit_order:
  fixes q q' Q Q' r r' :: int
  assumes "0 \<le> r" "r < 64" "0 \<le> r'" "r' < 64" and "q < q' \<longleftrightarrow> Q < Q'" and "q = q' \<longleftrightarrow> Q = Q'"
  shows "q * 64 + r < q' * 64 + r' \<longleftrightarrow> Q * 256 + (128 + r) < Q' * 256 + (128 + r')"
    and "q * 64 + r = q' * 64 + r' \<longleftrightarrow> Q * 256 + (128 + r) = Q' * 256 + (128 + r')"
proof -
  consider "q < q'" "Q < Q'" | "q = q'" "Q = Q'" | "q' < q" "Q' < Q" using assms(5,6) by linarith
  then show "q * 64 + r < q' * 64 + r' \<longleftrightarrow> Q * 256 + (128 + r) < Q' * 256 + (128 + r')"
    using assms(1-4) by cases auto
  consider "q < q'" "Q < Q'" | "q = q'" "Q = Q'" | "q' < q" "Q' < Q" using assms(5,6) by linarith
  then show "q * 64 + r = q' * 64 + r' \<longleftrightarrow> Q * 256 + (128 + r) = Q' * 256 + (128 + r')"
    using assms(1-4) by cases auto
qed

lemma digit_cmp:
  fixes x y Q Q' :: int
  assumes "x div 64 < y div 64 \<longleftrightarrow> Q < Q'" "x div 64 = y div 64 \<longleftrightarrow> Q = Q'"
  shows "x < y \<longleftrightarrow> Q * 256 + (128 + x mod 64) < Q' * 256 + (128 + y mod 64)"
    and "x = y \<longleftrightarrow> Q * 256 + (128 + x mod 64) = Q' * 256 + (128 + y mod 64)"
  using digit_order [of "x mod 64" "y mod 64" "x div 64" "y div 64" Q Q'] assms by simp_all

lemma pv_order:
  assumes c: "0 \<le> c" "c < 2097152" and d: "0 \<le> d" "d < 2097152"
    and len: "length (char_to_utf8 c) = length (char_to_utf8 d)"
  shows "pv (char_to_utf8 c) < pv (char_to_utf8 d) \<longleftrightarrow> c < d" and "pv (char_to_utf8 c) = pv (char_to_utf8 d) \<longleftrightarrow> c = d"
proof -
  have pv: "pv bs = foldl (\<lambda>a x. a * 256 + x) 0 (map uint bs)" for bs by (simp add: pv_def foldl_map)
  note uc = char_to_utf8_uints [OF c] and ud = char_to_utf8_uints [OF d]
  note lc = char_to_utf8_shape(2) [OF c] and ld = char_to_utf8_shape(2) [OF d]
  have q: "x div 4096 = x div 64 div 64" "x div 262144 = x div 64 div 64 div 64" for x :: int
    by (simp_all only: zdiv_zmult2_eq [symmetric]) simp_all
  let ?L = "\<lambda>c. foldl (\<lambda>a x. a * 256 + x) 0 (map uint (char_to_utf8 c))"
  have "(c < 128 \<longleftrightarrow> d < 128) \<and> (c < 2048 \<longleftrightarrow> d < 2048) \<and> (c < 65536 \<longleftrightarrow> d < 65536)"
    using len unfolding lc ld by (cases "c < 128"; cases "c < 2048"; cases "c < 65536"; cases "d < 128"; cases "d < 2048"; cases "d < 65536") simp_all
  then consider "c < 128" "d < 128" | "128 \<le> c" "c < 2048" "128 \<le> d" "d < 2048" | "2048 \<le> c" "c < 65536" "2048 \<le> d" "d < 65536"
    | "65536 \<le> c" "65536 \<le> d"
    by linarith
  then have "(?L c < ?L d \<longleftrightarrow> c < d) \<and> (?L c = ?L d \<longleftrightarrow> c = d)"
  proof cases
    case 1
    then show ?thesis unfolding uc ud by simp
  next
    case 2
    then show ?thesis unfolding uc ud using digit_cmp [of c d "192 + c div 64" "192 + d div 64"] by simp
  next
    case 3
    then have neg: "\<not> c < 128" "\<not> c < 2048" "\<not> d < 128" "\<not> d < 2048" by simp_all
    have "c div 64 div 64 < d div 64 div 64 \<longleftrightarrow> 224 + c div 64 div 64 < 224 + d div 64 div 64"
      "c div 64 div 64 = d div 64 div 64 \<longleftrightarrow> 224 + c div 64 div 64 = 224 + d div 64 div 64" by simp_all
    note d3 = digit_cmp [OF digit_cmp [OF this]]
    show ?thesis unfolding uc ud q
      by (simp only: neg 3 if_True if_False foldl.simps mult_zero_left add_0_left d3 simp_thms)
  next
    case 4
    then have neg: "\<not> c < 128" "\<not> c < 2048" "\<not> d < 128" "\<not> d < 2048" "\<not> c < 65536" "\<not> d < 65536" by simp_all
    have "c div 64 div 64 div 64 < d div 64 div 64 div 64 \<longleftrightarrow> 240 + c div 64 div 64 div 64 < 240 + d div 64 div 64 div 64"
      "c div 64 div 64 div 64 = d div 64 div 64 div 64 \<longleftrightarrow> 240 + c div 64 div 64 div 64 = 240 + d div 64 div 64 div 64" by simp_all
    note d4 = digit_cmp [OF digit_cmp [OF digit_cmp [OF this]]]
    show ?thesis unfolding uc ud q
      by (simp only: neg if_False foldl.simps mult_zero_left add_0_left d4 simp_thms)
  qed
  then show "pv (char_to_utf8 c) < pv (char_to_utf8 d) \<longleftrightarrow> c < d" and "pv (char_to_utf8 c) = pv (char_to_utf8 d) \<longleftrightarrow> c = d"
    by (simp_all add: pv)
qed

lemma lex_total: "length xs = length ys \<Longrightarrow> lex_le xs ys \<or> lex_le ys xs"
proof (induction xs ys rule: lex_le.induct)
  case (1 x xs y ys)
  then show ?case by (cases "uint x" "uint y" rule: linorder_cases) (auto simp: word_uint_eq_iff)
qed auto

lemma lex_le_iff_pv: "length xs = length ys \<Longrightarrow> lex_le xs ys \<longleftrightarrow> pv xs \<le> pv ys"
  using lex_le_pv [of xs ys] lex_le_pv [of ys xs] lex_total [of xs ys] pv_inj [of xs ys] by auto

lemma enc_le_iff:
  assumes c: "0 \<le> c" "c < 2097152" and d: "0 \<le> d" "d < 2097152"
  shows "enc_le (char_to_utf8 c) (char_to_utf8 d) \<longleftrightarrow> c \<le> d"
proof (cases "length (char_to_utf8 c) = length (char_to_utf8 d)")
  case True
  then show ?thesis using pv_order [OF c d True] lex_le_iff_pv [OF True] by (auto simp: enc_le_def)
next
  case False
  then show ?thesis using char_to_utf8_shape(2) [OF c] char_to_utf8_shape(2) [OF d] c d
    by (auto simp: enc_le_def split: if_splits)
qed

text \<open>The code points of a range that the code leaves out: those in the block of 4096 of the upper bound,
  when the range enters the block from before it and does not end with it, except for the last group
  of 64, which is kept unless it is complete. A range with four bytes counts from the group of 262144 of
  its upper bound.\<close>

definition lost :: "int \<Rightarrow> int \<Rightarrow> int \<Rightarrow> bool" where
  "lost lo hi c \<longleftrightarrow> c div 4096 = hi div 4096 \<and> max lo (hi div 262144 * 262144) div 4096 < hi div 4096
     \<and> hi mod 4096 \<noteq> 4095 \<and> (c div 64 \<noteq> hi div 64 \<or> hi mod 64 = 63)"

definition whole :: "int \<Rightarrow> int \<Rightarrow> bool" where
  "whole lo hi \<longleftrightarrow> hi div 4096 \<le> max lo (hi div 262144 * 262144) div 4096 \<or> hi mod 4096 = 4095"

lemma whole_not_lost: "whole lo hi \<Longrightarrow> \<not> lost lo hi c"
  by (auto simp: whole_def lost_def)

lemma uint_list: "map uint bs = map uint cs \<longleftrightarrow> bs = cs" for bs cs :: "byte list"
  by (simp add: inj_map_eq_map inj_on_def word_uint_eq_iff)

lemma enc_three:
  assumes "2048 \<le> c" "c < 65536"
  obtains b b1 b2 where "char_to_utf8 c = [b, b1, b2]" "uint b = 224 + c div 4096" "uint b1 = 128 + c div 64 mod 64" "uint b2 = 128 + c mod 64"
proof -
  have "map uint (char_to_utf8 c) = [224 + c div 4096, 128 + c div 64 mod 64, 128 + c mod 64]"
    using char_to_utf8_uints [of c] assms by simp
  then show thesis using that by (auto simp: map_eq_Cons_conv)
qed

lemma enc_four:
  assumes "65536 \<le> c" "c < 2097152"
  obtains b b1 b2 b3 where "char_to_utf8 c = [b, b1, b2, b3]" "uint b = 240 + c div 262144" "uint b1 = 128 + c div 4096 mod 64"
    "uint b2 = 128 + c div 64 mod 64" "uint b3 = 128 + c mod 64"
proof -
  have "map uint (char_to_utf8 c) = [240 + c div 262144, 128 + c div 4096 mod 64, 128 + c div 64 mod 64, 128 + c mod 64]"
    using char_to_utf8_uints [of c] assms by simp
  then show thesis using that by (auto simp: map_eq_Cons_conv)
qed

text \<open>The digits of a code point in groups of six bits.\<close>

lemma six_bits:
  fixes c h :: int
  shows "c div 4096 = h div 4096 \<Longrightarrow> c div 64 mod 64 = h div 64 mod 64 \<longleftrightarrow> c div 64 = h div 64"
    and "h mod 4096 = 4095 \<longleftrightarrow> h div 64 mod 64 = 63 \<and> h mod 64 = 63"
    and "c div 262144 = h div 262144 \<and> c div 4096 mod 64 = h div 4096 mod 64 \<longleftrightarrow> c div 4096 = h div 4096"
proof -
  have d: "x div 4096 = x div 64 div 64" "x div 262144 = x div 4096 div 64" for x :: int
    by (simp_all only: zdiv_zmult2_eq [symmetric]) simp_all
  have split: "x = x div 64 * 64 + x mod 64" for x :: int by simp
  show "c div 4096 = h div 4096 \<Longrightarrow> c div 64 mod 64 = h div 64 mod 64 \<longleftrightarrow> c div 64 = h div 64"
    unfolding d(1) using split [of "c div 64"] split [of "h div 64"] by metis
  have "h mod 4096 = h mod (64 * 64)" by simp
  also have "\<dots> = 64 * (h div 64 mod 64) + h mod 64" by (rule zmod_zmult2_eq) simp
  finally have "h mod 4096 = 64 * (h div 64 mod 64) + h mod 64" .
  moreover have "0 \<le> h mod 64" "h mod 64 < 64" "0 \<le> h div 64 mod 64" "h div 64 mod 64 < 64" by simp_all
  ultimately show "h mod 4096 = 4095 \<longleftrightarrow> h div 64 mod 64 = 63 \<and> h mod 64 = 63" by linarith
  show "c div 262144 = h div 262144 \<and> c div 4096 mod 64 = h div 4096 mod 64 \<longleftrightarrow> c div 4096 = h div 4096"
    unfolding d(2) using split [of "c div 4096"] split [of "h div 4096"] by metis
qed

lemma first_block:
  fixes l q :: int
  assumes "0 \<le> l" "l \<le> q"
  shows "max l (q div 64 * 64) < q \<longleftrightarrow> (if l div 64 = q div 64 then l mod 64 \<noteq> q mod 64 else q mod 64 \<noteq> 0)"
proof -
  have split: "x = x div 64 * 64 + x mod 64" "0 \<le> x mod 64" "x mod 64 < 64" for x :: int by simp_all
  note sq = split [of q] and sl = split [of l]
  show ?thesis
  proof (cases "l div 64 = q div 64")
    case True
    then have "q div 64 * 64 \<le> l" using sl by linarith
    then have "max l (q div 64 * 64) < q \<longleftrightarrow> l < q" by (simp add: max_def)
    also have "\<dots> \<longleftrightarrow> l mod 64 \<noteq> q mod 64" using sq(1) sl(1) True assms(2) by linarith
    finally show ?thesis using True by simp
  next
    case False
    have "l div 64 \<le> q div 64" using assms(2) by (simp add: zdiv_mono1)
    with False have "l div 64 + 1 \<le> q div 64" by simp
    then have "(l div 64 + 1) * 64 \<le> q div 64 * 64" by simp
    then have "l < q div 64 * 64" using sl by simp
    then have "max l (q div 64 * 64) < q \<longleftrightarrow> q div 64 * 64 < q" by (simp add: max_def)
    also have "\<dots> \<longleftrightarrow> q mod 64 \<noteq> 0" using sq by linarith
    finally show ?thesis using False by simp
  qed
qed

text \<open>What the bytes of the last three positions say.\<close>

lemma skips_three:
  assumes h: "uint y1 = 128 + h div 64 mod 64" "uint y2 = 128 + h mod 64" and c: "uint b1 = 128 + c div 64 mod 64" "uint b2 = 128 + c mod 64"
    and same: "b = y \<longleftrightarrow> P" and block: "P \<Longrightarrow> A \<Longrightarrow> c div 4096 = h div 4096"
  shows "A \<and> skips [x, x1, x2] [y, y1, y2] [b, b1, b2] \<longleftrightarrow> A \<and> P \<and> x \<noteq> y \<and> h mod 4096 \<noteq> 4095 \<and> (c div 64 \<noteq> h div 64 \<or> h mod 64 = 63)"
proof -
  have "y1 = 0xBF \<longleftrightarrow> h div 64 mod 64 = 63" "y2 = 0xBF \<longleftrightarrow> h mod 64 = 63" "b1 = y1 \<longleftrightarrow> c div 64 mod 64 = h div 64 mod 64"
    using h c by (simp_all add: word_uint_eq_iff)
  then show ?thesis using same block six_bits(1) [of c h] six_bits(2) [of h] by auto
qed

lemma skipped_lost:
  assumes lo: "0 \<le> lo" and c: "lo \<le> c" "c \<le> hi" and hi: "hi < 2097152"
  shows "skipped (char_to_utf8 lo) (char_to_utf8 hi) (char_to_utf8 c) \<longleftrightarrow> lost lo hi c"
proof -
  have bounds: "0 \<le> hi" "0 \<le> c" "c < 2097152" "lo < 2097152" using assms by simp_all
  note len = char_to_utf8_shape(2) [OF bounds(2,3)] char_to_utf8_shape(2) [OF lo bounds(4)] char_to_utf8_shape(2) [OF bounds(1) hi]
  have byte: "a = b \<longleftrightarrow> uint a = uint b" for a b :: byte by (simp add: word_uint_eq_iff)
  consider "hi < 2048" | "2048 \<le> hi" "hi < 65536" "c < 2048" | "2048 \<le> hi" "hi < 65536" "2048 \<le> c" | "65536 \<le> hi" "c < 65536" | "65536 \<le> c"
    by linarith
  then show ?thesis
  proof cases
    case 1
    then have "length (char_to_utf8 hi) < 3" unfolding len by simp
    moreover have "hi div 4096 = 0" using 1 bounds by simp
    moreover have "0 \<le> lo div 4096" using lo by (simp add: pos_imp_zdiv_nonneg_iff)
    ultimately show ?thesis using lo 1 bounds by (simp add: skipped_def skips_short lost_def max_def)
  next
    case 2
    then have "length (char_to_utf8 c) \<noteq> length (char_to_utf8 hi)" using bounds unfolding len by auto
    moreover have "c div 4096 = 0" using 2 bounds by simp
    moreover have "0 \<le> lo div 4096" using lo by (simp add: pos_imp_zdiv_nonneg_iff)
    ultimately show ?thesis using lo 2 bounds by (auto simp: skipped_def lost_def max_def)
  next
    case 3
    obtain y y1 y2 where y: "char_to_utf8 hi = [y, y1, y2]" "uint y = 224 + hi div 4096" "uint y1 = 128 + hi div 64 mod 64" "uint y2 = 128 + hi mod 64"
      by (rule enc_three [OF 3(1,2)])
    have c3: "c < 65536" using 3 c by simp
    obtain b b1 b2 where b: "char_to_utf8 c = [b, b1, b2]" "uint b = 224 + c div 4096" "uint b1 = 128 + c div 64 mod 64" "uint b2 = 128 + c mod 64"
      by (rule enc_three [OF 3(3) c3])
    obtain x x1 x2 where x: "(if length (char_to_utf8 lo) = length (char_to_utf8 hi) then char_to_utf8 lo else min_enc (length (char_to_utf8 hi))) = [x, x1, x2]"
      "uint x = 224 + lo div 4096"
    proof (cases "2048 \<le> lo")
      case True
      have "lo < 65536" using c c3 by simp
      with enc_three [OF True] obtain x x1 x2 where "char_to_utf8 lo = [x, x1, x2]" "uint x = 224 + lo div 4096" by metis
      then show thesis using that y by simp
    next
      case False
      then have "length (char_to_utf8 lo) \<noteq> 3" unfolding len by simp
      moreover have "lo div 4096 = 0" using lo False by simp
      moreover have "min_enc 3 = [0xE0, 0x80, 0x80]" by (simp add: min_enc_def first_min_def two_bytes)
      moreover have "length (char_to_utf8 hi) = 3" using y(1) by simp
      ultimately show thesis by (intro that [of "0xE0" "0x80" "0x80"]) simp_all
    qed
    have "skipped (char_to_utf8 lo) (char_to_utf8 hi) (char_to_utf8 c) \<longleftrightarrow> skips [x, x1, x2] [y, y1, y2] [b, b1, b2]"
      unfolding skipped_def x by (simp add: y(1) b(1))
    also have "\<dots> \<longleftrightarrow> c div 4096 = hi div 4096 \<and> x \<noteq> y \<and> hi mod 4096 \<noteq> 4095 \<and> (c div 64 \<noteq> hi div 64 \<or> hi mod 64 = 63)"
      using skips_three [OF y(3,4) b(3,4), of b y "c div 4096 = hi div 4096" True x x1 x2] by (simp add: byte b(2) y(2))
    also have "x \<noteq> y \<longleftrightarrow> lo div 4096 < hi div 4096"
      using zdiv_mono1 [of lo hi 4096] c by (auto simp: byte x(2) y(2))
    also have "lo div 4096 = max lo (hi div 262144 * 262144) div 4096" using 3 bounds lo by (simp add: max_def)
    finally show ?thesis by (simp add: lost_def)
  next
    case 4
    then have "length (char_to_utf8 c) \<noteq> length (char_to_utf8 hi)" using bounds unfolding len by auto
    moreover have "c div 4096 < hi div 4096"
    proof -
      have "c div 4096 \<le> 65535 div 4096" "65536 div 4096 \<le> hi div 4096" using 4 by (intro zdiv_mono1; simp)+
      then show ?thesis by simp
    qed
    ultimately show ?thesis by (auto simp: skipped_def lost_def)
  next
    case 5
    have h4: "65536 \<le> hi" using 5 c by simp
    obtain y y1 y2 y3 where y: "char_to_utf8 hi = [y, y1, y2, y3]" "uint y = 240 + hi div 262144" "uint y1 = 128 + hi div 4096 mod 64"
      "uint y2 = 128 + hi div 64 mod 64" "uint y3 = 128 + hi mod 64" by (rule enc_four [OF h4 hi])
    obtain b b1 b2 b3 where b: "char_to_utf8 c = [b, b1, b2, b3]" "uint b = 240 + c div 262144" "uint b1 = 128 + c div 4096 mod 64"
      "uint b2 = 128 + c div 64 mod 64" "uint b3 = 128 + c mod 64" by (rule enc_four [OF 5 bounds(3)])
    define l where "l = (if lo < 65536 then 0 else lo)"
    have l: "0 \<le> l" "l div 4096 \<le> hi div 4096" using lo c by (auto simp: l_def intro: zdiv_mono1)
    obtain x x1 x2 x3 where x: "(if length (char_to_utf8 lo) = length (char_to_utf8 hi) then char_to_utf8 lo else min_enc (length (char_to_utf8 hi))) = [x, x1, x2, x3]"
      "uint x = 240 + l div 262144" "uint x1 = 128 + l div 4096 mod 64"
    proof (cases "65536 \<le> lo")
      case True
      obtain x x1 x2 x3 where e: "char_to_utf8 lo = [x, x1, x2, x3]" "uint x = 240 + lo div 262144"
        "uint x1 = 128 + lo div 4096 mod 64" by (rule enc_four [OF True bounds(4)])
      show thesis by (rule that [of x x1 x2 x3]) (use True in \<open>simp_all add: l_def e y(1)\<close>)
    next
      case False
      then have "length (char_to_utf8 lo) \<noteq> 4" unfolding len by simp
      moreover have "min_enc 4 = [0xF0, 0x80, 0x80, 0x80]" by (simp add: min_enc_def first_min_def two_bytes)
      moreover have "length (char_to_utf8 hi) = 4" using y(1) by simp
      ultimately show thesis using False by (intro that [of "0xF0" "0x80" "0x80" "0x80"]) (simp_all add: l_def)
    qed
    define f where "f = (if x = y then [x1, x2, x3] else low 3)"
    obtain f1 f2 f3 where f: "f = [f1, f2, f3]" "uint f1 = 128 + (if l div 262144 = hi div 262144 then l div 4096 mod 64 else 0)"
    proof (cases "x = y")
      case True
      then have "l div 262144 = hi div 262144" using x(2) y(2) by simp
      with True x(3) show thesis by (intro that [of x1 x2 x3]) (simp_all add: f_def)
    next
      case False
      then have "l div 262144 \<noteq> hi div 262144" using x(2) y(2) by (simp add: byte)
      with False show thesis by (intro that [of "0x80" "0x80" "0x80"]) (simp_all add: f_def two_bytes)
    qed
    have "skipped (char_to_utf8 lo) (char_to_utf8 hi) (char_to_utf8 c) \<longleftrightarrow> b = y \<and> skips f [y1, y2, y3] [b1, b2, b3]"
      unfolding skipped_def x f_def by (simp add: y(1) b(1))
    also have "\<dots> \<longleftrightarrow> c div 262144 = hi div 262144 \<and> skips [f1, f2, f3] [y1, y2, y3] [b1, b2, b3]"
      unfolding f(1) by (simp add: byte b(2) y(2))
    also have "\<dots> \<longleftrightarrow> c div 262144 = hi div 262144 \<and> c div 4096 mod 64 = hi div 4096 mod 64 \<and> f1 \<noteq> y1
        \<and> hi mod 4096 \<noteq> 4095 \<and> (c div 64 \<noteq> hi div 64 \<or> hi mod 64 = 63)"
    proof (rule skips_three [OF y(4,5) b(4,5)])
      show "(b1 = y1) = (c div 4096 mod 64 = hi div 4096 mod 64)" by (simp add: byte b(3) y(3))
      show "c div 4096 = hi div 4096" if "c div 4096 mod 64 = hi div 4096 mod 64" "c div 262144 = hi div 262144"
        using that six_bits(3) [of c hi] by blast
    qed
    also have "f1 \<noteq> y1 \<longleftrightarrow> max lo (hi div 262144 * 262144) div 4096 < hi div 4096"
    proof -
      have d: "z div 262144 = z div 4096 div 64" for z :: int by (simp only: zdiv_zmult2_eq [symmetric]) simp
      have m: "max u v div 4096 = max (u div 4096) (v div 4096)" for u v :: int
        using zdiv_mono1 [of u v 4096] zdiv_mono1 [of v u 4096] by (auto simp: max_def)
      have base: "hi div 262144 * 262144 div 4096 = hi div 4096 div 64 * 64"
      proof -
        have "hi div 262144 * 262144 = (hi div 262144 * 64) * 4096" by simp
        then show ?thesis unfolding d by (simp only: nonzero_mult_div_cancel_right)
      qed
      have nn: "0 \<le> l div 4096" using l(1) by (simp add: pos_imp_zdiv_nonneg_iff)
      have "f1 \<noteq> y1 \<longleftrightarrow> max (l div 4096) (hi div 4096 div 64 * 64) < hi div 4096"
        unfolding first_block [OF nn l(2)] by (simp add: byte f(2) y(3) d)
      also have "max (l div 4096) (hi div 4096 div 64 * 64) < hi div 4096 \<longleftrightarrow> max (lo div 4096) (hi div 4096 div 64 * 64) < hi div 4096"
      proof -
        have "lo div 4096 < hi div 4096 \<and> l div 4096 < hi div 4096" if "lo < 65536"
        proof -
          have "lo div 4096 \<le> 65535 div 4096" "65536 div 4096 \<le> hi div 4096" using that h4 by (intro zdiv_mono1; simp)+
          then show ?thesis using that by (simp add: l_def)
        qed
        then show ?thesis by (cases "lo < 65536") (auto simp: l_def)
      qed
      finally show ?thesis by (simp only: m base)
    qed
    finally show ?thesis using six_bits(3) [of c hi] by (auto simp: lost_def)
  qed
qed

text \<open>The words of a range of code points.\<close>

definition char_words :: "int \<Rightarrow> int \<Rightarrow> byte list set" where
  "char_words lo hi = coded_between (char_to_utf8 lo) (char_to_utf8 hi)"

lemma char_words_iff:
  "0 \<le> c \<Longrightarrow> c < 2097152 \<Longrightarrow> 0 \<le> lo \<Longrightarrow> lo < 2097152 \<Longrightarrow> 0 \<le> hi \<Longrightarrow> hi < 2097152 \<Longrightarrow>
     char_to_utf8 c \<in> char_words lo hi \<longleftrightarrow> lo \<le> c \<and> c \<le> hi \<and> \<not> lost lo hi c"
  using skipped_lost [of lo c hi]
  by (auto simp: char_words_def coded_between_def encoded_between_def char_to_utf8_shape enc_le_iff)

lemma add_codepoint_range:
  assumes "0 \<le> lo" "lo \<le> hi" "hi < 2097152"
    and m: "ws_wf m" "a < ws_num_states m" "b < ws_num_states m"
  shows "\<exists>m'. add_character_range m a b (codepoint_to_packed_utf8 (word_of_int lo)) (codepoint_to_packed_utf8 (word_of_int hi)) = Some m'
    \<and> ws_adds m m' a (byte_words (char_words lo hi)) b"
  unfolding char_words_def using assms
  by (simp add: packed_codepoint add_character_range_adds char_to_utf8_shape enc_le_iff)

text \<open>A sequence that is skipped is an encoding, so that a range loses nothing when it loses no character.\<close>

lemma three_digits:
  fixes p q r :: int
  assumes "0 \<le> q" "q < 64" "0 \<le> r" "r < 64"
  shows "(p * 4096 + q * 64 + r) div 4096 = p" "(p * 4096 + q * 64 + r) div 64 mod 64 = q" "(p * 4096 + q * 64 + r) mod 64 = r"
proof -
  have one: "(x * 64 + y) div 64 = x" "(x * 64 + y) mod 64 = y" if "0 \<le> y" "y < 64" for x y :: int using that by simp_all
  have e: "p * 4096 + q * 64 + r = (p * 64 + q) * 64 + r" by simp
  have d: "z div 4096 = z div 64 div 64" for z :: int by (simp only: zdiv_zmult2_eq [symmetric]) simp
  show "(p * 4096 + q * 64 + r) mod 64 = r" unfolding e by (rule one(2) [OF assms(3,4)])
  show "(p * 4096 + q * 64 + r) div 64 mod 64 = q" unfolding e one(1) [OF assms(3,4)] by (rule one(2) [OF assms(1,2)])
  show "(p * 4096 + q * 64 + r) div 4096 = p" unfolding d e one(1) [OF assms(3,4)] by (rule one(1) [OF assms(1,2)])
qed

lemma three_bounds:
  fixes p q r :: int
  assumes "0 \<le> q" "q < 64" "0 \<le> r" "r < 64"
  shows "1 \<le> p \<Longrightarrow> 2048 \<le> p * 4096 + q * 64 + r" "p \<le> 15 \<Longrightarrow> p * 4096 + q * 64 + r < 65536"
    "16 \<le> p \<Longrightarrow> 65536 \<le> p * 4096 + q * 64 + r" "p \<le> 511 \<Longrightarrow> p * 4096 + q * 64 + r < 2097152"
  using assms by linarith+

lemma enc_of_three:
  assumes "conts [b1, b2]" "225 \<le> uint b" "uint b \<le> 239"
  shows "\<exists>c. 2048 \<le> c \<and> c < 65536 \<and> char_to_utf8 c = [b, b1, b2]"
proof -
  let ?c = "(uint b - 224) * 4096 + (uint b1 - 128) * 64 + (uint b2 - 128)"
  have d: "0 \<le> uint b1 - 128" "uint b1 - 128 < 64" "0 \<le> uint b2 - 128" "uint b2 - 128 < 64" using assms(1) by (auto simp: is_cont_def)
  have c1: "2048 \<le> ?c" by (rule three_bounds(1) [OF d]) (use assms(2) in simp)
  have c2: "?c < 65536" by (rule three_bounds(2) [OF d]) (use assms(3) in simp)
  note c = c1 c2
  then have "map uint (char_to_utf8 ?c) = map uint [b, b1, b2]"
    using char_to_utf8_uints [of ?c] three_digits [OF d, of "uint b - 224"] by simp
  then show ?thesis using c unfolding uint_list by blast
qed

lemma enc_of_four:
  assumes "conts [b1, b2, b3]" "240 \<le> uint b" "uint b \<le> 247" and big: "16 \<le> (uint b - 240) * 64 + (uint b1 - 128)"
  shows "\<exists>c. 65536 \<le> c \<and> c < 2097152 \<and> char_to_utf8 c = [b, b1, b2, b3]"
proof -
  let ?p = "(uint b - 240) * 64 + (uint b1 - 128)"
  let ?c = "?p * 4096 + (uint b2 - 128) * 64 + (uint b3 - 128)"
  have d: "0 \<le> uint b2 - 128" "uint b2 - 128 < 64" "0 \<le> uint b3 - 128" "uint b3 - 128 < 64"
    and d1: "0 \<le> uint b1 - 128" "uint b1 - 128 < 64" using assms(1) by (auto simp: is_cont_def)
  have c1: "65536 \<le> ?c" by (rule three_bounds(3) [OF d big])
  have c2: "?c < 2097152" by (rule three_bounds(4) [OF d]) (use assms(3) d1 in simp)
  note c = c1 c2
  note t = three_digits [OF d, of ?p]
  have p: "(x * 64 + y) div 64 = x" "(x * 64 + y) mod 64 = y" if "0 \<le> y" "y < 64" for x y :: int using that by simp_all
  note p = p [OF d1, of "uint b - 240"]
  have "?c div 262144 = ?c div 4096 div 64" by (simp only: zdiv_zmult2_eq [symmetric]) simp
  then have q: "?c div 262144 = uint b - 240" "?c div 4096 mod 64 = uint b1 - 128" by (simp_all only: t p)
  have "map uint (char_to_utf8 ?c) = [240 + ?c div 262144, 128 + ?c div 4096 mod 64, 128 + ?c div 64 mod 64, 128 + ?c mod 64]"
    using char_to_utf8_uints [of ?c] c by simp
  then have "map uint (char_to_utf8 ?c) = [240 + (uint b - 240), 128 + (uint b1 - 128), 128 + (uint b2 - 128), 128 + (uint b3 - 128)]"
    unfolding q unfolding t .
  then have "map uint (char_to_utf8 ?c) = map uint [b, b1, b2, b3]" by simp
  then show ?thesis using c unfolding uint_list by blast
qed

lemma skips_three_first: "skips [x, x1, x2] [y, y1, y2] bs \<Longrightarrow> x \<noteq> y \<and> (\<exists>b1 b2. bs = [y, b1, b2])"
  by (cases "([x, x1, x2], [y, y1, y2], bs)" rule: skips.cases) auto

lemma skipped_encoded:
  assumes lo: "0 \<le> lo" "lo \<le> hi" and hi: "hi < 2097152" and bs: "shaped bs" "skipped (char_to_utf8 lo) (char_to_utf8 hi) bs"
  shows "\<exists>c. 0 \<le> c \<and> c < 2097152 \<and> char_to_utf8 c = bs"
proof -
  have bounds: "0 \<le> hi" "lo < 2097152" using lo hi by simp_all
  note len = char_to_utf8_shape(2) [OF lo(1) bounds(2)] char_to_utf8_shape(2) [OF bounds(1) hi]
  have "\<not> length (char_to_utf8 hi) < 3" using bs(2) skips_short by (auto simp: skipped_def)
  then have h: "2048 \<le> hi" unfolding len by (simp split: if_splits)
  show ?thesis
  proof (cases "hi < 65536")
    case True
    obtain y y1 y2 where y: "char_to_utf8 hi = [y, y1, y2]" "uint y = 224 + hi div 4096" by (rule enc_three [OF h True]) blast
    obtain x x1 x2 where x: "(if length (char_to_utf8 lo) = length (char_to_utf8 hi) then char_to_utf8 lo else min_enc (length (char_to_utf8 hi))) = [x, x1, x2]"
      "224 \<le> uint x" "uint x \<le> uint y"
    proof (cases "2048 \<le> lo")
      case True
      obtain x x1 x2 where e: "char_to_utf8 lo = [x, x1, x2]" "uint x = 224 + lo div 4096"
        by (rule enc_three [OF True]) (use lo(2) \<open>hi < 65536\<close> in simp, blast)
      show thesis using zdiv_mono1 [OF lo(2), of 4096] lo(1)
        by (intro that [of x x1 x2]) (simp_all add: e y pos_imp_zdiv_nonneg_iff)
    next
      case False
      then have "length (char_to_utf8 lo) \<noteq> 3" unfolding len by simp
      moreover have "min_enc 3 = [0xE0, 0x80, 0x80]" by (simp add: min_enc_def first_min_def two_bytes)
      moreover have "length (char_to_utf8 hi) = 3" using y(1) by simp
      ultimately show thesis using y(2) bounds(1) by (intro that [of "0xE0" "0x80" "0x80"]) (simp_all add: pos_imp_zdiv_nonneg_iff)
    qed
    have "skips [x, x1, x2] [y, y1, y2] bs" using bs(2) unfolding skipped_def x by (simp add: y(1))
    then obtain b1 b2 where b: "x \<noteq> y" "bs = [y, b1, b2]" using skips_three_first by blast
    have "225 \<le> uint y" using b(1) x(2,3) by (simp add: word_uint_eq_iff)
    moreover have "uint y \<le> 239" "conts [b1, b2]" using bs(1) by (auto simp: b(2) shaped_def first_max_def)
    ultimately obtain c where "2048 \<le> c" "c < 65536" "char_to_utf8 c = bs" using enc_of_three [of b1 b2 y] b(2) by blast
    then show ?thesis by (intro exI [of _ c]) simp
  next
    case False
    then have h4: "65536 \<le> hi" by simp
    obtain y y1 y2 y3 where y: "char_to_utf8 hi = [y, y1, y2, y3]" "uint y = 240 + hi div 262144" "uint y1 = 128 + hi div 4096 mod 64"
      by (rule enc_four [OF h4 hi]) blast
    define L where "L = (if length (char_to_utf8 lo) = length (char_to_utf8 hi) then char_to_utf8 lo else min_enc (length (char_to_utf8 hi)))"
    have "length (char_to_utf8 hi) = 4" by (simp add: y(1))
    moreover have "length (min_enc 4) = 4" by (rule shaped_enc(3)) simp_all
    ultimately have "length L = 4" unfolding L_def by (metis (full_types))
    then obtain x x1 x2 x3 where x: "L = [x, x1, x2, x3]" by (auto simp: length_Suc_conv numeral_eq_Suc)
    obtain b cs where b: "bs = b # cs" using bs(1) by (cases bs) (auto simp: shaped_def)
    have "skips L (char_to_utf8 hi) bs" using bs(2) unfolding skipped_def by (simp only: L_def)
    then have by0: "b = y" and rest: "skips (if x = y then [x1, x2, x3] else low 3) [y1, y2, y3] cs"
      unfolding x y(1) b skips.simps by blast+
    have "low 3 = [0x80, 0x80, 0x80 :: byte]" by (simp add: low_def numeral_3_eq_3)
    then have "\<exists>f1 f2 f3. skips [f1, f2, f3] [y1, y2, y3] cs" using rest by (cases "x = y") auto
    then obtain b2 b3 where cs: "cs = [y1, b2, b3]" using skips_three_first by blast
    have "hi div 4096 = hi div 4096 div 64 * 64 + hi div 4096 mod 64" by simp
    moreover have "hi div 262144 = hi div 4096 div 64" by (simp only: zdiv_zmult2_eq [symmetric]) simp
    moreover have "16 \<le> hi div 4096" using zdiv_mono1 [OF h4, of 4096] by simp
    ultimately have "16 \<le> (uint y - 240) * 64 + (uint y1 - 128)" using y(2,3) by simp
    moreover have "240 \<le> uint y" "uint y \<le> 247" "conts [y1, b2, b3]" using bs(1) by0 by (auto simp: b cs shaped_def first_max_def first_min_def)
    ultimately obtain c where "65536 \<le> c" "c < 2097152" "char_to_utf8 c = bs" using enc_of_four [of y1 b2 b3 y] b cs by0 by blast
    then show ?thesis by (intro exI [of _ c]) simp
  qed
qed

lemma char_words_whole:
  assumes "0 \<le> lo" "lo \<le> hi" "hi < 2097152" and "whole lo hi"
  shows "char_words lo hi = encoded_between (char_to_utf8 lo) (char_to_utf8 hi)"
proof -
  have "\<not> skipped (char_to_utf8 lo) (char_to_utf8 hi) bs" if bs: "bs \<in> encoded_between (char_to_utf8 lo) (char_to_utf8 hi)" for bs
  proof
    assume sk: "skipped (char_to_utf8 lo) (char_to_utf8 hi) bs"
    have "shaped bs" using bs by (simp add: encoded_between_def)
    from skipped_encoded [OF assms(1-3) this sk] obtain c where c: "0 \<le> c" "c < 2097152" "char_to_utf8 c = bs" by blast
    have "lo \<le> c" "c \<le> hi" using bs enc_le_iff [of lo c] enc_le_iff [of c hi] assms c by (auto simp: encoded_between_def)
    with skipped_lost [OF assms(1) _ _ assms(3), of c] sk whole_not_lost [OF assms(4)] c(3) show False by simp
  qed
  then show ?thesis by (auto simp: char_words_def coded_between_def)
qed

end
