(* ===== verification/Grammar_Data.thy ===== *)
theory Grammar_Data
  imports Prelude "HOL-Library.Monad_Syntax"
begin

text \<open>
  The grammar's syntax tree (crates/grammar/src/grammar: data.rs, expr.rs): expressions packed end to
  end in one vector, each as its type, the length of its payload and the payload, with a vector of the
  offsets they start at. Reading outside the vectors is a panic, \<open>None\<close>.
\<close>

datatype expr_kind = ByteString | CharacterClass | CharacterClassStar | EmptyStr | RuleRef | Sequence | Choices
  | TagDispatch | Repeat

definition kind_to_i32 :: "expr_kind \<Rightarrow> int" where
  "kind_to_i32 k = (case k of ByteString \<Rightarrow> 0 | CharacterClass \<Rightarrow> 1 | CharacterClassStar \<Rightarrow> 2 | EmptyStr \<Rightarrow> 3
     | RuleRef \<Rightarrow> 4 | Sequence \<Rightarrow> 5 | Choices \<Rightarrow> 6 | TagDispatch \<Rightarrow> 7 | Repeat \<Rightarrow> 8)"

definition kind_from_i32 :: "int \<Rightarrow> expr_kind option" where
  "kind_from_i32 v =
    (if v = 0 then Some ByteString else if v = 1 then Some CharacterClass else if v = 2 then Some CharacterClassStar
     else if v = 3 then Some EmptyStr else if v = 4 then Some RuleRef else if v = 5 then Some Sequence
     else if v = 6 then Some Choices else if v = 7 then Some TagDispatch else if v = 8 then Some Repeat else None)"

lemma kind_roundtrip [simp]: "kind_from_i32 (kind_to_i32 k) = Some k"
  by (cases k) (simp_all add: kind_to_i32_def kind_from_i32_def)

record grammar_expr =
  ge_kind :: expr_kind
  ge_data :: "int list"

record grammar_rule =
  gr_name :: string
  gr_body_expr_id :: int
  gr_lookahead_assertion_id :: int
  gr_is_exact_lookahead :: bool

definition new_rule :: "string \<Rightarrow> int \<Rightarrow> grammar_rule" where
  "new_rule name body = \<lparr> gr_name = name, gr_body_expr_id = body, gr_lookahead_assertion_id = - 1,
     gr_is_exact_lookahead = False \<rparr>"

record grammar_data =
  gd_rules :: "grammar_rule list"
  gd_expr_data :: "int list"
  gd_expr_indptr :: "int list"
  gd_root_rule_id :: int

definition new_grammar :: grammar_data where
  "new_grammar = \<lparr> gd_rules = [], gd_expr_data = [], gd_expr_indptr = [], gd_root_rule_id = - 1 \<rparr>"

definition num_rules :: "grammar_data \<Rightarrow> int" where
  "num_rules g = wrap_i32 (int (length (gd_rules g)))"

definition num_exprs :: "grammar_data \<Rightarrow> int" where
  "num_exprs g = wrap_i32 (int (length (gd_expr_indptr g)))"

definition grammar_rule_at :: "grammar_data \<Rightarrow> int \<Rightarrow> grammar_rule option" where
  "grammar_rule_at g rule_id = vec_at (gd_rules g) rule_id"

definition root_rule :: "grammar_data \<Rightarrow> grammar_rule option" where
  "root_rule g = vec_at (gd_rules g) (gd_root_rule_id g)"

definition expr_at :: "grammar_data \<Rightarrow> int \<Rightarrow> grammar_expr option" where
  "expr_at g expr_id =
    do {
      start \<leftarrow> vec_at (gd_expr_indptr g) expr_id;
      tag \<leftarrow> vec_at (gd_expr_data g) start;
      kind \<leftarrow> kind_from_i32 tag;
      data_len \<leftarrow> vec_at (gd_expr_data g) (start + 1);
      if 0 \<le> data_len \<and> start + 2 + data_len \<le> int (length (gd_expr_data g))
      then Some \<lparr> ge_kind = kind, ge_data = take (nat data_len) (drop (nat (start + 2)) (gd_expr_data g)) \<rparr>
      else None
    }"

definition append_expr :: "grammar_data \<Rightarrow> expr_kind \<Rightarrow> int list \<Rightarrow> grammar_data \<times> int" where
  "append_expr g kind data =
    (let g' = g\<lparr> gd_expr_indptr := gd_expr_indptr g @ [wrap_i32 (int (length (gd_expr_data g)))],
                gd_expr_data := gd_expr_data g @ [kind_to_i32 kind, wrap_i32 (int (length data))] @ data \<rparr>
     in (g', wrap_i32 (wrap_i32 (int (length (gd_expr_indptr g'))) - 1)))"

definition set_expr_data :: "grammar_data \<Rightarrow> int \<Rightarrow> nat \<Rightarrow> int \<Rightarrow> grammar_data option" where
  "set_expr_data g expr_id index value =
    do {
      start \<leftarrow> vec_at (gd_expr_indptr g) expr_id;
      if 0 \<le> start \<and> start + 2 + int index < int (length (gd_expr_data g))
      then Some (g\<lparr> gd_expr_data := (gd_expr_data g)[nat start + 2 + index := value] \<rparr>)
      else None
    }"

subsection \<open>The packed store\<close>

lemma vec_at_append: "vec_at xs i = Some x \<Longrightarrow> vec_at (xs @ ys) i = Some x"
  by (auto simp: vec_at_def nth_append split: if_splits)

lemma vec_at_new: "i = int (length xs) \<Longrightarrow> vec_at (xs @ y # ys) i = Some y"
  by (simp add: vec_at_def nth_append)

text \<open>What was appended is read back under the id that was returned, as long as the vectors do not
  outgrow an \<open>i32\<close>, and every expression that was there stays what it was.\<close>

lemma append_expr_new:
  assumes "int (length (gd_expr_data g)) + int (length data) + 2 < 2147483648" and "int (length (gd_expr_indptr g)) < 2147483647"
    and r: "append_expr g kind data = (g', new)"
  shows "expr_at g' new = Some \<lparr> ge_kind = kind, ge_data = data \<rparr>" and "new = int (length (gd_expr_indptr g))"
proof -
  let ?n = "int (length (gd_expr_data g))"
  have g': "gd_expr_indptr g' = gd_expr_indptr g @ [?n]" "gd_expr_data g' = gd_expr_data g @ kind_to_i32 kind # int (length data) # data"
    and new: "new = int (length (gd_expr_indptr g))"
    using r assms(1,2) by (auto simp: append_expr_def Let_def)
  have "vec_at (gd_expr_data g') (?n + 1) = Some (int (length data))"
    by (simp add: g' vec_at_def nth_append nat_add_distrib)
  moreover have "drop (nat (?n + 2)) (gd_expr_data g') = data" by (simp add: g' nat_add_distrib)
  ultimately show "expr_at g' new = Some \<lparr> ge_kind = kind, ge_data = data \<rparr>"
    by (simp add: expr_at_def new g' vec_at_new)
  show "new = int (length (gd_expr_indptr g))" by (rule new)
qed

lemma append_expr_old:
  assumes "expr_at g i = Some e" and "append_expr g kind data = (g', new)"
  shows "expr_at g' i = Some e"
proof -
  obtain xs ys where g': "gd_expr_indptr g' = gd_expr_indptr g @ xs" "gd_expr_data g' = gd_expr_data g @ ys"
    using assms(2) by (auto simp: append_expr_def Let_def)
  obtain start tag k n where *: "vec_at (gd_expr_indptr g) i = Some start" "vec_at (gd_expr_data g) start = Some tag"
    "kind_from_i32 tag = Some k" "vec_at (gd_expr_data g) (start + 1) = Some n"
    "0 \<le> n" "start + 2 + n \<le> int (length (gd_expr_data g))"
    "e = \<lparr> ge_kind = k, ge_data = take (nat n) (drop (nat (start + 2)) (gd_expr_data g)) \<rparr>"
    using assms(1) by (auto simp: expr_at_def bind_eq_Some_conv split: if_splits)
  have "0 \<le> start" using *(2) by (auto simp: vec_at_def split: if_splits)
  with *(5,6) have "nat n + nat (start + 2) \<le> length (gd_expr_data g)" by linarith
  then have "take (nat n) (drop (nat (start + 2)) (gd_expr_data g @ ys)) = take (nat n) (drop (nat (start + 2)) (gd_expr_data g))"
    by simp
  with * show ?thesis by (simp add: expr_at_def g' vec_at_append)
qed

end
