(* ===== verification/Fsm_Build.thy ===== *)
theory Fsm_Build
  imports Char_Words Grammar_Data
begin

text \<open>
  Machines for the elements and sequences of a rule body (crates/grammar/src/grammar/functor:
  fsm_builder.rs): each element is built on its own, and a sequence is their concatenation. A panic is
  \<open>None\<close>; \<open>Some None\<close> is the code's \<open>None\<close>, for a body that no machine expresses.
\<close>

definition ws_default :: fsm_wse where
  "ws_default = \<lparr> ws_fsm = fsm_with_states 0, ws_start = 0, ws_ends = [], ws_is_dfa = False \<rparr>"

definition ws_set_start :: "fsm_wse \<Rightarrow> nat \<Rightarrow> fsm_wse" where
  "ws_set_start m s = m\<lparr> ws_start := s \<rparr>"

definition two_states :: fsm_wse where
  "two_states = ws_add_end_state (ws_set_start (ws_add_state (ws_add_state ws_default)) 0) 1"

definition build_rule_ref :: "grammar_expr \<Rightarrow> fsm_wse option" where
  "build_rule_ref e =
    do { r \<leftarrow> vec_at (ge_data e) 0;
         Some (two_states\<lparr> ws_fsm := fsm_add_rule_edge (ws_fsm two_states) 0 1 (as_i16 r) \<rparr>) }"

definition build_repeat :: "grammar_expr \<Rightarrow> fsm_wse option" where
  "build_repeat e =
    do { r \<leftarrow> vec_at (ge_data e) 0; lower \<leftarrow> vec_at (ge_data e) 1; upper \<leftarrow> vec_at (ge_data e) 2;
         Some (two_states\<lparr> ws_fsm := fsm_add_repeat_edge (ws_fsm two_states) 0 1 r lower upper \<rparr>) }"

fun byte_chain :: "int list \<Rightarrow> fsm_wse \<Rightarrow> nat \<Rightarrow> fsm_wse \<times> nat" where
  "byte_chain [] m cur = (m, cur)"
| "byte_chain (b # bs) m cur =
    (let nxt = ws_num_states m; m1 = ws_add_state m
     in byte_chain bs (ws_add_edge m1 cur nxt (as_i16 b) (as_i16 b)) nxt)"

definition build_byte_string :: "grammar_expr \<Rightarrow> fsm_wse" where
  "build_byte_string e =
    (let m = ws_set_start (ws_add_state ws_default) 0
     in case byte_chain (ge_data e) m 0 of (m', cur) \<Rightarrow> ws_add_end_state m' cur)"

text \<open>The start state of a class, and its accepting state: the same one under a star.\<close>

definition class_states :: "grammar_expr \<Rightarrow> fsm_wse \<times> nat" where
  "class_states e =
    (let m = ws_set_start (ws_add_state ws_default) 0
     in if ge_kind e = CharacterClassStar then (ws_add_end_state m 0, 0) else (ws_add_end_state (ws_add_state m) 1, 1))"

fun class_ranges :: "int list \<Rightarrow> nat \<Rightarrow> fsm_wse \<Rightarrow> fsm_wse option" where
  "class_ranges [] to m = Some m"
| "class_ranges [_] to m = None"
| "class_ranges (lo # hi # rest) to m =
    do { m' \<leftarrow> add_character_range m 0 to (codepoint_to_packed_utf8 (word_of_int lo)) (codepoint_to_packed_utf8 (word_of_int hi));
         class_ranges rest to m' }"

text \<open>The ASCII characters the ranges of a negated class name.\<close>

fun mark_ranges :: "int list \<Rightarrow> bool list \<Rightarrow> bool list option" where
  "mark_ranges [] char_set = Some char_set"
| "mark_ranges [_] char_set = None"
| "mark_ranges (lo # hi0 # rest) char_set =
    (let hi = (if hi0 > 128 then 127 else hi0)
     in mark_ranges rest (map (\<lambda>j. char_set ! j \<or> lo \<le> int j \<and> int j \<le> hi) [0..<128]))"

text \<open>The maximal runs of unset positions, from position \<open>i\<close> on.\<close>

function gap_runs :: "nat \<Rightarrow> bool list \<Rightarrow> (nat \<times> nat) list" where
  "gap_runs i [] = []"
| "gap_runs i (True # bs) = gap_runs (i + 1) bs"
| "gap_runs i (False # bs) =
    (let n = length (takeWhile Not bs) in (i, i + n) # gap_runs (i + 1 + n) (drop n bs))"
  by pat_completeness auto
termination by (relation "measure (\<lambda>(_, bs). length bs)") auto

definition build_negative_character_class :: "grammar_expr \<Rightarrow> fsm_wse option" where
  "build_negative_character_class e =
    do { char_set \<leftarrow> mark_ranges (tl (ge_data e)) (replicate 128 False);
         let (m, to) = class_states e;
         let m' = fold (\<lambda>(l, r) m. ws_add_edge m 0 to (int l) (int r)) (gap_runs 0 char_set) m;
         add_character_range m' 0 to MIN_2B MAX_4B }"

definition build_character_class :: "grammar_expr \<Rightarrow> fsm_wse option" where
  "build_character_class e =
    do { neg \<leftarrow> vec_at (ge_data e) 0;
         if neg \<noteq> 0 then build_negative_character_class e
         else (case class_states e of (m, to) \<Rightarrow> class_ranges (tl (ge_data e)) to m) }"

definition empty_fsm :: fsm_wse where
  "empty_fsm = ws_add_end_state (ws_set_start (ws_add_state ws_default) 0) 0"

definition build_element :: "grammar_expr \<Rightarrow> fsm_wse option option" where
  "build_element e =
    (case ge_kind e of
       ByteString \<Rightarrow> Some (Some (build_byte_string e))
     | RuleRef \<Rightarrow> map_option Some (build_rule_ref e)
     | CharacterClass \<Rightarrow> map_option Some (build_character_class e)
     | CharacterClassStar \<Rightarrow> map_option Some (build_character_class e)
     | Repeat \<Rightarrow> map_option Some (build_repeat e)
     | _ \<Rightarrow> Some None)"

fun build_parts :: "grammar_data \<Rightarrow> int list \<Rightarrow> fsm_wse list \<Rightarrow> fsm_wse list option option" where
  "build_parts g [] parts = Some (Some parts)"
| "build_parts g (eid # ids) parts =
    do { e \<leftarrow> expr_at g eid;
         part \<leftarrow> build_element e;
         (case part of None \<Rightarrow> Some None | Some m \<Rightarrow> build_parts g ids (vec_push parts m)) }"

definition build_sequence :: "grammar_expr \<Rightarrow> grammar_data \<Rightarrow> fsm_wse option option" where
  "build_sequence e g =
    do { parts \<leftarrow> build_parts g (ge_data e) [];
         Some (map_option (\<lambda>parts. if parts = [] then empty_fsm else ws_concat parts) parts) }"

subsection \<open>What the elements denote\<close>

fun class_pairs :: "int list \<Rightarrow> (int \<times> int) list" where
  "class_pairs (lo # hi # rest) = (lo, hi) # class_pairs rest"
| "class_pairs _ = []"

text \<open>The byte sequences of a class: the encodings between the bounds of a range, or the ASCII
  characters outside all ranges and every longer sequence.\<close>

definition class_words :: "int list \<Rightarrow> byte list set" where
  "class_words data =
    (if data ! 0 = 0 then (\<Union>(lo, hi)\<in>set (class_pairs (tl data)). encoded_between (char_to_utf8 lo) (char_to_utf8 hi))
     else {[b] | b. uint b < 128 \<and> \<not> (\<exists>(lo, hi)\<in>set (class_pairs (tl data)). lo \<le> uint b \<and> uint b \<le> (if hi > 128 then 127 else hi))}
       \<union> encoded_between (min_enc 2) (max_enc 4))"

definition elem_lang :: "grammar_expr \<Rightarrow> sym list set" where
  "elem_lang e =
    (case ge_kind e of
       ByteString \<Rightarrow> {map (\<lambda>b. Byte (word_of_int b)) (ge_data e)}
     | RuleRef \<Rightarrow> {[Call (as_i16 (ge_data e ! 0))]}
     | Repeat \<Rightarrow> {[Loop \<lparr> re_rule = as_i16 (ge_data e ! 0), re_lower = ge_data e ! 1, re_upper = ge_data e ! 2 \<rparr>]}
     | CharacterClass \<Rightarrow> byte_words (class_words (ge_data e))
     | CharacterClassStar \<Rightarrow> lang_star (byte_words (class_words (ge_data e)))
     | _ \<Rightarrow> {})"

text \<open>The payloads the parser and the normalizers produce for them, with ranges that lose no character.\<close>

definition elem_ok :: "grammar_expr \<Rightarrow> bool" where
  "elem_ok e =
    (case ge_kind e of
       ByteString \<Rightarrow> (\<forall>b\<in>set (ge_data e). 0 \<le> b \<and> b \<le> 255)
     | RuleRef \<Rightarrow> ge_data e \<noteq> []
     | Repeat \<Rightarrow> 3 \<le> length (ge_data e)
     | CharacterClass \<Rightarrow> odd (length (ge_data e))
         \<and> (ge_data e ! 0 = 0 \<longrightarrow> (\<forall>(lo, hi)\<in>set (class_pairs (tl (ge_data e))). 0 \<le> lo \<and> lo \<le> hi \<and> hi < 2097152 \<and> whole lo hi))
     | CharacterClassStar \<Rightarrow> odd (length (ge_data e))
         \<and> (ge_data e ! 0 = 0 \<longrightarrow> (\<forall>(lo, hi)\<in>set (class_pairs (tl (ge_data e))). 0 \<le> lo \<and> lo \<le> hi \<and> hi < 2097152 \<and> whole lo hi))
     | _ \<Rightarrow> False)"

definition seq_lang :: "grammar_data \<Rightarrow> grammar_expr \<Rightarrow> sym list set" where
  "seq_lang g e = lang_concs (map (\<lambda>i. elem_lang (the (expr_at g i))) (ge_data e))"

subsection \<open>Machines without edges\<close>

definition edgeless :: "fsm_wse \<Rightarrow> bool" where
  "edgeless m \<longleftrightarrow> (\<forall>row\<in>set (fs_edges (ws_fsm m)). row = []) \<and> fs_aux (ws_fsm m) = []"

lemma edgeless_trans: "edgeless m \<Longrightarrow> \<not> fsm_trans (ws_fsm m) s l t"
proof -
  assume m: "edgeless m"
  have "fsm_row (ws_fsm m) s = []" using m nth_mem [of s "fs_edges (ws_fsm m)"] unfolding edgeless_def fsm_row_def by metis
  then show ?thesis by (simp add: fsm_trans_def)
qed

lemma edgeless_wf: "edgeless m \<Longrightarrow> ws_start m < ws_num_states m \<Longrightarrow> length (ws_ends m) = ws_num_states m \<Longrightarrow> ws_wf m"
  by (auto simp: edgeless_def ws_wf_def fsm_wf_def)

lemma lang_of_adds:
  assumes adds: "ws_adds m m' a R b" and m: "edgeless m" "ws_wf m" and a: "ws_start m = a" and b: "b < ws_num_states m"
    and ends: "\<And>t. t < ws_num_states m \<Longrightarrow> is_end_state m t \<longleftrightarrow> t = b"
  shows "ws_wf m'" and "lang_of m' = (if a = b then lang_star R else R)"
proof -
  show wf: "ws_wf m'" by (rule ws_adds_wf [OF adds m(2)])
  have n: "ws_num_states m \<le> ws_num_states m'" by (rule ws_adds_states [OF adds])
  have a': "a < ws_num_states m" using m(2) a by (simp add: ws_wf_def)
  have e: "is_end_state m' t \<longleftrightarrow> t = b" if t: "t < ws_num_states m'" for t
  proof (cases "t < ws_num_states m")
    case True
    then show ?thesis using ends adds m(2) by (simp add: ws_adds_def is_end_state_def nth_append ws_wf_def)
  next
    case False
    then show ?thesis using adds m(2) b t by (simp add: ws_adds_def is_end_state_def nth_append ws_wf_def)
  qed
  have S: "steps (ws_fsm m) ({} \<union> seg a R b) s u t \<longleftrightarrow> s = a \<and> u \<in> R \<and> t = b" for s u t
    using edgeless_trans [OF m(1)] by (auto simp: steps_def seg_def)
  have "path (fsm_trans (ws_fsm m')) a w b \<longleftrightarrow> wpath (steps (ws_fsm m) ({} \<union> seg a R b)) a w b" for w
    using adds a' b by (simp add: path_wpath ws_adds_def adds_def within_def ws_num_states_def)
  then have "path (fsm_trans (ws_fsm m')) a w b \<longleftrightarrow> w \<in> (if a = b then lang_star R else R)" for w
    using wpath_seg_neq [of a b _ R] wpath_seg_eq [of _ a R] S by (cases "a = b") simp_all
  moreover have "ws_start m' = a" using adds a by (simp add: ws_adds_def)
  ultimately show "lang_of m' = (if a = b then lang_star R else R)"
    using e n b by (auto simp: lang_of_def intro!: exI [of _ b])
qed

lemma build_states [simp]:
  "edgeless (ws_add_state ws_default)" "ws_num_states (ws_add_state ws_default) = 1"
  "edgeless (ws_add_state (ws_add_state ws_default))" "ws_num_states (ws_add_state (ws_add_state ws_default)) = 2"
  "ws_ends (ws_add_state ws_default) = [False]" "ws_ends (ws_add_state (ws_add_state ws_default)) = [False, False]"
  by (simp_all add: ws_add_state_def ws_default_def fsm_add_state_def fsm_with_states_def edgeless_def ws_num_states_def
      fsm_num_states_def vec_push_def)

subsection \<open>The elements\<close>

lemma two_states [simp]:
  "edgeless two_states" "ws_num_states two_states = 2" "ws_start two_states = 0" "ws_ends two_states = [False, True]"
  "fs_aux (ws_fsm two_states) = []" "fsm_num_states (ws_fsm two_states) = 2" "fs_edges (ws_fsm two_states) = [[], []]"
  by (simp_all add: two_states_def ws_set_start_def ws_add_end_state_def ws_add_state_def ws_default_def fsm_add_state_def
      fsm_with_states_def edgeless_def ws_num_states_def fsm_num_states_def vec_push_def)

lemma one_edge_lang:
  assumes m: "m = two_states\<lparr> ws_fsm := f \<rparr>" and n: "fsm_num_states f = 2"
    and T: "\<And>s l t. fsm_trans f s l t \<longleftrightarrow> s = 0 \<and> t = 1 \<and> l = Some x"
  shows "lang_of m = {[x]}"
proof -
  have S: "steps f {} s u t \<longleftrightarrow> s = 0 \<and> u \<in> {[x]} \<and> t = 1" for s u t by (auto simp: steps_def T)
  have "path (fsm_trans f) 0 w 1 \<longleftrightarrow> w = [x]" for w
    using wpath_seg_neq [of 0 1 "steps f {}" "{[x]}" w] S by (simp add: path_wpath)
  moreover have "t < 2 \<Longrightarrow> [False, True] ! t \<longleftrightarrow> t = 1" for t :: nat by (auto simp: less_2_cases_iff)
  ultimately show ?thesis unfolding lang_of_def m by (auto simp: ws_num_states_def n is_end_state_def intro!: exI [of _ 1])
qed

lemma reads_typed:
  "reads f (FsmEdge RULE_REF v t) l \<longleftrightarrow> l = Some (Call v)"
  "reads f (FsmEdge REPEAT_REF v t) l \<longleftrightarrow> (\<exists>i. l = Some (Loop i) \<and> repeat_edge_info f v = Some i)"
proof -
  show "reads f (FsmEdge RULE_REF v t) l \<longleftrightarrow> l = Some (Call v)"
    by (cases "(f, FsmEdge RULE_REF v t, l)" rule: reads.cases)
      (auto simp: is_char_range_def is_rule_ref_def is_repeat_ref_def is_epsilon_def edge_types)
  show "reads f (FsmEdge REPEAT_REF v t) l \<longleftrightarrow> (\<exists>i. l = Some (Loop i) \<and> repeat_edge_info f v = Some i)"
    by (cases "(f, FsmEdge REPEAT_REF v t, l)" rule: reads.cases)
      (auto simp: is_char_range_def is_rule_ref_def is_repeat_ref_def is_epsilon_def edge_types)
qed

lemma build_rule_ref_lang:
  assumes "ge_kind e = RuleRef" and "elem_ok e"
  shows "\<exists>m. build_rule_ref e = Some m \<and> ws_wf m \<and> lang_of m = elem_lang e \<and> fs_aux (ws_fsm m) = []"
proof -
  obtain r rest where d: "ge_data e = r # rest" using assms by (cases "ge_data e") (auto simp: elem_ok_def)
  let ?f = "fsm_add_rule_edge (ws_fsm two_states) 0 1 (as_i16 r)"
  let ?m = "two_states\<lparr> ws_fsm := ?f \<rparr>"
  have T: "fsm_trans ?f s l t \<longleftrightarrow> s = 0 \<and> t = 1 \<and> l = Some (Call (as_i16 r))" for s l t
    using edgeless_trans [OF two_states(1)]
    by (auto simp: fsm_add_rule_edge_def fsm_add_typed_edge_def trans_add_edge reads_typed simp del: reads.simps)
  have "fsm_wf ?f" using edgeless_wf [OF two_states(1)]
    by (simp add: fsm_add_rule_edge_def fsm_add_typed_edge_def ws_wf_def wf_add_edge edge_types)
  then have "ws_wf ?m" by (simp add: ws_wf_def ws_num_states_def fsm_add_rule_edge_def fsm_add_typed_edge_def)
  moreover have "lang_of ?m = elem_lang e"
    using one_edge_lang [OF refl _ T] assms(1) d by (simp add: fsm_add_rule_edge_def fsm_add_typed_edge_def elem_lang_def)
  ultimately show ?thesis
    by (simp add: build_rule_ref_def d vec_at_def) (simp add: fsm_add_rule_edge_def fsm_add_typed_edge_def)
qed

lemma build_repeat_lang:
  assumes "ge_kind e = Repeat" and "elem_ok e"
  shows "\<exists>m. build_repeat e = Some m \<and> ws_wf m \<and> lang_of m = elem_lang e \<and> length (fs_aux (ws_fsm m)) = 3"
proof -
  obtain r lo hi rest where d: "ge_data e = r # lo # hi # rest"
    using assms by (cases "ge_data e" rule: list.exhaust; simp add: elem_ok_def)
      (metis (no_types, opaque_lifting) Suc_le_length_iff numeral_2_eq_2 numeral_3_eq_3 Suc_le_mono)
  let ?f = "fsm_add_repeat_edge (ws_fsm two_states) 0 1 r lo hi"
  let ?m = "two_states\<lparr> ws_fsm := ?f \<rparr>"
  let ?g = "(ws_fsm two_states)\<lparr> fs_aux := [r, lo, hi] \<rparr>"
  have f: "?f = fsm_add_edge ?g 0 1 REPEAT_REF 0"
    by (simp add: fsm_add_repeat_edge_def fsm_add_typed_edge_def Let_def)
  have f0: "fsm_num_states ?g = 2" "fs_aux ?g = [r, lo, hi]" "fsm_row ?g s = []" for s
    by (auto simp: fsm_row_def fsm_num_states_def less_Suc_eq)
  have info: "repeat_edge_info ?g 0 = Some \<lparr> re_rule = as_i16 r, re_lower = lo, re_upper = hi \<rparr>"
    by (simp add: repeat_edge_info_def from_aux_def)
  have T: "fsm_trans ?f s l t \<longleftrightarrow> s = 0 \<and> t = 1 \<and> l = Some (Loop \<lparr> re_rule = as_i16 r, re_lower = lo, re_upper = hi \<rparr>)" for s l t
  proof -
    have "\<not> fsm_trans ?g s l t" by (simp add: fsm_trans_def f0)
    then show ?thesis unfolding f trans_add_edge by (auto simp: f0 reads_typed info simp del: reads.simps)
  qed
  have "edge_ok ?f (FsmEdge REPEAT_REF 0 1)"
    using info f0 unfolding f edge_ok_def
    by (simp add: is_char_range_def edge_types is_repeat_ref_def repeat_edge_info_def)
  moreover have "fsm_row ?f s = (if s = 0 then [FsmEdge REPEAT_REF 0 1] else [])" for s
    unfolding f fsm_row_add_edge f0 by (simp add: vec_push_def)
  moreover have n: "fs_aux ?f = [r, lo, hi]" "fsm_num_states ?f = 2" unfolding f using f0 by simp_all
  ultimately have "fsm_wf ?f" unfolding fsm_wf_rows by simp
  with n have "ws_wf ?m" by (simp add: ws_wf_def ws_num_states_def)
  moreover have "lang_of ?m = elem_lang e"
    using one_edge_lang [OF refl n(2) T] assms(1) d by (simp add: elem_lang_def)
  ultimately show ?thesis using n by (simp add: build_repeat_def d vec_at_def)
qed

text \<open>The chain of a byte string: to its last state leads what led to its first, then the bytes.\<close>

lemma path_new_edge:
  assumes T': "\<And>s l t. T' s l t \<longleftrightarrow> T s l t \<or> s = cur \<and> t = q \<and> l = Some a"
    and T: "\<And>s l t. T s l t \<Longrightarrow> s \<noteq> q \<and> t \<noteq> q" and "cur \<noteq> q" "s \<noteq> q"
  shows "path T' s w q \<longleftrightarrow> (\<exists>u. w = u @ [a] \<and> path T s u cur)"
proof
  have "path T' s w t \<Longrightarrow> t = q \<Longrightarrow> (s \<noteq> q \<longrightarrow> (\<exists>u. w = u @ [a] \<and> path T s u cur)) \<and> (s = q \<longrightarrow> w = [])" for s t
  proof (induction rule: path.induct)
    case (path_eps s u w t)
    then have "T s None u" using T' by auto
    with path_eps.IH path_eps.prems T show ?case by (blast intro: path.path_eps)
  next
    case (path_sym s b u w t)
    consider "T s (Some b) u" | "s = cur" "u = q" "b = a" using path_sym.hyps(1) T' by blast
    then show ?case
    proof cases
      case 1
      with path_sym.IH path_sym.prems T [OF 1] show ?thesis by (metis Cons_eq_appendI path.path_sym)
    next
      case 2
      with path_sym.IH path_sym.prems assms(3) show ?thesis by auto
    qed
  qed auto
  then show "path T' s w q \<Longrightarrow> \<exists>u. w = u @ [a] \<and> path T s u cur" using assms(4) by blast
  assume "\<exists>u. w = u @ [a] \<and> path T s u cur"
  then obtain u where u: "w = u @ [a]" "path T s u cur" by blast
  then have "path T' s u cur" by (blast intro: path_mono dest: T' [THEN iffD2, OF disjI1])
  moreover have "path T' cur [a] q" by (rule path_one) (simp add: T')
  ultimately show "path T' s w q" unfolding u by (rule path_trans)
qed

lemma byte_chain_lang:
  assumes "ws_wf m" "cur < ws_num_states m" "\<forall>b\<in>set bs. 0 \<le> b \<and> b \<le> 255" "s < ws_num_states m"
    and r: "byte_chain bs m cur = (m', cur')"
  shows "ws_wf m' \<and> cur' < ws_num_states m' \<and> ws_start m' = ws_start m \<and> fs_aux (ws_fsm m') = fs_aux (ws_fsm m)
    \<and> ws_num_states m \<le> ws_num_states m' \<and> ws_ends m' = ws_ends m @ replicate (ws_num_states m' - ws_num_states m) False
    \<and> (path (fsm_trans (ws_fsm m')) s w cur'
        \<longleftrightarrow> (\<exists>u. w = u @ map (\<lambda>b. Byte (word_of_int b)) bs \<and> path (fsm_trans (ws_fsm m)) s u cur))"
  using assms
proof (induction bs arbitrary: m cur w)
  case (Cons b bs)
  let ?q = "ws_num_states m"
  let ?m = "ws_add_target m cur (as_i16 b) (as_i16 b)"
  have b: "0 \<le> b" "b \<le> 255" "as_i16 b = b" using Cons.prems(3) by auto
  have m: "ws_wf ?m" "ws_num_states ?m = Suc ?q" using ws_add_target_wf Cons.prems(1) b by auto
  have r: "byte_chain bs ?m ?q = (m', cur')" using Cons.prems(5) by (simp add: ws_add_target_def Let_def)
  have T': "fsm_trans (ws_fsm ?m) s l t \<longleftrightarrow> fsm_trans (ws_fsm m) s l t \<or> s = cur \<and> t = ?q \<and> l = Some (Byte (word_of_int b))" for s l t
  proof -
    have "uint (word_of_int b :: byte) = b" using b by (simp add: unsigned_of_int take_bit_int_eq_self)
    then have "b \<le> uint x \<and> uint x \<le> b \<longleftrightarrow> x = word_of_int b" for x :: byte by (auto simp: word_uint_eq_iff)
    then show ?thesis using Cons.prems(2) b by (auto simp: trans_add_edge reads_range ws_num_states_def simp del: reads.simps)
  qed
  have T: "fsm_trans (ws_fsm m) s l t \<Longrightarrow> s \<noteq> ?q \<and> t \<noteq> ?q" for s l t
    using trans_range trans_wf Cons.prems(1) by (fastforce simp: ws_wf_def ws_num_states_def)
  have step: "path (fsm_trans (ws_fsm ?m)) s u ?q \<longleftrightarrow> (\<exists>v. u = v @ [Byte (word_of_int b)] \<and> path (fsm_trans (ws_fsm m)) s v cur)" for u
    by (rule path_new_edge [OF T' T]) (use Cons.prems in auto)
  have IH: "ws_wf m' \<and> cur' < ws_num_states m' \<and> ws_start m' = ws_start ?m \<and> fs_aux (ws_fsm m') = fs_aux (ws_fsm ?m)
    \<and> ws_num_states ?m \<le> ws_num_states m' \<and> ws_ends m' = ws_ends ?m @ replicate (ws_num_states m' - ws_num_states ?m) False
    \<and> (path (fsm_trans (ws_fsm m')) s w cur'
        \<longleftrightarrow> (\<exists>u. w = u @ map (\<lambda>b. Byte (word_of_int b)) bs \<and> path (fsm_trans (ws_fsm ?m)) s u ?q))"
    by (rule Cons.IH) (use Cons.prems m r in auto)
  have "False # replicate (ws_num_states m' - Suc ?q) False = replicate (ws_num_states m' - ?q) False"
    using IH m by (cases "ws_num_states m' - ?q") (auto simp: Suc_diff_le)
  moreover have "(\<exists>u. w = u @ bs' \<and> (\<exists>v. u = v @ [x] \<and> P v)) \<longleftrightarrow> (\<exists>u. w = u @ x # bs' \<and> P u)" for bs' x P by auto
  ultimately show ?case using IH [unfolded step] m(2) by simp
qed auto

lemma build_byte_string_lang:
  assumes "ge_kind e = ByteString" and "elem_ok e"
  shows "ws_wf (build_byte_string e) \<and> lang_of (build_byte_string e) = elem_lang e \<and> fs_aux (ws_fsm (build_byte_string e)) = []"
proof -
  define m where "m = ws_set_start (ws_add_state ws_default) 0"
  have m: "edgeless m" "ws_num_states m = 1" "ws_start m = 0" "ws_ends m = [False]" "fs_aux (ws_fsm m) = []"
    using build_states by (simp_all add: m_def ws_set_start_def edgeless_def ws_num_states_def)
  then have wf: "ws_wf m" by (simp add: edgeless_wf)
  obtain m' cur' where r: "byte_chain (ge_data e) m 0 = (m', cur')" by force
  have bs: "\<forall>b\<in>set (ge_data e). 0 \<le> b \<and> b \<le> 255" using assms by (simp add: elem_ok_def)
  have none: "path (fsm_trans (ws_fsm m)) 0 u 0 \<longleftrightarrow> u = []" for u
    by (auto elim: path.cases simp: edgeless_trans [OF m(1)])
  have "build_byte_string e = ws_add_end_state m' cur'" using r by (simp add: build_byte_string_def m_def Let_def)
  moreover have chain: "ws_wf m' \<and> cur' < ws_num_states m' \<and> ws_start m' = 0 \<and> fs_aux (ws_fsm m') = []
      \<and> 1 \<le> ws_num_states m' \<and> ws_ends m' = [False] @ replicate (ws_num_states m' - 1) False
      \<and> (path (fsm_trans (ws_fsm m')) 0 w cur' \<longleftrightarrow> w = map (\<lambda>b. Byte (word_of_int b)) (ge_data e))" for w
    using byte_chain_lang [OF wf _ bs _ r, of 0 w] m by (simp add: none)
  moreover have "is_end_state (ws_add_end_state m' cur') t \<longleftrightarrow> t = cur'" if "t < ws_num_states m'" for t
  proof -
    have "ws_ends m' = replicate (ws_num_states m') False" using chain by (cases "ws_num_states m'") auto
    then show ?thesis using that chain by (auto simp: is_end_state_def ws_add_end_state_def nth_list_update)
  qed
  moreover have "ws_wf (ws_add_end_state m' cur')" using chain [of "[]"] by (simp add: ws_wf_def ws_add_end_state_def ws_num_states_def del: append.simps)
  moreover have "ws_fsm (ws_add_end_state m' cur') = ws_fsm m'" "ws_start (ws_add_end_state m' cur') = 0"
    "ws_num_states (ws_add_end_state m' cur') = ws_num_states m'"
    using chain by (simp_all add: ws_add_end_state_def ws_num_states_def)
  ultimately show ?thesis using assms(1) chain by (auto simp: lang_of_def elem_lang_def)
qed

text \<open>The runs of a bitmap: exactly the unset positions.\<close>

lemma gap_runs_spec:
  "(\<exists>(l, r)\<in>set (gap_runs i bs). l \<le> k \<and> k \<le> r) \<longleftrightarrow> i \<le> k \<and> k < i + length bs \<and> \<not> bs ! (k - i)"
  "(l, r) \<in> set (gap_runs i bs) \<Longrightarrow> i \<le> l \<and> l \<le> r \<and> r < i + length bs"
proof (induction i bs rule: gap_runs.induct)
  case (2 i bs)
  note IH = 2
  { case 1 show ?case using IH(1) by (cases "k = i") (auto simp: nth_Cons' Suc_diff_le) }
  { case 2 then show ?case using IH(2) by fastforce }
next
  case (3 i bs)
  note IH = 3
  define n where "n = length (takeWhile Not bs)"
  have n: "n \<le> length bs" by (simp add: n_def length_takeWhile_le)
  have unset: "\<not> bs ! j" if "j < n" for j
    using that nth_mem [of j "takeWhile Not bs"] by (auto simp: n_def takeWhile_nth dest!: set_takeWhileD) 
  { case 1
    have "(\<exists>(l, r)\<in>set (gap_runs i (False # bs)). l \<le> k \<and> k \<le> r)
        \<longleftrightarrow> i \<le> k \<and> k \<le> i + n \<or> i + 1 + n \<le> k \<and> k < i + 1 + length bs \<and> \<not> drop n bs ! (k - (i + 1 + n))"
      using IH(1) [OF n_def] n by (auto simp: n_def Let_def)
    also have "\<dots> \<longleftrightarrow> i \<le> k \<and> k < i + length (False # bs) \<and> \<not> (False # bs) ! (k - i)"
    proof (cases "i \<le> k")
      case True
      then obtain j where k: "k = i + j" by (metis le_iff_add)
      show ?thesis
      proof (cases j)
        case (Suc j')
        then show ?thesis using n unset [of j'] by (cases "j' < n") (auto simp: k nth_drop)
      qed (simp add: k)
    qed simp
    finally show ?case . }
  { case 2 then show ?case using IH(2) [OF n_def] n by (fastforce simp: n_def Let_def) }
qed auto

lemma class_states_facts:
  assumes "class_states e = (m, to)"
  shows "edgeless m" "ws_wf m" "ws_start m = 0" "0 < ws_num_states m" "to < ws_num_states m" "fs_aux (ws_fsm m) = []"
    "to = (if ge_kind e = CharacterClassStar then 0 else 1)" "t < ws_num_states m \<Longrightarrow> is_end_state m t \<longleftrightarrow> t = to"
proof -
  let ?one = "ws_set_start (ws_add_state ws_default) 0"
  have one: "edgeless ?one" "ws_num_states ?one = 1" "ws_start ?one = 0" "ws_ends ?one = [False]"
    "edgeless (ws_add_state ?one)" "ws_num_states (ws_add_state ?one) = 2" "ws_ends (ws_add_state ?one) = [False, False]"
    by (simp_all add: ws_set_start_def ws_add_state_def ws_default_def fsm_add_state_def fsm_with_states_def edgeless_def
        ws_num_states_def fsm_num_states_def vec_push_def)
  show "edgeless m" "ws_start m = 0" "0 < ws_num_states m" "to < ws_num_states m" "fs_aux (ws_fsm m) = []"
    "to = (if ge_kind e = CharacterClassStar then 0 else 1)"
    using assms one by (auto simp: class_states_def Let_def ws_add_end_state_def ws_num_states_def edgeless_def ws_add_state_def split: if_splits)
  then show "ws_wf m" using assms one
    by (intro edgeless_wf) (auto simp: class_states_def Let_def ws_add_end_state_def ws_num_states_def split: if_splits)
  show "t < ws_num_states m \<Longrightarrow> is_end_state m t \<longleftrightarrow> t = to"
    using assms one by (auto simp: class_states_def Let_def ws_add_end_state_def is_end_state_def ws_num_states_def less_2_cases_iff
        split: if_splits)
qed

lemma class_ranges_adds:
  assumes "even (length data)" and "\<forall>(lo, hi)\<in>set (class_pairs data). 0 \<le> lo \<and> lo \<le> hi \<and> hi < 2097152 \<and> whole lo hi"
    and "ws_adds m0 m 0 (byte_words W) to" and "ws_wf m0" "0 < ws_num_states m0" "to < ws_num_states m0"
  shows "\<exists>m'. class_ranges data to m = Some m'
    \<and> ws_adds m0 m' 0 (byte_words (W \<union> (\<Union>(lo, hi)\<in>set (class_pairs data). encoded_between (char_to_utf8 lo) (char_to_utf8 hi)))) to"
  using assms
proof (induction data to m arbitrary: W rule: class_ranges.induct)
  case (3 lo hi rest to m)
  have m: "ws_wf m" "ws_num_states m0 \<le> ws_num_states m" using 3(4,5) ws_adds_wf ws_adds_states by blast+
  obtain m1 where m1: "add_character_range m 0 to (codepoint_to_packed_utf8 (word_of_int lo)) (codepoint_to_packed_utf8 (word_of_int hi)) = Some m1"
      "ws_adds m m1 0 (byte_words (encoded_between (char_to_utf8 lo) (char_to_utf8 hi))) to"
    using add_codepoint_range [of lo hi m 0 to] char_words_whole [of lo hi] 3(3,6,7) m by auto
  have "ws_adds m0 m1 0 (byte_words (W \<union> encoded_between (char_to_utf8 lo) (char_to_utf8 hi))) to"
    using ws_adds_both [OF 3(4) m1(2) 3(6,7)] by (simp add: byte_words_def image_Un)
  from 3(1) [OF m1(1) _ _ this 3(5-7)] 3(2,3) m1(1) show ?case by (simp add: Un_assoc)
qed auto

lemma mark_ranges_spec:
  assumes "even (length data)" and "length char_set = 128"
  shows "\<exists>char_set'. mark_ranges data char_set = Some char_set' \<and> length char_set' = 128
    \<and> (\<forall>j < 128. char_set' ! j \<longleftrightarrow> char_set ! j
          \<or> (\<exists>(lo, hi)\<in>set (class_pairs data). lo \<le> int j \<and> int j \<le> (if hi > 128 then 127 else hi)))"
  using assms
proof (induction data char_set rule: mark_ranges.induct)
  case (3 lo hi rest char_set)
  let ?hi = "if hi > 128 then 127 else hi"
  let ?set = "map (\<lambda>j. char_set ! j \<or> lo \<le> int j \<and> int j \<le> ?hi) [0..<128]"
  obtain s' where "mark_ranges rest ?set = Some s'" "length s' = 128" "\<forall>j < 128. s' ! j \<longleftrightarrow> ?set ! j
          \<or> (\<exists>(lo, hi)\<in>set (class_pairs rest). lo \<le> int j \<and> int j \<le> (if hi > 128 then 127 else hi))"
    using 3(1) [OF refl] 3(2) by auto
  then show ?case by (intro exI [of _ s']) (auto simp: Let_def)
qed auto

lemma run_edges_adds:
  assumes "\<forall>(l, r)\<in>set runs. l \<le> r \<and> r < 256" and "ws_adds m0 m 0 (byte_words W) to"
    and "ws_wf m0" "0 < ws_num_states m0" "to < ws_num_states m0"
  shows "ws_adds m0 (fold (\<lambda>(l, r) m. ws_add_edge m 0 to (int l) (int r)) runs m) 0
    (byte_words (W \<union> {[b] | b. \<exists>(l, r)\<in>set runs. int l \<le> uint b \<and> uint b \<le> int r})) to"
  using assms
proof (induction runs arbitrary: m W)
  case (Cons run runs)
  obtain l r where run: "run = (l, r)" by force
  have m: "ws_wf m" "ws_num_states m0 \<le> ws_num_states m" using Cons.prems(2,3) ws_adds_wf ws_adds_states by blast+
  have "ws_adds m (ws_add_edge m 0 to (int l) (int r)) 0 (byte_range (int l) (int r)) to"
    by (rule ws_adds_edge) (use Cons.prems m run in auto)
  moreover have "byte_range (int l) (int r) = byte_words {[b] | b. int l \<le> uint b \<and> uint b \<le> int r}"
    by (simp add: byte_range_def byte_words_def setcompr_eq_image image_image)
  ultimately have "ws_adds m0 (ws_add_edge m 0 to (int l) (int r)) 0
      (byte_words (W \<union> {[b] | b. int l \<le> uint b \<and> uint b \<le> int r})) to"
    using ws_adds_both [OF Cons.prems(2) _ Cons.prems(4,5)] by (simp add: byte_words_def image_Un)
  from Cons.IH [OF _ this Cons.prems(3-5)] Cons.prems(1)
  have "ws_adds m0 (fold (\<lambda>(l, r) m. ws_add_edge m 0 to (int l) (int r)) (run # runs) m) 0
    (byte_words (W \<union> {[b] | b. int l \<le> uint b \<and> uint b \<le> int r}
      \<union> {[b] | b. \<exists>(l, r)\<in>set runs. int l \<le> uint b \<and> uint b \<le> int r})) to" by (simp add: run)
  moreover have "W \<union> {[b] | b. int l \<le> uint b \<and> uint b \<le> int r} \<union> {[b] | b. \<exists>(l, r)\<in>set runs. int l \<le> uint b \<and> uint b \<le> int r}
      = W \<union> {[b] | b. \<exists>(l, r)\<in>set (run # runs). int l \<le> uint b \<and> uint b \<le> int r}" by (auto simp: run)
  ultimately show ?case by simp
qed simp

lemma negative_class_adds:
  assumes data: "odd (length (ge_data e))" "ge_data e ! 0 \<noteq> 0" and cs: "class_states e = (m, to)"
  shows "\<exists>m'. build_negative_character_class e = Some m' \<and> ws_adds m m' 0 (byte_words (class_words (ge_data e))) to"
proof -
  note c = class_states_facts [OF cs]
  have "even (length (tl (ge_data e)))" using data(1) by (cases "ge_data e") auto
  from mark_ranges_spec [OF this, of "replicate 128 False"]
  obtain s where s: "mark_ranges (tl (ge_data e)) (replicate 128 False) = Some s" "length s = 128"
    "\<forall>j < 128. s ! j \<longleftrightarrow> (\<exists>(lo, hi)\<in>set (class_pairs (tl (ge_data e))). lo \<le> int j \<and> int j \<le> (if hi > 128 then 127 else hi))"
    by auto
  define m1 where "m1 = fold (\<lambda>(l, r) m. ws_add_edge m 0 to (int l) (int r)) (gap_runs 0 s) m"
  have "\<forall>(l, r)\<in>set (gap_runs 0 s). l \<le> r \<and> r < 256" using gap_runs_spec(2) [of _ _ 0 s] s(2) by fastforce
  from run_edges_adds [OF this, of m m "{}" to] ws_adds_none [OF c(2), of 0 to] c
  have m1: "ws_adds m m1 0 (byte_words {[b] | b. \<exists>(l, r)\<in>set (gap_runs 0 s). int l \<le> uint b \<and> uint b \<le> int r}) to"
    by (simp add: m1_def byte_words_def)
  have runs: "(\<exists>(l, r)\<in>set (gap_runs 0 s). int l \<le> uint b \<and> uint b \<le> int r) \<longleftrightarrow> uint b < 128
      \<and> \<not> (\<exists>(lo, hi)\<in>set (class_pairs (tl (ge_data e))). lo \<le> uint b \<and> uint b \<le> (if hi > 128 then 127 else hi))" for b :: byte
  proof -
    obtain k where k: "uint b = int k" using zero_le_imp_eq_int [of "uint b"] by auto
    have runs: "(\<exists>(l, r)\<in>set (gap_runs 0 s). int l \<le> int k \<and> int k \<le> int r) \<longleftrightarrow> k < 128 \<and> \<not> s ! k"
      using gap_runs_spec(1) [of 0 s k] s(2) by simp
    show ?thesis unfolding k runs using s(3) by (cases "k < 128") simp_all
  qed
  have w: "ws_wf m1" "ws_num_states m \<le> ws_num_states m1" using m1 c(2) ws_adds_wf ws_adds_states by blast+
  have "enc_le (min_enc 2) (max_enc 4)" using shaped_enc [of 2] shaped_enc [of 4] by (simp add: enc_le_def)
  from add_character_range_adds [OF _ _ this w(1), of 0 to] shaped_enc [of 2] shaped_enc [of 4] c w
  obtain m2 where m2: "add_character_range m1 0 to MIN_2B MAX_4B = Some m2"
    "ws_adds m1 m2 0 (byte_words (encoded_between (min_enc 2) (max_enc 4))) to" by (auto simp: packed_enc coded_whole)
  have "class_words (ge_data e) = {[b] | b. \<exists>(l, r)\<in>set (gap_runs 0 s). int l \<le> uint b \<and> uint b \<le> int r}
      \<union> encoded_between (min_enc 2) (max_enc 4)" using data(2) by (simp add: class_words_def runs)
  with ws_adds_both [OF m1 m2(2)] c m2(1) s(1) cs show ?thesis
    by (auto simp: build_negative_character_class_def m1_def byte_words_def image_Un)
qed

lemma build_class_lang:
  assumes "ge_kind e = CharacterClass \<or> ge_kind e = CharacterClassStar" and "elem_ok e"
  shows "\<exists>m. build_character_class e = Some m \<and> ws_wf m \<and> lang_of m = elem_lang e \<and> fs_aux (ws_fsm m) = []"
proof -
  obtain m to where cs: "class_states e = (m, to)" by force
  note c = class_states_facts [OF cs]
  have odd: "odd (length (ge_data e))" using assms by (auto simp: elem_ok_def)
  then obtain n rest where d: "ge_data e = n # rest" by (cases "ge_data e") auto
  have "\<exists>m'. build_character_class e = Some m' \<and> ws_adds m m' 0 (byte_words (class_words (ge_data e))) to"
  proof (cases "n = 0")
    case True
    have "\<forall>(lo, hi)\<in>set (class_pairs rest). 0 \<le> lo \<and> lo \<le> hi \<and> hi < 2097152 \<and> whole lo hi"
      using assms True by (auto simp: elem_ok_def d)
    from class_ranges_adds [OF _ this, of m m "{}" to] ws_adds_none [OF c(2), of 0 to] odd c
    show ?thesis using True by (auto simp: build_character_class_def d vec_at_def cs class_words_def byte_words_def)
  next
    case False
    with negative_class_adds [OF odd _ cs] show ?thesis by (simp add: build_character_class_def d vec_at_def)
  qed
  then obtain m' where m': "build_character_class e = Some m'" "ws_adds m m' 0 (byte_words (class_words (ge_data e))) to" by blast
  have "fs_aux (ws_fsm m') = []" using m'(2) c(6) by (simp add: ws_adds_def adds_def)
  with lang_of_adds [OF m'(2) c(1,2,3,5) c(8)] m'(1) c(7) assms(1) show ?thesis
    by (intro exI [of _ m']) (auto simp: elem_lang_def split: if_splits)
qed

lemma build_element_lang:
  assumes "elem_ok e"
  shows "\<exists>m. build_element e = Some (Some m) \<and> ws_wf m \<and> lang_of m = elem_lang e \<and> length (fs_aux (ws_fsm m)) \<le> 3"
proof -
  consider "ge_kind e = ByteString" | "ge_kind e = RuleRef" | "ge_kind e = Repeat"
    | "ge_kind e = CharacterClass \<or> ge_kind e = CharacterClassStar"
    using assms by (cases "ge_kind e") (auto simp: elem_ok_def)
  then show ?thesis
  proof cases
    case 1
    with build_byte_string_lang [OF 1 assms] show ?thesis by (simp add: build_element_def)
  next
    case 2
    with build_rule_ref_lang [OF 2 assms] show ?thesis by (auto simp: build_element_def)
  next
    case 3
    with build_repeat_lang [OF 3 assms] show ?thesis by (auto simp: build_element_def)
  next
    case 4
    with build_class_lang [OF 4 assms] show ?thesis by (auto simp: build_element_def)
  qed
qed

subsection \<open>Sequences\<close>

lemma build_parts_langs:
  assumes "\<forall>i\<in>set ids. \<exists>e. expr_at g i = Some e \<and> elem_ok e"
  shows "\<exists>ms. build_parts g ids parts = Some (Some (parts @ ms)) \<and> (\<forall>m\<in>set ms. ws_wf m)
    \<and> map lang_of ms = map (\<lambda>i. elem_lang (the (expr_at g i))) ids \<and> aux_sum ms \<le> 3 * length ids"
  using assms
proof (induction ids arbitrary: parts)
  case (Cons i ids)
  obtain e where e: "expr_at g i = Some e" "elem_ok e" using Cons.prems by auto
  obtain m where m: "build_element e = Some (Some m)" "ws_wf m" "lang_of m = elem_lang e" "length (fs_aux (ws_fsm m)) \<le> 3"
    using build_element_lang [OF e(2)] by blast
  obtain ms where "build_parts g ids (vec_push parts m) = Some (Some (vec_push parts m @ ms))" "\<forall>m\<in>set ms. ws_wf m"
    "map lang_of ms = map (\<lambda>i. elem_lang (the (expr_at g i))) ids" "aux_sum ms \<le> 3 * length ids"
    using Cons.IH Cons.prems by (metis list.set_intros(2))
  with e m show ?case by (intro exI [of _ "m # ms"]) (auto simp: vec_push_def)
qed (simp add: aux_sum_def)

lemma empty_fsm_lang: "ws_wf empty_fsm" "lang_of empty_fsm = {[]}" "fs_aux (ws_fsm empty_fsm) = []"
proof -
  have e: "edgeless empty_fsm" "ws_num_states empty_fsm = 1" "ws_start empty_fsm = 0" "ws_ends empty_fsm = [True]"
    by (simp_all add: empty_fsm_def ws_add_end_state_def ws_set_start_def ws_add_state_def ws_default_def fsm_add_state_def
        fsm_with_states_def edgeless_def ws_num_states_def fsm_num_states_def vec_push_def)
  then show "ws_wf empty_fsm" by (simp add: edgeless_wf)
  show "lang_of empty_fsm = {[]}"
    by (auto simp: lang_of_def e is_end_state_def edgeless_trans [OF e(1)] elim: path.cases)
  show "fs_aux (ws_fsm empty_fsm) = []" using e(1) by (simp add: edgeless_def)
qed

lemma aux_ws_concat:
  assumes "\<forall>m\<in>set ms. ws_wf m" and "aux_sum ms < 32768" and "ms \<noteq> []"
  shows "length (fs_aux (ws_fsm (ws_concat ms))) = aux_sum ms"
proof -
  have step: "fs_aux (cc_fsm (concat_add final (i, m) c)) = fs_aux (cc_fsm c) @ fs_aux (ws_fsm m)" for final i m c
  proof -
    have "fs_aux (fold (\<lambda>e f. fsm_add_epsilon_edge f e q) es f) = fs_aux f" for es q f by (induction es arbitrary: f) auto
    moreover have "fs_aux f1 = fs_aux (cc_fsm c) @ fs_aux (ws_fsm m)" if "fsm_add_fsm (cc_fsm c) (ws_fsm m) = (f1, mp)" for f1 mp
      using that fsm_add_fsm_frame(2) [of "cc_fsm c" "ws_fsm m"] by simp
    ultimately show ?thesis by (auto simp: concat_add_def Let_def split: prod.splits)
  qed
  have "length (fs_aux (cc_fsm (fold (concat_add final) (enumerate i ms) c))) = length (fs_aux (cc_fsm c)) + aux_sum ms" for final i c
    by (induction ms arbitrary: i c) (simp_all add: step)
  then show ?thesis using assms(3) by (auto simp: ws_concat_def fsm_with_states_def Let_def split: list.splits)
qed

lemma build_sequence_lang:
  assumes ids: "\<forall>i\<in>set (ge_data e). \<exists>x. expr_at g i = Some x \<and> elem_ok x" and len: "3 * length (ge_data e) < 32768"
  shows "\<exists>m. build_sequence e g = Some (Some m) \<and> ws_wf m \<and> lang_of m = seq_lang g e
    \<and> length (fs_aux (ws_fsm m)) \<le> 3 * length (ge_data e)"
proof -
  obtain ms where ms: "build_parts g (ge_data e) [] = Some (Some ms)" "\<forall>m\<in>set ms. ws_wf m"
    "map lang_of ms = map (\<lambda>i. elem_lang (the (expr_at g i))) (ge_data e)" "aux_sum ms \<le> 3 * length (ge_data e)"
    using build_parts_langs [OF ids, of "[]"] by auto
  show ?thesis
  proof (cases "ms = []")
    case True
    with ms empty_fsm_lang show ?thesis by (simp add: build_sequence_def seq_lang_def)
  next
    case False
    with ms len lang_ws_concat [OF ms(2) _ False] aux_ws_concat [OF ms(2) _ False] show ?thesis
      by (simp add: build_sequence_def seq_lang_def)
  qed
qed

end
