(* ===== verification/Union_Find.thy ===== *)
theory Union_Find
  imports Prelude "HOL-Library.Monad_Syntax"
begin

text \<open>
  The disjoint-set forest of the grammar engine (crates/grammar/src/fsm/union_find.rs): a map from an
  element to its parent and the size of its subtree, with path compression and union by size. Its
  panics (an element that was never added) are \<open>None\<close>; so would be a find that does not return, which
  \<open>uf_find_spec\<close> excludes. The forest refines a partition: \<open>uf_same\<close>.
\<close>

type_synonym 'a uf = "'a \<Rightarrow> ('a \<times> nat) option"

definition uf_new :: "'a uf" where
  "uf_new = Map.empty"

definition uf_add :: "'a uf \<Rightarrow> 'a \<Rightarrow> bool \<times> 'a uf" where
  "uf_add u e = (if u e \<noteq> None then (False, u) else (True, u(e \<mapsto> (e, 1))))"

definition uf_clear :: "'a uf \<Rightarrow> 'a uf" where
  "uf_clear u = Map.empty"

definition uf_contains :: "'a uf \<Rightarrow> 'a \<Rightarrow> bool" where
  "uf_contains u e \<longleftrightarrow> u e \<noteq> None"

partial_function (option) uf_find :: "'a uf \<Rightarrow> 'a \<Rightarrow> ('a \<times> 'a uf) option" where
  "uf_find u e =
    do { (parent, _) \<leftarrow> u e;
         if parent \<noteq> e then
           do { (root, u') \<leftarrow> uf_find u parent;
                (_, size) \<leftarrow> u' e;
                Some (root, u'(e \<mapsto> (root, size))) }
         else Some (e, u) }"

declare uf_find.simps [code]

definition uf_union :: "'a uf \<Rightarrow> 'a \<Rightarrow> 'a \<Rightarrow> 'a uf option" where
  "uf_union u a b =
    do { (root_a, u1) \<leftarrow> uf_find u a;
         (root_b, u2) \<leftarrow> uf_find u1 b;
         if root_a = root_b then Some u2
         else
           do { (_, size_a) \<leftarrow> u2 root_a;
                (_, size_b) \<leftarrow> u2 root_b;
                let (ra, rb) = (if size_a < size_b then (root_b, root_a) else (root_a, root_b));
                (_, sb) \<leftarrow> u2 rb;
                let u3 = u2(rb \<mapsto> (ra, sb));
                (pa, sa) \<leftarrow> u3 ra;
                (_, sb') \<leftarrow> u3 rb;
                Some (u3(ra \<mapsto> (pa, sa + sb'))) } }"

text \<open>The loop of \<open>all_sets\<close>. The hash map yields its elements in some order, the argument of
  \<open>uf_all_sets\<close>.\<close>

fun uf_sets_loop :: "'a list \<Rightarrow> 'a uf \<Rightarrow> ('a \<Rightarrow> nat option) \<Rightarrow> 'a list list \<Rightarrow> ('a uf \<times> 'a list list) option" where
  "uf_sets_loop [] u root_to_idx res = Some (u, res)"
| "uf_sets_loop (v # vs) u root_to_idx res =
    do { (root, u') \<leftarrow> uf_find u v;
         (case root_to_idx root of
            Some i \<Rightarrow> uf_sets_loop vs u' root_to_idx (res[i := vec_push (res ! i) v])
          | None \<Rightarrow> uf_sets_loop vs u' (root_to_idx(root \<mapsto> length res)) (vec_push res [v])) }"

definition uf_all_sets :: "'a::linorder list \<Rightarrow> 'a uf \<Rightarrow> ('a uf \<times> 'a list list) option" where
  "uf_all_sets elements u =
    do { (u', res) \<leftarrow> uf_sets_loop elements u Map.empty [];
         Some (u', sort_key (\<lambda>v. v ! 0) (map sort res)) }"

subsection \<open>Roots\<close>

inductive uf_root :: "'a uf \<Rightarrow> 'a \<Rightarrow> 'a \<Rightarrow> bool" for u where
  uf_root_here: "u e = Some (e, s) \<Longrightarrow> uf_root u e e"
| uf_root_up: "u e = Some (p, s) \<Longrightarrow> p \<noteq> e \<Longrightarrow> uf_root u p r \<Longrightarrow> uf_root u e r"

definition uf_ranked :: "'a uf \<Rightarrow> ('a \<Rightarrow> nat) \<Rightarrow> bool" where
  "uf_ranked u rank \<longleftrightarrow> (\<forall>e p s. u e = Some (p, s) \<longrightarrow> p \<in> dom u \<and> (p \<noteq> e \<longrightarrow> rank p < rank e))"

definition uf_wf :: "'a uf \<Rightarrow> bool" where
  "uf_wf u \<longleftrightarrow> finite (dom u) \<and> (\<exists>rank. uf_ranked u rank)"

definition uf_same :: "'a uf \<Rightarrow> 'a \<Rightarrow> 'a \<Rightarrow> bool" where
  "uf_same u x y \<longleftrightarrow> (\<exists>r. uf_root u x r \<and> uf_root u y r)"

lemma uf_root_fun: "uf_root u e r \<Longrightarrow> uf_root u e r' \<Longrightarrow> r' = r"
proof (induction rule: uf_root.induct)
  case (uf_root_here e s)
  from uf_root_here(2,1) show ?case by cases auto
next
  case (uf_root_up e p s r)
  from uf_root_up(5) uf_root_up(1,2) have "uf_root u p r'" by cases auto
  then show ?case by (rule uf_root_up(4))
qed

lemma uf_root_dom: "uf_root u e r \<Longrightarrow> e \<in> dom u \<and> (\<exists>s. u r = Some (r, s))"
  by (induction rule: uf_root.induct) auto

lemma uf_root_total: "uf_ranked u rank \<Longrightarrow> e \<in> dom u \<Longrightarrow> \<exists>r. uf_root u e r"
proof (induction "rank e" arbitrary: e rule: less_induct)
  case less
  then obtain p s where e: "u e = Some (p, s)" by auto
  show ?case
  proof (cases "p = e")
    case True
    with e show ?thesis by (blast intro: uf_root_here)
  next
    case False
    with less.prems e have "rank p < rank e" "p \<in> dom u" by (auto simp: uf_ranked_def)
    with less.hyps less.prems(1) obtain r where "uf_root u p r" by blast
    with e False show ?thesis by (blast intro: uf_root_up)
  qed
qed

lemma uf_root_rank: "uf_root u e r \<Longrightarrow> uf_ranked u rank \<Longrightarrow> r \<noteq> e \<Longrightarrow> rank r < rank e"
proof (induction rule: uf_root.induct)
  case (uf_root_up e p s r)
  then have "rank p < rank e" by (auto simp: uf_ranked_def)
  with uf_root_up show ?case by (cases "r = p") auto
qed simp

text \<open>Two forests over the same elements have the same roots when one has the other's.\<close>

lemma uf_roots_eqI:
  assumes "uf_wf u" "dom u' = dom u" and "\<And>x r. uf_root u x r \<Longrightarrow> uf_root u' x r"
  shows "uf_root u' = uf_root u"
proof (intro ext iffI)
  fix x r
  assume r: "uf_root u' x r"
  then have "x \<in> dom u" using uf_root_dom assms(2) by fastforce
  obtain rank where "uf_ranked u rank" using assms(1) by (auto simp: uf_wf_def)
  then obtain r0 where "uf_root u x r0" using uf_root_total \<open>x \<in> dom u\<close> by metis
  with assms(3) r show "uf_root u x r" using uf_root_fun by metis
qed (use assms(3) in auto)

subsection \<open>Find\<close>

text \<open>Pointing an element at its root changes no root.\<close>

lemma uf_compress:
  assumes wf: "uf_wf u" and r: "uf_root u e r" and ne: "r \<noteq> e" and s: "u e = Some (p, s)"
  shows "uf_wf (u(e \<mapsto> (r, s)))" and "uf_root (u(e \<mapsto> (r, s))) = uf_root u"
proof -
  let ?u = "u(e \<mapsto> (r, s))"
  obtain rank where rank: "uf_ranked u rank" and fin: "finite (dom u)" using wf by (auto simp: uf_wf_def)
  obtain sr where sr: "u r = Some (r, sr)" using uf_root_dom [OF r] by blast
  have d: "dom ?u = dom u" using s by auto
  have "rank r < rank e" by (rule uf_root_rank [OF r rank ne])
  then have "uf_ranked ?u rank" using rank sr s by (auto simp: uf_ranked_def)
  then show "uf_wf ?u" using fin d by (auto simp: uf_wf_def)
  have er: "uf_root ?u e r" by (rule uf_root_up [of _ e r s]) (use ne sr in \<open>auto intro: uf_root_here\<close>)
  show "uf_root ?u = uf_root u"
  proof (rule uf_roots_eqI [OF wf d])
    fix x y
    assume xy: "uf_root u x y"
    then show "uf_root ?u x y"
    proof (induction rule: uf_root.induct)
      case (uf_root_here x t)
      show ?case
      proof (cases "x = e")
        case True
        have "uf_root u e e" using uf_root_here True by (blast intro: uf_root.uf_root_here)
        with r ne uf_root_fun show ?thesis by metis
      next
        case False
        with uf_root_here show ?thesis by (auto intro: uf_root.uf_root_here)
      qed
    next
      case (uf_root_up x q t y)
      show ?case
      proof (cases "x = e")
        case True
        have "uf_root u e y" using uf_root_up(1-3) True by (blast intro: uf_root.uf_root_up)
        then show ?thesis using er r uf_root_fun True by metis
      next
        case False
        with uf_root_up show ?thesis by (auto intro: uf_root.uf_root_up)
      qed
    qed
  qed
qed

lemma uf_find_spec:
  assumes "uf_wf u" and "uf_root u e r"
  shows "\<exists>u'. uf_find u e = Some (r, u') \<and> uf_wf u' \<and> dom u' = dom u \<and> uf_root u' = uf_root u"
  using assms(2)
proof (induction rule: uf_root.induct)
  case (uf_root_here e s)
  then show ?case using assms(1) by (subst uf_find.simps) simp
next
  case (uf_root_up e p s r)
  then obtain u' where u': "uf_find u p = Some (r, u')" "uf_wf u'" "dom u' = dom u" "uf_root u' = uf_root u" by blast
  have "e \<in> dom u'" using uf_root_up(1) u'(3) by auto
  then obtain p' s' where e: "u' e = Some (p', s')" by auto
  have er: "uf_root u' e r" unfolding u'(4) using uf_root_up by (blast intro: uf_root.uf_root_up)
  have "r \<noteq> e"
  proof
    assume "r = e"
    obtain rank where rank: "uf_ranked u rank" using assms(1) by (auto simp: uf_wf_def)
    with uf_root_up(1,2) have "rank p < rank e" by (auto simp: uf_ranked_def)
    moreover have "r = p \<or> rank r < rank p" using uf_root_rank [OF uf_root_up(3) rank] by blast
    ultimately show False using \<open>r = e\<close> uf_root_up(2) by auto
  qed
  note c = uf_compress [OF u'(2) er this e]
  have "uf_find u e = Some (r, u'(e \<mapsto> (r, s')))"
    using uf_root_up(1,2) u'(1) e by (subst uf_find.simps) simp
  moreover have "dom (u'(e \<mapsto> (r, s'))) = dom u" using e u'(3) by auto
  ultimately show ?case using c u'(4) by auto
qed

lemma uf_root_ex:
  assumes "uf_wf u" and "e \<in> dom u"
  obtains r where "uf_root u e r"
proof -
  obtain rank where "uf_ranked u rank" using assms(1) by (auto simp: uf_wf_def)
  from uf_root_total [OF this assms(2)] show thesis using that by blast
qed

subsection \<open>Adding and merging\<close>

lemma uf_new_wf: "uf_wf uf_new"
  by (auto simp: uf_wf_def uf_new_def uf_ranked_def)

lemma uf_add_spec:
  assumes wf: "uf_wf u" and new: "u e = None"
  shows "uf_wf (u(e \<mapsto> (e, 1)))"
    and "uf_root (u(e \<mapsto> (e, 1))) x r \<longleftrightarrow> (if x = e then r = e else uf_root u x r)"
proof -
  let ?u = "u(e \<mapsto> (e, 1))"
  obtain rank where rank: "uf_ranked u rank" and fin: "finite (dom u)" using wf by (auto simp: uf_wf_def)
  have "uf_ranked ?u rank" using rank new by (auto simp: uf_ranked_def)
  then show "uf_wf ?u" using fin by (auto simp: uf_wf_def)
  have here: "uf_root ?u e e" by (rule uf_root_here [of _ _ 1]) simp
  have old: "uf_root u y q \<Longrightarrow> uf_root ?u y q" for y q
  proof (induction rule: uf_root.induct)
    case (uf_root_here y s)
    with new have "?u y = Some (y, s)" by auto
    then show ?case by (rule uf_root.uf_root_here)
  next
    case (uf_root_up y p s q)
    with new have "?u y = Some (p, s)" by auto
    with uf_root_up(2,4) show ?case by (blast intro: uf_root.uf_root_up)
  qed
  show "uf_root ?u x r \<longleftrightarrow> (if x = e then r = e else uf_root u x r)"
  proof (cases "x = e")
    case True
    then show ?thesis using here uf_root_fun by metis
  next
    case False
    have "uf_root u x r" if "uf_root ?u x r"
    proof -
      from that have "x \<in> dom u" using uf_root_dom [OF that] False by auto
      with wf obtain q where q: "uf_root u x q" by (rule uf_root_ex)
      with old that uf_root_fun show ?thesis by metis
    qed
    with old False show ?thesis by auto
  qed
qed

text \<open>Hanging one root under another: the elements below it get the other root.\<close>

lemma uf_link:
  assumes wf: "uf_wf u" and ra: "u ra = Some (ra, sa)" and rb: "u rb = Some (rb, sb)" and ne: "ra \<noteq> rb"
    and u': "u' = u(rb \<mapsto> (ra, sb), ra \<mapsto> (ra, t))"
  shows "uf_wf u'" and "dom u' = dom u"
    and "uf_root u' x r \<longleftrightarrow> (if uf_root u x rb then r = ra else uf_root u x r)"
proof -
  obtain rank where rank: "uf_ranked u rank" and fin: "finite (dom u)" using wf by (auto simp: uf_wf_def)
  show d: "dom u' = dom u" using ra rb u' by auto
  define rank' where "rank' x = rank x + (if uf_root u x rb then rank ra + 1 else 0)" for x
  have nra: "\<not> uf_root u ra rb" using ra ne uf_root_fun uf_root_here by metis
  have step: "uf_root u p rb = uf_root u x rb" if "u x = Some (p, s)" "p \<noteq> x" for x p s
    using that by (metis uf_root_up uf_root.cases option.inject prod.inject)
  have "uf_ranked u' rank'"
    unfolding uf_ranked_def
  proof (intro allI impI)
    fix e p s
    assume e: "u' e = Some (p, s)"
    show "p \<in> dom u' \<and> (p \<noteq> e \<longrightarrow> rank' p < rank' e)"
    proof (cases "e = rb")
      case True
      with e u' ne have "p = ra" by auto
      moreover have "rank' ra < rank' rb" using nra uf_root_here [of u rb sb] rb by (simp add: rank'_def)
      ultimately show ?thesis using ra d True by auto
    next
      case False
      show ?thesis
      proof (cases "e = ra")
        case True
        with e u' have "p = ra" by simp
        with True ra d show ?thesis by auto
      next
        case False
        with \<open>e \<noteq> rb\<close> e u' have e0: "u e = Some (p, s)" by simp
        with rank have "p \<in> dom u" "p \<noteq> e \<Longrightarrow> rank p < rank e" by (auto simp: uf_ranked_def)
        with d step [OF e0] show ?thesis by (auto simp: rank'_def)
      qed
    qed
  qed
  then show wf': "uf_wf u'" using fin d by (auto simp: uf_wf_def)
  have ra': "uf_root u' ra ra" by (rule uf_root_here [of _ _ t]) (simp add: u')
  have rb': "uf_root u' rb ra" by (rule uf_root_up [of _ _ ra sb]) (use ne ra' in \<open>auto simp: u'\<close>)
  have u'y: "y \<noteq> ra \<Longrightarrow> y \<noteq> rb \<Longrightarrow> u' y = u y" for y by (simp add: u')
  have old: "uf_root u y q \<Longrightarrow> uf_root u' y (if q = rb then ra else q)" for y q
  proof (induction rule: uf_root.induct)
    case (uf_root_here y s)
    then show ?case using ra' rb' ne u'y uf_root.uf_root_here [of u' y s]
      by (cases "y = ra"; cases "y = rb") simp_all
  next
    case (uf_root_up y p s q)
    then have "y \<noteq> ra" "y \<noteq> rb" using ra rb by auto
    with uf_root_up have "u' y = Some (p, s)" by (simp add: u')
    with uf_root_up show ?case by (auto intro: uf_root.uf_root_up)
  qed
  show "uf_root u' x r \<longleftrightarrow> (if uf_root u x rb then r = ra else uf_root u x r)"
  proof (cases "x \<in> dom u")
    case True
    with wf obtain q where q: "uf_root u x q" by (rule uf_root_ex)
    have "uf_root u x y \<longleftrightarrow> y = q" for y using q uf_root_fun by metis
    moreover have "uf_root u' x y \<longleftrightarrow> y = (if q = rb then ra else q)" for y using old [OF q] uf_root_fun by metis
    ultimately show ?thesis by auto
  next
    case False
    with d show ?thesis using uf_root_dom by metis
  qed
qed

text \<open>Merging does not fail, and the new partition joins the two classes and no others.\<close>

lemma uf_union_spec:
  assumes wf: "uf_wf u" and a: "a \<in> dom u" and b: "b \<in> dom u"
  shows "\<exists>u'. uf_union u a b = Some u' \<and> uf_wf u' \<and> dom u' = dom u
    \<and> (\<forall>x y. uf_same u' x y \<longleftrightarrow> uf_same u x y \<or> (uf_same u x a \<and> uf_same u y b) \<or> (uf_same u x b \<and> uf_same u y a))"
proof -
  obtain ra where ra: "uf_root u a ra" using wf a by (rule uf_root_ex)
  obtain rb where rb: "uf_root u b rb" using wf b by (rule uf_root_ex)
  obtain u1 where u1: "uf_find u a = Some (ra, u1)" "uf_wf u1" "dom u1 = dom u" "uf_root u1 = uf_root u"
    using uf_find_spec [OF wf ra] by blast
  obtain u2 where u2: "uf_find u1 b = Some (rb, u2)" "uf_wf u2" "dom u2 = dom u" "uf_root u2 = uf_root u"
    using uf_find_spec [OF u1(2), of b rb] rb u1(3,4) by auto
  have same: "uf_same u x y \<longleftrightarrow> uf_same u2 x y" for x y by (simp add: uf_same_def u2(4))
  have roots: "uf_root u a q \<longleftrightarrow> q = ra" "uf_root u b q \<longleftrightarrow> q = rb" for q using ra rb uf_root_fun by metis+
  have sa: "uf_same u x a \<longleftrightarrow> uf_root u x ra" and sb: "uf_same u x b \<longleftrightarrow> uf_root u x rb" for x
    by (auto simp: uf_same_def roots)
  show ?thesis
  proof (cases "ra = rb")
    case True
    then have "uf_union u a b = Some u2" using u1(1) u2(1) by (simp add: uf_union_def)
    moreover have "uf_same u2 x y \<longleftrightarrow> uf_same u x y \<or> (uf_same u x a \<and> uf_same u y b) \<or> (uf_same u x b \<and> uf_same u y a)" for x y
      unfolding same [symmetric] sa sb True by (auto simp: uf_same_def)
    ultimately show ?thesis using u2 by blast
  next
    case False
    obtain za where za: "u2 ra = Some (ra, za)" using uf_root_dom [of u2 a ra] ra u2(4) by auto
    obtain zb where zb: "u2 rb = Some (rb, zb)" using uf_root_dom [of u2 b rb] rb u2(4) by auto
    define p q where "p = (if za < zb then rb else ra)" and "q = (if za < zb then ra else rb)"
    obtain zp zq where zp: "u2 p = Some (p, zp)" and zq: "u2 q = Some (q, zq)" and pq: "p \<noteq> q"
      using za zb False by (cases "za < zb") (auto simp: p_def q_def)
    define u' where "u' = u2(q \<mapsto> (p, zq), p \<mapsto> (p, zp + zq))"
    have run: "uf_union u a b = Some u'"
      using u1(1) u2(1) False za zb zp zq pq by (auto simp: uf_union_def u'_def p_def q_def split: if_splits)
    note l = uf_link [OF u2(2) zp zq pq u'_def]
    have ends: "{p, q} = {ra, rb}" by (auto simp: p_def q_def)
    have "uf_same u' x y \<longleftrightarrow> uf_same u x y \<or> (uf_same u x a \<and> uf_same u y b) \<or> (uf_same u x b \<and> uf_same u y a)" for x y
    proof -
      have "uf_same u' x y \<longleftrightarrow> (\<exists>r. (if uf_root u x q then r = p else uf_root u x r)
          \<and> (if uf_root u y q then r = p else uf_root u y r))"
        by (simp only: uf_same_def l(3) u2(4))
      also have "\<dots> \<longleftrightarrow> uf_same u x y \<or> (uf_root u x p \<and> uf_root u y q) \<or> (uf_root u x q \<and> uf_root u y p)"
        using pq by (cases "uf_root u x q"; cases "uf_root u y q") (auto simp: uf_same_def dest: uf_root_fun)
      also have "(uf_root u x p \<and> uf_root u y q) \<or> (uf_root u x q \<and> uf_root u y p) \<longleftrightarrow>
          (uf_same u x a \<and> uf_same u y b) \<or> (uf_same u x b \<and> uf_same u y a)"
        unfolding sa sb using ends by (auto simp: p_def q_def)
      finally show ?thesis .
    qed
    with run l u2(3) show ?thesis by auto
  qed
qed

subsection \<open>The classes\<close>

lemma concat_push_at:
  assumes "i < length res"
  shows "mset (concat (res[i := vec_push (res ! i) v])) = add_mset v (mset (concat res))"
proof -
  have "mset (concat res) = mset (concat (take i res @ res ! i # drop (Suc i) res))"
    using id_take_nth_drop [OF assms] by simp
  then show ?thesis using assms by (simp add: upd_conv_take_nth_drop vec_push_def)
qed

definition uf_grouped :: "'a uf \<Rightarrow> ('a \<Rightarrow> nat option) \<Rightarrow> 'a list list \<Rightarrow> bool" where
  "uf_grouped u root_to_idx res \<longleftrightarrow>
     (\<forall>r i. root_to_idx r = Some i \<longrightarrow>
        i < length res \<and> res ! i \<noteq> [] \<and> (\<forall>x \<in> set (res ! i). uf_root u x r)) \<and>
     (\<forall>i < length res. \<exists>r. root_to_idx r = Some i)"

lemma uf_grouped_nth:
  assumes "uf_grouped u m res" and "i < length res"
  obtains r where "m r = Some i" "res ! i \<noteq> []" "\<And>x. x \<in> set (res ! i) \<Longrightarrow> uf_root u x r"
  using assms that unfolding uf_grouped_def by metis

lemma uf_grouped_old:
  assumes "uf_grouped u m res" and "m r = Some i" and "uf_root u v r"
  shows "uf_grouped u m (res[i := vec_push (res ! i) v])"
  unfolding uf_grouped_def
proof (intro conjI allI impI)
  fix q j
  assume q: "m q = Some j"
  with assms(1) have j: "j < length res" "res ! j \<noteq> []" "\<forall>x \<in> set (res ! j). uf_root u x q"
    by (auto simp: uf_grouped_def)
  have "q = r" if "j = i"
  proof -
    from j(2) obtain x where "x \<in> set (res ! j)" by (cases "res ! j") auto
    with j(3) assms(1,2) that have "uf_root u x q" "uf_root u x r" by (auto simp: uf_grouped_def)
    then show ?thesis by (rule uf_root_fun [rotated])
  qed
  with j assms(3) show "j < length (res[i := vec_push (res ! i) v])" "res[i := vec_push (res ! i) v] ! j \<noteq> []"
    and "\<forall>x \<in> set (res[i := vec_push (res ! i) v] ! j). uf_root u x q"
    by (cases "j = i"; simp add: vec_push_def)+
next
  fix j
  assume "j < length (res[i := vec_push (res ! i) v])"
  with assms(1) show "\<exists>q. m q = Some j" by (simp add: uf_grouped_def)
qed

lemma uf_grouped_new:
  assumes g: "uf_grouped u m res" and "m r = None" and "uf_root u v r"
  shows "uf_grouped u (m(r \<mapsto> length res)) (vec_push res [v])"
  unfolding uf_grouped_def
proof (intro conjI allI impI)
  fix q i
  assume "(m(r \<mapsto> length res)) q = Some i"
  then show "i < length (vec_push res [v])" "vec_push res [v] ! i \<noteq> []"
    and "\<forall>x \<in> set (vec_push res [v] ! i). uf_root u x q"
    using assms by (auto simp: uf_grouped_def vec_push_def nth_append less_Suc_eq split: if_splits)
next
  fix i
  assume "i < length (vec_push res [v])"
  then consider "i = length res" | "i < length res" by fastforce
  then show "\<exists>q. (m(r \<mapsto> length res)) q = Some i"
  proof cases
    case 2
    with g obtain q where "m q = Some i" by (metis uf_grouped_nth)
    with assms(2) show ?thesis by (metis fun_upd_apply option.distinct(1))
  qed auto
qed

lemma uf_sets_loop_spec:
  assumes "uf_wf u" "set vs \<subseteq> dom u" "uf_grouped u m res"
  shows "\<exists>u' res' m'. uf_sets_loop vs u m res = Some (u', res') \<and> uf_wf u' \<and> dom u' = dom u
    \<and> uf_root u' = uf_root u \<and> uf_grouped u m' res' \<and> mset (concat res') = mset (concat res) + mset vs"
  using assms
proof (induction vs arbitrary: u m res)
  case (Cons v vs)
  then obtain r where r: "uf_root u v r" by (auto elim: uf_root_ex)
  obtain u1 where u1: "uf_find u v = Some (r, u1)" "uf_wf u1" "dom u1 = dom u" "uf_root u1 = uf_root u"
    using uf_find_spec [OF Cons.prems(1) r] by blast
  have g: "uf_grouped u1 = uf_grouped u" by (intro ext) (simp add: uf_grouped_def u1(4))
  have vs: "set vs \<subseteq> dom u1" using Cons.prems(2) u1(3) by simp
  show ?case
  proof (cases "m r")
    case None
    have "uf_grouped u1 (m(r \<mapsto> length res)) (vec_push res [v])"
      unfolding g by (rule uf_grouped_new [OF Cons.prems(3) None r])
    from Cons.IH [OF u1(2) vs this] show ?thesis
      using u1 None by (auto simp: g vec_push_def simp del: fun_upd_apply)
  next
    case (Some i)
    have "uf_grouped u1 m (res[i := vec_push (res ! i) v])"
      unfolding g by (rule uf_grouped_old [OF Cons.prems(3) Some r])
    from Cons.IH [OF u1(2) vs this] show ?thesis
      using u1 Some Cons.prems(3) by (auto simp: g concat_push_at uf_grouped_def)
  qed
qed auto

definition uf_classes :: "'a uf \<Rightarrow> 'a list list \<Rightarrow> bool" where
  "uf_classes u sets \<longleftrightarrow> distinct (concat sets) \<and> set (concat sets) = dom u \<and> [] \<notin> set sets
     \<and> (\<forall>xs \<in> set sets. \<forall>x \<in> set xs. \<forall>y. y \<in> set xs \<longleftrightarrow> uf_same u x y)"

text \<open>\<open>all_sets\<close> returns: its lists are the classes, each element in exactly one of them.\<close>

lemma uf_all_sets_spec:
  fixes u :: "'a::linorder uf"
  assumes wf: "uf_wf u" and vs: "set vs = dom u" "distinct vs"
  shows "\<exists>u' sets. uf_all_sets vs u = Some (u', sets) \<and> uf_wf u' \<and> dom u' = dom u \<and> uf_root u' = uf_root u
    \<and> uf_classes u sets"
proof -
  obtain u' res m where run: "uf_sets_loop vs u Map.empty [] = Some (u', res)"
    and u': "uf_wf u'" "dom u' = dom u" "uf_root u' = uf_root u"
    and g: "uf_grouped u m res" and ms: "mset (concat res) = mset vs"
    using uf_sets_loop_spec [OF wf, of vs Map.empty "[]"] vs by (auto simp: uf_grouped_def)
  define sets where "sets = sort_key (\<lambda>v. v ! 0) (map sort res)"
  have set_sets: "set sets = sort ` set res" by (simp add: sets_def)
  have "mset (concat sets) = mset (concat res)"
    by (simp add: sets_def mset_concat flip: sum_mset_sum_list)
       (simp add: image_mset.compositionality comp_def)
  then have m: "mset (concat sets) = mset vs" using ms by simp
  have d: "distinct (concat sets)" using mset_eq_imp_distinct_iff [OF m] vs by simp
  have s: "set (concat sets) = dom u" using mset_eq_setD [OF m] vs by simp
  have s': "set (concat res) = dom u" using mset_eq_setD [OF ms] vs by simp
  have cls: "y \<in> set xs \<longleftrightarrow> uf_same u x y" if xs: "xs \<in> set res" and x: "x \<in> set xs" for xs x y
  proof -
    from xs obtain i where i: "i < length res" "res ! i = xs" by (auto simp: in_set_conv_nth)
    with g obtain r where r: "m r = Some i" "\<And>x. x \<in> set xs \<Longrightarrow> uf_root u x r" by (metis uf_grouped_nth)
    show ?thesis
    proof
      assume "y \<in> set xs"
      with r(2) x show "uf_same u x y" by (auto simp: uf_same_def)
    next
      assume "uf_same u x y"
      then have yr: "uf_root u y r" using r(2) [OF x] uf_root_fun unfolding uf_same_def by metis
      then have "y \<in> set (concat res)" using s' uf_root_dom by metis
      then obtain ys where "ys \<in> set res" "y \<in> set ys" by auto
      then obtain j where j: "j < length res" "y \<in> set (res ! j)" by (metis in_set_conv_nth)
      with g obtain r' where r': "m r' = Some j" "uf_root u y r'" by (metis uf_grouped_nth)
      with yr uf_root_fun have "r' = r" by metis
      with r r' i j show "y \<in> set xs" by simp
    qed
  qed
  have "[] \<notin> set res" using g by (metis in_set_conv_nth uf_grouped_nth)
  then have ne: "[] \<notin> set sets" using set_sets by (metis imageE mset.simps(1) mset_sort mset_zero_iff)
  have "uf_classes u sets" using d s ne cls set_sets by (auto simp: uf_classes_def)
  with run u' show ?thesis by (auto simp: uf_all_sets_def sets_def)
qed

end
