(* ===== verification/Fsm_Simplify.thy ===== *)
theory Fsm_Simplify
  imports Fsm_Build Union_Find "HOL-Library.Product_Lexorder"
begin

text \<open>
  The simplification passes over machines (crates/grammar/src/fsm/simplify.rs) and the machine of a rule
  body that ends in them (grammar/functor/fsm_builder.rs). The rows of the two edge arrays are lists; a
  panic of the code, or a loop that would not end, is \<open>None\<close>. Both passes return, keep machines well
  formed and never lose a word (\<open>Simplify_Props\<close>); they can gain words.
\<close>

subsection \<open>Merging classes\<close>

definition uf_join :: "nat uf \<Rightarrow> nat \<Rightarrow> nat \<Rightarrow> nat uf option" where
  "uf_join u a b = uf_union (snd (uf_add (snd (uf_add u a)) b)) a b"

text \<open>The state numbers after a merge: the classes in order, then every other state.\<close>

fun number_classes :: "nat \<Rightarrow> nat list list \<Rightarrow> int list \<Rightarrow> int list" where
  "number_classes i [] slots = slots"
| "number_classes i (cls # rest) slots =
    number_classes (Suc i) rest (fold (\<lambda>s slots. slots[s := int i]) cls slots)"

fun number_rest :: "int list \<Rightarrow> nat \<Rightarrow> nat list \<times> nat" where
  "number_rest [] cnt = ([], cnt)"
| "number_rest (slot # slots) cnt =
    (if slot = - 1 then (case number_rest slots (Suc cnt) of (xs, c) \<Rightarrow> (cnt # xs, c))
     else (case number_rest slots cnt of (xs, c) \<Rightarrow> (nat slot # xs, c)))"

definition class_mapping :: "nat \<Rightarrow> nat list list \<Rightarrow> nat list \<times> nat" where
  "class_mapping n classes = number_rest (number_classes 0 classes (replicate n (- 1))) (length classes)"

subsection \<open>Epsilon edges\<close>

record eps_state =
  es_uf :: "nat uf"
  es_degree :: "int list"
  es_edges :: "(nat \<times> nat) list"

fun eps_edges :: "nat \<Rightarrow> nat \<Rightarrow> fsm_edge list \<Rightarrow> eps_state \<Rightarrow> eps_state option" where
  "eps_edges i len [] st = Some st"
| "eps_edges i len (e # es) st =
    (let t = e_target e;
         st1 = st\<lparr> es_degree := (es_degree st)[t := es_degree st ! t + 1] \<rparr>
     in if is_epsilon e then
          (if len = 1 then
             do { u \<leftarrow> uf_join (es_uf st1) i t;
                  eps_edges i len es (st1\<lparr> es_uf := u, es_degree := (es_degree st1)[t := es_degree st1 ! t - 1] \<rparr>) }
           else eps_edges i len es (st1\<lparr> es_edges := vec_push (es_edges st1) (i, t) \<rparr>))
        else eps_edges i len es st1)"

fun eps_rows :: "fsm \<Rightarrow> nat list \<Rightarrow> eps_state \<Rightarrow> eps_state option" where
  "eps_rows f [] st = Some st"
| "eps_rows f (i # is) st =
    do { st' \<leftarrow> eps_edges i (length (fsm_row f i)) (fsm_row f i) st;
         eps_rows f is st' }"

text \<open>The representative of every state, and the degrees of the representatives.\<close>

fun eps_equiv :: "nat list \<Rightarrow> nat uf \<Rightarrow> int list \<Rightarrow> (nat list \<times> nat uf \<times> int list) option" where
  "eps_equiv [] u degree = Some ([], u, degree)"
| "eps_equiv (i # is) u degree =
    (if uf_contains u i then
       do { (rep, u') \<leftarrow> uf_find u i;
            (reps, u2, degree2) \<leftarrow> eps_equiv is u'
               (if rep \<noteq> i then degree[rep := degree ! rep + degree ! i] else degree);
            Some (rep # reps, u2, degree2) }
     else
       do { (reps, u2, degree2) \<leftarrow> eps_equiv is u degree;
            Some (i # reps, u2, degree2) })"

fun eps_second :: "(nat \<times> nat) list \<Rightarrow> nat list \<Rightarrow> int list \<Rightarrow> nat \<Rightarrow> nat uf \<Rightarrow> nat uf option" where
  "eps_second [] reps degree start u = Some u"
| "eps_second ((from_raw, to_raw) # rest) reps degree start u =
    (let from = reps ! from_raw; to = reps ! to_raw
     in if degree ! to = 1 \<and> reps ! start \<noteq> to
        then do { u' \<leftarrow> uf_join u from to; eps_second rest reps degree start u' }
        else eps_second rest reps degree start u)"

definition simplify_epsilon :: "fsm_wse \<Rightarrow> fsm_wse option" where
  "simplify_epsilon m =
    (if ws_is_dfa m then Some m
     else
       let n = ws_num_states m in
       do { st \<leftarrow> eps_rows (ws_fsm m) [0..<n] \<lparr> es_uf = uf_new, es_degree = replicate n 0, es_edges = [] \<rparr>;
            (reps, u, degree) \<leftarrow> eps_equiv [0..<n] (es_uf st) (es_degree st);
            u2 \<leftarrow> eps_second (es_edges st) reps degree (ws_start m) u;
            (_, classes) \<leftarrow> uf_all_sets (filter (uf_contains u2) [0..<n]) u2;
            if classes = [] then Some m
            else (case class_mapping n classes of (mapping, cnt) \<Rightarrow> Some (ws_rebuild_with_mapping m mapping cnt)) })"

subsection \<open>Equivalent neighbours\<close>

text \<open>An end point: the peer, and the bounds of the edge.\<close>

type_synonym endpoint = "nat \<times> int \<times> int"

definition incoming_row :: "fsm \<Rightarrow> nat \<Rightarrow> endpoint list" where
  "incoming_row f t =
     concat (map (\<lambda>s. map (\<lambda>e. (s, e_min e, e_max e)) (filter (\<lambda>e. e_target e = t) (fsm_row f s))) [0..<fsm_num_states f])"

definition outgoing_row :: "fsm \<Rightarrow> nat \<Rightarrow> endpoint list" where
  "outgoing_row f s = sort (map (\<lambda>e. (e_target e, e_min e, e_max e)) (fsm_row f s))"

text \<open>The number of distinct peers of a row, and the only one (\<open>- 1\<close> when there is none or several).\<close>

definition distinct_peers :: "endpoint list \<Rightarrow> nat \<times> int" where
  "distinct_peers row =
     (let peers = remdups_adj (map fst row)
      in (length peers, if length peers = 1 then int (hd peers) else - 1))"

definition same_labels :: "endpoint list \<Rightarrow> endpoint list \<Rightarrow> bool" where
  "same_labels xs ys \<longleftrightarrow> length xs = length ys \<and> list_all (\<lambda>((_, a), (_, b)). a = b) (zip xs ys)"

text \<open>The groups of a row: maximal runs with the same peer.\<close>

function peer_groups :: "endpoint list \<Rightarrow> (nat \<times> endpoint list) list" where
  "peer_groups [] = []"
| "peer_groups (x # xs) =
    (fst x, x # takeWhile (\<lambda>y. fst y = fst x) xs) # peer_groups (dropWhile (\<lambda>y. fst y = fst x) xs)"
  by pat_completeness auto
termination by (relation "measure length") (simp_all add: le_imp_less_Suc length_dropWhile_le)

text \<open>\<open>ab|ac|ad\<close> to \<open>a(b|c|d)\<close>: the siblings of \<open>i\<close> below its only predecessor.\<close>

fun merge_siblings :: "fsm_wse \<Rightarrow> nat \<Rightarrow> (nat \<times> endpoint list) list \<Rightarrow> nat uf \<times> bool \<Rightarrow> (nat uf \<times> bool) option" where
  "merge_siblings m i [] st = Some st"
| "merge_siblings m i ((sibling, edges) # groups) (u, changed) =
    (if sibling \<le> i \<or> fst (distinct_peers (incoming_row (ws_fsm m) sibling)) \<noteq> 1
        \<or> is_end_state m sibling \<noteq> is_end_state m i \<or> \<not> same_labels (incoming_row (ws_fsm m) i) edges
     then merge_siblings m i groups (u, changed)
     else do { u' \<leftarrow> uf_join u i sibling; merge_siblings m i groups (u', True) })"

fun merge_successors :: "fsm_wse \<Rightarrow> nat list \<Rightarrow> nat uf \<times> bool \<Rightarrow> (nat uf \<times> bool) option" where
  "merge_successors m [] st = Some st"
| "merge_successors m (i # is) (u, changed) =
    (case distinct_peers (incoming_row (ws_fsm m) i) of (n, single) \<Rightarrow>
       if n \<noteq> 1 \<or> uf_contains u i then merge_successors m is (u, changed)
       else do { st' \<leftarrow> merge_siblings m i (peer_groups (outgoing_row (ws_fsm m) (nat single))) (u, changed);
                 merge_successors m is st' })"

text \<open>\<open>ba|ca|da\<close> to \<open>(b|c|d)a\<close>: the siblings of \<open>i\<close> above its only successor.\<close>

fun merge_mirror :: "fsm_wse \<Rightarrow> nat \<Rightarrow> (nat \<times> endpoint list) list \<Rightarrow> nat uf \<times> bool \<Rightarrow> (nat uf \<times> bool) option" where
  "merge_mirror m i [] st = Some st"
| "merge_mirror m i ((sibling, _) # groups) (u, changed) =
    (if sibling \<le> i \<or> uf_contains u sibling \<or> fst (distinct_peers (outgoing_row (ws_fsm m) sibling)) \<noteq> 1
        \<or> is_end_state m i \<noteq> is_end_state m sibling
        \<or> \<not> same_labels (outgoing_row (ws_fsm m) sibling) (outgoing_row (ws_fsm m) i)
     then merge_mirror m i groups (u, changed)
     else do { u' \<leftarrow> uf_join u i sibling; merge_mirror m i groups (u', True) })"

text \<open>The states without successors are collected on the way, accepting and not.\<close>

fun merge_precursors :: "fsm_wse \<Rightarrow> nat list \<Rightarrow> nat uf \<times> bool \<Rightarrow> nat list \<Rightarrow> nat list
    \<Rightarrow> ((nat uf \<times> bool) \<times> nat list \<times> nat list) option" where
  "merge_precursors m [] st ends others = Some (st, ends, others)"
| "merge_precursors m (i # is) (u, changed) ends others =
    (case distinct_peers (outgoing_row (ws_fsm m) i) of (n, single) \<Rightarrow>
       if n = 0 then
         (if is_end_state m i then merge_precursors m is (u, changed) (vec_push ends i) others
          else merge_precursors m is (u, changed) ends (vec_push others i))
       else if n \<noteq> 1 \<or> uf_contains u i then merge_precursors m is (u, changed) ends others
       else do { st' \<leftarrow> merge_mirror m i (peer_groups (incoming_row (ws_fsm m) (nat single))) (u, changed);
                 merge_precursors m is st' ends others })"

fun merge_dead :: "nat \<Rightarrow> nat list \<Rightarrow> nat uf \<times> bool \<Rightarrow> (nat uf \<times> bool) option" where
  "merge_dead s0 [] st = Some st"
| "merge_dead s0 (s # ss) (u, changed) = do { u' \<leftarrow> uf_join u s0 s; merge_dead s0 ss (u', True) }"

definition merge_dead_ends :: "nat list \<Rightarrow> nat uf \<times> bool \<Rightarrow> (nat uf \<times> bool) option" where
  "merge_dead_ends ss st = (if 1 < length ss then merge_dead (ss ! 0) (tl ss) st else Some st)"

text \<open>One round: \<open>None\<close> of the inner option when nothing changed.\<close>

definition merge_round :: "fsm_wse \<Rightarrow> fsm_wse option option" where
  "merge_round m =
    (let n = ws_num_states m in
     do { (u1, c1) \<leftarrow> merge_successors m [0..<n] (uf_new, False);
          ((u2, c2), ends, others) \<leftarrow> merge_precursors m [0..<n] (u1, False) [] [];
          st3 \<leftarrow> merge_dead_ends ends (u2, c2);
          (u4, c4) \<leftarrow> merge_dead_ends others st3;
          if c1 \<or> c4 then
            do { (_, classes) \<leftarrow> uf_all_sets (filter (uf_contains u4) [0..<n]) u4;
                 case class_mapping n classes of (mapping, cnt) \<Rightarrow>
                   let m' = ws_rebuild_with_mapping m mapping cnt
                   in Some (Some (m'\<lparr> ws_fsm := fsm_sort_edges (ws_fsm m') \<rparr>)) }
          else Some None })"

partial_function (option) merge_loop :: "fsm_wse \<Rightarrow> fsm_wse option" where
  "merge_loop m =
    do { r \<leftarrow> merge_round m;
         case r of None \<Rightarrow> Some m | Some m' \<Rightarrow> merge_loop m' }"

declare merge_loop.simps [code]

definition merge_equivalent_successors :: "fsm_wse \<Rightarrow> fsm_wse option" where
  "merge_equivalent_successors m =
    (if ws_num_states m < 4 then Some m
     else merge_loop (m\<lparr> ws_fsm := fsm_sort_edges (ws_fsm m) \<rparr>))"

subsection \<open>Rule bodies\<close>

fun build_alternatives :: "grammar_data \<Rightarrow> int list \<Rightarrow> fsm_wse list \<Rightarrow> bool \<Rightarrow> (fsm_wse list \<times> bool) option option" where
  "build_alternatives g [] ms nullable = Some (Some (ms, nullable))"
| "build_alternatives g (i # is) ms nullable =
    do { e \<leftarrow> expr_at g i;
         if ge_kind e = EmptyStr then build_alternatives g is ms True
         else do { r \<leftarrow> build_sequence e g;
                   case r of None \<Rightarrow> Some None
                   | Some m \<Rightarrow> build_alternatives g is (vec_push ms m) nullable } }"

definition build_choices :: "grammar_expr \<Rightarrow> grammar_data \<Rightarrow> fsm_wse option option" where
  "build_choices e g =
    do { r \<leftarrow> build_alternatives g (ge_data e) [] False;
         case r of
           None \<Rightarrow> Some None
         | Some (ms, nullable) \<Rightarrow>
             if ms = [] then Some (Some empty_fsm)
             else
               do { m1 \<leftarrow> simplify_epsilon (ws_union (if nullable then vec_push ms empty_fsm else ms));
                    m2 \<leftarrow> merge_equivalent_successors m1;
                    Some (Some m2) } }"

definition splice_into :: "fsm \<Rightarrow> fsm_wse \<Rightarrow> fsm_wse \<times> fsm" where
  "splice_into complete sub =
    (case fsm_add_fsm complete (ws_fsm sub) of
       (complete', mapping) \<Rightarrow>
         (\<lparr> ws_fsm = complete', ws_start = mapping ! ws_start sub,
            ws_ends = fold (\<lambda>s ends. if is_end_state sub s then ends[mapping ! s := True] else ends)
              [0..<ws_num_states sub] (replicate (fsm_num_states complete') False),
            ws_is_dfa = False \<rparr>, complete'))"

end
