(* ===== verification/Simplify_Props.thy ===== *)
theory Simplify_Props
  imports Fsm_Simplify
begin

text \<open>
  The simplification passes return, keep machines well formed and never lose a word; a rule body is
  built, and its machine accepts every word of its alternatives.
\<close>

subsection \<open>Rebuilding under a mapping\<close>

lemma rebuild_row:
  assumes "j < cnt"
  shows "e' \<in> set (fsm_row (fsm_rebuild_with_mapping f mapping cnt) j) \<longleftrightarrow>
    (\<exists>i < fsm_num_states f. \<exists>e\<in>set (fsm_row f i). mapping ! i = j \<and> e' = remap_edge mapping e
        \<and> \<not> (is_epsilon e \<and> mapping ! i = mapping ! e_target e))"
  using assms by (auto simp: fsm_rebuild_with_mapping_def fsm_row_def)

lemma rebuild_states [simp]:
  "fsm_num_states (fsm_rebuild_with_mapping f mapping cnt) = cnt"
  "ws_num_states (ws_rebuild_with_mapping m mapping cnt) = cnt"
  by (simp_all add: fsm_rebuild_with_mapping_def fsm_num_states_def ws_rebuild_with_mapping_def ws_num_states_def)

lemma remap_reads:
  "repeat_edge_info f' = repeat_edge_info f \<Longrightarrow> reads f' (remap_edge mapping e) l = reads f e l"
  by (cases l; (cases "the l")?)
     (auto simp: remap_edge_def is_char_range_def is_epsilon_def is_rule_ref_def is_repeat_ref_def)

lemma rebuild_info [simp]: "repeat_edge_info (fsm_rebuild_with_mapping f mapping cnt) = repeat_edge_info f"
  by (intro ext) (simp add: repeat_edge_info_def fsm_rebuild_with_mapping_def)

definition mapping_ok :: "nat \<Rightarrow> nat list \<Rightarrow> nat \<Rightarrow> bool" where
  "mapping_ok n mapping cnt \<longleftrightarrow> length mapping = n \<and> (\<forall>x\<in>set mapping. x < cnt)"

lemma mapping_ok_nth: "mapping_ok n mapping cnt \<Longrightarrow> i < n \<Longrightarrow> mapping ! i < cnt"
  by (auto simp: mapping_ok_def)

lemma rebuild_wf:
  assumes m: "ws_wf m" and map: "mapping_ok (ws_num_states m) mapping cnt"
  shows "ws_wf (ws_rebuild_with_mapping m mapping cnt)"
proof -
  let ?f = "ws_fsm m" and ?f' = "fsm_rebuild_with_mapping (ws_fsm m) mapping cnt"
  have f: "fsm_wf ?f" using m by (simp add: ws_wf_def)
  have "edge_ok ?f' e'" if "e' \<in> set (fsm_row ?f' j)" for j e'
  proof -
    have "j < cnt" using that by (auto simp: fsm_row_def fsm_rebuild_with_mapping_def split: if_splits)
    with that obtain i e where e: "e \<in> set (fsm_row ?f i)" "e' = remap_edge mapping e" by (auto simp: rebuild_row)
    with f have "edge_ok ?f e" by (auto simp: fsm_wf_rows)
    then show ?thesis using mapping_ok_nth [OF map] e(2)
      by (auto simp: edge_ok_def remap_edge_def is_char_range_def is_repeat_ref_def ws_num_states_def)
  qed
  moreover have "length (fs_aux ?f') < 32768" using f by (simp add: fsm_wf_def fsm_rebuild_with_mapping_def)
  ultimately have "fsm_wf ?f'" by (simp add: fsm_wf_rows)
  then show ?thesis using m mapping_ok_nth [OF map]
    by (simp add: ws_wf_def ws_rebuild_with_mapping_def fold_marks ws_num_states_def)
qed

text \<open>Whatever states are merged, every path survives; only a word more can come in.\<close>

lemma rebuild_lang:
  assumes m: "ws_wf m" and map: "mapping_ok (ws_num_states m) mapping cnt"
  shows "lang_of m \<subseteq> lang_of (ws_rebuild_with_mapping m mapping cnt)"
proof
  fix w
  let ?f = "ws_fsm m" and ?f' = "fsm_rebuild_with_mapping (ws_fsm m) mapping cnt"
  let ?m' = "ws_rebuild_with_mapping m mapping cnt"
  assume "w \<in> lang_of m"
  then obtain t where t: "t < ws_num_states m" "path (fsm_trans ?f) (ws_start m) w t" "is_end_state m t"
    by (auto simp: lang_of_def)
  have f: "fsm_wf ?f" using m by (simp add: ws_wf_def)
  have step: "fsm_trans ?f' (mapping ! s) l (mapping ! u) \<or> l = None \<and> mapping ! s = mapping ! u"
    if T: "fsm_trans ?f s l u" for s l u
  proof -
    obtain e where e: "e \<in> set (fsm_row ?f s)" "e_target e = u" "reads ?f e l" using T by (auto simp: fsm_trans_def)
    have s: "s < fsm_num_states ?f" by (rule trans_range [OF T])
    have eps: "is_epsilon e \<Longrightarrow> l = None" using e(3)
      by (cases l; (cases "the l")?) (auto simp: is_epsilon_def is_char_range_def is_rule_ref_def is_repeat_ref_def edge_types)
    have j: "mapping ! s < cnt" using mapping_ok_nth [OF map] s by (simp add: ws_num_states_def)
    show ?thesis
    proof (cases "is_epsilon e \<and> mapping ! s = mapping ! u")
      case False
      then have "remap_edge mapping e \<in> set (fsm_row ?f' (mapping ! s))"
        unfolding rebuild_row [OF j] using e s by blast
      then show ?thesis using e(2,3) remap_reads [of ?f' ?f mapping e l]
        by (auto simp: fsm_trans_def remap_edge_def intro!: bexI)
    qed (use eps in auto)
  qed
  have "path (fsm_trans ?f') (mapping ! ws_start m) w (mapping ! t)" using t(2)
  proof (induction rule: path.induct)
    case (path_eps s u w t)
    then show ?case using step [of s None u] by (auto intro: path.path_eps)
  next
    case (path_sym s a u w t)
    then show ?case using step [of s "Some a" u] by (auto intro: path.path_sym)
  qed auto
  moreover have "mapping ! t < cnt" using mapping_ok_nth [OF map] t(1) by simp
  moreover have "is_end_state ?m' (mapping ! t)"
    using t(1,3) calculation(2) by (auto simp: ws_rebuild_with_mapping_def is_end_state_def fold_marks ws_num_states_def)
  ultimately show "w \<in> lang_of ?m'"
    unfolding lang_of_def rebuild_states by (auto simp: ws_rebuild_with_mapping_def)
qed

lemma sort_row: "fsm_row (fsm_sort_edges f) s = sort (fsm_row f s)"
  by (simp add: fsm_row_def fsm_sort_edges_def)

lemma sorted_machine:
  defines "m' \<equiv> \<lambda>m. m\<lparr> ws_fsm := fsm_sort_edges (ws_fsm m) \<rparr>"
  shows "ws_num_states (m' m) = ws_num_states m" and "ws_wf m \<Longrightarrow> ws_wf (m' m)" and "lang_of (m' m) = lang_of m"
proof -
  have n: "fsm_num_states (fsm_sort_edges f) = fsm_num_states f" for f
    by (simp add: fsm_sort_edges_def fsm_num_states_def)
  have i: "repeat_edge_info (fsm_sort_edges f) = repeat_edge_info f" for f
    by (intro ext) (simp add: repeat_edge_info_def fsm_sort_edges_def)
  have r: "reads (fsm_sort_edges f) e l = reads f e l" for f e l
    by (cases l; (cases "the l")?) (auto simp: i)
  have t: "fsm_trans (fsm_sort_edges f) = fsm_trans f" for f
    by (intro ext) (simp add: fsm_trans_def sort_row r)
  show "ws_num_states (m' m) = ws_num_states m" by (simp add: m'_def ws_num_states_def n)
  have "edge_ok (fsm_sort_edges f) = edge_ok f" for f by (intro ext) (simp add: edge_ok_def n i)
  then show "ws_wf m \<Longrightarrow> ws_wf (m' m)"
    by (simp add: m'_def ws_wf_def ws_num_states_def n fsm_wf_rows sort_row) (simp add: fsm_sort_edges_def)
  show "lang_of (m' m) = lang_of m" by (simp add: m'_def lang_of_def ws_num_states_def n t is_end_state_def)
qed

subsection \<open>Numbering the classes\<close>

lemma number_rest_spec:
  "number_rest slots cnt = (xs, c) \<Longrightarrow> (\<forall>x\<in>set slots. x = - 1 \<or> 0 \<le> x \<and> x < int cnt) \<Longrightarrow>
     length xs = length slots \<and> c = cnt + count_list slots (- 1) \<and> (\<forall>x\<in>set xs. x < c)"
proof (induction slots arbitrary: cnt xs c)
  case (Cons slot slots)
  show ?case
  proof (cases "slot = - 1")
    case True
    with Cons.prems(1) obtain ys where ys: "number_rest slots (Suc cnt) = (ys, c)" "xs = cnt # ys"
      by (auto split: prod.splits)
    have "\<forall>x\<in>set slots. x = - 1 \<or> 0 \<le> x \<and> x < int (Suc cnt)" using Cons.prems(2) by auto
    from Cons.IH [OF ys(1) this] show ?thesis using True ys(2) by auto
  next
    case False
    with Cons.prems(1) obtain ys where ys: "number_rest slots cnt = (ys, c)" "xs = nat slot # ys"
      by (auto split: prod.splits)
    have "\<forall>x\<in>set slots. x = - 1 \<or> 0 \<le> x \<and> x < int cnt" using Cons.prems(2) by auto
    from Cons.IH [OF ys(1) this] show ?thesis using False Cons.prems(2) ys(2) by auto
  qed
qed simp

lemma fold_slots:
  "length (fold (\<lambda>s slots. slots[s := v]) cls slots) = length slots"
  "s < length slots \<Longrightarrow> fold (\<lambda>s slots. slots[s := v]) cls slots ! s = (if s \<in> set cls then v else slots ! s)"
proof -
  show l: "length (fold (\<lambda>s slots. slots[s := v]) cls slots) = length slots" for slots
    by (induction cls arbitrary: slots) auto
  show "s < length slots \<Longrightarrow> fold (\<lambda>s slots. slots[s := v]) cls slots ! s = (if s \<in> set cls then v else slots ! s)"
    by (induction cls arbitrary: slots) (auto simp: nth_list_update)
qed

lemma number_classes_spec:
  "length (number_classes i classes slots) = length slots \<and>
   (\<forall>s < length slots. if s \<in> set (concat classes)
      then 0 \<le> number_classes i classes slots ! s \<and> number_classes i classes slots ! s < int (i + length classes)
      else number_classes i classes slots ! s = slots ! s)"
proof (induction classes arbitrary: i slots)
  case (Cons cls classes)
  let ?slots = "fold (\<lambda>s slots. slots[s := int i]) cls slots"
  have "number_classes i (cls # classes) slots = number_classes (Suc i) classes ?slots" by simp
  then show ?case using Cons.IH [of "Suc i" ?slots] by (auto simp: fold_slots split: if_splits)
qed simp

lemma class_mapping_spec:
  assumes "class_mapping n classes = (mapping, cnt)" and "set (concat classes) \<subseteq> {..<n}"
  shows "mapping_ok n mapping cnt" and "cnt = length classes + (n - card (set (concat classes)))"
proof -
  let ?slots = "number_classes 0 classes (replicate n (- 1))"
  have l: "length ?slots = n" and s: "\<And>s. s < n \<Longrightarrow> if s \<in> set (concat classes)
      then 0 \<le> ?slots ! s \<and> ?slots ! s < int (length classes) else ?slots ! s = - 1"
    using number_classes_spec [of 0 classes "replicate n (- 1)"] by (simp, force split: if_splits)
  have ok: "\<forall>x\<in>set ?slots. x = - 1 \<or> 0 \<le> x \<and> x < int (length classes)"
    using s l by (force simp: in_set_conv_nth split: if_splits)
  note r = number_rest_spec [OF assms(1) [unfolded class_mapping_def] ok]
  show "mapping_ok n mapping cnt" unfolding mapping_ok_def using r l by metis
  have "{s. s < n \<and> ?slots ! s = - 1} = {..<n} - set (concat classes)" using s by (force split: if_splits)
  then have "card {s. s < n \<and> ?slots ! s = - 1} = n - card (set (concat classes))"
    using assms(2) by (simp add: card_Diff_subset)
  moreover have "count_list ?slots (- 1) = card {s. s < n \<and> ?slots ! s = - 1}"
    by (simp add: count_list_eq_length_filter length_filter_conv_card l eq_commute)
  ultimately show "cnt = length classes + (n - card (set (concat classes)))" using r by simp
qed

subsection \<open>The forest over the states\<close>

definition uf_ok :: "nat \<Rightarrow> nat uf \<Rightarrow> bool" where
  "uf_ok n u \<longleftrightarrow> uf_wf u \<and> dom u \<subseteq> {..<n}"

definition uf_merged :: "nat uf \<Rightarrow> bool" where
  "uf_merged u \<longleftrightarrow> (\<exists>x y. x \<noteq> y \<and> uf_same u x y)"

lemma uf_ok_new: "uf_ok n uf_new"
  by (simp add: uf_ok_def uf_new_wf) (simp add: uf_new_def)

lemma uf_add_ok:
  assumes "uf_ok n u" and "a < n"
  shows "uf_ok n (snd (uf_add u a))" and "dom (snd (uf_add u a)) = insert a (dom u)"
    and "uf_merged u \<Longrightarrow> uf_merged (snd (uf_add u a))"
proof -
  let ?u = "snd (uf_add u a)"
  show "dom ?u = insert a (dom u)" by (auto simp: uf_add_def)
  then show "uf_ok n ?u" using assms uf_add_spec(1) [of u a] by (cases "u a") (auto simp: uf_ok_def uf_add_def)
  show "uf_merged ?u" if m: "uf_merged u"
  proof (cases "u a")
    case None
    from m obtain x y r where xy: "x \<noteq> y" "uf_root u x r" "uf_root u y r" by (auto simp: uf_merged_def uf_same_def)
    then have "x \<in> dom u" "y \<in> dom u" using uf_root_dom by metis+
    with None have "x \<noteq> a" "y \<noteq> a" by auto
    then have "uf_root ?u x r" "uf_root ?u y r"
      using assms(1) None xy(2,3) uf_add_spec(2) [of u a] by (simp_all add: uf_add_def uf_ok_def)
    with xy(1) show ?thesis unfolding uf_merged_def uf_same_def by blast
  next
    case (Some p)
    with m show ?thesis by (simp add: uf_add_def)
  qed
qed

lemma uf_join_ok:
  assumes u: "uf_ok n u" and a: "a < n" and b: "b < n"
  obtains u' where "uf_join u a b = Some u'" "uf_ok n u'" "uf_merged u \<or> a \<noteq> b \<Longrightarrow> uf_merged u'"
proof -
  let ?u1 = "snd (uf_add u a)" let ?u2 = "snd (uf_add ?u1 b)"
  note add = uf_add_ok [OF u a] uf_add_ok [OF uf_add_ok(1) [OF u a] b]
  have ab: "a \<in> dom ?u2" "b \<in> dom ?u2" using add(2,5) by auto
  obtain u' where u': "uf_union ?u2 a b = Some u'" "uf_wf u'" "dom u' = dom ?u2"
    and s: "\<And>x y. uf_same u' x y \<longleftrightarrow> uf_same ?u2 x y \<or> (uf_same ?u2 x a \<and> uf_same ?u2 y b) \<or> (uf_same ?u2 x b \<and> uf_same ?u2 y a)"
    using uf_union_spec [OF _ ab] add(4) unfolding uf_ok_def by blast
  have refl: "x \<in> dom ?u2 \<Longrightarrow> uf_same ?u2 x x" for x
    using uf_root_ex [of ?u2 x] add(4) unfolding uf_ok_def uf_same_def by blast
  show thesis
  proof
    show "uf_join u a b = Some u'" by (simp add: uf_join_def u'(1))
    show "uf_ok n u'" using u' add(4) by (simp add: uf_ok_def)
    show "uf_merged u'" if "uf_merged u \<or> a \<noteq> b"
      using that s refl [OF ab(1)] refl [OF ab(2)] add(3) add(6) unfolding uf_merged_def by blast
  qed
qed

lemma length_concat_nonempty: "[] \<notin> set cs \<Longrightarrow> length cs \<le> length (concat cs)"
proof (induction cs)
  case (Cons c cs)
  then have "1 \<le> length c" by (cases c) auto
  with Cons show ?case by simp
qed simp

text \<open>What a merge makes of the machine.\<close>

lemma uf_classes_mapping:
  assumes u: "uf_ok n u" and classes: "uf_classes u classes" and map: "class_mapping n classes = (mapping, cnt)"
  shows "mapping_ok n mapping cnt" and "uf_merged u \<Longrightarrow> cnt < n"
proof -
  have d: "set (concat classes) = dom u" "distinct (concat classes)" and ne: "[] \<notin> set classes"
    using classes by (simp_all add: uf_classes_def)
  have sub: "set (concat classes) \<subseteq> {..<n}" using d(1) u by (simp add: uf_ok_def)
  note m = class_mapping_spec [OF map sub]
  show "mapping_ok n mapping cnt" by (rule m(1))
  assume "uf_merged u"
  then obtain x y where xy: "x \<noteq> y" "uf_same u x y" by (auto simp: uf_merged_def)
  then have "x \<in> set (concat classes)" unfolding d(1) using uf_root_dom unfolding uf_same_def by metis
  then obtain xs where xs: "xs \<in> set classes" "x \<in> set xs" by auto
  with xy classes have "y \<in> set xs" by (auto simp: uf_classes_def)
  with xy xs have two: "1 < length xs" by (cases xs; cases "tl xs") auto
  have len: "length classes + (length xs - 1) \<le> length (concat classes)" using xs(1) ne
  proof (induction classes)
    case (Cons cls classes)
    have "length classes \<le> length (concat classes)" using Cons.prems(2) by (intro length_concat_nonempty) simp
    moreover have "1 \<le> length cls" using Cons.prems(2) by (cases cls) auto
    ultimately show ?case
    proof (cases "xs = cls")
      case False
      with Cons have "length classes + (length xs - 1) \<le> length (concat classes)" by simp
      with \<open>1 \<le> length cls\<close> show ?thesis by simp
    qed simp
  qed simp
  have "card (set (concat classes)) = length (concat classes)" by (rule distinct_card [OF d(2)])
  moreover have "card (set (concat classes)) \<le> n" using card_mono [OF _ sub] by simp
  ultimately show "cnt < n" using m(2) len two by linarith
qed

lemma filter_contains: "uf_ok n u \<Longrightarrow> set (filter (uf_contains u) [0..<n]) = dom u \<and> distinct (filter (uf_contains u) [0..<n])"
  by (auto simp: uf_ok_def uf_contains_def)

lemma uf_sets_ok:
  assumes "uf_ok n u"
  obtains u' classes where "uf_all_sets (filter (uf_contains u) [0..<n]) u = Some (u', classes)" "uf_classes u classes"
  using uf_all_sets_spec [of u "filter (uf_contains u) [0..<n]"] filter_contains [OF assms] assms
  unfolding uf_ok_def by auto

subsection \<open>Epsilon edges\<close>

definition eps_ok :: "nat \<Rightarrow> eps_state \<Rightarrow> bool" where
  "eps_ok n st \<longleftrightarrow> uf_ok n (es_uf st) \<and> (\<forall>(a, b)\<in>set (es_edges st). a < n \<and> b < n)"

lemma eps_edges_ok:
  "eps_ok n st \<Longrightarrow> i < n \<Longrightarrow> \<forall>e\<in>set es. e_target e < n \<Longrightarrow> \<exists>st'. eps_edges i len es st = Some st' \<and> eps_ok n st'"
proof (induction es arbitrary: st)
  case (Cons e es)
  let ?t = "e_target e"
  have t: "?t < n" using Cons.prems(3) by simp
  consider "is_epsilon e" "len = 1" | "is_epsilon e" "len \<noteq> 1" | "\<not> is_epsilon e" by blast
  then show ?case
  proof cases
    case 1
    obtain u where u: "uf_join (es_uf st) i ?t = Some u" "uf_ok n u"
      using Cons.prems(1,2) t uf_join_ok [of n "es_uf st" i ?t] unfolding eps_ok_def by blast
    with 1 Cons show ?thesis by (simp add: eps_ok_def Let_def)
  next
    case 2
    with Cons t show ?thesis by (simp add: eps_ok_def Let_def)
  next
    case 3
    with Cons show ?thesis by (simp add: eps_ok_def Let_def)
  qed
qed simp

lemma eps_rows_ok:
  assumes "fsm_wf f" and "eps_ok (fsm_num_states f) st" and "set rows \<subseteq> {..<fsm_num_states f}"
  shows "\<exists>st'. eps_rows f rows st = Some st' \<and> eps_ok (fsm_num_states f) st'"
  using assms(2,3)
proof (induction rows arbitrary: st)
  case (Cons i rows)
  have "\<forall>e\<in>set (fsm_row f i). e_target e < fsm_num_states f" using fsm_wfD(1) [OF assms(1)] by blast
  then obtain st1 where "eps_edges i (length (fsm_row f i)) (fsm_row f i) st = Some st1" "eps_ok (fsm_num_states f) st1"
    using eps_edges_ok [OF Cons.prems(1)] Cons.prems(2) by fastforce
  with Cons show ?case by simp
qed simp

lemma eps_equiv_ok:
  "uf_ok n u \<Longrightarrow> set rows \<subseteq> {..<n} \<Longrightarrow>
   \<exists>reps u' degree'. eps_equiv rows u degree = Some (reps, u', degree') \<and> uf_ok n u'
     \<and> length reps = length rows \<and> (\<forall>r\<in>set reps. r < n)"
proof (induction rows arbitrary: u degree)
  case (Cons i rows)
  show ?case
  proof (cases "uf_contains u i")
    case True
    have wf: "uf_wf u" "dom u \<subseteq> {..<n}" using Cons.prems(1) by (auto simp: uf_ok_def)
    from True have "i \<in> dom u" by (auto simp: uf_contains_def)
    then obtain r where r: "uf_root u i r" using wf(1) by (auto elim: uf_root_ex)
    then have rn: "r < n" using uf_root_dom [OF r] wf(2) by auto
    obtain u1 where u1: "uf_find u i = Some (r, u1)" "uf_wf u1" "dom u1 = dom u" using uf_find_spec [OF wf(1) r] by blast
    then have "uf_ok n u1" using wf(2) by (simp add: uf_ok_def)
    from Cons.IH [OF this, of "if r \<noteq> i then degree[r := degree ! r + degree ! i] else degree"] Cons.prems(2) True u1(1) rn
    show ?thesis by auto
  next
    case False
    from Cons.IH [OF Cons.prems(1), of degree] Cons.prems(2) False show ?thesis by auto
  qed
qed simp

lemma eps_second_ok:
  "uf_ok n u \<Longrightarrow> \<forall>(a, b)\<in>set es. a < n \<and> b < n \<Longrightarrow> length reps = n \<Longrightarrow> \<forall>r\<in>set reps. r < n \<Longrightarrow>
   \<exists>u'. eps_second es reps degree start u = Some u' \<and> uf_ok n u'"
proof (induction es arbitrary: u)
  case (Cons p es)
  obtain a b where p: "p = (a, b)" by force
  have ab: "reps ! a < n" "reps ! b < n" using Cons.prems p by auto
  obtain u1 where "uf_join u (reps ! a) (reps ! b) = Some u1" "uf_ok n u1" using uf_join_ok [OF Cons.prems(1) ab] by blast
  with Cons p show ?case by (simp add: Let_def)
qed simp

lemma simplify_epsilon_ok:
  assumes m: "ws_wf m"
  shows "\<exists>m'. simplify_epsilon m = Some m' \<and> ws_wf m' \<and> lang_of m \<subseteq> lang_of m'"
proof (cases "ws_is_dfa m")
  case True
  with m show ?thesis by (simp add: simplify_epsilon_def)
next
  case False
  define n where "n = ws_num_states m"
  let ?st0 = "\<lparr> es_uf = uf_new, es_degree = replicate n 0, es_edges = [] \<rparr>"
  have f: "fsm_wf (ws_fsm m)" and n: "fsm_num_states (ws_fsm m) = n" using m by (simp_all add: ws_wf_def n_def ws_num_states_def)
  obtain st where st: "eps_rows (ws_fsm m) [0..<n] ?st0 = Some st" "eps_ok n st"
    using eps_rows_ok [OF f, of ?st0 "[0..<n]"] uf_ok_new [of n] by (simp add: n eps_ok_def) (auto simp: atLeast0LessThan)
  obtain reps u degree where e: "eps_equiv [0..<n] (es_uf st) (es_degree st) = Some (reps, u, degree)" "uf_ok n u"
      "length reps = n" "\<forall>r\<in>set reps. r < n"
    using eps_equiv_ok [of n "es_uf st" "[0..<n]" "es_degree st"] st(2) by (auto simp: eps_ok_def atLeast0LessThan)
  obtain u2 where u2: "eps_second (es_edges st) reps degree (ws_start m) u = Some u2" "uf_ok n u2"
    using eps_second_ok [OF e(2) _ e(3,4), of "es_edges st" degree "ws_start m"] st(2) by (auto simp: eps_ok_def)
  obtain u3 classes where s: "uf_all_sets (filter (uf_contains u2) [0..<n]) u2 = Some (u3, classes)" "uf_classes u2 classes"
    using u2(2) by (rule uf_sets_ok)
  obtain mapping cnt where map: "class_mapping n classes = (mapping, cnt)" by force
  have run: "simplify_epsilon m = Some (if classes = [] then m else ws_rebuild_with_mapping m mapping cnt)"
    using False st(1) e(1) u2(1) s(1) map by (simp add: simplify_epsilon_def n_def [symmetric] Let_def)
  have "mapping_ok (ws_num_states m) mapping cnt" using uf_classes_mapping(1) [OF u2(2) s(2) map] by (simp add: n_def)
  then show ?thesis using run rebuild_wf [OF m] rebuild_lang [OF m] m by auto
qed

subsection \<open>Equivalent neighbours\<close>

definition merge_ok :: "nat \<Rightarrow> nat uf \<times> bool \<Rightarrow> bool" where
  "merge_ok n st \<longleftrightarrow> uf_ok n (fst st) \<and> (snd st \<longrightarrow> uf_merged (fst st))"

definition merge_step :: "nat \<Rightarrow> nat uf \<times> bool \<Rightarrow> (nat uf \<times> bool) option \<Rightarrow> bool" where
  "merge_step n st r \<longleftrightarrow> (\<exists>st'. r = Some st' \<and> merge_ok n st' \<and> (uf_merged (fst st) \<longrightarrow> uf_merged (fst st')))"

lemma merge_step_same: "merge_ok n st \<Longrightarrow> merge_step n st (Some st)"
  by (simp add: merge_step_def)

lemma merge_step_join:
  assumes "merge_ok n (u, c)" and "a \<noteq> b" and "a < n" and "b < n"
    and k: "\<And>u'. uf_join u a b = Some u' \<Longrightarrow> merge_ok n (u', True) \<Longrightarrow> merge_step n (u', True) (k u')"
  shows "merge_step n (u, c) (do { u' \<leftarrow> uf_join u a b; k u' })"
proof -
  have u: "uf_ok n u" using assms(1) by (simp add: merge_ok_def)
  obtain u' where u': "uf_join u a b = Some u'" "uf_ok n u'" "uf_merged u \<or> a \<noteq> b \<Longrightarrow> uf_merged u'"
    by (rule uf_join_ok [OF u, of a b]) (use assms(2-4) in auto)
  then have "merge_ok n (u', True)" using assms(2) by (simp add: merge_ok_def)
  from k [OF u'(1) this] u' assms(2) show ?thesis by (auto simp: merge_step_def merge_ok_def)
qed

lemma merge_step_bind:
  assumes "merge_step n st r" and "\<And>st'. r = Some st' \<Longrightarrow> merge_ok n st' \<Longrightarrow> merge_step n st' (k st')"
  shows "merge_step n st (do { st' \<leftarrow> r; k st' })"
  using assms unfolding merge_step_def by fastforce

lemma peer_groups_peers: "(p, es) \<in> set (peer_groups row) \<Longrightarrow> p \<in> fst ` set row"
proof (induction row rule: peer_groups.induct)
  case (2 x xs)
  then show ?case using set_dropWhileD by fastforce
qed simp

lemma merge_siblings_ok:
  "merge_ok n st \<Longrightarrow> \<forall>(p, es)\<in>set groups. p < n \<Longrightarrow> merge_step n st (merge_siblings m i groups st)"
proof (induction m i groups st rule: merge_siblings.induct)
  case (2 m i sibling edges groups u changed)
  then show ?case by (auto intro!: merge_step_join)
qed (simp_all add: merge_step_same)

lemma merge_mirror_ok:
  "merge_ok n st \<Longrightarrow> \<forall>(p, es)\<in>set groups. p < n \<Longrightarrow> merge_step n st (merge_mirror m i groups st)"
proof (induction m i groups st rule: merge_mirror.induct)
  case (2 m i sibling edges groups u changed)
  then show ?case by (auto intro!: merge_step_join)
qed (simp_all add: merge_step_same)

lemma row_peers:
  assumes "ws_wf m"
  shows "\<forall>(p, es)\<in>set (peer_groups (outgoing_row (ws_fsm m) s)). p < ws_num_states m"
    and "\<forall>(p, es)\<in>set (peer_groups (incoming_row (ws_fsm m) s)). p < ws_num_states m"
proof -
  have "p < ws_num_states m" if "p \<in> fst ` set (outgoing_row (ws_fsm m) s)" for p
    using that assms fsm_wfD(1) [of "ws_fsm m"] by (auto simp: outgoing_row_def ws_wf_def ws_num_states_def)
  then show "\<forall>(p, es)\<in>set (peer_groups (outgoing_row (ws_fsm m) s)). p < ws_num_states m"
    using peer_groups_peers by fastforce
  have "p < ws_num_states m" if "p \<in> fst ` set (incoming_row (ws_fsm m) s)" for p
    using that by (auto simp: incoming_row_def ws_num_states_def)
  then show "\<forall>(p, es)\<in>set (peer_groups (incoming_row (ws_fsm m) s)). p < ws_num_states m"
    using peer_groups_peers by fastforce
qed

lemma merge_successors_ok:
  "ws_wf m \<Longrightarrow> merge_ok (ws_num_states m) st \<Longrightarrow> merge_step (ws_num_states m) st (merge_successors m rows st)"
proof (induction m rows st rule: merge_successors.induct)
  case (2 m i rows u changed)
  obtain k single where d: "distinct_peers (incoming_row (ws_fsm m) i) = (k, single)" by force
  show ?case
  proof (cases "k \<noteq> 1 \<or> uf_contains u i")
    case True
    with 2(1) [OF d [symmetric]] 2(3,4) d show ?thesis by (simp split: prod.splits)
  next
    case False
    note IH = 2(2) [OF d [symmetric]]
    have "merge_step (ws_num_states m) (u, changed) (merge_siblings m i (peer_groups (outgoing_row (ws_fsm m) (nat single))) (u, changed))"
      by (rule merge_siblings_ok [OF 2(4)]) (rule row_peers(1) [OF 2(3)])
    then show ?thesis using IH False 2(3) d by (auto intro!: merge_step_bind)
  qed
qed (simp_all add: merge_step_same)

lemma merge_precursors_ok:
  "ws_wf m \<Longrightarrow> merge_ok (ws_num_states m) st \<Longrightarrow> distinct (ends @ rows) \<and> distinct (others @ rows)
     \<Longrightarrow> set ends \<union> set others \<union> set rows \<subseteq> {..<ws_num_states m} \<Longrightarrow>
   \<exists>st' ends' others'. merge_precursors m rows st ends others = Some (st', ends', others')
     \<and> merge_ok (ws_num_states m) st' \<and> (uf_merged (fst st) \<longrightarrow> uf_merged (fst st'))
     \<and> distinct ends' \<and> distinct others' \<and> set ends' \<union> set others' \<subseteq> {..<ws_num_states m}"
proof (induction m rows st ends others rule: merge_precursors.induct)
  case (2 m i rows u changed ends others)
  obtain k single where d: "distinct_peers (outgoing_row (ws_fsm m) i) = (k, single)" by force
  note IH = 2(1-4) [OF d [symmetric]] and prems = 2(5-8)
  consider "k = 0" "is_end_state m i" | "k = 0" "\<not> is_end_state m i" | "k \<noteq> 0" "k \<noteq> 1 \<or> uf_contains u i"
    | "k = 1" "\<not> uf_contains u i" by blast
  then show ?case
  proof cases
    case 1
    then show ?thesis using IH(1) prems d by (simp add: vec_push_def)
  next
    case 2
    then show ?thesis using IH(2) prems d by (simp add: vec_push_def)
  next
    case 3
    then show ?thesis using IH(3) prems d by simp
  next
    case 4
    have "merge_step (ws_num_states m) (u, changed) (merge_mirror m i (peer_groups (incoming_row (ws_fsm m) (nat single))) (u, changed))"
      by (rule merge_mirror_ok [OF prems(2)]) (rule row_peers(2) [OF prems(1)])
    then obtain st' where st': "merge_mirror m i (peer_groups (incoming_row (ws_fsm m) (nat single))) (u, changed) = Some st'"
      "merge_ok (ws_num_states m) st'" "uf_merged u \<longrightarrow> uf_merged (fst st')" by (auto simp: merge_step_def)
    obtain u' c' where "st' = (u', c')" by force
    then show ?thesis using IH(4) [OF _ _ st'(1)] 4 st' prems(1,3,4) d by auto
  qed
qed auto

lemma merge_dead_ok:
  "merge_ok n st \<Longrightarrow> s0 < n \<Longrightarrow> s0 \<notin> set ss \<Longrightarrow> set ss \<subseteq> {..<n} \<Longrightarrow> merge_step n st (merge_dead s0 ss st)"
proof (induction s0 ss st rule: merge_dead.induct)
  case (2 s0 s ss u changed)
  then show ?case by (auto intro!: merge_step_join)
qed (simp_all add: merge_step_same)

lemma merge_dead_ends_ok:
  "merge_ok n st \<Longrightarrow> distinct ss \<Longrightarrow> set ss \<subseteq> {..<n} \<Longrightarrow> merge_step n st (merge_dead_ends ss st)"
  unfolding merge_dead_ends_def by (cases ss) (auto intro: merge_dead_ok merge_step_same)

text \<open>A round that changes something leaves fewer states.\<close>

lemma merge_round_ok:
  assumes m: "ws_wf m"
  shows "\<exists>r. merge_round m = Some r \<and> (\<forall>m'. r = Some m' \<longrightarrow> ws_wf m' \<and> lang_of m \<subseteq> lang_of m' \<and> ws_num_states m' < ws_num_states m)"
proof -
  define n where "n = ws_num_states m"
  have ok0: "merge_ok n (uf_new, False)" using uf_ok_new by (simp add: merge_ok_def)
  obtain u1 c1 where s1: "merge_successors m [0..<n] (uf_new, False) = Some (u1, c1)" "merge_ok n (u1, c1)"
    using merge_successors_ok [OF m, of "(uf_new, False)" "[0..<n]"] ok0 by (auto simp: merge_step_def n_def)
  have ok1: "merge_ok n (u1, False)" using s1(2) by (simp add: merge_ok_def)
  obtain u2 c2 ends others where s2: "merge_precursors m [0..<n] (u1, False) [] [] = Some ((u2, c2), ends, others)"
    "merge_ok n (u2, c2)" "uf_merged u1 \<longrightarrow> uf_merged u2" "distinct ends" "distinct others" "set ends \<union> set others \<subseteq> {..<n}"
    using merge_precursors_ok [OF m, of "(u1, False)" "[]" "[0..<n]" "[]"] ok1 by (auto simp: n_def [symmetric] atLeast0LessThan)
  obtain u3 c3 where s3: "merge_dead_ends ends (u2, c2) = Some (u3, c3)" "merge_ok n (u3, c3)" "uf_merged u2 \<longrightarrow> uf_merged u3"
    using merge_dead_ends_ok [OF s2(2,4)] s2(6) by (auto simp: merge_step_def)
  obtain u4 c4 where s4: "merge_dead_ends others (u3, c3) = Some (u4, c4)" "merge_ok n (u4, c4)" "uf_merged u3 \<longrightarrow> uf_merged u4"
    using merge_dead_ends_ok [OF s3(2) s2(5)] s2(6) by (auto simp: merge_step_def)
  show ?thesis
  proof (cases "c1 \<or> c4")
    case False
    then show ?thesis using s1 s2 s3 s4 by (simp add: merge_round_def n_def [symmetric] Let_def)
  next
    case True
    have u4: "uf_ok n u4" using s4(2) by (simp add: merge_ok_def)
    have merged: "uf_merged u4" using True s1(2) s2(3) s3(3) s4(2,3) by (auto simp: merge_ok_def)
    obtain u5 classes where c: "uf_all_sets (filter (uf_contains u4) [0..<n]) u4 = Some (u5, classes)" "uf_classes u4 classes"
      using u4 by (rule uf_sets_ok)
    obtain mapping cnt where map: "class_mapping n classes = (mapping, cnt)" by force
    define m' where "m' = ws_rebuild_with_mapping m mapping cnt"
    have run: "merge_round m = Some (Some (m'\<lparr> ws_fsm := fsm_sort_edges (ws_fsm m') \<rparr>))"
      using s1 s2 s3 s4 True c(1) map by (simp add: merge_round_def n_def [symmetric] Let_def m'_def)
    have ok: "mapping_ok (ws_num_states m) mapping cnt" using uf_classes_mapping(1) [OF u4 c(2) map] by (simp add: n_def)
    have "ws_wf m'" "lang_of m \<subseteq> lang_of m'" unfolding m'_def using rebuild_wf [OF m ok] rebuild_lang [OF m ok] by auto
    moreover have "ws_num_states m' < n" using uf_classes_mapping(2) [OF u4 c(2) map merged] by (simp add: m'_def)
    ultimately show ?thesis using run sorted_machine [of m'] by (auto simp: n_def)
  qed
qed

lemma merge_loop_ok: "ws_wf m \<Longrightarrow> \<exists>m'. merge_loop m = Some m' \<and> ws_wf m' \<and> lang_of m \<subseteq> lang_of m' \<and> merge_round m' = Some None"
proof (induction "ws_num_states m" arbitrary: m rule: less_induct)
  case less
  obtain r where r: "merge_round m = Some r"
    "\<forall>m'. r = Some m' \<longrightarrow> ws_wf m' \<and> lang_of m \<subseteq> lang_of m' \<and> ws_num_states m' < ws_num_states m"
    using merge_round_ok [OF less.prems] by blast
  show ?case
  proof (cases r)
    case None
    with r less.prems show ?thesis by (intro exI [of _ m]) (simp add: merge_loop.simps)
  next
    case (Some m1)
    with r(2) less.hyps obtain m' where "merge_loop m1 = Some m'" "ws_wf m'" "lang_of m1 \<subseteq> lang_of m'" "merge_round m' = Some None" by blast
    moreover have "merge_loop m = merge_loop m1" using r(1) Some by (subst merge_loop.simps) simp
    ultimately show ?thesis using r(2) Some by auto
  qed
qed

lemma merge_equivalent_successors_ok:
  assumes "ws_wf m"
  shows "\<exists>m'. merge_equivalent_successors m = Some m' \<and> ws_wf m' \<and> lang_of m \<subseteq> lang_of m'
    \<and> (4 \<le> ws_num_states m \<longrightarrow> merge_round m' = Some None)"
proof (cases "ws_num_states m < 4")
  case True
  with assms show ?thesis by (simp add: merge_equivalent_successors_def)
next
  case False
  then show ?thesis using merge_loop_ok [OF sorted_machine(2) [OF assms]] sorted_machine(3) [of m]
    by (auto simp: merge_equivalent_successors_def)
qed

subsection \<open>Rule bodies\<close>

definition alt_ok :: "grammar_data \<Rightarrow> int \<Rightarrow> bool" where
  "alt_ok g i \<longleftrightarrow> (\<exists>e. expr_at g i = Some e \<and> (ge_kind e = EmptyStr \<or> ge_kind e = Sequence \<and> length (ge_data e) \<le> 100
     \<and> (\<forall>j\<in>set (ge_data e). \<exists>x. expr_at g j = Some x \<and> elem_ok x)))"

definition alt_lang :: "grammar_data \<Rightarrow> int \<Rightarrow> sym list set" where
  "alt_lang g i = (let e = the (expr_at g i) in if ge_kind e = EmptyStr then {[]} else seq_lang g e)"

lemma build_alternatives_ok:
  "\<forall>i\<in>set is. alt_ok g i \<Longrightarrow> \<forall>m\<in>set ms. ws_wf m \<Longrightarrow>
   \<exists>ms' nullable'. build_alternatives g is ms nullable = Some (Some (ms', nullable')) \<and> (\<forall>m\<in>set ms'. ws_wf m)
     \<and> aux_sum ms' \<le> aux_sum ms + 300 * length is
     \<and> (\<Union>m\<in>set ms'. lang_of m) \<union> (if nullable' then {[]} else {}) =
        (\<Union>m\<in>set ms. lang_of m) \<union> (if nullable then {[]} else {}) \<union> (\<Union>i\<in>set is. alt_lang g i)"
proof (induction "is" arbitrary: ms nullable)
  case (Cons i "is")
  then obtain e where e: "expr_at g i = Some e" "ge_kind e = EmptyStr \<or> ge_kind e = Sequence \<and> length (ge_data e) \<le> 100
     \<and> (\<forall>j\<in>set (ge_data e). \<exists>x. expr_at g j = Some x \<and> elem_ok x)" by (auto simp: alt_ok_def)
  show ?case
  proof (cases "ge_kind e = EmptyStr")
    case True
    obtain ms' nullable' where r: "build_alternatives g is ms True = Some (Some (ms', nullable'))" "\<forall>m\<in>set ms'. ws_wf m"
      "aux_sum ms' \<le> aux_sum ms + 300 * length is" "(\<Union>m\<in>set ms'. lang_of m) \<union> (if nullable' then {[]} else {}) =
        (\<Union>m\<in>set ms. lang_of m) \<union> (if True then {[]} else {}) \<union> (\<Union>i\<in>set is. alt_lang g i)"
      using Cons.IH [of ms True] Cons.prems by auto
    have "build_alternatives g (i # is) ms nullable = Some (Some (ms', nullable'))" using e(1) True r(1) by simp
    moreover have "alt_lang g i = {[]}" using e(1) True by (simp add: alt_lang_def)
    ultimately show ?thesis using r(2-4) by auto
  next
    case False
    with e(2) have seq: "\<forall>j\<in>set (ge_data e). \<exists>x. expr_at g j = Some x \<and> elem_ok x" and l: "length (ge_data e) \<le> 100" by auto
    obtain m where m: "build_sequence e g = Some (Some m)" "ws_wf m" "lang_of m = seq_lang g e" "length (fs_aux (ws_fsm m)) \<le> 3 * length (ge_data e)"
      using build_sequence_lang [OF seq] l by auto
    obtain ms' nullable' where r: "build_alternatives g is (vec_push ms m) nullable = Some (Some (ms', nullable'))" "\<forall>m\<in>set ms'. ws_wf m"
      "aux_sum ms' \<le> aux_sum (vec_push ms m) + 300 * length is" "(\<Union>m\<in>set ms'. lang_of m) \<union> (if nullable' then {[]} else {}) =
        (\<Union>m\<in>set (vec_push ms m). lang_of m) \<union> (if nullable then {[]} else {}) \<union> (\<Union>i\<in>set is. alt_lang g i)"
      using Cons.IH [of "vec_push ms m" nullable] Cons.prems m(2) by auto
    have "build_alternatives g (i # is) ms nullable = Some (Some (ms', nullable'))" using e(1) False m(1) r(1) by simp
    moreover have "alt_lang g i = lang_of m" using e(1) False m(3) by (simp add: alt_lang_def)
    moreover have "aux_sum (vec_push ms m) \<le> aux_sum ms + 300" using m(4) l by (simp add: aux_sum_def vec_push_def)
    ultimately show ?thesis using r(2-4) by auto
  qed
qed auto

lemma build_choices_ok:
  assumes "\<forall>i\<in>set (ge_data e). alt_ok g i" and "length (ge_data e) \<le> 100"
  shows "\<exists>m. build_choices e g = Some (Some m) \<and> ws_wf m \<and> (\<Union>i\<in>set (ge_data e). alt_lang g i) \<subseteq> lang_of m"
proof -
  obtain ms nullable where r: "build_alternatives g (ge_data e) [] False = Some (Some (ms, nullable))" "\<forall>m\<in>set ms. ws_wf m"
    "aux_sum ms \<le> 300 * length (ge_data e)"
    "(\<Union>m\<in>set ms. lang_of m) \<union> (if nullable then {[]} else {}) = (\<Union>i\<in>set (ge_data e). alt_lang g i)"
    using build_alternatives_ok [OF assms(1), of "[]" False] by (auto simp: aux_sum_def)
  show ?thesis
  proof (cases "ms = []")
    case True
    with r(1) have "build_choices e g = Some (Some empty_fsm)" by (simp add: build_choices_def)
    moreover have "(\<Union>i\<in>set (ge_data e). alt_lang g i) \<subseteq> {[]}" unfolding r(4) [symmetric] by (simp add: True)
    ultimately show ?thesis using empty_fsm_lang by auto
  next
    case False
    let ?ms = "if nullable then vec_push ms empty_fsm else ms"
    have wf: "\<forall>m\<in>set ?ms. ws_wf m" using r(2) empty_fsm_lang(1) by auto
    have "aux_sum ?ms \<le> 300 * length (ge_data e)" using r(3) empty_fsm_lang(3) by (simp add: aux_sum_def vec_push_def)
    with assms(2) have aux: "aux_sum ?ms < 32768" by simp
    have u: "ws_wf (ws_union ?ms)" "lang_of (ws_union ?ms) = (\<Union>m\<in>set ?ms. lang_of m)"
      using lang_ws_union [OF wf aux] False by (auto simp: vec_push_def)
    obtain m1 where m1: "simplify_epsilon (ws_union ?ms) = Some m1" "ws_wf m1" "lang_of (ws_union ?ms) \<subseteq> lang_of m1"
      using simplify_epsilon_ok [OF u(1)] by blast
    obtain m2 where m2: "merge_equivalent_successors m1 = Some m2" "ws_wf m2" "lang_of m1 \<subseteq> lang_of m2"
      using merge_equivalent_successors_ok [OF m1(2)] by blast
    have "build_choices e g = Some (Some m2)" using r(1) False m1(1) m2(1) by (simp add: build_choices_def)
    moreover have "(\<Union>m\<in>set ?ms. lang_of m) = (\<Union>i\<in>set (ge_data e). alt_lang g i)"
      unfolding r(4) [symmetric] using empty_fsm_lang(2) by auto
    ultimately show ?thesis using u(2) m1(3) m2(2,3) by auto
  qed
qed

end
