(* ===== verification/Simplify_Cases.thy ===== *)
theory Simplify_Cases
  imports Simplify_Props
begin

text \<open>
  Inputs on which a pass changes the language. \<open>merge_equivalent_successors\<close> merges the start state of a
  repetition with the state behind it, because it never asks whether a state is the start;
  \<open>simplify_epsilon\<close> merges an accepting state into the only successor it has; \<open>optional\<close> jumps from the
  start to an accepting state that can go on reading.
\<close>

text \<open>The body \<open>[a-b]* [a-b] "cd"\<close>.\<close>

definition run_grammar :: grammar_data where
  "run_grammar =
    (let g0 = fst (append_expr new_grammar CharacterClassStar [0, 97, 98]);
         g1 = fst (append_expr g0 CharacterClass [0, 97, 98]);
         g2 = fst (append_expr g1 ByteString [99, 100])
     in fst (append_expr g2 Sequence [0, 1, 2]))"

definition run_body :: grammar_expr where
  "run_body = \<lparr> ge_kind = Choices, ge_data = [3] \<rparr>"

lemma run_grammar_exprs:
  "expr_at run_grammar 0 = Some \<lparr> ge_kind = CharacterClassStar, ge_data = [0, 97, 98] \<rparr>"
  "expr_at run_grammar 1 = Some \<lparr> ge_kind = CharacterClass, ge_data = [0, 97, 98] \<rparr>"
  "expr_at run_grammar 2 = Some \<lparr> ge_kind = ByteString, ge_data = [99, 100] \<rparr>"
  "expr_at run_grammar 3 = Some \<lparr> ge_kind = Sequence, ge_data = [0, 1, 2] \<rparr>"
  by code_simp+

lemma run_grammar_ok: "alt_ok run_grammar 3"
  by (simp add: alt_ok_def run_grammar_exprs elem_ok_def whole_def)

definition accepts_word :: "fsm_wse option option \<Rightarrow> byte list \<Rightarrow> bool" where
  "accepts_word r bytes = (case r of Some (Some m) \<Rightarrow> accept_string m bytes | _ \<Rightarrow> False)"

lemma run_body_gains: "accepts_word (build_choices run_body run_grammar) [99, 100]"
  by code_simp

lemma run_sequence_lacks: "\<not> accepts_word (build_sequence \<lparr> ge_kind = Sequence, ge_data = [0, 1, 2] \<rparr> run_grammar) [99, 100]"
  by code_simp

lemma star_epsilon_gains:
  "(let m = ws_star (ws_concat [the (build_character_class \<lparr> ge_kind = CharacterClassStar, ge_data = [0, 97, 97] \<rparr>),
      build_byte_string \<lparr> ge_kind = ByteString, ge_data = [98] \<rparr>])
    in \<not> accept_string m [97] \<and> (case simplify_epsilon m of Some m' \<Rightarrow> accept_string m' [97] | None \<Rightarrow> False))"
  by code_simp

lemma optional_gains:
  "(let m = ws_concat [build_byte_string \<lparr> ge_kind = ByteString, ge_data = [97] \<rparr>,
      the (build_character_class \<lparr> ge_kind = CharacterClassStar, ge_data = [0, 98, 98] \<rparr>)]
    in \<not> accept_string m [98] \<and> accept_string (ws_optional m) [98])"
  by code_simp

end
