(* ===== verification/Grammar_Props.thy ===== *)
theory Grammar_Props
  imports Simplify_Cases
begin

text \<open>
  What the grammar engine relies on: running a machine decides its language, the operations on machines
  are the operations on languages, a character range accepts the encodings of its characters, the
  machine of a sequence accepts the sequence, decoding undoes encoding, and the forest is a partition.
\<close>

subsection \<open>Machines\<close>

text \<open>C22: Running a machine on a byte string over sets of states decides whether the string is in
  its language: there is a path of edges from the start state to an accepting state that reads
  exactly those bytes.\<close>

theorem accept_string_exact:
  assumes "ws_wf m"
  shows "accept_string m bytes \<longleftrightarrow> map Byte bytes \<in> lang_of m"
  using assms by (rule accept_string_lang)

definition word_machine :: fsm_wse where
  "word_machine = build_byte_string \<lparr> ge_kind = ByteString, ge_data = [97, 98] \<rparr>"

lemma word_machine_wf: "ws_wf word_machine"
  by (simp add: word_machine_def build_byte_string_def ws_set_start_def ws_add_state_def ws_default_def fsm_with_states_def
      fsm_add_state_def vec_push_def ws_num_states_def fsm_num_states_def ws_add_edge_def fsm_add_edge_def ws_add_end_state_def
      ws_wf_def fsm_wf_def edge_ok_def is_char_range_def is_repeat_ref_def edge_types)

theorem accept_string_exact_witness: "map Byte [97, 98] \<in> lang_of word_machine"
proof -
  have "accept_string word_machine [97, 98]" by code_simp
  then show ?thesis using accept_string_exact [OF word_machine_wf, of "[97, 98]"] by blast
qed

text \<open>C23: Concatenating machines and taking their union builds machines for the concatenation and the
  union of their languages, as long as the auxiliary data fits its index.\<close>

theorem machine_joins_exact:
  assumes "\<forall>m\<in>set ms. ws_wf m" and "aux_sum ms < 32768" and "ms \<noteq> []"
  shows "lang_of (ws_concat ms) = lang_concs (map lang_of ms) \<and> lang_of (ws_union ms) = (\<Union>m\<in>set ms. lang_of m)"
  using lang_ws_concat [OF assms] lang_ws_union [OF assms] by blast

theorem machine_joins_exact_witness:
  "lang_of (ws_concat [word_machine, word_machine]) = lang_concs [lang_of word_machine, lang_of word_machine]"
proof -
  have "aux_sum [word_machine, word_machine] = 0" by code_simp
  then show ?thesis using machine_joins_exact [of "[word_machine, word_machine]"] word_machine_wf by auto
qed

text \<open>The star and the plus of a machine accept the repetitions of its words.\<close>

theorem machine_repeats_exact:
  assumes "ws_wf m"
  shows "lang_of (ws_star m) = lang_star (lang_of m) \<and> lang_of (ws_plus m) = lang_conc (lang_of m) (lang_star (lang_of m))"
  using lang_ws_star [OF assms] lang_ws_plus [OF assms] by blast

theorem machine_repeats_exact_witness: "lang_of (ws_star word_machine) = lang_star (lang_of word_machine)"
  using machine_repeats_exact [OF word_machine_wf] by blast

subsection \<open>Characters\<close>

definition range_machine :: "int \<Rightarrow> int \<Rightarrow> fsm_wse option" where
  "range_machine lo hi =
     add_character_range two_states 0 1 (codepoint_to_packed_utf8 (word_of_int lo)) (codepoint_to_packed_utf8 (word_of_int hi))"

lemma two_states_facts: "edgeless two_states" "ws_wf two_states" "ws_start two_states = 0" "ws_num_states two_states = 2"
  and two_states_ends: "t < ws_num_states two_states \<Longrightarrow> is_end_state two_states t \<longleftrightarrow> t = 1"
proof -
  show e: "edgeless two_states" and s: "ws_start two_states = 0" and n: "ws_num_states two_states = 2"
    by (simp_all add: two_states_def ws_add_end_state_def ws_set_start_def ws_add_state_def ws_default_def fsm_add_state_def
        fsm_with_states_def edgeless_def ws_num_states_def fsm_num_states_def vec_push_def)
  have l: "ws_ends two_states = [False, True]"
    by (simp add: two_states_def ws_add_end_state_def ws_set_start_def ws_add_state_def ws_default_def vec_push_def)
  show "ws_wf two_states" by (rule edgeless_wf [OF e]) (simp_all add: s n l)
  show "t < ws_num_states two_states \<Longrightarrow> is_end_state two_states t \<longleftrightarrow> t = 1"
    by (auto simp: n l is_end_state_def less_2_cases_iff)
qed

text \<open>C21: The edges that a character range adds between two states, through its chains of
  intermediate states, accept the UTF-8 encoding of a character exactly when the character lies in
  the range and is not one of those the construction loses in a build without overflow checks (with them
  it panics where it would lose characters); no range makes it fail there. The
  lost characters lie in the last block of 4096 code points of a range, when the range begins before the
  block and does not end with it, and the block is not at a multiple of 0x40000: what the range has of
  the block, but for the 64 code points the upper bound is among when it is not the last of these. The
  range U+0061-U+20AC rejects U+2000.\<close>

theorem character_range_exact:
  assumes "0 \<le> lo" "lo \<le> hi" "hi < 0x200000"
  shows "\<exists>m. range_machine lo hi = Some m \<and> ws_wf m \<and>
    {c. 0 \<le> c \<and> c < 0x200000 \<and> accept_string m (char_to_utf8 c)} = {c \<in> {lo..hi}. \<not> lost lo hi c}"
proof -
  obtain m where m: "range_machine lo hi = Some m" "ws_adds two_states m 0 (byte_words (char_words lo hi)) 1"
    using add_codepoint_range [of lo hi two_states 0 1] assms two_states_facts by (auto simp: range_machine_def)
  note l = lang_of_adds [OF m(2) two_states_facts(1,2,3) _ two_states_ends, simplified two_states_facts(4), simplified]
  have a: "accept_string m bytes \<longleftrightarrow> bytes \<in> char_words lo hi" for bytes
    unfolding accept_string_lang [OF l(1)] l(2) by (auto simp: byte_words_def inj_map_eq_map inj_on_def)
  have "{c. 0 \<le> c \<and> c < 0x200000 \<and> accept_string m (char_to_utf8 c)} = {c \<in> {lo..hi}. \<not> lost lo hi c}"
    unfolding a using char_words_iff [of _ lo hi] assms by auto
  with m(1) l(1) show ?thesis by blast
qed

theorem character_range_exact_witness:
  "\<exists>m. range_machine 0x61 0x20AC = Some m \<and> accept_string m (char_to_utf8 0xE9) \<and> \<not> accept_string m (char_to_utf8 0x2000)"
proof -
  obtain m where m: "range_machine 0x61 0x20AC = Some m"
    "{c. 0 \<le> c \<and> c < 0x200000 \<and> accept_string m (char_to_utf8 c)} = {c \<in> {0x61..0x20AC}. \<not> lost 0x61 0x20AC c}"
    using character_range_exact [of "0x61" "0x20AC"] by auto
  have "accept_string m (char_to_utf8 c) \<longleftrightarrow> 0x61 \<le> c \<and> c \<le> 0x20AC \<and> \<not> lost 0x61 0x20AC c" if "0 \<le> c" "c < 0x200000" for c
    using set_eq_iff [THEN iffD1, OF m(2), THEN spec, of c] that by simp
  from this [of "0xE9"] this [of "0x2000"] m(1) show ?thesis by (simp add: lost_def)
qed

text \<open>Other byte strings than encodings can be accepted: a range that crosses from one byte to two
  starts its second part at \<open>MIN_2B\<close>, the overlong form of the null character.\<close>

lemma range_accepts_overlong:
  "case range_machine 0x61 0xE9 of Some m \<Rightarrow> accept_string m [0xC0, 0x80] | None \<Rightarrow> False"
  by code_simp

subsection \<open>Sequences\<close>

text \<open>C17: The machine built for the body of a sequence exists, is well formed, and accepts a byte
  string exactly when it is a concatenation of words of the elements: the words of a class are the
  encodings between the bounds of its ranges, none of which may be a range that loses characters
  (\<open>whole\<close>, a part of \<open>elem_ok\<close>).\<close>

theorem sequence_machine_exact:
  assumes "\<forall>i\<in>set (ge_data e). \<exists>x. expr_at g i = Some x \<and> elem_ok x" and "3 * length (ge_data e) < 32768"
  shows "\<exists>m. build_sequence e g = Some (Some m) \<and> ws_wf m \<and> (\<forall>bytes. accept_string m bytes \<longleftrightarrow> map Byte bytes \<in> seq_lang g e)"
  using build_sequence_lang [OF assms] accept_string_lang by metis

definition seq_grammar :: grammar_data where
  "seq_grammar = fst (append_expr (fst (append_expr new_grammar ByteString [97])) CharacterClassStar [0, 0x30, 0x39])"

lemma seq_grammar_exprs:
  "expr_at seq_grammar 0 = Some \<lparr> ge_kind = ByteString, ge_data = [97] \<rparr>"
  "expr_at seq_grammar 1 = Some \<lparr> ge_kind = CharacterClassStar, ge_data = [0, 0x30, 0x39] \<rparr>"
  by code_simp+

theorem sequence_machine_exact_witness:
  "\<exists>m. build_sequence \<lparr> ge_kind = Sequence, ge_data = [0, 1] \<rparr> seq_grammar = Some (Some m) \<and> ws_wf m"
  using sequence_machine_exact [of "\<lparr> ge_kind = Sequence, ge_data = [0, 1] \<rparr>" seq_grammar]
  by (auto simp: seq_grammar_exprs elem_ok_def whole_def)

subsection \<open>Rule bodies\<close>

text \<open>C18: The machine of a rule body exists, is well formed, and loses no word: every word of every
  alternative is still accepted after both simplification passes. As for sequences, the ranges of the
  character classes are ones that lose no character.\<close>

theorem rule_body_keeps_words:
  assumes "\<forall>i\<in>set (ge_data e). alt_ok g i" and "length (ge_data e) \<le> 100"
  shows "\<exists>m. build_choices e g = Some (Some m) \<and> ws_wf m \<and>
    {bytes. \<exists>i\<in>set (ge_data e). map Byte bytes \<in> alt_lang g i} \<subseteq> {bytes. accept_string m bytes}"
proof -
  obtain m where m: "build_choices e g = Some (Some m)" "ws_wf m" "(\<Union>i\<in>set (ge_data e). alt_lang g i) \<subseteq> lang_of m"
    using build_choices_ok [OF assms] by blast
  then show ?thesis using accept_string_lang [OF m(2)] by auto
qed

theorem rule_body_keeps_words_witness: "\<exists>m. build_choices run_body run_grammar = Some (Some m) \<and> ws_wf m"
  using rule_body_keeps_words [of run_body run_grammar] run_grammar_ok by (auto simp: run_body_def)

text \<open>C19: It can gain words, though: the body \<open>[a-b]* [a-b] "cd"\<close> accepts \<open>cd\<close>, which is not one of its
  words, because the start state is merged with the state one character on.\<close>

theorem rule_body_gains_word:
  "\<exists>m. build_choices run_body run_grammar = Some (Some m) \<and> accept_string m [99, 100] \<and>
    map Byte [99, 100] \<notin> alt_lang run_grammar 3"
proof -
  let ?e = "\<lparr> ge_kind = Sequence, ge_data = [0, 1, 2] \<rparr>"
  obtain m where m: "build_sequence ?e run_grammar = Some (Some m)" "ws_wf m" "lang_of m = seq_lang run_grammar ?e"
    using build_sequence_lang [of ?e run_grammar] by (auto simp: run_grammar_exprs elem_ok_def whole_def)
  have "map Byte [99, 100] \<notin> lang_of m"
    using run_sequence_lacks m(1) accept_string_lang [OF m(2), of "[99, 100]"] by (simp add: accepts_word_def)
  moreover have "alt_lang run_grammar 3 = lang_of m" by (simp add: alt_lang_def run_grammar_exprs m(3))
  moreover obtain m' where "build_choices run_body run_grammar = Some (Some m')" "accept_string m' [99, 100]"
    using run_body_gains by (auto simp: accepts_word_def split: option.splits)
  ultimately show ?thesis by auto
qed

text \<open>C20: Both passes come to an end on every well-formed machine without a panic, and the result of the
  second, when it has enough states to be looked at, has nothing left to merge.\<close>

theorem simplification_ends:
  assumes "ws_wf m"
  shows "\<exists>m1 m2. simplify_epsilon m = Some m1 \<and> merge_equivalent_successors m1 = Some m2 \<and> ws_wf m2 \<and>
    (if ws_num_states m1 < 4 then m2 = m1 else merge_round m2 = Some None)"
proof -
  obtain m1 where m1: "simplify_epsilon m = Some m1" "ws_wf m1" using simplify_epsilon_ok [OF assms] by blast
  show ?thesis using merge_equivalent_successors_ok [OF m1(2)] m1 by (auto simp: merge_equivalent_successors_def)
qed

theorem simplification_ends_witness: "\<exists>m1. simplify_epsilon (ws_star word_machine) = Some m1"
proof -
  have "ws_wf (ws_star word_machine)" by (rule lang_ws_star(1) [OF word_machine_wf])
  from simplification_ends [OF this] show ?thesis by blast
qed

subsection \<open>Encodings\<close>

text \<open>C25: Decoding the UTF-8 encodings of a list of characters gives the list back, in either mode.\<close>

theorem utf8_roundtrip:
  assumes "\<forall>c\<in>set cs. 0 < c \<and> c < 0x200000"
  shows "parse_utf8 (concat (map char_to_utf8 cs)) preserve = cs"
  using parse_utf8_loop_chars [of cs preserve "[]"] assms by (simp add: parse_utf8_def)

theorem utf8_roundtrip_witness: "parse_utf8 (concat (map char_to_utf8 [0x41, 0x20AC, 0x1F600])) False = [0x41, 0x20AC, 0x1F600]"
  using utf8_roundtrip [of "[0x41, 0x20AC, 0x1F600]" False] by simp

subsection \<open>The disjoint-set forest\<close>

text \<open>C24: Merging two elements of the forest joins their classes and no others, whatever paths the
  finds compress and whichever root wins; and \<open>all_sets\<close> then lists every class once, in
  whatever order the hash map yields its elements.\<close>

theorem union_find_partition:
  fixes u :: "'a::linorder uf"
  assumes "uf_wf u" and "a \<in> dom u" and "b \<in> dom u" and "set vs = dom u" "distinct vs"
  shows "\<exists>u1 u2 sets. uf_union u a b = Some u1 \<and> uf_all_sets vs u1 = Some (u2, sets) \<and> distinct (concat sets)
    \<and> set (concat sets) = dom u \<and> (\<forall>xs\<in>set sets. \<forall>x\<in>set xs. \<forall>y. y \<in> set xs \<longleftrightarrow>
          uf_same u x y \<or> (uf_same u x a \<and> uf_same u y b) \<or> (uf_same u x b \<and> uf_same u y a))"
proof -
  obtain u1 where u1: "uf_union u a b = Some u1" "uf_wf u1" "dom u1 = dom u"
    and s: "\<And>x y. uf_same u1 x y \<longleftrightarrow> uf_same u x y \<or> (uf_same u x a \<and> uf_same u y b) \<or> (uf_same u x b \<and> uf_same u y a)"
    using uf_union_spec [OF assms(1-3)] by blast
  obtain u2 sets where "uf_all_sets vs u1 = Some (u2, sets)" "uf_classes u1 sets"
    using uf_all_sets_spec [OF u1(2), of vs] u1(3) assms(4,5) by auto
  with u1(1,3) s show ?thesis unfolding uf_classes_def by (intro exI [of _ u1] exI [of _ u2] exI [of _ sets]) simp
qed

definition two_elements :: "nat uf" where
  "two_elements = snd (uf_add (snd (uf_add uf_new 3)) 7)"

theorem union_find_partition_witness:
  "\<exists>u1 u2 sets. uf_union two_elements 3 7 = Some u1 \<and> uf_all_sets [7, 3] u1 = Some (u2, sets)"
proof -
  have u: "two_elements = uf_new(3 \<mapsto> (3, 1), 7 \<mapsto> (7, 1))" by (simp add: two_elements_def uf_add_def uf_new_def)
  have "uf_wf two_elements" unfolding u
    by (intro uf_add_spec(1) uf_new_wf) (simp_all add: uf_new_def)
  moreover have "3 \<in> dom two_elements" "7 \<in> dom two_elements" "set [7, 3] = dom two_elements"
    by (auto simp: u uf_new_def)
  ultimately show ?thesis using union_find_partition [of two_elements 3 7 "[7, 3]"] by fastforce
qed

end
