(* ===== verification/Escape.thy ===== *)
theory Escape
  imports Utf8
begin

text \<open>
  The escapes of grammar literals (crates/grammar/src/support/escape.rs): printing a code point in a
  printable form and reading an escape back. A \<open>String\<close> is the list of its bytes; a map of additional
  escapes is a partial function. Hexadecimal escapes are read with the wrapping arithmetic of an \<open>i32\<close>.
\<close>

definition codepoint_to_escape :: "int \<Rightarrow> byte list option" where
  "codepoint_to_escape cp =
    map_of [(0x27, [92, 39]), (0x22, [92, 34]), (0x3F, [92, 63]), (0x5C, [92, 92]), (0x07, [92, 97]),
      (0x08, [92, 98]), (0x0C, [92, 102]), (0x0A, [92, 110]), (0x0D, [92, 114]), (0x09, [92, 116]),
      (0x0B, [92, 118]), (0x00, [92, 48]), (0x1B, [92, 101])] cp"

definition escape_to_codepoint :: "byte \<Rightarrow> int option" where
  "escape_to_codepoint c =
    map_of [(39, 0x27), (34, 0x22), (63, 0x3F), (92, 0x5C), (47, 0x2F), (97, 0x07), (98, 0x08), (102, 0x0C),
      (110, 0x0A), (114, 0x0D), (116, 0x09), (118, 0x0B), (48, 0x00), (101, 0x1B)] c"

subsection \<open>Printing\<close>

definition hex_digit :: "nat \<Rightarrow> byte" where
  "hex_digit n = (if n < 10 then of_nat (48 + n) else of_nat (87 + n))"

fun hex_digits :: "nat \<Rightarrow> byte list" where
  "hex_digits n = (if n < 16 then [hex_digit n] else hex_digits (n div 16) @ [hex_digit (n mod 16)])"

declare hex_digits.simps [simp del]

text \<open>\<open>{:0width$x}\<close> of an \<open>i32\<close>.\<close>

definition format_hex :: "nat \<Rightarrow> int \<Rightarrow> byte list" where
  "format_hex width x =
    (let ds = hex_digits (nat (x mod 4294967296)) in replicate (width - length ds) 48 @ ds)"

definition print_as_escaped :: "int \<Rightarrow> (int \<Rightarrow> byte list option) \<Rightarrow> byte list" where
  "print_as_escaped codepoint additional =
    (case additional codepoint of
       Some s \<Rightarrow> s
     | None \<Rightarrow>
         (case codepoint_to_escape codepoint of
            Some s \<Rightarrow> s
          | None \<Rightarrow>
              if 0x20 \<le> codepoint \<and> codepoint \<le> 0x7E then [word_of_int codepoint]
              else (case (if codepoint \<le> 0xFF then (120, 2) else if codepoint \<le> 0xFFFF then (117, 4) else (85, 8)) of
                (prefix, width) \<Rightarrow> [92, prefix] @ format_hex width codepoint)))"

definition print_byte_as_escaped :: "byte \<Rightarrow> byte list" where
  "print_byte_as_escaped b = print_as_escaped (uint b) Map.empty"

definition print_str_as_escaped :: "byte list \<Rightarrow> byte list" where
  "print_str_as_escaped raw = concat (map (\<lambda>cp. print_as_escaped cp Map.empty) (parse_utf8 raw True))"

subsection \<open>Reading\<close>

text \<open>The digits of \<open>\x\<close>: as many as there are.\<close>

fun hex_run :: "byte list \<Rightarrow> nat \<Rightarrow> int \<Rightarrow> nat \<times> int" where
  "hex_run [] len codepoint = (len, codepoint)"
| "hex_run (d # ds) len codepoint =
    (let digit = hex_char_to_int d in
     if digit = - 1 then (len, codepoint) else hex_run ds (len + 1) (wrap_i32 (wrap_i32 (codepoint * 16) + digit)))"

text \<open>The digits of \<open>\u\<close> and \<open>\U\<close>: exactly so many.\<close>

fun hex_fixed :: "nat \<Rightarrow> byte list \<Rightarrow> int \<Rightarrow> int option" where
  "hex_fixed 0 ds codepoint = Some codepoint"
| "hex_fixed (Suc n) [] codepoint = None"
| "hex_fixed (Suc n) (d # ds) codepoint =
    (let digit = hex_char_to_int d in
     if digit = - 1 then None else hex_fixed n ds (wrap_i32 (wrap_i32 (codepoint * 16) + digit)))"

definition parse_next_escaped :: "byte list \<Rightarrow> (byte \<Rightarrow> int option) \<Rightarrow> int \<times> nat" where
  "parse_next_escaped data additional =
    (case data of
       b # esc # rest \<Rightarrow>
         if b \<noteq> 92 then (INVALID_ESCAPE, 0)
         else if 128 < uint esc then (INVALID_ESCAPE, 0)
         else (case additional esc of
           Some cp \<Rightarrow> (cp, 2)
         | None \<Rightarrow>
             (case escape_to_codepoint esc of
                Some cp \<Rightarrow> (cp, 2)
              | None \<Rightarrow>
                  if esc = 120 then
                    (case hex_run rest 0 0 of
                       (len, codepoint) \<Rightarrow> if len = 0 then (INVALID_ESCAPE, 0) else (codepoint, len + 2))
                  else if esc = 117 \<or> esc = 85 then
                    (let len = (if esc = 117 then 4 else 8) in
                     case hex_fixed len rest 0 of
                       None \<Rightarrow> (INVALID_ESCAPE, 0)
                     | Some codepoint \<Rightarrow> (codepoint, len + 2))
                  else (INVALID_ESCAPE, 0)))
     | _ \<Rightarrow> (INVALID_ESCAPE, 0))"

definition parse_next_utf8_or_escaped :: "byte list \<Rightarrow> (byte \<Rightarrow> int option) \<Rightarrow> int \<times> nat" where
  "parse_next_utf8_or_escaped utf8 additional =
    (case utf8 of
       [] \<Rightarrow> parse_next_utf8 utf8
     | b # _ \<Rightarrow> if b \<noteq> 92 then parse_next_utf8 utf8 else parse_next_escaped utf8 additional)"

function unescape_loop :: "byte list \<Rightarrow> (byte \<Rightarrow> int option) \<Rightarrow> byte list \<Rightarrow> int + byte list" where
  "unescape_loop [] additional out = Inr out"
| "unescape_loop (b # bs) additional out =
    (case parse_next_utf8_or_escaped (b # bs) additional of
       (cp, n) \<Rightarrow> if n = 0 then Inl cp else unescape_loop (drop n (b # bs)) additional (out @ char_to_utf8 cp))"
  by pat_completeness auto
termination by (relation "measure (\<lambda>(bs, _, _). length bs)") auto

definition unescape_string :: "byte list \<Rightarrow> (byte \<Rightarrow> int option) \<Rightarrow> int + byte list" where
  "unescape_string data additional = unescape_loop data additional []"

subsection \<open>Reading back what was printed\<close>

definition is_hex :: "byte \<Rightarrow> bool" where
  "is_hex d \<longleftrightarrow> (\<exists>m < 16. d = hex_digit m)"

lemma hex_digit_int: "m < 16 \<Longrightarrow> hex_char_to_int (hex_digit m) = int m"
proof -
  assume "m < 16"
  then have "m \<in> set [0..<16]" by simp
  moreover have "\<forall>m\<in>set [0..<16]. hex_char_to_int (hex_digit m) = int m" by code_simp
  ultimately show ?thesis by blast
qed

lemma is_hex_int: "is_hex d \<Longrightarrow> 0 \<le> hex_char_to_int d"
  by (auto simp: is_hex_def hex_digit_int)

definition hexval :: "byte list \<Rightarrow> int \<Rightarrow> int" where
  "hexval ds c = foldl (\<lambda>a d. a * 16 + hex_char_to_int d) c ds"

lemma hexval_simps [simp]:
  "hexval [] c = c" "hexval (d # ds) c = hexval ds (c * 16 + hex_char_to_int d)"
  "hexval (xs @ ys) c = hexval ys (hexval xs c)"
  by (simp_all add: hexval_def)

lemma hexval_mono: "\<forall>d\<in>set ds. is_hex d \<Longrightarrow> 0 \<le> c \<Longrightarrow> c \<le> hexval ds c"
proof (induction ds arbitrary: c)
  case (Cons d ds)
  then have "0 \<le> hex_char_to_int d" by (simp add: is_hex_int)
  with Cons.IH [of "c * 16 + hex_char_to_int d"] Cons.prems show ?case by simp
qed simp

lemma hex_digits_hex: "\<forall>d\<in>set (hex_digits n). is_hex d"
proof (induction n rule: hex_digits.induct)
  case (1 n)
  have "is_hex (hex_digit m)" if "m < 16" for m using that by (auto simp: is_hex_def)
  then show ?case using 1 by (subst hex_digits.simps) simp
qed

lemma hexval_digits: "hexval (hex_digits n) 0 = int n"
proof (induction n rule: hex_digits.induct)
  case (1 n)
  have "int (n div 16) * 16 + int (n mod 16) = int n"
    by (metis div_mult_mod_eq of_nat_add of_nat_mult of_nat_numeral)
  then show ?case using 1 by (subst hex_digits.simps) (simp add: hex_digit_int)
qed

lemma length_hex_digits: "n < 16 ^ k \<Longrightarrow> 0 < k \<Longrightarrow> length (hex_digits n) \<le> k"
proof (induction k arbitrary: n)
  case (Suc k)
  show ?case
  proof (cases "n < 16")
    case False
    with Suc.prems have "0 < k" by (cases k) auto
    moreover have "n div 16 < 16 ^ k" using Suc.prems(1) by (simp add: less_mult_imp_div_less mult.commute)
    ultimately show ?thesis using Suc.IH [of "n div 16"] False by (subst hex_digits.simps) simp
  qed (simp add: hex_digits.simps)
qed simp

lemma hexval_zeros: "hexval (replicate k 48) 0 = 0"
proof -
  have "hex_char_to_int 48 = 0" by code_simp
  then show ?thesis by (induction k) simp_all
qed

lemma format_hex:
  assumes "0 \<le> x" and "x < 16 ^ width" and "0 < width" and "x < 4294967296"
  shows "\<forall>d\<in>set (format_hex width x). is_hex d" and "hexval (format_hex width x) 0 = x"
    and "length (format_hex width x) = width"
proof -
  let ?ds = "hex_digits (nat x)"
  have f: "format_hex width x = replicate (width - length ?ds) 48 @ ?ds" using assms by (simp add: format_hex_def Let_def)
  have "is_hex 48" unfolding is_hex_def by (rule exI [of _ 0]) (simp add: hex_digit_def)
  then show "\<forall>d\<in>set (format_hex width x). is_hex d" using hex_digits_hex by (auto simp: f)
  show "hexval (format_hex width x) 0 = x" using assms by (simp add: f hexval_zeros hexval_digits)
  have "nat x < 16 ^ width" using assms(1,2) by (simp add: nat_less_iff)
  then show "length (format_hex width x) = width" using length_hex_digits [of "nat x" width] assms(3) by (simp add: f)
qed

lemma hex_run_digits:
  assumes "\<forall>d\<in>set ds. is_hex d" and "0 \<le> c" and "hexval ds c < 2147483648"
    and "rest = [] \<or> hex_char_to_int (hd rest) = - 1"
  shows "hex_run (ds @ rest) len c = (len + length ds, hexval ds c)"
  using assms
proof (induction ds arbitrary: len c)
  case Nil
  then show ?case by (cases rest) auto
next
  case (Cons d ds)
  let ?c = "c * 16 + hex_char_to_int d"
  have d: "0 \<le> hex_char_to_int d" using Cons.prems by (simp add: is_hex_int)
  then have "?c \<le> hexval ds ?c" using Cons.prems by (intro hexval_mono) simp_all
  then have "?c < 2147483648" using Cons.prems(3) by simp
  then have "wrap_i32 (wrap_i32 (c * 16) + hex_char_to_int d) = ?c" using d Cons.prems(2) by simp
  with d Cons show ?case by simp
qed

lemma hex_fixed_digits:
  assumes "\<forall>d\<in>set ds. is_hex d" and "0 \<le> c" and "hexval ds c < 2147483648"
  shows "hex_fixed (length ds) (ds @ rest) c = Some (hexval ds c)"
  using assms
proof (induction ds arbitrary: c)
  case (Cons d ds)
  let ?c = "c * 16 + hex_char_to_int d"
  have d: "0 \<le> hex_char_to_int d" using Cons.prems by (simp add: is_hex_int)
  then have "?c \<le> hexval ds ?c" using Cons.prems by (intro hexval_mono) simp_all
  then have "?c < 2147483648" using Cons.prems(3) by simp
  then have "wrap_i32 (wrap_i32 (c * 16) + hex_char_to_int d) = ?c" using d Cons.prems(2) by simp
  with d Cons show ?case by simp
qed simp

lemma escape_table:
  "codepoint_to_escape cp = Some s \<Longrightarrow> parse_next_escaped (s @ rest) Map.empty = (cp, length s)"
  by (auto simp: codepoint_to_escape_def parse_next_escaped_def escape_to_codepoint_def split: if_splits)

text \<open>What was printed for a code point is read back as that code point, whatever follows it; only
  a two-digit escape must not be followed by another hexadecimal digit, which it would swallow.\<close>

lemma escape_roundtrip:
  assumes c: "0 \<le> cp" "cp < 2147483648"
    and rest: "0x100 \<le> cp \<or> rest = [] \<or> hex_char_to_int (hd rest) = - 1 \<or> 0x20 \<le> cp \<and> cp \<le> 0x7E"
    and p: "print_as_escaped cp Map.empty = p"
  shows "parse_next_utf8_or_escaped (p @ rest) Map.empty = (cp, length p)"
proof (cases "codepoint_to_escape cp")
  case (Some s)
  moreover have "hd s = 92 \<and> s \<noteq> []" using Some by (auto simp: codepoint_to_escape_def split: if_splits)
  moreover obtain b bs where "s = b # bs" using calculation by (cases s) auto
  ultimately show ?thesis using escape_table [OF Some, of rest] p
    by (auto simp: print_as_escaped_def parse_next_utf8_or_escaped_def)
next
  case None
  show ?thesis
  proof (cases "0x20 \<le> cp \<and> cp \<le> 0x7E")
    case True
    then have u: "uint (word_of_int cp :: byte) = cp" by (simp add: unsigned_of_int take_bit_int_eq_self)
    have "cp \<noteq> 92" using None by (auto simp: codepoint_to_escape_def)
    then have "word_of_int cp \<noteq> (92 :: byte)" using u by auto
    with True None p u show ?thesis
      by (auto simp: print_as_escaped_def parse_next_utf8_or_escaped_def parse_sequence)
  next
    case False
    have esc: "escape_to_codepoint 120 = None" "escape_to_codepoint 117 = None" "escape_to_codepoint 85 = None"
      by (simp_all add: escape_to_codepoint_def)
    consider "cp \<le> 0xFF" | "0xFF < cp" "cp \<le> 0xFFFF" | "0xFFFF < cp" by linarith
    then show ?thesis
    proof cases
      case 1
      have f: "p = 92 # 120 # format_hex 2 cp" using p None False 1 by (simp add: print_as_escaped_def)
      note h = format_hex [of cp 2, OF c(1)]
      have "hex_run (format_hex 2 cp @ rest) 0 0 = (2, cp)"
        using hex_run_digits [of "format_hex 2 cp" 0 rest 0] h 1 c rest False by auto
      then show ?thesis using h(3) 1 by (simp add: f parse_next_utf8_or_escaped_def parse_next_escaped_def esc)
    next
      case 2
      have f: "p = 92 # 117 # format_hex 4 cp" using p None False 2 by (simp add: print_as_escaped_def)
      note h = format_hex [of cp 4, OF c(1)]
      have "hex_fixed 4 (format_hex 4 cp @ rest) 0 = Some cp"
        using hex_fixed_digits [of "format_hex 4 cp" 0 rest] h 2 c by simp
      then show ?thesis using h(3) 2 by (simp add: f parse_next_utf8_or_escaped_def parse_next_escaped_def esc)
    next
      case 3
      have f: "p = 92 # 85 # format_hex 8 cp" using p None False 3 by (simp add: print_as_escaped_def)
      note h = format_hex [of cp 8, OF c(1)]
      have "hex_fixed 8 (format_hex 8 cp @ rest) 0 = Some cp"
        using hex_fixed_digits [of "format_hex 8 cp" 0 rest] h 3 c by simp
      then show ?thesis using h(3) 3 c by (simp add: f parse_next_utf8_or_escaped_def parse_next_escaped_def esc)
    qed
  qed
qed

text \<open>The escapes are not self-delimiting, so printing a string and reading it back can give another
  string: the two characters U+0001 and \<open>a\<close> are printed as \<open>\x01a\<close>, which is read as U+001A.\<close>

lemma print_escape_ambiguous: "unescape_string (print_str_as_escaped [1, 97]) Map.empty = Inr [0x1A]"
  by code_simp

end
