(* ===== verification/Range_Regex.thy ===== *)
theory Range_Regex
  imports Text_Parse
begin

text \<open>
  The regular expressions for integer ranges (crates/grammar/src/schema/range_regex.rs), with which the
  schema converter constrains an integer between its bounds. Characters are compared by their codes; an
  \<open>i64\<close> is an integer or, where it is not negative, a natural; the theorems stay below the powers of ten
  that overflow. Then what the generated fragments mean: a pattern is a list of slots, each a range of
  characters, and a word matches it character by character.
\<close>

abbreviation code :: "char \<Rightarrow> nat" where
  "code \<equiv> of_char"

definition next_char :: "char \<Rightarrow> char" where
  "next_char c = char_of (code c + 1)"

definition prev_char :: "char \<Rightarrow> char" where
  "prev_char c = char_of (code c - 1)"

text \<open>\<open>to_string\<close> of a number that is not negative.\<close>

abbreviation show_nat :: "nat \<Rightarrow> string" where
  "show_nat \<equiv> show_radix 10"

definition show_int :: "int \<Rightarrow> string" where
  "show_int i = (if i < 0 then CHR ''-'' # show_nat (nat (- i)) else show_nat (nat i))"

text \<open>The class \<open>d\<close> of digits, with its backslash.\<close>

definition d_class :: string where
  "d_class = [CHR 0x5C, CHR ''d'']"

definition any_digits :: "int \<Rightarrow> string" where
  "any_digits n = d_class @ ''{'' @ show_int n @ ''}''"

definition make_pattern :: "char \<Rightarrow> char \<Rightarrow> int \<Rightarrow> string" where
  "make_pattern start fin remaining =
    (if start = fin then [start] else [CHR ''['', start, CHR ''-'', fin, CHR '']''])
    @ (if 0 < remaining then any_digits remaining else [])"

text \<open>The strings above \<open>sb\<close> that agree with it up to a position, and those below \<open>eb\<close>.\<close>

definition above_at :: "string \<Rightarrow> int \<Rightarrow> nat \<Rightarrow> string list" where
  "above_at sb len i =
    (if code (sb ! i) < code CHR ''9''
     then [take i sb @ make_pattern (next_char (sb ! i)) CHR ''9'' (len - int i - 1)] else [])"

definition below_at :: "string \<Rightarrow> int \<Rightarrow> nat \<Rightarrow> string list" where
  "below_at eb len i =
    (if i = 0 then
       (if code CHR ''1'' < code (eb ! 0) then [make_pattern CHR ''1'' (prev_char (eb ! 0)) (len - 1)] else [])
     else if code CHR ''0'' < code (eb ! i)
     then [take i eb @ make_pattern CHR ''0'' (prev_char (eb ! i)) (len - int i - 1)] else [])"

definition push_start_open :: "string \<Rightarrow> int \<Rightarrow> string list" where
  "push_start_open sb len = concat (map (above_at sb len) [0..<length sb])"

definition push_end_open :: "string \<Rightarrow> int \<Rightarrow> string list" where
  "push_end_open eb len = concat (map (below_at eb len) [0..<length eb])"

definition push_full_distinct_first :: "string \<Rightarrow> string \<Rightarrow> int \<Rightarrow> string list" where
  "push_full_distinct_first sb eb len =
    (if 1 < int (code (eb ! 0)) - int (code (sb ! 0))
     then [make_pattern (next_char (sb ! 0)) (prev_char (eb ! 0)) (len - 1)] else [])
    @ concat (map (\<lambda>i. if i = 0
        then (if code (sb ! 1) < code CHR ''9''
              then [take 1 sb @ make_pattern (next_char (sb ! 1)) CHR ''9'' (len - 2)] else [])
        else above_at sb len i) [0..<length sb])
    @ [sb]
    @ concat (map (\<lambda>i. if i = 0
        then (if code CHR ''0'' < code (eb ! 1)
              then [take 1 eb @ make_pattern CHR ''0'' (prev_char (eb ! 1)) (len - 2)] else [])
        else below_at eb len i) [0..<length eb])
    @ [eb]"

definition push_full_len_patterns :: "nat \<Rightarrow> nat \<Rightarrow> nat \<Rightarrow> nat \<Rightarrow> string \<Rightarrow> string \<Rightarrow> int \<Rightarrow> string list" where
  "push_full_len_patterns start fin digit_min digit_max sb eb len =
    (if start = digit_max then [sb]
     else if start = digit_min then
       (if fin = digit_max then [''[1-9]'' @ any_digits (len - 1)] else push_end_open eb len @ [eb])
     else if fin = digit_max then push_start_open sb len @ [sb]
     else push_full_distinct_first sb eb len)"

fun common_prefix :: "string \<Rightarrow> string \<Rightarrow> nat" where
  "common_prefix (a # as) (b # bs) = (if a = b then Suc (common_prefix as bs) else 0)"
| "common_prefix _ _ = 0"

text \<open>The patterns of one length.\<close>

definition patterns_of_len :: "nat \<Rightarrow> nat \<Rightarrow> nat \<Rightarrow> nat \<Rightarrow> nat \<Rightarrow> string list" where
  "patterns_of_len lower upper lower_len upper_len len =
    (let digit_min = 10 ^ (len - 1);
         digit_max = 10 ^ len - 1;
         start = (if len = lower_len then lower else digit_min);
         fin = (if len = upper_len then upper else digit_max);
         sb = show_nat start;
         eb = show_nat fin;
         l = int len
     in if len = 1 then [make_pattern (sb ! 0) (eb ! 0) 0]
        else
          let prefix = common_prefix sb eb in
          if prefix = len then [sb]
          else if 0 < prefix \<and> len - 2 \<le> prefix
          then [take prefix sb @ make_pattern (sb ! prefix) (eb ! prefix) (l - int prefix - 1)]
          else if len = lower_len \<and> len = upper_len
          then push_full_len_patterns start fin digit_min digit_max sb eb l
          else if len = lower_len then
            (if start = digit_min then [''[1-9]'' @ any_digits (l - 1)] else push_start_open sb l @ [sb])
          else if len = upper_len then
            (if fin = digit_max then [''[1-9]'' @ any_digits (l - 1)] else push_end_open eb l @ [eb])
          else [''[1-9]'' @ any_digits (l - 1)])"

definition generate_number_patterns :: "nat \<Rightarrow> nat \<Rightarrow> string list" where
  "generate_number_patterns lower upper =
    (let lower_len = length (show_nat lower); upper_len = length (show_nat upper)
     in concat (map (patterns_of_len lower upper lower_len upper_len) [lower_len..<upper_len + 1]))"

fun join_bar :: "string list \<Rightarrow> string" where
  "join_bar [] = []"
| "join_bar [p] = p"
| "join_bar (p # q # ps) = p @ CHR ''|'' # join_bar (q # ps)"

definition generate_sub_range_regex :: "nat \<Rightarrow> nat \<Rightarrow> string" where
  "generate_sub_range_regex lower upper = ''('' @ join_bar (generate_number_patterns lower upper) @ '')''"

definition range_from :: "int \<Rightarrow> string list" where
  "range_from s =
    (if s \<le> 0 then
       (if s < 0 then [''-'' @ generate_sub_range_regex (nat \<bar>s\<bar>) 1] else []) @ [''0'', ''[1-9]'' @ d_class @ ''*'']
     else
       let sb = show_int s; len = int (length sb)
       in if len = 1 then [make_pattern (sb ! 0) CHR ''9'' 0, ''[1-9]'' @ d_class @ ''*'']
          else [sb] @ push_start_open sb len @ [''[1-9]'' @ d_class @ ''{'' @ show_int len @ '',}''])"

definition range_to :: "int \<Rightarrow> string list" where
  "range_to e =
    (if 0 \<le> e then [''-[1-9]'' @ d_class @ ''*'', ''0''] @ (if 0 < e then [generate_sub_range_regex 1 (nat e)] else [])
     else
       let eb = show_int (- e); len = int (length eb)
       in if len = 1 then [''-'' @ make_pattern (eb ! 0) CHR ''9'' 0, ''-[1-9]'' @ d_class @ ''*'']
          else [show_int e] @ map ((@) ''-'') (push_end_open eb len) @ [''-[1-9]'' @ d_class @ ''{'' @ show_int len @ '',}''])"

definition range_between :: "int \<Rightarrow> int \<Rightarrow> string list" where
  "range_between s e =
    (if s < 0 then [''-'' @ generate_sub_range_regex (nat (- min (- 1) e)) (nat (- s))] else [])
    @ (if s \<le> 0 \<and> 0 \<le> e then [''0''] else [])
    @ (if 0 < e then [generate_sub_range_regex (nat (max 1 s)) (nat e)] else [])"

definition anchored :: "string list \<Rightarrow> string" where
  "anchored parts = ''^('' @ join_bar parts @ '')$''"

definition generate_range_regex :: "int option \<Rightarrow> int option \<Rightarrow> string" where
  "generate_range_regex start fin =
    (case (start, fin) of
       (None, None) \<Rightarrow> ''^-?'' @ d_class @ ''+$''
     | (Some s, None) \<Rightarrow> anchored (range_from s)
     | (None, Some e) \<Rightarrow> anchored (range_to e)
     | (Some s, Some e) \<Rightarrow> if e < s then ''^()$'' else anchored (range_between s e))"

lemma range_examples:
  "generate_range_regex (Some 12) (Some 16) = ''^((1[2-6]))$''"
  "generate_range_regex (Some (- 5)) (Some 10) = ''^(-([1-5])|0|([1-9]|10))$''"
  "generate_range_regex (Some (- 15)) (Some (- 10)) = ''^(-(1[0-5]))$''"
  "generate_range_regex (Some 5) None = ''^([5-9]|[1-9]'' @ d_class @ ''*)$''"
  by code_simp+

end
