(* ===== verification/Range_Words.thy ===== *)
theory Range_Words
  imports Range_Regex
begin

text \<open>
  What the generated expressions mean, as a matcher for the fragment they are written in: a flat pattern
  is a sequence of slots, a range of characters with a count; an expression is an alternation of flat
  patterns and of parenthesised alternations, each after an optional minus sign. Then which numbers the
  patterns of a range match.
\<close>

subsection \<open>Matching\<close>

fun slot_of :: "string \<Rightarrow> ((char \<times> char) \<times> string) option" where
  "slot_of [] = None"
| "slot_of (c # s) =
    (if c = CHR ''['' then
       (case s of a # m # b # e # r \<Rightarrow> if m = CHR ''-'' \<and> e = CHR '']'' then Some ((a, b), r) else None | _ \<Rightarrow> None)
     else if c = CHR 0x5C then
       (case s of d # r \<Rightarrow> if d = CHR ''d'' then Some ((CHR ''0'', CHR ''9''), r) else None | _ \<Rightarrow> None)
     else Some ((c, c), s))"

definition count_of :: "string \<Rightarrow> (nat \<times> nat option) \<times> string" where
  "count_of s =
    (case s of
       [] \<Rightarrow> ((1, Some 1), [])
     | c # r \<Rightarrow>
         if c = CHR ''*'' then ((0, None), r)
         else if c = CHR ''+'' then ((1, None), r)
         else if c = CHR ''?'' then ((0, Some 1), r)
         else if c = CHR ''{'' then
           (let body = takeWhile (\<lambda>x. x \<noteq> CHR ''}'') r; rest = drop (Suc (length body)) r
            in case str_split CHR '','' body of
                 [n] \<Rightarrow> (case from_str_radix 10 n of Some k \<Rightarrow> ((k, Some k), rest) | None \<Rightarrow> ((1, Some 0), rest))
               | n # _ \<Rightarrow> (case from_str_radix 10 n of Some k \<Rightarrow> ((k, None), rest) | None \<Rightarrow> ((1, Some 0), rest))
               | [] \<Rightarrow> ((1, Some 0), rest))
         else ((1, Some 1), s))"

lemma slot_of_shorter: "slot_of s = Some (ab, r) \<Longrightarrow> length r < length s"
  by (cases s) (auto split: if_splits list.splits)

lemma count_of_shorter: "count_of s = (mm, r) \<Longrightarrow> length r \<le> length s"
  by (auto simp: count_of_def Let_def split: if_splits list.splits option.splits)

type_synonym slots = "((char \<times> char) \<times> nat \<times> nat option) list"

function pat_slots :: "string \<Rightarrow> slots option" where
  "pat_slots [] = Some []"
| "pat_slots (c # s) =
    (case slot_of (c # s) of
       None \<Rightarrow> None
     | Some (ab, r) \<Rightarrow> (case count_of r of (mm, r') \<Rightarrow> map_option (\<lambda>ss. (ab, mm) # ss) (pat_slots r')))"
  by pat_completeness auto
termination
  by (relation "measure length") (auto simp del: slot_of.simps dest!: slot_of_shorter [OF sym] slot_of_shorter count_of_shorter [OF sym])

definition in_slot :: "char \<times> char \<Rightarrow> char \<Rightarrow> bool" where
  "in_slot ab c \<longleftrightarrow> code (fst ab) \<le> code c \<and> code c \<le> code (snd ab)"

fun slots_match :: "slots \<Rightarrow> string \<Rightarrow> bool" where
  "slots_match [] w \<longleftrightarrow> w = []"
| "slots_match ((ab, mn, mx) # ss) w \<longleftrightarrow>
    (let run = length (takeWhile (in_slot ab) w);
         most = (case mx of None \<Rightarrow> run | Some k \<Rightarrow> min k run)
     in list_ex (\<lambda>k. slots_match ss (drop k w)) [mn..<most + 1])"

definition pattern_accepts :: "string \<Rightarrow> string \<Rightarrow> bool" where
  "pattern_accepts p w = (case pat_slots p of None \<Rightarrow> False | Some ss \<Rightarrow> slots_match ss w)"

text \<open>The alternatives of an expression, outside parentheses.\<close>

fun alternatives :: "nat \<Rightarrow> string \<Rightarrow> string list" where
  "alternatives depth [] = [[]]"
| "alternatives depth (c # cs) =
    (if c = CHR ''|'' \<and> depth = 0 then [] # alternatives depth cs
     else
       let rest = alternatives (if c = CHR ''('' then depth + 1 else if c = CHR '')'' then depth - 1 else depth) cs
       in (c # hd rest) # tl rest)"

fun group_accepts :: "string \<Rightarrow> string \<Rightarrow> bool" where
  "group_accepts (c # p) w =
    (if c = CHR ''('' then list_ex (\<lambda>q. pattern_accepts q w) (alternatives 0 (butlast p)) else pattern_accepts (c # p) w)"
| "group_accepts [] w = pattern_accepts [] w"

definition part_accepts :: "string \<Rightarrow> string \<Rightarrow> bool" where
  "part_accepts p w =
    (case (p, w) of
       (m # p', m' # w') \<Rightarrow> if m = CHR ''-'' then m' = CHR ''-'' \<and> group_accepts p' w' else group_accepts p w
     | _ \<Rightarrow> group_accepts p w)"

definition regex_accepts :: "string \<Rightarrow> string \<Rightarrow> bool" where
  "regex_accepts r w = list_ex (\<lambda>p. part_accepts p w) (alternatives 0 (butlast (butlast (drop 2 r))))"

subsection \<open>Decimal strings\<close>

definition is_digit :: "char \<Rightarrow> bool" where
  "is_digit c \<longleftrightarrow> 48 \<le> code c \<and> code c \<le> 57"

abbreviation digits :: "string \<Rightarrow> bool" where
  "digits \<equiv> list_all is_digit"

fun num :: "string \<Rightarrow> nat" where
  "num [] = 0"
| "num (c # w) = (code c - 48) * 10 ^ length w + num w"

fun lexlt :: "string \<Rightarrow> string \<Rightarrow> bool" where
  "lexlt (a # u) (b # v) \<longleftrightarrow> code a < code b \<or> a = b \<and> lexlt u v"
| "lexlt _ _ \<longleftrightarrow> False"

lemma num_bound: "digits w \<Longrightarrow> num w < 10 ^ length w"
proof (induction w)
  case (Cons c w)
  then have "code c - 48 \<le> 9" "num w < 10 ^ length w" by (auto simp: is_digit_def)
  then have "(code c - 48) * 10 ^ length w + num w < 9 * 10 ^ length w + 10 ^ length w"
    by (intro add_le_less_mono mult_right_mono) auto
  then show ?case by simp
qed simp

lemma num_append: "num (u @ v) = num u * 10 ^ length v + num v"
  by (induction u) (simp_all add: power_add algebra_simps)

lemma digit_eq: "is_digit a \<Longrightarrow> is_digit b \<Longrightarrow> code a - 48 = code b - 48 \<longleftrightarrow> a = b"
  and digit_less: "is_digit a \<Longrightarrow> is_digit b \<Longrightarrow> code a - 48 < code b - 48 \<longleftrightarrow> code a < code b"
  using eq_diff_iff [of 48 "code a" "code b"] less_diff_iff [of 48 "code a" "code b"] by (auto simp: is_digit_def)

lemma num_lexlt: "digits u \<Longrightarrow> digits v \<Longrightarrow> length u = length v \<Longrightarrow> num u < num v \<longleftrightarrow> lexlt u v"
proof (induction u v rule: lexlt.induct)
  case (1 a u b v)
  let ?A = "code a - 48" and ?B = "code b - 48" and ?p = "10 ^ length v :: nat"
  have b: "num u < ?p" "num v < ?p" using 1 num_bound [of u] num_bound [of v] by auto
  have d: "is_digit a" "is_digit b" and l: "length u = length v" using 1 by simp_all
  note lt = digit_less [OF d] digit_eq [OF d]
  note IH = 1
  consider "?A < ?B" | "?A = ?B" | "?B < ?A" by linarith
  then show ?case
  proof cases
    case 1
    then have "(?A + 1) * ?p \<le> ?B * ?p" by (intro mult_right_mono) auto
    with b have "?A * ?p + num u < ?B * ?p + num v" by simp
    then show ?thesis using 1 lt l by simp
  next
    case 2
    then show ?thesis using IH lt l by simp
  next
    case 3
    then have "(?B + 1) * ?p \<le> ?A * ?p" by (intro mult_right_mono) auto
    with b have "\<not> ?A * ?p + num u < ?B * ?p + num v" by simp
    then show ?thesis using 3 lt l by auto
  qed
qed auto

lemma lexlt_total: "length u = length v \<Longrightarrow> lexlt u v \<or> u = v \<or> lexlt v u"
proof (induction u v rule: lexlt.induct)
  case (1 a u b v)
  have "code a < code b \<or> a = b \<or> code b < code a" using linorder_neqE_nat of_char_eq_iff by metis
  with 1 show ?case by auto
qed auto

lemma num_inj: "digits u \<Longrightarrow> digits v \<Longrightarrow> length u = length v \<Longrightarrow> num u = num v \<Longrightarrow> u = v"
  using lexlt_total [of u v] num_lexlt [of u v] num_lexlt [of v u] by auto

lemma lexlt_at: "length u = length v \<Longrightarrow> lexlt u v \<longleftrightarrow> (\<exists>i < length v. take i u = take i v \<and> code (u ! i) < code (v ! i))"
proof (induction u v rule: lexlt.induct)
  case (1 a u b v)
  have "(\<exists>i < Suc (length v). take i (a # u) = take i (b # v) \<and> code ((a # u) ! i) < code ((b # v) ! i))
    \<longleftrightarrow> code a < code b \<or> a = b \<and> (\<exists>i < length v. take i u = take i v \<and> code (u ! i) < code (v ! i))"
    unfolding Ex_less_Suc2 by auto
  with 1 show ?case by simp
qed auto

lemma show_nat_rec: "show_nat n = (if n < 10 then [digit_char n] else show_nat (n div 10) @ [digit_char (n mod 10)])"
  by (subst show_radix.simps) simp

lemma digit_char_code: "d < 10 \<Longrightarrow> code (digit_char d) = 48 + d"
  by (simp add: digit_char_def)

lemma show_nat_num: "digits (show_nat n) \<and> num (show_nat n) = n"
proof (induction n rule: less_induct)
  case (less n)
  show ?case
  proof (cases "n < 10")
    case True
    then show ?thesis by (subst (1 2) show_nat_rec) (simp add: is_digit_def digit_char_code)
  next
    case False
    then have "digits (show_nat (n div 10)) \<and> num (show_nat (n div 10)) = n div 10" by (intro less) simp
    then show ?thesis using False by (subst (1 2) show_nat_rec) (simp add: is_digit_def digit_char_code num_append)
  qed
qed

lemma show_nat_digits [simp]: "digits (show_nat n)" and num_show_nat [simp]: "num (show_nat n) = n"
  using show_nat_num by auto

lemma show_nat_hd: "0 < n \<Longrightarrow> 49 \<le> code (hd (show_nat n))"
proof (induction n rule: less_induct)
  case (less n)
  show ?case
  proof (cases "n < 10")
    case True
    with less show ?thesis by (subst show_nat_rec) (simp add: digit_char_code)
  next
    case False
    then have "49 \<le> code (hd (show_nat (n div 10)))" by (intro less) simp_all
    with False show ?thesis by (subst show_nat_rec) (simp add: show_radix_ne)
  qed
qed

lemma num_hd: "w \<noteq> [] \<Longrightarrow> 49 \<le> code (hd w) \<Longrightarrow> 10 ^ (length w - 1) \<le> num w"
proof (cases w)
  case (Cons c v)
  assume "w \<noteq> []" "49 \<le> code (hd w)"
  with Cons have "1 \<le> code c - 48" by simp
  then have "1 * 10 ^ length v \<le> (code c - 48) * 10 ^ length v" by (rule mult_right_mono) simp
  then have "10 ^ length v \<le> (code c - 48) * 10 ^ length v + num v" unfolding mult_1 by (rule trans_le_add1)
  with Cons show ?thesis by simp
qed simp

lemma length_show_nat: "0 < n \<Longrightarrow> 0 < l \<Longrightarrow> length (show_nat n) = l \<longleftrightarrow> 10 ^ (l - 1) \<le> n \<and> n < 10 ^ l"
proof -
  assume n: "0 < n" and l: "0 < l"
  let ?L = "length (show_nat n)"
  have b: "10 ^ (?L - 1) \<le> n" "n < 10 ^ ?L"
    using num_hd [of "show_nat n"] show_nat_hd [OF n] num_bound [of "show_nat n"] by (simp_all add: show_radix_ne)
  have L: "0 < ?L" by (simp add: show_radix_ne)
  show "?L = l \<longleftrightarrow> 10 ^ (l - 1) \<le> n \<and> n < 10 ^ l"
  proof
    assume "10 ^ (l - 1) \<le> n \<and> n < 10 ^ l"
    with b have "(10 :: nat) ^ (l - 1) < 10 ^ ?L" "(10 :: nat) ^ (?L - 1) < 10 ^ l" by linarith+
    then have "l - 1 < ?L" "?L - 1 < l" by (simp_all add: power_strict_increasing_iff)
    with l L show "?L = l" by linarith
  qed (use b in auto)
qed

lemma show_num: "digits w \<Longrightarrow> w \<noteq> [] \<Longrightarrow> 49 \<le> code (hd w) \<Longrightarrow> show_nat (num w) = w"
proof -
  assume w: "digits w" "w \<noteq> []" "49 \<le> code (hd w)"
  have b: "10 ^ (length w - 1) \<le> num w" "num w < 10 ^ length w" using num_hd num_bound w by auto
  then have "0 < num w" by (meson less_le_trans zero_less_numeral zero_less_power)
  then have "length (show_nat (num w)) = length w" using length_show_nat [of "num w" "length w"] b w(2) by simp
  then show ?thesis using num_inj [of "show_nat (num w)" w] w(1) by simp
qed

subsection \<open>Patterns\<close>

text \<open>The words of a pattern with one range in it: a common prefix, a character in the range, then any
  digits.\<close>

definition fits :: "string \<Rightarrow> char \<Rightarrow> char \<Rightarrow> nat \<Rightarrow> string \<Rightarrow> bool" where
  "fits p a b n w \<longleftrightarrow> length w = length p + 1 + n \<and> take (length p) w = p
     \<and> code a \<le> code (w ! length p) \<and> code (w ! length p) \<le> code b \<and> digits (drop (length p + 1) w)"

lemma count_of_none: "s = [] \<or> hd s \<notin> {CHR ''*'', CHR ''+'', CHR ''?'', CHR ''{''} \<Longrightarrow> count_of s = ((1, Some 1), s)"
  by (cases s) (auto simp: count_of_def)

lemma digit_plain: "is_digit c \<Longrightarrow> c \<notin> {CHR ''*'', CHR ''+'', CHR ''?'', CHR ''{'', CHR ''['', CHR 0x5C, CHR ''}'', CHR '','', CHR ''|'', CHR ''('', CHR '')'', CHR ''-''}"
  by (auto simp: is_digit_def)

lemma slot_of_digit: "is_digit c \<Longrightarrow> slot_of (c # s) = Some ((c, c), s)"
  using digit_plain [of c] by simp

definition one_slot :: "char \<Rightarrow> char \<Rightarrow> (char \<times> char) \<times> nat \<times> nat option" where
  "one_slot a b = ((a, b), 1, Some 1)"

definition tail_slots :: "nat \<Rightarrow> slots" where
  "tail_slots n = (if n = 0 then [] else [((CHR ''0'', CHR ''9''), n, Some n)])"

definition tail_text :: "nat \<Rightarrow> string" where
  "tail_text n = (if n = 0 then [] else any_digits (int n))"

lemma tail_text_hd: "tail_text n = [] \<or> hd (tail_text n) = CHR 0x5C"
  by (simp add: tail_text_def any_digits_def d_class_def)

lemma pat_slots_tail: "n < 2 ^ 64 \<Longrightarrow> pat_slots (tail_text n) = Some (tail_slots n)"
proof (cases "n = 0")
  case False
  assume n: "n < 2 ^ 64"
  have d: "x \<in> set (show_nat n) \<Longrightarrow> is_digit x" for x using show_nat_digits [of n] by (auto simp: list_all_iff)
  have brace: "\<forall>x\<in>set (show_nat n). x \<noteq> CHR ''}''" and comma: "CHR '','' \<notin> set (show_nat n)"
    using d digit_plain by blast+
  have t: "takeWhile (\<lambda>x. x \<noteq> CHR ''}'') (show_nat n @ ''}'') = show_nat n" using brace by (simp add: takeWhile_append2)
  have "from_str_radix 10 (show_nat n) = Some n" using from_str_radix_show [of 10 n] n by simp
  then have c: "count_of (CHR ''{'' # show_nat n @ ''}'') = ((n, Some n), [])"
    by (simp add: count_of_def t str_split_single [OF comma])
  have "tail_text n = CHR 0x5C # CHR ''d'' # CHR ''{'' # show_nat n @ ''}''"
    using False by (simp add: tail_text_def any_digits_def d_class_def show_int_def)
  then show ?thesis using False c by (simp add: tail_slots_def)
qed (simp add: tail_text_def tail_slots_def)

lemma make_pattern_text: "make_pattern a b (int n) = (if a = b then [a] else [CHR ''['', a, CHR ''-'', b, CHR '']'']) @ tail_text n"
  by (simp add: make_pattern_def tail_text_def)

lemma pat_slots_make:
  assumes "is_digit a" and "n < 2 ^ 64"
  shows "pat_slots (make_pattern a b (int n)) = Some (one_slot a b # tail_slots n)"
proof -
  have c: "count_of (tail_text n) = ((1, Some 1), tail_text n)" using tail_text_hd [of n] by (intro count_of_none) auto
  show ?thesis
    using pat_slots_tail [OF assms(2)] digit_plain [OF assms(1)]
    by (auto simp: make_pattern_text c one_slot_def)
qed

lemma make_pattern_hd: "is_digit a \<Longrightarrow> make_pattern a b n \<noteq> [] \<and> hd (make_pattern a b n) \<notin> {CHR ''*'', CHR ''+'', CHR ''?'', CHR ''{''}"
  using digit_plain [of a] by (auto simp: make_pattern_def)

lemma pat_slots_prefix:
  "digits p \<Longrightarrow> pat_slots q = Some ss \<Longrightarrow> q = [] \<or> hd q \<notin> {CHR ''*'', CHR ''+'', CHR ''?'', CHR ''{''} \<Longrightarrow>
   pat_slots (p @ q) = Some (map (\<lambda>c. one_slot c c) p @ ss)"
proof (induction p)
  case (Cons c p)
  have "p @ q = [] \<or> hd (p @ q) \<notin> {CHR ''*'', CHR ''+'', CHR ''?'', CHR ''{''}"
    using Cons.prems digit_plain [of "hd p"] by (cases p) auto
  then have "count_of (p @ q) = ((1, Some 1), p @ q)" by (rule count_of_none)
  then show ?case using Cons by (simp add: slot_of_digit one_slot_def del: slot_of.simps)
qed simp

lemma slots_match_one: "slots_match (one_slot a b # ss) w \<longleftrightarrow> (\<exists>c v. w = c # v \<and> code a \<le> code c \<and> code c \<le> code b \<and> slots_match ss v)"
  by (cases w) (auto simp: one_slot_def in_slot_def Let_def)

lemma slots_match_prefix:
  "slots_match (map (\<lambda>c. one_slot c c) p @ ss) w \<longleftrightarrow> (\<exists>v. w = p @ v \<and> slots_match ss v)"
proof (induction p arbitrary: w)
  case (Cons c p)
  have "code c \<le> code x \<and> code x \<le> code c \<longleftrightarrow> x = c" for x
    using of_char_eq_iff [of x c, where ?'a = nat] by auto
  with Cons show ?case by (auto simp: slots_match_one)
qed simp

lemma length_takeWhile_all: "length (takeWhile P w) = length w \<longleftrightarrow> list_all P w"
  by (induction w) auto

lemma slots_match_tail: "slots_match (tail_slots n) w \<longleftrightarrow> length w = n \<and> digits w"
proof (cases "n = 0")
  case True
  then show ?thesis by (auto simp: tail_slots_def)
next
  case False
  let ?D = "in_slot (CHR ''0'', CHR ''9'')"
  have D: "?D = is_digit" by (intro ext) (simp add: in_slot_def is_digit_def)
  define run where "run = length (takeWhile is_digit w)"
  have run: "run \<le> length w" "digits w \<longleftrightarrow> run = length w"
    using length_takeWhile_le [of is_digit w] length_takeWhile_all [of is_digit w] by (auto simp: run_def)
  have "slots_match (tail_slots n) w \<longleftrightarrow> list_ex (\<lambda>k. length w \<le> k) [n..<min n run + 1]"
    using False by (simp add: tail_slots_def D run_def)
  also have "\<dots> \<longleftrightarrow> n \<le> run \<and> length w \<le> n" by (auto simp: list_ex_iff)
  also have "\<dots> \<longleftrightarrow> length w = n \<and> digits w" using run by auto
  finally show ?thesis .
qed

lemma pattern_fits:
  assumes "digits p" and "is_digit a" and "n < 2 ^ 64"
  shows "pattern_accepts (p @ make_pattern a b (int n)) w \<longleftrightarrow> fits p a b n w"
proof -
  have "pat_slots (p @ make_pattern a b (int n)) = Some (map (\<lambda>c. one_slot c c) p @ one_slot a b # tail_slots n)"
    using pat_slots_prefix [OF assms(1) pat_slots_make [OF assms(2,3)]] make_pattern_hd [OF assms(2)] by blast
  then have "pattern_accepts (p @ make_pattern a b (int n)) w \<longleftrightarrow>
      (\<exists>c v. w = p @ c # v \<and> code a \<le> code c \<and> code c \<le> code b \<and> length v = n \<and> digits v)"
    by (auto simp: pattern_accepts_def slots_match_prefix slots_match_one slots_match_tail)
  also have "\<dots> \<longleftrightarrow> fits p a b n w"
  proof
    assume f: "fits p a b n w"
    then have l: "length p < length w" by (simp add: fits_def)
    have "w = take (length p) w @ w ! length p # drop (length p + 1) w" using id_take_nth_drop [OF l] by simp
    with f show "\<exists>c v. w = p @ c # v \<and> code a \<le> code c \<and> code c \<le> code b \<and> length v = n \<and> digits v"
      by (intro exI [of _ "w ! length p"] exI [of _ "drop (length p + 1) w"]) (auto simp: fits_def)
  qed (auto simp: fits_def)
  finally show ?thesis .
qed

lemma pattern_literal: "digits p \<Longrightarrow> pattern_accepts p w \<longleftrightarrow> w = p"
  using pat_slots_prefix [of p "[]" "[]"] slots_match_prefix [of p "[]"] by (simp add: pattern_accepts_def)

definition accepts_any :: "string list \<Rightarrow> string \<Rightarrow> bool" where
  "accepts_any ps w \<longleftrightarrow> (\<exists>p\<in>set ps. pattern_accepts p w)"

lemma accepts_any_simps [simp]:
  "accepts_any [] w \<longleftrightarrow> False" "accepts_any (p # ps) w \<longleftrightarrow> pattern_accepts p w \<or> accepts_any ps w"
  "accepts_any (ps @ qs) w \<longleftrightarrow> accepts_any ps w \<or> accepts_any qs w"
  by (auto simp: accepts_any_def)

subsection \<open>Above and below\<close>

lemma digits_at: "i < length w \<Longrightarrow> digits w \<longleftrightarrow> digits (take i w) \<and> is_digit (w ! i) \<and> digits (drop (i + 1) w)"
  using id_take_nth_drop [of i w] list_all_append [of is_digit "take i w"] by (metis Suc_eq_plus1 list.pred_inject(2))

lemma digits_take: "digits w \<Longrightarrow> digits (take i w)"
  by (auto simp: list_all_iff dest: in_set_takeD)

lemma digits_nth: "digits w \<Longrightarrow> i < length w \<Longrightarrow> is_digit (w ! i)"
  by (auto simp: list_all_iff)

lemma next_prev:
  "is_digit c \<Longrightarrow> code c < 57 \<Longrightarrow> is_digit (next_char c) \<and> code (next_char c) = code c + 1"
  "is_digit c \<Longrightarrow> 48 < code c \<Longrightarrow> is_digit (prev_char c) \<and> code (prev_char c) = code c - 1"
  by (auto simp: next_char_def prev_char_def is_digit_def)

lemma fits_at:
  assumes "i < length s" and "is_digit a" and "is_digit b" and "digits s" and "length w = length s"
  shows "fits (take i s) a b (length s - i - 1) w \<longleftrightarrow>
    digits w \<and> take i w = take i s \<and> code a \<le> code (w ! i) \<and> code (w ! i) \<le> code b"
proof -
  have "is_digit (w ! i)" if "code a \<le> code (w ! i)" "code (w ! i) \<le> code b" using that assms(2,3) by (auto simp: is_digit_def)
  moreover have "digits (take i w)" if "take i w = take i s" using that digits_take [OF assms(4)] by simp
  ultimately show ?thesis using assms(1,5) digits_at [of i w] by (auto simp: fits_def)
qed

lemma fits_length: "fits (take i s) a b (length s - i - 1) w \<Longrightarrow> i < length s \<Longrightarrow> length w = length s"
  by (simp add: fits_def)

lemma pattern_at:
  assumes "i < length s" and "is_digit a" and "is_digit b" and "digits s" and "length s < 2 ^ 64"
  shows "pattern_accepts (take i s @ make_pattern a b (int (length s) - int i - 1)) w \<longleftrightarrow>
    length w = length s \<and> digits w \<and> take i w = take i s \<and> code a \<le> code (w ! i) \<and> code (w ! i) \<le> code b"
proof -
  have e: "int (length s) - int i - 1 = int (length s - i - 1)" using assms(1) by simp
  have "pattern_accepts (take i s @ make_pattern a b (int (length s) - int i - 1)) w \<longleftrightarrow> fits (take i s) a b (length s - i - 1) w"
    unfolding e by (rule pattern_fits [OF digits_take [OF assms(4)] assms(2)]) (use assms(5) in simp)
  then show ?thesis using fits_at [OF assms(1-4)] fits_length [OF _ assms(1)] by blast
qed

lemma above_at_accepts:
  assumes "i < length s" and "digits s" and "length s < 2 ^ 64"
  shows "accepts_any (above_at s (int (length s)) i) w \<longleftrightarrow>
    length w = length s \<and> digits w \<and> take i w = take i s \<and> code (s ! i) < code (w ! i)"
proof (cases "code (s ! i) < 57")
  case True
  note n = next_prev(1) [OF digits_nth [OF assms(2,1)] True]
  have nine: "is_digit CHR ''9''" by (simp add: is_digit_def)
  have "accepts_any (above_at s (int (length s)) i) w \<longleftrightarrow>
      length w = length s \<and> digits w \<and> take i w = take i s \<and> code (next_char (s ! i)) \<le> code (w ! i) \<and> code (w ! i) \<le> code CHR ''9''"
    using pattern_at [OF assms(1) conjunct1 [OF n] nine assms(2,3), of w] True by (simp add: above_at_def)
  moreover have "code (w ! i) \<le> 57" if "length w = length s" "digits w"
    using digits_nth [OF that(2), of i] that(1) assms(1) by (simp add: is_digit_def)
  ultimately show ?thesis using n by auto
next
  case False
  moreover have "code (w ! i) \<le> 57" if "length w = length s" "digits w"
    using digits_nth [OF that(2), of i] that(1) assms(1) by (simp add: is_digit_def)
  ultimately show ?thesis by (auto simp: above_at_def)
qed

lemma below_at_accepts:
  assumes "i < length s" and "digits s" and "length s < 2 ^ 64"
  shows "accepts_any (below_at s (int (length s)) i) w \<longleftrightarrow>
    length w = length s \<and> digits w \<and> take i w = take i s \<and> code (w ! i) < code (s ! i) \<and> (i = 0 \<longrightarrow> 49 \<le> code (w ! 0))"
proof -
  define lo where "lo = (if i = 0 then CHR ''1'' else CHR ''0'')"
  have lo: "is_digit lo" "code lo = (if i = 0 then 49 else 48)" by (simp_all add: lo_def is_digit_def)
  have d: "is_digit (s ! i)" by (rule digits_nth [OF assms(2,1)])
  have w: "48 \<le> code (w ! i)" if "length w = length s" "digits w"
    using digits_nth [OF that(2), of i] that(1) assms(1) by (simp add: is_digit_def)
  have b: "below_at s (int (length s)) i = (if code lo < code (s ! i)
      then [take i s @ make_pattern lo (prev_char (s ! i)) (int (length s) - int i - 1)] else [])"
    by (simp add: below_at_def lo_def)
  show ?thesis
  proof (cases "code lo < code (s ! i)")
    case True
    then have "48 < code (s ! i)" using lo(2) by (auto split: if_splits)
    note p = next_prev(2) [OF d this]
    have "accepts_any (below_at s (int (length s)) i) w \<longleftrightarrow>
        length w = length s \<and> digits w \<and> take i w = take i s \<and> code lo \<le> code (w ! i) \<and> code (w ! i) \<le> code (prev_char (s ! i))"
      unfolding b using pattern_at [OF assms(1) lo(1) conjunct1 [OF p] assms(2,3), of w] True by simp
    moreover have "code lo \<le> code (w ! i) \<longleftrightarrow> (i = 0 \<longrightarrow> 49 \<le> code (w ! 0))" if "length w = length s" "digits w"
      using w [OF that] lo(2) by auto
    moreover have "code (w ! i) \<le> code (prev_char (s ! i)) \<longleftrightarrow> code (w ! i) < code (s ! i)" using p True by linarith
    ultimately show ?thesis by blast
  next
    case False
    then show ?thesis unfolding b using lo(2) w by (auto split: if_splits)
  qed
qed

lemma accepts_any_concat: "accepts_any (concat (map f is)) w \<longleftrightarrow> (\<exists>i\<in>set is. accepts_any (f i) w)"
  by (auto simp: accepts_any_def)

lemma start_open_accepts:
  assumes "digits s" and "length s < 2 ^ 64"
  shows "accepts_any (push_start_open s (int (length s))) w \<longleftrightarrow> length w = length s \<and> digits w \<and> lexlt s w"
proof -
  have "accepts_any (push_start_open s (int (length s))) w \<longleftrightarrow>
    (\<exists>i < length s. length w = length s \<and> digits w \<and> take i w = take i s \<and> code (s ! i) < code (w ! i))"
    unfolding push_start_open_def accepts_any_concat using above_at_accepts [OF _ assms, where w = w] by auto
  then show ?thesis using lexlt_at [of s w] by (metis (no_types, lifting))
qed

lemma end_open_accepts:
  assumes "digits s" and "length s < 2 ^ 64" and "s \<noteq> []" and "49 \<le> code (hd s)"
  shows "accepts_any (push_end_open s (int (length s))) w \<longleftrightarrow> length w = length s \<and> digits w \<and> lexlt w s \<and> 49 \<le> code (hd w)"
proof -
  have h: "hd w = w ! 0" if "length w = length s" using that assms(3) by (cases w) auto
  have hs: "hd s = s ! 0" using assms(3) by (cases s) auto
  have t: "take i w = take i s \<Longrightarrow> 0 < i \<Longrightarrow> length w = length s \<Longrightarrow> w ! 0 = s ! 0" for i using nth_take [of 0 i w] nth_take [of 0 i s] by metis
  have "accepts_any (push_end_open s (int (length s))) w \<longleftrightarrow>
    length w = length s \<and> digits w \<and> (\<exists>i < length s. take i w = take i s \<and> code (w ! i) < code (s ! i) \<and> (i = 0 \<longrightarrow> 49 \<le> code (w ! 0)))"
    unfolding push_end_open_def accepts_any_concat using below_at_accepts [OF _ assms(1,2), where w = w] by auto
  also have "\<dots> \<longleftrightarrow> length w = length s \<and> digits w \<and> lexlt w s \<and> 49 \<le> code (hd w)"
    using lexlt_at [of w s] h hs t assms(4) by (metis not_gr_zero)
  finally show ?thesis .
qed

end
