(* ===== verification/Range_Numbers.thy ===== *)
theory Range_Numbers
  imports Range_Words
begin

text \<open>
  Which numbers the patterns of a range match: all of the range, and nothing else as long as the bounds
  of every length have at most two digits, are equal, or differ in their first digit.
\<close>

subsection \<open>One length\<close>

text \<open>The numbers of a length between two of them.\<close>

definition between :: "string \<Rightarrow> string \<Rightarrow> string \<Rightarrow> bool" where
  "between s e w \<longleftrightarrow> length w = length s \<and> digits w \<and> num s \<le> num w \<and> num w \<le> num e"

definition bounds_ok :: "string \<Rightarrow> string \<Rightarrow> bool" where
  "bounds_ok s e \<longleftrightarrow> digits s \<and> digits e \<and> length e = length s \<and> s \<noteq> [] \<and> 49 \<le> code (hd s) \<and> 49 \<le> code (hd e)
     \<and> num s \<le> num e \<and> length s < 2 ^ 64"

lemma num_le_iff: "digits u \<Longrightarrow> digits v \<Longrightarrow> length u = length v \<Longrightarrow> num u \<le> num v \<longleftrightarrow> u = v \<or> lexlt u v"
  using num_lexlt [of u v] num_inj [of u v] by auto

lemma between_lex:
  "bounds_ok s e \<Longrightarrow> between s e w \<longleftrightarrow> length w = length s \<and> digits w \<and> (s = w \<or> lexlt s w) \<and> (w = e \<or> lexlt w e)"
proof (cases "length w = length s \<and> digits w")
  case True
  assume "bounds_ok s e"
  with True show ?thesis using num_le_iff [of s w] num_le_iff [of w e] by (simp add: between_def bounds_ok_def)
qed (auto simp: between_def)

lemma hd_num: "digits w \<Longrightarrow> w \<noteq> [] \<Longrightarrow> 49 \<le> code (hd w) \<longleftrightarrow> 10 ^ (length w - 1) \<le> num w"
proof
  assume w: "digits w" "w \<noteq> []" "10 ^ (length w - 1) \<le> num w"
  then obtain c v where cv: "w = c # v" by (cases w) auto
  show "49 \<le> code (hd w)"
  proof (rule ccontr)
    assume "\<not> 49 \<le> code (hd w)"
    with w cv have "num w = num v" by (auto simp: is_digit_def)
    with num_bound [of v] w cv show False by simp
  qed
qed (use num_hd in blast)

lemma hd_nth: "w \<noteq> [] \<Longrightarrow> hd w = w ! 0"
  by (cases w) auto

lemma accepts_all_digits:
  assumes "bounds_ok s e" and "1 < length s" and "num s = 10 ^ (length s - 1)" and "num e = 10 ^ length s - 1"
  shows "accepts_any [''[1-9]'' @ any_digits (int (length s) - 1)] w \<longleftrightarrow> between s e w"
proof -
  have t: "''[1-9]'' @ any_digits (int (length s) - 1) = take 0 s @ make_pattern CHR ''1'' CHR ''9'' (int (length s) - int 0 - 1)"
    using assms(2) by (simp add: make_pattern_def)
  have s: "0 < length s" "digits s" "length s < 2 ^ 64" "s \<noteq> []" using assms(1) by (auto simp: bounds_ok_def)
  have "accepts_any [''[1-9]'' @ any_digits (int (length s) - 1)] w \<longleftrightarrow>
      length w = length s \<and> digits w \<and> 49 \<le> code (w ! 0) \<and> code (w ! 0) \<le> 57"
    unfolding t accepts_any_simps using pattern_at [OF s(1) _ _ s(2,3), of "CHR ''1''" "CHR ''9''" w] by (simp add: is_digit_def)
  also have "\<dots> \<longleftrightarrow> between s e w"
  proof (cases "length w = length s \<and> digits w")
    case True
    then have w: "w \<noteq> []" "is_digit (w ! 0)" using s(4) digits_nth [of w 0] by auto
    have "num w < 10 ^ length s" using True num_bound [of w] by simp
    then have "num w \<le> 10 ^ length s - 1" by linarith
    then show ?thesis using True hd_num [of w] w assms(3,4) hd_nth [of w] by (auto simp: between_def is_digit_def)
  qed (auto simp: between_def)
  finally show ?thesis .
qed

lemma accepts_from_min:
  assumes ok: "bounds_ok s e" and min: "num s = 10 ^ (length s - 1)"
  shows "accepts_any (push_end_open e (int (length s)) @ [e]) w \<longleftrightarrow> between s e w"
proof -
  have e: "digits e" "length e < 2 ^ 64" "e \<noteq> []" "49 \<le> code (hd e)" "length s = length e" "s \<noteq> []"
    using ok by (auto simp: bounds_ok_def)
  have "accepts_any (push_end_open e (int (length s)) @ [e]) w \<longleftrightarrow>
      w = e \<or> length w = length e \<and> digits w \<and> lexlt w e \<and> 49 \<le> code (hd w)"
    unfolding accepts_any_simps e(5) using end_open_accepts [OF e(1-4)] pattern_literal [OF e(1)] by blast
  also have "\<dots> \<longleftrightarrow> between s e w"
  proof (cases "length w = length s \<and> digits w")
    case True
    then have "w \<noteq> []" using e(6) by auto
    with True show ?thesis using hd_num [of w] hd_num [OF e(1,3)] e min num_le_iff [of w e] by (auto simp: between_def)
  qed (use e in \<open>auto simp: between_def\<close>)
  finally show ?thesis .
qed

lemma accepts_to_max:
  assumes ok: "bounds_ok s e" and max: "num e = 10 ^ length s - 1"
  shows "accepts_any (push_start_open s (int (length s)) @ [s]) w \<longleftrightarrow> between s e w"
proof -
  have s: "digits s" "length s < 2 ^ 64" using ok by (auto simp: bounds_ok_def)
  have "accepts_any (push_start_open s (int (length s)) @ [s]) w \<longleftrightarrow> w = s \<or> length w = length s \<and> digits w \<and> lexlt s w"
    unfolding accepts_any_simps using start_open_accepts [OF s] pattern_literal [OF s(1)] by blast
  also have "\<dots> \<longleftrightarrow> between s e w"
  proof (cases "length w = length s \<and> digits w")
    case True
    have "num v < 10 ^ length s" if "v = w \<or> v = s" for v using that True num_bound [of w] num_bound [OF s(1)] by auto
    then have "num w \<le> num e" "num s \<le> num e" using max by fastforce+
    then show ?thesis using True num_le_iff [of s w] s(1) by (auto simp: between_def)
  qed (use s in \<open>auto simp: between_def\<close>)
  finally show ?thesis .
qed

lemma accepts_distinct_first:
  assumes ok: "bounds_ok s e" and len: "2 \<le> length s"
  shows "accepts_any (push_full_distinct_first s e (int (length s))) w \<longleftrightarrow>
    length w = length s \<and> digits w \<and> (w = s \<or> w = e \<or> code (s ! 0) < code (w ! 0) \<and> code (w ! 0) < code (e ! 0)
      \<or> w ! 0 = s ! 0 \<and> lexlt s w \<or> w ! 0 = e ! 0 \<and> lexlt w e)"
proof -
  let ?L = "int (length s)"
  let ?mid = "if 1 < int (code (e ! 0)) - int (code (s ! 0)) then [make_pattern (next_char (s ! 0)) (prev_char (e ! 0)) (?L - 1)] else []"
  have s: "digits s" "length s < 2 ^ 64" "0 < length s" "1 < length s" and e: "digits e" "length e < 2 ^ 64" "0 < length e"
    and l: "length e = length s" using ok len by (auto simp: bounds_ok_def)
  have mid: "accepts_any ?mid w \<longleftrightarrow> length w = length s \<and> digits w \<and> code (s ! 0) < code (w ! 0) \<and> code (w ! 0) < code (e ! 0)"
  proof (cases "code (s ! 0) + 1 < code (e ! 0)")
    case True
    have "code (s ! 0) < 57" "48 < code (e ! 0)"
      using True digits_nth [OF s(1,3)] digits_nth [OF e(1,3)] by (auto simp: is_digit_def)
    note n = next_prev(1) [OF digits_nth [OF s(1,3)] this(1)] next_prev(2) [OF digits_nth [OF e(1,3)] this(2)]
    have "accepts_any ?mid w \<longleftrightarrow> length w = length s \<and> digits w \<and> code (next_char (s ! 0)) \<le> code (w ! 0) \<and> code (w ! 0) \<le> code (prev_char (e ! 0))"
      using True pattern_at [OF s(3) conjunct1 [OF n(1)] conjunct1 [OF n(2)] s(1,2), of w] by simp
    then show ?thesis using n True by auto
  next
    case False
    then show ?thesis by auto
  qed
  have up: "accepts_any (concat (map (\<lambda>i. if i = 0 then
        (if code (s ! 1) < code CHR ''9'' then [take 1 s @ make_pattern (next_char (s ! 1)) CHR ''9'' (?L - 2)] else [])
        else above_at s ?L i) [0..<length s])) w \<longleftrightarrow>
      (\<exists>i. 0 < i \<and> i < length s \<and> length w = length s \<and> digits w \<and> take i w = take i s \<and> code (s ! i) < code (w ! i))"
  proof -
    have "(if i = 0 then (if code (s ! 1) < code CHR ''9'' then [take 1 s @ make_pattern (next_char (s ! 1)) CHR ''9'' (?L - 2)] else [])
        else above_at s ?L i) = above_at s ?L (max 1 i)" for i by (simp add: above_at_def max_def)
    then show ?thesis unfolding accepts_any_concat using above_at_accepts [OF _ s(1,2), where w = w] s(4)
      by (auto simp: max_def; metis Suc_leI)
  qed
  have down: "accepts_any (concat (map (\<lambda>i. if i = 0 then
        (if code CHR ''0'' < code (e ! 1) then [take 1 e @ make_pattern CHR ''0'' (prev_char (e ! 1)) (?L - 2)] else [])
        else below_at e ?L i) [0..<length e])) w \<longleftrightarrow>
      (\<exists>i. 0 < i \<and> i < length e \<and> length w = length e \<and> digits w \<and> take i w = take i e \<and> code (w ! i) < code (e ! i))"
  proof -
    have "(if i = 0 then (if code CHR ''0'' < code (e ! 1) then [take 1 e @ make_pattern CHR ''0'' (prev_char (e ! 1)) (?L - 2)] else [])
        else below_at e ?L i) = below_at e ?L (max 1 i)" for i by (simp add: below_at_def max_def)
    then show ?thesis unfolding accepts_any_concat using below_at_accepts [OF _ e(1,2), where w = w] s(4) l
      by (auto simp: max_def; metis Suc_leI)
  qed
  have cut: "(\<exists>i. 0 < i \<and> i < length v \<and> take i u = take i v \<and> P (u ! i) (v ! i)) \<longleftrightarrow> u ! 0 = v ! 0 \<and> (\<exists>i < length v. take i u = take i v \<and> P (u ! i) (v ! i))"
    if "length u = length v" "0 < length v" "\<And>c. \<not> P c c" for u v :: string and P
  proof
    assume "\<exists>i. 0 < i \<and> i < length v \<and> take i u = take i v \<and> P (u ! i) (v ! i)"
    then show "u ! 0 = v ! 0 \<and> (\<exists>i < length v. take i u = take i v \<and> P (u ! i) (v ! i))" by (metis nth_take)
  next
    assume *: "u ! 0 = v ! 0 \<and> (\<exists>i < length v. take i u = take i v \<and> P (u ! i) (v ! i))"
    then show "\<exists>i. 0 < i \<and> i < length v \<and> take i u = take i v \<and> P (u ! i) (v ! i)" using that(3) by (metis not_gr_zero)
  qed
  have u: "(\<exists>i. 0 < i \<and> i < length s \<and> take i w = take i s \<and> code (s ! i) < code (w ! i)) \<longleftrightarrow> w ! 0 = s ! 0 \<and> lexlt s w" if "length w = length s"
    using cut [of w s "\<lambda>a b. code b < code a"] lexlt_at [of s w] that s(3) by (metis (no_types, lifting) less_irrefl)
  have d: "(\<exists>i. 0 < i \<and> i < length e \<and> take i w = take i e \<and> code (w ! i) < code (e ! i)) \<longleftrightarrow> w ! 0 = e ! 0 \<and> lexlt w e" if "length w = length e"
    using cut [of w e "\<lambda>a b. code a < code b"] lexlt_at [of w e] that e(3) by (metis (no_types, lifting) less_irrefl)
  have "accepts_any (push_full_distinct_first s e ?L) w \<longleftrightarrow> accepts_any ?mid w
      \<or> (\<exists>i. 0 < i \<and> i < length s \<and> length w = length s \<and> digits w \<and> take i w = take i s \<and> code (s ! i) < code (w ! i)) \<or> w = s
      \<or> (\<exists>i. 0 < i \<and> i < length e \<and> length w = length e \<and> digits w \<and> take i w = take i e \<and> code (w ! i) < code (e ! i)) \<or> w = e"
    unfolding push_full_distinct_first_def accepts_any_simps up down using pattern_literal s(1) e(1) by auto
  note a = this
  show ?thesis
  proof (cases "length w = length s \<and> digits w")
    case True
    then have w: "length w = length s" "length w = length e" "digits w" using l by auto
    show ?thesis using a mid u [OF w(1)] d [OF w(2)] w l by (simp del: One_nat_def) blast
  next
    case False
    with a mid l s(1) e(1) show ?thesis by auto
  qed
qed

lemma common_prefix_spec:
  "length a = length b \<Longrightarrow> common_prefix a b \<le> length a \<and> take (common_prefix a b) a = take (common_prefix a b) b
     \<and> (common_prefix a b < length a \<longrightarrow> a ! common_prefix a b \<noteq> b ! common_prefix a b)"
  by (induction a b rule: common_prefix.induct) auto

lemma between_prefix:
  "length w = length s \<Longrightarrow> length e = length s \<Longrightarrow> take k s = take k e \<Longrightarrow> s = w \<or> lexlt s w \<Longrightarrow> w = e \<or> lexlt w e \<Longrightarrow>
   take k w = take k s \<and> (k < length s \<longrightarrow> code (s ! k) \<le> code (w ! k) \<and> code (w ! k) \<le> code (e ! k))"
proof (induction k arbitrary: s w e)
  case 0
  then show ?case by (cases s; cases w; cases e) auto
next
  case (Suc k)
  show ?case
  proof (cases s)
    case (Cons a s')
    then obtain b w' c e' where w: "w = b # w'" "e = c # e'" using Suc.prems by (cases w; cases e) auto
    have ac: "a = c" "take k s' = take k e'" using Suc.prems(3) Cons w by auto
    have b: "b = a" using Suc.prems(4,5) Cons w ac(1) by auto
    with Suc.prems Cons w ac Suc.IH [of w' s' e'] show ?thesis by auto
  qed (use Suc.prems in auto)
qed

lemma distinct_words:
  fixes x y p :: char and s' e' w' :: string
  defines "inside \<equiv> (x # s' = p # w' \<or> lexlt (x # s') (p # w')) \<and> (p # w' = y # e' \<or> lexlt (p # w') (y # e'))"
    and "found \<equiv> p # w' = x # s' \<or> p # w' = y # e' \<or> code x < code p \<and> code p < code y
      \<or> p = x \<and> lexlt (x # s') (p # w') \<or> p = y \<and> lexlt (p # w') (y # e')"
  assumes le: "lexlt (x # s') (y # e')"
  shows "inside \<Longrightarrow> found" and "found \<Longrightarrow> code x < code y \<Longrightarrow> inside"
  using le unfolding inside_def found_def by auto

text \<open>The patterns of one length match the numbers between its bounds; and only those, unless the bounds
  share a first digit without being equal or having two digits.\<close>

lemma patterns_of_len_accepts:
  fixes lower upper ll ul len
  defines "start \<equiv> if len = ll then lower else 10 ^ (len - 1)" and "fin \<equiv> if len = ul then upper else 10 ^ len - 1"
  defines "s \<equiv> show_nat start" and "e \<equiv> show_nat fin"
  assumes ok: "bounds_ok s e" and len: "length s = len"
  shows "between s e w \<Longrightarrow> accepts_any (patterns_of_len lower upper ll ul len) w"
    and "accepts_any (patterns_of_len lower upper ll ul len) w \<Longrightarrow> len \<le> 2 \<or> s = e \<or> hd s \<noteq> hd e \<Longrightarrow> between s e w"
proof -
  let ?P = "patterns_of_len lower upper ll ul len" and ?L = "int len" and ?k = "common_prefix s e"
  let ?exact = "len \<le> 2 \<or> s = e \<or> hd s \<noteq> hd e"
  have b: "digits s" "digits e" "length e = length s" "s \<noteq> []" "e \<noteq> []" "length s < 2 ^ 64" "num s \<le> num e"
    using ok by (auto simp: bounds_ok_def)
  have n: "num s = start" "num e = fin" by (simp_all add: s_def e_def)
  have lens: "0 < len" "length e = len" using b len by auto
  have P: "?P = (if len = 1 then [make_pattern (s ! 0) (e ! 0) 0]
        else if ?k = len then [s]
        else if 0 < ?k \<and> len - 2 \<le> ?k then [take ?k s @ make_pattern (s ! ?k) (e ! ?k) (?L - int ?k - 1)]
        else if len = ll \<and> len = ul then push_full_len_patterns start fin (10 ^ (len - 1)) (10 ^ len - 1) s e ?L
        else if len = ll then
            (if start = 10 ^ (len - 1) then [''[1-9]'' @ any_digits (?L - 1)] else push_start_open s ?L @ [s])
        else if len = ul then
            (if fin = 10 ^ len - 1 then [''[1-9]'' @ any_digits (?L - 1)] else push_end_open e ?L @ [e])
        else [''[1-9]'' @ any_digits (?L - 1)])"
    unfolding patterns_of_len_def s_def e_def start_def fin_def by (simp only: Let_def)
  have k: "?k \<le> len" "take ?k s = take ?k e" "?k < len \<Longrightarrow> s ! ?k \<noteq> e ! ?k"
    using common_prefix_spec [of s e] b(3) len by auto
  have at: "pattern_accepts (take i s @ make_pattern (s ! i) (e ! i) (?L - int i - 1)) w \<longleftrightarrow>
      length w = len \<and> digits w \<and> take i w = take i s \<and> code (s ! i) \<le> code (w ! i) \<and> code (w ! i) \<le> code (e ! i)" if "i < len" for i
    using pattern_at [of i s "s ! i" "e ! i" w] that b digits_nth [of s i] digits_nth [of e i] len by simp
  have lex: "between s e w \<longleftrightarrow> length w = len \<and> digits w \<and> (s = w \<or> lexlt s w) \<and> (w = e \<or> lexlt w e)"
    using between_lex [OF ok] len by simp
  have max: "fin = 10 ^ len - 1" if "len \<noteq> ul" using that by (simp add: fin_def)
  have min: "start = 10 ^ (len - 1)" if "len \<noteq> ll" using that by (simp add: start_def)
  have main: "(between s e w \<longrightarrow> accepts_any ?P w) \<and> (accepts_any ?P w \<longrightarrow> ?exact \<longrightarrow> between s e w)"
  proof -
    consider (one) "len = 1" | (same) "len \<noteq> 1" "?k = len" | (pre) "len \<noteq> 1" "?k < len" "0 < ?k" "len - 2 \<le> ?k"
      | (rest) "len \<noteq> 1" "?k \<noteq> len" "\<not> (0 < ?k \<and> len - 2 \<le> ?k)" using k(1) by fastforce
    then show ?thesis
    proof cases
      case one
      obtain a c where ac: "s = [a]" "e = [c]" using one len b(3) by (cases s; cases e) auto
      have "accepts_any ?P w \<longleftrightarrow> length w = 1 \<and> digits w \<and> code a \<le> code (w ! 0) \<and> code (w ! 0) \<le> code c"
        using at [of 0] one ac unfolding P by simp
      also have "\<dots> \<longleftrightarrow> length w = len \<and> digits w \<and> (s = w \<or> lexlt s w) \<and> (w = e \<or> lexlt w e)"
        using ac one by (cases w) (auto simp: le_less)
      also have "\<dots> \<longleftrightarrow> between s e w" by (simp only: lex)
      finally show ?thesis by blast
    next
      case same
      have "take len s = take len e" using k(2) unfolding same(2) .
      then have "s = e" unfolding take_all [OF eq_refl [OF len]] take_all [OF eq_refl [OF lens(2)]] .
      then have "between s e w \<longleftrightarrow> w = s" using num_inj [of w s] b(1) by (auto simp: between_def)
      moreover have "accepts_any ?P w \<longleftrightarrow> w = s" unfolding P using same pattern_literal [OF b(1)] by simp
      ultimately show ?thesis by blast
    next
      case pre
      have a: "accepts_any ?P w \<longleftrightarrow> length w = len \<and> digits w \<and> take ?k w = take ?k s \<and> code (s ! ?k) \<le> code (w ! ?k) \<and> code (w ! ?k) \<le> code (e ! ?k)"
        unfolding P using pre at [OF pre(2)] by simp
      have "accepts_any ?P w" if bt: "between s e w"
      proof -
        have w: "length w = length s" "digits w" "s = w \<or> lexlt s w" "w = e \<or> lexlt w e" using bt len unfolding lex by auto
        from between_prefix [OF w(1) b(3) k(2) w(3,4)] pre(2) len w(1,2) show ?thesis unfolding a by simp
      qed
      moreover have "between s e w" if acc: "accepts_any ?P w" and ex: "?exact"
      proof -
        have "s \<noteq> e" using k(3) [OF pre(2)] by auto
        have "hd s = hd e" using k(2) pre(3) b(4,5) by (cases s; cases e) (auto simp: take_Cons')
        with ex \<open>s \<noteq> e\<close> have l2: "len = 2" "?k = 1" using pre by linarith+
        obtain x y where s2: "s = [x, y]" using l2(1) len by (auto simp: numeral_2_eq_2 length_Suc_conv)
        obtain x' y' where e2: "e = [x', y']" using l2(1) lens(2) by (auto simp: numeral_2_eq_2 length_Suc_conv)
        from acc a obtain p q where w2: "w = [p, q]" using l2(1) by (auto simp: numeral_2_eq_2 length_Suc_conv)
        have "x' = x" using k(2) l2(2) s2 e2 by simp
        with acc a l2 s2 e2 w2 show ?thesis unfolding lex by (auto simp: le_less)
      qed
      ultimately show ?thesis by blast
    next
      case rest
      have two: "2 \<le> len" "1 < length s" using rest(1) lens(1) len by auto
      have ne: "s \<noteq> e" using rest(2) common_prefix_spec [of s s] k len by (metis nat_less_le)
      have not_max: "start \<noteq> 10 ^ len - 1"
      proof
        assume "start = 10 ^ len - 1"
        moreover have "num e < 10 ^ len" using num_bound [OF b(2)] lens(2) by simp
        ultimately have "num s = num e" using b(7) n by linarith
        with num_inj [OF b(1,2)] b(3) ne show False by simp
      qed
      note full = accepts_all_digits [OF ok two(2), of w] and lo = accepts_from_min [OF ok, of w] and hi = accepts_to_max [OF ok, of w]
      note di = accepts_distinct_first [OF ok, of w]
      consider "start = 10 ^ (len - 1)" "fin = 10 ^ len - 1" | "start = 10 ^ (len - 1)" "fin \<noteq> 10 ^ len - 1"
        | "start \<noteq> 10 ^ (len - 1)" "fin = 10 ^ len - 1" | "start \<noteq> 10 ^ (len - 1)" "fin \<noteq> 10 ^ len - 1" by blast
      then show ?thesis
      proof cases
        case 1
        then have "?P = [''[1-9]'' @ any_digits (?L - 1)]" unfolding P push_full_len_patterns_def using rest not_max by auto
        with full 1 n len show ?thesis by simp
      next
        case 2
        then have "?P = push_end_open e ?L @ [e]" unfolding P push_full_len_patterns_def using rest max not_max by auto
        with lo 2 n len show ?thesis by simp
      next
        case 3
        then have "?P = push_start_open s ?L @ [s]" unfolding P push_full_len_patterns_def using rest min not_max by auto
        with hi 3 n len show ?thesis by simp
      next
        case 4
        then have "?P = push_full_distinct_first s e ?L" unfolding P push_full_len_patterns_def using rest min max not_max by auto
        with di two(1) len have a: "accepts_any ?P w \<longleftrightarrow> length w = len \<and> digits w \<and> (w = s \<or> w = e
            \<or> code (s ! 0) < code (w ! 0) \<and> code (w ! 0) < code (e ! 0)
            \<or> w ! 0 = s ! 0 \<and> lexlt s w \<or> w ! 0 = e ! 0 \<and> lexlt w e)" by simp
        obtain x s' y e' where se: "s = x # s'" "e = y # e'" using b(4,5) by (cases s; cases e) auto
        have le: "lexlt s e" using num_le_iff [OF b(1,2)] b(3,7) ne by auto
        have "x \<noteq> y" if ?exact
        proof (cases "len \<le> 2")
          case True
          then have "?k = 0" using rest(3) by auto
          with k(3) two se show ?thesis by simp
        qed (use that ne se in auto)
        moreover have "code x < code y \<or> x = y" using le [unfolded se] unfolding lexlt.simps by blast
        ultimately have "?exact \<Longrightarrow> code x < code y" by blast
        show ?thesis
        proof (cases "length w = len \<and> digits w")
          case True
          then obtain p w' where w: "w = p # w'" using two(1) by (cases w) auto
          let ?inside = "(x # s' = p # w' \<or> lexlt (x # s') (p # w')) \<and> (p # w' = y # e' \<or> lexlt (p # w') (y # e'))"
          let ?found = "p # w' = x # s' \<or> p # w' = y # e' \<or> code x < code p \<and> code p < code y
            \<or> p = x \<and> lexlt (x # s') (p # w') \<or> p = y \<and> lexlt (p # w') (y # e')"
          have "between s e w \<longleftrightarrow> ?inside" unfolding lex unfolding se w using True [unfolded w] by (simp del: lexlt.simps)
          moreover have "accepts_any ?P w \<longleftrightarrow> ?found" unfolding a unfolding se w nth_Cons_0 using True [unfolded w] by (simp del: lexlt.simps)
          moreover have "?inside \<Longrightarrow> ?found" by (rule distinct_words(1) [OF le [unfolded se]])
          moreover have "?found \<Longrightarrow> ?exact \<Longrightarrow> ?inside"
            using distinct_words(2) [OF le [unfolded se], of p w'] \<open>?exact \<Longrightarrow> code x < code y\<close> by simp
          ultimately show ?thesis by blast
        next
          case False
          then show ?thesis unfolding a lex by blast
        qed
      qed
    qed
  qed
  then show "between s e w \<Longrightarrow> accepts_any ?P w" and "accepts_any ?P w \<Longrightarrow> ?exact \<Longrightarrow> between s e w" by blast+
qed

subsection \<open>All lengths\<close>

lemma bounds_of_len:
  assumes "0 < lower" "lower \<le> upper" "upper < 10 ^ 18" and len: "length (show_nat lower) \<le> len" "len \<le> length (show_nat upper)"
  defines "start \<equiv> if len = length (show_nat lower) then lower else 10 ^ (len - 1)"
    and "fin \<equiv> if len = length (show_nat upper) then upper else 10 ^ len - 1"
  shows "bounds_ok (show_nat start) (show_nat fin) \<and> length (show_nat start) = len \<and> lower \<le> start \<and> fin \<le> upper
    \<and> start \<le> fin \<and> 10 ^ (len - 1) \<le> start \<and> fin < 10 ^ len"
proof -
  let ?ll = "length (show_nat lower)" and ?ul = "length (show_nat upper)"
  have pos: "0 < len" "0 < ?ll" "0 < ?ul" using len by (simp_all add: show_radix_ne) (metis gr0I le_zero_eq length_0_conv show_radix_ne)
  have lb: "10 ^ (?ll - 1) \<le> lower" "lower < 10 ^ ?ll" using length_show_nat [of lower ?ll] assms(1) pos by auto
  have ub: "10 ^ (?ul - 1) \<le> upper" "upper < 10 ^ ?ul" using length_show_nat [of upper ?ul] assms(1,2) pos by auto
  have p: "(10 :: nat) ^ (len - 1) < 10 ^ len" using pos by (intro power_strict_increasing) auto
  have start: "lower \<le> start \<and> 10 ^ (len - 1) \<le> start \<and> start < 10 ^ len"
  proof (cases "len = ?ll")
    case False
    with len(1) have "?ll \<le> len - 1" by linarith
    then have "(10 :: nat) ^ ?ll \<le> 10 ^ (len - 1)" by (rule power_increasing) simp
    with lb(2) have "lower \<le> 10 ^ (len - 1)" by linarith
    with p False show ?thesis by (simp add: start_def)
  qed (use lb in \<open>simp add: start_def\<close>)
  have fin: "fin \<le> upper \<and> 10 ^ (len - 1) \<le> fin \<and> fin < 10 ^ len"
  proof (cases "len = ?ul")
    case False
    with len(2) have "len \<le> ?ul - 1" by linarith
    then have "(10 :: nat) ^ len \<le> 10 ^ (?ul - 1)" by (rule power_increasing) simp
    with ub(1) have "10 ^ len - 1 \<le> upper" by linarith
    moreover have "(10 :: nat) ^ (len - 1) \<le> 10 ^ len - 1" using p by linarith
    ultimately show ?thesis using False by (simp add: fin_def)
  qed (use ub in \<open>simp add: fin_def\<close>)
  have le: "start \<le> fin" using start fin assms(2) by (auto simp: start_def fin_def)
  have "0 < start" using start by (meson less_le_trans zero_less_numeral zero_less_power)
  then have ls: "length (show_nat start) = len" "length (show_nat fin) = len"
    using length_show_nat [of start len] length_show_nat [of fin len] start fin le pos(1) by auto
  have "len < 2 ^ 64"
  proof -
    have "(10 :: nat) ^ (?ul - 1) < 10 ^ 18" using ub(1) assms(3) by linarith
    then have "?ul - 1 < 18" by (rule power_less_imp_less_exp [rotated]) simp
    with len(2) show ?thesis by simp
  qed
  then have "bounds_ok (show_nat start) (show_nat fin)"
    using ls le \<open>0 < start\<close> show_nat_hd [of start] show_nat_hd [of fin] by (simp add: bounds_ok_def show_radix_ne)
  with start fin le ls show ?thesis by blast
qed

lemma number_patterns_complete:
  assumes "0 < lower" "lower \<le> n" "n \<le> upper" "upper < 10 ^ 18"
  shows "accepts_any (generate_number_patterns lower upper) (show_nat n)"
proof -
  let ?ll = "length (show_nat lower)" and ?ul = "length (show_nat upper)" and ?len = "length (show_nat n)"
  have mono: "length (show_nat a) \<le> length (show_nat b)" if "0 < a" "a \<le> b" for a b
  proof -
    have "10 ^ (length (show_nat a) - 1) \<le> a" "b < 10 ^ length (show_nat b)"
      using length_show_nat [of a "length (show_nat a)"] length_show_nat [of b "length (show_nat b)"] that by (auto simp: show_radix_ne)
    with that(2) have "(10 :: nat) ^ (length (show_nat a) - 1) < 10 ^ length (show_nat b)" by linarith
    then have "length (show_nat a) - 1 < length (show_nat b)" by (simp add: power_strict_increasing_iff)
    then show ?thesis by linarith
  qed
  have len: "?ll \<le> ?len" "?len \<le> ?ul" using mono [of lower n] mono [of n upper] assms by auto
  note b = bounds_of_len [OF assms(1) _ assms(4) len]
  have nb: "10 ^ (?len - 1) \<le> n" "n < 10 ^ ?len" using length_show_nat [of n ?len] assms by (auto simp: show_radix_ne)
  define start where "start = (if ?len = ?ll then lower else 10 ^ (?len - 1))"
  define fin where "fin = (if ?len = ?ul then upper else 10 ^ ?len - 1)"
  have "start \<le> n" "n \<le> fin" using nb assms(2,3) by (auto simp: start_def fin_def)
  then have "between (show_nat start) (show_nat fin) (show_nat n)"
    using b assms(2,3) unfolding start_def [symmetric] fin_def [symmetric] by (auto simp: between_def)
  then have "accepts_any (patterns_of_len lower upper ?ll ?ul ?len) (show_nat n)"
    using patterns_of_len_accepts(1) [where lower = lower and upper = upper and ll = ?ll and ul = ?ul and len = ?len and w = "show_nat n"] b assms(2,3)
    unfolding start_def [symmetric] fin_def [symmetric] by auto
  moreover have "?len \<in> set [?ll..<?ul + 1]" using len by auto
  ultimately show ?thesis unfolding generate_number_patterns_def Let_def accepts_any_concat by blast
qed

text \<open>Bounds at which no length is cut short: the two are of different lengths and no power of ten is
  near enough to share a digit, or their first digits differ, or they have at most two digits.\<close>

definition clean_bounds :: "nat \<Rightarrow> nat \<Rightarrow> bool" where
  "clean_bounds lower upper \<longleftrightarrow>
    (let s = show_nat lower; e = show_nat upper
     in if length s = length e then length s \<le> 2 \<or> s = e \<or> hd s \<noteq> hd e
        else (length s \<le> 2 \<or> hd s \<noteq> CHR ''9'') \<and> (length e \<le> 2 \<or> hd e \<noteq> CHR ''1''))"

lemma show_pow: "show_nat (10 ^ l) = CHR ''1'' # replicate l CHR ''0''"
proof -
  have z: "num (replicate l CHR ''0'') = 0" by (induction l) auto
  have "digits (CHR ''1'' # replicate l CHR ''0'')" by (auto simp: is_digit_def list_all_iff)
  from show_num [OF this] z show ?thesis by simp
qed

lemma show_pow_pred: "0 < l \<Longrightarrow> show_nat (10 ^ l - 1) = replicate l CHR ''9''"
proof -
  assume l: "0 < l"
  have "num (replicate k CHR ''9'') + 1 = 10 ^ k" for k by (induction k) auto
  then have n: "num (replicate l CHR ''9'') = 10 ^ l - 1" by (metis add_diff_cancel_right')
  have "digits (replicate l CHR ''9'')" by (auto simp: is_digit_def list_all_iff)
  from show_num [OF this] n l show ?thesis by simp
qed

lemma number_patterns_sound:
  assumes b: "0 < lower" "lower \<le> upper" "upper < 10 ^ 18" and clean: "clean_bounds lower upper"
    and acc: "accepts_any (generate_number_patterns lower upper) w"
  shows "\<exists>n. lower \<le> n \<and> n \<le> upper \<and> w = show_nat n"
proof -
  let ?ll = "length (show_nat lower)" and ?ul = "length (show_nat upper)"
  obtain len where "len \<in> set [?ll..<?ul + 1]" and a: "accepts_any (patterns_of_len lower upper ?ll ?ul len) w"
    using acc unfolding generate_number_patterns_def Let_def accepts_any_concat by blast
  then have len: "?ll \<le> len" "len \<le> ?ul" by auto
  define start where "start = (if len = ?ll then lower else 10 ^ (len - 1))"
  define fin where "fin = (if len = ?ul then upper else 10 ^ len - 1)"
  note bd = bounds_of_len [OF b len, folded start_def fin_def]
  have pos: "0 < len" using bd by (auto simp: bounds_ok_def)
  have nine: "len \<noteq> ?ul \<Longrightarrow> hd (show_nat fin) = CHR ''9''" using show_pow_pred [OF pos] pos by (simp add: fin_def)
  have one: "len \<noteq> ?ll \<Longrightarrow> hd (show_nat start) = CHR ''1''" using show_pow [of "len - 1"] by (simp add: start_def)
  have "len \<le> 2 \<or> show_nat start = show_nat fin \<or> hd (show_nat start) \<noteq> hd (show_nat fin)"
  proof (cases "?ll = ?ul")
    case True
    then have "len = ?ll" "len = ?ul" using len by linarith+
    with clean show ?thesis by (simp add: clean_bounds_def start_def fin_def Let_def)
  next
    case False
    with clean have c: "?ll \<le> 2 \<or> hd (show_nat lower) \<noteq> CHR ''9''" "?ul \<le> 2 \<or> hd (show_nat upper) \<noteq> CHR ''1''"
      by (simp_all add: clean_bounds_def Let_def)
    consider "len = ?ll" "len \<noteq> ?ul" | "len \<noteq> ?ll" "len = ?ul" | "len \<noteq> ?ll" "len \<noteq> ?ul" using False by metis
    then show ?thesis
    proof cases
      case 1
      then show ?thesis using nine c(1) by (auto simp: start_def)
    next
      case 2
      then show ?thesis using one c(2) by (auto simp: fin_def)
    next
      case 3
      then show ?thesis using one nine by auto
    qed
  qed
  then have bt: "between (show_nat start) (show_nat fin) w"
    using patterns_of_len_accepts(2) [where lower = lower and upper = upper and ll = ?ll and ul = ?ul and len = len and w = w] bd a
    unfolding start_def [symmetric] fin_def [symmetric] by blast
  then have w: "digits w" "length w = len" "start \<le> num w" "num w \<le> fin" using bd by (auto simp: between_def)
  have ne: "w \<noteq> []" using w(2) pos by auto
  have "10 ^ (length w - 1) \<le> num w" using bd w by auto
  then have "show_nat (num w) = w" using show_num [OF w(1) ne] hd_num [OF w(1) ne] by blast
  moreover have "lower \<le> num w" "num w \<le> upper" using bd w by auto
  ultimately show ?thesis by metis
qed

subsection \<open>The expression of a bounded range\<close>

definition plain :: "string \<Rightarrow> bool" where
  "plain p \<longleftrightarrow> (\<forall>c\<in>set p. c \<noteq> CHR ''|'' \<and> c \<noteq> CHR ''('' \<and> c \<noteq> CHR '')'')"

lemma plain_simps [simp]: "plain []" "plain (c # p) \<longleftrightarrow> c \<noteq> CHR ''|'' \<and> c \<noteq> CHR ''('' \<and> c \<noteq> CHR '')'' \<and> plain p"
  "plain (p @ q) \<longleftrightarrow> plain p \<and> plain q"
  by (auto simp: plain_def)

lemma digit_plain_char: "is_digit c \<Longrightarrow> c \<noteq> CHR ''|'' \<and> c \<noteq> CHR ''('' \<and> c \<noteq> CHR '')''"
  using digit_plain [of c] by simp

lemma digits_plain: "digits p \<Longrightarrow> plain p"
  using digit_plain_char by (auto simp: plain_def list_all_iff)

lemma plain_any_digits: "0 \<le> n \<Longrightarrow> plain (any_digits n)"
  by (simp add: any_digits_def d_class_def show_int_def digits_plain)

lemma plain_make: "is_digit a \<Longrightarrow> is_digit b \<Longrightarrow> plain (make_pattern a b n)"
  using digit_plain_char [of a] digit_plain_char [of b] plain_any_digits [of n] by (auto simp: make_pattern_def)

lemma plain_above: "digits s \<Longrightarrow> i < length s \<Longrightarrow> \<forall>p\<in>set (above_at s n i). plain p"
  using next_prev(1) [of "s ! i"] digits_nth [of s i] digits_plain [OF digits_take, of s i]
  by (auto simp: above_at_def is_digit_def intro!: plain_make)

lemma plain_below: "digits s \<Longrightarrow> i < length s \<Longrightarrow> \<forall>p\<in>set (below_at s n i). plain p"
  using next_prev(2) [of "s ! i"] digits_nth [of s i] digits_plain [OF digits_take, of s i]
  by (auto simp: below_at_def is_digit_def intro!: plain_make)

lemma plain_open:
  assumes "digits s"
  shows "\<forall>p\<in>set (push_start_open s n). plain p" and "\<forall>p\<in>set (push_end_open s n). plain p"
  using plain_above [OF assms] plain_below [OF assms] by (auto simp: push_start_open_def push_end_open_def)

lemma plain_distinct:
  assumes "digits s" "digits e" "length e = length s" "2 \<le> length s"
  shows "\<forall>p\<in>set (push_full_distinct_first s e n). plain p"
proof -
  have i: "0 < length s" "1 < length s" "0 < length e" "1 < length e" using assms by auto
  have d: "is_digit (s ! 0)" "is_digit (s ! 1)" "is_digit (e ! 0)" "is_digit (e ! 1)"
    using digits_nth assms(1,2) i by blast+
  have mid: "1 < int (code (e ! 0)) - int (code (s ! 0)) \<Longrightarrow> plain (make_pattern (next_char (s ! 0)) (prev_char (e ! 0)) m)" for m
    using next_prev(1) [OF d(1)] next_prev(2) [OF d(3)] d(1,3) by (intro plain_make) (auto simp: is_digit_def)
  have up: "code (s ! 1) < 57 \<Longrightarrow> plain (make_pattern (next_char (s ! 1)) CHR ''9'' m)" for m
    using next_prev(1) [OF d(2)] by (intro plain_make) (auto simp: is_digit_def)
  have down: "48 < code (e ! 1) \<Longrightarrow> plain (make_pattern CHR ''0'' (prev_char (e ! 1)) m)" for m
    using next_prev(2) [OF d(4)] by (intro plain_make) (auto simp: is_digit_def)
  show ?thesis
    using mid up down plain_above [OF assms(1)] plain_below [OF assms(2)] assms(1,2) digits_plain digits_plain [OF digits_take]
    unfolding push_full_distinct_first_def by (auto split: if_splits)
qed

lemma plain_of_len:
  assumes ok: "bounds_ok (show_nat (if len = ll then lower else 10 ^ (len - 1))) (show_nat (if len = ul then upper else 10 ^ len - 1))"
    and len: "length (show_nat (if len = ll then lower else 10 ^ (len - 1))) = len"
  shows "\<forall>p\<in>set (patterns_of_len lower upper ll ul len). plain p"
proof -
  define s where "s = show_nat (if len = ll then lower else 10 ^ (len - 1))"
  define e where "e = show_nat (if len = ul then upper else 10 ^ len - 1)"
  have "0 < len" using len show_radix_ne [of 10] by (metis length_greater_0_conv)
  then have b: "digits s" "digits e" "length s = len" "length e = len" "0 < len"
    using ok len by (auto simp: bounds_ok_def s_def e_def)
  have one: "plain (make_pattern (s ! i) (e ! i) n)" if "i < len" for i n
    using b that by (intro plain_make) (auto intro: digits_nth)
  have k: "common_prefix s e \<le> len" using common_prefix_spec [of s e] b by simp
  have all: "1 < len \<Longrightarrow> plain (''[1-9]'' @ any_digits (int len - 1))" using plain_any_digits by simp
  have full: "\<forall>p\<in>set (push_full_len_patterns a c mn mx s e (int len)). plain p" if "1 < len" for a c mn mx
    unfolding push_full_len_patterns_def using that all plain_open [OF b(1)] plain_open [OF b(2)] digits_plain b(1,2)
      plain_distinct [OF b(1,2)] b(3,4) by auto
  have t: "take j s = [] \<or> plain (take j s)" for j using digits_plain [OF digits_take [OF b(1)]] by blast
  have tp: "plain (take j s)" for j using digits_plain [OF digits_take [OF b(1)]] .
  show ?thesis
    unfolding patterns_of_len_def s_def [symmetric] e_def [symmetric] Let_def
    using one [of 0] one [of "common_prefix s e"] k b(5) all full plain_open [OF b(1)] plain_open [OF b(2)] digits_plain [OF b(1)] digits_plain [OF b(2)] tp
    by (auto simp: le_less)
qed

lemma plain_number_patterns:
  assumes "0 < lower" "lower \<le> upper" "upper < 10 ^ 18"
  shows "\<forall>p\<in>set (generate_number_patterns lower upper). plain p"
  using plain_of_len bounds_of_len [OF assms] unfolding generate_number_patterns_def Let_def by fastforce

text \<open>Splitting an alternation at its top level.\<close>

lemma alternatives_ne: "alternatives d r \<noteq> []"
  by (cases r) (auto simp: Let_def)

lemma alternatives_plain: "plain p \<Longrightarrow> alternatives d (p @ r) = (p @ hd (alternatives d r)) # tl (alternatives d r)"
  by (induction p) (simp_all add: alternatives_ne Let_def)

lemma alternatives_inner:
  "\<forall>c\<in>set p. c \<noteq> CHR ''('' \<and> c \<noteq> CHR '')'' \<Longrightarrow>
   alternatives (Suc d) (p @ r) = (p @ hd (alternatives (Suc d) r)) # tl (alternatives (Suc d) r)"
  by (induction p) (simp_all add: alternatives_ne Let_def)

lemma alternatives_group:
  assumes "plain sign" and "\<forall>c\<in>set body. c \<noteq> CHR ''('' \<and> c \<noteq> CHR '')''"
  shows "alternatives 0 (sign @ ''('' @ body @ '')'' @ r) = (sign @ ''('' @ body @ '')'' @ hd (alternatives 0 r)) # tl (alternatives 0 r)"
  using alternatives_inner [OF assms(2), of 0 "CHR '')'' # r"] by (simp add: alternatives_plain [OF assms(1)] Let_def)

lemma alternatives_join: "\<forall>p\<in>set ps. plain p \<Longrightarrow> ps \<noteq> [] \<Longrightarrow> alternatives 0 (join_bar ps) = ps"
proof (induction ps rule: join_bar.induct)
  case (2 p)
  then show ?case using alternatives_plain [of p 0 "[]"] by simp
next
  case (3 p q ps)
  then show ?case using alternatives_plain [of p 0 "CHR ''|'' # join_bar (q # ps)"] by simp
qed simp

lemma join_bar_set: "set (join_bar ps) \<subseteq> insert CHR ''|'' (\<Union>p\<in>set ps. set p)"
  by (induction ps rule: join_bar.induct) auto

lemma join_bar_chars:
  assumes "\<forall>p\<in>set ps. plain p"
  shows "\<forall>c\<in>set (join_bar ps). c \<noteq> CHR ''('' \<and> c \<noteq> CHR '')''"
proof
  fix c
  assume "c \<in> set (join_bar ps)"
  with join_bar_set [of ps] consider "c = CHR ''|''" | p where "p \<in> set ps" "c \<in> set p" by blast
  then show "c \<noteq> CHR ''('' \<and> c \<noteq> CHR '')''" using assms by cases (auto simp: plain_def)
qed

definition part_ok :: "string \<Rightarrow> bool" where
  "part_ok p \<longleftrightarrow> plain p \<or> (\<exists>sign body. p = sign @ ''('' @ body @ '')'' \<and> plain sign
     \<and> (\<forall>c\<in>set body. c \<noteq> CHR ''('' \<and> c \<noteq> CHR '')''))"

lemma alternatives_part: "part_ok p \<Longrightarrow> alternatives 0 (p @ r) = (p @ hd (alternatives 0 r)) # tl (alternatives 0 r)"
  using alternatives_plain [of p 0 r] alternatives_group [of _ _ r] by (auto simp: part_ok_def)

lemma alternatives_parts: "\<forall>p\<in>set ps. part_ok p \<Longrightarrow> ps \<noteq> [] \<Longrightarrow> alternatives 0 (join_bar ps) = ps"
proof (induction ps rule: join_bar.induct)
  case (2 p)
  then show ?case using alternatives_part [of p "[]"] by simp
next
  case (3 p q ps)
  then show ?case using alternatives_part [of p "CHR ''|'' # join_bar (q # ps)"] by simp
qed simp

lemma regex_accepts_parts:
  assumes "\<forall>p\<in>set ps. part_ok p" and "p \<in> set ps" and "part_accepts p w"
  shows "regex_accepts (anchored ps) w"
proof -
  have "drop 2 (anchored ps) = join_bar ps @ '')$''" by (simp add: anchored_def numeral_2_eq_2)
  then have "butlast (butlast (drop 2 (anchored ps))) = join_bar ps" by (simp add: butlast_append)
  moreover have "alternatives 0 (join_bar ps) = ps" using alternatives_parts [OF assms(1)] assms(2) by (metis list.set_cases neq_Nil_conv)
  ultimately show ?thesis using assms(2,3) by (auto simp: regex_accepts_def list_ex_iff)
qed

lemma sub_range_part_ok:
  assumes "0 < lower" "lower \<le> upper" "upper < 10 ^ 18" and "plain sign"
  shows "part_ok (sign @ generate_sub_range_regex lower upper)"
  using join_bar_chars [OF plain_number_patterns [OF assms(1-3)]] assms(4)
  by (auto simp: part_ok_def generate_sub_range_regex_def)

lemma sub_range_accepts:
  assumes "0 < lower" "lower \<le> n" "n \<le> upper" "upper < 10 ^ 18"
  shows "group_accepts (generate_sub_range_regex lower upper) (show_nat n)"
proof -
  let ?ps = "generate_number_patterns lower upper"
  have pl: "\<forall>p\<in>set ?ps. plain p" using assms by (intro plain_number_patterns) simp_all
  have acc: "accepts_any ?ps (show_nat n)" by (rule number_patterns_complete [OF assms])
  then have "?ps \<noteq> []" by (auto simp: accepts_any_def)
  then have "alternatives 0 (join_bar ?ps) = ?ps" using alternatives_join [OF pl] by blast
  then show ?thesis using acc by (simp add: generate_sub_range_regex_def accepts_any_def list_ex_iff)
qed

lemma part_accepts_plain: "group_accepts p w \<Longrightarrow> hd p \<noteq> CHR ''-'' \<Longrightarrow> part_accepts p w"
  by (auto simp: part_accepts_def split: list.splits)

lemma part_accepts_minus: "group_accepts p w \<Longrightarrow> part_accepts (''-'' @ p) (CHR ''-'' # w)"
  by (simp add: part_accepts_def)

lemma range_between_parts:
  assumes "s \<le> e" "- (10 ^ 18) < s" "e < 10 ^ 18"
  shows "\<forall>p\<in>set (range_between s e). part_ok p"
proof -
  have neg: "s < 0 \<Longrightarrow> part_ok (''-'' @ generate_sub_range_regex (nat (- min (- 1) e)) (nat (- s)))"
    using assms by (intro sub_range_part_ok) auto
  have pos: "0 < e \<Longrightarrow> part_ok ([] @ generate_sub_range_regex (nat (max 1 s)) (nat e))"
    using assms by (intro sub_range_part_ok) auto
  have zero: "part_ok ''0''" by (simp add: part_ok_def)
  show ?thesis using neg pos zero by (auto simp: range_between_def)
qed

lemma range_between_accepts:
  assumes "s \<le> n" "n \<le> e" "- (10 ^ 18) < s" "e < 10 ^ 18"
  shows "\<exists>p\<in>set (range_between s e). part_accepts p (show_int n)"
proof -
  consider "n < 0" | "n = 0" | "0 < n" by linarith
  then show ?thesis
  proof cases
    case 1
    have "group_accepts (generate_sub_range_regex (nat (- min (- 1) e)) (nat (- s))) (show_nat (nat (- n)))"
      using assms 1 by (intro sub_range_accepts) auto
    then have "part_accepts (''-'' @ generate_sub_range_regex (nat (- min (- 1) e)) (nat (- s))) (show_int n)"
      using part_accepts_minus 1 by (simp add: show_int_def)
    then show ?thesis using 1 assms by (intro bexI) (auto simp: range_between_def)
  next
    case 2
    have "show_nat 0 = ''0''" by code_simp
    moreover have "group_accepts ''0'' ''0''" using pattern_literal [of "''0''" "''0''"] by (simp add: is_digit_def)
    ultimately have "part_accepts ''0'' (show_int n)" using 2 by (simp add: part_accepts_def show_int_def)
    then show ?thesis using 2 assms by (intro bexI) (auto simp: range_between_def)
  next
    case 3
    have g: "group_accepts (generate_sub_range_regex (nat (max 1 s)) (nat e)) (show_nat (nat n))"
      using assms 3 by (intro sub_range_accepts) auto
    have "part_accepts (generate_sub_range_regex (nat (max 1 s)) (nat e)) (show_int n)"
      using part_accepts_plain [OF g] 3 by (simp add: show_int_def generate_sub_range_regex_def)
    then show ?thesis using 3 assms by (intro bexI) (auto simp: range_between_def)
  qed
qed

end
