(* ===== verification/Range_Props.thy ===== *)
theory Range_Props
  imports Range_Numbers "HOL-Library.Code_Target_Nat"
begin

text \<open>
  The properties of the integer ranges of the schema converter, and the inputs on which the expression
  is wrong.
\<close>

text \<open>C26: The expression generated for two bounds accepts every integer between them, in the decimal
  form without leading zeros: a schema never rejects a value it allows.\<close>

theorem range_regex_complete:
  assumes "s \<le> n" "n \<le> e" and "- (10 ^ 18) < s" "e < 10 ^ 18"
  shows "regex_accepts (generate_range_regex (Some s) (Some e)) (show_int n)"
proof -
  have le: "s \<le> e" using assms(1,2) by simp
  obtain p where p: "p \<in> set (range_between s e)" "part_accepts p (show_int n)"
    using range_between_accepts [OF assms] by blast
  from regex_accepts_parts [OF range_between_parts [OF le assms(3,4)] p] show ?thesis
    using le by (simp add: generate_range_regex_def)
qed

theorem range_regex_complete_witness:
  "regex_accepts (generate_range_regex (Some (- 250)) (Some 1234)) (show_int 987)"
  by (rule range_regex_complete) simp_all

text \<open>C27: The patterns of a positive range match its numbers and nothing else, when no length is cut
  short inside one first digit (\<open>clean_bounds\<close>): every bound of at most two digits is of this kind.\<close>

theorem range_patterns_exact:
  assumes "0 < lower" "lower \<le> upper" "upper < 10 ^ 18" and "clean_bounds lower upper"
  shows "{w. accepts_any (generate_number_patterns lower upper) w} = show_nat ` {lower..upper}"
proof (intro equalityI subsetI)
  fix w
  assume "w \<in> {w. accepts_any (generate_number_patterns lower upper) w}"
  then obtain n where "lower \<le> n" "n \<le> upper" "w = show_nat n" using number_patterns_sound [OF assms] by blast
  then show "w \<in> show_nat ` {lower..upper}" by auto
next
  fix w
  assume "w \<in> show_nat ` {lower..upper}"
  then obtain n where n: "lower \<le> n" "n \<le> upper" "w = show_nat n" by auto
  from number_patterns_complete [OF assms(1) n(1,2) assms(3)] n(3)
  show "w \<in> {w. accepts_any (generate_number_patterns lower upper) w}" by simp
qed

theorem range_patterns_exact_witness:
  "{w. accepts_any (generate_number_patterns 7 4821) w} = show_nat ` {7..4821}"
proof -
  have "clean_bounds 7 4821" by code_simp
  then show ?thesis by (intro range_patterns_exact) simp_all
qed

text \<open>Elsewhere it accepts numbers outside its bounds, or rejects numbers inside them: 120 for 123 to
  145, 19999 for 12345 to 12987, 1 from 5 upwards, -1 up to -5 and -100 up to -123; and neither -3 from -5
  upwards nor -124 up to -123.\<close>

theorem range_regex_wrong:
  "regex_accepts (generate_range_regex (Some 123) (Some 145)) ''120''
   \<and> regex_accepts (generate_range_regex (Some 12345) (Some 12987)) ''19999''
   \<and> regex_accepts (generate_range_regex (Some 5) None) ''1''
   \<and> regex_accepts (generate_range_regex None (Some (- 5))) ''-1''
   \<and> regex_accepts (generate_range_regex None (Some (- 123))) ''-100''
   \<and> \<not> regex_accepts (generate_range_regex (Some (- 5)) None) ''-3''
   \<and> \<not> regex_accepts (generate_range_regex None (Some (- 123))) ''-124''"
  by (intro conjI; code_simp)

end
