(* ===== verification/Spec2Isabelle.thy ===== *)
theory Spec2Isabelle
  imports Radix_Props Snapshot_Props Paging_Peer Kv_Pool Refcount_Ledger
    Kv_Ns Slot_Cache Ngram_Props
    Dcut_Props Draft_Tree Spec_Policy_Props Dflash_Rung Mtp_Gate_Props
    Grammar_Props Escape Range_Props
begin

text \<open>
  A verification library for the host-side core of the inference server: the caches and tiers that
  decide which state lives where, and the policy of speculative decoding. Every path below is under
  src/crates/.

  \<^bold>\<open>The program.\<close> The server keeps the attention state of a sequence in fixed-size KV blocks, shares
  the blocks of common prefixes through a radix tree over token chunks, and keeps snapshots of the
  recurrent state of hybrid models beside it. Blocks and snapshots that do not fit move to slower
  tiers: a page table maps keys to arena slots or store records, a slot cache on the NVMe path keeps
  the last written groups, and rows of large embedding tables are cached in a pinned arena. While
  it decodes, the scheduler proposes draft tokens and verifies them in batches; how many, in what
  order and whether at all is decided by small controllers. A request may ask for output in a grammar,
  a regular expression or a JSON schema: it is translated into rules, and each rule into a machine.

  \<^bold>\<open>Theories and code.\<close>
  \<^item> \<open>Prelude\<close>, \<open>Sort_By\<close>, \<open>Text_Parse\<close>: vectors as stacks, \<open>swap_remove\<close>, \<open>position\<close>, stable sorting by a
    comparison, and the parts of \<open>str\<close> the readers of environment variables use.
  \<^item> \<open>Kv_Geometry\<close>, \<open>Kv_Pool\<close> (cache/src/kv_cache.rs, kv_cache/): the storage formats and sizes of the KV
    cache; the pool of blocks with reference counts over device memory. \<open>Refcount_Ledger\<close> is the
    contract the clients of the pool rely on, a locale interpreted on the pool.
  \<^item> \<open>Radix_Tree\<close>, \<open>Radix_Inv\<close>, \<open>Radix_Owned\<close>, \<open>Radix_Walk\<close>, \<open>Radix_Props\<close> (cache/src/radix_tree/inner.rs,
    inner/evict.rs, partial_tail.rs): the prefix tree as an arena of nodes, its well-formedness, the
    multiset of blocks it owns, and what a lookup finds.
  \<^item> \<open>Snapshot_Index\<close>, \<open>Snapshot_Props\<close> (cache/src/radix_tree/snapshot*.rs): the index of recurrent-state
    snapshots with its session rules, eviction to the tier and promotion back.
  \<^item> \<open>Residency\<close>, \<open>Slot_Ledger\<close>, \<open>Residency_Inv\<close>, \<open>Residency_Content\<close>, \<open>Residency_Cap\<close>, \<open>Tier_Mem\<close>
    (storage/src/tier/residency.rs, traits.rs, mem.rs): the page table over any slot arena and any
    store, and over the host-RAM ones. The arena and the store are locales.
  \<^item> \<open>Group_Layout\<close>, \<open>Kv_Ns\<close> (storage/src/group.rs, tier/hash.rs, kv_paging/ns.rs): the addresses of KV
    groups, the hashes that name them on the wire, and the namespace settings.
  \<^item> \<open>Slot_Cache\<close> (storage/src/cascade_policy.rs), \<open>Pio\<close> (storage/src/tier/pio.rs), \<open>Ngram_Cache\<close>,
    \<open>Ngram_Props\<close> (storage/src/ngram_cache.rs, ngram_cache_fault.rs).
  \<^item> \<open>Draft_Tree\<close> (model-layers/src/speculative/tree_shape.rs), \<open>Verify_Key\<close> (speculative/verify_key.rs,
    and the graph key of model-engine), \<open>Dcut\<close>, \<open>Dcut_Props\<close> (server/src/scheduler/mtp_dcut.rs): the tree
    of drafts and its accepted path, the order and key of a batched verify, and its pruning.
  \<^item> \<open>Spec_Policy\<close>, \<open>Spec_Policy_Props\<close> (model-layers/src/speculative/ladder.rs, speculative/src/
    spec_capacity.rs, adaptive_rung.rs, ngram.rs), \<open>Dflash_Rung\<close> (dflash_rung.rs), \<open>Mtp_Gate\<close>,
    \<open>Mtp_Gate_Props\<close> (mtp_gate.rs, mtp_gate/driver.rs): the controllers.
  \<^item> \<open>Paging_Wire\<close>, \<open>Paging_Props\<close>, \<open>Paging_Peer\<close> (storage/src/snapshot_swap/wire.rs): the control protocol
    over which a client uses a page table elsewhere, and the peer that serves several connections.
  \<^item> \<open>Fsm\<close>, \<open>Fsm_Lang\<close>, \<open>Fsm_Ops\<close>, \<open>Fsm_Steps\<close> (grammar/src/fsm/edge.rs, fsm.rs, traversal.rs,
    fsm_traversal.rs, with_start_end.rs, fsm_ops.rs): machines over bytes, their language by paths, and
    the operations on them; \<open>Union_Find\<close>, \<open>Fsm_Simplify\<close>, \<open>Simplify_Props\<close>, \<open>Simplify_Cases\<close>
    (fsm/union_find.rs, simplify.rs): the passes that shrink them.
  \<^item> \<open>Utf8\<close>, \<open>Escape\<close> (grammar/src/support/encoding.rs, escape.rs), \<open>Char_Range\<close>, \<open>Range_Lang\<close>,
    \<open>Char_Words\<close>, \<open>Grammar_Data\<close>, \<open>Fsm_Build\<close>, \<open>Grammar_Props\<close> (grammar/src/grammar/data.rs, expr.rs,
    functor/char_range.rs, char_range_same_len.rs, fsm_builder.rs): from the expressions of a grammar to
    machines, with the languages they accept.
  \<^item> \<open>Range_Regex\<close>, \<open>Range_Words\<close>, \<open>Range_Numbers\<close>, \<open>Range_Props\<close> (grammar/src/schema/range_regex.rs): the
    expressions for integer ranges, a matcher for their fragment, and the numbers they accept.

  \<^bold>\<open>What the lemmas show.\<close> For each stateful component an invariant that every operation keeps
  (reference counts and the free list, ownership of slots and records, links of the tree, the map
  and the slots of a cache, the window of a gate), and on top of it what callers rely on: no block is
  handed out twice, a key reads back what was last put, a pinned slot or prefix survives, a lookup
  returns the deepest usable entry, adapters do not see each other. Where a component has a simple
  specification the code is shown to refine it: the page table refines a map, the slot cache a list
  in order of last writing, the accepted path of a draft tree greedy decoding of the target. For
  the controllers the theorems say on what evidence a decision changes, and
  that a step stays within the slots and row buffers it is planned for. For the grammar engine the
  language of a machine is defined by its paths: running it decides that language, each operation and
  builder has the language it means to have, simplification ends and loses no word. Where the code
  falls short of this, a theorem names the input: a merged start state that admits a word, ranges that
  admit numbers outside them, a stolen pin, a stale row.

  \<^bold>\<open>Modelling.\<close> A Rust struct is a record and an enum a datatype; a panic or \<open>Err\<close> is \<open>None\<close> or \<open>Inl\<close>.
  Counters, sizes and indices are naturals; the theorems about layouts state the bounds under which
  the products fit. Hashes and shift registers are words, with wrap-around. Floating point is
  an arbitrary type with the operations the code uses, and what a theorem needs of it is a named
  hypothesis (a strict weak order, sums that do not grow). Environment variables, clocks and
  system calls are arguments; a schedule of system calls says how many bytes each call moves or
  that it fails. Loops are structural recursion; the few that are not (the tree's eviction, the
  chunks of a batch, the file loops, making room on disk) have termination proofs, so no fuel is
  needed; following parent links and merging states until nothing changes are \<open>partial_function\<close>s, shown
  to return on well-formed arguments. The clock of the row cache runs twice around its slots, as the code bounds it.

  \<^bold>\<open>Not modelled.\<close> Kernels and the device runtime, whose sources are not Rust; tensor layers and weight
  loading, which launch them; the HTTP server, request formatting and third-party parsers; tracing
  and counters that feed only logs; the thread pool of a large row fault, which writes the same
  disjoint slots; the scale arena beside the row arena. Of the grammar engine, the
  readers of EBNF, schemas and expressions, the optimiser, the Earley matcher and the token masks; of
  the scheduler, its lanes, which call the model.
\<close>

end
